(* ===== verification/Prelude.thy ===== *)
theory Prelude
  imports Complex_Main "HOL-Library.AList" "HOL-Library.Multiset"
begin

text \<open>
  Shared vocabulary of the development: JavaScript numbers and \<open>unknown\<close> values as the
  validators of the gateway see them, insertion-ordered \<open>Map\<close>s as association lists,
  decimal template strings, the generic invariant locale, and the list, map and arithmetic
  lemmas that several components use.

  Times and counters are unbounded integers: the code keeps every one of them far below
  \<open>Number.MAX_SAFE_INTEGER\<close> or saturates there explicitly (\<open>max_safe_integer\<close>), and the
  saturation is written out where the code has it. Fractional quantities (smoothing factors,
  utilisation, shares) are rationals: IEEE rounding is not modelled.
\<close>

named_theorems map_ops \<open>how insertion-ordered maps react to set and delete\<close>

named_theorems wf_intros \<open>well-formedness of the components' states\<close>


section \<open>Numbers and untyped values\<close>

definition max_safe_integer :: int where
  "max_safe_integer = 9007199254740991"

definition is_safe_integer :: "int \<Rightarrow> bool" where
  "is_safe_integer n \<longleftrightarrow> \<bar>n\<bar> \<le> max_safe_integer"

datatype js_number = Finite rat | NaN | Infinity | NegInfinity

text \<open>An argument of TypeScript type \<open>unknown\<close> or an optional field.\<close>

datatype js_value = Undefined | Null | Number js_number | Str string | Boolean bool | Object

text \<open>\<open>typeof v === "number" && Number.isSafeInteger(v)\<close>, with the integer it holds.\<close>

fun safe_integer_of :: "js_value \<Rightarrow> int option" where
  "safe_integer_of (Number (Finite r)) =
     (if of_int \<lfloor>r\<rfloor> = r \<and> is_safe_integer \<lfloor>r\<rfloor> then Some \<lfloor>r\<rfloor> else None)"
| "safe_integer_of _ = None"

text \<open>\<open>typeof v === "number" && Number.isFinite(v)\<close>, with the number it holds.\<close>

fun finite_of :: "js_value \<Rightarrow> rat option" where
  "finite_of (Number (Finite r)) = Some r"
| "finite_of _ = None"

text \<open>\<open>v ?? d\<close>.\<close>

fun nullish_default :: "js_value \<Rightarrow> js_value \<Rightarrow> js_value" where
  "nullish_default Undefined d = d"
| "nullish_default Null d = d"
| "nullish_default v d = v"

lemma safe_integer_of_Some:
  "safe_integer_of v = Some n \<longleftrightarrow> v = Number (Finite (of_int n)) \<and> is_safe_integer n"
  by (cases v rule: safe_integer_of.cases) auto

lemma floor_rat_numeral_divide [simp]:
  "\<lfloor>(numeral a :: rat) / numeral b\<rfloor> = numeral a div numeral b"
  by (metis floor_divide_of_int_eq of_int_numeral)

lemma ceiling_rat_numeral_divide [simp]:
  "\<lceil>(numeral a :: rat) / numeral b\<rceil> = - ((- numeral a) div numeral b)"
  by (metis ceiling_divide_eq_div of_int_numeral)

lemma floor_mult_le:
  fixes f :: rat
  assumes "0 \<le> f" "f \<le> 1" "0 \<le> n"
  shows "\<lfloor>of_int n * f\<rfloor> \<le> n"
proof -
  have "of_int n * f \<le> of_int n"
    using mult_left_mono [of f 1 "of_int n"] assms by simp
  then show ?thesis by (simp add: floor_le_iff)
qed


text \<open>\<open>a ?? d\<close> on a field that may be absent.\<close>

definition opt_default :: "'a option \<Rightarrow> 'a \<Rightarrow> 'a" where
  "opt_default a d = (case a of Some x \<Rightarrow> x | None \<Rightarrow> d)"


section \<open>Results\<close>

text \<open>A computation that may throw: \<open>Inl\<close> the error, \<open>Inr\<close> the value.\<close>

definition and_then :: "'e + 'a \<Rightarrow> ('a \<Rightarrow> 'e + 'b) \<Rightarrow> 'e + 'b" where
  "and_then r f = (case r of Inl e \<Rightarrow> Inl e | Inr a \<Rightarrow> f a)"

lemma and_then_Inr [simp]: "and_then (Inr a) f = f a"
  by (simp add: and_then_def)

lemma and_then_Inl [simp]: "and_then (Inl e) f = Inl e"
  by (simp add: and_then_def)

lemma and_then_eq_Inr: "and_then r f = Inr b \<longleftrightarrow> (\<exists>a. r = Inr a \<and> f a = Inr b)"
  by (cases r) auto

lemma and_then_InrE:
  assumes "and_then r f = Inr b"
  obtains a where "r = Inr a" "f a = Inr b"
  using assms by (auto simp: and_then_eq_Inr)

lemma and_then_eq_Inl: "and_then r f = Inl e \<longleftrightarrow> r = Inl e \<or> (\<exists>a. r = Inr a \<and> f a = Inl e)"
  by (cases r) auto


section \<open>Insertion-ordered maps\<close>

text \<open>
  A JavaScript \<open>Map\<close> iterates in insertion order, and \<open>set\<close> on a present key keeps its
  place: exactly \<open>AList.update\<close> on an association list. \<open>delete\<close> is \<open>AList.delete\<close> and
  \<open>get\<close> is \<open>map_of\<close>.
\<close>

type_synonym ('k, 'v) js_map = "('k \<times> 'v) list"

abbreviation js_get :: "('k, 'v) js_map \<Rightarrow> 'k \<Rightarrow> 'v option" where
  "js_get m k \<equiv> map_of m k"

abbreviation js_set :: "'k \<Rightarrow> 'v \<Rightarrow> ('k, 'v) js_map \<Rightarrow> ('k, 'v) js_map" where
  "js_set k v m \<equiv> AList.update k v m"

abbreviation js_delete :: "'k \<Rightarrow> ('k, 'v) js_map \<Rightarrow> ('k, 'v) js_map" where
  "js_delete k m \<equiv> AList.delete k m"

abbreviation js_keys :: "('k, 'v) js_map \<Rightarrow> 'k list" where
  "js_keys m \<equiv> map fst m"

abbreviation js_values :: "('k, 'v) js_map \<Rightarrow> 'v list" where
  "js_values m \<equiv> map snd m"

definition js_has :: "('k, 'v) js_map \<Rightarrow> 'k \<Rightarrow> bool" where
  "js_has m k \<longleftrightarrow> js_get m k \<noteq> None"

text \<open>A map value: every key once.\<close>

abbreviation js_map_ok :: "('k, 'v) js_map \<Rightarrow> bool" where
  "js_map_ok m \<equiv> distinct (js_keys m)"

lemma js_get_set [map_ops, simp]:
  "js_get (js_set k v m) k' = (if k' = k then Some v else js_get m k')"
  by (simp add: update_conv')

lemma js_get_delete [map_ops, simp]:
  "js_get (js_delete k m) k' = (if k' = k then None else js_get m k')"
  by (simp add: delete_conv')

lemma js_has_set [map_ops, simp]: "js_has (js_set k v m) k' \<longleftrightarrow> k' = k \<or> js_has m k'"
  by (simp add: js_has_def)

lemma js_has_delete [map_ops, simp]: "js_has (js_delete k m) k' \<longleftrightarrow> k' \<noteq> k \<and> js_has m k'"
  by (simp add: js_has_def)

lemma js_has_keys: "js_has m k \<longleftrightarrow> k \<in> set (js_keys m)"
  by (simp add: js_has_def map_of_eq_None_iff)

lemma js_map_ok_set [wf_intros, simp]: "js_map_ok m \<Longrightarrow> js_map_ok (js_set k v m)"
  by (rule distinct_update)

lemma js_map_ok_delete [wf_intros, simp]: "js_map_ok m \<Longrightarrow> js_map_ok (js_delete k m)"
  by (rule distinct_delete)

lemma set_js_keys_set [simp]: "set (js_keys (js_set k v m)) = insert k (set (js_keys m))"
  by (simp flip: dom_map_of_conv_image_fst add: update_conv')

lemma set_js_keys_delete [simp]: "set (js_keys (js_delete k m)) = set (js_keys m) - {k}"
  by (auto simp flip: dom_map_of_conv_image_fst simp: delete_conv')

text \<open>The place of a key splits the map; \<open>set\<close> and \<open>delete\<close> act at that place.\<close>

lemma js_get_split:
  assumes "js_get m k = Some v"
  obtains m1 m2 where "m = m1 @ (k, v) # m2" "k \<notin> set (js_keys m1)"
  using assms
proof (induction m arbitrary: thesis)
  case Nil
  then show ?case by simp
next
  case (Cons p m)
  show ?case
  proof (cases "fst p = k")
    case True
    with Cons.prems(2) have "p # m = [] @ (k, v) # m" by (cases p) auto
    then show ?thesis by (rule Cons.prems(1)) simp
  next
    case False
    with Cons.prems(2) have "js_get m k = Some v" by (cases p) auto
    then obtain m1 m2 where "m = m1 @ (k, v) # m2" "k \<notin> set (js_keys m1)"
      using Cons.IH by blast
    with False show ?thesis by (intro Cons.prems(1) [of "p # m1" m2]) auto
  qed
qed

lemma js_set_split [simp]:
  "k \<notin> set (js_keys m1) \<Longrightarrow> js_set k v' (m1 @ (k, v) # m2) = m1 @ (k, v') # m2"
  by (induction m1) auto

lemma js_delete_absent [simp]: "k \<notin> set (js_keys m) \<Longrightarrow> js_delete k m = m"
  unfolding AList.delete_eq by (induction m) auto

lemma js_delete_append: "js_delete k (m1 @ m2) = js_delete k m1 @ js_delete k m2"
  by (simp add: AList.delete_eq)

lemma js_delete_split [simp]:
  "k \<notin> set (js_keys m1) \<Longrightarrow> js_delete k (m1 @ (k, v) # m2) = m1 @ js_delete k m2"
  by (simp add: js_delete_append [of k m1 "(k, v) # m2"])

lemma js_set_absent: "k \<notin> set (js_keys m) \<Longrightarrow> js_set k v m = m @ [(k, v)]"
  by (induction m) auto

text \<open>Addressing a map by position: what the parallel key arrays of the code rely on.\<close>

lemma js_get_nth:
  "js_map_ok m \<Longrightarrow> i < length m \<Longrightarrow> js_get m (fst (m ! i)) = Some (snd (m ! i))"
  by (simp add: map_of_eq_Some_iff)

lemma js_nth_split:
  assumes "js_map_ok m" "i < length m"
  shows "m = take i m @ (fst (m ! i), snd (m ! i)) # drop (Suc i) m"
    and "fst (m ! i) \<notin> set (js_keys (take i m))"
    and "fst (m ! i) \<notin> set (js_keys (drop (Suc i) m))"
proof -
  show m: "m = take i m @ (fst (m ! i), snd (m ! i)) # drop (Suc i) m"
    using assms(2) by (simp add: id_take_nth_drop [symmetric])
  have "distinct (js_keys (take i m @ (fst (m ! i), snd (m ! i)) # drop (Suc i) m))"
    using assms(1) m by metis
  then show "fst (m ! i) \<notin> set (js_keys (take i m))"
    and "fst (m ! i) \<notin> set (js_keys (drop (Suc i) m))"
    by auto
qed

lemma js_set_nth:
  assumes "js_map_ok m" "i < length m"
  shows "js_set (fst (m ! i)) v m = take i m @ (fst (m ! i), v) # drop (Suc i) m"
  by (metis js_nth_split(1,2) [OF assms] js_set_split)

lemma js_delete_nth:
  assumes "js_map_ok m" "i < length m"
  shows "js_delete (fst (m ! i)) m = take i m @ drop (Suc i) m"
  by (metis js_nth_split [OF assms] js_delete_split js_delete_absent)

lemma length_js_set: "length (js_set k v m) = (if js_has m k then length m else Suc (length m))"
  by (induction m) (auto simp: js_has_def)

lemma values_set: "set (js_values (js_set k v m)) \<subseteq> insert v (set (js_values m))"
  by (induction m) auto

lemma list_all_js_set:
  assumes "list_all P m" "P (k, v)"
  shows "list_all P (js_set k v m)"
  using assms by (induction m) auto

lemma js_set_nonempty [simp]: "js_set k v m \<noteq> []"
  by (cases m) auto

text \<open>A quantity summed over the values, and how \<open>set\<close> and \<open>delete\<close> change it.\<close>

lemma sum_js_delete:
  fixes f :: "'v \<Rightarrow> int"
  assumes "js_map_ok m" "js_get m k = Some v"
  shows "(\<Sum>x\<leftarrow>js_values (js_delete k m). f x) = (\<Sum>x\<leftarrow>js_values m. f x) - f v"
proof -
  obtain m1 m2 where m: "m = m1 @ (k, v) # m2" "k \<notin> set (js_keys m1)"
    using js_get_split [OF assms(2)] by blast
  with assms(1) have "k \<notin> set (js_keys m2)" by auto
  with m show ?thesis by simp
qed

lemma sum_js_set_absent:
  fixes f :: "'v \<Rightarrow> int"
  shows "k \<notin> set (js_keys m) \<Longrightarrow>
    (\<Sum>x\<leftarrow>js_values (js_set k v m). f x) = (\<Sum>x\<leftarrow>js_values m. f x) + f v"
  by (simp add: js_set_absent)

lemma sum_js_set_present:
  fixes f :: "'v \<Rightarrow> int"
  assumes "js_get m k = Some v"
  shows "(\<Sum>x\<leftarrow>js_values (js_set k v' m). f x) = (\<Sum>x\<leftarrow>js_values m. f x) - f v + f v'"
proof -
  obtain m1 m2 where m: "m = m1 @ (k, v) # m2" "k \<notin> set (js_keys m1)"
    using js_get_split [OF assms] by blast
  then show ?thesis by simp
qed

lemma js_values_get: "js_get m k = Some v \<Longrightarrow> v \<in> set (js_values m)"
  by (metis image_eqI map_of_SomeD set_map snd_conv)

lemma js_get_values:
  "js_map_ok m \<Longrightarrow> v \<in> set (js_values m) \<Longrightarrow> \<exists>k. js_get m k = Some v"
  by (auto simp: map_of_eq_Some_iff)


lemma sum_mset_int_nonneg:
  fixes f :: "'a \<Rightarrow> int"
  shows "(\<And>x. x \<in># M \<Longrightarrow> 0 \<le> f x) \<Longrightarrow> 0 \<le> (\<Sum>x\<in>#M. f x)"
  by (induction M) auto


section \<open>Decimal strings\<close>

text \<open>\<open>String(n)\<close> for a non-negative integer, as template strings print it.\<close>

definition digit :: "nat \<Rightarrow> char" where
  "digit d = char_of (48 + d)"

fun show_nat :: "nat \<Rightarrow> string" where
  "show_nat n = (if n < 10 then [digit n] else show_nat (n div 10) @ [digit (n mod 10)])"

declare show_nat.simps [simp del]

definition read_digits :: "string \<Rightarrow> nat" where
  "read_digits s = foldl (\<lambda>n c. 10 * n + (of_char c - 48)) 0 s"

lemma of_char_digit: "d < 10 \<Longrightarrow> of_char (digit d) = (48 + d :: nat)"
  by (simp add: digit_def)

lemma read_digits_show_nat: "read_digits (show_nat n) = n"
proof (induction n rule: show_nat.induct)
  case (1 n)
  show ?case
  proof (cases "n < 10")
    case True
    then show ?thesis
      by (subst show_nat.simps) (simp add: read_digits_def of_char_digit)
  next
    case False
    with 1 have "read_digits (show_nat (n div 10)) = n div 10" by simp
    with False show ?thesis
      by (subst show_nat.simps) (simp add: read_digits_def of_char_digit)
  qed
qed

lemma show_nat_inject [simp]: "show_nat m = show_nat n \<longleftrightarrow> m = n"
  by (metis read_digits_show_nat)

lemma show_nat_digits: "c \<in> set (show_nat n) \<Longrightarrow> \<exists>d<10. c = digit d"
proof (induction n rule: show_nat.induct)
  case (1 n)
  then show ?case
    by (subst (asm) (2) show_nat.simps) (auto split: if_splits intro: exI [of _ "n mod 10"])
qed


section \<open>Text\<close>

text \<open>\<open>trim\<close> and \<open>toLowerCase\<close> on the characters of a byte.\<close>

definition js_space :: "char \<Rightarrow> bool" where
  "js_space c \<longleftrightarrow> (let n = of_char c :: nat in 9 \<le> n \<and> n \<le> 13 \<or> n = 32 \<or> n = 160)"

definition js_trim :: "string \<Rightarrow> string" where
  "js_trim s = rev (dropWhile js_space (rev (dropWhile js_space s)))"

definition js_lower :: "char \<Rightarrow> char" where
  "js_lower c = (let n = of_char c :: nat in if 65 \<le> n \<and> n \<le> 90 then char_of (n + 32) else c)"

definition is_digit :: "char \<Rightarrow> bool" where
  "is_digit c \<longleftrightarrow> (let n = of_char c :: nat in 48 \<le> n \<and> n \<le> 57)"

definition digit_value :: "char \<Rightarrow> int" where
  "digit_value c = int (of_char c) - 48"

lemma digit_facts: "d < 10 \<Longrightarrow> is_digit (digit d) \<and> digit_value (digit d) = int d \<and> \<not> js_space (digit d)"
  by (simp add: is_digit_def digit_value_def js_space_def of_char_digit Let_def)

lemma dropWhile_none: "(\<And>c. c \<in> set s \<Longrightarrow> \<not> P c) \<Longrightarrow> dropWhile P s = s"
  by (cases s) auto

lemma js_trim_none:
  assumes "\<And>c. c \<in> set s \<Longrightarrow> \<not> js_space c"
  shows "js_trim s = s"
proof -
  have "dropWhile js_space s = s" "dropWhile js_space (rev s) = rev s"
    using assms by (intro dropWhile_none; simp)+
  then show ?thesis by (simp add: js_trim_def)
qed

text \<open>\<open>split\<close> at one character, and \<open>parseInt\<close> with radix 10 (\<open>None\<close> is \<open>NaN\<close>).\<close>

fun js_split :: "char \<Rightarrow> string \<Rightarrow> string list" where
  "js_split c [] = [[]]"
| "js_split c (x # xs) =
     (if x = c then [] # js_split c xs else (x # hd (js_split c xs)) # tl (js_split c xs))"

definition parse_digits :: "string \<Rightarrow> int option" where
  "parse_digits s =
     (let ds = takeWhile is_digit s in
      if ds = [] then None else Some (foldl (\<lambda>n c. 10 * n + digit_value c) 0 ds))"

definition parseInt :: "string \<Rightarrow> int option" where
  "parseInt s =
     (case dropWhile js_space s of
        [] \<Rightarrow> None
      | c # r \<Rightarrow> if c = CHR 0x2D then map_option uminus (parse_digits r)
                 else if c = CHR 0x2B then parse_digits r
                 else parse_digits (c # r))"

lemma js_split_nonempty [simp]: "js_split c s \<noteq> []"
  by (induction s) simp_all

lemma js_split_word [simp]: "c \<notin> set w \<Longrightarrow> js_split c w = [w]"
  by (induction w) auto

lemma js_split_append [simp]: "c \<notin> set w \<Longrightarrow> js_split c (w @ c # s) = w # js_split c s"
  by (induction w) auto

lemma show_nat_nonempty [simp]: "show_nat n \<noteq> []"
  by (subst show_nat.simps) simp

lemma digits_value: "list_all is_digit ds \<Longrightarrow> foldl (\<lambda>n c. 10 * n + digit_value c) (int a) ds
    = int (foldl (\<lambda>n c. 10 * n + (of_char c - 48)) a ds)"
proof (induction ds arbitrary: a)
  case (Cons d ds)
  have "digit_value d = int (of_char d - 48)"
    using Cons.prems by (simp add: digit_value_def is_digit_def Let_def of_nat_diff)
  then have "10 * int a + digit_value d = int (10 * a + (of_char d - 48))" by simp
  with Cons.IH [of "10 * a + (of_char d - 48)"] Cons.prems show ?case by (simp only: foldl_Cons list.pred_inject)
qed simp

lemma parseInt_show_nat [simp]: "parseInt (show_nat n) = Some (int n)"
proof -
  have d: "is_digit c \<and> \<not> js_space c \<and> c \<noteq> CHR 0x2D \<and> c \<noteq> CHR 0x2B" if c: "c \<in> set (show_nat n)" for c
  proof -
    obtain d where "d < 10" "c = digit d" using show_nat_digits [OF c] by blast
    then have "is_digit c \<and> \<not> js_space c" using digit_facts by blast
    moreover have "\<not> is_digit (CHR 0x2D)" "\<not> is_digit (CHR 0x2B)" by (simp_all add: is_digit_def)
    ultimately show ?thesis by metis
  qed
  then have all: "list_all is_digit (show_nat n)" by (simp add: list_all_iff)
  then have tw: "takeWhile is_digit (show_nat n) = show_nat n" by (simp add: list_all_iff)
  have p: "parse_digits (show_nat n) = Some (int n)"
    unfolding parse_digits_def tw Let_def
    using digits_value [OF all, of 0] read_digits_show_nat [of n] by (simp add: read_digits_def)
  obtain c r where cr: "show_nat n = c # r" by (cases "show_nat n") simp_all
  with d have "dropWhile js_space (show_nat n) = c # r" "c \<noteq> CHR 0x2D" "c \<noteq> CHR 0x2B" by auto
  with p cr show ?thesis by (simp add: parseInt_def)
qed


section \<open>Steps that keep an invariant\<close>

text \<open>
  Every component with state is run over a list of events by \<open>foldl\<close>. A component that
  shows its invariant for one step (under a condition on the event that may depend on the
  state) gets it for every run.
\<close>

locale step_invariant =
  fixes step :: "'s \<Rightarrow> 'e \<Rightarrow> 's"
    and ok :: "'s \<Rightarrow> 'e \<Rightarrow> bool"
    and good :: "'s \<Rightarrow> bool"
  assumes step_good: "good s \<Longrightarrow> ok s e \<Longrightarrow> good (step s e)"
begin

fun run_ok :: "'s \<Rightarrow> 'e list \<Rightarrow> bool" where
  "run_ok s [] = True"
| "run_ok s (e # es) = (ok s e \<and> run_ok (step s e) es)"

lemma run_good: "good s \<Longrightarrow> run_ok s es \<Longrightarrow> good (foldl step s es)"
  by (induction es arbitrary: s) (auto intro: step_good)

lemma run_ok_append: "run_ok s (xs @ ys) \<longleftrightarrow> run_ok s xs \<and> run_ok (foldl step s xs) ys"
  by (induction xs arbitrary: s) auto

lemma run_prefix_good:
  assumes "good s" "run_ok s es"
  shows "good (foldl step s (take n es))"
proof -
  have "run_ok s (take n es @ drop n es)" using assms(2) by simp
  then have "run_ok s (take n es)" by (simp only: run_ok_append)
  with assms(1) show ?thesis by (rule run_good)
qed

lemma run_always_good:
  assumes "good s" "\<And>s e. good s \<Longrightarrow> e \<in> set es \<Longrightarrow> ok s e"
  shows "good (foldl step s es)"
  using assms
proof (induction es arbitrary: s)
  case Nil
  then show ?case by simp
next
  case (Cons e es)
  then have "good (step s e)" by (auto intro: step_good)
  then show ?case using Cons.IH [of "step s e"] Cons.prems(2) by simp
qed

end

end
