(* ===== verification/Admission_Queue.thy ===== *)
theory Admission_Queue
  imports Prelude
begin

text \<open>
  The bounded multi-tenant fair queue of \<open>open-sse/services/admission/queue.ts\<close>
  (\<open>FairCostQueue\<close>): one FIFO bucket per tenant, a round-robin cursor over the tenants in
  order of arrival, caps on the number of entries and on their total cost, and the
  reservation of capacity for a head that smaller work has passed over twice. The code mutates
  \<open>entry.skipCount\<close> in place; here the head of the bucket is rewritten.
\<close>


section \<open>State\<close>

definition MAX_UNFITTABLE_SKIPS :: nat where
  "MAX_UNFITTABLE_SKIPS = 2"

record 'p queue_entry =
  entryId :: string
  tenantKey :: string
  entryCost :: int
  enqueuedAtMs :: int
  deadlineMs :: int
  payload :: 'p
  skipCount :: nat

record 'p fair_queue =
  buckets :: "(string, 'p queue_entry list) js_map"
  order :: "string list"
  cursor :: nat
  fqCount :: int
  fqCost :: int
  maxCount :: int
  maxCost :: int

definition new_queue :: "int \<Rightarrow> int \<Rightarrow> 'p fair_queue" where
  "new_queue mcount mcost =
     \<lparr>buckets = [], order = [], cursor = 0, fqCount = 0, fqCost = 0,
      maxCount = mcount, maxCost = mcost\<rparr>"

definition fq_size :: "'p fair_queue \<Rightarrow> int" where
  "fq_size q = fqCount q"

definition totalCost :: "'p fair_queue \<Rightarrow> int" where
  "totalCost q = fqCost q"


section \<open>Operations\<close>

definition canAccept :: "'p fair_queue \<Rightarrow> int \<Rightarrow> bool" where
  "canAccept q c =
     (if \<not> is_safe_integer c \<or> c \<le> 0 then False
      else if fqCount q \<ge> maxCount q then False
      else if c > maxCost q - fqCost q then False
      else True)"

definition enqueue :: "'p fair_queue \<Rightarrow> 'p queue_entry \<Rightarrow> bool \<times> 'p fair_queue" where
  "enqueue q e =
     (if \<not> canAccept q (entryCost e) then (False, q)
      else
        let q1 = (case js_get (buckets q) (tenantKey e) of
                    None \<Rightarrow> q\<lparr>buckets := js_set (tenantKey e) [e] (buckets q),
                              order := order q @ [tenantKey e]\<rparr>
                  | Some bucket \<Rightarrow> q\<lparr>buckets := js_set (tenantKey e) (bucket @ [e]) (buckets q)\<rparr>)
        in (True, q1\<lparr>fqCount := fqCount q + 1, fqCost := fqCost q + entryCost e\<rparr>))"

text \<open>\<open>this.buckets.get(this.order[idx])?.[0]\<close>\<close>

definition bucket_at :: "'p fair_queue \<Rightarrow> nat \<Rightarrow> 'p queue_entry list" where
  "bucket_at q idx =
     (if idx < length (order q)
      then (case js_get (buckets q) (order q ! idx) of None \<Rightarrow> [] | Some b \<Rightarrow> b)
      else [])"

definition head_at :: "'p fair_queue \<Rightarrow> nat \<Rightarrow> 'p queue_entry option" where
  "head_at q idx = (case bucket_at q idx of [] \<Rightarrow> None | e # _ \<Rightarrow> Some e)"

definition takeAt :: "'p fair_queue \<Rightarrow> nat \<Rightarrow> 'p queue_entry option \<times> 'p fair_queue" where
  "takeAt q idx =
     (case bucket_at q idx of
        [] \<Rightarrow> (None, q)
      | e # rest \<Rightarrow>
          let tenant = order q ! idx;
              q1 = q\<lparr>fqCount := fqCount q - 1, fqCost := fqCost q - entryCost e\<rparr>;
              order' = take idx (order q) @ drop (Suc idx) (order q)
          in (Some (e\<lparr>skipCount := 0\<rparr>),
              if rest = []
              then q1\<lparr>buckets := js_delete tenant (buckets q),
                      order := order',
                      cursor := (if order' = [] then 0 else idx mod length order')\<rparr>
              else q1\<lparr>buckets := js_set tenant rest (buckets q),
                      cursor := (idx + 1) mod length (order q)\<rparr>))"

text \<open>The indices a round-robin pass visits: \<open>(cursor + i) % n\<close> for \<open>i\<close> below \<open>n\<close>.\<close>

definition pass_order :: "'p fair_queue \<Rightarrow> nat list" where
  "pass_order q = map (\<lambda>i. (cursor q + i) mod length (order q)) [0..<length (order q)]"

text \<open>First loop of \<open>dequeue\<close>: the oldest head that was passed over often enough.\<close>

definition reserve_step ::
  "'p fair_queue \<Rightarrow> (nat \<times> 'p queue_entry) option \<Rightarrow> nat \<Rightarrow> (nat \<times> 'p queue_entry) option" where
  "reserve_step q acc idx =
     (case head_at q idx of
        None \<Rightarrow> acc
      | Some e \<Rightarrow>
          if skipCount e \<ge> MAX_UNFITTABLE_SKIPS then
            (case acc of
               None \<Rightarrow> Some (idx, e)
             | Some (j, r) \<Rightarrow> if enqueuedAtMs e < enqueuedAtMs r then Some (idx, e) else acc)
          else acc)"

definition reserved :: "'p fair_queue \<Rightarrow> (nat \<times> 'p queue_entry) option" where
  "reserved q = foldl (reserve_step q) None (pass_order q)"

text \<open>\<open>skipped.skipCount += 1\<close> on the head of the bucket at an index.\<close>

definition bump_head :: "nat \<Rightarrow> 'p fair_queue \<Rightarrow> 'p fair_queue" where
  "bump_head idx q =
     (case bucket_at q idx of
        [] \<Rightarrow> q
      | e # rest \<Rightarrow>
          q\<lparr>buckets := js_set (order q ! idx) (e\<lparr>skipCount := skipCount e + 1\<rparr> # rest) (buckets q)\<rparr>)"

text \<open>Second loop of \<open>dequeue\<close>: the first head that fits; the heads bypassed on the way age.\<close>

fun scan :: "'p fair_queue \<Rightarrow> int \<Rightarrow> nat list \<Rightarrow> nat list \<Rightarrow> 'p queue_entry option \<times> 'p fair_queue"
where
  "scan q m bypassed [] = (None, q)"
| "scan q m bypassed (idx # idxs) =
     (case head_at q idx of
        None \<Rightarrow> scan q m bypassed idxs
      | Some e \<Rightarrow>
          if entryCost e > m then scan q m (bypassed @ [idx]) idxs
          else takeAt (fold bump_head bypassed q) idx)"

definition dequeue :: "'p fair_queue \<Rightarrow> int \<Rightarrow> 'p queue_entry option \<times> 'p fair_queue" where
  "dequeue q m =
     (if fqCount q = 0 then (None, q)
      else
        case reserved q of
          Some (idx, e) \<Rightarrow> if entryCost e > m then (None, q) else takeAt q idx
        | None \<Rightarrow> scan q m [] (pass_order q))"

definition peek :: "'p fair_queue \<Rightarrow> 'p queue_entry option" where
  "peek q =
     (if fqCount q = 0 then None
      else case filter (\<lambda>idx. bucket_at q idx \<noteq> []) (pass_order q) of
             [] \<Rightarrow> None
           | idx # _ \<Rightarrow> head_at q idx)"

text \<open>\<open>bucket.findIndex((e) => e.id === id)\<close> and \<open>bucket.splice(idx, 1)\<close>.\<close>

fun take_id :: "string \<Rightarrow> 'p queue_entry list \<Rightarrow> ('p queue_entry \<times> 'p queue_entry list) option" where
  "take_id eid [] = None"
| "take_id eid (e # es) =
     (if entryId e = eid then Some (e, es)
      else map_option (\<lambda>(x, rest). (x, e # rest)) (take_id eid es))"

text \<open>The loop of \<open>removeById\<close> from tenant index \<open>ti\<close> on.\<close>

function removeFrom ::
  "'p fair_queue \<Rightarrow> string \<Rightarrow> nat \<Rightarrow> 'p queue_entry option \<times> 'p fair_queue" where
  "removeFrom q eid ti =
     (if ti \<ge> length (order q) then (None, q)
      else
        case take_id eid (bucket_at q ti) of
          None \<Rightarrow> removeFrom q eid (Suc ti)
        | Some (e, rest) \<Rightarrow>
            let tenant = order q ! ti;
                q1 = q\<lparr>fqCount := fqCount q - 1, fqCost := fqCost q - entryCost e\<rparr>;
                order' = take ti (order q) @ drop (Suc ti) (order q)
            in (Some e,
                if rest = []
                then q1\<lparr>buckets := js_delete tenant (buckets q),
                        order := order',
                        cursor := (if order' = [] then 0
                                   else if ti < cursor q then cursor q - 1
                                   else if cursor q \<ge> length order' then 0
                                   else cursor q)\<rparr>
                else q1\<lparr>buckets := js_set tenant rest (buckets q)\<rparr>))"
  by pat_completeness auto
termination
  by (relation "measure (\<lambda>(q, eid, ti). length (order q) - ti)") auto

declare removeFrom.simps [simp del]

definition removeById :: "'p fair_queue \<Rightarrow> string \<Rightarrow> 'p queue_entry option \<times> 'p fair_queue" where
  "removeById q eid = removeFrom q eid 0"


section \<open>What the queue holds\<close>

text \<open>
  The abstract content: the entries as a multiset, with the age mark erased, since a failed or
  successful pass only ages entries. \<open>entries\<close> lists them tenant by tenant.
\<close>

definition entries :: "'p fair_queue \<Rightarrow> 'p queue_entry list" where
  "entries q = concat (js_values (buckets q))"

definition core :: "'p queue_entry \<Rightarrow> 'p queue_entry" where
  "core e = e\<lparr>skipCount := 0\<rparr>"

definition content :: "'p fair_queue \<Rightarrow> 'p queue_entry multiset" where
  "content q = image_mset core (mset (entries q))"

lemma core_fresh: "skipCount e = 0 \<Longrightarrow> core e = e"
  by (cases e) (simp add: core_def)

lemma core_simps [simp]:
  "entryId (core e) = entryId e" "tenantKey (core e) = tenantKey e"
  "entryCost (core e) = entryCost e" "enqueuedAtMs (core e) = enqueuedAtMs e"
  "deadlineMs (core e) = deadlineMs e" "payload (core e) = payload e" "skipCount (core e) = 0"
  "core (core e) = core e" "core (e\<lparr>skipCount := n\<rparr>) = core e" "e\<lparr>skipCount := 0\<rparr> = core e"
  by (simp_all add: core_def)

text \<open>Every operation that takes an entry out shortens the queue, whatever its state.\<close>

lemma length_entries_set:
  "js_get m k = Some v \<Longrightarrow>
   length (concat (js_values (js_set k v' m))) + length v = length (concat (js_values m)) + length v'"
  by (elim js_get_split) simp

lemma length_entries_delete_le:
  "length (concat (js_values (js_delete k m))) \<le> length (concat (js_values m))"
  unfolding AList.delete_eq by (induction m) auto

lemma length_entries_delete:
  "js_get m k = Some v \<Longrightarrow>
   length (concat (js_values (js_delete k m))) + length v \<le> length (concat (js_values m))"
  by (elim js_get_split) (simp add: add_mono length_entries_delete_le)

lemma bucket_at_get:
  "bucket_at q i = e # es \<Longrightarrow> js_get (buckets q) (order q ! i) = Some (e # es)"
  by (auto simp: bucket_at_def split: if_splits option.splits)

lemma takeAt_shorter:
  assumes "takeAt q i = (Some e, q')"
  shows "length (entries q') < length (entries q)"
proof (cases "bucket_at q i")
  case Nil
  with assms show ?thesis by (simp add: takeAt_def)
next
  case (Cons x xs)
  then have g: "js_get (buckets q) (order q ! i) = Some (x # xs)" by (rule bucket_at_get)
  show ?thesis
  proof (cases "xs = []")
    case True
    with assms Cons have "buckets q' = js_delete (order q ! i) (buckets q)"
      by (auto simp: takeAt_def Let_def)
    with length_entries_delete [OF g] True show ?thesis by (simp add: entries_def)
  next
    case False
    with assms Cons have "buckets q' = js_set (order q ! i) xs (buckets q)"
      by (auto simp: takeAt_def Let_def)
    with length_entries_set [OF g, of xs] show ?thesis by (simp add: entries_def)
  qed
qed

lemma bump_head_length: "length (entries (bump_head i q)) = length (entries q)"
proof (cases "bucket_at q i")
  case Nil
  then show ?thesis by (simp add: bump_head_def)
next
  case (Cons x xs)
  with length_entries_set [OF bucket_at_get [OF Cons], of "x\<lparr>skipCount := skipCount x + 1\<rparr> # xs"]
  show ?thesis by (simp add: bump_head_def entries_def)
qed

lemma fold_bump_length: "length (entries (fold bump_head is q)) = length (entries q)"
  by (induction "is" arbitrary: q) (simp_all add: bump_head_length)

lemma scan_shorter:
  "scan q m bypassed idxs = (Some e, q') \<Longrightarrow> length (entries q') < length (entries q)"
proof (induction q m bypassed idxs rule: scan.induct)
  case (1 q m bypassed)
  then show ?case by simp
next
  case (2 q m bypassed idx idxs)
  then show ?case
    by (auto split: option.splits if_splits dest!: takeAt_shorter simp: fold_bump_length)
qed

lemma dequeue_shorter:
  "dequeue q m = (Some e, q') \<Longrightarrow> length (entries q') < length (entries q)"
  by (auto simp: dequeue_def split: option.splits if_splits prod.splits
      dest: takeAt_shorter scan_shorter)

text \<open>\<open>drain\<close>: dequeue with no cost limit until nothing comes, then reset the cursor.\<close>

function drain_loop :: "'p fair_queue \<Rightarrow> 'p queue_entry list \<times> 'p fair_queue" where
  "drain_loop q =
     (case dequeue q max_safe_integer of
        (None, q') \<Rightarrow> ([], q')
      | (Some e, q') \<Rightarrow> (case drain_loop q' of (es, q'') \<Rightarrow> (e # es, q'')))"
  by pat_completeness auto
termination
  by (relation "measure (\<lambda>q. length (entries q))") (auto dest: dequeue_shorter sym)

declare drain_loop.simps [simp del]

definition drain :: "'p fair_queue \<Rightarrow> 'p queue_entry list \<times> 'p fair_queue" where
  "drain q = (case drain_loop q of (es, q') \<Rightarrow> (es, q'\<lparr>cursor := 0\<rparr>))"


section \<open>Well-formedness\<close>

text \<open>
  The tenant ring and the map agree, no bucket is empty, entries sit under their tenant with a
  positive cost, the cursor points at a tenant, and the two counters are exact and capped.
  An entry that has been passed over is a head, at most \<open>MAX_UNFITTABLE_SKIPS\<close> times.
\<close>

fun bucket_ok :: "string \<times> 'p queue_entry list \<Rightarrow> bool" where
  "bucket_ok (t, b) =
     (b \<noteq> [] \<and> (\<forall>e\<in>set b. tenantKey e = t \<and> 0 < entryCost e) \<and>
      (\<forall>e\<in>set (tl b). skipCount e = 0) \<and> skipCount (hd b) \<le> MAX_UNFITTABLE_SKIPS)"

definition fq_wf :: "'p fair_queue \<Rightarrow> bool" where
  "fq_wf q \<longleftrightarrow>
     order q = js_keys (buckets q) \<and> distinct (order q) \<and>
     (\<forall>p\<in>set (buckets q). bucket_ok p) \<and>
     (cursor q < length (order q) \<or> order q = [] \<and> cursor q = 0) \<and>
     fqCount q = int (size (content q)) \<and>
     fqCost q = (\<Sum>e\<in>#content q. entryCost e) \<and>
     fqCount q \<le> maxCount q \<and> fqCost q \<le> maxCost q"

lemma fq_wf_new [wf_intros]: "0 \<le> n \<Longrightarrow> 0 \<le> c \<Longrightarrow> fq_wf (new_queue n c)"
  by (simp add: fq_wf_def new_queue_def content_def entries_def)

lemma fq_wfD:
  assumes "fq_wf q"
  shows "order q = js_keys (buckets q)" "js_map_ok (buckets q)"
    "\<And>i. i < length (order q) \<Longrightarrow> order q ! i = fst (buckets q ! i)"
    "length (order q) = length (buckets q)"
    "\<And>i. i < length (order q) \<Longrightarrow> bucket_ok (order q ! i, bucket_at q i)"
    "\<And>i. i < length (order q) \<Longrightarrow> bucket_at q i = snd (buckets q ! i)"
    "fqCount q = int (size (content q))"
    "fqCost q = (\<Sum>e\<in>#content q. entryCost e)"
proof -
  show k: "order q = js_keys (buckets q)" and d: "js_map_ok (buckets q)"
    and l: "length (order q) = length (buckets q)"
    and "fqCount q = int (size (content q))"
    and "fqCost q = (\<Sum>e\<in>#content q. entryCost e)"
    using assms by (auto simp: fq_wf_def)
  show n: "order q ! i = fst (buckets q ! i)" if "i < length (order q)" for i
    using that k by simp
  show b: "bucket_at q i = snd (buckets q ! i)" if "i < length (order q)" for i
    using that js_get_nth [OF d, of i] n [OF that] l by (simp add: bucket_at_def)
  show "bucket_ok (order q ! i, bucket_at q i)" if "i < length (order q)" for i
  proof -
    have "buckets q ! i = (order q ! i, bucket_at q i)"
      using b [OF that] n [OF that] by (simp add: prod_eq_iff)
    moreover have "bucket_ok (buckets q ! i)" using assms that l by (simp add: fq_wf_def)
    ultimately show ?thesis by simp
  qed
qed

text \<open>The queue around index \<open>i\<close>, and what rewriting that bucket does.\<close>

lemma buckets_around:
  assumes "fq_wf q" "i < length (order q)"
  shows "buckets q = take i (buckets q) @ (order q ! i, bucket_at q i) # drop (Suc i) (buckets q)"
    "js_set (order q ! i) b (buckets q) =
       take i (buckets q) @ (order q ! i, b) # drop (Suc i) (buckets q)"
    "js_delete (order q ! i) (buckets q) = take i (buckets q) @ drop (Suc i) (buckets q)"
proof -
  note w = fq_wfD [OF assms(1)]
  have i: "i < length (buckets q)" using assms(2) w(4) by simp
  show "buckets q = take i (buckets q) @ (order q ! i, bucket_at q i) # drop (Suc i) (buckets q)"
    using js_nth_split(1) [OF w(2) i] w(3,6) [OF assms(2)] by simp
  show "js_set (order q ! i) b (buckets q) =
      take i (buckets q) @ (order q ! i, b) # drop (Suc i) (buckets q)"
    using js_set_nth [OF w(2) i] w(3) [OF assms(2)] by simp
  show "js_delete (order q ! i) (buckets q) = take i (buckets q) @ drop (Suc i) (buckets q)"
    using js_delete_nth [OF w(2) i] w(3) [OF assms(2)] by simp
qed

lemma content_around:
  assumes "fq_wf q" "i < length (order q)"
  shows "content q =
     image_mset core (mset (concat (js_values (take i (buckets q))))) +
     image_mset core (mset (bucket_at q i)) +
     image_mset core (mset (concat (js_values (drop (Suc i) (buckets q)))))"
  unfolding content_def entries_def
  by (subst buckets_around(1) [OF assms]) (simp add: union_assoc)

lemma bucket_at_bound: "bucket_at q i = e # es \<Longrightarrow> i < length (order q)"
  by (simp add: bucket_at_def split: if_splits)

text \<open>Ageing a head changes nothing else.\<close>

lemma bump_head_frame [simp]:
  "order (bump_head i q) = order q" "cursor (bump_head i q) = cursor q"
  "fqCount (bump_head i q) = fqCount q" "fqCost (bump_head i q) = fqCost q"
  "maxCount (bump_head i q) = maxCount q" "maxCost (bump_head i q) = maxCost q"
  by (simp_all add: bump_head_def split: list.splits)

lemma bump_head_content:
  assumes "fq_wf q"
  shows "content (bump_head i q) = content q"
proof (cases "bucket_at q i")
  case Nil
  then show ?thesis by (simp add: bump_head_def)
next
  case (Cons e es)
  note i = bucket_at_bound [OF Cons]
  have "content (bump_head i q) =
      image_mset core (mset (concat (js_values (take i (buckets q))))) +
      image_mset core (mset (bucket_at q i)) +
      image_mset core (mset (concat (js_values (drop (Suc i) (buckets q)))))"
    using Cons by (simp add: bump_head_def content_def entries_def buckets_around(2) [OF assms i])
  then show ?thesis by (simp only: content_around [OF assms i])
qed

lemma bump_head_keys: "fq_wf q \<Longrightarrow> js_keys (buckets (bump_head i q)) = js_keys (buckets q)"
proof (cases "bucket_at q i")
  case Nil
  then show ?thesis by (simp add: bump_head_def)
next
  case (Cons e es)
  assume w: "fq_wf q"
  note i = bucket_at_bound [OF Cons]
  have "js_keys (buckets q) =
      js_keys (take i (buckets q) @ (order q ! i, bucket_at q i) # drop (Suc i) (buckets q))"
    using buckets_around(1) [OF w i] by simp
  with Cons show ?thesis by (simp add: bump_head_def buckets_around(2) [OF w i])
qed

lemma bump_head_wf:
  assumes "fq_wf q" "\<And>e. head_at q i = Some e \<Longrightarrow> skipCount e < MAX_UNFITTABLE_SKIPS"
  shows "fq_wf (bump_head i q)"
proof (cases "bucket_at q i")
  case Nil
  with assms(1) show ?thesis by (simp add: bump_head_def)
next
  case (Cons e es)
  note i = bucket_at_bound [OF Cons]
  have s: "skipCount e < MAX_UNFITTABLE_SKIPS" using assms(2) Cons by (simp add: head_at_def)
  have "bucket_ok (order q ! i, e # es)" using fq_wfD(5) [OF assms(1) i] Cons by simp
  with s have "bucket_ok (order q ! i, e\<lparr>skipCount := skipCount e + 1\<rparr> # es)" by auto
  moreover have "\<forall>p\<in>set (buckets q). bucket_ok p" using assms(1) by (simp add: fq_wf_def)
  ultimately have "\<forall>p\<in>set (buckets (bump_head i q)). bucket_ok p"
    using Cons by (auto simp: bump_head_def buckets_around(2) [OF assms(1) i]
        dest: in_set_takeD in_set_dropD)
  then show ?thesis
    using assms(1) bump_head_keys [OF assms(1), of i] bump_head_content [OF assms(1), of i]
    unfolding fq_wf_def by auto
qed


lemma nth_take_drop_distinct:
  assumes "distinct xs" "i < length xs"
  shows "distinct (take i xs @ drop (Suc i) xs)"
proof -
  have "distinct (take i xs @ xs ! i # drop (Suc i) xs)"
    using assms by (simp add: id_take_nth_drop [symmetric])
  then show ?thesis by auto
qed

text \<open>Taking the head at an index.\<close>

lemma takeAt_effect:
  assumes "fq_wf q" "takeAt q i = (Some e, q')"
  shows "fq_wf q'" "content q = add_mset e (content q')" "e = core e"
    "head_at q i = Some x \<Longrightarrow> e = core x"
    "maxCount q' = maxCount q" "maxCost q' = maxCost q"
proof -
  obtain h rest where b: "bucket_at q i = h # rest" and e: "e = core h"
    using assms(2) by (auto simp: takeAt_def Let_def split: list.splits)
  note i = bucket_at_bound [OF b] and w = fq_wfD [OF assms(1)]
  let ?o = "take i (order q) @ drop (Suc i) (order q)"
  show "e = core e" using e by simp
  show "e = core x" if "head_at q i = Some x" using that b e by (simp add: head_at_def)
  show caps: "maxCount q' = maxCount q" "maxCost q' = maxCost q"
    using assms(2) b by (auto simp: takeAt_def Let_def)
  have ok: "bucket_ok (order q ! i, h # rest)" using w(5) [OF i] b by simp
  have all: "\<forall>p\<in>set (buckets q). bucket_ok p" using assms(1) by (simp add: fq_wf_def)
  have num: "fqCount q' = fqCount q - 1" "fqCost q' = fqCost q - entryCost e"
    using assms(2) b e by (auto simp: takeAt_def Let_def)
  have split: "content q = image_mset core (mset (concat (js_values (take i (buckets q))))) +
      image_mset core (mset (h # rest)) +
      image_mset core (mset (concat (js_values (drop (Suc i) (buckets q)))))"
    using content_around [OF assms(1) i] b by simp
  have cont: "content q = add_mset e (content q') \<and> order q' = js_keys (buckets q') \<and>
      distinct (order q') \<and> (\<forall>p\<in>set (buckets q'). bucket_ok p) \<and>
      (cursor q' < length (order q') \<or> order q' = [] \<and> cursor q' = 0)"
  proof (cases "rest = []")
    case True
    then have q': "buckets q' = take i (buckets q) @ drop (Suc i) (buckets q)" "order q' = ?o"
      "cursor q' = (if ?o = [] then 0 else i mod length ?o)"
      using assms(2) b by (auto simp: takeAt_def Let_def buckets_around(3) [OF assms(1) i])
    have "content q = add_mset e (content q')"
      using split True e by (simp add: content_def entries_def q')
    moreover have "distinct (order q')"
      using nth_take_drop_distinct [of "order q" i] i w(1,2) q'(2) by simp
    moreover have "order q' = js_keys (buckets q')"
      using w(1) by (simp add: q' take_map drop_map)
    moreover have "\<forall>p\<in>set (buckets q'). bucket_ok p"
      using all by (auto simp: q' dest: in_set_takeD in_set_dropD)
    moreover have "cursor q' < length (order q') \<or> order q' = [] \<and> cursor q' = 0"
      unfolding q' by (cases "?o = []") (simp_all del: append_is_Nil_conv length_append)
    ultimately show ?thesis by blast
  next
    case False
    then have q': "buckets q' = take i (buckets q) @ (order q ! i, rest) # drop (Suc i) (buckets q)"
      "order q' = order q" "cursor q' = (i + 1) mod length (order q)"
      using assms(2) b by (auto simp: takeAt_def Let_def buckets_around(2) [OF assms(1) i])
    have "content q = add_mset e (content q')"
      using split e by (simp add: content_def entries_def q')
    moreover have "order q' = js_keys (buckets q')"
      using w(1) arg_cong [OF buckets_around(1) [OF assms(1) i], of js_keys] by (simp add: q')
    moreover have "bucket_ok (order q ! i, rest)"
      using ok False by (cases rest) auto
    then have "\<forall>p\<in>set (buckets q'). bucket_ok p"
      using all by (auto simp: q' dest: in_set_takeD in_set_dropD)
    moreover have "cursor q' < length (order q')"
      unfolding q' by (rule mod_less_divisor) (use i in linarith)
    moreover have "distinct (order q')" using w(1,2) by (simp add: q')
    ultimately show ?thesis by blast
  qed
  then show "content q = add_mset e (content q')" by simp
  have "0 < entryCost e" using ok e by simp
  with cont num caps assms(1) show "fq_wf q'" by (auto simp: fq_wf_def)
qed

lemma takeAt_head: "takeAt q i = (r, q') \<Longrightarrow> r = map_option core (head_at q i)"
  by (auto simp: takeAt_def head_at_def Let_def split: list.splits)

lemma takeAt_None: "takeAt q i = (None, q') \<Longrightarrow> q' = q"
  by (auto simp: takeAt_def Let_def split: list.splits)


section \<open>Reservation\<close>

text \<open>
  \<open>reserved\<close> finds an aged head exactly when there is one, and then the oldest: the fold over
  the pass is characterised once and \<open>dequeue\<close> is then read off its cases.
\<close>

definition aged_at :: "'p fair_queue \<Rightarrow> nat \<Rightarrow> 'p queue_entry \<Rightarrow> bool" where
  "aged_at q i e \<longleftrightarrow> head_at q i = Some e \<and> MAX_UNFITTABLE_SKIPS \<le> skipCount e"

text \<open>The aged head that has waited longest.\<close>

definition oldest_aged :: "'p fair_queue \<Rightarrow> nat \<Rightarrow> 'p queue_entry \<Rightarrow> bool" where
  "oldest_aged q j r \<longleftrightarrow> aged_at q j r \<and> (\<forall>i e. aged_at q i e \<longrightarrow> enqueuedAtMs r \<le> enqueuedAtMs e)"

lemma reserve_step_keeps:
  "acc = Some (j, r) \<Longrightarrow>
   \<exists>j' r'. reserve_step q acc k = Some (j', r') \<and> enqueuedAtMs r' \<le> enqueuedAtMs r"
  by (auto simp: reserve_step_def split: option.splits)

lemma reserve_step_aged:
  "aged_at q k e \<Longrightarrow>
   \<exists>j' r'. reserve_step q acc k = Some (j', r') \<and> enqueuedAtMs r' \<le> enqueuedAtMs e"
  by (auto simp: reserve_step_def aged_at_def split: option.splits)

lemma reserve_step_cases:
  "reserve_step q acc k = Some (j, r) \<Longrightarrow> acc = Some (j, r) \<or> j = k \<and> aged_at q k r"
  by (auto simp: reserve_step_def aged_at_def split: option.splits if_splits)

lemma reserve_fold_keeps:
  "acc = Some (j, r) \<Longrightarrow>
   \<exists>j' r'. foldl (reserve_step q) acc ks = Some (j', r') \<and> enqueuedAtMs r' \<le> enqueuedAtMs r"
proof (induction ks arbitrary: acc j r)
  case Nil
  then show ?case by simp
next
  case (Cons k ks)
  obtain j1 r1 where s: "reserve_step q acc k = Some (j1, r1)" "enqueuedAtMs r1 \<le> enqueuedAtMs r"
    using reserve_step_keeps [OF Cons.prems] by blast
  from Cons.IH [OF s(1)] s show ?case by auto
qed

lemma reserve_fold_aged:
  "k \<in> set ks \<Longrightarrow> aged_at q k e \<Longrightarrow>
   \<exists>j' r'. foldl (reserve_step q) acc ks = Some (j', r') \<and> enqueuedAtMs r' \<le> enqueuedAtMs e"
proof (induction ks arbitrary: acc)
  case Nil
  then show ?case by simp
next
  case (Cons i ks)
  show ?case
  proof (cases "i = k")
    case True
    then obtain j1 r1 where s: "reserve_step q acc i = Some (j1, r1)"
      "enqueuedAtMs r1 \<le> enqueuedAtMs e"
      using reserve_step_aged [OF Cons.prems(2)] by blast
    from reserve_fold_keeps [OF s(1), of q ks] s show ?thesis by auto
  next
    case False
    then show ?thesis using Cons by simp
  qed
qed

lemma reserve_fold_cases:
  "foldl (reserve_step q) acc ks = Some (j, r) \<Longrightarrow>
   acc = Some (j, r) \<or> j \<in> set ks \<and> aged_at q j r"
proof (induction ks arbitrary: acc)
  case Nil
  then show ?case by simp
next
  case (Cons i ks)
  then show ?case using reserve_step_cases [of q acc i j r] by fastforce
qed

lemma set_pass_order:
  assumes "fq_wf q"
  shows "set (pass_order q) = {..<length (order q)}"
proof (cases "order q = []")
  case True
  then show ?thesis by (simp add: pass_order_def)
next
  case False
  then have n: "0 < length (order q)" by simp
  have "\<exists>i<length (order q). (cursor q + i) mod length (order q) = k"
    if "k < length (order q)" for k
  proof -
    let ?n = "length (order q)"
    have c: "cursor q < ?n" using assms False by (auto simp: fq_wf_def)
    let ?i = "if cursor q \<le> k then k - cursor q else ?n + k - cursor q"
    have "?i < ?n" using that c by auto
    moreover have "(cursor q + ?i) mod ?n = k" using that c by auto
    ultimately show ?thesis by blast
  qed
  with n show ?thesis by (fastforce simp: pass_order_def)
qed

lemma reserved_Some:
  "reserved q = Some (i, e) \<Longrightarrow> i \<in> set (pass_order q) \<and> aged_at q i e"
  unfolding reserved_def by (drule reserve_fold_cases) simp

lemma reserved_oldest:
  assumes "fq_wf q" "aged_at q i e"
  shows "\<exists>j r. reserved q = Some (j, r) \<and> enqueuedAtMs r \<le> enqueuedAtMs e"
proof -
  have "i < length (order q)"
    using assms(2) by (auto simp: aged_at_def head_at_def split: list.splits dest: bucket_at_bound)
  then have "i \<in> set (pass_order q)" by (simp add: set_pass_order [OF assms(1)])
  with assms(2) show ?thesis
    unfolding reserved_def by (intro reserve_fold_aged)
qed

lemma reserved_is_oldest: "fq_wf q \<Longrightarrow> reserved q = Some (j, r) \<Longrightarrow> oldest_aged q j r"
  using reserved_Some reserved_oldest unfolding oldest_aged_def by fastforce

lemma reserved_None_young:
  assumes "fq_wf q" "reserved q = None" "head_at q i = Some e"
  shows "skipCount e < MAX_UNFITTABLE_SKIPS"
proof (rule ccontr)
  assume "\<not> skipCount e < MAX_UNFITTABLE_SKIPS"
  with assms(3) have "aged_at q i e" by (simp add: aged_at_def)
  from reserved_oldest [OF assms(1) this] assms(2) show False by simp
qed


section \<open>Dequeue\<close>

lemma order_distinct: "fq_wf q \<Longrightarrow> distinct (order q)"
  unfolding fq_wf_def by (elim conjE)

lemma bucket_at_bump:
  assumes "fq_wf q" "j \<noteq> i"
  shows "bucket_at (bump_head i q) j = bucket_at q j"
proof (cases "bucket_at q i")
  case Nil
  then show ?thesis by (simp add: bump_head_def)
next
  case (Cons e es)
  have "order q ! j \<noteq> order q ! i" if "j < length (order q)"
    using nth_eq_iff_index_eq [OF order_distinct [OF assms(1)] that bucket_at_bound [OF Cons]]
      assms(2) by simp
  with Cons show ?thesis by (simp add: bump_head_def bucket_at_def)
qed

lemma fold_bump_effect:
  assumes "fq_wf q" "distinct ks"
    "\<And>i e. i \<in> set ks \<Longrightarrow> head_at q i = Some e \<Longrightarrow> skipCount e < MAX_UNFITTABLE_SKIPS"
  shows "fq_wf (fold bump_head ks q) \<and> content (fold bump_head ks q) = content q \<and>
    order (fold bump_head ks q) = order q \<and> maxCount (fold bump_head ks q) = maxCount q \<and>
    maxCost (fold bump_head ks q) = maxCost q \<and>
    (\<forall>j. j \<notin> set ks \<longrightarrow> bucket_at (fold bump_head ks q) j = bucket_at q j)"
  using assms
proof (induction ks arbitrary: q)
  case Nil
  then show ?case by simp
next
  case (Cons k ks)
  have w: "fq_wf (bump_head k q)"
    using Cons.prems(3) [of k] by (intro bump_head_wf [OF Cons.prems(1)]) simp
  have h: "head_at (bump_head k q) i = head_at q i" if "i \<in> set ks" for i
  proof -
    have "i \<noteq> k" using that Cons.prems(2) by auto
    then show ?thesis by (simp add: head_at_def bucket_at_bump [OF Cons.prems(1)])
  qed
  have "\<And>i e. i \<in> set ks \<Longrightarrow> head_at (bump_head k q) i = Some e \<Longrightarrow>
      skipCount e < MAX_UNFITTABLE_SKIPS"
    using Cons.prems(3) h by (metis list.set_intros(2))
  from Cons.IH [OF w _ this] Cons.prems(1,2) show ?case
    by (simp add: bump_head_content bucket_at_bump)
qed

text \<open>The pass finds the first head that fits; it returns nothing only if no head on it fits.\<close>

lemma scan_effect:
  assumes "fq_wf q"
    "\<And>i e. head_at q i = Some e \<Longrightarrow> skipCount e < MAX_UNFITTABLE_SKIPS"
    "distinct (bypassed @ idxs)" "scan q m bypassed idxs = (r, q')"
  shows "case r of
      None \<Rightarrow> q' = q \<and> (\<forall>i\<in>set idxs. \<forall>e. head_at q i = Some e \<longrightarrow> m < entryCost e)
    | Some e \<Rightarrow> fq_wf q' \<and> content q = add_mset e (content q') \<and> entryCost e \<le> m \<and>
        e = core e \<and> maxCount q' = maxCount q \<and> maxCost q' = maxCost q"
  using assms(3,4)
proof (induction idxs arbitrary: bypassed)
  case Nil
  then show ?case by auto
next
  case (Cons idx idxs)
  show ?case
  proof (cases "head_at q idx")
    case None
    with Cons.prems have "scan q m bypassed idxs = (r, q')" by simp
    with Cons.IH [of bypassed] Cons.prems(1) None show ?thesis
      by (auto split: option.splits)
  next
    case (Some e)
    show ?thesis
    proof (cases "m < entryCost e")
      case True
      with Cons.prems Some have "scan q m (bypassed @ [idx]) idxs = (r, q')" by simp
      with Cons.IH [of "bypassed @ [idx]"] Cons.prems(1) Some True show ?thesis
        by (auto split: option.splits)
    next
      case False
      let ?q = "fold bump_head bypassed q"
      have t: "takeAt ?q idx = (r, q')" using Cons.prems(2) Some False by simp
      have b: "fq_wf ?q \<and> content ?q = content q \<and> order ?q = order q \<and>
          maxCount ?q = maxCount q \<and> maxCost ?q = maxCost q \<and>
          (\<forall>j. j \<notin> set bypassed \<longrightarrow> bucket_at ?q j = bucket_at q j)"
        using Cons.prems(1) by (intro fold_bump_effect assms(1,2)) simp_all
      then have h: "head_at ?q idx = Some e"
        using Cons.prems(1) Some by (simp add: head_at_def)
      with takeAt_head [OF t] have r: "r = Some (core e)" by simp
      from takeAt_effect [OF _ t [unfolded r]] b False show ?thesis by (simp add: r)
    qed
  qed
qed

lemma distinct_pass_order: "fq_wf q \<Longrightarrow> distinct (pass_order q)"
  by (rule card_distinct) (simp add: set_pass_order, simp add: pass_order_def)

lemma dequeue_Some_effect:
  assumes "fq_wf q" "dequeue q m = (Some e, q')"
  shows "fq_wf q' \<and> content q = add_mset e (content q') \<and> entryCost e \<le> m \<and> e = core e \<and>
    maxCount q' = maxCount q \<and> maxCost q' = maxCost q"
proof (cases "reserved q")
  case None
  with assms(2) have "scan q m [] (pass_order q) = (Some e, q')"
    by (simp add: dequeue_def split: if_splits)
  from scan_effect [OF assms(1) reserved_None_young [OF assms(1) None] _ this]
  show ?thesis by (simp add: distinct_pass_order [OF assms(1)])
next
  case (Some p)
  obtain i h where p: "p = (i, h)" by (cases p)
  with assms(2) Some have t: "takeAt q i = (Some e, q')" and c: "entryCost h \<le> m"
    by (auto simp: dequeue_def split: if_splits)
  have "head_at q i = Some h" using reserved_Some [of q i h] Some p by (simp add: aged_at_def)
  with takeAt_effect [OF assms(1) t] c show ?thesis by auto
qed

lemma dequeue_None_same:
  assumes "fq_wf q" "dequeue q m = (None, q')"
  shows "q' = q"
proof (cases "reserved q")
  case None
  with assms(2) have "q' = q \<or> scan q m [] (pass_order q) = (None, q')"
    by (auto simp: dequeue_def split: if_splits)
  moreover have "distinct ([] @ pass_order q)" by (simp add: distinct_pass_order [OF assms(1)])
  ultimately show ?thesis
    using scan_effect [OF assms(1) reserved_None_young [OF assms(1) None],
        where bypassed = "[]" and idxs = "pass_order q" and r = None and q' = q' and m = m]
    by auto
next
  case (Some p)
  with assms(2) show ?thesis
    by (auto simp: dequeue_def split: if_splits prod.splits dest: takeAt_None)
qed

text \<open>When nothing comes, either an aged head is waiting for its reserved capacity, or no
  tenant's head fits.\<close>

lemma dequeue_None_why:
  assumes "fq_wf q" "dequeue q m = (None, q')" "head_at q i = Some e"
  shows "(\<exists>j r. oldest_aged q j r \<and> m < entryCost r) \<or> m < entryCost e"
proof -
  have i: "i < length (order q)"
    using assms(3) by (auto simp: head_at_def split: list.splits dest: bucket_at_bound)
  have ne: "fqCount q \<noteq> 0"
  proof -
    have "e \<in> set (bucket_at q i)" using assms(3) by (auto simp: head_at_def split: list.splits)
    then have "core e \<in># content q" by (simp add: content_around [OF assms(1) i])
    then have "content q \<noteq> {#}" by auto
    then show ?thesis using fq_wfD(7) [OF assms(1)] by simp
  qed
  show ?thesis
  proof (cases "reserved q")
    case None
    with assms(2) ne have "scan q m [] (pass_order q) = (None, q')" by (simp add: dequeue_def)
    from scan_effect [OF assms(1) reserved_None_young [OF assms(1) None] _ this]
    show ?thesis
      using i assms(3) by (auto simp: distinct_pass_order [OF assms(1)] set_pass_order [OF assms(1)])
  next
    case (Some p)
    obtain j h where p: "p = (j, h)" by (cases p)
    then have a: "aged_at q j h" using Some reserved_Some by blast
    then have "takeAt q j \<noteq> (None, q')"
      by (auto simp: aged_at_def dest: takeAt_head)
    with assms(2) ne Some p have "m < entryCost h" by (auto simp: dequeue_def split: if_splits)
    with reserved_is_oldest [OF assms(1) Some [unfolded p]] show ?thesis by blast
  qed
qed


section \<open>Enqueue\<close>

lemma content_absent_tenant:
  "content (q\<lparr>buckets := buckets q @ [(t, [e])], order := x, fqCount := n, fqCost := c\<rparr>) =
   add_mset (core e) (content q)"
  by (simp add: content_def entries_def)

lemma canAccept_iff:
  "canAccept q c \<longleftrightarrow>
     is_safe_integer c \<and> 0 < c \<and> fqCount q < maxCount q \<and> fqCost q + c \<le> maxCost q"
  by (auto simp: canAccept_def)

lemma enqueue_accept_effect:
  assumes "fq_wf q" "canAccept q (entryCost e)" "skipCount e = 0" "enqueue q e = (ok, q')"
  shows "ok \<and> fq_wf q' \<and> content q' = add_mset e (content q) \<and>
    maxCount q' = maxCount q \<and> maxCost q' = maxCost q"
proof -
  note w = fq_wfD [OF assms(1)]
  have pos: "0 < entryCost e" and cap: "fqCount q + 1 \<le> maxCount q"
    "fqCost q + entryCost e \<le> maxCost q"
    using assms(2) by (simp_all add: canAccept_iff)
  have e: "core e = e" using assms(3) by (rule core_fresh)
  have all: "\<forall>p\<in>set (buckets q). bucket_ok p" using assms(1) by (simp add: fq_wf_def)
  have cur: "cursor q < length (order q) \<or> order q = [] \<and> cursor q = 0"
    using assms(1) unfolding fq_wf_def by (elim conjE)
  show ?thesis
  proof (cases "js_get (buckets q) (tenantKey e)")
    case None
    then have n: "tenantKey e \<notin> set (js_keys (buckets q))" by (simp add: map_of_eq_None_iff)
    have q': "ok" "q' = q\<lparr>buckets := buckets q @ [(tenantKey e, [e])],
        order := order q @ [tenantKey e], fqCount := fqCount q + 1,
        fqCost := fqCost q + entryCost e\<rparr>"
      using assms(2,4) None by (auto simp: enqueue_def js_set_absent [OF n])
    then have c: "content q' = add_mset e (content q)"
      by (simp only: content_absent_tenant e)
    have "bucket_ok (tenantKey e, [e])" using pos assms(3) by simp
    then have "fq_wf q'"
      unfolding fq_wf_def c using q' w n all cur cap by auto
    with c q' show ?thesis by simp
  next
    case (Some b)
    then obtain m1 m2 where m: "buckets q = m1 @ (tenantKey e, b) # m2"
      "tenantKey e \<notin> set (js_keys m1)" by (rule js_get_split)
    have q': "ok" "q' = q\<lparr>buckets := m1 @ (tenantKey e, b @ [e]) # m2, fqCount := fqCount q + 1,
        fqCost := fqCost q + entryCost e\<rparr>"
      using assms(2,4) Some m by (auto simp: enqueue_def)
    have c: "content q' = add_mset e (content q)"
      using m e by (simp add: content_def entries_def q')
    have "bucket_ok (tenantKey e, b)" using all m by simp
    then have "bucket_ok (tenantKey e, b @ [e])" using pos assms(3) by (auto simp: tl_append split: list.splits)
    then have "fq_wf q'"
      unfolding fq_wf_def c using q' w m all cur cap by auto
    with c q' show ?thesis by simp
  qed
qed

lemma enqueue_reject: "\<not> canAccept q (entryCost e) \<Longrightarrow> enqueue q e = (False, q)"
  by (simp add: enqueue_def)

lemma enqueue_fst: "fst (enqueue q e) = canAccept q (entryCost e)"
  by (simp add: enqueue_def Let_def)


section \<open>Removal by id\<close>

lemma take_id_Some:
  "take_id eid b = Some (e, rest) \<Longrightarrow>
   \<exists>b1 b2. b = b1 @ e # b2 \<and> rest = b1 @ b2 \<and> entryId e = eid \<and> (\<forall>x\<in>set b1. entryId x \<noteq> eid)"
proof (induction b arbitrary: rest)
  case Nil
  then show ?case by simp
next
  case (Cons x b)
  show ?case
  proof (cases "entryId x = eid")
    case True
    with Cons.prems have "x # b = [] @ e # rest" "entryId e = eid" by auto
    then show ?thesis by fastforce
  next
    case False
    with Cons.prems obtain r where "take_id eid b = Some (e, r)" "rest = x # r" by auto
    with Cons.IH [of r] False show ?thesis by (metis append_Cons set_ConsD)
  qed
qed

lemma take_id_None: "take_id eid b = None \<longleftrightarrow> (\<forall>x\<in>set b. entryId x \<noteq> eid)"
  by (induction b) auto

text \<open>The tenant ring as a client sees it: the order in which tenants are served next.\<close>

definition ring :: "'p fair_queue \<Rightarrow> string list" where
  "ring q = drop (cursor q) (order q) @ take (cursor q) (order q)"

lemma ring_after_removal:
  assumes "x \<notin> set A" "x \<notin> set B" "c < length (A @ x # B)"
  defines "c' \<equiv> if A @ B = [] then 0 else if length A < c then c - 1
                else if c \<ge> length (A @ B) then 0 else c"
  shows "drop c' (A @ B) @ take c' (A @ B) =
    filter (\<lambda>y. y \<noteq> x) (drop c (A @ x # B) @ take c (A @ x # B))"
proof -
  have f: "filter (\<lambda>y. y \<noteq> x) (take k A) = take k A" "filter (\<lambda>y. y \<noteq> x) (drop k A) = drop k A"
    "filter (\<lambda>y. y \<noteq> x) (take k B) = take k B" "filter (\<lambda>y. y \<noteq> x) (drop k B) = drop k B"
    "filter (\<lambda>y. y \<noteq> x) A = A" "filter (\<lambda>y. y \<noteq> x) B = B" for k
    using assms(1,2) by (auto simp: filter_id_conv dest: in_set_takeD in_set_dropD)
  show ?thesis
  proof (cases "length A < c")
    case True
    then obtain k where k: "c = Suc (length A + k)" using less_imp_Suc_add by blast
    with True assms(3) have "c' = length A + k" by (auto simp: c'_def)
    with k f show ?thesis by simp
  next
    case False
    show ?thesis
    proof (cases "c < length (A @ B)")
      case True
      with False have "c' = c" by (auto simp: c'_def)
      with False f show ?thesis by simp
    next
      case False': False
      with False assms(3) have "length A + length B \<le> c" "c \<le> length A" by auto
      then have "c = length A" "B = []" by (simp_all flip: length_0_conv)
      moreover from this have "c' = 0" by (auto simp: c'_def)
      ultimately show ?thesis using f by simp
    qed
  qed
qed


text \<open>Rewriting the bucket at \<open>i\<close> after one entry left it from any place.\<close>

lemma remove_at_effect:
  assumes "fq_wf q" "i < length (order q)" "take_id eid (bucket_at q i) = Some (e, rest)"
  defines "q1 \<equiv> q\<lparr>fqCount := fqCount q - 1, fqCost := fqCost q - entryCost e\<rparr>"
    and "order' \<equiv> take i (order q) @ drop (Suc i) (order q)"
  defines "q' \<equiv> if rest = []
      then q1\<lparr>buckets := js_delete (order q ! i) (buckets q), order := order',
              cursor := (if order' = [] then 0 else if i < cursor q then cursor q - 1
                         else if cursor q \<ge> length order' then 0 else cursor q)\<rparr>
      else q1\<lparr>buckets := js_set (order q ! i) rest (buckets q)\<rparr>"
  shows "fq_wf q' \<and> content q = add_mset (core e) (content q') \<and>
    maxCount q' = maxCount q \<and> maxCost q' = maxCost q \<and>
    ring q' = filter (\<lambda>t. t \<in> set (order q')) (ring q)"
proof -
  note w = fq_wfD [OF assms(1)]
  let ?A = "take i (order q)" and ?B = "drop (Suc i) (order q)" and ?t = "order q ! i"
  have o: "order q = ?A @ ?t # ?B" using assms(2) by (simp add: id_take_nth_drop [symmetric])
  have dist: "distinct (?A @ ?t # ?B)" using order_distinct [OF assms(1)] o by simp
  then have nt: "?t \<notin> set ?A" "?t \<notin> set ?B" by auto
  have lenA: "length ?A = i" using assms(2) by simp
  obtain b1 b2 where b: "bucket_at q i = b1 @ e # b2" "rest = b1 @ b2"
    using take_id_Some [OF assms(3)] by blast
  have cur: "cursor q < length (order q)"
    using assms(1,2) unfolding fq_wf_def by auto
  have ok: "bucket_ok (?t, b1 @ e # b2)" using w(5) [OF assms(2)] b by simp
  have all: "\<forall>p\<in>set (buckets q). bucket_ok p" using assms(1) by (simp add: fq_wf_def)
  have split: "content q = image_mset core (mset (concat (js_values (take i (buckets q))))) +
      image_mset core (mset (b1 @ e # b2)) +
      image_mset core (mset (concat (js_values (drop (Suc i) (buckets q)))))"
    using content_around [OF assms(1,2)] b by simp
  have frame: "fqCount q' = fqCount q - 1" "fqCost q' = fqCost q - entryCost e"
    "maxCount q' = maxCount q" "maxCost q' = maxCost q"
    by (simp_all add: q'_def q1_def)
  have main: "content q = add_mset (core e) (content q') \<and> order q' = js_keys (buckets q') \<and>
      distinct (order q') \<and> (\<forall>p\<in>set (buckets q'). bucket_ok p) \<and>
      (cursor q' < length (order q') \<or> order q' = [] \<and> cursor q' = 0) \<and>
      ring q' = filter (\<lambda>t. t \<in> set (order q')) (ring q)"
  proof (cases "rest = []")
    case True
    then have q': "buckets q' = take i (buckets q) @ drop (Suc i) (buckets q)" "order q' = ?A @ ?B"
      "cursor q' = (if ?A @ ?B = [] then 0 else if length ?A < cursor q then cursor q - 1
                    else if cursor q \<ge> length (?A @ ?B) then 0 else cursor q)"
      using lenA by (simp_all add: q'_def q1_def order'_def buckets_around(3) [OF assms(1,2)])
    have "content q = add_mset (core e) (content q')"
      using split True b by (simp add: content_def entries_def q')
    moreover have "order q' = js_keys (buckets q')"
      using w(1) by (simp add: q' take_map drop_map)
    moreover have "distinct (order q')" using dist q'(2) by auto
    moreover have "\<forall>p\<in>set (buckets q'). bucket_ok p"
      using all by (auto simp: q' dest: in_set_takeD in_set_dropD)
    moreover have "cursor q' < length (order q') \<or> order q' = [] \<and> cursor q' = 0"
      unfolding q' using cur o by auto
    moreover have c: "cursor q < length (?A @ ?t # ?B)" using cur o by metis
    have "ring q' = filter (\<lambda>y. y \<noteq> ?t)
        (drop (cursor q) (?A @ ?t # ?B) @ take (cursor q) (?A @ ?t # ?B))"
      unfolding ring_def q'(2,3) by (rule ring_after_removal [OF nt c])
    then have "ring q' = filter (\<lambda>y. y \<noteq> ?t) (ring q)" by (simp only: ring_def o [symmetric])
    moreover have "filter (\<lambda>y. y \<noteq> ?t) (ring q) = filter (\<lambda>t. t \<in> set (order q')) (ring q)"
    proof (rule filter_cong [OF refl])
      fix x
      assume "x \<in> set (ring q)"
      then have "x \<in> set (order q)" by (auto simp: ring_def dest: in_set_takeD in_set_dropD)
      then have "x \<in> set (?A @ ?t # ?B)" by (metis o)
      then show "(x \<noteq> ?t) = (x \<in> set (order q'))" using nt q'(2) by auto
    qed
    ultimately show ?thesis by simp
  next
    case False
    then have q': "buckets q' = take i (buckets q) @ (?t, rest) # drop (Suc i) (buckets q)"
      "order q' = order q" "cursor q' = cursor q"
      by (simp_all add: q'_def q1_def buckets_around(2) [OF assms(1,2)])
    have "content q = add_mset (core e) (content q')"
      using split b by (simp add: content_def entries_def q')
    moreover have "order q' = js_keys (buckets q')"
      using w(1) arg_cong [OF buckets_around(1) [OF assms(1,2)], of js_keys] by (simp add: q')
    moreover have "bucket_ok (?t, rest)"
      using ok False b by (cases b1; cases b2) auto
    then have "\<forall>p\<in>set (buckets q'). bucket_ok p"
      using all by (auto simp: q' dest: in_set_takeD in_set_dropD)
    moreover have "ring q' = ring q" by (simp add: ring_def q')
    moreover have "filter (\<lambda>t. t \<in> set (order q')) (ring q) = ring q"
      by (auto simp: filter_id_conv ring_def q' simp del: filter_append
          dest: in_set_takeD in_set_dropD)
    moreover have "distinct (order q')" using order_distinct [OF assms(1)] by (simp add: q')
    ultimately show ?thesis using cur q' by simp
  qed
  have "0 < entryCost e" using ok by auto
  with main frame assms(1) have "fq_wf q'" by (auto simp: fq_wf_def)
  with main frame show ?thesis by simp
qed

lemma removeFrom_effect:
  assumes "fq_wf q" "removeFrom q eid ti = (r, q')"
  shows "case r of
      None \<Rightarrow> q' = q \<and> (\<forall>i. ti \<le> i \<longrightarrow> i < length (order q) \<longrightarrow> (\<forall>x\<in>set (bucket_at q i). entryId x \<noteq> eid))
    | Some e \<Rightarrow> entryId e = eid \<and> fq_wf q' \<and> content q = add_mset (core e) (content q') \<and>
        maxCount q' = maxCount q \<and> maxCost q' = maxCost q \<and>
        ring q' = filter (\<lambda>t. t \<in> set (order q')) (ring q)"
  using assms
proof (induction q eid ti rule: removeFrom.induct)
  case (1 q eid ti)
  show ?case
  proof (cases "length (order q) \<le> ti")
    case True
    with "1.prems" show ?thesis by (auto simp: removeFrom.simps [of q eid ti])
  next
    case False
    show ?thesis
    proof (cases "take_id eid (bucket_at q ti)")
      case None
      with False "1.prems" have r: "removeFrom q eid (Suc ti) = (r, q')"
        by (simp add: removeFrom.simps [of q eid ti])
      have "\<forall>x\<in>set (bucket_at q ti). entryId x \<noteq> eid" using None by (simp add: take_id_None)
      with "1.IH" [OF False None "1.prems"(1) r] show ?thesis
        by (auto split: option.splits) (metis le_antisym not_less_eq_eq)
    next
      case (Some p)
      obtain e rest where p: "p = (e, rest)" by (cases p)
      have i: "ti < length (order q)" using False by simp
      note t = Some [unfolded p]
      have "r = Some e" using "1.prems"(2) False t
        by (auto simp: removeFrom.simps [of q eid ti] Let_def)
      moreover have "entryId e = eid" using take_id_Some [OF t] by blast
      ultimately show ?thesis
        using remove_at_effect [OF "1.prems"(1) i t] "1.prems"(2) False t
        by (auto simp: removeFrom.simps [of q eid ti] Let_def)
    qed
  qed
qed


lemma removeById_Some_effect:
  assumes "fq_wf q" "removeById q eid = (Some e, q')"
  shows "entryId e = eid \<and> fq_wf q' \<and> content q = add_mset (core e) (content q') \<and>
    maxCount q' = maxCount q \<and> maxCost q' = maxCost q \<and>
    ring q' = filter (\<lambda>t. t \<in> set (order q')) (ring q)"
  using removeFrom_effect [OF assms(1), of eid 0 "Some e" q'] assms(2)
  by (simp add: removeById_def)

lemma removeById_None_effect:
  assumes "fq_wf q" "removeById q eid = (None, q')"
  shows "q' = q \<and> (\<forall>e\<in>#content q. entryId e \<noteq> eid)"
proof -
  have r: "q' = q" "\<And>i x. i < length (order q) \<Longrightarrow> x \<in> set (bucket_at q i) \<Longrightarrow> entryId x \<noteq> eid"
    using removeFrom_effect [OF assms(1), of eid 0 None q'] assms(2)
    by (auto simp: removeById_def)
  have "entryId e \<noteq> eid" if e: "e \<in># content q" for e
  proof -
    obtain b x where x: "b \<in> set (js_values (buckets q))" "x \<in> set b" "e = core x"
      using e by (auto simp: content_def entries_def)
    then obtain i where "i < length (buckets q)" "b = snd (buckets q ! i)"
      by (auto simp: in_set_conv_nth)
    with x r(2) [of i x] fq_wfD(4,6) [OF assms(1)] show ?thesis by simp
  qed
  with r(1) show ?thesis by blast
qed


section \<open>Drain\<close>

lemma content_member:
  assumes "fq_wf q" "e \<in># content q"
  shows "0 < entryCost e" "entryCost e \<le> fqCost q"
proof -
  have pos: "0 < entryCost x" if "x \<in># content q" for x
    using that assms(1) by (auto simp: content_def entries_def fq_wf_def)
  show "0 < entryCost e" using pos assms(2) .
  obtain C where C: "content q = add_mset e C" using assms(2) by (metis mset_add)
  have "0 \<le> (\<Sum>x\<in>#C. entryCost x)"
    using pos C by (intro sum_mset_int_nonneg) (auto intro: less_imp_le)
  then show "entryCost e \<le> fqCost q" using fq_wfD(8) [OF assms(1)] C by simp
qed

lemma head_in_content:
  assumes "fq_wf q" "head_at q i = Some e"
  shows "core e \<in># content q"
proof -
  have i: "i < length (order q)" and "e \<in> set (bucket_at q i)"
    using assms(2) by (auto simp: head_at_def split: list.splits dest: bucket_at_bound)
  then show ?thesis by (simp add: content_around [OF assms(1) i])
qed

lemma content_nonempty_head:
  assumes "fq_wf q" "content q \<noteq> {#}"
  shows "\<exists>i e. head_at q i = Some e"
proof -
  have "buckets q \<noteq> []" using assms(2) by (auto simp: content_def entries_def)
  then have i: "0 < length (order q)" by (simp add: fq_wfD(4) [OF assms(1)])
  from fq_wfD(5) [OF assms(1) i] show ?thesis
    by (cases "bucket_at q 0") (auto simp: head_at_def intro!: exI [of _ 0])
qed

lemma dequeue_all_fit:
  assumes "fq_wf q" "content q \<noteq> {#}" "fqCost q \<le> m"
  shows "\<exists>e q'. dequeue q m = (Some e, q')"
proof (rule ccontr)
  assume "\<nexists>e q'. dequeue q m = (Some e, q')"
  then obtain q' where d: "dequeue q m = (None, q')" by (metis not_None_eq surj_pair)
  obtain i e where h: "head_at q i = Some e" using content_nonempty_head assms(1,2) by blast
  have fit: "entryCost x \<le> m" if "head_at q j = Some x" for j x
    using content_member(2) [OF assms(1) head_in_content [OF assms(1) that]] assms(3) by simp
  from dequeue_None_why [OF assms(1) d h] fit h show False by (fastforce simp: oldest_aged_def aged_at_def)
qed

lemma drain_loop_effect:
  assumes "fq_wf q" "maxCost q \<le> max_safe_integer" "drain_loop q = (es, q')"
  shows "mset es = content q \<and> content q' = {#} \<and> fq_wf q' \<and>
    maxCount q' = maxCount q \<and> maxCost q' = maxCost q"
  using assms
proof (induction q arbitrary: es rule: drain_loop.induct)
  case (1 q)
  have cap: "fqCost q \<le> max_safe_integer" using "1.prems"(1,2) by (simp add: fq_wf_def)
  obtain r q1 where d: "dequeue q max_safe_integer = (r, q1)" by (cases "dequeue q max_safe_integer")
  show ?case
  proof (cases r)
    case None
    with d dequeue_all_fit [OF "1.prems"(1) _ cap] have "content q = {#}" by auto
    with None d "1.prems" show ?thesis
      by (auto simp: drain_loop.simps [of q] dest: dequeue_None_same)
  next
    case (Some e)
    from dequeue_Some_effect [OF "1.prems"(1) d [unfolded Some]]
    have s: "fq_wf q1" "content q = add_mset e (content q1)" "maxCost q1 = maxCost q"
      "maxCount q1 = maxCount q" by auto
    obtain es1 where e1: "drain_loop q1 = (es1, q')" "es = e # es1"
      using "1.prems"(3) d Some by (auto simp: drain_loop.simps [of q] split: prod.splits)
    from "1.IH" [OF d [symmetric] Some s(1) _ e1(1)] "1.prems"(2) s e1(2) show ?thesis by simp
  qed
qed

lemma drain_effect:
  assumes "fq_wf q" "maxCost q \<le> max_safe_integer" "drain q = (es, q')"
  shows "mset es = content q \<and> content q' = {#} \<and> fq_wf q' \<and>
    maxCount q' = maxCount q \<and> maxCost q' = maxCost q"
proof -
  obtain q1 where d: "drain_loop q = (es, q1)" "q' = q1\<lparr>cursor := 0\<rparr>"
    using assms(3) by (auto simp: drain_def split: prod.splits)
  note e = drain_loop_effect [OF assms(1,2) d(1)]
  have c: "content q' = content q1" by (simp add: d(2) content_def entries_def)
  have "fq_wf q'"
    using e unfolding fq_wf_def c by (auto simp: d(2))
  with e c d(2) show ?thesis by simp
qed

section \<open>Refinement: one FIFO per tenant\<close>

text \<open>
  The abstract queue: for every tenant the list of its entries in order, ages erased. An
  accepted \<open>enqueue\<close> appends to one list and a successful \<open>dequeue\<close> takes the head of one list;
  the buckets, the ring, the cursor and the counters are implementation.
\<close>

definition tenant_fifo :: "'p fair_queue \<Rightarrow> string \<Rightarrow> 'p queue_entry list" where
  "tenant_fifo q t = (case js_get (buckets q) t of None \<Rightarrow> [] | Some b \<Rightarrow> map core b)"

lemma bump_head_fifo: "tenant_fifo (bump_head i q) = tenant_fifo q"
proof (cases "bucket_at q i")
  case Nil
  then show ?thesis by (simp add: bump_head_def)
next
  case (Cons e es)
  with bucket_at_get [OF Cons] show ?thesis by (auto simp: bump_head_def tenant_fifo_def)
qed

lemma fold_bump_fifo: "tenant_fifo (fold bump_head is q) = tenant_fifo q"
  by (induction "is" arbitrary: q) (simp_all add: bump_head_fifo)

lemma takeAt_fifo:
  assumes "fq_wf q" "takeAt q i = (Some e, q')"
  shows "tenant_fifo q = (tenant_fifo q')(tenantKey e := e # tenant_fifo q' (tenantKey e))"
proof -
  obtain h rest where b: "bucket_at q i = h # rest" and e: "e = core h"
    using assms(2) by (auto simp: takeAt_def Let_def split: list.splits)
  note g = bucket_at_get [OF b]
  have t: "tenantKey e = order q ! i"
    using fq_wfD(5) [OF assms(1) bucket_at_bound [OF b]] b e by simp
  have "buckets q' = (if rest = [] then js_delete (order q ! i) (buckets q)
      else js_set (order q ! i) rest (buckets q))"
    using assms(2) b by (auto simp: takeAt_def Let_def)
  then have "tenant_fifo q' s = (if s = order q ! i then map core rest else tenant_fifo q s)" for s
    by (simp add: tenant_fifo_def)
  moreover have "tenant_fifo q (order q ! i) = e # map core rest" using g e by (simp add: tenant_fifo_def)
  ultimately show ?thesis by (auto simp: t fun_eq_iff)
qed

lemma scan_fifo:
  assumes "fq_wf q" "\<And>i e. head_at q i = Some e \<Longrightarrow> skipCount e < MAX_UNFITTABLE_SKIPS"
    "distinct (bypassed @ idxs)" "scan q m bypassed idxs = (Some e, q')"
  shows "tenant_fifo q = (tenant_fifo q')(tenantKey e := e # tenant_fifo q' (tenantKey e))"
  using assms(3,4)
proof (induction idxs arbitrary: bypassed)
  case (Cons idx idxs)
  show ?case
  proof (cases "\<exists>x. head_at q idx = Some x \<and> entryCost x \<le> m")
    case True
    then have t: "takeAt (fold bump_head bypassed q) idx = (Some e, q')" using Cons.prems(2) by auto
    have "fq_wf (fold bump_head bypassed q)"
      using fold_bump_effect [OF assms(1), of bypassed] assms(2) Cons.prems(1) by auto
    from takeAt_fifo [OF this t] show ?thesis by (simp add: fold_bump_fifo)
  next
    case False
    with Cons.prems(2) have "scan q m bypassed idxs = (Some e, q')
        \<or> scan q m (bypassed @ [idx]) idxs = (Some e, q')"
      by (auto split: option.splits if_splits)
    with Cons.IH [of bypassed] Cons.IH [of "bypassed @ [idx]"] Cons.prems(1) show ?thesis by auto
  qed
qed simp

lemma dequeue_fifo:
  assumes "fq_wf q" "dequeue q m = (Some e, q')"
  shows "tenant_fifo q = (tenant_fifo q')(tenantKey e := e # tenant_fifo q' (tenantKey e))"
proof (cases "reserved q")
  case None
  with assms(2) have "scan q m [] (pass_order q) = (Some e, q')"
    by (simp add: dequeue_def split: if_splits)
  from scan_fifo [OF assms(1) reserved_None_young [OF assms(1) None] _ this]
  show ?thesis by (simp add: distinct_pass_order [OF assms(1)])
next
  case (Some p)
  with assms(2) have "takeAt q (fst p) = (Some e, q')"
    by (auto simp: dequeue_def split: if_splits prod.splits)
  then show ?thesis by (rule takeAt_fifo [OF assms(1)])
qed

lemma enqueue_fifo:
  assumes "canAccept q (entryCost e)" "skipCount e = 0" "enqueue q e = (ok, q')"
  shows "tenant_fifo q' = (tenant_fifo q)(tenantKey e := tenant_fifo q (tenantKey e) @ [e])"
  using assms
  by (auto simp: fun_eq_iff enqueue_def tenant_fifo_def core_fresh Let_def split: option.splits)

text \<open>A head that waited through two bypasses is served before every younger one.\<close>

lemma dequeue_aged:
  assumes "fq_wf q" "aged_at q i e" "dequeue q m = (Some x, q')"
  shows "enqueuedAtMs x \<le> enqueuedAtMs e"
proof -
  obtain j r where r: "reserved q = Some (j, r)" "enqueuedAtMs r \<le> enqueuedAtMs e"
    using reserved_oldest [OF assms(1,2)] by blast
  then have t: "takeAt q j = (Some x, q')"
    using assms(3) by (auto simp: dequeue_def split: if_splits)
  have "head_at q j = Some r" using reserved_Some [OF r(1)] by (simp add: aged_at_def)
  with takeAt_effect(4) [OF assms(1) t] r(2) show ?thesis by simp
qed

text \<open>The contract of a queue with one FIFO per tenant, and what a client may rely on.\<close>

datatype 'e queue_op = Enq 'e | Deq int

text \<open>The entries accepted and served by a sequence of operations, in order.\<close>

fun queue_run ::
  "('q \<Rightarrow> 'e \<Rightarrow> bool \<times> 'q) \<Rightarrow> ('q \<Rightarrow> int \<Rightarrow> 'e option \<times> 'q) \<Rightarrow> 'q \<Rightarrow> 'e queue_op list \<Rightarrow>
   'e list \<times> 'e list \<times> 'q" where
  "queue_run enq deq q [] = ([], [], q)"
| "queue_run enq deq q (Enq e # ops) =
     (case enq q e of (ok, q1) \<Rightarrow>
        (case queue_run enq deq q1 ops of (acc, srv, q2) \<Rightarrow> (if ok then e # acc else acc, srv, q2)))"
| "queue_run enq deq q (Deq m # ops) =
     (case deq q m of (r, q1) \<Rightarrow>
        (case queue_run enq deq q1 ops of (acc, srv, q2) \<Rightarrow>
           (acc, (case r of None \<Rightarrow> srv | Some e \<Rightarrow> e # srv), q2)))"

locale tenant_queue =
  fixes wf :: "'q \<Rightarrow> bool" and fresh :: "'e \<Rightarrow> bool" and key :: "'e \<Rightarrow> 'k"
    and fifo :: "'q \<Rightarrow> 'k \<Rightarrow> 'e list"
    and enq :: "'q \<Rightarrow> 'e \<Rightarrow> bool \<times> 'q" and deq :: "'q \<Rightarrow> int \<Rightarrow> 'e option \<times> 'q"
  assumes enq_yes: "wf q \<Longrightarrow> fresh e \<Longrightarrow> enq q e = (True, q') \<Longrightarrow>
      wf q' \<and> fifo q' = (fifo q)(key e := fifo q (key e) @ [e])"
    and enq_no: "wf q \<Longrightarrow> enq q e = (False, q') \<Longrightarrow> q' = q"
    and deq_yes: "wf q \<Longrightarrow> deq q m = (Some e, q') \<Longrightarrow>
      wf q' \<and> fifo q = (fifo q')(key e := e # fifo q' (key e))"
    and deq_no: "wf q \<Longrightarrow> deq q m = (None, q') \<Longrightarrow> q' = q"
begin

lemma run_fifo:
  assumes "wf q" "\<And>e. Enq e \<in> set ops \<Longrightarrow> fresh e" "queue_run enq deq q ops = (acc, srv, q')"
  shows "wf q' \<and> fifo q k @ filter (\<lambda>e. key e = k) acc = filter (\<lambda>e. key e = k) srv @ fifo q' k"
  using assms
proof (induction ops arbitrary: q acc srv)
  case (Cons op ops)
  show ?case
  proof (cases op)
    case (Enq e)
    obtain ok q1 where e1: "enq q e = (ok, q1)" by fastforce
    obtain acc1 srv1 q2 where r: "queue_run enq deq q1 ops = (acc1, srv1, q2)" by (metis prod_cases3)
    have out: "acc = (if ok then e # acc1 else acc1)" "srv = srv1" "q' = q2"
      using Cons.prems(3) Enq e1 r by simp_all
    have q1: "wf q1 \<and> fifo q1 k = fifo q k @ (if ok \<and> key e = k then [e] else [])"
      using enq_yes [OF Cons.prems(1), of e q1] enq_no [OF Cons.prems(1), of e q1] e1 Cons.prems(1,2) Enq
      by (cases ok) auto
    then have "wf q2 \<and> fifo q1 k @ filter (\<lambda>e. key e = k) acc1 = filter (\<lambda>e. key e = k) srv1 @ fifo q2 k"
      using Cons.IH [of q1 acc1 srv1] Cons.prems(2) r out by auto
    with q1 out show ?thesis by auto
  next
    case (Deq m)
    obtain x q1 where e1: "deq q m = (x, q1)" by fastforce
    obtain acc1 srv1 q2 where r: "queue_run enq deq q1 ops = (acc1, srv1, q2)" by (metis prod_cases3)
    have out: "acc = acc1" "srv = (case x of None \<Rightarrow> srv1 | Some e \<Rightarrow> e # srv1)" "q' = q2"
      using Cons.prems(3) Deq e1 r by simp_all
    have q1: "wf q1 \<and> fifo q k = (case x of Some e \<Rightarrow> if key e = k then [e] else [] | None \<Rightarrow> []) @ fifo q1 k"
      using deq_yes [OF Cons.prems(1), of m _ q1] deq_no [OF Cons.prems(1), of m q1] e1 Cons.prems(1)
      by (cases x) auto
    then have "wf q2 \<and> fifo q1 k @ filter (\<lambda>e. key e = k) acc1 = filter (\<lambda>e. key e = k) srv1 @ fifo q2 k"
      using Cons.IH [of q1 acc1 srv1] Cons.prems(2) r out by auto
    with q1 out show ?thesis by (cases x) auto
  qed
qed simp

end

interpretation fair_fifo: tenant_queue fq_wf "\<lambda>e. skipCount e = 0" tenantKey tenant_fifo enqueue dequeue
proof unfold_locales
  fix q q' :: "'a fair_queue" and e
  assume "fq_wf q" "skipCount e = 0" "enqueue q e = (True, q')"
  moreover from this have "canAccept q (entryCost e)" using enqueue_fst [of q e] by simp
  ultimately show "fq_wf q' \<and> tenant_fifo q' = (tenant_fifo q)(tenantKey e := tenant_fifo q (tenantKey e) @ [e])"
    using enqueue_accept_effect [of q e True q'] enqueue_fifo [of q e True q'] by simp
qed (use dequeue_Some_effect dequeue_fifo dequeue_None_same enqueue_reject enqueue_fst in
    \<open>(metis fst_conv snd_conv)+\<close>)

section \<open>Properties\<close>

text \<open>
  C5: the queue refines one FIFO per tenant. Over any sequence of \<open>enqueue\<close> and \<open>dequeue\<close>
  operations, with any cost budgets, the entries of a tenant are served in exactly the order in
  which they were accepted: what was queued at first followed by what was accepted is what was
  served followed by what is still queued.
\<close>

theorem queue_refines_fifo:
  assumes "fq_wf q" "\<forall>e. Enq e \<in> set ops \<longrightarrow> skipCount e = 0"
    "queue_run enqueue dequeue q ops = (accepted, served, q')"
  shows "fq_wf q' \<and>
    tenant_fifo q t @ filter (\<lambda>e. tenantKey e = t) accepted
      = filter (\<lambda>e. tenantKey e = t) served @ tenant_fifo q' t"
  by (rule fair_fifo.run_fifo) (use assms in auto)

definition demo_entry :: "string \<Rightarrow> string \<Rightarrow> int \<Rightarrow> unit queue_entry" where
  "demo_entry n t cost =
     \<lparr>entryId = n, tenantKey = t, entryCost = cost, enqueuedAtMs = 1,
      deadlineMs = 1000, payload = (), skipCount = 0\<rparr>"

lemma demo_run:
  "queue_run enqueue dequeue (new_queue 5 100)
     [Enq (demo_entry ''q1'' ''a'' 9), Enq (demo_entry ''q2'' ''a'' 1), Enq (demo_entry ''q3'' ''b'' 2), Deq 5] =
   ([demo_entry ''q1'' ''a'' 9, demo_entry ''q2'' ''a'' 1, demo_entry ''q3'' ''b'' 2], [demo_entry ''q3'' ''b'' 2],
    \<lparr>buckets = [(''a'', [(demo_entry ''q1'' ''a'' 9)\<lparr>skipCount := 1\<rparr>, demo_entry ''q2'' ''a'' 1])],
     order = [''a''], cursor = 0, fqCount = 2, fqCost = 10, maxCount = 5, maxCost = 100\<rparr>)"
  by (simp add: new_queue_def enqueue_def canAccept_def demo_entry_def is_safe_integer_def
      max_safe_integer_def dequeue_def reserved_def pass_order_def reserve_step_def head_at_def
      bucket_at_def MAX_UNFITTABLE_SKIPS_def takeAt_def bump_head_def upt_rec)

theorem queue_refines_fifo_witness:
  "filter (\<lambda>e. tenantKey e = ''a'') [demo_entry ''q1'' ''a'' 9, demo_entry ''q2'' ''a'' 1, demo_entry ''q3'' ''b'' 2]
   = filter (\<lambda>e. tenantKey e = ''a'') [demo_entry ''q3'' ''b'' 2] @
     tenant_fifo
      \<lparr>buckets = [(''a'', [(demo_entry ''q1'' ''a'' 9)\<lparr>skipCount := 1\<rparr>, demo_entry ''q2'' ''a'' 1])],
       order = [''a''], cursor = 0, fqCount = 2, fqCost = 10, maxCount = 5, maxCost = 100\<rparr> ''a''"
  using queue_refines_fifo [OF fq_wf_new [of 5 100] _ demo_run, of "''a''"]
  by (simp add: demo_entry_def tenant_fifo_def new_queue_def)

text \<open>
  An entry waiting at the head of its tenant that was passed over twice by cheaper work is
  never passed over again: whatever \<open>dequeue\<close> returns after that, with any budget, arrived no
  later than it; a budget too small for the oldest such head serves nobody and changes nothing.
\<close>

lemma passed_over_head_reserved:
  assumes "fq_wf q" "head_at q i = Some e" "MAX_UNFITTABLE_SKIPS \<le> skipCount e"
    "dequeue q budget = (r, q')"
  shows "case r of None \<Rightarrow> q' = q | Some x \<Rightarrow> enqueuedAtMs x \<le> enqueuedAtMs e \<and> entryCost x \<le> budget"
proof (cases r)
  case None
  with dequeue_None_same [OF assms(1)] assms(4) show ?thesis by simp
next
  case (Some x)
  have "aged_at q i e" using assms(2,3) by (simp add: aged_at_def)
  with Some dequeue_aged [OF assms(1)] dequeue_Some_effect [OF assms(1)] assms(4) show ?thesis by auto
qed

text \<open>
  \<open>removeById\<close> takes out exactly the entry with that id, or reports that there is none and
  changes nothing; the round-robin order of the tenants that still wait is kept.
\<close>

lemma removeById_exact:
  assumes "fq_wf q" "removeById q eid = (r, q')"
  shows "fq_wf q' \<and> (case r of
       None \<Rightarrow> q' = q \<and> eid \<notin># image_mset entryId (content q)
     | Some e \<Rightarrow> entryId e = eid \<and> content q = add_mset (core e) (content q')
         \<and> ring q' = filter (\<lambda>t. t \<in> set (order q')) (ring q))"
proof (cases r)
  case None
  with removeById_None_effect [OF assms(1), of eid q'] assms show ?thesis by auto
next
  case (Some e)
  with removeById_Some_effect [OF assms(1), of eid e q'] assms show ?thesis by simp
qed

end
