(* ===== verification/Admission_Cost.thy ===== *)
theory Admission_Cost
  imports Prelude
begin

text \<open>
  The request cost estimator of \<open>open-sse/services/admission/cost.ts\<close> and the bounds of
  \<open>types.ts\<close>: a request is charged whole cost units, the sum of the units of its features,
  never more than the configured maximum. Feature values are untyped at run time, so the
  validators are modelled over \<open>js_value\<close>; a \<open>RangeError\<close> is the left of a sum.
\<close>

definition MAX_ADMISSION_WINDOW_MS :: int where
  "MAX_ADMISSION_WINDOW_MS = 86400000"

definition MAX_ADMISSION_COST_OR_LIMIT :: int where
  "MAX_ADMISSION_COST_OR_LIMIT = \<lfloor>(of_int max_safe_integer :: rat) / of_int MAX_ADMISSION_WINDOW_MS\<rfloor>"

datatype range_error = RangeError string

record cost_features =
  bodyBytes :: js_value
  estimatedInputTokens :: js_value
  messageCount :: js_value
  toolCount :: js_value
  requestedFanout :: js_value
  streaming :: js_value

record 'n cost_quanta =
  baseCost :: 'n
  bodyBytesPerUnit :: 'n
  tokensPerUnit :: 'n
  messagesPerUnit :: 'n
  toolsPerUnit :: 'n
  fanoutPerUnit :: 'n
  streamingClassCost :: 'n
  nonStreamingClassCost :: 'n
  maxRequestCost :: 'n

text \<open>\<open>AdmissionCostConfig\<close>, and \<open>Partial<AdmissionCostConfig>\<close> with absent fields undefined.\<close>

type_synonym cost_config = "int cost_quanta"

type_synonym partial_cost_config = "js_value cost_quanta"

definition DEFAULT_ADMISSION_COST_CONFIG :: cost_config where
  "DEFAULT_ADMISSION_COST_CONFIG =
     \<lparr>baseCost = 1, bodyBytesPerUnit = 16384, tokensPerUnit = 1024, messagesPerUnit = 32,
      toolsPerUnit = 8, fanoutPerUnit = 1, streamingClassCost = 1, nonStreamingClassCost = 2,
      maxRequestCost = 1000\<rparr>"

definition finiteNonNegative :: "js_value \<Rightarrow> rat" where
  "finiteNonNegative v =
     (case finite_of v of
        None \<Rightarrow> 0
      | Some r \<Rightarrow> if r < 0 then 0 else min r (of_int max_safe_integer))"

definition requirePositiveSafeInteger :: "string \<Rightarrow> js_value \<Rightarrow> int \<Rightarrow> range_error + int" where
  "requirePositiveSafeInteger name v mx =
     (case safe_integer_of v of
        None \<Rightarrow> Inl (RangeError (name @ '' must be a positive safe integer''))
      | Some n \<Rightarrow>
          if n \<le> 0 then Inl (RangeError (name @ '' must be a positive safe integer''))
          else if n > mx then Inl (RangeError (name @ '' must be <= '' @ show_nat (nat mx)))
          else Inr n)"

definition js_int :: "int \<Rightarrow> js_value" where
  "js_int n = Number (Finite (of_int n))"

text \<open>\<open>partial?.[key] ?? d[key]\<close> validated, for one key.\<close>

definition resolve_key ::
  "string \<Rightarrow> (partial_cost_config \<Rightarrow> js_value) \<Rightarrow> (cost_config \<Rightarrow> int) \<Rightarrow>
   partial_cost_config option \<Rightarrow> range_error + int" where
  "resolve_key name field dflt p =
     requirePositiveSafeInteger name
       (nullish_default (case p of None \<Rightarrow> Undefined | Some c \<Rightarrow> field c)
          (js_int (dflt DEFAULT_ADMISSION_COST_CONFIG)))
       MAX_ADMISSION_COST_OR_LIMIT"

text \<open>The loop over \<open>COST_CONFIG_KEYS\<close>, unrolled in their order.\<close>

definition resolveCostConfig :: "partial_cost_config option \<Rightarrow> range_error + cost_config" where
  "resolveCostConfig p =
     and_then (resolve_key ''baseCost'' baseCost baseCost p) (\<lambda>base.
     and_then (resolve_key ''bodyBytesPerUnit'' bodyBytesPerUnit bodyBytesPerUnit p) (\<lambda>body.
     and_then (resolve_key ''tokensPerUnit'' tokensPerUnit tokensPerUnit p) (\<lambda>tokens.
     and_then (resolve_key ''messagesPerUnit'' messagesPerUnit messagesPerUnit p) (\<lambda>messages.
     and_then (resolve_key ''toolsPerUnit'' toolsPerUnit toolsPerUnit p) (\<lambda>tools.
     and_then (resolve_key ''fanoutPerUnit'' fanoutPerUnit fanoutPerUnit p) (\<lambda>fanout.
     and_then (resolve_key ''streamingClassCost'' streamingClassCost streamingClassCost p) (\<lambda>str.
     and_then (resolve_key ''nonStreamingClassCost'' nonStreamingClassCost nonStreamingClassCost p) (\<lambda>nstr.
     and_then (resolve_key ''maxRequestCost'' maxRequestCost maxRequestCost p) (\<lambda>mx.
       Inr \<lparr>baseCost = base, bodyBytesPerUnit = body, tokensPerUnit = tokens,
            messagesPerUnit = messages, toolsPerUnit = tools, fanoutPerUnit = fanout,
            streamingClassCost = str, nonStreamingClassCost = nstr, maxRequestCost = mx\<rparr>)))))))))"

definition unitsFrom :: "rat \<Rightarrow> int \<Rightarrow> int" where
  "unitsFrom amount quantum = (if amount \<le> 0 then 0 else \<lceil>amount / of_int quantum\<rceil>)"

definition addBounded :: "int \<Rightarrow> int \<Rightarrow> int \<Rightarrow> int" where
  "addBounded acc contribution maximum =
     (if contribution \<ge> maximum - acc then maximum else acc + contribution)"

text \<open>The accumulation loop of \<open>estimateAdmissionCost\<close>, with its early \<open>break\<close>.\<close>

fun add_contributions :: "int \<Rightarrow> int list \<Rightarrow> int \<Rightarrow> int" where
  "add_contributions acc [] mx = acc"
| "add_contributions acc (c # cs) mx =
     (let acc' = addBounded acc c mx
      in if acc' = mx then acc' else add_contributions acc' cs mx)"

definition contributions :: "cost_features \<Rightarrow> cost_config \<Rightarrow> int list" where
  "contributions f cfg =
     [unitsFrom (finiteNonNegative (bodyBytes f)) (bodyBytesPerUnit cfg),
      unitsFrom (finiteNonNegative (estimatedInputTokens f)) (tokensPerUnit cfg),
      unitsFrom (finiteNonNegative (messageCount f)) (messagesPerUnit cfg),
      unitsFrom (finiteNonNegative (toolCount f)) (toolsPerUnit cfg),
      unitsFrom (max 1 (finiteNonNegative (requestedFanout f))) (fanoutPerUnit cfg),
      (if streaming f \<noteq> Boolean False then streamingClassCost cfg else nonStreamingClassCost cfg)]"

definition estimateAdmissionCost ::
  "cost_features \<Rightarrow> partial_cost_config option \<Rightarrow> range_error + int" where
  "estimateAdmissionCost f p =
     and_then (resolveCostConfig p) (\<lambda>cfg.
       Inr (add_contributions (min (baseCost cfg) (maxRequestCost cfg)) (contributions f cfg)
              (maxRequestCost cfg)))"

definition normalizeRequestCost :: "js_value \<Rightarrow> js_value \<Rightarrow> range_error + int" where
  "normalizeRequestCost c mx =
     and_then (requirePositiveSafeInteger ''maxRequestCost'' mx MAX_ADMISSION_COST_OR_LIMIT) (\<lambda>m.
     and_then (requirePositiveSafeInteger ''request cost'' c MAX_ADMISSION_COST_OR_LIMIT) (\<lambda>v.
       Inr (min v m)))"


section \<open>Validation\<close>

lemma MAX_ADMISSION_COST_OR_LIMIT_eq: "MAX_ADMISSION_COST_OR_LIMIT = 104249991"
  by (simp add: MAX_ADMISSION_COST_OR_LIMIT_def MAX_ADMISSION_WINDOW_MS_def max_safe_integer_def)

text \<open>The derivation stated beside the constant: a full window at the maximum limit is exact.\<close>

lemma cost_time_product_safe:
  assumes "0 \<le> c" "c \<le> MAX_ADMISSION_COST_OR_LIMIT" "0 \<le> t" "t \<le> MAX_ADMISSION_WINDOW_MS"
  shows "c * t \<le> max_safe_integer"
proof -
  have "c * t \<le> MAX_ADMISSION_COST_OR_LIMIT * MAX_ADMISSION_WINDOW_MS"
    using assms by (intro mult_mono) auto
  also have "\<dots> \<le> max_safe_integer"
    by (simp add: MAX_ADMISSION_COST_OR_LIMIT_eq MAX_ADMISSION_WINDOW_MS_def max_safe_integer_def)
  finally show ?thesis .
qed

lemma requirePositiveSafeInteger_Inr:
  "requirePositiveSafeInteger name v mx = Inr n \<longleftrightarrow>
     v = js_int n \<and> 0 < n \<and> n \<le> mx \<and> is_safe_integer n"
  by (auto simp: requirePositiveSafeInteger_def js_int_def safe_integer_of_Some
      split: option.splits if_splits)

lemma requirePositiveSafeInteger_ok:
  "0 < n \<Longrightarrow> n \<le> MAX_ADMISSION_COST_OR_LIMIT \<Longrightarrow>
   requirePositiveSafeInteger name (js_int n) MAX_ADMISSION_COST_OR_LIMIT = Inr n"
  by (simp add: requirePositiveSafeInteger_Inr is_safe_integer_def max_safe_integer_def
      MAX_ADMISSION_COST_OR_LIMIT_eq)

text \<open>A resolved configuration: every quantum a positive integer within the bound.\<close>

definition in_bound :: "int \<Rightarrow> bool" where
  "in_bound n \<longleftrightarrow> 0 < n \<and> n \<le> MAX_ADMISSION_COST_OR_LIMIT"

definition cost_config_ok :: "cost_config \<Rightarrow> bool" where
  "cost_config_ok cfg \<longleftrightarrow>
     in_bound (baseCost cfg) \<and> in_bound (bodyBytesPerUnit cfg) \<and> in_bound (tokensPerUnit cfg) \<and>
     in_bound (messagesPerUnit cfg) \<and> in_bound (toolsPerUnit cfg) \<and> in_bound (fanoutPerUnit cfg) \<and>
     in_bound (streamingClassCost cfg) \<and> in_bound (nonStreamingClassCost cfg) \<and>
     in_bound (maxRequestCost cfg)"

lemma resolve_key_bound: "resolve_key name g d p = Inr n \<Longrightarrow> in_bound n"
  by (simp add: resolve_key_def requirePositiveSafeInteger_Inr in_bound_def)

lemma resolveCostConfig_ok: "resolveCostConfig p = Inr cfg \<Longrightarrow> cost_config_ok cfg"
  unfolding resolveCostConfig_def cost_config_ok_def
  by (elim and_then_InrE, (drule resolve_key_bound)+, auto)

text \<open>A resolved configuration passed back in, as the controller does, resolves to itself.\<close>

definition as_partial :: "cost_config \<Rightarrow> partial_cost_config" where
  "as_partial cfg =
     \<lparr>baseCost = js_int (baseCost cfg), bodyBytesPerUnit = js_int (bodyBytesPerUnit cfg),
      tokensPerUnit = js_int (tokensPerUnit cfg), messagesPerUnit = js_int (messagesPerUnit cfg),
      toolsPerUnit = js_int (toolsPerUnit cfg), fanoutPerUnit = js_int (fanoutPerUnit cfg),
      streamingClassCost = js_int (streamingClassCost cfg),
      nonStreamingClassCost = js_int (nonStreamingClassCost cfg),
      maxRequestCost = js_int (maxRequestCost cfg)\<rparr>"

lemma nullish_js_int [simp]: "nullish_default (js_int n) d = js_int n"
  by (simp add: js_int_def)

lemma resolve_as_partial:
  "cost_config_ok cfg \<Longrightarrow> resolveCostConfig (Some (as_partial cfg)) = Inr cfg"
  by (simp add: resolveCostConfig_def resolve_key_def as_partial_def cost_config_ok_def in_bound_def
      requirePositiveSafeInteger_ok)

lemma normalizeRequestCost_bounds:
  "normalizeRequestCost c m = Inr n \<Longrightarrow> 0 < n \<and> n \<le> MAX_ADMISSION_COST_OR_LIMIT"
  by (auto simp: normalizeRequestCost_def and_then_eq_Inr requirePositiveSafeInteger_Inr)

lemma normalizeRequestCost_js_int:
  "in_bound n \<Longrightarrow> in_bound m \<Longrightarrow> normalizeRequestCost (js_int n) (js_int m) = Inr (min n m)"
  by (simp add: normalizeRequestCost_def requirePositiveSafeInteger_ok in_bound_def)


section \<open>The estimate is a capped sum\<close>

lemma unitsFrom_nonneg:
  assumes "0 < q"
  shows "0 \<le> unitsFrom a q"
proof (cases "a \<le> 0")
  case False
  then have "0 < a / of_int q" using assms by simp
  then have "-1 < a / of_int q" by linarith
  then show ?thesis by (simp add: unitsFrom_def)
qed (simp add: unitsFrom_def)

lemma unitsFrom_mono: "0 < q \<Longrightarrow> a \<le> b \<Longrightarrow> unitsFrom a q \<le> unitsFrom b q"
  using unitsFrom_nonneg [of q b]
  by (auto simp: unitsFrom_def intro!: ceiling_mono divide_right_mono)

lemma contributions_nonneg:
  "cost_config_ok cfg \<Longrightarrow> c \<in> set (contributions f cfg) \<Longrightarrow> 0 \<le> c"
  by (auto simp: contributions_def cost_config_ok_def in_bound_def intro: unitsFrom_nonneg)

lemma addBounded_min: "t \<le> m \<Longrightarrow> 0 \<le> c \<Longrightarrow> addBounded t c m = min m (t + c)"
  by (auto simp: addBounded_def)

lemma add_contributions_min:
  "t \<le> m \<Longrightarrow> (\<And>c. c \<in> set cs \<Longrightarrow> 0 \<le> c) \<Longrightarrow>
   add_contributions t cs m = min m (t + sum_list cs)"
proof (induction t cs m rule: add_contributions.induct)
  case (1 t m)
  then show ?case by simp
next
  case (2 t c cs m)
  have nonneg: "0 \<le> c" "0 \<le> sum_list cs" using "2.prems"(2) by (auto intro: sum_list_nonneg)
  show ?case
  proof (cases "m \<le> t + c")
    case True
    with nonneg "2.prems"(1) show ?thesis by (simp add: addBounded_min Let_def min_def)
  next
    case False
    with nonneg "2.prems" have "addBounded t c m = t + c" "t + c \<noteq> m"
      by (simp_all add: addBounded_min)
    with "2.IH" [of "t + c"] "2.prems" False show ?thesis by (simp add: add.assoc)
  qed
qed

lemma estimate_closed_form:
  assumes "resolveCostConfig p = Inr cfg"
  shows "estimateAdmissionCost f p =
    Inr (min (maxRequestCost cfg) (baseCost cfg + sum_list (contributions f cfg)))"
proof -
  have ok: "cost_config_ok cfg" using assms by (rule resolveCostConfig_ok)
  have "0 \<le> sum_list (contributions f cfg)"
    using contributions_nonneg [OF ok] by (intro sum_list_nonneg) blast
  moreover have "add_contributions (min (baseCost cfg) (maxRequestCost cfg)) (contributions f cfg)
      (maxRequestCost cfg) =
      min (maxRequestCost cfg) (min (baseCost cfg) (maxRequestCost cfg) + sum_list (contributions f cfg))"
    by (intro add_contributions_min) (auto simp: contributions_nonneg [OF ok])
  ultimately show ?thesis using assms by (simp add: estimateAdmissionCost_def)
qed

lemma estimate_bounds:
  assumes "resolveCostConfig p = Inr cfg" "estimateAdmissionCost f p = Inr n"
  shows "0 < n \<and> n \<le> maxRequestCost cfg"
proof -
  have ok: "cost_config_ok cfg" using assms(1) by (rule resolveCostConfig_ok)
  have "0 \<le> sum_list (contributions f cfg)"
    using contributions_nonneg [OF ok] by (intro sum_list_nonneg) blast
  with assms ok show ?thesis
    by (auto simp: estimate_closed_form cost_config_ok_def in_bound_def)
qed

lemma finiteNonNegative_nonneg: "0 \<le> finiteNonNegative v"
  by (simp add: finiteNonNegative_def max_safe_integer_def split: option.splits)

section \<open>Properties\<close>

text \<open>
  The estimator with its early exit and bounded additions computes the closed form: the base
  cost plus every contribution, capped at the configured maximum, and the result is a positive
  integer. It fails only when the quanta are invalid.
\<close>

lemma estimate_is_capped_sum:
  assumes "resolveCostConfig p = Inr cfg"
  shows "estimateAdmissionCost f p
      = Inr (min (maxRequestCost cfg) (baseCost cfg + sum_list (contributions f cfg)))
    \<and> 0 < min (maxRequestCost cfg) (baseCost cfg + sum_list (contributions f cfg))"
  using estimate_closed_form [OF assms, of f] estimate_bounds [OF assms, of f] by simp

end
