(* ===== verification/Admission_Adaptation.thy ===== *)
theory Admission_Adaptation
  imports Admission_Cost
begin

text \<open>
  The adaptive limit of \<open>open-sse/services/admission/adaptation.ts\<close>: feedback from one window
  of completed requests (latency averages, utilisation, pressure, upstream errors) raises or
  lowers the aggregate cost limit, within \<open>[minLimit, maxLimit]\<close>. The code mutates one state
  object; here every operation returns the new record.
\<close>


section \<open>State\<close>

datatype AdmissionPressure = Normal | High | Critical

datatype AdmissionReleaseOutcome = Success | Upstream_error | Timeout | Local_reject | Cancelled

record AdaptationParams =
  apMinLimit :: int
  apMaxLimit :: int
  apWindowMs :: int
  shortLatencyAlpha :: rat
  longLatencyAlpha :: rat
  increaseStep :: int
  decreaseFactor :: rat
  criticalDecreaseFactor :: rat
  highUtilizationThreshold :: rat
  lowUtilizationThreshold :: rat
  latencyGradientThreshold :: rat
  maxIncreasePerWindow :: int

record AdaptationState =
  currentLimit :: int
  recoveryCeiling :: int
  shortLatencyEwma :: rat
  longLatencyEwma :: rat
  pressure :: AdmissionPressure
  windowActiveCostIntegral :: int
  windowCompleted :: int
  windowLatencySamples :: int
  windowStartMs :: int
  freezeGrowth :: bool
  criticalDecreaseConsumed :: bool
  utilization :: rat


section \<open>Operations\<close>

fun clampLimit :: "js_number \<Rightarrow> int \<Rightarrow> int \<Rightarrow> int" where
  "clampLimit (Finite v) lo hi = min hi (max lo \<lfloor>v\<rfloor>)"
| "clampLimit _ lo hi = lo"

definition createAdaptationState :: "int \<Rightarrow> int \<Rightarrow> int \<Rightarrow> int \<Rightarrow> AdaptationState" where
  "createAdaptationState initialLimit lo hi nowMs =
     \<lparr>currentLimit = clampLimit (Finite (of_int initialLimit)) lo hi,
      recoveryCeiling = clampLimit (Finite (of_int initialLimit)) lo hi,
      shortLatencyEwma = 0, longLatencyEwma = 0, pressure = Normal,
      windowActiveCostIntegral = 0, windowCompleted = 0, windowLatencySamples = 0,
      windowStartMs = nowMs, freezeGrowth = False, criticalDecreaseConsumed = False,
      utilization = 0\<rparr>"

definition latency_sample :: "js_number \<Rightarrow> rat" where
  "latency_sample v = (case v of Finite r \<Rightarrow> if r \<ge> 0 then r else 0 | _ \<Rightarrow> 0)"

definition noteLatency :: "AdaptationState \<Rightarrow> js_number \<Rightarrow> AdaptationParams \<Rightarrow> AdaptationState" where
  "noteLatency st latencyMs params =
     (let sample = latency_sample latencyMs;
          st = st\<lparr>windowLatencySamples := windowLatencySamples st + 1\<rparr>;
          sa = shortLatencyAlpha params;
          la = longLatencyAlpha params
      in if shortLatencyEwma st \<le> 0 \<and> longLatencyEwma st \<le> 0
         then st\<lparr>shortLatencyEwma := sample, longLatencyEwma := sample\<rparr>
         else st\<lparr>shortLatencyEwma := sa * sample + (1 - sa) * shortLatencyEwma st,
                 longLatencyEwma := la * sample + (1 - la) * longLatencyEwma st\<rparr>)"

definition noteOutcome :: "AdaptationState \<Rightarrow> AdmissionReleaseOutcome \<Rightarrow> AdaptationState" where
  "noteOutcome st outcome =
     (if outcome = Upstream_error then st\<lparr>freezeGrowth := True\<rparr>
      else if outcome = Timeout then st\<lparr>freezeGrowth := True\<rparr>
      else st)"

fun severity :: "AdmissionPressure \<Rightarrow> nat" where
  "severity Normal = 0"
| "severity High = 1"
| "severity Critical = 2"

definition setPressure :: "AdaptationState \<Rightarrow> AdmissionPressure \<Rightarrow> AdaptationState" where
  "setPressure st p = (if severity p > severity (pressure st) then st\<lparr>pressure := p\<rparr> else st)"

definition applyIdleRecovery :: "AdaptationState \<Rightarrow> AdaptationParams \<Rightarrow> int \<Rightarrow> int" where
  "applyIdleRecovery st params nxt =
     (if pressure st \<noteq> Critical \<and> \<not> freezeGrowth st \<and> windowCompleted st = 0 \<and>
         currentLimit st < recoveryCeiling st
      then min (recoveryCeiling st) (nxt + min (increaseStep params) (maxIncreasePerWindow params))
      else nxt)"

text \<open>\<open>Math.floor(next * factor)\<close>\<close>

definition scaleLimit :: "int \<Rightarrow> rat \<Rightarrow> int" where
  "scaleLimit n f = \<lfloor>of_int n * f\<rfloor>"

definition window_utilization :: "AdaptationState \<Rightarrow> AdaptationParams \<Rightarrow> int \<Rightarrow> rat" where
  "window_utilization st params nowMs =
     (let elapsed = max 1 (min (apWindowMs params) (nowMs - windowStartMs st));
          avgActive = (of_int (windowActiveCostIntegral st) :: rat) / of_int elapsed;
          util = (if currentLimit st > 0 then avgActive / of_int (currentLimit st) else 0)
      in max 0 (min 1 util))"

definition latency_gradient :: "AdaptationState \<Rightarrow> rat" where
  "latency_gradient st =
     (if longLatencyEwma st > 0
      then (shortLatencyEwma st - longLatencyEwma st) / longLatencyEwma st else 0)"

text \<open>The three-way limit adjustment of \<open>closeAdaptationWindow\<close>.\<close>

definition adjusted_limit :: "AdaptationState \<Rightarrow> AdaptationParams \<Rightarrow> int" where
  "adjusted_limit st params =
     (let nxt = currentLimit st in
      if pressure st = Critical then
        (if \<not> criticalDecreaseConsumed st then scaleLimit nxt (criticalDecreaseFactor params) else nxt)
      else if pressure st = High \<or>
              windowLatencySamples st > 0 \<and> latency_gradient st \<ge> latencyGradientThreshold params
      then scaleLimit nxt (decreaseFactor params)
      else if \<not> freezeGrowth st \<and> pressure st = Normal \<and>
              utilization st \<ge> highUtilizationThreshold params \<and> windowCompleted st > 0
      then nxt + min (increaseStep params) (maxIncreasePerWindow params)
      else nxt)"

definition closeAdaptationWindow ::
  "AdaptationState \<Rightarrow> AdaptationParams \<Rightarrow> int \<Rightarrow> AdaptationState" where
  "closeAdaptationWindow st params nowMs =
     (let st = st\<lparr>utilization := window_utilization st params nowMs\<rparr>;
          nxt = adjusted_limit st params;
          low = utilization st \<le> lowUtilizationThreshold params;
          st = (if low then st\<lparr>shortLatencyEwma := longLatencyEwma st\<rparr> else st);
          nxt = (if low then applyIdleRecovery st params nxt else nxt)
      in st\<lparr>currentLimit := clampLimit (Finite (of_int nxt)) (apMinLimit params) (apMaxLimit params),
            windowActiveCostIntegral := 0, windowCompleted := 0, windowLatencySamples := 0,
            windowStartMs := nowMs, freezeGrowth := False, criticalDecreaseConsumed := False,
            pressure := Normal\<rparr>)"

definition sampleActiveIntegral :: "AdaptationState \<Rightarrow> int \<Rightarrow> int \<Rightarrow> AdaptationState" where
  "sampleActiveIntegral st activeCost dtMs =
     (if dtMs \<le> 0 \<or> activeCost \<le> 0 then st
      else
        let bounded = min activeCost (currentLimit st);
            contribution = (if dtMs > max_safe_integer div bounded then max_safe_integer
                            else bounded * dtMs)
        in st\<lparr>windowActiveCostIntegral :=
                (if contribution \<ge> max_safe_integer - windowActiveCostIntegral st then max_safe_integer
                 else windowActiveCostIntegral st + contribution)\<rparr>)"


section \<open>Parameters the validator lets through\<close>

definition params_ok :: "AdaptationParams \<Rightarrow> bool" where
  "params_ok p \<longleftrightarrow>
     in_bound (apMinLimit p) \<and> in_bound (apMaxLimit p) \<and> apMinLimit p \<le> apMaxLimit p \<and>
     0 < apWindowMs p \<and> apWindowMs p \<le> MAX_ADMISSION_WINDOW_MS \<and>
     0 < longLatencyAlpha p \<and> longLatencyAlpha p < shortLatencyAlpha p \<and> shortLatencyAlpha p \<le> 1 \<and>
     in_bound (increaseStep p) \<and> in_bound (maxIncreasePerWindow p) \<and>
     0 < criticalDecreaseFactor p \<and> criticalDecreaseFactor p \<le> decreaseFactor p \<and>
     decreaseFactor p < 1 \<and>
     0 < lowUtilizationThreshold p \<and> lowUtilizationThreshold p < highUtilizationThreshold p \<and>
     highUtilizationThreshold p \<le> 1 \<and>
     0 < latencyGradientThreshold p \<and> latencyGradientThreshold p \<le> 1"

definition adapt_ok :: "AdaptationParams \<Rightarrow> AdaptationState \<Rightarrow> bool" where
  "adapt_ok p st \<longleftrightarrow>
     apMinLimit p \<le> currentLimit st \<and> currentLimit st \<le> apMaxLimit p \<and>
     apMinLimit p \<le> recoveryCeiling st \<and> recoveryCeiling st \<le> apMaxLimit p \<and>
     0 \<le> shortLatencyEwma st \<and> 0 \<le> longLatencyEwma st \<and>
     0 \<le> windowActiveCostIntegral st \<and> windowActiveCostIntegral st \<le> max_safe_integer \<and>
     0 \<le> windowCompleted st \<and> 0 \<le> windowLatencySamples st \<and>
     0 \<le> utilization st \<and> utilization st \<le> 1"

lemma clampLimit_range: "lo \<le> hi \<Longrightarrow> lo \<le> clampLimit v lo hi \<and> clampLimit v lo hi \<le> hi"
  by (cases v) auto

lemma createAdaptationState_ok [wf_intros]:
  "params_ok p \<Longrightarrow> adapt_ok p (createAdaptationState n (apMinLimit p) (apMaxLimit p) t)"
  using clampLimit_range [of "apMinLimit p" "apMaxLimit p"]
  by (simp add: adapt_ok_def createAdaptationState_def params_ok_def max_safe_integer_def)

lemma latency_sample_nonneg: "0 \<le> latency_sample v"
  by (simp add: latency_sample_def split: js_number.splits)

lemma noteLatency_ok [wf_intros]:
  assumes "params_ok p" "adapt_ok p st"
  shows "adapt_ok p (noteLatency st v p)"
proof -
  have "0 \<le> (1 - shortLatencyAlpha p) * shortLatencyEwma st"
    "0 \<le> (1 - longLatencyAlpha p) * longLatencyEwma st"
    "0 \<le> shortLatencyAlpha p * latency_sample v" "0 \<le> longLatencyAlpha p * latency_sample v"
    using assms latency_sample_nonneg [of v] by (simp_all add: params_ok_def adapt_ok_def)
  with assms latency_sample_nonneg [of v] show ?thesis
    by (simp add: noteLatency_def adapt_ok_def Let_def)
qed

lemma noteOutcome_ok [wf_intros]: "adapt_ok p st \<Longrightarrow> adapt_ok p (noteOutcome st out)"
  by (simp add: adapt_ok_def noteOutcome_def)

lemma setPressure_ok [wf_intros]: "adapt_ok p st \<Longrightarrow> adapt_ok p (setPressure st pr)"
  by (simp add: adapt_ok_def setPressure_def)

lemma closeAdaptationWindow_ok [wf_intros]:
  assumes "params_ok p" "adapt_ok p st"
  shows "adapt_ok p (closeAdaptationWindow st p t)"
proof -
  have "0 \<le> window_utilization st p t \<and> window_utilization st p t \<le> 1"
    by (simp add: window_utilization_def Let_def)
  with assms clampLimit_range [of "apMinLimit p" "apMaxLimit p"] show ?thesis
    by (simp add: adapt_ok_def closeAdaptationWindow_def Let_def params_ok_def max_safe_integer_def)
qed

lemma sampleActiveIntegral_ok [wf_intros]:
  assumes "params_ok p" "adapt_ok p st"
  shows "adapt_ok p (sampleActiveIntegral st c dt)"
proof (cases "dt \<le> 0 \<or> c \<le> 0")
  case True
  with assms show ?thesis by (simp add: sampleActiveIntegral_def)
next
  case False
  have "0 < currentLimit st" using assms by (auto simp: adapt_ok_def params_ok_def in_bound_def)
  with False have "0 \<le> min c (currentLimit st) * dt" by simp
  with False assms show ?thesis
    by (auto simp: sampleActiveIntegral_def adapt_ok_def Let_def max_safe_integer_def
        simp del: min_less_iff_conj)
qed

end
