(* ===== verification/Admission_Config.thy ===== *)
theory Admission_Config
  imports Admission_Adaptation
begin

text \<open>
  Validation of the admission settings, \<open>open-sse/services/admission/config.ts\<close>. The input is
  whatever the caller passed (every field a \<open>js_value\<close>), the result a fully typed
  configuration or the \<open>RangeError\<close> of the first check that fails, in the order of the code.
\<close>

datatype AdmissionMode = Off | Shadow | Enforce

record AdaptiveAdmissionConfig =
  inMode :: js_value
  inMinLimit :: js_value
  inMaxLimit :: js_value
  inInitialLimit :: js_value
  inMaxQueueCount :: js_value
  inMaxQueueCost :: js_value
  inDefaultMaxWaitMs :: js_value
  inWindowMs :: js_value
  inShortLatencyAlpha :: js_value
  inLongLatencyAlpha :: js_value
  inIncreaseStep :: js_value
  inDecreaseFactor :: js_value
  inCriticalDecreaseFactor :: js_value
  inHighUtilizationThreshold :: js_value
  inLowUtilizationThreshold :: js_value
  inLatencyGradientThreshold :: js_value
  inMaxIncreasePerWindow :: js_value
  inCost :: "partial_cost_config option"
  inVirtualLanes :: js_value

record ValidatedConfig =
  mode :: AdmissionMode
  minLimit :: int
  maxLimit :: int
  initialLimit :: int
  maxQueueCount :: int
  maxQueueCost :: int
  defaultMaxWaitMs :: int
  windowMs :: int
  adaptation :: AdaptationParams
  vcMaxRequestCost :: int
  costConfig :: cost_config
  virtualLanes :: bool

definition requirePositiveInt :: "string \<Rightarrow> js_value \<Rightarrow> int \<Rightarrow> range_error + int" where
  "requirePositiveInt name v mx =
     (case safe_integer_of v of
        None \<Rightarrow> Inl (RangeError (name @ '' must be a positive safe integer''))
      | Some n \<Rightarrow>
          if n \<le> 0 then Inl (RangeError (name @ '' must be a positive safe integer''))
          else if n > mx then Inl (RangeError (name @ '' must be <= '' @ show_nat (nat mx)))
          else Inr n)"

definition requireUnitInterval :: "string \<Rightarrow> js_value \<Rightarrow> rat \<Rightarrow> range_error + rat" where
  "requireUnitInterval name v fallback =
     (if v = Undefined then Inr fallback
      else case finite_of v of
        None \<Rightarrow> Inl (RangeError (name @ '' must be in (0, 1]''))
      | Some r \<Rightarrow> if r \<le> 0 \<or> r > 1 then Inl (RangeError (name @ '' must be in (0, 1]'')) else Inr r)"

definition requireDecreaseFactor :: "string \<Rightarrow> js_value \<Rightarrow> rat \<Rightarrow> range_error + rat" where
  "requireDecreaseFactor name v fallback =
     (if v = Undefined then Inr fallback
      else case finite_of v of
        None \<Rightarrow> Inl (RangeError (name @ '' must be in (0, 1)''))
      | Some r \<Rightarrow> if r \<le> 0 \<or> r \<ge> 1 then Inl (RangeError (name @ '' must be in (0, 1)'')) else Inr r)"

definition resolveMode :: "js_value \<Rightarrow> range_error + AdmissionMode" where
  "resolveMode v =
     (if v = Undefined then Inr Shadow
      else if v = Str ''off'' then Inr Off
      else if v = Str ''shadow'' then Inr Shadow
      else if v = Str ''enforce'' then Inr Enforce
      else Inl (RangeError ''mode must be off|shadow|enforce''))"

definition resolveAdaptationParams ::
  "AdaptiveAdmissionConfig \<Rightarrow> int \<Rightarrow> int \<Rightarrow> int \<Rightarrow> range_error + AdaptationParams" where
  "resolveAdaptationParams input lo hi wnd =
     and_then (requireDecreaseFactor ''decreaseFactor'' (inDecreaseFactor input) (4/5)) (\<lambda>dec.
     and_then (requireDecreaseFactor ''criticalDecreaseFactor'' (inCriticalDecreaseFactor input) (1/2)) (\<lambda>crit.
     and_then (if inIncreaseStep input = Undefined then Inr 1
               else requirePositiveInt ''increaseStep'' (inIncreaseStep input) MAX_ADMISSION_COST_OR_LIMIT) (\<lambda>incr.
     and_then (if inMaxIncreasePerWindow input = Undefined then Inr incr
               else requirePositiveInt ''maxIncreasePerWindow'' (inMaxIncreasePerWindow input)
                      MAX_ADMISSION_COST_OR_LIMIT) (\<lambda>maxinc.
     and_then (requireUnitInterval ''shortLatencyAlpha'' (inShortLatencyAlpha input) (1/2)) (\<lambda>short.
     and_then (requireUnitInterval ''longLatencyAlpha'' (inLongLatencyAlpha input) (1/10)) (\<lambda>long.
     and_then (requireUnitInterval ''highUtilizationThreshold'' (inHighUtilizationThreshold input) (7/10)) (\<lambda>high.
     and_then (requireUnitInterval ''lowUtilizationThreshold'' (inLowUtilizationThreshold input) (3/10)) (\<lambda>low.
       if crit > dec then Inl (RangeError ''criticalDecreaseFactor must be <= decreaseFactor'')
       else if low \<ge> high then Inl (RangeError ''lowUtilizationThreshold must be < highUtilizationThreshold'')
       else if short \<le> long then Inl (RangeError ''shortLatencyAlpha must be > longLatencyAlpha'')
       else
         and_then (requireUnitInterval ''latencyGradientThreshold'' (inLatencyGradientThreshold input) (1/4)) (\<lambda>grad.
           Inr \<lparr>apMinLimit = lo, apMaxLimit = hi, apWindowMs = wnd, shortLatencyAlpha = short,
                longLatencyAlpha = long, increaseStep = incr, decreaseFactor = dec,
                criticalDecreaseFactor = crit, highUtilizationThreshold = high,
                lowUtilizationThreshold = low, latencyGradientThreshold = grad,
                maxIncreasePerWindow = maxinc\<rparr>)))))))))"

definition validateConfig :: "AdaptiveAdmissionConfig \<Rightarrow> range_error + ValidatedConfig" where
  "validateConfig input =
     and_then (requirePositiveInt ''minLimit'' (inMinLimit input) MAX_ADMISSION_COST_OR_LIMIT) (\<lambda>lo.
     and_then (requirePositiveInt ''maxLimit'' (inMaxLimit input) MAX_ADMISSION_COST_OR_LIMIT) (\<lambda>hi.
     if lo > hi then Inl (RangeError ''minLimit must be <= maxLimit'')
     else
     and_then (requirePositiveInt ''initialLimit'' (inInitialLimit input) MAX_ADMISSION_COST_OR_LIMIT) (\<lambda>ini.
     and_then (requirePositiveInt ''maxQueueCount'' (inMaxQueueCount input) max_safe_integer) (\<lambda>qcount.
     and_then (requirePositiveInt ''maxQueueCost'' (inMaxQueueCost input) MAX_ADMISSION_COST_OR_LIMIT) (\<lambda>qcost.
     and_then (if inWindowMs input = Undefined then Inr 1000
               else requirePositiveInt ''windowMs'' (inWindowMs input) MAX_ADMISSION_WINDOW_MS) (\<lambda>wnd.
     and_then (if inDefaultMaxWaitMs input = Undefined then Inr 5000
               else requirePositiveInt ''defaultMaxWaitMs'' (inDefaultMaxWaitMs input) MAX_ADMISSION_WINDOW_MS) (\<lambda>wait.
     and_then (resolveCostConfig (inCost input)) (\<lambda>cost.
     and_then (resolveMode (inMode input)) (\<lambda>md.
     and_then (resolveAdaptationParams input lo hi wnd) (\<lambda>params.
       Inr \<lparr>mode = md, minLimit = lo, maxLimit = hi, initialLimit = ini, maxQueueCount = qcount,
            maxQueueCost = qcost, defaultMaxWaitMs = wait, windowMs = wnd, adaptation = params,
            vcMaxRequestCost = maxRequestCost cost, costConfig = cost,
            virtualLanes = (inVirtualLanes input = Boolean True)\<rparr>))))))))))"


section \<open>What validation guarantees\<close>

definition config_ok :: "ValidatedConfig \<Rightarrow> bool" where
  "config_ok c \<longleftrightarrow>
     params_ok (adaptation c) \<and> apMinLimit (adaptation c) = minLimit c \<and>
     apMaxLimit (adaptation c) = maxLimit c \<and> apWindowMs (adaptation c) = windowMs c \<and>
     in_bound (initialLimit c) \<and> 0 < maxQueueCount c \<and> maxQueueCount c \<le> max_safe_integer \<and>
     in_bound (maxQueueCost c) \<and> 0 < defaultMaxWaitMs c \<and>
     defaultMaxWaitMs c \<le> MAX_ADMISSION_WINDOW_MS \<and>
     cost_config_ok (costConfig c) \<and> vcMaxRequestCost c = maxRequestCost (costConfig c)"

lemma requirePositiveInt_Inr:
  "requirePositiveInt name v mx = Inr n \<Longrightarrow> 0 < n \<and> n \<le> mx"
  by (auto simp: requirePositiveInt_def split: option.splits if_splits)

lemma requireUnitInterval_Inr:
  "requireUnitInterval name v fallback = Inr r \<Longrightarrow> 0 < fallback \<Longrightarrow> fallback \<le> 1 \<Longrightarrow> 0 < r \<and> r \<le> 1"
  by (auto simp: requireUnitInterval_def split: option.splits if_splits)

lemma requireDecreaseFactor_Inr:
  "requireDecreaseFactor name v fallback = Inr r \<Longrightarrow> 0 < fallback \<Longrightarrow> fallback < 1 \<Longrightarrow> 0 < r \<and> r < 1"
  by (auto simp: requireDecreaseFactor_def split: option.splits if_splits)

lemma resolveAdaptationParams_ok:
  assumes "resolveAdaptationParams input lo hi wnd = Inr p" "in_bound lo" "in_bound hi" "lo \<le> hi"
    "0 < wnd" "wnd \<le> MAX_ADMISSION_WINDOW_MS"
  shows "params_ok p \<and> apMinLimit p = lo \<and> apMaxLimit p = hi \<and> apWindowMs p = wnd"
  using assms(1) unfolding resolveAdaptationParams_def
proof (elim and_then_InrE, goal_cases)
  case (1 dec crit incr maxinc short long high low)
  from 1(3,4) have i: "in_bound incr" "in_bound maxinc"
    by (auto simp: in_bound_def MAX_ADMISSION_COST_OR_LIMIT_eq split: if_splits
        dest: requirePositiveInt_Inr)
  have o: "\<not> crit > dec" "\<not> low \<ge> high" "\<not> short \<le> long"
    using 1(9) by (auto split: if_splits)
  have u: "0 < dec \<and> dec < 1" "0 < crit \<and> crit < 1" "0 < short \<and> short \<le> 1"
    "0 < long \<and> long \<le> 1" "0 < high \<and> high \<le> 1" "0 < low \<and> low \<le> 1"
    using requireDecreaseFactor_Inr [OF 1(1)] requireDecreaseFactor_Inr [OF 1(2)]
      requireUnitInterval_Inr [OF 1(5)] requireUnitInterval_Inr [OF 1(6)]
      requireUnitInterval_Inr [OF 1(7)] requireUnitInterval_Inr [OF 1(8)]
    by simp_all
  from 1(9) show ?case
    unfolding if_not_P [OF o(1)] if_not_P [OF o(2)] if_not_P [OF o(3)]
  proof (elim and_then_InrE, goal_cases)
    case (1 grad)
    from 1(1) have "0 < grad \<and> grad \<le> 1" by (rule requireUnitInterval_Inr) simp_all
    moreover have "apMinLimit p = lo" "apMaxLimit p = hi" "apWindowMs p = wnd"
      "shortLatencyAlpha p = short" "longLatencyAlpha p = long" "increaseStep p = incr"
      "decreaseFactor p = dec" "criticalDecreaseFactor p = crit" "highUtilizationThreshold p = high"
      "lowUtilizationThreshold p = low" "latencyGradientThreshold p = grad"
      "maxIncreasePerWindow p = maxinc"
      using 1(2) by auto
    ultimately show ?thesis using i o u assms(2-6) by (simp add: params_ok_def)
  qed
qed

lemma validateConfig_ok:
  assumes "validateConfig input = Inr c"
  shows "config_ok c"
  using assms unfolding validateConfig_def
proof (elim and_then_InrE, goal_cases)
  case (1 lo hi)
  have le: "\<not> lo > hi" using 1(3) by (auto split: if_splits)
  have b: "in_bound lo" "in_bound hi"
    using 1(1,2) by (auto simp: in_bound_def dest: requirePositiveInt_Inr)
  from 1(3) show ?case
    unfolding if_not_P [OF le]
  proof (elim and_then_InrE, goal_cases)
    case (1 ini qcount qcost wnd wait cost md params)
    have w: "0 < wnd" "wnd \<le> MAX_ADMISSION_WINDOW_MS" "0 < wait" "wait \<le> MAX_ADMISSION_WINDOW_MS"
      using 1(4,5)
      by (auto simp: MAX_ADMISSION_WINDOW_MS_def split: if_splits dest: requirePositiveInt_Inr)
    have c: "mode c = md \<and> minLimit c = lo \<and> maxLimit c = hi \<and> initialLimit c = ini \<and>
      maxQueueCount c = qcount \<and> maxQueueCost c = qcost \<and> defaultMaxWaitMs c = wait \<and>
      windowMs c = wnd \<and> adaptation c = params \<and> vcMaxRequestCost c = maxRequestCost cost \<and>
      costConfig c = cost"
      using 1(9) by auto
    have "lo \<le> hi" using le by simp
    from resolveAdaptationParams_ok [OF 1(8) b this w(1,2)] resolveCostConfig_ok [OF 1(6)] w c
      requirePositiveInt_Inr [OF 1(1)] requirePositiveInt_Inr [OF 1(2)] requirePositiveInt_Inr [OF 1(3)]
    show ?case by (simp add: config_ok_def in_bound_def)
  qed
qed

section \<open>Properties\<close>

text \<open>
  A configuration that passes validation is safe to run with: the limits are ordered and
  within the bound that keeps every cost-time product of a window an exact integer, the decrease
  factors and thresholds are ordered inside (0, 1], and the queue caps and waits are positive.
\<close>

lemma validated_config_safe:
  assumes "validateConfig input = Inr c"
  shows "0 < minLimit c \<and> minLimit c \<le> maxLimit c
    \<and> maxLimit c * MAX_ADMISSION_WINDOW_MS \<le> max_safe_integer
    \<and> 0 < criticalDecreaseFactor (adaptation c)
    \<and> criticalDecreaseFactor (adaptation c) \<le> decreaseFactor (adaptation c) \<and> decreaseFactor (adaptation c) < 1
    \<and> lowUtilizationThreshold (adaptation c) < highUtilizationThreshold (adaptation c)
    \<and> longLatencyAlpha (adaptation c) < shortLatencyAlpha (adaptation c)
    \<and> 0 < maxQueueCount c \<and> 0 < maxQueueCost c \<and> 0 < defaultMaxWaitMs c"
proof -
  have ok: "config_ok c" by (rule validateConfig_ok [OF assms])
  then have "maxLimit c * MAX_ADMISSION_WINDOW_MS \<le> max_safe_integer"
    by (intro cost_time_product_safe) (auto simp: config_ok_def params_ok_def in_bound_def MAX_ADMISSION_WINDOW_MS_def)
  with ok show ?thesis by (auto simp: config_ok_def params_ok_def in_bound_def)
qed

end
