(* ===== verification/Admission_Controller.thy ===== *)
theory Admission_Controller
  imports Admission_Queue Admission_Config
begin

text \<open>
  The adaptive admission controller of \<open>open-sse/services/admission/controller.ts\<close>: state and
  operations. Every synchronous operation takes the clock reading \<open>now\<close> it would see; promise
  settlements are appended to the log \<open>acSettled\<close>; timers and abort listeners are tables of
  what is armed. Active lease records are shared between the map and the lease handles, so they
  live in a store \<open>acRecords\<close> and the map \<open>active\<close> is the list of its keys. Error messages are
  dropped, error codes kept.
\<close>


section \<open>State\<close>

definition ADMISSION_LANE_TTL_MS :: int where
  "ADMISSION_LANE_TTL_MS = 60000"

definition ADMISSION_LANE_MAX_SESSIONS :: nat where
  "ADMISSION_LANE_MAX_SESSIONS = 1000"

datatype AdmissionRejectCode = ADMISSION_OVERSIZED | ADMISSION_QUEUE_FULL | ADMISSION_DEADLINE
  | ADMISSION_ABORTED | ADMISSION_LANE_EVICTED | ADMISSION_SHUTDOWN | ADMISSION_UNAVAILABLE

datatype ShadowDecision = Would_admit | Would_queue | Would_reject

datatype VirtualDisposition = VActive | VQueued | VRejected | VNone

record ActiveLeaseRecord =
  lrCost :: int
  lrReleased :: bool
  admittedAtMs :: int
  virtualDisposition :: VirtualDisposition

text \<open>\<open>QueuedPayload\<close>: the promise is known by the entry's id, so the signal is what is left.\<close>

type_synonym queued_payload = "string option"

record lane =
  laneQueue :: "queued_payload fair_queue"
  lastUsedMs :: int

datatype settlement = Resolve string | Reject AdmissionRejectCode

record admission_controller =
  acConfig :: ValidatedConfig
  acAdapt :: AdaptationState
  acQueue :: "queued_payload fair_queue"
  acVirtualQueue :: "string fair_queue"
  acLanes :: "(string, lane) js_map"
  laneEvictionTimer :: "int option"
  acRecords :: "string \<Rightarrow> ActiveLeaseRecord option"
  acActive :: "string list"
  acActiveCost :: int
  acVirtualActiveCost :: int
  acVirtualActiveCount :: int
  acLastSampleMs :: int
  windowTimer :: "int option"
  acShutDown :: bool
  admittedCount :: int
  rejectedCount :: int
  wouldAdmitCount :: int
  wouldQueueCount :: int
  wouldRejectCount :: int
  leaseSeq :: nat
  acSettled :: "(string \<times> settlement) list"
  acTimers :: "(string, int) js_map"
  acListeners :: "(string, string) js_map"
  acAborted :: "string list"

record AdmissionRequest =
  reqCost :: js_value
  reqFeatures :: "cost_features option"
  reqTenantKey :: "string option"
  reqMaxWaitMs :: js_value
  reqSignal :: "string option"
  reqPressure :: "AdmissionPressure option"

datatype acquire_result =
    Admitted string int "ShadowDecision option"
  | Queued string
  | Rejected AdmissionRejectCode


section \<open>Numbers and ids\<close>

definition saturateSnapshotNumber :: "int \<Rightarrow> int" where
  "saturateSnapshotNumber v =
     (if v \<le> 0 then 0 else if v \<ge> max_safe_integer then max_safe_integer else v)"

definition bigintToSnapshotNumber :: "int \<Rightarrow> int" where
  "bigintToSnapshotNumber v =
     (if v \<le> 0 then 0 else if v \<ge> max_safe_integer then max_safe_integer else v)"

definition addSaturated :: "int \<Rightarrow> int \<Rightarrow> int" where
  "addSaturated acc delta =
     (if delta \<le> 0 then saturateSnapshotNumber acc
      else if acc \<ge> max_safe_integer - delta then max_safe_integer
      else acc + delta)"

definition make_id :: "string \<Rightarrow> nat \<Rightarrow> string" where
  "make_id prefix n = prefix @ ''-'' @ show_nat n"

definition nextId :: "string \<Rightarrow> admission_controller \<Rightarrow> string \<times> admission_controller" where
  "nextId prefix c =
     (make_id prefix (leaseSeq c + 1), c\<lparr>leaseSeq := leaseSeq c + 1\<rparr>)"

definition tenant_or_default :: "string option \<Rightarrow> string" where
  "tenant_or_default t =
     (case t of None \<Rightarrow> ''_default'' | Some k \<Rightarrow> if k = '''' then ''_default'' else k)"


section \<open>Timers, listeners and settlements\<close>

definition clearEntryTimer :: "string \<Rightarrow> admission_controller \<Rightarrow> admission_controller" where
  "clearEntryTimer eid c = c\<lparr>acTimers := js_delete eid (acTimers c)\<rparr>"

definition detachAbort :: "string \<Rightarrow> admission_controller \<Rightarrow> admission_controller" where
  "detachAbort eid c = c\<lparr>acListeners := js_delete eid (acListeners c)\<rparr>"

definition settle :: "string \<Rightarrow> settlement \<Rightarrow> admission_controller \<Rightarrow> admission_controller" where
  "settle eid s c = c\<lparr>acSettled := acSettled c @ [(eid, s)]\<rparr>"

definition failQueued ::
  "'p queue_entry \<Rightarrow> AdmissionRejectCode \<Rightarrow> admission_controller \<Rightarrow> admission_controller" where
  "failQueued e code c =
     (let c = settle (entryId e) (Reject code) (detachAbort (entryId e) (clearEntryTimer (entryId e) c))
      in c\<lparr>rejectedCount := rejectedCount c + 1\<rparr>)"

definition armWindowTimer :: "int \<Rightarrow> admission_controller \<Rightarrow> admission_controller" where
  "armWindowTimer now c =
     (if acShutDown c \<or> mode (acConfig c) = Off then c\<lparr>windowTimer := None\<rparr>
      else c\<lparr>windowTimer := Some (now + windowMs (acConfig c))\<rparr>)"

definition clearLaneEviction :: "admission_controller \<Rightarrow> admission_controller" where
  "clearLaneEviction c = c\<lparr>laneEvictionTimer := None\<rparr>"

definition armLaneEviction :: "int \<Rightarrow> admission_controller \<Rightarrow> admission_controller" where
  "armLaneEviction now c =
     (clearLaneEviction c)\<lparr>laneEvictionTimer := Some (now + ADMISSION_LANE_TTL_MS)\<rparr>"

definition sampleIntegral :: "int \<Rightarrow> admission_controller \<Rightarrow> admission_controller" where
  "sampleIntegral now c =
     (let dt = now - acLastSampleMs c in
      if dt > 0 then
        let limit = currentLimit (acAdapt c);
            activeForIntegral = (if acActiveCost c \<ge> limit then limit else acActiveCost c)
        in c\<lparr>acAdapt := sampleActiveIntegral (acAdapt c) activeForIntegral dt, acLastSampleMs := now\<rparr>
      else c)"

definition reject_acquire ::
  "AdmissionRejectCode \<Rightarrow> admission_controller \<Rightarrow> acquire_result \<times> admission_controller" where
  "reject_acquire code c = (Rejected code, c\<lparr>rejectedCount := rejectedCount c + 1\<rparr>)"


section \<open>Admission\<close>

definition resolveCost :: "admission_controller \<Rightarrow> AdmissionRequest \<Rightarrow> range_error + int" where
  "resolveCost c r =
     (if reqCost r \<noteq> Undefined
      then normalizeRequestCost (reqCost r) (js_int (vcMaxRequestCost (acConfig c)))
      else case reqFeatures r of
             Some f \<Rightarrow> estimateAdmissionCost f (Some (as_partial (costConfig (acConfig c))))
           | None \<Rightarrow> Inr 1)"

definition admitVirtual :: "int \<Rightarrow> admission_controller \<Rightarrow> acquire_result \<times> admission_controller" where
  "admitVirtual cost c =
     (let (lid, c) = nextId ''lease'' c
      in (Admitted lid cost None, c\<lparr>admittedCount := admittedCount c + 1\<rparr>))"

definition admit ::
  "int \<Rightarrow> int \<Rightarrow> VirtualDisposition \<Rightarrow> admission_controller \<Rightarrow> string \<times> admission_controller" where
  "admit now cost vd c =
     (let (lid, c) = nextId ''lease'' (sampleIntegral now c);
          r = \<lparr>lrCost = cost, lrReleased = False, admittedAtMs = now, virtualDisposition = vd\<rparr>
      in (lid, c\<lparr>acRecords := (acRecords c)(lid \<mapsto> r),
                 acActive := (if lid \<in> set (acActive c) then acActive c else acActive c @ [lid]),
                 acActiveCost := acActiveCost c + cost,
                 admittedCount := admittedCount c + 1\<rparr>))"

text \<open>What \<open>dispatch\<close> does with an entry it took from a queue: the promise settles exactly once.\<close>

definition settle_entry ::
  "int \<Rightarrow> queued_payload queue_entry \<Rightarrow> admission_controller \<Rightarrow> bool \<times> admission_controller" where
  "settle_entry now e c =
     (let c = detachAbort (entryId e) (clearEntryTimer (entryId e) c) in
      if (case payload e of None \<Rightarrow> False | Some sig \<Rightarrow> sig \<in> set (acAborted c)) then
        (False, (settle (entryId e) (Reject ADMISSION_ABORTED) c)\<lparr>rejectedCount := rejectedCount c + 1\<rparr>)
      else if now \<ge> deadlineMs e then
        (False, (settle (entryId e) (Reject ADMISSION_DEADLINE) c)\<lparr>rejectedCount := rejectedCount c + 1\<rparr>)
      else
        let (lid, c) = admit now (entryCost e) VNone c
        in (True, settle (entryId e) (Resolve lid) c))"


section \<open>Lanes\<close>

definition removeEmptyLane :: "string \<Rightarrow> admission_controller \<Rightarrow> admission_controller" where
  "removeEmptyLane k c =
     (case js_get (acLanes c) k of
        Some l \<Rightarrow> if fq_size (laneQueue l) = 0 then c\<lparr>acLanes := js_delete k (acLanes c)\<rparr> else c
      | None \<Rightarrow> c)"

definition deleteLane :: "string \<Rightarrow> admission_controller \<Rightarrow> admission_controller" where
  "deleteLane k c =
     (case js_get (acLanes c) k of
        None \<Rightarrow> c
      | Some l \<Rightarrow>
          let (es, q') = drain (laneQueue l);
              c = fold (\<lambda>e. failQueued e ADMISSION_LANE_EVICTED) es c
          in c\<lparr>acLanes := js_delete k (acLanes c)\<rparr>)"

definition oldestLaneKey :: "admission_controller \<Rightarrow> string option" where
  "oldestLaneKey c =
     map_option fst
       (foldl (\<lambda>acc (k, l). case acc of
                 None \<Rightarrow> Some (k, lastUsedMs l)
               | Some (_, ms) \<Rightarrow> if lastUsedMs l \<le> ms then Some (k, lastUsedMs l) else acc)
          None (acLanes c))"

definition evictIdleLanes :: "int \<Rightarrow> admission_controller \<Rightarrow> admission_controller" where
  "evictIdleLanes now c =
     (let keys = js_keys (filter (\<lambda>(k, l). now - lastUsedMs l \<ge> ADMISSION_LANE_TTL_MS) (acLanes c));
          c = fold deleteLane keys c
      in if acLanes c \<noteq> [] then armLaneEviction now c else clearLaneEviction c)"

definition getOrCreateLane :: "int \<Rightarrow> string \<Rightarrow> admission_controller \<Rightarrow> admission_controller" where
  "getOrCreateLane now k c =
     (let c = (case js_get (acLanes c) k of
          Some _ \<Rightarrow> c
        | None \<Rightarrow>
            let c = (if length (acLanes c) \<ge> ADMISSION_LANE_MAX_SESSIONS
                     then (case oldestLaneKey c of
                             Some ok \<Rightarrow> if ok \<noteq> '''' then deleteLane ok c else c
                           | None \<Rightarrow> c)
                     else c)
            in c\<lparr>acLanes := js_set k
                   \<lparr>laneQueue = new_queue (maxQueueCount (acConfig c)) (maxQueueCost (acConfig c)),
                    lastUsedMs = now\<rparr> (acLanes c)\<rparr>)
      in case js_get (acLanes c) k of
           Some l \<Rightarrow> c\<lparr>acLanes := js_set k (l\<lparr>lastUsedMs := now\<rparr>) (acLanes c)\<rparr>
         | None \<Rightarrow> c)"

definition laneTotalQueuedCost :: "admission_controller \<Rightarrow> int" where
  "laneTotalQueuedCost c = foldl (\<lambda>t (k, l). addSaturated t (totalCost (laneQueue l))) 0 (acLanes c)"

definition laneTotalQueuedCount :: "admission_controller \<Rightarrow> int" where
  "laneTotalQueuedCount c = foldl (\<lambda>t (k, l). addSaturated t (fq_size (laneQueue l))) 0 (acLanes c)"

definition laneTenantSnapshot :: "admission_controller \<Rightarrow> (string \<times> int \<times> int) list" where
  "laneTenantSnapshot c =
     map (\<lambda>(k, l). (k, saturateSnapshotNumber (fq_size (laneQueue l)),
                       saturateSnapshotNumber (totalCost (laneQueue l)))) (acLanes c)"

definition shouldAdmitSolo :: "int \<Rightarrow> admission_controller \<Rightarrow> bool" where
  "shouldAdmitSolo cost c \<longleftrightarrow>
     cost \<le> maxLimit (acConfig c) \<and> length (acActive c) = 0 \<and> fq_size (acQueue c) = 0 \<and>
     laneTotalQueuedCount c = 0 \<and> pressure (acAdapt c) = Normal"


section \<open>Dispatch\<close>

text \<open>Stores that \<open>admit\<close> and the settlement of an entry do not touch.\<close>

lemma sampleIntegral_frame [simp]:
  "acConfig (sampleIntegral now c) = acConfig c" "acQueue (sampleIntegral now c) = acQueue c"
  "acVirtualQueue (sampleIntegral now c) = acVirtualQueue c" "acLanes (sampleIntegral now c) = acLanes c"
  "acRecords (sampleIntegral now c) = acRecords c" "acActive (sampleIntegral now c) = acActive c"
  "acActiveCost (sampleIntegral now c) = acActiveCost c"
  "acVirtualActiveCost (sampleIntegral now c) = acVirtualActiveCost c"
  "acVirtualActiveCount (sampleIntegral now c) = acVirtualActiveCount c"
  "acShutDown (sampleIntegral now c) = acShutDown c" "leaseSeq (sampleIntegral now c) = leaseSeq c"
  "acSettled (sampleIntegral now c) = acSettled c" "acTimers (sampleIntegral now c) = acTimers c"
  "acListeners (sampleIntegral now c) = acListeners c" "acAborted (sampleIntegral now c) = acAborted c"
  "currentLimit (acAdapt (sampleIntegral now c)) = currentLimit (acAdapt c)"
  "rejectedCount (sampleIntegral now c) = rejectedCount c"
  "admittedCount (sampleIntegral now c) = admittedCount c"
  by (simp_all add: sampleIntegral_def sampleActiveIntegral_def Let_def)

lemma settle_entry_frame [simp]:
  "acConfig (snd (settle_entry now e c)) = acConfig c"
  "acQueue (snd (settle_entry now e c)) = acQueue c"
  "acVirtualQueue (snd (settle_entry now e c)) = acVirtualQueue c"
  "acLanes (snd (settle_entry now e c)) = acLanes c"
  "acShutDown (snd (settle_entry now e c)) = acShutDown c"
  "currentLimit (acAdapt (snd (settle_entry now e c))) = currentLimit (acAdapt c)"
  "acAborted (snd (settle_entry now e c)) = acAborted c"
  "acVirtualActiveCost (snd (settle_entry now e c)) = acVirtualActiveCost c"
  "acVirtualActiveCount (snd (settle_entry now e c)) = acVirtualActiveCount c"
  by (simp_all add: settle_entry_def admit_def nextId_def settle_def detachAbort_def
      clearEntryTimer_def Let_def)

text \<open>
  The loop over the shared queue; the flag says whether it ended by emptying the queue, the
  only way on to the lanes.
\<close>

function dispatch_loop :: "int \<Rightarrow> admission_controller \<Rightarrow> bool \<times> admission_controller" where
  "dispatch_loop now c =
     (if fq_size (acQueue c) \<le> 0 then (True, c)
      else
        let available = currentLimit (acAdapt c) - acActiveCost c in
        if available \<le> 0 then (False, c)
        else case dequeue (acQueue c) available of
               (None, q') \<Rightarrow> (False, c\<lparr>acQueue := q'\<rparr>)
             | (Some e, q') \<Rightarrow> dispatch_loop now (snd (settle_entry now e (c\<lparr>acQueue := q'\<rparr>))))"
  by pat_completeness auto
termination
  by (relation "measure (\<lambda>(now, c). length (entries (acQueue c)))")
    (auto dest: dequeue_shorter sym)

declare dispatch_loop.simps [simp del]

datatype lane_exit = Lane_done | Lane_return

definition lane_entries :: "string \<Rightarrow> admission_controller \<Rightarrow> queued_payload queue_entry list" where
  "lane_entries k c = (case js_get (acLanes c) k of None \<Rightarrow> [] | Some l \<Rightarrow> entries (laneQueue l))"

function lane_loop :: "int \<Rightarrow> string \<Rightarrow> admission_controller \<Rightarrow> lane_exit \<times> admission_controller" where
  "lane_loop now k c =
     (case js_get (acLanes c) k of
        None \<Rightarrow> (Lane_done, c)
      | Some l \<Rightarrow>
          if fq_size (laneQueue l) \<le> 0 then (Lane_done, c)
          else
            let available = currentLimit (acAdapt c) - acActiveCost c in
            if available \<le> 0 then (Lane_return, c)
            else case dequeue (laneQueue l) available of
                   (None, q') \<Rightarrow> (Lane_done, c\<lparr>acLanes := js_set k (l\<lparr>laneQueue := q'\<rparr>) (acLanes c)\<rparr>)
                 | (Some e, q') \<Rightarrow>
                     let r = settle_entry now e
                               (c\<lparr>acLanes := js_set k (l\<lparr>laneQueue := q'\<rparr>) (acLanes c)\<rparr>)
                     in if fst r then (Lane_done, snd r) else lane_loop now k (snd r))"
  by pat_completeness auto
termination
  by (relation "measure (\<lambda>(now, k, c). length (lane_entries k c))")
    (auto simp: lane_entries_def dest: dequeue_shorter sym)

declare lane_loop.simps [simp del]

fun dispatch_lane_keys :: "int \<Rightarrow> string list \<Rightarrow> admission_controller \<Rightarrow> admission_controller" where
  "dispatch_lane_keys now [] c = c"
| "dispatch_lane_keys now (k # ks) c =
     (case js_get (acLanes c) k of
        None \<Rightarrow> dispatch_lane_keys now ks c
      | Some _ \<Rightarrow>
          (case lane_loop now k c of
             (Lane_return, c') \<Rightarrow> c'
           | (Lane_done, c') \<Rightarrow> dispatch_lane_keys now ks (removeEmptyLane k c')))"

definition dispatchLanes :: "int \<Rightarrow> admission_controller \<Rightarrow> admission_controller" where
  "dispatchLanes now c =
     (if acShutDown c \<or> mode (acConfig c) \<noteq> Enforce then c
      else if acLanes c = [] then c
      else dispatch_lane_keys now (js_keys (acLanes c)) c)"

definition dispatch :: "int \<Rightarrow> admission_controller \<Rightarrow> admission_controller" where
  "dispatch now c =
     (if acShutDown c \<or> mode (acConfig c) \<noteq> Enforce then c
      else case dispatch_loop now c of
             (True, c') \<Rightarrow> dispatchLanes now c'
           | (False, c') \<Rightarrow> c')"

definition get_active :: "admission_controller \<Rightarrow> string \<Rightarrow> ActiveLeaseRecord option" where
  "get_active c i = (if i \<in> set (acActive c) then acRecords c i else None)"

definition set_disposition ::
  "string \<Rightarrow> VirtualDisposition \<Rightarrow> admission_controller \<Rightarrow> admission_controller" where
  "set_disposition i vd c =
     c\<lparr>acRecords := (acRecords c)(i := map_option (\<lambda>r. r\<lparr>virtualDisposition := vd\<rparr>) (acRecords c i))\<rparr>"

text \<open>One turn of \<open>dispatchVirtual\<close> with the entry it dequeued.\<close>

definition promote_virtual ::
  "string queue_entry \<Rightarrow> admission_controller \<Rightarrow> admission_controller" where
  "promote_virtual e c =
     (case get_active c (payload e) of
        None \<Rightarrow> c
      | Some r \<Rightarrow>
          if lrReleased r then c
          else (set_disposition (payload e) VActive c)
                 \<lparr>acVirtualActiveCost := addSaturated (acVirtualActiveCost c) (lrCost r),
                  acVirtualActiveCount := addSaturated (acVirtualActiveCount c) 1\<rparr>)"

lemma promote_virtual_queue [simp]: "acVirtualQueue (promote_virtual e c) = acVirtualQueue c"
  by (simp add: promote_virtual_def set_disposition_def split: option.split)

function dispatchVirtual :: "admission_controller \<Rightarrow> admission_controller" where
  "dispatchVirtual c =
     (if fq_size (acVirtualQueue c) \<le> 0 then c
      else
        let available = currentLimit (acAdapt c) - acVirtualActiveCost c in
        if available \<le> 0 then c
        else case dequeue (acVirtualQueue c) available of
               (None, q') \<Rightarrow> c\<lparr>acVirtualQueue := q'\<rparr>
             | (Some e, q') \<Rightarrow> dispatchVirtual (promote_virtual e (c\<lparr>acVirtualQueue := q'\<rparr>)))"
  by pat_completeness auto
termination
  by (relation "measure (\<lambda>c. length (entries (acVirtualQueue c)))")
    (auto dest: dequeue_shorter sym)

declare dispatchVirtual.simps [simp del]

section \<open>Leases and the shadow accounting\<close>

definition releaseVirtual :: "string \<Rightarrow> admission_controller \<Rightarrow> admission_controller" where
  "releaseVirtual i c =
     (case acRecords c i of
        None \<Rightarrow> c
      | Some r \<Rightarrow>
          let c = (case virtualDisposition r of
                     VActive \<Rightarrow> c\<lparr>acVirtualActiveCost := acVirtualActiveCost c - lrCost r,
                                  acVirtualActiveCount := acVirtualActiveCount c - 1\<rparr>
                   | VQueued \<Rightarrow> c\<lparr>acVirtualQueue := snd (removeById (acVirtualQueue c) i)\<rparr>
                   | _ \<Rightarrow> c)
          in dispatchVirtual (set_disposition i VNone c))"

record AdmissionReleaseMeta =
  latencyMs :: "js_number option"
  metaPressure :: "AdmissionPressure option"

text \<open>
  \<open>lease.release\<close>: the handle of a lease granted in mode off has no record and does nothing.
\<close>

definition releaseLease ::
  "int \<Rightarrow> string \<Rightarrow> AdmissionReleaseOutcome \<Rightarrow> AdmissionReleaseMeta option \<Rightarrow>
   admission_controller \<Rightarrow> admission_controller" where
  "releaseLease now i outcome meta c =
     (case acRecords c i of
        None \<Rightarrow> c
      | Some r \<Rightarrow>
          if lrReleased r then c
          else
            let c = c\<lparr>acRecords := (acRecords c)(i \<mapsto> r\<lparr>lrReleased := True\<rparr>)\<rparr>;
                c = sampleIntegral now c;
                c = (if i \<in> set (acActive c)
                     then c\<lparr>acActive := filter (\<lambda>j. j \<noteq> i) (acActive c),
                            acActiveCost := acActiveCost c - lrCost r\<rparr>
                     else c);
                latency = (case meta of
                    Some m \<Rightarrow> (case latencyMs m of Some v \<Rightarrow> v
                                | None \<Rightarrow> Finite (of_int (max 0 (now - admittedAtMs r))))
                  | None \<Rightarrow> Finite (of_int (max 0 (now - admittedAtMs r))));
                a = noteOutcome (noteLatency (acAdapt c) latency (adaptation (acConfig c))) outcome;
                a = a\<lparr>windowCompleted := windowCompleted a + 1\<rparr>;
                a = (case meta of
                       Some m \<Rightarrow> (case metaPressure m of Some p \<Rightarrow> setPressure a p | None \<Rightarrow> a)
                     | None \<Rightarrow> a)
            in dispatch now (releaseVirtual i (c\<lparr>acAdapt := a\<rparr>)))"

text \<open>One record of the second loop of \<open>rebuildVirtualState\<close>.\<close>

definition rebuild_record :: "string \<Rightarrow> admission_controller \<Rightarrow> admission_controller" where
  "rebuild_record i c =
     (case get_active c i of
        None \<Rightarrow> c
      | Some r \<Rightarrow>
          if lrCost r > currentLimit (acAdapt c) then set_disposition i VRejected c
          else if lrCost r \<le> currentLimit (acAdapt c) - acVirtualActiveCost c then
            (set_disposition i VActive c)
              \<lparr>acVirtualActiveCost := addSaturated (acVirtualActiveCost c) (lrCost r),
               acVirtualActiveCount := addSaturated (acVirtualActiveCount c) 1\<rparr>
          else
            let (ok, q') = enqueue (acVirtualQueue c)
                  \<lparr>entryId = i, tenantKey = ''_existing'', entryCost = lrCost r,
                   enqueuedAtMs = admittedAtMs r, deadlineMs = max_safe_integer, payload = i,
                   skipCount = 0\<rparr>
            in if ok then (set_disposition i VQueued c)\<lparr>acVirtualQueue := q'\<rparr>
               else set_disposition i VRejected c)"

definition rebuildVirtualState :: "bool \<Rightarrow> admission_controller \<Rightarrow> admission_controller" where
  "rebuildVirtualState enable c =
     (let c = c\<lparr>acVirtualQueue := new_queue (maxQueueCount (acConfig c)) (maxQueueCost (acConfig c)),
                acVirtualActiveCost := 0, acVirtualActiveCount := 0\<rparr>;
          c = fold (\<lambda>i. set_disposition i VNone) (acActive c) c
      in if enable then fold rebuild_record (acActive c) c else c)"

definition acquireShadow ::
  "int \<Rightarrow> AdmissionRequest \<Rightarrow> int \<Rightarrow> int \<Rightarrow> admission_controller \<Rightarrow>
   acquire_result \<times> admission_controller" where
  "acquireShadow now r cost limit c =
     (let (decision, vd, c) =
        (if cost > limit \<or> \<not> is_safe_integer cost then
           (Would_reject, VRejected, c\<lparr>wouldRejectCount := wouldRejectCount c + 1\<rparr>)
         else if acVirtualActiveCost c + cost \<le> limit then
           (Would_admit, VActive,
            c\<lparr>acVirtualActiveCost := addSaturated (acVirtualActiveCost c) cost,
              acVirtualActiveCount := addSaturated (acVirtualActiveCount c) 1,
              wouldAdmitCount := addSaturated (wouldAdmitCount c) 1\<rparr>)
         else if canAccept (acVirtualQueue c) cost then
           (Would_queue, VQueued, c\<lparr>wouldQueueCount := wouldQueueCount c + 1\<rparr>)
         else
           (Would_reject, VRejected, c\<lparr>wouldRejectCount := wouldRejectCount c + 1\<rparr>));
          (lid, c) = admit now cost vd c;
          c = (if vd = VQueued
               then c\<lparr>acVirtualQueue := snd (enqueue (acVirtualQueue c)
                      \<lparr>entryId = lid, tenantKey = tenant_or_default (reqTenantKey r), entryCost = cost,
                       enqueuedAtMs = now, deadlineMs = max_safe_integer, payload = lid,
                       skipCount = 0\<rparr>)\<rparr>
               else c)
      in (Admitted lid cost (Some decision), c))"


section \<open>Queueing and expiry\<close>

definition push_entry ::
  "int \<Rightarrow> queued_payload queue_entry \<Rightarrow> admission_controller \<Rightarrow> bool \<times> admission_controller" where
  "push_entry now e c =
     (if tenantKey e \<noteq> ''_default'' \<and> virtualLanes (acConfig c) then
        let c = getOrCreateLane now (tenantKey e) c in
        (case js_get (acLanes c) (tenantKey e) of
           None \<Rightarrow> (False, c)
         | Some l \<Rightarrow>
             let (ok, q') = enqueue (laneQueue l) e;
                 c = c\<lparr>acLanes := js_set (tenantKey e) (l\<lparr>laneQueue := q'\<rparr>) (acLanes c)\<rparr>
             in if ok then (True, armLaneEviction now c)
                else (False, removeEmptyLane (tenantKey e) c))
      else
        let (ok, q') = enqueue (acQueue c) e in (ok, c\<lparr>acQueue := q'\<rparr>))"

definition enqueue_request ::
  "int \<Rightarrow> AdmissionRequest \<Rightarrow> int \<Rightarrow> admission_controller \<Rightarrow>
   (range_error + acquire_result) \<times> admission_controller" where
  "enqueue_request now r cost c =
     (let (eid, c) = nextId ''q'' c in
      case normalizeRequestCost
             (nullish_default (reqMaxWaitMs r) (js_int (defaultMaxWaitMs (acConfig c))))
             (js_int MAX_ADMISSION_WINDOW_MS) of
        Inl err \<Rightarrow> (Inl err, c)
      | Inr maxWait \<Rightarrow>
          let dl = min max_safe_integer (now + maxWait);
              e = \<lparr>entryId = eid, tenantKey = tenant_or_default (reqTenantKey r), entryCost = cost,
                   enqueuedAtMs = now, deadlineMs = dl, payload = reqSignal r, skipCount = 0\<rparr>;
              (ok, c) = push_entry now e c
          in if \<not> ok then (case reject_acquire ADMISSION_QUEUE_FULL c of (res, c) \<Rightarrow> (Inr res, c))
             else
               let c = dispatch now c;
                   c = c\<lparr>acTimers := js_set eid (now + max 0 (dl - now)) (acTimers c)\<rparr>;
                   c = (case reqSignal r of
                          None \<Rightarrow> c
                        | Some sig \<Rightarrow> c\<lparr>acListeners := js_set eid sig (acListeners c)\<rparr>)
               in (Inr (Queued eid), dispatch now c))"

text \<open>\<open>lane.queue.removeById(id)\<close> over the lanes in map order, up to the first hit.\<close>

fun lanes_remove ::
  "string \<Rightarrow> (string, lane) js_map \<Rightarrow> queued_payload queue_entry option \<times> (string, lane) js_map" where
  "lanes_remove eid [] = (None, [])"
| "lanes_remove eid ((k, l) # ls) =
     (case removeById (laneQueue l) eid of
        (Some e, q') \<Rightarrow> (Some e, (k, l\<lparr>laneQueue := q'\<rparr>) # ls)
      | (None, q') \<Rightarrow>
          (case lanes_remove eid ls of (r, ls') \<Rightarrow> (r, (k, l\<lparr>laneQueue := q'\<rparr>) # ls')))"

definition take_queued ::
  "string \<Rightarrow> admission_controller \<Rightarrow> queued_payload queue_entry option \<times> admission_controller" where
  "take_queued eid c =
     (case removeById (acQueue c) eid of
        (Some e, q') \<Rightarrow> (Some e, c\<lparr>acQueue := q'\<rparr>)
      | (None, q') \<Rightarrow>
          (case lanes_remove eid (acLanes c) of
             (None, ls) \<Rightarrow> (None, c\<lparr>acQueue := q', acLanes := ls\<rparr>)
           | (Some e, ls) \<Rightarrow> (Some e, removeEmptyLane (tenantKey e) (c\<lparr>acQueue := q', acLanes := ls\<rparr>))))"

definition expireEntry ::
  "int \<Rightarrow> string \<Rightarrow> AdmissionRejectCode \<Rightarrow> admission_controller \<Rightarrow> admission_controller" where
  "expireEntry now eid code c =
     (case take_queued eid c of
        (None, c) \<Rightarrow> c
      | (Some e, c) \<Rightarrow> dispatch now (failQueued e code c))"


section \<open>Public operations\<close>

definition new_controller ::
  "int \<Rightarrow> AdaptiveAdmissionConfig \<Rightarrow> range_error + admission_controller" where
  "new_controller now input =
     and_then (validateConfig input) (\<lambda>cfg.
       Inr (armWindowTimer now
         \<lparr>acConfig = cfg,
          acAdapt = createAdaptationState (initialLimit cfg) (minLimit cfg) (maxLimit cfg) now,
          acQueue = new_queue (maxQueueCount cfg) (maxQueueCost cfg),
          acVirtualQueue = new_queue (maxQueueCount cfg) (maxQueueCost cfg),
          acLanes = [], laneEvictionTimer = None, acRecords = (\<lambda>_. None), acActive = [],
          acActiveCost = 0, acVirtualActiveCost = 0, acVirtualActiveCount = 0,
          acLastSampleMs = now, windowTimer = None, acShutDown = False,
          admittedCount = 0, rejectedCount = 0, wouldAdmitCount = 0, wouldQueueCount = 0,
          wouldRejectCount = 0, leaseSeq = 0, acSettled = [], acTimers = [], acListeners = [],
          acAborted = []\<rparr>))"

definition reject_with ::
  "AdmissionRejectCode \<Rightarrow> admission_controller \<Rightarrow>
   (range_error + acquire_result) \<times> admission_controller" where
  "reject_with code c = (case reject_acquire code c of (res, c) \<Rightarrow> (Inr res, c))"

definition admit_now ::
  "int \<Rightarrow> int \<Rightarrow> admission_controller \<Rightarrow> (range_error + acquire_result) \<times> admission_controller" where
  "admit_now now cost c = (case admit now cost VNone c of (lid, c) \<Rightarrow> (Inr (Admitted lid cost None), c))"

text \<open>The last part of \<open>acquire\<close>, in mode enforce.\<close>

definition acquire_enforce ::
  "int \<Rightarrow> AdmissionRequest \<Rightarrow> int \<Rightarrow> admission_controller \<Rightarrow>
   (range_error + acquire_result) \<times> admission_controller" where
  "acquire_enforce now r cost c =
     (let limit = currentLimit (acAdapt c) in
      if cost > limit then
        (if shouldAdmitSolo cost c then admit_now now cost c else reject_with ADMISSION_OVERSIZED c)
      else if fq_size (acQueue c) = 0 \<and> acActiveCost c + cost \<le> limit then admit_now now cost c
      else if \<not> canAccept (acQueue c) cost then reject_with ADMISSION_QUEUE_FULL c
      else enqueue_request now r cost c)"

definition acquire ::
  "int \<Rightarrow> AdmissionRequest \<Rightarrow> admission_controller \<Rightarrow>
   (range_error + acquire_result) \<times> admission_controller" where
  "acquire now r c =
     (if acShutDown c then reject_with ADMISSION_SHUTDOWN c
      else if (case reqSignal r of None \<Rightarrow> False | Some sig \<Rightarrow> sig \<in> set (acAborted c))
      then reject_with ADMISSION_ABORTED c
      else
        let c = (case reqPressure r of None \<Rightarrow> c
                 | Some p \<Rightarrow> c\<lparr>acAdapt := setPressure (acAdapt c) p\<rparr>) in
        case resolveCost c r of
          Inl err \<Rightarrow> (Inl err, c)
        | Inr cost \<Rightarrow>
            if mode (acConfig c) = Off
            then (case admitVirtual cost c of (res, c) \<Rightarrow> (Inr res, c))
            else if mode (acConfig c) = Shadow
            then (case acquireShadow now r cost (currentLimit (acAdapt c)) c of (res, c) \<Rightarrow> (Inr res, c))
            else acquire_enforce now r cost c)"

definition observePressure :: "int \<Rightarrow> AdmissionPressure \<Rightarrow> admission_controller \<Rightarrow> admission_controller"
where
  "observePressure now p c =
     (let c = c\<lparr>acAdapt := setPressure (acAdapt c) p\<rparr> in
      if p = Critical \<and> \<not> criticalDecreaseConsumed (acAdapt c) then
        let c = c\<lparr>acAdapt := (acAdapt c)
                    \<lparr>currentLimit := max (minLimit (acConfig c))
                       (scaleLimit (currentLimit (acAdapt c)) (criticalDecreaseFactor (adaptation (acConfig c)))),
                     criticalDecreaseConsumed := True\<rparr>\<rparr>
        in dispatchVirtual (dispatch now c)
      else c)"

definition tick :: "int \<Rightarrow> admission_controller \<Rightarrow> admission_controller" where
  "tick now c =
     (let c = evictIdleLanes now (sampleIntegral now c);
          c = c\<lparr>acAdapt := closeAdaptationWindow (acAdapt c) (adaptation (acConfig c)) now\<rparr>
      in dispatchVirtual (dispatch now c))"

text \<open>The window timer's callback: a tick, then the timer again.\<close>

definition window_timer_fires :: "int \<Rightarrow> admission_controller \<Rightarrow> admission_controller" where
  "window_timer_fires now c =
     (let c = tick now c in
      if \<not> acShutDown c \<and> mode (acConfig c) \<noteq> Off
      then c\<lparr>windowTimer := Some (now + windowMs (acConfig c))\<rparr> else c)"

text \<open>Draining the shared queue and every lane, in that order, into one list.\<close>

definition drain_all :: "admission_controller \<Rightarrow> queued_payload queue_entry list" where
  "drain_all c = fst (drain (acQueue c)) @ concat (map (\<lambda>(k, l). fst (drain (laneQueue l))) (acLanes c))"

definition shutdown :: "admission_controller \<Rightarrow> admission_controller" where
  "shutdown c =
     (if acShutDown c then c
      else
        let c = c\<lparr>acShutDown := True, windowTimer := None\<rparr>;
            es = drain_all c;
            c = c\<lparr>acQueue := snd (drain (acQueue c))\<rparr>;
            c = fold (\<lambda>e. failQueued e ADMISSION_SHUTDOWN) es c
        in clearLaneEviction (c\<lparr>acLanes := []\<rparr>))"

text \<open>One drained entry of \<open>updateConfig\<close> under the new configuration.\<close>

definition requeue_entry ::
  "int \<Rightarrow> queued_payload queue_entry \<Rightarrow> admission_controller \<Rightarrow> admission_controller" where
  "requeue_entry now e c =
     (if mode (acConfig c) \<noteq> Enforce then
        let c = detachAbort (entryId e) (clearEntryTimer (entryId e) c);
            (lid, c) = admit now (entryCost e) VNone c
        in settle (entryId e) (Resolve lid) c
      else if entryCost e > currentLimit (acAdapt c) then failQueued e ADMISSION_OVERSIZED c
      else
        let (ok, q') = enqueue (acQueue c) e in
        if ok then c\<lparr>acQueue := q'\<rparr> else failQueued e ADMISSION_QUEUE_FULL (c\<lparr>acQueue := q'\<rparr>))"

definition reset_adaptation :: "int \<Rightarrow> ValidatedConfig \<Rightarrow> AdaptationState \<Rightarrow> AdaptationState" where
  "reset_adaptation now nxt a =
     a\<lparr>currentLimit := min (maxLimit nxt) (max (minLimit nxt) (currentLimit a)),
       recoveryCeiling := clampLimit (Finite (of_int (initialLimit nxt))) (minLimit nxt) (maxLimit nxt),
       windowStartMs := now, windowActiveCostIntegral := 0, windowCompleted := 0,
       windowLatencySamples := 0, freezeGrowth := False, criticalDecreaseConsumed := False,
       pressure := Normal\<rparr>"

definition updateConfig ::
  "int \<Rightarrow> AdaptiveAdmissionConfig \<Rightarrow> admission_controller \<Rightarrow>
   (range_error + unit) \<times> admission_controller" where
  "updateConfig now input c =
     (case validateConfig input of
        Inl err \<Rightarrow> (Inl err, c)
      | Inr nxt \<Rightarrow>
          let c = sampleIntegral now c;
              c = c\<lparr>acConfig := nxt, acAdapt := reset_adaptation now nxt (acAdapt c), acLastSampleMs := now\<rparr>;
              es = drain_all c;
              c = c\<lparr>acQueue := new_queue (maxQueueCount nxt) (maxQueueCost nxt), acLanes := []\<rparr>;
              c = fold (requeue_entry now) es (clearLaneEviction c);
              c = armWindowTimer now (rebuildVirtualState (mode nxt = Shadow) c)
          in (Inr (), if mode nxt = Enforce then dispatch now c else c))"

record AdmissionSnapshot =
  snMode :: AdmissionMode
  snCurrentLimit :: int
  snMinLimit :: int
  snMaxLimit :: int
  snActiveCost :: int
  snActiveCount :: int
  snQueuedCost :: int
  snQueuedCount :: int
  snVirtualActiveCost :: int
  snVirtualActiveCount :: int
  snVirtualQueuedCost :: int
  snVirtualQueuedCount :: int
  snVirtualLanes :: bool
  snLaneCount :: int
  snLaneQueuedCost :: int
  snLaneQueuedCount :: int
  snLaneTenants :: "(string \<times> int \<times> int) list"
  snAdmittedCount :: int
  snRejectedCount :: int
  snWouldAdmitCount :: int
  snWouldQueueCount :: int
  snWouldRejectCount :: int
  snShortLatencyEwma :: rat
  snLongLatencyEwma :: rat
  snUtilization :: rat
  snPressure :: AdmissionPressure
  snShutdown :: bool

definition snapshot :: "int \<Rightarrow> admission_controller \<Rightarrow> AdmissionSnapshot \<times> admission_controller" where
  "snapshot now c =
     (let c = sampleIntegral now c in
      (\<lparr>snMode = mode (acConfig c), snCurrentLimit = currentLimit (acAdapt c),
        snMinLimit = minLimit (acConfig c), snMaxLimit = maxLimit (acConfig c),
        snActiveCost = bigintToSnapshotNumber (acActiveCost c),
        snActiveCount = saturateSnapshotNumber (int (length (acActive c))),
        snQueuedCost = saturateSnapshotNumber (totalCost (acQueue c)),
        snQueuedCount = saturateSnapshotNumber (fq_size (acQueue c)),
        snVirtualActiveCost = saturateSnapshotNumber (acVirtualActiveCost c),
        snVirtualActiveCount = saturateSnapshotNumber (acVirtualActiveCount c),
        snVirtualQueuedCost = saturateSnapshotNumber (totalCost (acVirtualQueue c)),
        snVirtualQueuedCount = saturateSnapshotNumber (fq_size (acVirtualQueue c)),
        snVirtualLanes = virtualLanes (acConfig c),
        snLaneCount = saturateSnapshotNumber (int (length (acLanes c))),
        snLaneQueuedCost = saturateSnapshotNumber (laneTotalQueuedCost c),
        snLaneQueuedCount = saturateSnapshotNumber (laneTotalQueuedCount c),
        snLaneTenants = laneTenantSnapshot c,
        snAdmittedCount = saturateSnapshotNumber (admittedCount c),
        snRejectedCount = saturateSnapshotNumber (rejectedCount c),
        snWouldAdmitCount = saturateSnapshotNumber (wouldAdmitCount c),
        snWouldQueueCount = saturateSnapshotNumber (wouldQueueCount c),
        snWouldRejectCount = saturateSnapshotNumber (wouldRejectCount c),
        snShortLatencyEwma = shortLatencyEwma (acAdapt c),
        snLongLatencyEwma = longLatencyEwma (acAdapt c),
        snUtilization = utilization (acAdapt c), snPressure = pressure (acAdapt c),
        snShutdown = acShutDown c\<rparr>, c))"


section \<open>Events\<close>

text \<open>
  The environment's moves: calls, timers that fire, and abort signals. An abort runs the
  listeners registered on the signal, in order, skipping those an earlier one removed.
\<close>

definition entry_timer_fires :: "int \<Rightarrow> string \<Rightarrow> admission_controller \<Rightarrow> admission_controller" where
  "entry_timer_fires now eid c =
     (case js_get (acTimers c) eid of
        None \<Rightarrow> c
      | Some due \<Rightarrow>
          if now < due then c
          else expireEntry now eid ADMISSION_DEADLINE (c\<lparr>acTimers := js_delete eid (acTimers c)\<rparr>))"

definition run_listener :: "int \<Rightarrow> string \<Rightarrow> admission_controller \<Rightarrow> admission_controller" where
  "run_listener now eid c =
     (if js_has (acListeners c) eid
      then expireEntry now eid ADMISSION_ABORTED (c\<lparr>acListeners := js_delete eid (acListeners c)\<rparr>)
      else c)"

definition abort_signal :: "int \<Rightarrow> string \<Rightarrow> admission_controller \<Rightarrow> admission_controller" where
  "abort_signal now sig c =
     (if sig \<in> set (acAborted c) then c
      else fold (run_listener now) (js_keys (filter (\<lambda>(i, s). s = sig) (acListeners c)))
             (c\<lparr>acAborted := sig # acAborted c\<rparr>))"

datatype controller_event =
    Ev_acquire AdmissionRequest
  | Ev_release string AdmissionReleaseOutcome "AdmissionReleaseMeta option"
  | Ev_pressure AdmissionPressure
  | Ev_tick
  | Ev_window_timer
  | Ev_entry_timer string
  | Ev_lane_timer
  | Ev_abort string
  | Ev_snapshot
  | Ev_update AdaptiveAdmissionConfig
  | Ev_shutdown

fun controller_step :: "admission_controller \<Rightarrow> int \<times> controller_event \<Rightarrow> admission_controller" where
  "controller_step c (now, Ev_acquire r) = snd (acquire now r c)"
| "controller_step c (now, Ev_release i out meta) = releaseLease now i out meta c"
| "controller_step c (now, Ev_pressure p) = observePressure now p c"
| "controller_step c (now, Ev_tick) = tick now c"
| "controller_step c (now, Ev_window_timer) = window_timer_fires now c"
| "controller_step c (now, Ev_entry_timer eid) = entry_timer_fires now eid c"
| "controller_step c (now, Ev_lane_timer) = evictIdleLanes now c"
| "controller_step c (now, Ev_abort sig) = abort_signal now sig c"
| "controller_step c (now, Ev_snapshot) = snd (snapshot now c)"
| "controller_step c (now, Ev_update cfg) = snd (updateConfig now cfg c)"
| "controller_step c (now, Ev_shutdown) = shutdown c"

end
