(* ===== verification/Admission_Invariants.thy ===== *)
theory Admission_Invariants
  imports Admission_Controller
begin

text \<open>
  What the admission controller keeps true: the lease ledger adds up, the queues are well
  formed, the shadow accounting mirrors the dispositions of the active leases, and every
  promise handed out is either still queued or settled, once. The dispatch loops are handled by
  one locale: an invariant that survives one dequeued entry survives \<open>dispatch\<close>.
\<close>


section \<open>The invariant\<close>

type_synonym records = "string \<Rightarrow> ActiveLeaseRecord option"

definition lease_cost :: "records \<Rightarrow> string \<Rightarrow> int" where
  "lease_cost R i = (case R i of None \<Rightarrow> 0 | Some r \<Rightarrow> lrCost r)"

definition disposition_of :: "records \<Rightarrow> string \<Rightarrow> VirtualDisposition" where
  "disposition_of R i = (case R i of None \<Rightarrow> VNone | Some r \<Rightarrow> virtualDisposition r)"

text \<open>The ledger: an unreleased record is exactly an active one, and the total is their sum.\<close>

definition leases_ok :: "records \<Rightarrow> string list \<Rightarrow> int \<Rightarrow> nat \<Rightarrow> bool" where
  "leases_ok R act total_cost seq \<longleftrightarrow>
     distinct act \<and>
     (\<forall>i\<in>set act. \<exists>r. R i = Some r) \<and>
     (\<forall>i r. R i = Some r \<longrightarrow> 0 < lrCost r \<and> lrReleased r = (i \<notin> set act)) \<and>
     (\<forall>i. R i \<noteq> None \<longrightarrow> (\<exists>n\<le>seq. i = make_id ''lease'' n)) \<and>
     total_cost = (\<Sum>i\<leftarrow>act. lease_cost R i)"

definition queue_ok :: "ValidatedConfig \<Rightarrow> 'p fair_queue \<Rightarrow> bool" where
  "queue_ok cfg q \<longleftrightarrow> fq_wf q \<and> maxCount q = maxQueueCount cfg \<and> maxCost q = maxQueueCost cfg"

definition lanes_ok :: "ValidatedConfig \<Rightarrow> (string, lane) js_map \<Rightarrow> bool" where
  "lanes_ok cfg L \<longleftrightarrow> js_map_ok L \<and> (\<forall>l\<in>set (js_values L). queue_ok cfg (laneQueue l))"

text \<open>The shadow accounting mirrors the dispositions of the active leases.\<close>

definition with_disposition :: "records \<Rightarrow> string list \<Rightarrow> VirtualDisposition \<Rightarrow> string multiset" where
  "with_disposition R act d = {#i \<in># mset act. disposition_of R i = d#}"

definition virtual_ok :: "records \<Rightarrow> string list \<Rightarrow> string fair_queue \<Rightarrow> int \<Rightarrow> int \<Rightarrow> bool" where
  "virtual_ok R act vq vcost vcount \<longleftrightarrow>
     vcost = (\<Sum>i\<in>#with_disposition R act VActive. lease_cost R i) \<and>
     vcount = int (size (with_disposition R act VActive)) \<and>
     image_mset entryId (content vq) = with_disposition R act VQueued \<and>
     (\<forall>e\<in>#content vq. payload e = entryId e \<and> entryCost e = lease_cost R (entryId e)) \<and>
     vcost \<le> MAX_ADMISSION_COST_OR_LIMIT"

text \<open>Every promise handed out, with the settled ones.\<close>

definition queued_ids :: "queued_payload fair_queue \<Rightarrow> string multiset" where
  "queued_ids q = image_mset entryId (content q)"

definition lane_ids :: "(string, lane) js_map \<Rightarrow> string multiset" where
  "lane_ids L = (\<Sum>l\<leftarrow>js_values L. queued_ids (laneQueue l))"

definition promises :: "admission_controller \<Rightarrow> string multiset" where
  "promises c = queued_ids (acQueue c) + lane_ids (acLanes c) + mset (map fst (acSettled c))"

definition ids_ok :: "string multiset \<Rightarrow> nat \<Rightarrow> bool" where
  "ids_ok P seq \<longleftrightarrow> (\<forall>i. count P i \<le> 1) \<and> (\<forall>i\<in>#P. \<exists>n\<le>seq. i = make_id ''q'' n)"

definition controller_ok :: "admission_controller \<Rightarrow> bool" where
  "controller_ok c \<longleftrightarrow>
     config_ok (acConfig c) \<and>
     adapt_ok (adaptation (acConfig c)) (acAdapt c) \<and>
     queue_ok (acConfig c) (acQueue c) \<and>
     lanes_ok (acConfig c) (acLanes c) \<and>
     queue_ok (acConfig c) (acVirtualQueue c) \<and>
     leases_ok (acRecords c) (acActive c) (acActiveCost c) (leaseSeq c) \<and>
     virtual_ok (acRecords c) (acActive c) (acVirtualQueue c)
       (acVirtualActiveCost c) (acVirtualActiveCount c) \<and>
     ids_ok (promises c) (leaseSeq c)"

lemma make_id_inject [simp]: "make_id p m = make_id p n \<longleftrightarrow> m = n"
  by (simp add: make_id_def)

lemma make_id_kinds [simp]: "make_id ''lease'' m \<noteq> make_id ''q'' n" "make_id ''q'' n \<noteq> make_id ''lease'' m"
  by (simp_all add: make_id_def)

lemma ids_ok_mono: "ids_ok P m \<Longrightarrow> m \<le> n \<Longrightarrow> ids_ok P n"
  by (meson ids_ok_def le_trans)

lemma leases_ok_seq: "leases_ok R act t m \<Longrightarrow> m \<le> n \<Longrightarrow> leases_ok R act t n"
proof -
  assume ok: "leases_ok R act t m" and le: "m \<le> n"
  have "\<exists>k\<le>n. i = make_id ''lease'' k" if "R i \<noteq> None" for i
    using ok that le unfolding leases_ok_def by (blast intro: le_trans)
  with ok show ?thesis unfolding leases_ok_def by simp
qed

lemma ids_ok_issue: "ids_ok P m \<Longrightarrow> ids_ok (add_mset (make_id ''q'' (Suc m)) P) (Suc m)"
proof -
  assume ok: "ids_ok P m"
  have "make_id ''q'' (Suc m) \<notin># P"
  proof
    assume "make_id ''q'' (Suc m) \<in># P"
    then obtain n where "n \<le> m" "make_id ''q'' (Suc m) = make_id ''q'' n"
      using ok unfolding ids_ok_def by blast
    then show False by simp
  qed
  then have "count P (make_id ''q'' (Suc m)) = 0" by (simp add: not_in_iff)
  moreover have "\<exists>n\<le>Suc m. i = make_id ''q'' n" if "i \<in># P" for i
    using ok that unfolding ids_ok_def by (meson le_SucI)
  ultimately show ?thesis using ok by (auto simp: ids_ok_def)
qed

lemma config_bounds:
  assumes "config_ok cfg" "adapt_ok (adaptation cfg) a"
  shows "0 < currentLimit a" "currentLimit a \<le> maxLimit cfg" "minLimit cfg \<le> currentLimit a"
    "maxLimit cfg \<le> MAX_ADMISSION_COST_OR_LIMIT" "maxQueueCost cfg \<le> max_safe_integer"
    "0 < maxQueueCost cfg" "0 < maxQueueCount cfg"
  using assms
  by (auto simp: config_ok_def adapt_ok_def params_ok_def in_bound_def MAX_ADMISSION_COST_OR_LIMIT_eq
      max_safe_integer_def)

lemma queue_ok_new [wf_intros]:
  "config_ok cfg \<Longrightarrow> queue_ok cfg (new_queue (maxQueueCount cfg) (maxQueueCost cfg))"
  by (auto simp: queue_ok_def config_ok_def in_bound_def new_queue_def
      intro!: fq_wf_new [unfolded new_queue_def])

lemma content_new [simp]: "content (new_queue m n) = {#}"
  by (simp add: content_def entries_def new_queue_def)


section \<open>Queues\<close>

lemma fq_size_content: "fq_wf q \<Longrightarrow> fq_size q = int (size (content q))"
  by (simp add: fq_size_def fq_wfD(7))

lemma queue_ok_dequeue:
  assumes "queue_ok cfg q" "dequeue q m = (Some e, q')"
  shows "queue_ok cfg q'" "content q = add_mset e (content q')" "0 < entryCost e" "entryCost e \<le> m"
    "skipCount e = 0"
proof -
  note d = dequeue_Some_effect [of q m e q']
  show "queue_ok cfg q'" "content q = add_mset e (content q')" "entryCost e \<le> m"
    using d assms by (simp_all add: queue_ok_def)
  with assms show "0 < entryCost e" by (auto simp: queue_ok_def intro: content_member(1))
  have "e = core e" using d assms by (simp add: queue_ok_def)
  then show "skipCount e = 0" by (metis core_simps(7))
qed

lemma lane_ids_set:
  assumes "js_get L k = Some l"
  shows "lane_ids (js_set k l' L) + queued_ids (laneQueue l) = lane_ids L + queued_ids (laneQueue l')"
  using assms by (elim js_get_split) (simp add: lane_ids_def ac_simps)

lemma lane_ids_set_absent:
  "js_get L k = None \<Longrightarrow> lane_ids (js_set k l L) = lane_ids L + queued_ids (laneQueue l)"
  by (simp add: lane_ids_def js_set_absent map_of_eq_None_iff)

lemma lane_ids_delete:
  assumes "js_map_ok L" "js_get L k = Some l"
  shows "lane_ids L = lane_ids (js_delete k L) + queued_ids (laneQueue l)"
proof -
  obtain L1 L2 where L: "L = L1 @ (k, l) # L2" "k \<notin> set (js_keys L1)"
    using js_get_split [OF assms(2)] by blast
  with assms(1) have "k \<notin> set (js_keys L2)" by auto
  with L show ?thesis by (simp add: lane_ids_def)
qed

lemma lanes_okD:
  "lanes_ok cfg L \<Longrightarrow> js_get L k = Some l \<Longrightarrow> queue_ok cfg (laneQueue l)"
  by (auto simp: lanes_ok_def dest: js_values_get)

lemma lanes_ok_set [wf_intros]:
  assumes "lanes_ok cfg L" "queue_ok cfg (laneQueue l)"
  shows "lanes_ok cfg (js_set k l L)"
proof -
  have "js_map_ok (js_set k l L)" using assms(1) by (simp add: lanes_ok_def)
  moreover have "queue_ok cfg (laneQueue x)" if "x \<in> set (js_values (js_set k l L))" for x
    using js_get_values [OF \<open>js_map_ok (js_set k l L)\<close> that] assms
    by (auto split: if_splits dest: lanes_okD)
  ultimately show ?thesis by (simp add: lanes_ok_def)
qed

lemma lanes_ok_delete [wf_intros]:
  assumes "lanes_ok cfg L"
  shows "lanes_ok cfg (js_delete k L)"
proof -
  have ok: "js_map_ok (js_delete k L)" using assms by (simp add: lanes_ok_def)
  moreover have "queue_ok cfg (laneQueue x)" if "x \<in> set (js_values (js_delete k L))" for x
    using js_get_values [OF ok that] assms by (auto split: if_splits dest: lanes_okD)
  ultimately show ?thesis by (simp add: lanes_ok_def)
qed


section \<open>Leases\<close>

lemma lease_cost_upd: "lease_cost (R(i \<mapsto> r)) j = (if j = i then lrCost r else lease_cost R j)"
  by (simp add: lease_cost_def)

lemma disposition_of_upd:
  "disposition_of (R(i \<mapsto> r)) j = (if j = i then virtualDisposition r else disposition_of R j)"
  by (simp add: disposition_of_def)

lemma fresh_lease:
  assumes "leases_ok R act t seq"
  shows "R (make_id ''lease'' (Suc seq)) = None" "make_id ''lease'' (Suc seq) \<notin> set act"
proof -
  show n: "R (make_id ''lease'' (Suc seq)) = None"
  proof (rule ccontr)
    assume "R (make_id ''lease'' (Suc seq)) \<noteq> None"
    then obtain n where "n \<le> seq" "make_id ''lease'' (Suc seq) = make_id ''lease'' n"
      using assms unfolding leases_ok_def by blast
    then show False by simp
  qed
  then show "make_id ''lease'' (Suc seq) \<notin> set act"
    using assms by (auto simp: leases_ok_def)
qed

lemma leases_ok_grant:
  assumes "leases_ok R act t seq" "0 < lrCost r" "\<not> lrReleased r"
  defines "i \<equiv> make_id ''lease'' (Suc seq)"
  shows "leases_ok (R(i \<mapsto> r)) (act @ [i]) (t + lrCost r) (Suc seq)"
proof -
  have f: "R i = None" "i \<notin> set act" using fresh_lease [OF assms(1)] by (simp_all add: i_def)
  have "(\<Sum>j\<leftarrow>act. lease_cost (R(i \<mapsto> r)) j) = (\<Sum>j\<leftarrow>act. lease_cost R j)"
    using f(2) by (intro arg_cong [of _ _ sum_list] map_cong) (auto simp: lease_cost_upd)
  moreover have "\<exists>n\<le>Suc seq. j = make_id ''lease'' n" if "R j \<noteq> None" for j
    using that assms(1) unfolding leases_ok_def by (meson le_SucI)
  moreover have "\<exists>n\<le>Suc seq. i = make_id ''lease'' n" unfolding i_def by blast
  ultimately show ?thesis
    using assms(1-3) f by (auto simp: leases_ok_def lease_cost_upd)
qed

lemma with_disposition_split:
  assumes "distinct act" "i \<in> set act"
  shows "with_disposition R act d =
    (if disposition_of R i = d then {#i#} else {#}) + with_disposition R (filter (\<lambda>j. j \<noteq> i) act) d"
proof -
  obtain xs ys where act: "act = xs @ i # ys" using assms(2) by (meson split_list)
  with assms(1) have n: "i \<notin> set xs" "i \<notin> set ys" by auto
  then have "filter (\<lambda>j. j \<noteq> i) xs = xs" "filter (\<lambda>j. j \<noteq> i) ys = ys"
    by (auto simp: filter_id_conv)
  then show ?thesis by (simp add: act with_disposition_def)
qed

lemma with_disposition_cong:
  "(\<And>j. j \<in> set act \<Longrightarrow> disposition_of R j = disposition_of R' j) \<Longrightarrow>
   with_disposition R act d = with_disposition R' act d"
  unfolding with_disposition_def by (rule filter_mset_cong) auto

lemma with_disposition_append [simp]:
  "with_disposition R (act @ [i]) d =
   with_disposition R act d + (if disposition_of R i = d then {#i#} else {#})"
  by (simp add: with_disposition_def)

lemma in_with_disposition [simp]:
  "i \<in># with_disposition R act d \<longleftrightarrow> i \<in> set act \<and> disposition_of R i = d"
  by (simp add: with_disposition_def)

lemma virtual_queued:
  assumes "virtual_ok R act vq vcost vcount" "e \<in># content vq"
  shows "entryId e \<in> set act" "disposition_of R (entryId e) = VQueued"
    "payload e = entryId e" "entryCost e = lease_cost R (entryId e)"
proof -
  have "entryId e \<in># with_disposition R act VQueued"
    using assms by (metis image_eqI set_image_mset virtual_ok_def)
  then show "entryId e \<in> set act" "disposition_of R (entryId e) = VQueued" by auto
  show "payload e = entryId e" "entryCost e = lease_cost R (entryId e)"
    using assms by (simp_all add: virtual_ok_def)
qed

text \<open>
  One lease at a time: the accounting without lease \<open>i\<close> (\<open>retire\<close>), and with it again under
  any disposition (\<open>place\<close>). Every change the controller makes is one or both.
\<close>

lemma virtual_ok_cong:
  assumes "virtual_ok R act vq vcost vcount"
    "\<And>j. j \<in> set act \<Longrightarrow> lease_cost R' j = lease_cost R j \<and> disposition_of R' j = disposition_of R j"
  shows "virtual_ok R' act vq vcost vcount"
proof -
  have d: "with_disposition R' act d = with_disposition R act d" for d
    using assms(2) by (intro with_disposition_cong) simp
  have "(\<Sum>j\<in>#with_disposition R act VActive. lease_cost R' j) =
      (\<Sum>j\<in>#with_disposition R act VActive. lease_cost R j)"
    using assms(2) by (intro arg_cong [of _ _ sum_mset] image_mset_cong) auto
  moreover have "entryCost e = lease_cost R' (entryId e)" if "e \<in># content vq" for e
    using virtual_queued(1,4) [OF assms(1) that] assms(2) by simp
  ultimately show ?thesis using assms(1) unfolding virtual_ok_def by (simp add: d)
qed

lemma virtual_ok_retire:
  assumes "virtual_ok R act vq vcost vcount" "distinct act" "i \<in> set act" "0 \<le> lease_cost R i"
  shows "disposition_of R i = VActive \<Longrightarrow>
      virtual_ok R (filter (\<lambda>j. j \<noteq> i) act) vq (vcost - lease_cost R i) (vcount - 1)"
    "disposition_of R i = VQueued \<Longrightarrow> content vq = add_mset e (content vq') \<Longrightarrow> entryId e = i \<Longrightarrow>
      virtual_ok R (filter (\<lambda>j. j \<noteq> i) act) vq' vcost vcount"
    "disposition_of R i \<noteq> VActive \<Longrightarrow> disposition_of R i \<noteq> VQueued \<Longrightarrow>
      virtual_ok R (filter (\<lambda>j. j \<noteq> i) act) vq vcost vcount"
  using assms(1,4) with_disposition_split [OF assms(2,3), of R VActive]
    with_disposition_split [OF assms(2,3), of R VQueued]
  by (simp_all add: virtual_ok_def)

lemma virtual_ok_place:
  assumes "virtual_ok R (filter (\<lambda>j. j \<noteq> i) act) vq vcost vcount" "distinct act" "i \<in> set act"
  shows "disposition_of R i = VActive \<Longrightarrow> vcost + lease_cost R i \<le> MAX_ADMISSION_COST_OR_LIMIT \<Longrightarrow>
      virtual_ok R act vq (vcost + lease_cost R i) (vcount + 1)"
    "disposition_of R i = VQueued \<Longrightarrow> content vq' = add_mset e (content vq) \<Longrightarrow> entryId e = i \<Longrightarrow>
      payload e = i \<Longrightarrow> entryCost e = lease_cost R i \<Longrightarrow> virtual_ok R act vq' vcost vcount"
    "disposition_of R i \<noteq> VActive \<Longrightarrow> disposition_of R i \<noteq> VQueued \<Longrightarrow>
      virtual_ok R act vq vcost vcount"
  using assms(1) with_disposition_split [OF assms(2,3), of R VActive]
    with_disposition_split [OF assms(2,3), of R VQueued]
  by (simp_all add: virtual_ok_def)

lemma virtual_ok_grant:
  assumes "virtual_ok R act vq vcost vcount" "i \<notin> set act"
  shows "virtual_ok (R(i \<mapsto> r)) (filter (\<lambda>j. j \<noteq> i) (act @ [i])) vq vcost vcount"
proof -
  have "filter (\<lambda>j. j \<noteq> i) (act @ [i]) = act" using assms(2) by (auto simp: filter_id_conv)
  moreover have "virtual_ok (R(i \<mapsto> r)) act vq vcost vcount"
    using assms(2) by (intro virtual_ok_cong [OF assms(1)]) (auto simp: lease_cost_upd disposition_of_upd)
  ultimately show ?thesis by simp
qed

lemma virtual_ok_count:
  assumes "virtual_ok R act vq vcost vcount" "leases_ok R act t seq"
  shows "0 \<le> vcount" "vcount \<le> vcost"
proof -
  have "int (size M) \<le> (\<Sum>i\<in>#M. lease_cost R i)" if "\<forall>i\<in>#M. 1 \<le> lease_cost R i" for M
    using that by (induction M) auto
  moreover have "\<forall>i\<in>#with_disposition R act VActive. 1 \<le> lease_cost R i"
    using assms(2) by (fastforce simp: leases_ok_def lease_cost_def)
  ultimately show "0 \<le> vcount" "vcount \<le> vcost"
    using assms(1) by (simp_all add: virtual_ok_def)
qed

lemma addSaturated_exact:
  "0 < d \<Longrightarrow> t + d \<le> MAX_ADMISSION_COST_OR_LIMIT \<Longrightarrow> addSaturated t d = t + d"
  by (simp add: addSaturated_def MAX_ADMISSION_COST_OR_LIMIT_eq max_safe_integer_def)


section \<open>Admitting and settling\<close>

lemma ids_ok_remove: "ids_ok (add_mset x P) m \<Longrightarrow> ids_ok P m"
proof -
  assume ok: "ids_ok (add_mset x P) m"
  have "count P i \<le> 1" for i
  proof -
    have "count (add_mset x P) i \<le> 1" using ok unfolding ids_ok_def by blast
    then show ?thesis by (auto split: if_splits)
  qed
  with ok show ?thesis by (simp add: ids_ok_def)
qed

lemma ids_ok_part: "ids_ok (A + B) m \<Longrightarrow> ids_ok B m"
  by (induction A) (auto dest: ids_ok_remove)

lemma sampleIntegral_ok:
  assumes "controller_ok c"
  shows "adapt_ok (adaptation (acConfig c)) (acAdapt (sampleIntegral now c))"
  using assms
  by (auto simp: sampleIntegral_def controller_ok_def config_ok_def Let_def
      intro: sampleActiveIntegral_ok)

lemma admit_simps [simp]:
  "fst (admit now cost vd c) = make_id ''lease'' (Suc (leaseSeq c))"
  "acConfig (snd (admit now cost vd c)) = acConfig c"
  "acAdapt (snd (admit now cost vd c)) = acAdapt (sampleIntegral now c)"
  "acQueue (snd (admit now cost vd c)) = acQueue c"
  "acVirtualQueue (snd (admit now cost vd c)) = acVirtualQueue c"
  "acLanes (snd (admit now cost vd c)) = acLanes c"
  "acVirtualActiveCost (snd (admit now cost vd c)) = acVirtualActiveCost c"
  "acVirtualActiveCount (snd (admit now cost vd c)) = acVirtualActiveCount c"
  "acShutDown (snd (admit now cost vd c)) = acShutDown c"
  "leaseSeq (snd (admit now cost vd c)) = Suc (leaseSeq c)"
  "acActiveCost (snd (admit now cost vd c)) = acActiveCost c + cost"
  "acSettled (snd (admit now cost vd c)) = acSettled c"
  "acTimers (snd (admit now cost vd c)) = acTimers c"
  "acListeners (snd (admit now cost vd c)) = acListeners c"
  "acAborted (snd (admit now cost vd c)) = acAborted c"
  "rejectedCount (snd (admit now cost vd c)) = rejectedCount c"
  "admittedCount (snd (admit now cost vd c)) = admittedCount c + 1"
  "acRecords (snd (admit now cost vd c)) = (acRecords c)(make_id ''lease'' (Suc (leaseSeq c)) \<mapsto>
     \<lparr>lrCost = cost, lrReleased = False, admittedAtMs = now, virtualDisposition = vd\<rparr>)"
  by (simp_all add: admit_def nextId_def Let_def)

lemma admit_active:
  "leases_ok (acRecords c) (acActive c) t (leaseSeq c) \<Longrightarrow>
   acActive (snd (admit now cost vd c)) = acActive c @ [make_id ''lease'' (Suc (leaseSeq c))]"
  using fresh_lease(2) by (simp add: admit_def nextId_def Let_def)

lemma promises_admit [simp]: "promises (snd (admit now cost vd c)) = promises c"
  by (simp add: promises_def)

lemma controller_ok_admit:
  assumes "controller_ok c" "0 < cost" "vd = VNone \<or> vd = VRejected"
  shows "controller_ok (snd (admit now cost vd c))"
proof -
  have l: "leases_ok (acRecords c) (acActive c) (acActiveCost c) (leaseSeq c)"
    and v: "virtual_ok (acRecords c) (acActive c) (acVirtualQueue c)
       (acVirtualActiveCost c) (acVirtualActiveCount c)"
    and p: "ids_ok (promises c) (leaseSeq c)"
    using assms(1) by (simp_all add: controller_ok_def)
  let ?r = "\<lparr>lrCost = cost, lrReleased = False, admittedAtMs = now, virtualDisposition = vd\<rparr>"
  note g = leases_ok_grant [OF l, of ?r] and f = fresh_lease [OF l]
  have "virtual_ok ((acRecords c)(make_id ''lease'' (Suc (leaseSeq c)) \<mapsto> ?r))
      (acActive c @ [make_id ''lease'' (Suc (leaseSeq c))]) (acVirtualQueue c)
      (acVirtualActiveCost c) (acVirtualActiveCount c)"
    by (rule virtual_ok_place(3) [OF virtual_ok_grant [OF v f(2)]])
      (use assms(3) l f(2) in \<open>auto simp: disposition_of_upd leases_ok_def\<close>)
  moreover have "ids_ok (promises c) (Suc (leaseSeq c))" using p by (rule ids_ok_mono) simp
  ultimately show ?thesis
    using assms g sampleIntegral_ok [OF assms(1), of now]
    by (simp add: controller_ok_def admit_active [OF l])
qed

text \<open>Fields outside the invariant change freely.\<close>

lemma controller_ok_free [simp]:
  "controller_ok (c\<lparr>acTimers := t\<rparr>) = controller_ok c"
  "controller_ok (c\<lparr>acListeners := ls\<rparr>) = controller_ok c"
  "controller_ok (c\<lparr>acAborted := ab\<rparr>) = controller_ok c"
  "controller_ok (c\<lparr>rejectedCount := n\<rparr>) = controller_ok c"
  "controller_ok (c\<lparr>admittedCount := n\<rparr>) = controller_ok c"
  "controller_ok (c\<lparr>wouldAdmitCount := n\<rparr>) = controller_ok c"
  "controller_ok (c\<lparr>wouldQueueCount := n\<rparr>) = controller_ok c"
  "controller_ok (c\<lparr>wouldRejectCount := n\<rparr>) = controller_ok c"
  "controller_ok (c\<lparr>windowTimer := w\<rparr>) = controller_ok c"
  "controller_ok (c\<lparr>laneEvictionTimer := w\<rparr>) = controller_ok c"
  "controller_ok (c\<lparr>acShutDown := b\<rparr>) = controller_ok c"
  "controller_ok (c\<lparr>acLastSampleMs := n\<rparr>) = controller_ok c"
  by (simp_all add: controller_ok_def promises_def)

lemma promises_free [simp]:
  "promises (c\<lparr>acTimers := t\<rparr>) = promises c"
  "promises (c\<lparr>acListeners := ls\<rparr>) = promises c"
  "promises (c\<lparr>acAborted := ab\<rparr>) = promises c"
  "promises (c\<lparr>rejectedCount := n\<rparr>) = promises c"
  "promises (c\<lparr>admittedCount := n\<rparr>) = promises c"
  "promises (c\<lparr>wouldAdmitCount := n\<rparr>) = promises c"
  "promises (c\<lparr>wouldQueueCount := n\<rparr>) = promises c"
  "promises (c\<lparr>wouldRejectCount := n\<rparr>) = promises c"
  "promises (c\<lparr>windowTimer := w\<rparr>) = promises c"
  "promises (c\<lparr>laneEvictionTimer := w\<rparr>) = promises c"
  "promises (c\<lparr>acShutDown := b\<rparr>) = promises c"
  "promises (c\<lparr>acLastSampleMs := n\<rparr>) = promises c"
  "promises (c\<lparr>acAdapt := a\<rparr>) = promises c"
  "promises (c\<lparr>acVirtualQueue := vq\<rparr>) = promises c"
  "promises (c\<lparr>acRecords := R\<rparr>) = promises c"
  "promises (c\<lparr>acActive := act\<rparr>) = promises c"
  "promises (c\<lparr>acActiveCost := n\<rparr>) = promises c"
  "promises (c\<lparr>acVirtualActiveCost := n\<rparr>) = promises c"
  "promises (c\<lparr>acVirtualActiveCount := n\<rparr>) = promises c"
  "promises (c\<lparr>acConfig := cfg\<rparr>) = promises c"
  "promises (c\<lparr>leaseSeq := sq\<rparr>) = promises c"
  by (simp_all add: promises_def)

lemma promises_settle [simp]: "promises (settle i s c) = add_mset i (promises c)"
  by (simp add: settle_def promises_def)

lemma controller_ok_settle:
  "controller_ok c \<Longrightarrow> ids_ok (add_mset i (promises c)) (leaseSeq c) \<Longrightarrow> controller_ok (settle i s c)"
  using promises_settle [of i s c] by (simp add: controller_ok_def settle_def)

lemma free_ops [simp]:
  "controller_ok (clearEntryTimer i c) = controller_ok c"
  "controller_ok (detachAbort i c) = controller_ok c"
  "controller_ok (armWindowTimer now c) = controller_ok c"
  "controller_ok (clearLaneEviction c) = controller_ok c"
  "controller_ok (armLaneEviction now c) = controller_ok c"
  "promises (clearEntryTimer i c) = promises c"
  "promises (detachAbort i c) = promises c"
  "promises (armWindowTimer now c) = promises c"
  "promises (clearLaneEviction c) = promises c"
  "promises (armLaneEviction now c) = promises c"
  by (simp_all add: clearEntryTimer_def detachAbort_def armWindowTimer_def clearLaneEviction_def
      armLaneEviction_def)

lemma free_ops_fields [simp]:
  "leaseSeq (clearEntryTimer i c) = leaseSeq c" "leaseSeq (detachAbort i c) = leaseSeq c"
  "acActiveCost (clearEntryTimer i c) = acActiveCost c" "acActiveCost (detachAbort i c) = acActiveCost c"
  "acActiveCost (settle i s c) = acActiveCost c" "leaseSeq (settle i s c) = leaseSeq c"
  "acAdapt (settle i s c) = acAdapt c" "acConfig (settle i s c) = acConfig c"
  "acQueue (settle i s c) = acQueue c" "acLanes (settle i s c) = acLanes c"
  "acAborted (detachAbort i c) = acAborted c" "acAborted (clearEntryTimer i c) = acAborted c"
  by (simp_all add: clearEntryTimer_def detachAbort_def settle_def)

lemma settle_entry_effect:
  assumes "controller_ok c" "0 < entryCost e" "ids_ok (add_mset (entryId e) (promises c)) (leaseSeq c)"
  shows "controller_ok (snd (settle_entry now e c))"
    "promises (snd (settle_entry now e c)) = add_mset (entryId e) (promises c)"
    "acActiveCost (snd (settle_entry now e c)) \<in> {acActiveCost c, acActiveCost c + entryCost e}"
    "leaseSeq c \<le> leaseSeq (snd (settle_entry now e c))"
proof -
  let ?c = "detachAbort (entryId e) (clearEntryTimer (entryId e) c)"
  let ?a = "admit now (entryCost e) VNone ?c"
  have a: "controller_ok (snd ?a)" using assms(1,2) by (intro controller_ok_admit) simp_all
  have i: "ids_ok (add_mset (entryId e) (promises (snd ?a))) (leaseSeq (snd ?a))"
    using ids_ok_mono [OF assms(3), of "Suc (leaseSeq c)"] by simp
  show "controller_ok (snd (settle_entry now e c))"
    using controller_ok_settle [OF a i] assms
    by (auto simp: settle_entry_def Let_def case_prod_unfold intro: controller_ok_settle)
  show "promises (snd (settle_entry now e c)) = add_mset (entryId e) (promises c)"
    "acActiveCost (snd (settle_entry now e c)) \<in> {acActiveCost c, acActiveCost c + entryCost e}"
    "leaseSeq c \<le> leaseSeq (snd (settle_entry now e c))"
    by (simp_all add: settle_entry_def Let_def case_prod_unfold)
qed

lemma failQueued_effect:
  assumes "controller_ok c" "ids_ok (add_mset (entryId e) (promises c)) (leaseSeq c)"
  shows "controller_ok (failQueued e code c)"
    "promises (failQueued e code c) = add_mset (entryId e) (promises c)"
  using assms by (simp_all add: failQueued_def Let_def controller_ok_settle)

text \<open>Taking an entry out of the shared queue or a lane leaves the promise for the settlement.\<close>

lemma take_shared:
  assumes "controller_ok c" "dequeue (acQueue c) m = (Some e, q')"
  shows "controller_ok (c\<lparr>acQueue := q'\<rparr>)" "0 < entryCost e" "entryCost e \<le> m"
    "promises c = add_mset (entryId e) (promises (c\<lparr>acQueue := q'\<rparr>))"
    "ids_ok (add_mset (entryId e) (promises (c\<lparr>acQueue := q'\<rparr>))) (leaseSeq c)"
proof -
  have q: "queue_ok (acConfig c) (acQueue c)" using assms(1) by (simp add: controller_ok_def)
  note d = queue_ok_dequeue [OF q assms(2)]
  show p: "promises c = add_mset (entryId e) (promises (c\<lparr>acQueue := q'\<rparr>))"
    by (simp add: promises_def queued_ids_def d(2))
  have "ids_ok (promises c) (leaseSeq c)" using assms(1) by (simp add: controller_ok_def)
  then show i: "ids_ok (add_mset (entryId e) (promises (c\<lparr>acQueue := q'\<rparr>))) (leaseSeq c)"
    by (simp only: p)
  from ids_ok_remove [OF i] d(1) assms(1) show "controller_ok (c\<lparr>acQueue := q'\<rparr>)"
    by (simp add: controller_ok_def)
  show "0 < entryCost e" "entryCost e \<le> m" using d by simp_all
qed

lemma take_lane:
  assumes "controller_ok c" "js_get (acLanes c) k = Some l" "dequeue (laneQueue l) m = (Some e, q')"
  defines "c' \<equiv> c\<lparr>acLanes := js_set k (l\<lparr>laneQueue := q'\<rparr>) (acLanes c)\<rparr>"
  shows "controller_ok c'" "0 < entryCost e" "entryCost e \<le> m"
    "promises c = add_mset (entryId e) (promises c')"
    "ids_ok (add_mset (entryId e) (promises c')) (leaseSeq c)"
proof -
  have L: "lanes_ok (acConfig c) (acLanes c)" using assms(1) by (simp add: controller_ok_def)
  note d = queue_ok_dequeue [OF lanes_okD [OF L assms(2)] assms(3)]
  have "lane_ids (acLanes c') + queued_ids (laneQueue l) = lane_ids (acLanes c) + queued_ids q'"
    using lane_ids_set [OF assms(2), of "l\<lparr>laneQueue := q'\<rparr>"] by (simp add: c'_def)
  then have "lane_ids (acLanes c) = add_mset (entryId e) (lane_ids (acLanes c'))"
    by (simp add: queued_ids_def d(2))
  then show p: "promises c = add_mset (entryId e) (promises c')"
    by (simp add: promises_def c'_def)
  have "ids_ok (promises c) (leaseSeq c)" using assms(1) by (simp add: controller_ok_def)
  then show i: "ids_ok (add_mset (entryId e) (promises c')) (leaseSeq c)" by (simp only: p)
  have "lanes_ok (acConfig c) (acLanes c')"
    unfolding c'_def using L d(1) by (simp add: lanes_ok_set)
  with ids_ok_remove [OF i] assms(1) show "controller_ok c'"
    by (simp add: controller_ok_def c'_def)
  show "0 < entryCost e" "entryCost e \<le> m" using d by simp_all
qed

lemma drop_lane:
  assumes "controller_ok c" "js_get (acLanes c) k = Some l" "fq_size (laneQueue l) = 0"
  shows "controller_ok (c\<lparr>acLanes := js_delete k (acLanes c)\<rparr>)"
    "promises (c\<lparr>acLanes := js_delete k (acLanes c)\<rparr>) = promises c"
proof -
  have L: "lanes_ok (acConfig c) (acLanes c)" using assms(1) by (simp add: controller_ok_def)
  have "fq_wf (laneQueue l)" using lanes_okD [OF L assms(2)] by (simp add: queue_ok_def)
  with assms(3) have "queued_ids (laneQueue l) = {#}"
    by (simp add: queued_ids_def fq_size_content)
  then show p: "promises (c\<lparr>acLanes := js_delete k (acLanes c)\<rparr>) = promises c"
    using lane_ids_delete [OF _ assms(2)] L by (simp add: promises_def lanes_ok_def)
  show "controller_ok (c\<lparr>acLanes := js_delete k (acLanes c)\<rparr>)"
    using assms(1) p L by (simp add: controller_ok_def lanes_ok_delete)
qed

section \<open>Dispatch keeps what one dequeued entry keeps\<close>

text \<open>
  The interface between the dispatch loops and whatever is to be shown of them: four laws about
  a single turn.
\<close>

locale dispatch_invariant =
  fixes good :: "admission_controller \<Rightarrow> bool"
    and now :: int
  assumes shared_entry:
      "good c \<Longrightarrow> dequeue (acQueue c) (currentLimit (acAdapt c) - acActiveCost c) = (Some e, q') \<Longrightarrow>
       good (snd (settle_entry now e (c\<lparr>acQueue := q'\<rparr>)))"
    and shared_none:
      "good c \<Longrightarrow> dequeue (acQueue c) m = (None, q') \<Longrightarrow> good (c\<lparr>acQueue := q'\<rparr>)"
    and lane_entry:
      "good c \<Longrightarrow> js_get (acLanes c) k = Some l \<Longrightarrow>
       dequeue (laneQueue l) (currentLimit (acAdapt c) - acActiveCost c) = (Some e, q') \<Longrightarrow>
       good (snd (settle_entry now e (c\<lparr>acLanes := js_set k (l\<lparr>laneQueue := q'\<rparr>) (acLanes c)\<rparr>)))"
    and lane_none:
      "good c \<Longrightarrow> js_get (acLanes c) k = Some l \<Longrightarrow> dequeue (laneQueue l) m = (None, q') \<Longrightarrow>
       good (c\<lparr>acLanes := js_set k (l\<lparr>laneQueue := q'\<rparr>) (acLanes c)\<rparr>)"
    and empty_lane:
      "good c \<Longrightarrow> js_get (acLanes c) k = Some l \<Longrightarrow> fq_size (laneQueue l) = 0 \<Longrightarrow>
       good (c\<lparr>acLanes := js_delete k (acLanes c)\<rparr>)"
begin

lemma dispatch_loop_good: "good c \<Longrightarrow> good (snd (dispatch_loop now c))"
proof (induction now \<equiv> now c rule: dispatch_loop.induct)
  case (1 c)
  show ?case
  proof (cases "fq_size (acQueue c) \<le> 0 \<or> currentLimit (acAdapt c) - acActiveCost c \<le> 0")
    case True
    with "1.prems" show ?thesis by (auto simp: dispatch_loop.simps [of now c])
  next
    case False
    obtain r q' where d: "dequeue (acQueue c) (currentLimit (acAdapt c) - acActiveCost c) = (r, q')"
      by (cases "dequeue (acQueue c) (currentLimit (acAdapt c) - acActiveCost c)")
    show ?thesis
    proof (cases r)
      case None
      with False d "1.prems" show ?thesis
        by (simp add: dispatch_loop.simps [of now c] shared_none)
    next
      case (Some e)
      have n: "\<not> fq_size (acQueue c) \<le> 0" "\<not> currentLimit (acAdapt c) - acActiveCost c \<le> 0"
        using False by simp_all
      have "good (snd (dispatch_loop now (snd (settle_entry now e (c\<lparr>acQueue := q'\<rparr>)))))"
        using "1.hyps" [OF n(1) refl n(2) d [symmetric] Some]
          shared_entry [OF "1.prems" d [unfolded Some]] by simp
      with n d Some show ?thesis by (simp add: dispatch_loop.simps [of now c])
    qed
  qed
qed

lemma lane_loop_good: "good c \<Longrightarrow> good (snd (lane_loop now k c))"
proof (induction now \<equiv> now k c rule: lane_loop.induct)
  case (1 k c)
  show ?case
  proof (cases "js_get (acLanes c) k")
    case None
    with "1.prems" show ?thesis by (simp add: lane_loop.simps [of now k c])
  next
    case (Some l)
    show ?thesis
    proof (cases "fq_size (laneQueue l) \<le> 0 \<or> currentLimit (acAdapt c) - acActiveCost c \<le> 0")
      case True
      with Some "1.prems" show ?thesis by (auto simp: lane_loop.simps [of now k c])
    next
      case False
      then have n: "\<not> fq_size (laneQueue l) \<le> 0" "\<not> currentLimit (acAdapt c) - acActiveCost c \<le> 0"
        by simp_all
      obtain r q' where d: "dequeue (laneQueue l) (currentLimit (acAdapt c) - acActiveCost c) = (r, q')"
        by (cases "dequeue (laneQueue l) (currentLimit (acAdapt c) - acActiveCost c)")
      show ?thesis
      proof (cases r)
        case None
        with n d Some "1.prems" show ?thesis
          by (simp add: lane_loop.simps [of now k c] lane_none)
      next
        case e: (Some e)
        let ?s = "settle_entry now e (c\<lparr>acLanes := js_set k (l\<lparr>laneQueue := q'\<rparr>) (acLanes c)\<rparr>)"
        have g: "good (snd ?s)" by (rule lane_entry [OF "1.prems" Some d [unfolded e]])
        show ?thesis
        proof (cases "fst ?s")
          case True
          with n d Some e g show ?thesis by (simp add: lane_loop.simps [of now k c])
        next
          case False
          with n d Some e g "1.hyps" [OF Some n(1) refl n(2) d [symmetric] e refl False]
          show ?thesis by (simp add: lane_loop.simps [of now k c])
        qed
      qed
    qed
  qed
qed

lemma removeEmptyLane_good: "good c \<Longrightarrow> good (removeEmptyLane k c)"
  by (auto simp: removeEmptyLane_def split: option.split intro: empty_lane)

lemma dispatch_lane_keys_good: "good c \<Longrightarrow> good (dispatch_lane_keys now ks c)"
proof (induction ks arbitrary: c)
  case Nil
  then show ?case by simp
next
  case (Cons k ks)
  obtain x c' where l: "lane_loop now k c = (x, c')" by (cases "lane_loop now k c")
  then have "good c'" using lane_loop_good [OF Cons.prems, of k] by simp
  then have "good (dispatch_lane_keys now ks (removeEmptyLane k c'))"
    by (intro Cons.IH removeEmptyLane_good)
  moreover have "good (dispatch_lane_keys now ks c)" by (rule Cons.IH [OF Cons.prems])
  ultimately show ?case
    using l \<open>good c'\<close> by (cases "js_get (acLanes c) k"; cases x) simp_all
qed

lemma dispatchLanes_good: "good c \<Longrightarrow> good (dispatchLanes now c)"
  by (simp add: dispatchLanes_def dispatch_lane_keys_good)

lemma dispatch_good:
  assumes "good c"
  shows "good (dispatch now c)"
  using dispatch_loop_good [OF assms] assms
  by (auto simp: dispatch_def split: prod.split bool.split intro: dispatchLanes_good)

end

text \<open>
  The controller's own instance: the invariant holds, no promise is lost, the active cost stays
  under any bound that covers the limit, and configuration and limit do not move.
\<close>

definition dispatch_good_upto ::
  "string multiset \<Rightarrow> int \<Rightarrow> AdaptationState \<times> ValidatedConfig \<times> bool \<Rightarrow> admission_controller \<Rightarrow> bool" where
  "dispatch_good_upto P b fr c \<longleftrightarrow>
     controller_ok c \<and> promises c = P \<and> acActiveCost c \<le> b \<and> currentLimit (acAdapt c) \<le> b \<and>
     currentLimit (acAdapt c) = currentLimit (fst fr) \<and> acConfig c = fst (snd fr) \<and>
     acShutDown c = snd (snd fr)"

lemma settle_taken:
  assumes "controller_ok c" "0 < entryCost e" "entryCost e \<le> currentLimit (acAdapt c) - acActiveCost c"
    "ids_ok (add_mset (entryId e) (promises c)) (leaseSeq c)"
    "add_mset (entryId e) (promises c) = P" "acActiveCost c \<le> b" "currentLimit (acAdapt c) \<le> b"
  shows "controller_ok (snd (settle_entry now e c))" "promises (snd (settle_entry now e c)) = P"
    "acActiveCost (snd (settle_entry now e c)) \<le> b"
  using settle_entry_effect [OF assms(1,2,4), of now] assms(3,5-7) by auto

interpretation dispatching_ok: dispatch_invariant "dispatch_good_upto P b fr" now for P b fr now
proof unfold_locales
  fix c e q'
  assume g: "dispatch_good_upto P b fr c"
    and d: "dequeue (acQueue c) (currentLimit (acAdapt c) - acActiveCost c) = (Some e, q')"
  then have c: "controller_ok c" by (simp add: dispatch_good_upto_def)
  note t = take_shared [OF c d]
  show "dispatch_good_upto P b fr (snd (settle_entry now e (c\<lparr>acQueue := q'\<rparr>)))"
    using settle_taken [of "c\<lparr>acQueue := q'\<rparr>" e P b now] t g
    by (simp add: dispatch_good_upto_def)
next
  fix c m q'
  assume g: "dispatch_good_upto P b fr c" and d: "dequeue (acQueue c) m = (None, q')"
  then have "fq_wf (acQueue c)" by (simp add: dispatch_good_upto_def controller_ok_def queue_ok_def)
  with d have "q' = acQueue c" by (simp add: dequeue_None_same)
  with g show "dispatch_good_upto P b fr (c\<lparr>acQueue := q'\<rparr>)" by simp
next
  fix c k l e q'
  assume g: "dispatch_good_upto P b fr c" and k: "js_get (acLanes c) k = Some l"
    and d: "dequeue (laneQueue l) (currentLimit (acAdapt c) - acActiveCost c) = (Some e, q')"
  then have c: "controller_ok c" by (simp add: dispatch_good_upto_def)
  note t = take_lane [OF c k d]
  show "dispatch_good_upto P b fr
      (snd (settle_entry now e (c\<lparr>acLanes := js_set k (l\<lparr>laneQueue := q'\<rparr>) (acLanes c)\<rparr>)))"
    using settle_taken [of "c\<lparr>acLanes := js_set k (l\<lparr>laneQueue := q'\<rparr>) (acLanes c)\<rparr>" e P b now] t g
    by (simp add: dispatch_good_upto_def)
next
  fix c k l m q'
  assume g: "dispatch_good_upto P b fr c" and k: "js_get (acLanes c) k = Some l"
    and d: "dequeue (laneQueue l) m = (None, q')"
  have "lanes_ok (acConfig c) (acLanes c)"
    using g unfolding dispatch_good_upto_def controller_ok_def by blast
  then have "fq_wf (laneQueue l)" using k by (auto simp: queue_ok_def dest: lanes_okD)
  with d have "q' = laneQueue l" by (simp add: dequeue_None_same)
  then have "js_set k (l\<lparr>laneQueue := q'\<rparr>) (acLanes c) = acLanes c"
    using k by (elim js_get_split) simp
  with g show "dispatch_good_upto P b fr (c\<lparr>acLanes := js_set k (l\<lparr>laneQueue := q'\<rparr>) (acLanes c)\<rparr>)"
    by simp
next
  fix c k l
  assume g: "dispatch_good_upto P b fr c" and k: "js_get (acLanes c) k = Some l"
    "fq_size (laneQueue l) = 0"
  then have "controller_ok c" by (simp add: dispatch_good_upto_def)
  from drop_lane [OF this k] g show "dispatch_good_upto P b fr (c\<lparr>acLanes := js_delete k (acLanes c)\<rparr>)"
    by (simp add: dispatch_good_upto_def)
qed

lemma dispatch_effect:
  assumes "controller_ok c"
  shows "controller_ok (dispatch now c)" "promises (dispatch now c) = promises c"
    "acActiveCost (dispatch now c) \<le> max (acActiveCost c) (currentLimit (acAdapt c))"
    "currentLimit (acAdapt (dispatch now c)) = currentLimit (acAdapt c)"
    "acConfig (dispatch now c) = acConfig c" "acShutDown (dispatch now c) = acShutDown c"
proof -
  have "dispatch_good_upto (promises c) (max (acActiveCost c) (currentLimit (acAdapt c)))
      (acAdapt c, acConfig c, acShutDown c) c"
    using assms by (simp add: dispatch_good_upto_def)
  from dispatching_ok.dispatch_good [OF this, of now]
  show "controller_ok (dispatch now c)" "promises (dispatch now c) = promises c"
    "acActiveCost (dispatch now c) \<le> max (acActiveCost c) (currentLimit (acAdapt c))"
    "currentLimit (acAdapt (dispatch now c)) = currentLimit (acAdapt c)"
    "acConfig (dispatch now c) = acConfig c" "acShutDown (dispatch now c) = acShutDown c"
    by (simp_all add: dispatch_good_upto_def)
qed

section \<open>The shadow accounting\<close>

text \<open>Changing a disposition leaves the ledger alone.\<close>

definition redispose :: "records \<Rightarrow> string \<Rightarrow> VirtualDisposition \<Rightarrow> records" where
  "redispose R i vd = R(i := map_option (\<lambda>r. r\<lparr>virtualDisposition := vd\<rparr>) (R i))"

lemma lease_cost_redispose [simp]: "lease_cost (redispose R i vd) = lease_cost R"
  by (rule ext) (simp add: lease_cost_def redispose_def split: option.split)

lemma disposition_of_redispose:
  "disposition_of (redispose R i vd) j = (if j = i \<and> R i \<noteq> None then vd else disposition_of R j)"
  by (auto simp: disposition_of_def redispose_def split: option.split)

lemma redispose_SomeD:
  "redispose R i vd j = Some r \<Longrightarrow> \<exists>r0. R j = Some r0 \<and> lrCost r0 = lrCost r \<and> lrReleased r0 = lrReleased r"
  by (auto simp: redispose_def split: if_splits)

lemma leases_ok_redispose:
  assumes "leases_ok R act t seq"
  shows "leases_ok (redispose R i vd) act t seq"
proof -
  have "\<exists>r. redispose R i vd j = Some r" if "j \<in> set act" for j
    using assms that by (auto simp: leases_ok_def redispose_def)
  moreover have "0 < lrCost r \<and> lrReleased r = (j \<notin> set act)" if "redispose R i vd j = Some r" for j r
    using redispose_SomeD [OF that] assms unfolding leases_ok_def by metis
  moreover have "\<exists>n\<le>seq. j = make_id ''lease'' n" if "redispose R i vd j \<noteq> None" for j
  proof -
    have "R j \<noteq> None" using that by (auto simp: redispose_def split: if_splits)
    then show ?thesis using assms by (simp add: leases_ok_def)
  qed
  ultimately show ?thesis using assms by (simp add: leases_ok_def)
qed

lemma set_disposition_simps [simp]:
  "acRecords (set_disposition i vd c) = redispose (acRecords c) i vd"
  "acConfig (set_disposition i vd c) = acConfig c" "acAdapt (set_disposition i vd c) = acAdapt c"
  "acQueue (set_disposition i vd c) = acQueue c" "acLanes (set_disposition i vd c) = acLanes c"
  "acVirtualQueue (set_disposition i vd c) = acVirtualQueue c"
  "acActive (set_disposition i vd c) = acActive c" "leaseSeq (set_disposition i vd c) = leaseSeq c"
  "acActiveCost (set_disposition i vd c) = acActiveCost c"
  "acVirtualActiveCost (set_disposition i vd c) = acVirtualActiveCost c"
  "acVirtualActiveCount (set_disposition i vd c) = acVirtualActiveCount c"
  "acSettled (set_disposition i vd c) = acSettled c" "acTimers (set_disposition i vd c) = acTimers c"
  "acShutDown (set_disposition i vd c) = acShutDown c"
  "promises (set_disposition i vd c) = promises c"
  by (simp_all add: set_disposition_def redispose_def)

text \<open>
  The shadow fields of a controller, replaced together: what \<open>dispatchVirtual\<close>, \<open>acquireShadow\<close>
  and \<open>rebuildVirtualState\<close> do. Everything else of the invariant carries over.
\<close>

lemma controller_ok_virtual:
  assumes "controller_ok c" "queue_ok (acConfig c) vq"
    "virtual_ok R (acActive c) vq vcost vcount"
    "leases_ok R (acActive c) (acActiveCost c) (leaseSeq c)"
    "acConfig c' = acConfig c" "acAdapt c' = acAdapt c" "acQueue c' = acQueue c" "acLanes c' = acLanes c"
    "acActive c' = acActive c" "acActiveCost c' = acActiveCost c" "leaseSeq c' = leaseSeq c"
    "acSettled c' = acSettled c" "acRecords c' = R" "acVirtualQueue c' = vq"
    "acVirtualActiveCost c' = vcost" "acVirtualActiveCount c' = vcount"
  shows "controller_ok c'" "promises c' = promises c"
  using assms by (simp_all add: controller_ok_def promises_def)

lemma controller_okD:
  assumes "controller_ok c"
  shows "config_ok (acConfig c)" "adapt_ok (adaptation (acConfig c)) (acAdapt c)"
    "leases_ok (acRecords c) (acActive c) (acActiveCost c) (leaseSeq c)"
    "virtual_ok (acRecords c) (acActive c) (acVirtualQueue c) (acVirtualActiveCost c) (acVirtualActiveCount c)"
    "queue_ok (acConfig c) (acVirtualQueue c)" "queue_ok (acConfig c) (acQueue c)"
    "lanes_ok (acConfig c) (acLanes c)" "ids_ok (promises c) (leaseSeq c)" "distinct (acActive c)"
    "currentLimit (acAdapt c) \<le> MAX_ADMISSION_COST_OR_LIMIT"
  using assms config_bounds(2,4) [of "acConfig c" "acAdapt c"]
  by (simp_all add: controller_ok_def leases_ok_def)

lemma leases_ok_cost:
  assumes "leases_ok R act t seq" "i \<in> set act"
  shows "0 < lease_cost R i" "\<exists>r. R i = Some r \<and> \<not> lrReleased r \<and> lease_cost R i = lrCost r"
  using assms by (fastforce simp: leases_ok_def lease_cost_def)+

lemma promote_virtual_effect:
  assumes "controller_ok c"
    "dequeue (acVirtualQueue c) (currentLimit (acAdapt c) - acVirtualActiveCost c) = (Some e, q')"
  shows "controller_ok (promote_virtual e (c\<lparr>acVirtualQueue := q'\<rparr>))"
    "promises (promote_virtual e (c\<lparr>acVirtualQueue := q'\<rparr>)) = promises c"
proof -
  note ok = controller_okD [OF assms(1)]
  note d = queue_ok_dequeue [OF ok(5) assms(2)]
  let ?R = "acRecords c" and ?act = "acActive c" and ?i = "entryId e"
  let ?c' = "promote_virtual e (c\<lparr>acVirtualQueue := q'\<rparr>)"
  have "e \<in># content (acVirtualQueue c)" using d(2) by simp
  note v = virtual_queued [OF ok(4) this]
  obtain r where r: "?R ?i = Some r" "\<not> lrReleased r" "lease_cost ?R ?i = lrCost r" "0 < lrCost r"
    using leases_ok_cost [OF ok(3) v(1)] by auto
  have "virtual_ok ?R (filter (\<lambda>j. j \<noteq> ?i) ?act) q' (acVirtualActiveCost c) (acVirtualActiveCount c)"
    using virtual_ok_retire(2) [OF ok(4,9) v(1) _ v(2) d(2)] r by simp
  then have "virtual_ok (redispose ?R ?i VActive) (filter (\<lambda>j. j \<noteq> ?i) ?act) q'
      (acVirtualActiveCost c) (acVirtualActiveCount c)"
    by (rule virtual_ok_cong) (auto simp: disposition_of_redispose)
  from virtual_ok_place(1) [OF this ok(9) v(1)]
  have n: "virtual_ok (redispose ?R ?i VActive) ?act q'
      (acVirtualActiveCost c + lrCost r) (acVirtualActiveCount c + 1)"
    using r v(4) d(4) ok(10) by (simp add: disposition_of_redispose)
  have b: "acVirtualActiveCost c + lrCost r \<le> MAX_ADMISSION_COST_OR_LIMIT"
    using v(4) r d(4) ok(10) by simp
  have c: "acVirtualActiveCount c + 1 \<le> MAX_ADMISSION_COST_OR_LIMIT"
    using virtual_ok_count [OF ok(4,3)] b r(4) by simp
  have "get_active (c\<lparr>acVirtualQueue := q'\<rparr>) (payload e) = Some r"
    using v(1,3) r(1) by (simp add: get_active_def)
  then have c': "?c' = (set_disposition ?i VActive (c\<lparr>acVirtualQueue := q'\<rparr>))
      \<lparr>acVirtualActiveCost := acVirtualActiveCost c + lrCost r,
       acVirtualActiveCount := acVirtualActiveCount c + 1\<rparr>"
    using r v(3) addSaturated_exact [OF r(4) b] addSaturated_exact [OF _ c]
    by (simp add: promote_virtual_def)
  note w = controller_ok_virtual [OF assms(1) d(1) n leases_ok_redispose [OF ok(3)], of ?c']
  show "controller_ok ?c'" by (rule w(1)) (simp_all add: c')
  show "promises ?c' = promises c" by (rule w(2)) (simp_all add: c')
qed

lemma promote_virtual_frame [simp]:
  "acConfig (promote_virtual e c) = acConfig c" "acAdapt (promote_virtual e c) = acAdapt c"
  "acActiveCost (promote_virtual e c) = acActiveCost c" "acShutDown (promote_virtual e c) = acShutDown c"
  "acQueue (promote_virtual e c) = acQueue c" "acLanes (promote_virtual e c) = acLanes c"
  "acTimers (promote_virtual e c) = acTimers c" "acSettled (promote_virtual e c) = acSettled c"
  by (simp_all add: promote_virtual_def split: option.split)

lemma dispatchVirtual_frame:
  "acConfig (dispatchVirtual c) = acConfig c \<and> acAdapt (dispatchVirtual c) = acAdapt c \<and>
   acActiveCost (dispatchVirtual c) = acActiveCost c \<and> acShutDown (dispatchVirtual c) = acShutDown c \<and>
   acQueue (dispatchVirtual c) = acQueue c \<and> acLanes (dispatchVirtual c) = acLanes c \<and>
   acTimers (dispatchVirtual c) = acTimers c \<and> acSettled (dispatchVirtual c) = acSettled c"
proof (induction c rule: dispatchVirtual.induct)
  case (1 c)
  show ?case
  proof (cases "fq_size (acVirtualQueue c) \<le> 0 \<or> currentLimit (acAdapt c) - acVirtualActiveCost c \<le> 0")
    case True
    then show ?thesis by (auto simp: dispatchVirtual.simps [of c])
  next
    case False
    then have n: "\<not> fq_size (acVirtualQueue c) \<le> 0"
      "\<not> currentLimit (acAdapt c) - acVirtualActiveCost c \<le> 0" by simp_all
    obtain r q' where d: "dequeue (acVirtualQueue c)
        (currentLimit (acAdapt c) - acVirtualActiveCost c) = (r, q')" by (meson surj_pair)
    show ?thesis
      using n d "1.IH" [OF n(1) refl n(2) d [symmetric]]
      by (cases r) (simp_all add: dispatchVirtual.simps [of c])
  qed
qed

lemma dispatchVirtual_effect:
  "controller_ok c \<Longrightarrow> controller_ok (dispatchVirtual c) \<and> promises (dispatchVirtual c) = promises c"
proof (induction c rule: dispatchVirtual.induct)
  case (1 c)
  show ?case
  proof (cases "fq_size (acVirtualQueue c) \<le> 0 \<or> currentLimit (acAdapt c) - acVirtualActiveCost c \<le> 0")
    case True
    with "1.prems" show ?thesis by (auto simp: dispatchVirtual.simps [of c])
  next
    case False
    then have n: "\<not> fq_size (acVirtualQueue c) \<le> 0"
      "\<not> currentLimit (acAdapt c) - acVirtualActiveCost c \<le> 0" by simp_all
    obtain r q' where d: "dequeue (acVirtualQueue c)
        (currentLimit (acAdapt c) - acVirtualActiveCost c) = (r, q')" by (meson surj_pair)
    show ?thesis
    proof (cases r)
      case None
      have "fq_wf (acVirtualQueue c)" using controller_okD(5) [OF "1.prems"] by (simp add: queue_ok_def)
      with None d n "1.prems" show ?thesis
        by (auto simp: dispatchVirtual.simps [of c] dest: dequeue_None_same)
    next
      case (Some e)
      note p = promote_virtual_effect [OF "1.prems" d [unfolded Some]]
      from "1.IH" [OF n(1) refl n(2) d [symmetric] Some p(1)] p(2) n d Some
      show ?thesis by (simp add: dispatchVirtual.simps [of c])
    qed
  qed
qed

section \<open>Release\<close>

lemma sum_list_filter_out:
  fixes f :: "'a \<Rightarrow> int"
  assumes "distinct xs" "x \<in> set xs"
  shows "(\<Sum>y\<leftarrow>filter (\<lambda>y. y \<noteq> x) xs. f y) = (\<Sum>y\<leftarrow>xs. f y) - f x"
proof -
  obtain ys zs where xs: "xs = ys @ x # zs" using assms(2) by (meson split_list)
  with assms(1) have "filter (\<lambda>y. y \<noteq> x) ys = ys" "filter (\<lambda>y. y \<noteq> x) zs = zs"
    by (auto simp: filter_id_conv)
  with xs show ?thesis by simp
qed

lemma leases_ok_release:
  assumes "leases_ok R act t seq" "R i = Some r" "\<not> lrReleased r"
  shows "i \<in> set act"
    "leases_ok (R(i \<mapsto> r\<lparr>lrReleased := True\<rparr>)) (filter (\<lambda>j. j \<noteq> i) act) (t - lrCost r) seq"
proof -
  show i: "i \<in> set act" using assms unfolding leases_ok_def by blast
  have dist: "distinct act" using assms(1) by (simp add: leases_ok_def)
  let ?R = "R(i \<mapsto> r\<lparr>lrReleased := True\<rparr>)"
  have "(\<Sum>j\<leftarrow>filter (\<lambda>j. j \<noteq> i) act. lease_cost ?R j) =
      (\<Sum>j\<leftarrow>filter (\<lambda>j. j \<noteq> i) act. lease_cost R j)"
    by (intro arg_cong [of _ _ sum_list] map_cong) (auto simp: lease_cost_upd)
  also have "\<dots> = t - lrCost r"
    using sum_list_filter_out [OF dist i, of "lease_cost R"] assms(1,2)
    by (simp add: leases_ok_def lease_cost_def)
  finally show "leases_ok ?R (filter (\<lambda>j. j \<noteq> i) act) (t - lrCost r) seq"
    using assms by (simp add: leases_ok_def)
qed

lemma virtual_remove:
  assumes "virtual_ok R act vq vcost vcount" "queue_ok cfg vq" "i \<in> set act" "disposition_of R i = VQueued"
  obtains e vq' where "removeById vq i = (Some e, vq')" "queue_ok cfg vq'"
    "content vq = add_mset (core e) (content vq')" "entryId (core e) = i"
proof -
  have w: "fq_wf vq" using assms(2) by (simp add: queue_ok_def)
  have "i \<in># image_mset entryId (content vq)"
    using assms(1,3,4) by (simp add: virtual_ok_def)
  then obtain x where x: "x \<in># content vq" "entryId x = i" by auto
  obtain e vq' where "removeById vq i = (Some e, vq')"
    using removeById_None_effect [OF w] x by (metis not_None_eq surj_pair)
  with removeById_Some_effect [OF w this] assms(2) show ?thesis
    by (intro that [of e vq']) (simp_all add: queue_ok_def)
qed

lemma releaseVirtual_effect:
  assumes "controller_ok c" "acRecords c i = Some r" "\<not> lrReleased r"
    and c1: "acRecords c1 = (acRecords c)(i \<mapsto> r\<lparr>lrReleased := True\<rparr>)"
      "acActive c1 = filter (\<lambda>j. j \<noteq> i) (acActive c)" "acActiveCost c1 = acActiveCost c - lrCost r"
      "acConfig c1 = acConfig c" "adapt_ok (adaptation (acConfig c)) (acAdapt c1)"
      "acQueue c1 = acQueue c" "acLanes c1 = acLanes c" "acVirtualQueue c1 = acVirtualQueue c"
      "acVirtualActiveCost c1 = acVirtualActiveCost c" "acVirtualActiveCount c1 = acVirtualActiveCount c"
      "leaseSeq c1 = leaseSeq c" "acSettled c1 = acSettled c"
  shows "controller_ok (releaseVirtual i c1) \<and> promises (releaseVirtual i c1) = promises c"
proof -
  note ok = controller_okD [OF assms(1)]
  let ?R = "acRecords c" and ?act = "acActive c"
  let ?R1 = "?R(i \<mapsto> r\<lparr>lrReleased := True\<rparr>)"
  note rel = leases_ok_release [OF ok(3) assms(2,3)]
  have cost: "0 \<le> lease_cost ?R i" "lease_cost ?R i = lrCost r" "disposition_of ?R i = virtualDisposition r"
    using leases_ok_cost(1) [OF ok(3) rel(1)] assms(2) by (simp_all add: lease_cost_def disposition_of_def)
  note ret = virtual_ok_retire [OF ok(4,9) rel(1) cost(1)]
  define c2 where "c2 = (case virtualDisposition r of
      VActive \<Rightarrow> c1\<lparr>acVirtualActiveCost := acVirtualActiveCost c1 - lrCost r,
                   acVirtualActiveCount := acVirtualActiveCount c1 - 1\<rparr>
    | VQueued \<Rightarrow> c1\<lparr>acVirtualQueue := snd (removeById (acVirtualQueue c1) i)\<rparr>
    | _ \<Rightarrow> c1)"
  have unfold: "releaseVirtual i c1 = dispatchVirtual (set_disposition i VNone c2)"
    by (cases "virtualDisposition r") (simp_all add: releaseVirtual_def c2_def c1(1) Let_def)
  have lift: "virtual_ok (redispose ?R1 i VNone) (filter (\<lambda>j. j \<noteq> i) ?act) vq vc vn"
    if "virtual_ok ?R (filter (\<lambda>j. j \<noteq> i) ?act) vq vc vn" for vq vc vn
    using that by (rule virtual_ok_cong) (auto simp: disposition_of_redispose lease_cost_upd disposition_of_upd)
  have L: "leases_ok (redispose ?R1 i VNone) (filter (\<lambda>j. j \<noteq> i) ?act) (acActiveCost c - lrCost r) (leaseSeq c)"
    using rel(2) by (rule leases_ok_redispose)
  have p: "promises c2 = promises c"
    by (cases "virtualDisposition r") (simp_all add: c2_def promises_def c1)
  have fields: "acConfig c2 = acConfig c" "acAdapt c2 = acAdapt c1" "acQueue c2 = acQueue c"
    "acLanes c2 = acLanes c" "acRecords c2 = ?R1" "acActive c2 = filter (\<lambda>j. j \<noteq> i) ?act"
    "acActiveCost c2 = acActiveCost c - lrCost r" "leaseSeq c2 = leaseSeq c"
    by (cases "virtualDisposition r"; simp add: c2_def c1)+
  have "virtual_ok ?R (filter (\<lambda>j. j \<noteq> i) ?act) (acVirtualQueue c2) (acVirtualActiveCost c2)
      (acVirtualActiveCount c2) \<and> queue_ok (acConfig c) (acVirtualQueue c2)"
  proof (cases "virtualDisposition r")
    case VQueued
    obtain e vq' where "removeById (acVirtualQueue c) i = (Some e, vq')" "queue_ok (acConfig c) vq'"
      "content (acVirtualQueue c) = add_mset (core e) (content vq')" "entryId (core e) = i"
      using virtual_remove [OF ok(4,5) rel(1)] cost VQueued by metis
    with ret(2) cost VQueued show ?thesis by (simp add: c2_def c1)
  qed (use ret cost ok(5) in \<open>simp_all add: c2_def c1\<close>)
  then have "controller_ok (set_disposition i VNone c2)"
    using lift L ok(1,6-8) c1(5) p by (simp add: controller_ok_def fields)
  from dispatchVirtual_effect [OF this] show ?thesis by (simp add: unfold p)
qed

lemma adapt_ok_completed [wf_intros]:
  "adapt_ok p a \<Longrightarrow> adapt_ok p (a\<lparr>windowCompleted := windowCompleted a + 1\<rparr>)"
  by (simp add: adapt_ok_def)

lemma adapt_feedback_frame [simp]:
  "currentLimit (noteLatency a v p) = currentLimit a" "currentLimit (noteOutcome a out) = currentLimit a"
  "currentLimit (setPressure a pr) = currentLimit a"
  by (simp_all add: noteLatency_def noteOutcome_def setPressure_def Let_def)

text \<open>The adaptation state after the feedback of one release.\<close>

definition feedback ::
  "int \<Rightarrow> ActiveLeaseRecord \<Rightarrow> AdmissionReleaseOutcome \<Rightarrow> AdmissionReleaseMeta option \<Rightarrow>
   AdaptationParams \<Rightarrow> AdaptationState \<Rightarrow> AdaptationState" where
  "feedback now r outcome meta p a =
     (let latency = (case meta of
                    Some m \<Rightarrow> (case latencyMs m of Some v \<Rightarrow> v
                                | None \<Rightarrow> Finite (of_int (max 0 (now - admittedAtMs r))))
                  | None \<Rightarrow> Finite (of_int (max 0 (now - admittedAtMs r))));
          a = noteOutcome (noteLatency a latency p) outcome;
          a = a\<lparr>windowCompleted := windowCompleted a + 1\<rparr>
      in case meta of
           Some m \<Rightarrow> (case metaPressure m of Some p \<Rightarrow> setPressure a p | None \<Rightarrow> a)
         | None \<Rightarrow> a)"

lemma feedback_ok:
  "params_ok p \<Longrightarrow> adapt_ok p a \<Longrightarrow> adapt_ok p (feedback now r outcome meta p a)"
  by (auto simp: feedback_def Let_def split: option.split intro!: wf_intros)

lemma feedback_limit [simp]: "currentLimit (feedback now r outcome meta p a) = currentLimit a"
  by (simp add: feedback_def Let_def split: option.split)

definition released ::
  "int \<Rightarrow> string \<Rightarrow> ActiveLeaseRecord \<Rightarrow> AdmissionReleaseOutcome \<Rightarrow> AdmissionReleaseMeta option \<Rightarrow>
   admission_controller \<Rightarrow> admission_controller" where
  "released now i r outcome meta c =
     (sampleIntegral now (c\<lparr>acRecords := (acRecords c)(i \<mapsto> r\<lparr>lrReleased := True\<rparr>)\<rparr>))
       \<lparr>acActive := filter (\<lambda>j. j \<noteq> i) (acActive c), acActiveCost := acActiveCost c - lrCost r,
        acAdapt := feedback now r outcome meta (adaptation (acConfig c))
          (acAdapt (sampleIntegral now c))\<rparr>"

lemma sampleIntegral_adapt:
  "acAdapt (sampleIntegral now (c\<lparr>acRecords := R\<rparr>)) = acAdapt (sampleIntegral now c)"
  by (simp add: sampleIntegral_def Let_def)

lemma releaseLease_unfold:
  assumes "acRecords c i = Some r" "\<not> lrReleased r" "i \<in> set (acActive c)"
  shows "releaseLease now i outcome meta c =
    dispatch now (releaseVirtual i (released now i r outcome meta c))"
  using assms
  by (simp add: releaseLease_def released_def feedback_def sampleIntegral_adapt Let_def
      cong: option.case_cong)

lemma releaseLease_effect:
  assumes "controller_ok c"
  shows "controller_ok (releaseLease now i outcome meta c) \<and>
    promises (releaseLease now i outcome meta c) = promises c"
proof (cases "\<exists>r. acRecords c i = Some r \<and> \<not> lrReleased r")
  case False
  with assms show ?thesis by (auto simp: releaseLease_def split: option.split)
next
  case True
  then obtain r where r: "acRecords c i = Some r" "\<not> lrReleased r" by blast
  note ok = controller_okD [OF assms]
  note rel = leases_ok_release [OF ok(3) r]
  have a: "adapt_ok (adaptation (acConfig c)) (acAdapt (released now i r outcome meta c))"
    using feedback_ok sampleIntegral_ok [OF assms] ok(1) by (simp add: released_def config_ok_def)
  have "controller_ok (releaseVirtual i (released now i r outcome meta c)) \<and>
      promises (releaseVirtual i (released now i r outcome meta c)) = promises c"
    by (rule releaseVirtual_effect [OF assms r]) (use a in \<open>simp_all add: released_def\<close>)
  then show ?thesis by (simp add: releaseLease_unfold [OF r rel(1)] dispatch_effect)
qed

section \<open>Shadow admission and rebuild\<close>

lemma sampleIntegral_adapt_ok:
  "params_ok p \<Longrightarrow> adapt_ok p (acAdapt c) \<Longrightarrow> adapt_ok p (acAdapt (sampleIntegral now c))"
  by (auto simp: sampleIntegral_def Let_def intro: sampleActiveIntegral_ok)

lemma queue_ok_enqueue:
  assumes "queue_ok cfg q" "canAccept q (entryCost e)" "skipCount e = 0"
  shows "fst (enqueue q e)" "queue_ok cfg (snd (enqueue q e))"
    "content (snd (enqueue q e)) = add_mset e (content q)"
  using enqueue_accept_effect [of q e "fst (enqueue q e)" "snd (enqueue q e)"] assms
  by (simp_all add: queue_ok_def)

lemma controller_ok_shadow_grant:
  assumes "controller_ok c" "0 < cost" "queue_ok (acConfig c) vq"
    "virtual_ok ((acRecords c)(make_id ''lease'' (Suc (leaseSeq c)) \<mapsto>
         \<lparr>lrCost = cost, lrReleased = False, admittedAtMs = now, virtualDisposition = vd\<rparr>))
       (acActive c @ [make_id ''lease'' (Suc (leaseSeq c))]) vq vcost vcount"
    "acRecords c0 = acRecords c" "acActive c0 = acActive c" "leaseSeq c0 = leaseSeq c"
    "acActiveCost c0 = acActiveCost c" "acAdapt c0 = acAdapt c" "acConfig c0 = acConfig c"
    "acQueue c0 = acQueue c" "acLanes c0 = acLanes c" "acSettled c0 = acSettled c"
    "acVirtualActiveCost c0 = vcost" "acVirtualActiveCount c0 = vcount"
    "c' = (snd (admit now cost vd c0))\<lparr>acVirtualQueue := vq\<rparr>"
  shows "controller_ok c'" "promises c' = promises c"
proof -
  note ok = controller_okD [OF assms(1)]
  show p: "promises c' = promises c" by (simp add: assms promises_def)
  have "leases_ok (acRecords c0) (acActive c0) (acActiveCost c) (leaseSeq c0)"
    using ok(3) assms(5-7) by simp
  note act = admit_active [OF this, of now cost vd]
  have "adapt_ok (adaptation (acConfig c)) (acAdapt (sampleIntegral now c0))"
    using ok(1,2) assms(9) by (intro sampleIntegral_adapt_ok) (simp_all add: config_ok_def)
  moreover have "ids_ok (promises c) (Suc (leaseSeq c))" using ok(8) by (rule ids_ok_mono) simp
  moreover note leases_ok_grant [OF ok(3), of "\<lparr>lrCost = cost, lrReleased = False,
    admittedAtMs = now, virtualDisposition = vd\<rparr>"]
  ultimately show "controller_ok c'"
    using p assms ok(1,6,7) act by (simp add: controller_ok_def)
qed

lemma acquireShadow_effect:
  assumes "controller_ok c" "0 < cost"
  shows "controller_ok (snd (acquireShadow now r cost (currentLimit (acAdapt c)) c))"
    "promises (snd (acquireShadow now r cost (currentLimit (acAdapt c)) c)) = promises c"
proof -
  note ok = controller_okD [OF assms(1)]
  let ?limit = "currentLimit (acAdapt c)" and ?lid = "make_id ''lease'' (Suc (leaseSeq c))"
  let ?c' = "snd (acquireShadow now r cost ?limit c)"
  let ?r = "\<lambda>vd. \<lparr>lrCost = cost, lrReleased = False, admittedAtMs = now, virtualDisposition = vd\<rparr>"
  note base = virtual_ok_grant [OF ok(4) fresh_lease(2) [OF ok(3)]]
  have dist: "distinct (acActive c @ [?lid])" "?lid \<in> set (acActive c @ [?lid])"
    using ok(9) fresh_lease(2) [OF ok(3)] by simp_all
  note place = virtual_ok_place [OF base dist]
  consider (no) "\<exists>c0. ?c' = snd (admit now cost VRejected c0) \<and> controller_ok c0 \<and> promises c0 = promises c"
    | (active) "cost \<le> ?limit" "acVirtualActiveCost c + cost \<le> ?limit"
    | (queue) "\<not> (cost > ?limit \<or> \<not> is_safe_integer cost)" "\<not> acVirtualActiveCost c + cost \<le> ?limit"
      "canAccept (acVirtualQueue c) cost"
  proof -
    have "?c' = snd (admit now cost VRejected (c\<lparr>wouldRejectCount := wouldRejectCount c + 1\<rparr>))"
      if "(cost > ?limit \<or> \<not> is_safe_integer cost) \<or>
          \<not> acVirtualActiveCost c + cost \<le> ?limit \<and> \<not> canAccept (acVirtualQueue c) cost"
      using that by (auto simp: acquireShadow_def case_prod_unfold Let_def)
    moreover have "controller_ok (c\<lparr>wouldRejectCount := wouldRejectCount c + 1\<rparr>)"
      "promises (c\<lparr>wouldRejectCount := wouldRejectCount c + 1\<rparr>) = promises c"
      using assms(1) by simp_all
    ultimately show ?thesis using that by (metis not_less)
  qed
  then have "controller_ok ?c' \<and> promises ?c' = promises c"
  proof cases
    case no
    then show ?thesis using assms(2) by (auto intro: controller_ok_admit)
  next
    case active
    have lim: "?limit \<le> MAX_ADMISSION_COST_OR_LIMIT" by (rule ok(10))
    have safe: "is_safe_integer cost"
      using active lim assms(2)
      by (simp add: is_safe_integer_def MAX_ADMISSION_COST_OR_LIMIT_eq max_safe_integer_def)
    have cnt: "acVirtualActiveCount c + 1 \<le> MAX_ADMISSION_COST_OR_LIMIT"
      using virtual_ok_count [OF ok(4,3)] active lim assms(2) by simp
    let ?c0 = "c\<lparr>acVirtualActiveCost := acVirtualActiveCost c + cost,
        acVirtualActiveCount := acVirtualActiveCount c + 1,
        wouldAdmitCount := addSaturated (wouldAdmitCount c) 1\<rparr>"
    have c': "?c' = (snd (admit now cost VActive ?c0))\<lparr>acVirtualQueue := acVirtualQueue c\<rparr>"
      using active safe addSaturated_exact [OF assms(2)] addSaturated_exact [OF _ cnt] lim
      by (simp add: acquireShadow_def case_prod_unfold Let_def admit_def nextId_def sampleIntegral_def)
    have v: "virtual_ok ((acRecords c)(?lid \<mapsto> ?r VActive)) (acActive c @ [?lid]) (acVirtualQueue c)
        (acVirtualActiveCost c + cost) (acVirtualActiveCount c + 1)"
      using place(1) [of "?r VActive"] active lim by (simp add: disposition_of_upd lease_cost_upd)
    from controller_ok_shadow_grant [OF assms ok(5) v, of ?c0, OF _ _ _ _ _ _ _ _ _ _ _ c']
    show ?thesis by simp
  next
    case queue
    let ?e = "\<lparr>entryId = ?lid, tenantKey = tenant_or_default (reqTenantKey r), entryCost = cost,
        enqueuedAtMs = now, deadlineMs = max_safe_integer, payload = ?lid, skipCount = 0\<rparr>"
    let ?vq = "snd (enqueue (acVirtualQueue c) ?e)"
    let ?c0 = "c\<lparr>wouldQueueCount := wouldQueueCount c + 1\<rparr>"
    have c': "?c' = (snd (admit now cost VQueued ?c0))\<lparr>acVirtualQueue := ?vq\<rparr>"
      using queue by (simp add: acquireShadow_def case_prod_unfold Let_def)
    note e = queue_ok_enqueue [OF ok(5), of ?e]
    have v: "virtual_ok ((acRecords c)(?lid \<mapsto> ?r VQueued)) (acActive c @ [?lid]) ?vq
        (acVirtualActiveCost c) (acVirtualActiveCount c)"
      using place(2) [of "?r VQueued" ?vq ?e] e(3) queue(3)
      by (simp add: disposition_of_upd lease_cost_upd)
    have q: "queue_ok (acConfig c) ?vq" using e(2) queue(3) by simp
    from controller_ok_shadow_grant [OF assms q v, of ?c0, OF _ _ _ _ _ _ _ _ _ _ _ c']
    show ?thesis by simp
  qed
  then show "controller_ok ?c'" "promises ?c' = promises c" by simp_all
qed

section \<open>The ledger without the shadow\<close>

text \<open>
  While \<open>updateConfig\<close> is between two configurations the shadow state is stale and about to be
  rebuilt: the rest of the invariant carries the proof through.
\<close>

definition ledger_ok :: "admission_controller \<Rightarrow> bool" where
  "ledger_ok c \<longleftrightarrow>
     config_ok (acConfig c) \<and>
     adapt_ok (adaptation (acConfig c)) (acAdapt c) \<and>
     queue_ok (acConfig c) (acQueue c) \<and>
     lanes_ok (acConfig c) (acLanes c) \<and>
     leases_ok (acRecords c) (acActive c) (acActiveCost c) (leaseSeq c) \<and>
     ids_ok (promises c) (leaseSeq c)"

lemma controller_ok_ledger:
  "controller_ok c \<longleftrightarrow>
     ledger_ok c \<and> queue_ok (acConfig c) (acVirtualQueue c) \<and>
     virtual_ok (acRecords c) (acActive c) (acVirtualQueue c)
       (acVirtualActiveCost c) (acVirtualActiveCount c)"
  by (auto simp: controller_ok_def ledger_ok_def)

lemma ledger_okD:
  assumes "ledger_ok c"
  shows "config_ok (acConfig c)" "params_ok (adaptation (acConfig c))"
    "adapt_ok (adaptation (acConfig c)) (acAdapt c)"
    "leases_ok (acRecords c) (acActive c) (acActiveCost c) (leaseSeq c)"
    "queue_ok (acConfig c) (acQueue c)" "lanes_ok (acConfig c) (acLanes c)"
    "ids_ok (promises c) (leaseSeq c)" "distinct (acActive c)"
    "currentLimit (acAdapt c) \<le> MAX_ADMISSION_COST_OR_LIMIT"
  using assms config_bounds(2,4) [of "acConfig c" "acAdapt c"]
  by (simp_all add: ledger_ok_def leases_ok_def config_ok_def)

lemma ledger_ok_admit:
  assumes "ledger_ok c" "0 < cost"
  shows "ledger_ok (snd (admit now cost vd c))"
proof -
  note ok = ledger_okD [OF assms(1)]
  note g = leases_ok_grant [OF ok(4), of "\<lparr>lrCost = cost, lrReleased = False,
    admittedAtMs = now, virtualDisposition = vd\<rparr>"]
  have "ids_ok (promises c) (Suc (leaseSeq c))" using ok(7) by (rule ids_ok_mono) simp
  with g ok(1,5,6) sampleIntegral_adapt_ok [OF ok(2,3)] assms(2) show ?thesis
    by (simp add: ledger_ok_def admit_active [OF ok(4)])
qed

lemma ledger_ok_settle:
  "ledger_ok c \<Longrightarrow> ids_ok (add_mset i (promises c)) (leaseSeq c) \<Longrightarrow> ledger_ok (settle i s c)"
  using promises_settle [of i s c] by (simp add: ledger_ok_def settle_def)

lemma ledger_ok_free [simp]:
  "ledger_ok (clearEntryTimer i c) = ledger_ok c" "ledger_ok (detachAbort i c) = ledger_ok c"
  "ledger_ok (c\<lparr>rejectedCount := n\<rparr>) = ledger_ok c"
  "ledger_ok (clearLaneEviction c) = ledger_ok c"
  by (simp_all add: ledger_ok_def clearEntryTimer_def detachAbort_def clearLaneEviction_def promises_def)

lemma failQueued_ledger:
  assumes "ledger_ok c" "ids_ok (add_mset (entryId e) (promises c)) (leaseSeq c)"
  shows "ledger_ok (failQueued e code c)"
    "promises (failQueued e code c) = add_mset (entryId e) (promises c)"
  using assms by (simp_all add: failQueued_def Let_def ledger_ok_settle)

lemma failQueued_frame [simp]:
  "leaseSeq (failQueued e code c) = leaseSeq c" "acConfig (failQueued e code c) = acConfig c"
  "acAdapt (failQueued e code c) = acAdapt c" "acActiveCost (failQueued e code c) = acActiveCost c"
  "acActive (failQueued e code c) = acActive c" "acRecords (failQueued e code c) = acRecords c"
  "acVirtualQueue (failQueued e code c) = acVirtualQueue c"
  "acVirtualActiveCost (failQueued e code c) = acVirtualActiveCost c"
  "acVirtualActiveCount (failQueued e code c) = acVirtualActiveCount c"
  "acQueue (failQueued e code c) = acQueue c" "acLanes (failQueued e code c) = acLanes c"
  "acShutDown (failQueued e code c) = acShutDown c"
  by (simp_all add: failQueued_def Let_def settle_def detachAbort_def clearEntryTimer_def)

lemma failQueued_lanes:
  "(failQueued e code c)\<lparr>acLanes := L\<rparr> = failQueued e code (c\<lparr>acLanes := L\<rparr>)"
  by (simp add: failQueued_def Let_def settle_def detachAbort_def clearEntryTimer_def)

lemma fold_failQueued_lanes:
  "(fold (\<lambda>e. failQueued e code) es c)\<lparr>acLanes := L\<rparr> = fold (\<lambda>e. failQueued e code) es (c\<lparr>acLanes := L\<rparr>)"
  by (induction es arbitrary: c) (simp_all add: failQueued_lanes)

lemma fold_failQueued_effect:
  assumes "controller_ok c" "ids_ok (mset (map entryId es) + promises c) (leaseSeq c)"
  shows "controller_ok (fold (\<lambda>e. failQueued e code) es c) \<and>
    promises (fold (\<lambda>e. failQueued e code) es c) = mset (map entryId es) + promises c"
  using assms
proof (induction es arbitrary: c)
  case Nil
  then show ?case by simp
next
  case (Cons e es)
  have i: "ids_ok (add_mset (entryId e) (promises c)) (leaseSeq c)"
    using Cons.prems(2) ids_ok_part [of "mset (map entryId es)"] by simp
  note f = failQueued_effect [OF Cons.prems(1) i, of code]
  from Cons.IH [of "failQueued e code c"] f Cons.prems(2) show ?case by simp
qed

section \<open>Lanes\<close>

lemma drain_ids:
  assumes "queue_ok cfg q" "config_ok cfg"
  shows "mset (map entryId (fst (drain q))) = queued_ids q"
    "\<And>e. e \<in> set (fst (drain q)) \<Longrightarrow> 0 < entryCost e \<and> skipCount e = 0"
    "queue_ok cfg (snd (drain q))" "queued_ids (snd (drain q)) = {#}"
proof -
  have w: "fq_wf q" using assms(1) by (simp add: queue_ok_def)
  have "maxCost q \<le> max_safe_integer"
    using assms by (simp add: queue_ok_def config_ok_def in_bound_def MAX_ADMISSION_COST_OR_LIMIT_eq
        max_safe_integer_def)
  note d = drain_effect [OF w this, of "fst (drain q)" "snd (drain q)"]
  show "mset (map entryId (fst (drain q))) = queued_ids q" using d by (simp add: queued_ids_def)
  show "queue_ok cfg (snd (drain q))" "queued_ids (snd (drain q)) = {#}"
    using d assms(1) by (simp_all add: queue_ok_def queued_ids_def)
  show "0 < entryCost e \<and> skipCount e = 0" if "e \<in> set (fst (drain q))" for e
  proof -
    have "e \<in># content q" using d that by (metis prod.collapse set_mset_mset)
    moreover from this have "skipCount e = 0" by (auto simp: content_def)
    ultimately show ?thesis using content_member(1) [OF w] by simp
  qed
qed

lemma drain_all_ids:
  assumes "queue_ok cfg (acQueue c)" "lanes_ok cfg (acLanes c)" "config_ok cfg"
  shows "mset (map entryId (drain_all c)) = queued_ids (acQueue c) + lane_ids (acLanes c)"
    "\<And>e. e \<in> set (drain_all c) \<Longrightarrow> 0 < entryCost e \<and> skipCount e = 0"
proof -
  have q: "queue_ok cfg (laneQueue l)" if "(k, l) \<in> set (acLanes c)" for k l
    using that assms(2) by (force simp: lanes_ok_def)
  then have "mset (concat (map (\<lambda>(k, l). map entryId (fst (drain (laneQueue l)))) L)) = lane_ids L"
    if "set L \<subseteq> set (acLanes c)" for L
    using that
    by (induction L) (auto simp: lane_ids_def drain_ids(1) [OF _ assms(3), unfolded mset_map] mset_map)
  then show "mset (map entryId (drain_all c)) = queued_ids (acQueue c) + lane_ids (acLanes c)"
    using drain_ids(1) [OF assms(1,3)]
    by (simp add: drain_all_def map_concat comp_def case_prod_unfold)
  show "0 < entryCost e \<and> skipCount e = 0" if "e \<in> set (drain_all c)" for e
    using that drain_ids(2) [OF assms(1,3)] drain_ids(2) [OF q assms(3)]
    by (auto simp: drain_all_def)
qed

lemma controller_ok_lanes:
  assumes "controller_ok c" "lanes_ok (acConfig c) L"
    "ids_ok (queued_ids (acQueue c) + lane_ids L + mset (map fst (acSettled c))) (leaseSeq c)"
  shows "controller_ok (c\<lparr>acLanes := L\<rparr>)"
  using assms by (simp add: controller_ok_def promises_def)

lemma deleteLane_effect:
  assumes "controller_ok c"
  shows "controller_ok (deleteLane k c)" "promises (deleteLane k c) = promises c"
    "acConfig (deleteLane k c) = acConfig c" "acAdapt (deleteLane k c) = acAdapt c"
    "acActiveCost (deleteLane k c) = acActiveCost c" "leaseSeq (deleteLane k c) = leaseSeq c"
    "acShutDown (deleteLane k c) = acShutDown c" "acQueue (deleteLane k c) = acQueue c"
proof -
  have frame: "acConfig (fold (\<lambda>e. failQueued e ADMISSION_LANE_EVICTED) es c) = acConfig c \<and>
      acAdapt (fold (\<lambda>e. failQueued e ADMISSION_LANE_EVICTED) es c) = acAdapt c \<and>
      acActiveCost (fold (\<lambda>e. failQueued e ADMISSION_LANE_EVICTED) es c) = acActiveCost c \<and>
      leaseSeq (fold (\<lambda>e. failQueued e ADMISSION_LANE_EVICTED) es c) = leaseSeq c \<and>
      acShutDown (fold (\<lambda>e. failQueued e ADMISSION_LANE_EVICTED) es c) = acShutDown c \<and>
      acLanes (fold (\<lambda>e. failQueued e ADMISSION_LANE_EVICTED) es c) = acLanes c \<and>
      acQueue (fold (\<lambda>e. failQueued e ADMISSION_LANE_EVICTED) es c) = acQueue c"
    for es :: "queued_payload queue_entry list"
    by (induction es arbitrary: c) simp_all
  show "acConfig (deleteLane k c) = acConfig c" "acAdapt (deleteLane k c) = acAdapt c"
    "acActiveCost (deleteLane k c) = acActiveCost c" "leaseSeq (deleteLane k c) = leaseSeq c"
    "acShutDown (deleteLane k c) = acShutDown c" "acQueue (deleteLane k c) = acQueue c"
    by (simp_all add: deleteLane_def frame case_prod_unfold Let_def split: option.split)
  note ok = controller_okD [OF assms]
  have "controller_ok (deleteLane k c) \<and> promises (deleteLane k c) = promises c"
  proof (cases "js_get (acLanes c) k")
    case None
    with assms show ?thesis by (simp add: deleteLane_def)
  next
    case (Some l)
    let ?L = "js_delete k (acLanes c)" and ?es = "fst (drain (laneQueue l))"
    have q: "queue_ok (acConfig c) (laneQueue l)" by (rule lanes_okD [OF ok(7) Some])
    have split: "lane_ids (acLanes c) = lane_ids ?L + queued_ids (laneQueue l)"
      using lane_ids_delete [OF _ Some] ok(7) by (simp add: lanes_ok_def)
    then have p: "promises c = mset (map entryId ?es) + promises (c\<lparr>acLanes := ?L\<rparr>)"
      unfolding drain_ids(1) [OF q ok(1)] by (simp add: promises_def ac_simps)
    with ok(8) have i: "ids_ok (mset (map entryId ?es) + promises (c\<lparr>acLanes := ?L\<rparr>)) (leaseSeq c)"
      by simp
    from ids_ok_part [OF i] have "controller_ok (c\<lparr>acLanes := ?L\<rparr>)"
      using assms lanes_ok_delete [OF ok(7)]
      by (intro controller_ok_lanes) (simp_all add: promises_def)
    from fold_failQueued_effect [OF this, of ?es ADMISSION_LANE_EVICTED] i p frame [of ?es] Some
    show ?thesis
      by (simp add: deleteLane_def case_prod_unfold Let_def fold_failQueued_lanes)
  qed
  then show "controller_ok (deleteLane k c)" "promises (deleteLane k c) = promises c" by simp_all
qed

lemma fold_deleteLane_effect:
  "controller_ok c \<Longrightarrow>
   controller_ok (fold deleteLane ks c) \<and> promises (fold deleteLane ks c) = promises c \<and>
   acConfig (fold deleteLane ks c) = acConfig c \<and> acAdapt (fold deleteLane ks c) = acAdapt c \<and>
   acActiveCost (fold deleteLane ks c) = acActiveCost c \<and> acQueue (fold deleteLane ks c) = acQueue c \<and>
   leaseSeq (fold deleteLane ks c) = leaseSeq c \<and> acShutDown (fold deleteLane ks c) = acShutDown c"
  by (induction ks arbitrary: c) (simp_all add: deleteLane_effect)

lemma arm_lane_frame [simp]:
  "acConfig (armLaneEviction now c) = acConfig c" "acAdapt (armLaneEviction now c) = acAdapt c"
  "acActiveCost (armLaneEviction now c) = acActiveCost c" "leaseSeq (armLaneEviction now c) = leaseSeq c"
  "acShutDown (armLaneEviction now c) = acShutDown c" "acQueue (armLaneEviction now c) = acQueue c"
  "acLanes (armLaneEviction now c) = acLanes c" "acTimers (armLaneEviction now c) = acTimers c"
  "acConfig (clearLaneEviction c) = acConfig c" "acAdapt (clearLaneEviction c) = acAdapt c"
  "acActiveCost (clearLaneEviction c) = acActiveCost c" "leaseSeq (clearLaneEviction c) = leaseSeq c"
  "acShutDown (clearLaneEviction c) = acShutDown c" "acQueue (clearLaneEviction c) = acQueue c"
  "acLanes (clearLaneEviction c) = acLanes c" "acTimers (clearLaneEviction c) = acTimers c"
  by (simp_all add: armLaneEviction_def clearLaneEviction_def)

lemma evictIdleLanes_effect:
  assumes "controller_ok c"
  shows "controller_ok (evictIdleLanes now c)" "promises (evictIdleLanes now c) = promises c"
    "acConfig (evictIdleLanes now c) = acConfig c" "acAdapt (evictIdleLanes now c) = acAdapt c"
    "acActiveCost (evictIdleLanes now c) = acActiveCost c"
    "acShutDown (evictIdleLanes now c) = acShutDown c"
  using fold_deleteLane_effect [OF assms]
  by (simp_all add: evictIdleLanes_def Let_def)

lemma deleteLane_lanes: "acLanes (deleteLane k c) = js_delete k (acLanes c)"
proof -
  have "acLanes (fold (\<lambda>e. failQueued e ADMISSION_LANE_EVICTED) es c) = acLanes c"
    for es :: "queued_payload queue_entry list"
    by (induction es arbitrary: c) simp_all
  then show ?thesis
    by (simp add: deleteLane_def case_prod_unfold Let_def map_of_eq_None_iff split: option.split)
qed

text \<open>Writing one lane changes the promises by what the lane held and holds.\<close>

lemma lane_write:
  assumes "controller_ok c" "queue_ok (acConfig c) (laneQueue l')"
    and c': "c' = c\<lparr>acLanes := js_set k l' (acLanes c)\<rparr>"
  shows "js_get (acLanes c) k = Some l \<Longrightarrow>
      promises c' + queued_ids (laneQueue l) = promises c + queued_ids (laneQueue l')"
    "js_get (acLanes c) k = None \<Longrightarrow> promises c' = promises c + queued_ids (laneQueue l')"
    "ids_ok (promises c') (leaseSeq c) \<Longrightarrow> controller_ok c'"
proof -
  show "promises c' + queued_ids (laneQueue l) = promises c + queued_ids (laneQueue l')"
    if "js_get (acLanes c) k = Some l"
    using lane_ids_set [OF that, of l'] by (simp add: c' promises_def ac_simps)
  show "promises c' = promises c + queued_ids (laneQueue l')" if "js_get (acLanes c) k = None"
    using lane_ids_set_absent [OF that, of l'] by (simp add: c' promises_def ac_simps)
  show "controller_ok c'" if "ids_ok (promises c') (leaseSeq c)"
    using controller_ok_lanes [OF assms(1), of "js_set k l' (acLanes c)"] that assms(1,2)
    by (simp add: c' promises_def controller_ok_def lanes_ok_set)
qed

lemma getOrCreateLane_effect:
  assumes "controller_ok c"
  shows "controller_ok (getOrCreateLane now k c)" "promises (getOrCreateLane now k c) = promises c"
    "acConfig (getOrCreateLane now k c) = acConfig c" "acAdapt (getOrCreateLane now k c) = acAdapt c"
    "acActiveCost (getOrCreateLane now k c) = acActiveCost c"
    "leaseSeq (getOrCreateLane now k c) = leaseSeq c" "acShutDown (getOrCreateLane now k c) = acShutDown c"
    "\<exists>l. js_get (acLanes (getOrCreateLane now k c)) k = Some l"
proof -
  define c1 where "c1 = (if length (acLanes c) \<ge> ADMISSION_LANE_MAX_SESSIONS
      then (case oldestLaneKey c of
              Some ok \<Rightarrow> if ok \<noteq> '''' then deleteLane ok c else c
            | None \<Rightarrow> c)
      else c)"
  have c1: "controller_ok c1" "promises c1 = promises c" "acConfig c1 = acConfig c"
    "acAdapt c1 = acAdapt c" "acActiveCost c1 = acActiveCost c" "leaseSeq c1 = leaseSeq c"
    "acShutDown c1 = acShutDown c"
    using assms by (simp_all add: c1_def deleteLane_effect split: option.split)
  let ?n = "\<lparr>laneQueue = new_queue (maxQueueCount (acConfig c1)) (maxQueueCost (acConfig c1)),
             lastUsedMs = now\<rparr>"
  define c2 where "c2 = (case js_get (acLanes c) k of
      Some _ \<Rightarrow> c | None \<Rightarrow> c1\<lparr>acLanes := js_set k ?n (acLanes c1)\<rparr>)"
  have c2: "controller_ok c2 \<and> promises c2 = promises c \<and> acConfig c2 = acConfig c \<and>
      acAdapt c2 = acAdapt c \<and> acActiveCost c2 = acActiveCost c \<and> leaseSeq c2 = leaseSeq c \<and>
      acShutDown c2 = acShutDown c \<and> (\<exists>l. js_get (acLanes c2) k = Some l)"
  proof (cases "js_get (acLanes c) k")
    case None
    then have g: "js_get (acLanes c1) k = None"
      by (simp add: c1_def deleteLane_lanes split: option.split)
    have q: "queue_ok (acConfig c1) (laneQueue ?n)"
      using controller_okD(1) [OF c1(1)] by (simp add: queue_ok_new)
    note w = lane_write [OF c1(1) q refl, where k = k]
    from w(2) [OF g] w(3) controller_okD(8) [OF c1(1)] None c1 show ?thesis
      by (simp add: c2_def queued_ids_def)
  next
    case (Some l)
    with assms show ?thesis by (simp add: c2_def)
  qed
  then obtain l where l: "js_get (acLanes c2) k = Some l" by blast
  have final: "getOrCreateLane now k c = c2\<lparr>acLanes := js_set k (l\<lparr>lastUsedMs := now\<rparr>) (acLanes c2)\<rparr>"
  proof -
    have "getOrCreateLane now k c = (case js_get (acLanes c2) k of
        Some l \<Rightarrow> c2\<lparr>acLanes := js_set k (l\<lparr>lastUsedMs := now\<rparr>) (acLanes c2)\<rparr> | None \<Rightarrow> c2)"
      by (simp only: getOrCreateLane_def c2_def c1_def Let_def)
    with l show ?thesis by simp
  qed
  have q: "queue_ok (acConfig c2) (laneQueue (l\<lparr>lastUsedMs := now\<rparr>))"
    using lanes_okD [OF controller_okD(7) l] c2 by simp
  have w: "promises (c2\<lparr>acLanes := js_set k (l\<lparr>lastUsedMs := now\<rparr>) (acLanes c2)\<rparr>) = promises c2"
    using lane_write(1) [OF _ q refl l] c2 by simp
  moreover from this have "controller_ok (c2\<lparr>acLanes := js_set k (l\<lparr>lastUsedMs := now\<rparr>) (acLanes c2)\<rparr>)"
    using lane_write(3) [OF _ q refl] c2 controller_okD(8) [OF assms] by simp
  ultimately show "controller_ok (getOrCreateLane now k c)"
    "promises (getOrCreateLane now k c) = promises c"
    "acConfig (getOrCreateLane now k c) = acConfig c" "acAdapt (getOrCreateLane now k c) = acAdapt c"
    "acActiveCost (getOrCreateLane now k c) = acActiveCost c"
    "leaseSeq (getOrCreateLane now k c) = leaseSeq c" "acShutDown (getOrCreateLane now k c) = acShutDown c"
    "\<exists>l. js_get (acLanes (getOrCreateLane now k c)) k = Some l"
    using c2 by (simp_all add: final)
qed

end
