(* ===== verification/Admission_Correct.thy ===== *)
theory Admission_Correct
  imports Admission_Invariants
begin

text \<open>
  Every public operation, timer and abort of the admission controller keeps its invariant, and
  what each does to the promises handed out and to the active cost.
\<close>


section \<open>Costs\<close>

lemma resolveCost_bounds:
  assumes "config_ok (acConfig c)" "resolveCost c r = Inr cost"
  shows "0 < cost" "cost \<le> MAX_ADMISSION_COST_OR_LIMIT"
proof -
  have ok: "cost_config_ok (costConfig (acConfig c))" using assms(1) by (simp add: config_ok_def)
  have "0 < cost \<and> cost \<le> MAX_ADMISSION_COST_OR_LIMIT"
  proof (cases "reqCost r \<noteq> Undefined")
    case True
    with assms(2) show ?thesis by (auto simp: resolveCost_def dest: normalizeRequestCost_bounds)
  next
    case False
    show ?thesis
    proof (cases "reqFeatures r")
      case None
      with False assms(2) show ?thesis by (simp add: resolveCost_def MAX_ADMISSION_COST_OR_LIMIT_eq)
    next
      case (Some f)
      with False assms(2)
      have "estimateAdmissionCost f (Some (as_partial (costConfig (acConfig c)))) = Inr cost"
        by (simp add: resolveCost_def)
      from estimate_bounds [OF resolve_as_partial [OF ok] this] ok show ?thesis
        by (simp add: cost_config_ok_def in_bound_def)
    qed
  qed
  then show "0 < cost" "cost \<le> MAX_ADMISSION_COST_OR_LIMIT" by simp_all
qed


section \<open>Queueing\<close>

lemma push_entry_effect:
  assumes "controller_ok c" "skipCount e = 0" "ids_ok (add_mset (entryId e) (promises c)) (leaseSeq c)"
    "push_entry now e c = (done, c')"
  shows "controller_ok c'"
    "promises c' = (if done then add_mset (entryId e) (promises c) else promises c)"
    "leaseSeq c' = leaseSeq c" "acConfig c' = acConfig c" "acAdapt c' = acAdapt c"
    "acActiveCost c' = acActiveCost c" "acShutDown c' = acShutDown c"
proof -
  let ?goal = "controller_ok c' \<and>
    promises c' = (if done then add_mset (entryId e) (promises c) else promises c) \<and>
    leaseSeq c' = leaseSeq c \<and> acConfig c' = acConfig c \<and> acAdapt c' = acAdapt c \<and>
    acActiveCost c' = acActiveCost c \<and> acShutDown c' = acShutDown c"
  have ?goal
  proof (cases "tenantKey e \<noteq> ''_default'' \<and> virtualLanes (acConfig c)")
    case False
    let ?q = "snd (enqueue (acQueue c) e)"
    have c': "done = canAccept (acQueue c) (entryCost e)" "c' = c\<lparr>acQueue := ?q\<rparr>"
      using assms(4) False
      by (auto simp: push_entry_def case_prod_unfold Let_def enqueue_fst)
    note ok = controller_okD [OF assms(1)]
    show ?thesis
    proof (cases "done")
      case True
      note e = queue_ok_enqueue [OF ok(6) _ assms(2)]
      have p: "promises c' = add_mset (entryId e) (promises c)"
        using e(3) True c' by (simp add: promises_def queued_ids_def)
      with e(2) True c' assms(1,3) show ?thesis by (simp add: controller_ok_def)
    next
      case False
      then have "c' = c" using c' enqueue_reject [of "acQueue c" e] by simp
      with False assms(1) show ?thesis by simp
    qed
  next
    case True
    define c1 where "c1 = getOrCreateLane now (tenantKey e) c"
    note g = getOrCreateLane_effect [OF assms(1), of now "tenantKey e", folded c1_def]
    obtain l where l: "js_get (acLanes c1) (tenantKey e) = Some l" using g(8) by blast
    let ?q = "snd (enqueue (laneQueue l) e)"
    let ?c2 = "c1\<lparr>acLanes := js_set (tenantKey e) (l\<lparr>laneQueue := ?q\<rparr>) (acLanes c1)\<rparr>"
    have c': "done = canAccept (laneQueue l) (entryCost e)"
      "c' = (if done then armLaneEviction now ?c2 else removeEmptyLane (tenantKey e) ?c2)"
      using assms(4) True l
      by (auto simp: push_entry_def case_prod_unfold Let_def enqueue_fst c1_def [symmetric] split: if_splits)
    have ql: "queue_ok (acConfig c1) (laneQueue l)" by (rule lanes_okD [OF controller_okD(7) [OF g(1)] l])
    show ?thesis
    proof (cases "done")
      case True
      note e = queue_ok_enqueue [OF ql _ assms(2)]
      have q: "queue_ok (acConfig c1) (laneQueue (l\<lparr>laneQueue := ?q\<rparr>))" using e(2) True c'(1) by simp
      note w = lane_write [OF g(1) q refl, where k = "tenantKey e"]
      have p: "promises ?c2 = add_mset (entryId e) (promises c1)"
        using w(1) [OF l] e(3) True c'(1) by (simp add: queued_ids_def)
      with w(3) assms(3) g have "controller_ok ?c2" by simp
      with True c'(2) p g show ?thesis by simp
    next
      case False
      have "?q = laneQueue l" using False c'(1) enqueue_reject [of "laneQueue l" e] by simp
      then have "js_set (tenantKey e) (l\<lparr>laneQueue := ?q\<rparr>) (acLanes c1) = acLanes c1"
        using l by (elim js_get_split) simp
      then have "?c2 = c1" by simp
      with False c'(2) have r: "c' = removeEmptyLane (tenantKey e) c1" by simp
      show ?thesis
      proof (cases "fq_size (laneQueue l) = 0")
        case True
        with r l False g drop_lane [OF g(1) l True] show ?thesis by (simp add: removeEmptyLane_def)
      next
        case no: False
        with r l False g show ?thesis by (simp add: removeEmptyLane_def)
      qed
    qed
  qed
  then show "controller_ok c'"
    "promises c' = (if done then add_mset (entryId e) (promises c) else promises c)"
    "leaseSeq c' = leaseSeq c" "acConfig c' = acConfig c" "acAdapt c' = acAdapt c"
    "acActiveCost c' = acActiveCost c" "acShutDown c' = acShutDown c" by simp_all
qed

lemma controller_ok_seq:
  assumes "controller_ok c" "leaseSeq c \<le> n"
  shows "controller_ok (c\<lparr>leaseSeq := n\<rparr>)"
  using assms leases_ok_seq ids_ok_mono by (auto simp: controller_ok_def promises_def)

text \<open>The promise a call of \<open>acquire\<close> hands out, if it queues.\<close>

definition issued :: "range_error + acquire_result \<Rightarrow> string multiset" where
  "issued res = (case res of Inr (Queued i) \<Rightarrow> {#i#} | _ \<Rightarrow> {#})"

lemma issued_simps [simp]:
  "issued (Inl err) = {#}" "issued (Inr (Queued i)) = {#i#}"
  "issued (Inr (Admitted l cost d)) = {#}" "issued (Inr (Rejected code)) = {#}"
  by (simp_all add: issued_def)

lemma enqueue_request_effect:
  assumes "controller_ok c" "enqueue_request now r cost c = (res, c')"
  shows "controller_ok c' \<and> promises c' = promises c + issued res \<and> acConfig c' = acConfig c \<and>
    acShutDown c' = acShutDown c \<and>
    currentLimit (acAdapt c') = currentLimit (acAdapt c) \<and>
    acActiveCost c' \<le> max (acActiveCost c) (currentLimit (acAdapt c))"
proof -
  let ?c0 = "c\<lparr>leaseSeq := Suc (leaseSeq c)\<rparr>" and ?id = "make_id ''q'' (Suc (leaseSeq c))"
  let ?w = "normalizeRequestCost (nullish_default (reqMaxWaitMs r)
      (js_int (defaultMaxWaitMs (acConfig c)))) (js_int MAX_ADMISSION_WINDOW_MS)"
  have c0: "controller_ok ?c0" by (rule controller_ok_seq [OF assms(1)]) simp
  show ?thesis
  proof (cases ?w)
    case (Inl err)
    with assms(2) c0 show ?thesis by (auto simp: enqueue_request_def nextId_def)
  next
    case (Inr wait)
    let ?dl = "min max_safe_integer (now + wait)"
    let ?e = "\<lparr>entryId = ?id, tenantKey = tenant_or_default (reqTenantKey r), entryCost = cost,
               enqueuedAtMs = now, deadlineMs = ?dl, payload = reqSignal r, skipCount = 0\<rparr>"
    obtain b c1 where p: "push_entry now ?e ?c0 = (b, c1)" by (cases "push_entry now ?e ?c0")
    have i: "ids_ok (add_mset (entryId ?e) (promises ?c0)) (leaseSeq ?c0)"
      using ids_ok_issue [OF controller_okD(8) [OF assms(1)]] by simp
    note e = push_entry_effect [OF c0 _ i p]
    show ?thesis
    proof (cases b)
      case False
      with p Inr assms(2) e show ?thesis
        by (auto simp: enqueue_request_def nextId_def reject_acquire_def)
    next
      case True
      define c2 where "c2 = (dispatch now c1)\<lparr>acTimers := js_set ?id (now + max 0 (?dl - now))
          (acTimers (dispatch now c1))\<rparr>"
      define c3 where "c3 = (case reqSignal r of None \<Rightarrow> c2
          | Some sig \<Rightarrow> c2\<lparr>acListeners := js_set ?id sig (acListeners c2)\<rparr>)"
      have res: "res = Inr (Queued ?id)" "c' = dispatch now c3"
        using p Inr True assms(2)
        by (cases "reqSignal r"; auto simp: enqueue_request_def nextId_def c2_def c3_def Let_def)+
      have d: "controller_ok (dispatch now c1)" "promises (dispatch now c1) = add_mset ?id (promises c)"
        "acConfig (dispatch now c1) = acConfig c" "acShutDown (dispatch now c1) = acShutDown c"
        "currentLimit (acAdapt (dispatch now c1)) = currentLimit (acAdapt c)"
        "acActiveCost (dispatch now c1) \<le> max (acActiveCost c) (currentLimit (acAdapt c))"
        using dispatch_effect [of c1 now] e True by simp_all
      then have c3: "controller_ok c3" "promises c3 = add_mset ?id (promises c)"
        "acConfig c3 = acConfig c" "acShutDown c3 = acShutDown c"
        "currentLimit (acAdapt c3) = currentLimit (acAdapt c)"
        "acActiveCost c3 \<le> max (acActiveCost c) (currentLimit (acAdapt c))"
        by (simp_all add: c3_def c2_def split: option.split)
      show ?thesis using dispatch_effect [OF c3(1), of now] c3 by (simp add: res)
    qed
  qed
qed


section \<open>Expiry\<close>

lemma lanes_remove_effect:
  assumes "lanes_ok cfg L" "lanes_remove eid L = (r, L')"
  shows "case r of
      None \<Rightarrow> L' = L \<and> eid \<notin># lane_ids L
    | Some e \<Rightarrow> lanes_ok cfg L' \<and> lane_ids L = add_mset eid (lane_ids L') \<and> entryId e = eid \<and>
        js_keys L' = js_keys L"
  using assms
proof (induction eid L arbitrary: r L' rule: lanes_remove.induct)
  case (1 eid)
  then show ?case by (auto simp: lane_ids_def)
next
  case (2 eid k l ls)
  have ql: "queue_ok cfg (laneQueue l)" and okls: "lanes_ok cfg ls" and k: "k \<notin> set (js_keys ls)"
    using "2.prems"(1) by (auto simp: lanes_ok_def)
  then have w: "fq_wf (laneQueue l)" by (simp add: queue_ok_def)
  obtain x q' where rm: "removeById (laneQueue l) eid = (x, q')" by (cases "removeById (laneQueue l) eid")
  show ?case
  proof (cases x)
    case (Some e)
    note s = removeById_Some_effect [OF w rm [unfolded Some]]
    with "2.prems"(2) rm Some ql okls k show ?thesis
      by (auto simp: lanes_ok_def lane_ids_def queued_ids_def queue_ok_def)
  next
    case None
    note n = removeById_None_effect [OF w rm [unfolded None]]
    obtain r1 ls' where rec: "lanes_remove eid ls = (r1, ls')" by (cases "lanes_remove eid ls")
    from "2.IH" [OF rm [symmetric] None okls rec] n "2.prems"(2) rm None rec ql k
    show ?thesis
      by (auto simp: lanes_ok_def lane_ids_def queued_ids_def split: option.splits)
  qed
qed

lemma removeEmptyLane_effect:
  assumes "controller_ok c"
  shows "controller_ok (removeEmptyLane k c)" "promises (removeEmptyLane k c) = promises c"
    "acConfig (removeEmptyLane k c) = acConfig c" "acAdapt (removeEmptyLane k c) = acAdapt c"
    "acActiveCost (removeEmptyLane k c) = acActiveCost c" "leaseSeq (removeEmptyLane k c) = leaseSeq c"
    "acShutDown (removeEmptyLane k c) = acShutDown c" "acQueue (removeEmptyLane k c) = acQueue c"
    "acSettled (removeEmptyLane k c) = acSettled c"
  using assms drop_lane [OF assms]
  by (simp_all add: removeEmptyLane_def split: option.split)

lemma take_queued_effect:
  assumes "controller_ok c" "take_queued eid c = (r, c')"
  shows "case r of
      None \<Rightarrow> c' = c \<and> eid \<notin># queued_ids (acQueue c) + lane_ids (acLanes c)
    | Some e \<Rightarrow> controller_ok c' \<and> promises c = add_mset eid (promises c') \<and> entryId e = eid \<and>
        acConfig c' = acConfig c \<and> acAdapt c' = acAdapt c \<and> acActiveCost c' = acActiveCost c \<and>
        leaseSeq c' = leaseSeq c \<and> acShutDown c' = acShutDown c"
proof -
  note ok = controller_okD [OF assms(1)]
  have w: "fq_wf (acQueue c)" using ok(6) by (simp add: queue_ok_def)
  obtain x q' where rm: "removeById (acQueue c) eid = (x, q')" by (cases "removeById (acQueue c) eid")
  show ?thesis
  proof (cases x)
    case (Some e)
    note s = removeById_Some_effect [OF w rm [unfolded Some]]
    have c': "r = Some e" "c' = c\<lparr>acQueue := q'\<rparr>"
      using assms(2) rm Some by (auto simp: take_queued_def)
    have p: "promises c = add_mset eid (promises c')"
      using s by (simp add: c' promises_def queued_ids_def)
    then have "ids_ok (promises c') (leaseSeq c)" using ok(8) by (metis ids_ok_remove)
    with s assms(1) c' p show ?thesis by (simp add: controller_ok_def queue_ok_def)
  next
    case None
    note n = removeById_None_effect [OF w rm [unfolded None]]
    obtain y ls where lr: "lanes_remove eid (acLanes c) = (y, ls)" by (cases "lanes_remove eid (acLanes c)")
    note le = lanes_remove_effect [OF ok(7) lr]
    have nq: "eid \<notin># queued_ids (acQueue c)" using n by (auto simp: queued_ids_def)
    show ?thesis
    proof (cases y)
      case None
      with le lr rm n \<open>x = None\<close> assms(2) nq show ?thesis by (auto simp: take_queued_def)
    next
      case (Some e)
      let ?c1 = "c\<lparr>acLanes := ls\<rparr>"
      have c': "r = Some e" "c' = removeEmptyLane (tenantKey e) ?c1"
        using assms(2) rm \<open>x = None\<close> lr Some n by (auto simp: take_queued_def)
      have p: "promises c = add_mset eid (promises ?c1)"
        using le Some by (simp add: promises_def)
      then have "ids_ok (promises ?c1) (leaseSeq c)" using ok(8) by (metis ids_ok_remove)
      then have "controller_ok ?c1"
        using le Some assms(1) by (intro controller_ok_lanes) (simp_all add: promises_def)
      from removeEmptyLane_effect [OF this, of "tenantKey e"] p le Some c' show ?thesis by simp
    qed
  qed
qed

lemma expireEntry_effect:
  assumes "controller_ok c"
  shows "controller_ok (expireEntry now eid code c) \<and>
    promises (expireEntry now eid code c) = promises c \<and>
    acConfig (expireEntry now eid code c) = acConfig c \<and>
    acShutDown (expireEntry now eid code c) = acShutDown c \<and>
    currentLimit (acAdapt (expireEntry now eid code c)) = currentLimit (acAdapt c) \<and>
    acActiveCost (expireEntry now eid code c) \<le> max (acActiveCost c) (currentLimit (acAdapt c))"
proof -
  obtain r c1 where t: "take_queued eid c = (r, c1)" by (cases "take_queued eid c")
  note e = take_queued_effect [OF assms t]
  show ?thesis
  proof (cases r)
    case None
    with t e assms show ?thesis by (simp add: expireEntry_def)
  next
    case (Some x)
    with e have i: "ids_ok (add_mset (entryId x) (promises c1)) (leaseSeq c1)"
      using controller_okD(8) [OF assms] by simp
    have c1: "controller_ok c1" using e Some by simp
    note f = failQueued_effect [OF c1 i, of code]
    from dispatch_effect [OF f(1), of now] f(2) e t Some show ?thesis
      by (simp add: expireEntry_def)
  qed
qed

section \<open>Acquire\<close>

lemma controller_ok_adapt:
  "controller_ok c \<Longrightarrow> adapt_ok (adaptation (acConfig c)) a \<Longrightarrow> controller_ok (c\<lparr>acAdapt := a\<rparr>)"
  by (simp add: controller_ok_def)

lemma admitVirtual_effect:
  assumes "controller_ok c"
  shows "controller_ok (snd (admitVirtual cost c))" "promises (snd (admitVirtual cost c)) = promises c"
    "acConfig (snd (admitVirtual cost c)) = acConfig c" "acShutDown (snd (admitVirtual cost c)) = acShutDown c"
    "acActiveCost (snd (admitVirtual cost c)) = acActiveCost c"
    "acAdapt (snd (admitVirtual cost c)) = acAdapt c" "issued (Inr (fst (admitVirtual cost c))) = {#}"
  using controller_ok_seq [OF assms, of "Suc (leaseSeq c)"]
  by (simp_all add: admitVirtual_def nextId_def)

lemma acquireShadow_frame:
  "acConfig (snd (acquireShadow now r cost limit c)) = acConfig c"
  "acShutDown (snd (acquireShadow now r cost limit c)) = acShutDown c"
  "issued (Inr (fst (acquireShadow now r cost limit c))) = {#}"
  by (simp_all add: acquireShadow_def case_prod_unfold Let_def)

text \<open>
  A call of \<open>acquire\<close>: the invariant, the promise it issues, and, when admission is enforced,
  the active cost within the larger of what it was and \<open>maxLimit\<close>.
\<close>

definition acquire_post ::
  "admission_controller \<Rightarrow> (range_error + acquire_result) \<times> admission_controller \<Rightarrow> bool" where
  "acquire_post c out \<longleftrightarrow>
     controller_ok (snd out) \<and> promises (snd out) = promises c + issued (fst out) \<and>
     acConfig (snd out) = acConfig c \<and> acShutDown (snd out) = acShutDown c \<and>
     (mode (acConfig c) = Enforce \<longrightarrow>
        acActiveCost (snd out) \<le> max (acActiveCost c) (maxLimit (acConfig c)))"

lemma solo_active:
  assumes "controller_ok c" "shouldAdmitSolo cost c"
  shows "acActiveCost c = 0" "cost \<le> maxLimit (acConfig c)"
  using assms controller_okD(3) [OF assms(1)] by (simp_all add: shouldAdmitSolo_def leases_ok_def)

lemma reject_with_post: "controller_ok c \<Longrightarrow> acquire_post c (reject_with code c)"
  by (simp add: acquire_post_def reject_with_def reject_acquire_def)

lemma admit_now_post:
  "controller_ok c \<Longrightarrow> 0 < cost \<Longrightarrow> acActiveCost c + cost \<le> max (acActiveCost c) (maxLimit (acConfig c)) \<Longrightarrow>
   acquire_post c (admit_now now cost c)"
  by (auto simp: acquire_post_def admit_now_def case_prod_unfold controller_ok_admit le_max_iff_disj)

lemma acquire_enforce_post:
  assumes "controller_ok c" "0 < cost"
  shows "acquire_post c (acquire_enforce now r cost c)"
proof -
  note ok = controller_okD [OF assms(1)]
  note lim = config_bounds(2) [OF ok(1,2)]
  show ?thesis
  proof (cases "cost > currentLimit (acAdapt c)")
    case True
    show ?thesis
    proof (cases "shouldAdmitSolo cost c")
      case solo: True
      with True assms solo_active [OF assms(1) solo] show ?thesis
        by (auto simp: acquire_enforce_def intro!: admit_now_post)
    next
      case False
      with True assms(1) show ?thesis by (simp add: acquire_enforce_def reject_with_post)
    qed
  next
    case False
    consider (fast) "fq_size (acQueue c) = 0 \<and> acActiveCost c + cost \<le> currentLimit (acAdapt c)"
      | (full) "\<not> (fq_size (acQueue c) = 0 \<and> acActiveCost c + cost \<le> currentLimit (acAdapt c))"
        "\<not> canAccept (acQueue c) cost"
      | (queue) "\<not> (fq_size (acQueue c) = 0 \<and> acActiveCost c + cost \<le> currentLimit (acAdapt c))"
        "canAccept (acQueue c) cost" by blast
    then show ?thesis
    proof cases
      case fast
      with False assms lim show ?thesis by (auto simp: acquire_enforce_def intro!: admit_now_post)
    next
      case full
      with False assms(1) show ?thesis by (auto simp: acquire_enforce_def reject_with_post)
    next
      case queue
      obtain res c' where e: "enqueue_request now r cost c = (res, c')"
        by (cases "enqueue_request now r cost c")
      from enqueue_request_effect [OF assms(1) e] lim have "acquire_post c (res, c')"
        by (auto simp: acquire_post_def)
      with False queue e show ?thesis by (auto simp: acquire_enforce_def)
    qed
  qed
qed

lemma acquire_post_pressure:
  assumes "acquire_post c1 out" "promises c1 = promises c" "acConfig c1 = acConfig c"
    "acShutDown c1 = acShutDown c" "acActiveCost c1 = acActiveCost c"
  shows "acquire_post c out"
  using assms by (simp add: acquire_post_def)

lemma acquire_effect:
  assumes "controller_ok c"
  shows "acquire_post c (acquire now r c)"
proof (cases "acShutDown c \<or> (case reqSignal r of None \<Rightarrow> False | Some sig \<Rightarrow> sig \<in> set (acAborted c))")
  case True
  then show ?thesis
    using reject_with_post [OF assms] by (cases "acShutDown c") (simp_all add: acquire_def)
next
  case False
  define c1 where "c1 = (case reqPressure r of None \<Rightarrow> c
      | Some p \<Rightarrow> c\<lparr>acAdapt := setPressure (acAdapt c) p\<rparr>)"
  note ok = controller_okD [OF assms]
  have c1: "controller_ok c1" "promises c1 = promises c" "acConfig c1 = acConfig c"
    "acShutDown c1 = acShutDown c" "acActiveCost c1 = acActiveCost c"
    using assms ok(2)
    by (simp_all add: c1_def controller_ok_adapt setPressure_ok split: option.split)
  have eq: "acquire now r c = (case resolveCost c1 r of
          Inl err \<Rightarrow> (Inl err, c1)
        | Inr cost \<Rightarrow>
            if mode (acConfig c1) = Off
            then (case admitVirtual cost c1 of (res, c) \<Rightarrow> (Inr res, c))
            else if mode (acConfig c1) = Shadow
            then (case acquireShadow now r cost (currentLimit (acAdapt c1)) c1 of (res, c) \<Rightarrow> (Inr res, c))
            else acquire_enforce now r cost c1)"
    using False unfolding acquire_def Let_def c1_def [symmetric] by auto
  have "acquire_post c1 (acquire now r c)"
  proof (cases "resolveCost c1 r")
    case (Inl err)
    with c1(1) show ?thesis by (simp add: eq acquire_post_def)
  next
    case (Inr cost)
    note b = resolveCost_bounds [OF controller_okD(1) [OF c1(1)] Inr]
    show ?thesis
    proof (cases "mode (acConfig c1)")
      case Off
      with Inr admitVirtual_effect [OF c1(1), of cost] show ?thesis
        by (simp add: eq acquire_post_def case_prod_unfold)
    next
      case Shadow
      with Inr acquireShadow_effect [OF c1(1) b(1), of now r] show ?thesis
        by (simp add: eq acquire_post_def case_prod_unfold acquireShadow_frame)
    next
      case Enforce
      with Inr acquire_enforce_post [OF c1(1) b(1)] show ?thesis by (simp add: eq)
    qed
  qed
  then show ?thesis by (rule acquire_post_pressure) (rule c1)+
qed

section \<open>Operations that hand out no promise\<close>

definition quiet_post :: "admission_controller \<Rightarrow> admission_controller \<Rightarrow> bool" where
  "quiet_post c c' \<longleftrightarrow>
     controller_ok c' \<and> promises c' = promises c \<and> acConfig c' = acConfig c \<and>
     acActiveCost c' \<le> max (acActiveCost c) (maxLimit (acConfig c))"

lemma quiet_refl: "controller_ok c \<Longrightarrow> quiet_post c c"
  by (simp add: quiet_post_def)

lemma quiet_trans [trans]: "quiet_post a b \<Longrightarrow> quiet_post b c \<Longrightarrow> quiet_post a c"
  by (auto simp: quiet_post_def)

lemma quiet_ok: "quiet_post c c' \<Longrightarrow> controller_ok c'"
  by (simp add: quiet_post_def)

lemma quiet_dispatch: "controller_ok c \<Longrightarrow> quiet_post c (dispatch now c)"
  using dispatch_effect [of c now] config_bounds(2) [OF controller_okD(1,2), of c]
  by (auto simp: quiet_post_def)

lemma quiet_dispatchVirtual: "controller_ok c \<Longrightarrow> quiet_post c (dispatchVirtual c)"
  using dispatchVirtual_effect [of c] dispatchVirtual_frame [of c] by (simp add: quiet_post_def)

lemma quiet_adapt:
  "controller_ok c \<Longrightarrow> adapt_ok (adaptation (acConfig c)) a \<Longrightarrow> quiet_post c (c\<lparr>acAdapt := a\<rparr>)"
  by (simp add: quiet_post_def controller_ok_adapt)

lemma quiet_sample: "controller_ok c \<Longrightarrow> quiet_post c (sampleIntegral now c)"
  using sampleIntegral_ok [of c now] by (simp add: quiet_post_def controller_ok_def promises_def)

lemma quiet_evict: "controller_ok c \<Longrightarrow> quiet_post c (evictIdleLanes now c)"
  using evictIdleLanes_effect [of c now] by (simp add: quiet_post_def)

lemma quiet_expire: "controller_ok c \<Longrightarrow> quiet_post c (expireEntry now eid code c)"
  using expireEntry_effect [of c now eid code] config_bounds(2) [OF controller_okD(1,2), of c]
  by (auto simp: quiet_post_def)

lemma quiet_free:
  "controller_ok c \<Longrightarrow> quiet_post c (c\<lparr>acTimers := t\<rparr>)"
  "controller_ok c \<Longrightarrow> quiet_post c (c\<lparr>acListeners := ls\<rparr>)"
  "controller_ok c \<Longrightarrow> quiet_post c (c\<lparr>acAborted := ab\<rparr>)"
  "controller_ok c \<Longrightarrow> quiet_post c (c\<lparr>windowTimer := w\<rparr>)"
  by (simp_all add: quiet_post_def)

lemma tick_post:
  assumes "controller_ok c"
  shows "quiet_post c (tick now c)"
proof -
  let ?c1 = "evictIdleLanes now (sampleIntegral now c)"
  have c1: "quiet_post c ?c1"
    using quiet_sample [OF assms] quiet_evict quiet_ok quiet_trans by blast
  note ok = controller_okD [OF quiet_ok [OF c1]]
  let ?c2 = "?c1\<lparr>acAdapt := closeAdaptationWindow (acAdapt ?c1) (adaptation (acConfig ?c1)) now\<rparr>"
  have "quiet_post ?c1 ?c2"
    using ok(1,2) by (intro quiet_adapt [OF quiet_ok [OF c1]] closeAdaptationWindow_ok)
      (simp_all add: config_ok_def)
  with c1 have "quiet_post c ?c2" by (rule quiet_trans)
  also have "quiet_post ?c2 (dispatch now ?c2)" using quiet_dispatch quiet_ok calculation by blast
  also have "quiet_post (dispatch now ?c2) (dispatchVirtual (dispatch now ?c2))"
    using quiet_dispatchVirtual quiet_ok calculation by blast
  finally show ?thesis by (simp add: tick_def Let_def)
qed

lemma critical_limit_ok:
  assumes "config_ok cfg" "adapt_ok (adaptation cfg) a"
  shows "adapt_ok (adaptation cfg) (a\<lparr>currentLimit := max (minLimit cfg)
      (scaleLimit (currentLimit a) (criticalDecreaseFactor (adaptation cfg))), criticalDecreaseConsumed := True\<rparr>)"
proof -
  have f: "0 \<le> criticalDecreaseFactor (adaptation cfg)" "criticalDecreaseFactor (adaptation cfg) \<le> 1"
    using assms(1) by (simp_all add: config_ok_def params_ok_def)
  have "0 \<le> currentLimit a" using config_bounds(1) [OF assms] by simp
  note le = floor_mult_le [OF f this]
  have "minLimit cfg \<le> maxLimit cfg" using config_bounds(2,3) [OF assms] by simp
  with le config_bounds(2) [OF assms] assms show ?thesis
    by (simp add: adapt_ok_def config_ok_def scaleLimit_def)
qed

lemma observePressure_post:
  assumes "controller_ok c"
  shows "quiet_post c (observePressure now p c)"
proof -
  note ok = controller_okD [OF assms]
  let ?c1 = "c\<lparr>acAdapt := setPressure (acAdapt c) p\<rparr>"
  have c1: "quiet_post c ?c1" by (intro quiet_adapt assms setPressure_ok ok(2))
  show ?thesis
  proof (cases "p = Critical \<and> \<not> criticalDecreaseConsumed (acAdapt ?c1)")
    case False
    with c1 show ?thesis by (auto simp: observePressure_def Let_def)
  next
    case True
    define a where "a = (acAdapt ?c1)\<lparr>currentLimit := max (minLimit (acConfig ?c1))
        (scaleLimit (currentLimit (acAdapt ?c1)) (criticalDecreaseFactor (adaptation (acConfig ?c1)))),
        criticalDecreaseConsumed := True\<rparr>"
    let ?c2 = "?c1\<lparr>acAdapt := a\<rparr>"
    have "quiet_post ?c1 ?c2"
      unfolding a_def
      by (rule quiet_adapt [OF quiet_ok [OF c1] critical_limit_ok [OF controller_okD(1,2) [OF quiet_ok [OF c1]]]])
    with c1 have "quiet_post c ?c2" by (rule quiet_trans)
    also have "quiet_post ?c2 (dispatch now ?c2)" using quiet_dispatch quiet_ok calculation by blast
    also have "quiet_post (dispatch now ?c2) (dispatchVirtual (dispatch now ?c2))"
      using quiet_dispatchVirtual quiet_ok calculation by blast
    finally show ?thesis using True by (auto simp: observePressure_def Let_def a_def)
  qed
qed

lemma window_timer_post:
  assumes "controller_ok c"
  shows "quiet_post c (window_timer_fires now c)"
  using tick_post [OF assms, of now] quiet_free(4) [OF quiet_ok [OF tick_post [OF assms, of now]]]
  by (auto simp: window_timer_fires_def Let_def intro: quiet_trans)

lemma entry_timer_post:
  assumes "controller_ok c"
  shows "quiet_post c (entry_timer_fires now eid c)"
proof -
  have "quiet_post c (expireEntry now eid ADMISSION_DEADLINE (c\<lparr>acTimers := js_delete eid (acTimers c)\<rparr>))"
    using quiet_free(1) [OF assms] quiet_expire quiet_ok quiet_trans by blast
  with assms show ?thesis
    by (simp add: entry_timer_fires_def quiet_refl split: option.split)
qed

lemma run_listener_post:
  assumes "controller_ok c"
  shows "quiet_post c (run_listener now eid c)"
proof -
  have "quiet_post c (expireEntry now eid ADMISSION_ABORTED (c\<lparr>acListeners := js_delete eid (acListeners c)\<rparr>))"
    using quiet_free(2) [OF assms] quiet_expire quiet_ok quiet_trans by blast
  with assms show ?thesis by (simp add: run_listener_def quiet_refl)
qed

lemma run_listeners_post: "controller_ok c \<Longrightarrow> quiet_post c (fold (run_listener now) ids c)"
proof (induction ids arbitrary: c)
  case Nil
  then show ?case by (simp add: quiet_refl)
next
  case (Cons i ids)
  note r = run_listener_post [OF Cons.prems, of now i]
  from quiet_trans [OF r Cons.IH [OF quiet_ok [OF r]]] show ?case by simp
qed

lemma abort_post:
  assumes "controller_ok c"
  shows "quiet_post c (abort_signal now sig c)"
proof -
  have "quiet_post c (c\<lparr>acAborted := sig # acAborted c\<rparr>)" by (rule quiet_free(3) [OF assms])
  from quiet_trans [OF this run_listeners_post [OF quiet_ok [OF this]]] assms show ?thesis
    by (simp add: abort_signal_def quiet_refl)
qed

lemma release_post:
  assumes "controller_ok c"
  shows "quiet_post c (releaseLease now i outcome meta c)"
proof (cases "\<exists>r. acRecords c i = Some r \<and> \<not> lrReleased r")
  case False
  with assms show ?thesis by (auto simp: releaseLease_def quiet_refl split: option.split)
next
  case True
  then obtain r where r: "acRecords c i = Some r" "\<not> lrReleased r" by blast
  note ok = controller_okD [OF assms]
  note rel = leases_ok_release [OF ok(3) r]
  let ?c1 = "released now i r outcome meta c"
  have a: "adapt_ok (adaptation (acConfig c)) (acAdapt ?c1)"
    using feedback_ok sampleIntegral_ok [OF assms] ok(1) by (simp add: released_def config_ok_def)
  have v: "controller_ok (releaseVirtual i ?c1) \<and> promises (releaseVirtual i ?c1) = promises c"
    by (rule releaseVirtual_effect [OF assms r]) (use a in \<open>simp_all add: released_def\<close>)
  have fr: "acConfig (releaseVirtual i ?c1) = acConfig c"
    "acActiveCost (releaseVirtual i ?c1) = acActiveCost c - lrCost r"
    by (simp_all add: releaseVirtual_def released_def dispatchVirtual_frame Let_def
        split: VirtualDisposition.split)
  have "0 < lrCost r" using ok(3) r(1) by (simp add: leases_ok_def)
  with v fr have "quiet_post c (releaseVirtual i ?c1)" by (simp add: quiet_post_def)
  from quiet_trans [OF this quiet_dispatch [OF quiet_ok [OF this]]] show ?thesis
    by (simp add: releaseLease_unfold [OF r rel(1)])
qed

section \<open>Shutdown\<close>

lemma fold_failQueued_frame:
  "acShutDown (fold (\<lambda>e. failQueued e code) es c) = acShutDown c \<and>
   acConfig (fold (\<lambda>e. failQueued e code) es c) = acConfig c \<and>
   acQueue (fold (\<lambda>e. failQueued e code) es c) = acQueue c \<and>
   acLanes (fold (\<lambda>e. failQueued e code) es c) = acLanes c \<and>
   acActiveCost (fold (\<lambda>e. failQueued e code) es c) = acActiveCost c \<and>
   acActive (fold (\<lambda>e. failQueued e code) es c) = acActive c"
  by (induction es arbitrary: c) simp_all

lemma fold_failQueued_settled:
  "acSettled (fold (\<lambda>e. failQueued e code) es c) = acSettled c @ map (\<lambda>e. (entryId e, Reject code)) es"
  by (induction es arbitrary: c)
    (simp_all add: failQueued_def Let_def settle_def detachAbort_def clearEntryTimer_def)

text \<open>The controller with both queues empty, and the entries that were in them.\<close>

lemma emptied:
  assumes "controller_ok c" "queue_ok cfg q" "queued_ids q = {#}" "acConfig c = cfg"
  shows "controller_ok (c\<lparr>acQueue := q, acLanes := []\<rparr>)"
    "promises c = mset (map entryId (drain_all c)) + promises (c\<lparr>acQueue := q, acLanes := []\<rparr>)"
proof -
  note ok = controller_okD [OF assms(1)]
  show p: "promises c = mset (map entryId (drain_all c)) + promises (c\<lparr>acQueue := q, acLanes := []\<rparr>)"
    using drain_all_ids(1) [OF ok(6,7,1)] assms(3)
    by (simp add: promises_def lane_ids_def)
  have "ids_ok (promises (c\<lparr>acQueue := q, acLanes := []\<rparr>)) (leaseSeq c)"
    using ok(8) p ids_ok_part by metis
  with assms show "controller_ok (c\<lparr>acQueue := q, acLanes := []\<rparr>)"
    by (simp add: controller_ok_def lanes_ok_def)
qed

lemma shutdown_unfold:
  assumes "\<not> acShutDown c"
  shows "shutdown c = clearLaneEviction (fold (\<lambda>e. failQueued e ADMISSION_SHUTDOWN) (drain_all c)
    (c\<lparr>acShutDown := True, windowTimer := None, acQueue := snd (drain (acQueue c)), acLanes := []\<rparr>))"
  using assms by (simp add: shutdown_def Let_def drain_all_def fold_failQueued_lanes)

lemma shutdown_effect:
  assumes "controller_ok c"
  shows "quiet_post c (shutdown c)" "acShutDown (shutdown c)"
    "\<not> acShutDown c \<Longrightarrow> queued_ids (acQueue (shutdown c)) = {#} \<and> acLanes (shutdown c) = [] \<and>
       acSettled (shutdown c) = acSettled c @ map (\<lambda>e. (entryId e, Reject ADMISSION_SHUTDOWN)) (drain_all c)"
proof -
  have "quiet_post c (shutdown c) \<and> acShutDown (shutdown c) \<and>
      (\<not> acShutDown c \<longrightarrow> queued_ids (acQueue (shutdown c)) = {#} \<and> acLanes (shutdown c) = [] \<and>
       acSettled (shutdown c) = acSettled c @ map (\<lambda>e. (entryId e, Reject ADMISSION_SHUTDOWN)) (drain_all c))"
  proof (cases "acShutDown c")
    case True
    with assms show ?thesis by (simp add: shutdown_def quiet_refl)
  next
    case False
    note ok = controller_okD [OF assms]
    let ?q = "snd (drain (acQueue c))" and ?es = "drain_all c"
    let ?c1 = "c\<lparr>acQueue := ?q, acLanes := []\<rparr>"
    let ?c2 = "c\<lparr>acShutDown := True, windowTimer := None, acQueue := ?q, acLanes := []\<rparr>"
    note e = emptied [OF assms drain_ids(3,4) [OF ok(6,1)] refl]
    have c2: "controller_ok ?c2" using e(1) by (simp add: controller_ok_def promises_def)
    have p: "promises ?c2 = promises ?c1" by (simp add: promises_def)
    have "ids_ok (mset (map entryId ?es) + promises ?c2) (leaseSeq ?c2)"
      using ok(8) e(2) p by simp
    from fold_failQueued_effect [OF c2 this, of ADMISSION_SHUTDOWN] e(2) p
      fold_failQueued_frame [of ADMISSION_SHUTDOWN ?es ?c2] drain_ids(4) [OF ok(6,1)] False
      fold_failQueued_settled [of ADMISSION_SHUTDOWN ?es ?c2]
    show ?thesis
      by (simp add: shutdown_unfold quiet_post_def) (simp add: clearLaneEviction_def)
  qed
  then show "quiet_post c (shutdown c)" "acShutDown (shutdown c)"
    "\<not> acShutDown c \<Longrightarrow> queued_ids (acQueue (shutdown c)) = {#} \<and> acLanes (shutdown c) = [] \<and>
       acSettled (shutdown c) = acSettled c @ map (\<lambda>e. (entryId e, Reject ADMISSION_SHUTDOWN)) (drain_all c)"
    by simp_all
qed


section \<open>Configuration updates\<close>

text \<open>Wiping every disposition, then assigning them one active lease at a time.\<close>

lemma fold_wipe:
  "acRecords (fold (\<lambda>i. set_disposition i VNone) ks c) = fold (\<lambda>i R. redispose R i VNone) ks (acRecords c) \<and>
   acConfig (fold (\<lambda>i. set_disposition i VNone) ks c) = acConfig c \<and>
   acAdapt (fold (\<lambda>i. set_disposition i VNone) ks c) = acAdapt c \<and>
   acQueue (fold (\<lambda>i. set_disposition i VNone) ks c) = acQueue c \<and>
   acLanes (fold (\<lambda>i. set_disposition i VNone) ks c) = acLanes c \<and>
   acVirtualQueue (fold (\<lambda>i. set_disposition i VNone) ks c) = acVirtualQueue c \<and>
   acActive (fold (\<lambda>i. set_disposition i VNone) ks c) = acActive c \<and>
   acActiveCost (fold (\<lambda>i. set_disposition i VNone) ks c) = acActiveCost c \<and>
   acVirtualActiveCost (fold (\<lambda>i. set_disposition i VNone) ks c) = acVirtualActiveCost c \<and>
   acVirtualActiveCount (fold (\<lambda>i. set_disposition i VNone) ks c) = acVirtualActiveCount c \<and>
   leaseSeq (fold (\<lambda>i. set_disposition i VNone) ks c) = leaseSeq c \<and>
   acShutDown (fold (\<lambda>i. set_disposition i VNone) ks c) = acShutDown c \<and>
   promises (fold (\<lambda>i. set_disposition i VNone) ks c) = promises c"
  by (induction ks arbitrary: c) simp_all

lemma fold_redispose:
  "leases_ok R act t seq \<Longrightarrow>
   leases_ok (fold (\<lambda>i R. redispose R i VNone) ks R) act t seq \<and>
   lease_cost (fold (\<lambda>i R. redispose R i VNone) ks R) = lease_cost R \<and>
   (\<forall>j. j \<in> set ks \<or> disposition_of R j = VNone \<longrightarrow>
     disposition_of (fold (\<lambda>i R. redispose R i VNone) ks R) j = VNone)"
proof (induction ks arbitrary: R)
  case Nil
  then show ?case by simp
next
  case (Cons k ks)
  have "disposition_of (redispose R k VNone) j = VNone" if "j = k \<or> disposition_of R j = VNone" for j
    using that by (auto simp: disposition_of_redispose) (simp add: disposition_of_def)
  with Cons.IH [OF leases_ok_redispose [OF Cons.prems]] show ?case by simp
qed

lemma with_disposition_none:
  "(\<And>j. j \<in> set act \<Longrightarrow> disposition_of R j = VNone) \<Longrightarrow> d \<noteq> VNone \<Longrightarrow> with_disposition R act d = {#}"
  by (auto simp: with_disposition_def filter_mset_eq_conv)

lemma rebuild_record_effect:
  assumes "controller_ok c" "i \<in> set (acActive c)" "disposition_of (acRecords c) i = VNone"
  shows "controller_ok (rebuild_record i c) \<and> promises (rebuild_record i c) = promises c \<and>
    acActive (rebuild_record i c) = acActive c \<and> acConfig (rebuild_record i c) = acConfig c \<and>
    acAdapt (rebuild_record i c) = acAdapt c \<and> acActiveCost (rebuild_record i c) = acActiveCost c \<and>
    acShutDown (rebuild_record i c) = acShutDown c \<and>
    (\<forall>j. j \<noteq> i \<longrightarrow> disposition_of (acRecords (rebuild_record i c)) j = disposition_of (acRecords c) j)"
proof -
  note ok = controller_okD [OF assms(1)]
  let ?R = "acRecords c" and ?act = "acActive c"
  obtain r where r: "?R i = Some r" "\<not> lrReleased r" "lease_cost ?R i = lrCost r" "0 < lrCost r"
    using leases_ok_cost [OF ok(3) assms(2)] by auto
  have g: "get_active c i = Some r" using assms(2) r(1) by (simp add: get_active_def)
  have "virtual_ok ?R (filter (\<lambda>j. j \<noteq> i) ?act) (acVirtualQueue c) (acVirtualActiveCost c) (acVirtualActiveCount c)"
    using virtual_ok_retire(3) [OF ok(4,9) assms(2)] r assms(3) by simp
  then have base: "virtual_ok (redispose ?R i vd) (filter (\<lambda>j. j \<noteq> i) ?act) (acVirtualQueue c)
      (acVirtualActiveCost c) (acVirtualActiveCount c)" for vd
    by (rule virtual_ok_cong) (auto simp: disposition_of_redispose)
  note place = virtual_ok_place [OF base ok(9) assms(2), unfolded disposition_of_redispose lease_cost_redispose]
  note lift = controller_ok_virtual [OF assms(1) _ _ leases_ok_redispose [OF ok(3)]]
  let ?limit = "currentLimit (acAdapt c)"
  let ?e = "\<lparr>entryId = i, tenantKey = ''_existing'', entryCost = lrCost r,
             enqueuedAtMs = admittedAtMs r, deadlineMs = max_safe_integer, payload = i, skipCount = 0\<rparr>"
  let ?out = "rebuild_record i c"
  consider (rejected) "?out = set_disposition i VRejected c"
    | (active) "?out = (set_disposition i VActive c)
        \<lparr>acVirtualActiveCost := acVirtualActiveCost c + lrCost r,
         acVirtualActiveCount := acVirtualActiveCount c + 1\<rparr>" "acVirtualActiveCost c + lrCost r \<le> ?limit"
    | (queued) "?out = (set_disposition i VQueued c)\<lparr>acVirtualQueue := snd (enqueue (acVirtualQueue c) ?e)\<rparr>"
      "canAccept (acVirtualQueue c) (lrCost r)"
  proof (cases "lrCost r > ?limit")
    case True
    then show ?thesis using that(1) g by (simp add: rebuild_record_def)
  next
    case le: False
    show ?thesis
    proof (cases "lrCost r \<le> ?limit - acVirtualActiveCost c")
      case True
      then have b: "acVirtualActiveCost c + lrCost r \<le> MAX_ADMISSION_COST_OR_LIMIT" using ok(10) by simp
      then have c: "acVirtualActiveCount c + 1 \<le> MAX_ADMISSION_COST_OR_LIMIT"
        using virtual_ok_count [OF ok(4,3)] r(4) by simp
      show ?thesis
        using that(2) g True le addSaturated_exact [OF r(4) b] addSaturated_exact [OF _ c]
        by (simp add: rebuild_record_def)
    next
      case False
      then show ?thesis
        using that(1,3) g le enqueue_fst [of "acVirtualQueue c" ?e]
        by (cases "canAccept (acVirtualQueue c) (lrCost r)")
          (simp_all add: rebuild_record_def case_prod_unfold Let_def)
    qed
  qed
  then show ?thesis
  proof cases
    case rejected
    with lift [OF ok(5) place(3) [of VRejected], of ?out] r(1) show ?thesis
      by (simp add: disposition_of_redispose)
  next
    case active
    have v: "virtual_ok (redispose ?R i VActive) ?act (acVirtualQueue c)
        (acVirtualActiveCost c + lrCost r) (acVirtualActiveCount c + 1)"
      using place(1) [of VActive] active(2) ok(10) r by simp
    from lift [OF ok(5) v, of ?out] active r(1) show ?thesis by (simp add: disposition_of_redispose)
  next
    case queued
    note e = queue_ok_enqueue [OF ok(5), of ?e]
    have v: "virtual_ok (redispose ?R i VQueued) ?act (snd (enqueue (acVirtualQueue c) ?e))
        (acVirtualActiveCost c) (acVirtualActiveCount c)"
      using place(2) [of VQueued "snd (enqueue (acVirtualQueue c) ?e)" ?e] e(3) queued(2) r by simp
    have "queue_ok (acConfig c) (snd (enqueue (acVirtualQueue c) ?e))" using e(2) queued(2) by simp
    from lift [OF this v, of ?out] queued r(1) show ?thesis by (simp add: disposition_of_redispose)
  qed
qed

lemma fold_rebuild_effect:
  "controller_ok c \<Longrightarrow> distinct ks \<Longrightarrow> set ks \<subseteq> set (acActive c) \<Longrightarrow>
   (\<And>i. i \<in> set ks \<Longrightarrow> disposition_of (acRecords c) i = VNone) \<Longrightarrow>
   controller_ok (fold rebuild_record ks c) \<and> promises (fold rebuild_record ks c) = promises c \<and>
   acConfig (fold rebuild_record ks c) = acConfig c \<and> acAdapt (fold rebuild_record ks c) = acAdapt c \<and>
   acActiveCost (fold rebuild_record ks c) = acActiveCost c \<and>
   acShutDown (fold rebuild_record ks c) = acShutDown c"
proof (induction ks arbitrary: c)
  case Nil
  then show ?case by simp
next
  case (Cons k ks)
  note r = rebuild_record_effect [OF Cons.prems(1), of k]
  have k: "k \<in> set (acActive c)" "disposition_of (acRecords c) k = VNone"
    using Cons.prems(3,4) by simp_all
  have "disposition_of (acRecords (rebuild_record k c)) i = VNone" if "i \<in> set ks" for i
  proof -
    have "i \<noteq> k" using that Cons.prems(2) by auto
    then show ?thesis using r [OF k] Cons.prems(4) [of i] that by simp
  qed
  with Cons.IH [of "rebuild_record k c"] r [OF k] Cons.prems(2,3) show ?case by simp
qed

lemma rebuildVirtualState_effect:
  assumes "ledger_ok c"
  shows "controller_ok (rebuildVirtualState enable c) \<and>
    promises (rebuildVirtualState enable c) = promises c \<and>
    acConfig (rebuildVirtualState enable c) = acConfig c \<and>
    acAdapt (rebuildVirtualState enable c) = acAdapt c \<and>
    acActiveCost (rebuildVirtualState enable c) = acActiveCost c \<and>
    acShutDown (rebuildVirtualState enable c) = acShutDown c"
proof -
  note ok = ledger_okD [OF assms]
  let ?q = "new_queue (maxQueueCount (acConfig c)) (maxQueueCost (acConfig c))"
  define c1 where "c1 = c\<lparr>acVirtualQueue := ?q, acVirtualActiveCost := 0, acVirtualActiveCount := 0\<rparr>"
  define c2 where "c2 = fold (\<lambda>i. set_disposition i VNone) (acActive c1) c1"
  note f = fold_wipe [of "acActive c1" c1, folded c2_def]
  note d = fold_redispose [OF ok(4), of "acActive c1"]
  have none: "disposition_of (acRecords c2) j = VNone" if "j \<in> set (acActive c)" for j
    using that f d by (simp add: c1_def)
  have w: "with_disposition (acRecords c2) (acActive c) VActive = {#}"
    "with_disposition (acRecords c2) (acActive c) VQueued = {#}"
    using none by (simp_all add: with_disposition_none)
  then have "virtual_ok (acRecords c2) (acActive c2) (acVirtualQueue c2)
      (acVirtualActiveCost c2) (acVirtualActiveCount c2)"
    using f by (simp add: virtual_ok_def c1_def MAX_ADMISSION_COST_OR_LIMIT_eq)
  moreover have "promises c1 = promises c" by (simp add: c1_def promises_def)
  ultimately have c2: "controller_ok c2 \<and> promises c2 = promises c"
    using f d assms queue_ok_new [OF ok(1)]
    by (simp add: controller_ok_ledger ledger_ok_def c1_def)
  have eq: "rebuildVirtualState enable c = (if enable then fold rebuild_record (acActive c2) c2 else c2)"
    by (simp add: rebuildVirtualState_def c1_def c2_def Let_def)
  have "acActive c2 = acActive c" using f by (simp add: c1_def)
  with fold_rebuild_effect [of c2 "acActive c2"] c2 none ok(8) f show ?thesis
    by (simp add: eq c1_def)
qed

lemma requeue_entry_effect:
  assumes "ledger_ok c" "0 < entryCost e" "skipCount e = 0"
    "ids_ok (add_mset (entryId e) (promises c)) (leaseSeq c)"
  shows "ledger_ok (requeue_entry now e c) \<and>
    promises (requeue_entry now e c) = add_mset (entryId e) (promises c) \<and>
    acConfig (requeue_entry now e c) = acConfig c \<and>
    leaseSeq c \<le> leaseSeq (requeue_entry now e c) \<and>
    acShutDown (requeue_entry now e c) = acShutDown c"
proof -
  note ok = ledger_okD [OF assms(1)]
  have fail: "ledger_ok (failQueued e code c) \<and>
      promises (failQueued e code c) = add_mset (entryId e) (promises c)" for code
    using failQueued_ledger [OF assms(1,4)] by simp
  consider (admit) "mode (acConfig c) \<noteq> Enforce"
    | (oversized) "mode (acConfig c) = Enforce" "entryCost e > currentLimit (acAdapt c)"
    | (queue) "mode (acConfig c) = Enforce" "\<not> entryCost e > currentLimit (acAdapt c)" by blast
  then show ?thesis
  proof cases
    case admit
    let ?c = "detachAbort (entryId e) (clearEntryTimer (entryId e) c)"
    have eq: "requeue_entry now e c = settle (entryId e)
        (Resolve (make_id ''lease'' (Suc (leaseSeq c)))) (snd (admit now (entryCost e) VNone ?c))"
      using admit by (simp add: requeue_entry_def case_prod_unfold Let_def)
    have "ledger_ok (snd (admit now (entryCost e) VNone ?c))"
      using assms(1,2) by (intro ledger_ok_admit) simp_all
    moreover have "ids_ok (add_mset (entryId e) (promises c)) (Suc (leaseSeq c))"
      using assms(4) by (rule ids_ok_mono) simp
    ultimately show ?thesis
      unfolding eq by (intro conjI ledger_ok_settle)
        (simp_all add: settle_def clearEntryTimer_def detachAbort_def promises_def)
  next
    case oversized
    with fail show ?thesis by (simp add: requeue_entry_def)
  next
    case queue
    show ?thesis
    proof (cases "canAccept (acQueue c) (entryCost e)")
      case True
      note q = queue_ok_enqueue [OF ok(5) True assms(3)]
      have eq: "requeue_entry now e c = c\<lparr>acQueue := snd (enqueue (acQueue c) e)\<rparr>"
        using queue q(1) by (simp add: requeue_entry_def case_prod_unfold Let_def)
      have p: "promises (c\<lparr>acQueue := snd (enqueue (acQueue c) e)\<rparr>) = add_mset (entryId e) (promises c)"
        using q(3) by (simp add: promises_def queued_ids_def)
      with q(2) assms(1,4) show ?thesis by (simp add: eq ledger_ok_def)
    next
      case False
      with queue fail show ?thesis by (simp add: requeue_entry_def enqueue_reject)
    qed
  qed
qed

lemma fold_requeue_effect:
  "ledger_ok c \<Longrightarrow> (\<And>e. e \<in> set es \<Longrightarrow> 0 < entryCost e \<and> skipCount e = 0) \<Longrightarrow>
   ids_ok (mset (map entryId es) + promises c) (leaseSeq c) \<Longrightarrow>
   ledger_ok (fold (requeue_entry now) es c) \<and>
   promises (fold (requeue_entry now) es c) = mset (map entryId es) + promises c \<and>
   acConfig (fold (requeue_entry now) es c) = acConfig c \<and>
   acShutDown (fold (requeue_entry now) es c) = acShutDown c"
proof (induction es arbitrary: c)
  case Nil
  then show ?case by simp
next
  case (Cons e es)
  have i: "ids_ok (add_mset (entryId e) (promises c)) (leaseSeq c)"
    using Cons.prems(3) ids_ok_part [of "mset (map entryId es)"] by simp
  have e: "0 < entryCost e" "skipCount e = 0" using Cons.prems(2) by simp_all
  note r = requeue_entry_effect [OF Cons.prems(1) e i, of now]
  have "ids_ok (mset (map entryId es) + promises (requeue_entry now e c)) (leaseSeq (requeue_entry now e c))"
    using ids_ok_mono [OF Cons.prems(3), of "leaseSeq (requeue_entry now e c)"] r by simp
  with Cons.IH [of "requeue_entry now e c"] r Cons.prems(2) show ?case by simp
qed

lemma reset_adaptation_ok:
  assumes "config_ok nxt" "adapt_ok p a"
  shows "adapt_ok (adaptation nxt) (reset_adaptation now nxt a)"
proof -
  have "minLimit nxt \<le> maxLimit nxt" using assms(1) by (simp add: config_ok_def params_ok_def)
  with clampLimit_range [of "minLimit nxt" "maxLimit nxt"] assms show ?thesis
    by (simp add: adapt_ok_def reset_adaptation_def config_ok_def max_safe_integer_def)
qed

lemma updateConfig_effect:
  assumes "controller_ok c" "updateConfig now input c = (res, c')"
  shows "controller_ok c'" "promises c' = promises c" "acShutDown c' = acShutDown c"
    "case res of Inl err \<Rightarrow> c' = c | Inr u \<Rightarrow> validateConfig input = Inr (acConfig c')"
proof -
  have "controller_ok c' \<and> promises c' = promises c \<and> acShutDown c' = acShutDown c \<and>
    (case res of Inl err \<Rightarrow> c' = c | Inr u \<Rightarrow> validateConfig input = Inr (acConfig c'))"
  proof (cases "validateConfig input")
    case (Inl err)
    with assms show ?thesis by (auto simp: updateConfig_def)
  next
    case (Inr nxt)
    note ok = controller_okD [OF assms(1)]
    have nxt: "config_ok nxt" by (rule validateConfig_ok [OF Inr])
    let ?q = "new_queue (maxQueueCount nxt) (maxQueueCost nxt)"
    define c1 where "c1 = (sampleIntegral now c)\<lparr>acConfig := nxt,
        acAdapt := reset_adaptation now nxt (acAdapt (sampleIntegral now c)), acLastSampleMs := now\<rparr>"
    define c2 where "c2 = c1\<lparr>acQueue := ?q, acLanes := []\<rparr>"
    define c3 where "c3 = fold (requeue_entry now) (drain_all c) (clearLaneEviction c2)"
    have es: "drain_all c1 = drain_all c" by (simp add: drain_all_def c1_def)
    note d = drain_all_ids [OF ok(6,7,1)]
    have p: "promises c = mset (map entryId (drain_all c)) + promises c2"
      using d(1) by (simp add: promises_def c2_def c1_def lane_ids_def queued_ids_def)
    have i: "ids_ok (mset (map entryId (drain_all c)) + promises c2) (leaseSeq c2)"
      using ok(8) p by (simp add: c2_def c1_def)
    have "ledger_ok c2"
      using ids_ok_part [OF i] ok(3) nxt queue_ok_new [OF nxt] reset_adaptation_ok [OF nxt sampleIntegral_ok [OF assms(1)]]
      by (simp add: ledger_ok_def c2_def c1_def lanes_ok_def)
    then have c3: "ledger_ok c3 \<and> promises c3 = promises c \<and> acConfig c3 = nxt \<and> acShutDown c3 = acShutDown c"
      using fold_requeue_effect [of "clearLaneEviction c2" "drain_all c" now] d(2) i p
      by (simp add: c3_def c2_def c1_def)
    define c4 where "c4 = armWindowTimer now (rebuildVirtualState (mode nxt = Shadow) c3)"
    have fin: "res = Inr ()" "c' = (if mode nxt = Enforce then dispatch now c4 else c4)"
      using assms(2) Inr
      by (auto simp: updateConfig_def Let_def c4_def c3_def c2_def c1_def drain_all_def)
    have c4: "controller_ok c4" "promises c4 = promises c" "acConfig c4 = nxt" "acShutDown c4 = acShutDown c"
      using rebuildVirtualState_effect [of c3 "mode nxt = Shadow"] c3
      by (simp_all add: c4_def armWindowTimer_def)
    with fin Inr dispatch_effect [OF c4(1), of now] show ?thesis by simp
  qed
  then show "controller_ok c'" "promises c' = promises c" "acShutDown c' = acShutDown c"
    "case res of Inl err \<Rightarrow> c' = c | Inr u \<Rightarrow> validateConfig input = Inr (acConfig c')" by simp_all
qed


section \<open>Runs\<close>

lemma new_controller_ok:
  assumes "new_controller now input = Inr c"
  shows "controller_ok c" "promises c = {#}" "acActiveCost c = 0"
proof -
  obtain cfg where cfg: "validateConfig input = Inr cfg"
    and c: "c = armWindowTimer now
         \<lparr>acConfig = cfg,
          acAdapt = createAdaptationState (initialLimit cfg) (minLimit cfg) (maxLimit cfg) now,
          acQueue = new_queue (maxQueueCount cfg) (maxQueueCost cfg),
          acVirtualQueue = new_queue (maxQueueCount cfg) (maxQueueCost cfg),
          acLanes = [], laneEvictionTimer = None, acRecords = (\<lambda>_. None), acActive = [],
          acActiveCost = 0, acVirtualActiveCost = 0, acVirtualActiveCount = 0,
          acLastSampleMs = now, windowTimer = None, acShutDown = False,
          admittedCount = 0, rejectedCount = 0, wouldAdmitCount = 0, wouldQueueCount = 0,
          wouldRejectCount = 0, leaseSeq = 0, acSettled = [], acTimers = [], acListeners = [],
          acAborted = []\<rparr>"
    using assms unfolding new_controller_def by (auto simp: and_then_eq_Inr)
  note ok = validateConfig_ok [OF cfg]
  have a: "adapt_ok (adaptation cfg) (createAdaptationState (initialLimit cfg) (minLimit cfg) (maxLimit cfg) now)"
    using createAdaptationState_ok [of "adaptation cfg" "initialLimit cfg" now] ok
    by (simp add: config_ok_def)
  show "promises c = {#}"
    unfolding c free_ops by (simp add: promises_def queued_ids_def lane_ids_def)
  show "acActiveCost c = 0" by (simp add: c armWindowTimer_def)
  show "controller_ok c"
    using ok a
    unfolding c free_ops
    by (simp add: queue_ok_new [OF ok] controller_ok_def lanes_ok_def leases_ok_def virtual_ok_def with_disposition_def
        ids_ok_def promises_def queued_ids_def lane_ids_def MAX_ADMISSION_COST_OR_LIMIT_eq)
qed

lemma controller_step_ok:
  assumes "controller_ok c"
  shows "controller_ok (controller_step c ev)"
proof -
  obtain now e where ev: "ev = (now, e)" by (cases ev)
  show ?thesis
  proof (cases e)
    case (Ev_acquire r)
    with acquire_effect [OF assms, of now r] show ?thesis by (simp add: ev acquire_post_def)
  next
    case (Ev_release i out meta)
    with release_post [OF assms] show ?thesis by (simp add: ev quiet_post_def)
  next
    case (Ev_pressure p)
    with observePressure_post [OF assms] show ?thesis by (simp add: ev quiet_post_def)
  next
    case Ev_tick
    with tick_post [OF assms] show ?thesis by (simp add: ev quiet_post_def)
  next
    case Ev_window_timer
    with window_timer_post [OF assms] show ?thesis by (simp add: ev quiet_post_def)
  next
    case (Ev_entry_timer i)
    with entry_timer_post [OF assms] show ?thesis by (simp add: ev quiet_post_def)
  next
    case Ev_lane_timer
    with quiet_evict [OF assms] show ?thesis by (simp add: ev quiet_post_def)
  next
    case (Ev_abort s)
    with abort_post [OF assms] show ?thesis by (simp add: ev quiet_post_def)
  next
    case Ev_snapshot
    with quiet_sample [OF assms] show ?thesis by (simp add: ev snapshot_def quiet_post_def Let_def)
  next
    case (Ev_update cfg)
    with updateConfig_effect(1) [OF assms, of now cfg "fst (updateConfig now cfg c)"
        "snd (updateConfig now cfg c)"] show ?thesis by (simp add: ev)
  next
    case Ev_shutdown
    with shutdown_effect(1) [OF assms] show ?thesis by (simp add: ev quiet_post_def)
  qed
qed

interpretation controller_run: step_invariant controller_step "\<lambda>_ _. True" controller_ok
  by unfold_locales (rule controller_step_ok)

text \<open>Without a change of configuration the active cost stays under the limit's maximum.\<close>

fun no_update :: "int \<times> controller_event \<Rightarrow> bool" where
  "no_update (now, Ev_update cfg) = False"
| "no_update _ = True"

definition bounded_by_max :: "ValidatedConfig \<Rightarrow> admission_controller \<Rightarrow> bool" where
  "bounded_by_max cfg c \<longleftrightarrow> controller_ok c \<and> acConfig c = cfg \<and> acActiveCost c \<le> maxLimit cfg"

lemma quiet_step:
  assumes "controller_ok c" "no_update ev" "\<forall>r. snd ev \<noteq> Ev_acquire r"
  shows "quiet_post c (controller_step c ev)"
proof -
  obtain now e where ev: "ev = (now, e)" by (cases ev)
  show ?thesis
    using assms release_post [OF assms(1)] observePressure_post [OF assms(1)] tick_post [OF assms(1)]
      window_timer_post [OF assms(1)] entry_timer_post [OF assms(1)] quiet_evict [OF assms(1)]
      abort_post [OF assms(1)] quiet_sample [OF assms(1)] shutdown_effect(1) [OF assms(1)]
    by (cases e) (simp_all add: ev snapshot_def Let_def)
qed

lemma enforce_step_bounded:
  assumes "bounded_by_max cfg c" "mode cfg = Enforce" "no_update ev"
  shows "bounded_by_max cfg (controller_step c ev)"
proof -
  have c: "controller_ok c" "acConfig c = cfg" "acActiveCost c \<le> maxLimit cfg"
    using assms(1) by (simp_all add: bounded_by_max_def)
  show ?thesis
  proof (cases "\<exists>r. snd ev = Ev_acquire r")
    case True
    then obtain now r where "ev = (now, Ev_acquire r)" by (cases ev) auto
    with acquire_effect [OF c(1), of now r] c assms(2) show ?thesis
      by (auto simp: acquire_post_def bounded_by_max_def)
  next
    case False
    with quiet_step [OF c(1) assms(3)] c show ?thesis
      by (auto simp: quiet_post_def bounded_by_max_def)
  qed
qed

interpretation enforce_run: step_invariant controller_step
  "\<lambda>c ev. mode (acConfig c) = Enforce \<and> no_update ev" "bounded_by_max cfg" for cfg
proof unfold_locales
  fix c ev
  assume b: "bounded_by_max cfg c" and e: "mode (acConfig c) = Enforce \<and> no_update ev"
  then have "mode cfg = Enforce" by (simp add: bounded_by_max_def)
  with b e show "bounded_by_max cfg (controller_step c ev)" by (blast intro: enforce_step_bounded)
qed

text \<open>The promises of a run: what its calls of \<open>acquire\<close> handed out, each still queued or settled.\<close>

fun issued_event :: "admission_controller \<Rightarrow> int \<times> controller_event \<Rightarrow> string multiset" where
  "issued_event c (now, Ev_acquire r) = issued (fst (acquire now r c))"
| "issued_event c _ = {#}"

fun issued_run :: "admission_controller \<Rightarrow> (int \<times> controller_event) list \<Rightarrow> string multiset" where
  "issued_run c [] = {#}"
| "issued_run c (ev # evs) = issued_event c ev + issued_run (controller_step c ev) evs"

lemma controller_step_promises:
  assumes "controller_ok c"
  shows "promises (controller_step c ev) = promises c + issued_event c ev"
proof -
  obtain now e where ev: "ev = (now, e)" by (cases ev)
  consider (acquire) r where "e = Ev_acquire r" | (update) cfg where "e = Ev_update cfg"
    | (quiet) "no_update ev" "\<forall>r. e \<noteq> Ev_acquire r"
    by (cases e) (auto simp: ev)
  then show ?thesis
  proof cases
    case acquire
    with acquire_effect [OF assms, of now r] show ?thesis by (simp add: ev acquire_post_def)
  next
    case update
    with updateConfig_effect(2) [OF assms, of now cfg "fst (updateConfig now cfg c)"
        "snd (updateConfig now cfg c)"] show ?thesis by (simp add: ev)
  next
    case quiet
    from quiet(2) have "issued_event c ev = {#}" by (cases e) (simp_all add: ev)
    with quiet_step [OF assms quiet(1)] quiet(2) show ?thesis by (simp add: ev quiet_post_def)
  qed
qed

lemma run_promises:
  "controller_ok c \<Longrightarrow> promises (foldl controller_step c evs) = promises c + issued_run c evs"
proof (induction evs arbitrary: c)
  case Nil
  then show ?case by simp
next
  case (Cons ev evs)
  from Cons.IH [OF controller_step_ok [OF Cons.prems]] controller_step_promises [OF Cons.prems]
  show ?case by (simp add: add.assoc)
qed

end
