(* ===== verification/Admission_Properties.thy ===== *)
theory Admission_Properties
  imports Admission_Correct
begin

text \<open>
  The properties of the admission controller, stated over whole runs of it, and of the
  functions its admission decision rests on, each with a concrete instance.
\<close>


section \<open>Dispatch leaves only work that has to wait\<close>

definition must_wait :: "admission_controller \<Rightarrow> bool" where
  "must_wait c \<longleftrightarrow>
     (let available = currentLimit (acAdapt c) - acActiveCost c in
      available \<le> 0 \<or>
      (\<forall>i e. head_at (acQueue c) i = Some e \<longrightarrow>
         available < entryCost e \<or> (\<exists>j r. oldest_aged (acQueue c) j r \<and> available < entryCost r)))"

lemma no_heads: "fq_wf q \<Longrightarrow> fq_size q \<le> 0 \<Longrightarrow> head_at q i = None"
proof (rule ccontr)
  assume q: "fq_wf q" "fq_size q \<le> 0" "head_at q i \<noteq> None"
  then obtain e where "head_at q i = Some e" by blast
  then have "core e \<in># content q" by (rule head_in_content [OF q(1)])
  then have "0 < int (size (content q))" by (metis empty_iff of_nat_0_less_iff nonempty_has_size set_mset_empty)
  with q fq_size_content [OF q(1)] show False by simp
qed

lemma dispatch_loop_waits:
  "fq_wf (acQueue c) \<Longrightarrow> dispatch_loop now c = (b, c') \<Longrightarrow>
     fq_wf (acQueue c') \<and> must_wait c' \<and> (b \<longrightarrow> fq_size (acQueue c') \<le> 0)"
proof (induction now c rule: dispatch_loop.induct)
  case (1 now c)
  let ?av = "currentLimit (acAdapt c) - acActiveCost c"
  consider (empty) "fq_size (acQueue c) \<le> 0"
    | (full) "\<not> fq_size (acQueue c) \<le> 0" "?av \<le> 0"
    | (none) q' where "\<not> fq_size (acQueue c) \<le> 0" "\<not> ?av \<le> 0" "dequeue (acQueue c) ?av = (None, q')"
    | (some) e q' where "\<not> fq_size (acQueue c) \<le> 0" "\<not> ?av \<le> 0" "dequeue (acQueue c) ?av = (Some e, q')"
    by (metis not_None_eq prod.exhaust)
  then show ?case
  proof cases
    case empty
    with 1 no_heads [OF 1(2) empty] show ?thesis
      by (simp add: must_wait_def dispatch_loop.simps [of now c] Let_def)
  next
    case full
    with 1 show ?thesis by (auto simp: must_wait_def dispatch_loop.simps [of now c] Let_def)
  next
    case none
    note same = dequeue_None_same [OF 1(2) none(3)]
    have "dispatch_loop now c = (False, c\<lparr>acQueue := q'\<rparr>)"
      using none by (simp add: dispatch_loop.simps [of now c] Let_def)
    with 1(2,3) same dequeue_None_why [OF 1(2) none(3)] show ?thesis
      by (auto simp: must_wait_def Let_def)
  next
    case some
    have eq: "dispatch_loop now c = dispatch_loop now (snd (settle_entry now e (c\<lparr>acQueue := q'\<rparr>)))"
      using some by (simp add: dispatch_loop.simps [of now c] Let_def)
    from 1(1) [OF some(1) refl some(2) some(3) [symmetric] refl] dequeue_Some_effect [OF 1(2) some(3)]
      1(3) [unfolded eq]
    show ?thesis by simp
  qed
qed

lemma lane_loop_shared [simp]: "acQueue (snd (lane_loop now k c)) = acQueue c"
proof (induction now k c rule: lane_loop.induct)
  case (1 now k c)
  show ?case
  proof (cases "js_get (acLanes c) k")
    case None
    then show ?thesis by (simp add: lane_loop.simps [of now k c])
  next
    case (Some l)
    obtain r q' where d: "dequeue (laneQueue l) (currentLimit (acAdapt c) - acActiveCost c) = (r, q')"
      by fastforce
    consider "fq_size (laneQueue l) \<le> 0 \<or> currentLimit (acAdapt c) - acActiveCost c \<le> 0"
      | (none) "\<not> fq_size (laneQueue l) \<le> 0" "\<not> currentLimit (acAdapt c) - acActiveCost c \<le> 0" "r = None"
      | (some) e where "\<not> fq_size (laneQueue l) \<le> 0" "\<not> currentLimit (acAdapt c) - acActiveCost c \<le> 0" "r = Some e"
      by (cases r) auto
    then show ?thesis
    proof cases
      case 1
      with Some show ?thesis by (auto simp: lane_loop.simps [of now k c])
    next
      case none
      with Some d show ?thesis by (simp add: lane_loop.simps [of now k c])
    next
      case some
      with 1 [OF Some some(1) refl some(2) d [symmetric] some(3) refl] Some d show ?thesis
        by (simp add: lane_loop.simps [of now k c] Let_def)
    qed
  qed
qed

lemma dispatch_lane_keys_shared [simp]: "acQueue (dispatch_lane_keys now ks c) = acQueue c"
proof (induction ks arbitrary: c)
  case (Cons k ks)
  have r: "acQueue (removeEmptyLane k c') = acQueue c'" for c'
    by (simp add: removeEmptyLane_def split: option.split)
  obtain x c' where l: "lane_loop now k c = (x, c')" by fastforce
  with lane_loop_shared [of now k c] have "acQueue c' = acQueue c" by simp
  with l Cons.IH [of c] Cons.IH [of "removeEmptyLane k c'"] r show ?case
    by (cases x) (simp_all split: option.split)
qed simp

lemma dispatch_waits:
  assumes "fq_wf (acQueue c)" "\<not> acShutDown c" "mode (acConfig c) = Enforce"
  shows "must_wait (dispatch now c)"
proof -
  obtain b c1 where d: "dispatch_loop now c = (b, c1)" by fastforce
  note w = dispatch_loop_waits [OF assms(1) d]
  show ?thesis
  proof (cases b)
    case True
    then have "head_at (acQueue c1) i = None" for i using w no_heads by blast
    then have "must_wait (dispatchLanes now c1)" by (simp add: must_wait_def dispatchLanes_def)
    with True d assms show ?thesis by (simp add: dispatch_def)
  next
    case False
    with w d assms show ?thesis by (simp add: dispatch_def)
  qed
qed


section \<open>A released lease stays released\<close>

definition lease_released :: "string \<Rightarrow> admission_controller \<Rightarrow> bool" where
  "lease_released i c \<longleftrightarrow> (\<exists>r. acRecords c i = Some r \<and> lrReleased r)"

lemma lease_released_settle:
  assumes "controller_ok c" "lease_released i c"
    "acRecords c1 = acRecords c" "leaseSeq c1 = leaseSeq c"
  shows "lease_released i (snd (settle_entry now e c1))"
proof -
  have "acRecords c (make_id ''lease'' (Suc (leaseSeq c))) = None"
    by (rule fresh_lease(1) [OF controller_okD(3) [OF assms(1)]])
  then show ?thesis
    using assms(2-4)
    by (auto simp: lease_released_def settle_entry_def admit_def nextId_def settle_def detachAbort_def
        clearEntryTimer_def Let_def)
qed

interpretation dispatching_released: dispatch_invariant
  "\<lambda>c. dispatch_good_upto P b fr c \<and> lease_released i c" now for P b fr i now
proof unfold_locales
  fix c e q'
  assume g: "dispatch_good_upto P b fr c \<and> lease_released i c"
    and d: "dequeue (acQueue c) (currentLimit (acAdapt c) - acActiveCost c) = (Some e, q')"
  then show "dispatch_good_upto P b fr (snd (settle_entry now e (c\<lparr>acQueue := q'\<rparr>))) \<and>
      lease_released i (snd (settle_entry now e (c\<lparr>acQueue := q'\<rparr>)))"
    using dispatching_ok.shared_entry [OF conjunct1 [OF g] d] lease_released_settle [of c i]
    by (simp add: dispatch_good_upto_def)
next
  fix c m q'
  assume g: "dispatch_good_upto P b fr c \<and> lease_released i c" and d: "dequeue (acQueue c) m = (None, q')"
  then show "dispatch_good_upto P b fr (c\<lparr>acQueue := q'\<rparr>) \<and> lease_released i (c\<lparr>acQueue := q'\<rparr>)"
    using dispatching_ok.shared_none [OF conjunct1 [OF g] d] by (simp add: lease_released_def)
next
  fix c k l e q'
  assume g: "dispatch_good_upto P b fr c \<and> lease_released i c" and k: "js_get (acLanes c) k = Some l"
    and d: "dequeue (laneQueue l) (currentLimit (acAdapt c) - acActiveCost c) = (Some e, q')"
  then show "dispatch_good_upto P b fr
        (snd (settle_entry now e (c\<lparr>acLanes := js_set k (l\<lparr>laneQueue := q'\<rparr>) (acLanes c)\<rparr>))) \<and>
      lease_released i (snd (settle_entry now e (c\<lparr>acLanes := js_set k (l\<lparr>laneQueue := q'\<rparr>) (acLanes c)\<rparr>)))"
    using dispatching_ok.lane_entry [OF conjunct1 [OF g] k d] lease_released_settle [of c i]
    by (simp add: dispatch_good_upto_def)
next
  fix c k l m q'
  assume g: "dispatch_good_upto P b fr c \<and> lease_released i c" and k: "js_get (acLanes c) k = Some l"
    and d: "dequeue (laneQueue l) m = (None, q')"
  then show "dispatch_good_upto P b fr (c\<lparr>acLanes := js_set k (l\<lparr>laneQueue := q'\<rparr>) (acLanes c)\<rparr>) \<and>
      lease_released i (c\<lparr>acLanes := js_set k (l\<lparr>laneQueue := q'\<rparr>) (acLanes c)\<rparr>)"
    using dispatching_ok.lane_none [OF conjunct1 [OF g] k d] by (simp add: lease_released_def)
next
  fix c k l
  assume g: "dispatch_good_upto P b fr c \<and> lease_released i c" and k: "js_get (acLanes c) k = Some l"
    "fq_size (laneQueue l) = 0"
  then show "dispatch_good_upto P b fr (c\<lparr>acLanes := js_delete k (acLanes c)\<rparr>) \<and>
      lease_released i (c\<lparr>acLanes := js_delete k (acLanes c)\<rparr>)"
    using dispatching_ok.empty_lane [OF conjunct1 [OF g] k] by (simp add: lease_released_def)
qed

lemma lease_released_dispatch:
  assumes "controller_ok c" "lease_released i c"
  shows "lease_released i (dispatch now c)"
proof -
  have "dispatch_good_upto (promises c) (max (acActiveCost c) (currentLimit (acAdapt c)))
      (acAdapt c, acConfig c, acShutDown c) c \<and> lease_released i c"
    using assms by (simp add: dispatch_good_upto_def)
  from dispatching_released.dispatch_good [OF this] show ?thesis by blast
qed

lemma lease_released_set [simp]: "lease_released i (set_disposition j d c) = lease_released i c"
  by (auto simp: lease_released_def set_disposition_def)

lemma lease_released_frame [simp]:
  "lease_released i (c\<lparr>acVirtualQueue := q\<rparr>) = lease_released i c"
  "lease_released i (c\<lparr>acVirtualActiveCost := x\<rparr>) = lease_released i c"
  "lease_released i (c\<lparr>acVirtualActiveCount := n\<rparr>) = lease_released i c"
  by (simp_all add: lease_released_def)

lemma lease_released_promote: "lease_released i (promote_virtual e c) = lease_released i c"
  using lease_released_set [of i "payload e" VActive c]
  by (auto simp: promote_virtual_def lease_released_def split: option.splits)

lemma lease_released_virtual: "lease_released i (dispatchVirtual c) = lease_released i c"
proof (induction c rule: dispatchVirtual.induct)
  case (1 c)
  have q: "lease_released i (c\<lparr>acVirtualQueue := q\<rparr>) = lease_released i c" for q
    by (simp add: lease_released_def)
  obtain r q' where d: "dequeue (acVirtualQueue c) (currentLimit (acAdapt c) - acVirtualActiveCost c) = (r, q')"
    by fastforce
  consider "fq_size (acVirtualQueue c) \<le> 0 \<or> currentLimit (acAdapt c) - acVirtualActiveCost c \<le> 0"
    | (none) "\<not> fq_size (acVirtualQueue c) \<le> 0" "\<not> currentLimit (acAdapt c) - acVirtualActiveCost c \<le> 0" "r = None"
    | (some) e where "\<not> fq_size (acVirtualQueue c) \<le> 0" "\<not> currentLimit (acAdapt c) - acVirtualActiveCost c \<le> 0" "r = Some e"
    by (cases r) auto
  then show ?case
  proof cases
    case 1
    then show ?thesis by (auto simp: dispatchVirtual.simps [of c])
  next
    case none
    with d q show ?thesis by (simp add: dispatchVirtual.simps [of c])
  next
    case some
    with 1 [OF some(1) refl some(2) d [symmetric] some(3)] d q show ?thesis
      by (simp add: dispatchVirtual.simps [of c] lease_released_promote)
  qed
qed

lemma releaseLease_stays:
  assumes c: "controller_ok c" and r: "acRecords c i = Some r"
  shows "lease_released i (releaseLease now i outcome meta c)"
proof (cases "lrReleased r")
  case True
  with r show ?thesis by (simp add: releaseLease_def lease_released_def)
next
  case False
  note ok = controller_okD [OF c]
  note rel = leases_ok_release [OF ok(3) r False]
  have a: "adapt_ok (adaptation (acConfig c)) (acAdapt (released now i r outcome meta c))"
    using feedback_ok sampleIntegral_ok [OF c] ok(1) by (simp add: released_def config_ok_def)
  have "controller_ok (releaseVirtual i (released now i r outcome meta c))"
    using releaseVirtual_effect [OF c r False, of "released now i r outcome meta c"] a
    by (simp add: released_def)
  moreover have "lease_released i (released now i r outcome meta c)"
    by (simp add: lease_released_def released_def)
  then have "lease_released i (releaseVirtual i (released now i r outcome meta c))"
    by (simp add: releaseVirtual_def lease_released_virtual Let_def
        split: option.splits VirtualDisposition.splits)
  ultimately show ?thesis by (simp add: releaseLease_unfold [OF r False rel(1)] lease_released_dispatch)
qed

section \<open>A small controller\<close>

text \<open>Mode enforce, limits 1 to 10 starting at 4, at most two queued requests of total cost 20.\<close>

definition demo_config :: AdaptiveAdmissionConfig where
  "demo_config =
     \<lparr>inMode = Str ''enforce'', inMinLimit = js_int 1, inMaxLimit = js_int 10,
      inInitialLimit = js_int 4, inMaxQueueCount = js_int 2, inMaxQueueCost = js_int 20,
      inDefaultMaxWaitMs = Undefined, inWindowMs = Undefined, inShortLatencyAlpha = Undefined,
      inLongLatencyAlpha = Undefined, inIncreaseStep = Undefined, inDecreaseFactor = Undefined,
      inCriticalDecreaseFactor = Undefined, inHighUtilizationThreshold = Undefined,
      inLowUtilizationThreshold = Undefined, inLatencyGradientThreshold = Undefined,
      inMaxIncreasePerWindow = Undefined, inCost = None, inVirtualLanes = Undefined\<rparr>"

definition demo_controller :: admission_controller where
  "demo_controller = projr (new_controller 0 demo_config)"

definition demo_request :: "int \<Rightarrow> AdmissionRequest" where
  "demo_request n =
     \<lparr>reqCost = js_int n, reqFeatures = None, reqTenantKey = None, reqMaxWaitMs = Undefined,
      reqSignal = None, reqPressure = None\<rparr>"

text \<open>One request takes the limit, a second queues behind it.\<close>

definition demo_busy :: admission_controller where
  "demo_busy = snd (acquire 2 (demo_request 3) (snd (acquire 1 (demo_request 3) demo_controller)))"

lemma safe_integer_of_js_int [simp]:
  "safe_integer_of (js_int n) = (if is_safe_integer n then Some n else None)"
  by (simp add: js_int_def)

lemma js_int_not_undefined [simp]: "js_int n \<noteq> Undefined" "Undefined \<noteq> js_int n"
  by (simp_all add: js_int_def)

lemma demo_valid: "\<exists>cfg. validateConfig demo_config = Inr cfg \<and> mode cfg = Enforce \<and> minLimit cfg = 1 \<and>
    maxLimit cfg = 10 \<and> initialLimit cfg = 4 \<and> maxQueueCount cfg = 2 \<and> maxQueueCost cfg = 20 \<and>
    defaultMaxWaitMs cfg = 5000 \<and> vcMaxRequestCost cfg = 1000 \<and> \<not> virtualLanes cfg"
  by (simp add: validateConfig_def demo_config_def requirePositiveInt_def is_safe_integer_def
      max_safe_integer_def MAX_ADMISSION_COST_OR_LIMIT_eq resolveMode_def resolveAdaptationParams_def
      requireDecreaseFactor_def requireUnitInterval_def resolveCostConfig_def resolve_key_def
      requirePositiveSafeInteger_def DEFAULT_ADMISSION_COST_CONFIG_def)

lemma demo_new:
  "new_controller 0 demo_config = Inr demo_controller"
  "mode (acConfig demo_controller) = Enforce" "maxLimit (acConfig demo_controller) = 10"
  "defaultMaxWaitMs (acConfig demo_controller) = 5000" "vcMaxRequestCost (acConfig demo_controller) = 1000"
  "\<not> virtualLanes (acConfig demo_controller)"
  "currentLimit (acAdapt demo_controller) = 4" "acQueue demo_controller = new_queue 2 20"
  "acActive demo_controller = []" "acActiveCost demo_controller = 0" "acLanes demo_controller = []"
  "leaseSeq demo_controller = 0" "\<not> acShutDown demo_controller" "acSettled demo_controller = []"
  "acRecords demo_controller = (\<lambda>_. None)" "acAborted demo_controller = []"
proof -
  obtain cfg where cfg: "validateConfig demo_config = Inr cfg" "mode cfg = Enforce" "minLimit cfg = 1"
    "maxLimit cfg = 10" "initialLimit cfg = 4" "maxQueueCount cfg = 2" "maxQueueCost cfg = 20"
    "defaultMaxWaitMs cfg = 5000" "vcMaxRequestCost cfg = 1000" "\<not> virtualLanes cfg"
    using demo_valid by blast
  show n: "new_controller 0 demo_config = Inr demo_controller"
    using cfg(1) by (simp add: demo_controller_def new_controller_def)
  show "mode (acConfig demo_controller) = Enforce" "maxLimit (acConfig demo_controller) = 10"
    "defaultMaxWaitMs (acConfig demo_controller) = 5000" "vcMaxRequestCost (acConfig demo_controller) = 1000"
    "\<not> virtualLanes (acConfig demo_controller)"
    "currentLimit (acAdapt demo_controller) = 4" "acQueue demo_controller = new_queue 2 20"
    "acActive demo_controller = []" "acActiveCost demo_controller = 0" "acLanes demo_controller = []"
    "leaseSeq demo_controller = 0" "\<not> acShutDown demo_controller" "acSettled demo_controller = []"
    "acRecords demo_controller = (\<lambda>_. None)" "acAborted demo_controller = []"
    using cfg by (simp_all add: demo_controller_def new_controller_def armWindowTimer_def
        createAdaptationState_def)
qed

lemma demo_controller_ok: "controller_ok demo_controller"
  using new_controller_ok(1) [OF demo_new(1)] .

lemma demo_busy_state:
  "demo_busy = foldl controller_step demo_controller
     [(1, Ev_acquire (demo_request 3)), (2, Ev_acquire (demo_request 3))]"
  by (simp add: demo_busy_def)

lemma demo_first:
  "acquire 1 (demo_request 3) demo_controller =
     (Inr (Admitted (make_id ''lease'' 1) 3 None), snd (admit 1 3 VNone demo_controller))"
  by (simp add: acquire_def acquire_enforce_def demo_new demo_request_def resolveCost_def
      normalizeRequestCost_js_int in_bound_def MAX_ADMISSION_COST_OR_LIMIT_eq fq_size_def
      new_queue_def admit_now_def admit_def nextId_def case_prod_unfold Let_def)

lemma demo_one:
  fixes c
  defines "c \<equiv> snd (admit 1 3 VNone demo_controller)"
  shows "acConfig c = acConfig demo_controller" "\<not> acShutDown c" "acAborted c = []"
    "currentLimit (acAdapt c) = 4" "acActive c = [make_id ''lease'' 1]" "acActiveCost c = 3"
    "acQueue c = new_queue 2 20" "acSettled c = []"
    "acRecords c = [make_id ''lease'' 1 \<mapsto>
       \<lparr>lrCost = 3, lrReleased = False, admittedAtMs = 1, virtualDisposition = VNone\<rparr>]"
  by (simp_all add: c_def admit_def nextId_def demo_new Let_def)

text \<open>A request of cost 3 queued where 1 is available: nothing is dispatched.\<close>

lemma dispatch_blocked:
  assumes "acQueue c = snd (enqueue (new_queue 2 20) e)" "entryCost e = 3" "skipCount e = 0"
    "currentLimit (acAdapt c) = 4" "acActiveCost c = 3"
  shows "dispatch now c = c"
proof -
  have can: "canAccept (new_queue 2 20) 3"
    by (simp add: canAccept_def new_queue_def is_safe_integer_def max_safe_integer_def)
  define q where "q = snd (enqueue (new_queue 2 20) e)"
  have q: "q = \<lparr>buckets = [(tenantKey e, [e])], order = [tenantKey e], cursor = 0, fqCount = 1,
      fqCost = 3, maxCount = 2, maxCost = 20\<rparr>"
    using can assms(2) by (simp add: q_def enqueue_def new_queue_def)
  have "dequeue q 1 = (None, q)"
    using assms(2,3)
    by (simp add: q dequeue_def reserved_def pass_order_def reserve_step_def head_at_def bucket_at_def
        MAX_UNFITTABLE_SKIPS_def)
  moreover have "acQueue c = q" "fq_size q = 1" using assms(1) by (simp_all add: q_def [symmetric]) (simp add: q fq_size_def)
  ultimately have "dispatch_loop now c = (False, c)"
    using assms(4,5) by (simp add: dispatch_loop.simps [of now c])
  then show ?thesis by (simp add: dispatch_def)
qed

lemma demo_busy_facts:
  "acActive demo_busy = [make_id ''lease'' 1]" "acActiveCost demo_busy = 3"
  "mode (acConfig demo_busy) = Enforce" "\<not> acShutDown demo_busy" "acSettled demo_busy = []"
  "currentLimit (acAdapt demo_busy) = 4"
  "acRecords demo_busy (make_id ''lease'' 1) = Some
     \<lparr>lrCost = 3, lrReleased = False, admittedAtMs = 1, virtualDisposition = VNone\<rparr>"
  "map entryCost (entries (acQueue demo_busy)) = [3]"
proof -
  define c where "c = snd (admit 1 3 VNone demo_controller)"
  note one = demo_one [folded c_def]
  define e where "e = \<lparr>entryId = make_id ''q'' (leaseSeq c + 1), tenantKey = ''_default'', entryCost = 3,
      enqueuedAtMs = 2, deadlineMs = 5002, payload = (None :: string option), skipCount = 0\<rparr>"
  have can: "canAccept (new_queue 2 20 :: queued_payload fair_queue) 3"
    by (simp add: canAccept_def new_queue_def is_safe_integer_def max_safe_integer_def)
  have cost: "resolveCost c (demo_request 3) = Inr 3"
    by (simp add: resolveCost_def demo_request_def one demo_new normalizeRequestCost_js_int in_bound_def
        MAX_ADMISSION_COST_OR_LIMIT_eq)
  have fields: "reqSignal (demo_request n) = None" "reqPressure (demo_request n) = None" for n
    by (simp_all add: demo_request_def)
  have empty: "fq_size (new_queue m n :: queued_payload fair_queue) = 0" for m n by (simp add: fq_size_def new_queue_def)
  have wait: "normalizeRequestCost (js_int 5000) (js_int MAX_ADMISSION_WINDOW_MS) = Inr 5000"
    by (simp add: normalizeRequestCost_js_int in_bound_def MAX_ADMISSION_COST_OR_LIMIT_eq
        MAX_ADMISSION_WINDOW_MS_def)
  define c1 where "c1 = c\<lparr>leaseSeq := leaseSeq c + 1, acQueue := snd (enqueue (new_queue 2 20) e)\<rparr>"
  define c2 where "c2 = c1\<lparr>acTimers := js_set (entryId e) 5002 (acTimers c1)\<rparr>"
  have d1: "dispatch 2 c1 = c1" by (rule dispatch_blocked [of _ e]) (simp_all add: c1_def e_def one)
  have d2: "dispatch 2 c2 = c2" by (rule dispatch_blocked [of _ e]) (simp_all add: c2_def c1_def e_def one)
  have push: "push_entry 2 e (c\<lparr>leaseSeq := leaseSeq c + 1\<rparr>) = (True, c1)"
    using can by (simp add: push_entry_def e_def c1_def one enqueue_fst case_prod_unfold)
  have "snd (enqueue_request 2 (demo_request 3) 3 c) = dispatch 2 c2"
    using push d1
    by (simp add: enqueue_request_def nextId_def demo_request_def one demo_new wait tenant_or_default_def
        e_def c2_def max_safe_integer_def Let_def)
  moreover have "demo_busy = snd (enqueue_request 2 (demo_request 3) 3 c)"
    unfolding demo_busy_def demo_first snd_conv c_def [symmetric]
    using cost can empty
    by (simp add: acquire_def acquire_enforce_def one demo_new fields)
  ultimately have busy: "demo_busy = c2" using d2 by simp
  show "acActive demo_busy = [make_id ''lease'' 1]" "acActiveCost demo_busy = 3"
    "mode (acConfig demo_busy) = Enforce" "\<not> acShutDown demo_busy" "acSettled demo_busy = []"
    "currentLimit (acAdapt demo_busy) = 4"
    "acRecords demo_busy (make_id ''lease'' 1) = Some
     \<lparr>lrCost = 3, lrReleased = False, admittedAtMs = 1, virtualDisposition = VNone\<rparr>"
    by (simp_all add: busy c2_def c1_def one demo_new)
  show "map entryCost (entries (acQueue demo_busy)) = [3]"
    using can by (simp add: busy c2_def c1_def e_def enqueue_def new_queue_def entries_def)
qed

lemma demo_busy_ok: "controller_ok demo_busy"
  unfolding demo_busy_state by (rule controller_run.run_always_good) (use demo_controller_ok in auto)


section \<open>Properties\<close>

text \<open>
  C1: in every state the admission controller reaches from a validated configuration, through any
  sequence of acquires, releases, pressure reports, ticks, timer and abort callbacks, snapshots,
  configuration updates and shutdowns, at any times: the whole state invariant holds. In
  particular the aggregate active cost is the sum of the costs of the leases that are active,
  each listed once, a lease is released exactly when it is no longer active, the limit stays
  between the configured minimum and maximum, and the shared queue is within its caps.
\<close>

theorem controller_invariant:
  assumes "new_controller now input = Inr c0" and c: "c = foldl controller_step c0 evs"
  shows "controller_ok c
    \<and> distinct (acActive c) \<and> acActiveCost c = (\<Sum>i\<leftarrow>acActive c. lease_cost (acRecords c) i)
    \<and> (\<forall>i r. acRecords c i = Some r \<longrightarrow> lrReleased r = (i \<notin> set (acActive c)))
    \<and> minLimit (acConfig c) \<le> currentLimit (acAdapt c) \<and> currentLimit (acAdapt c) \<le> maxLimit (acConfig c)
    \<and> fq_size (acQueue c) \<le> maxQueueCount (acConfig c) \<and> totalCost (acQueue c) \<le> maxQueueCost (acConfig c)"
proof -
  have ok: "controller_ok c"
    unfolding c by (rule controller_run.run_always_good) (use new_controller_ok(1) [OF assms(1)] in auto)
  note parts = controller_okD [OF ok]
  have "fq_size (acQueue c) \<le> maxQueueCount (acConfig c)" "totalCost (acQueue c) \<le> maxQueueCost (acConfig c)"
    using parts(6) by (auto simp: queue_ok_def fq_wf_def fq_size_def totalCost_def)
  with ok parts config_bounds(2,3) [OF parts(1,2)] show ?thesis
    by (auto simp: leases_ok_def)
qed

theorem controller_invariant_witness:
  "acActiveCost demo_busy = (\<Sum>i\<leftarrow>acActive demo_busy. lease_cost (acRecords demo_busy) i)
   \<and> currentLimit (acAdapt demo_busy) \<le> maxLimit (acConfig demo_busy)"
  using controller_invariant [OF demo_new(1) demo_busy_state] by blast

text \<open>
  C2: every promise \<open>acquire\<close> returns for a queued request is, from then on, in exactly one place:
  waiting in one queue (shared or lane), or settled. None is settled twice, none is lost, and
  none appears that was not returned, across dispatches, deadlines, aborts, lane evictions,
  configuration updates and shutdown.
\<close>

theorem promises_settle_once:
  assumes "new_controller now input = Inr c0" and c: "c = foldl controller_step c0 evs"
  shows "queued_ids (acQueue c) + lane_ids (acLanes c) + mset (map fst (acSettled c)) = issued_run c0 evs
    \<and> distinct (map fst (acSettled c))
    \<and> set (map fst (acSettled c)) \<inter> set_mset (queued_ids (acQueue c) + lane_ids (acLanes c)) = {}"
proof -
  have c0: "controller_ok c0" "promises c0 = {#}" using new_controller_ok [OF assms(1)] by simp_all
  have p: "promises c = issued_run c0 evs" unfolding c run_promises [OF c0(1)] c0(2) by simp
  have ok: "controller_ok c"
    unfolding c by (rule controller_run.run_always_good) (use c0(1) in auto)
  have one: "count (promises c) i \<le> 1" for i
    using ok by (simp add: controller_ok_def ids_ok_def)
  have "count (mset (map fst (acSettled c))) i \<le> 1" for i
    using one [of i] by (simp add: promises_def)
  then have "distinct (map fst (acSettled c))"
    by (simp add: distinct_count_atmost_1 le_Suc_eq count_eq_zero_iff)
  moreover have "i \<notin># queued_ids (acQueue c) + lane_ids (acLanes c)" if "i \<in> set (map fst (acSettled c))" for i
  proof
    assume "i \<in># queued_ids (acQueue c) + lane_ids (acLanes c)"
    then have "1 \<le> count (queued_ids (acQueue c) + lane_ids (acLanes c)) i" by (simp add: Suc_le_eq del: count_union union_iff)
    moreover have "1 \<le> count (mset (map fst (acSettled c))) i"
      using that by (metis One_nat_def Suc_le_eq count_greater_zero_iff set_mset_mset)
    ultimately show False using one [of i] unfolding promises_def count_union by linarith
  qed
  ultimately show ?thesis using p by (auto simp: promises_def)
qed

theorem promises_settle_once_witness:
  "queued_ids (acQueue demo_busy) + lane_ids (acLanes demo_busy) + mset (map fst (acSettled demo_busy))
     = issued_run demo_controller [(1, Ev_acquire (demo_request 3)), (2, Ev_acquire (demo_request 3))]"
  using promises_settle_once [OF demo_new(1) demo_busy_state] by blast

text \<open>
  C3: while the configuration is left alone in mode enforce, the active cost never exceeds the
  configured maximum limit, whatever arrives, in whatever order.
\<close>

theorem enforce_capacity:
  assumes "new_controller now input = Inr c0" "mode (acConfig c0) = Enforce"
    "\<forall>ev \<in> set evs. no_update ev"
  shows "acActiveCost (foldl controller_step c0 evs) \<le> maxLimit (acConfig c0)"
proof -
  note n = new_controller_ok [OF assms(1)]
  have "0 \<le> maxLimit (acConfig c0)"
    using config_bounds(1,2) [OF controller_okD(1,2) [OF n(1)]] by simp
  then have "bounded_by_max (acConfig c0) c0" using n by (simp add: bounded_by_max_def)
  then have "bounded_by_max (acConfig c0) (foldl controller_step c0 evs)"
    by (rule enforce_run.run_always_good) (use assms(2,3) in \<open>auto simp: bounded_by_max_def\<close>)
  then show ?thesis by (simp add: bounded_by_max_def)
qed

theorem enforce_capacity_witness:
  "acActiveCost (foldl controller_step demo_controller
     [(1, Ev_acquire (demo_request 3)), (2, Ev_acquire (demo_request 9)), (3, Ev_tick)]) \<le> 10"
  using enforce_capacity [OF demo_new(1,2), of "[(1, Ev_acquire (demo_request 3)), (2, Ev_acquire (demo_request 9)), (3, Ev_tick)]"]
    demo_new(3) by simp


text \<open>
  C4: dispatch is work-conserving. Whenever it returns in mode enforce and before shutdown, either no
  capacity is left, or every queue head still waiting in the shared queue is too expensive for what is
  left, or the capacity is held back for one head that does not fit: the longest waiting of those heads
  that cheaper requests have overtaken at least twice. (A head that fits and was not overtaken that
  often waits behind it, even if it is older.)
\<close>

theorem dispatch_work_conserving:
  assumes "controller_ok c" "\<not> acShutDown c" "mode (acConfig c) = Enforce"
    and c': "c' = dispatch now c" "available = currentLimit (acAdapt c') - acActiveCost c'"
  shows "available \<le> 0 \<or>
     (\<forall>i e. head_at (acQueue c') i = Some e \<longrightarrow>
        available < entryCost e \<or> (\<exists>j r. oldest_aged (acQueue c') j r \<and> available < entryCost r))"
proof -
  have "fq_wf (acQueue c)" using controller_okD(6) [OF assms(1)] by (simp add: queue_ok_def)
  from dispatch_waits [OF this assms(2,3), of now] show ?thesis
    unfolding c'(2) c'(1) must_wait_def Let_def .
qed

text \<open>
  \<open>release\<close> is idempotent: the first call of a lease's release function retires the lease for
  good, and any later call, with any outcome and at any time, leaves the controller unchanged. It
  gives back the lease's cost before anything new is admitted.
\<close>

lemma release_idempotent:
  assumes c: "controller_ok c" and r: "acRecords c i = Some r" "\<not> lrReleased r"
    and c': "c' = releaseLease now i outcome meta c"
  shows "releaseLease later i outcome' meta' c' = c' \<and> i \<notin> set (acActive c')
    \<and> acActiveCost c' \<le> max (acActiveCost c - lrCost r) (currentLimit (acAdapt c))"
proof -
  have rel: "lease_released i c'" unfolding c' by (rule releaseLease_stays [OF c r(1)])
  then have idem: "releaseLease later i outcome' meta' c' = c'"
    by (auto simp: lease_released_def releaseLease_def)
  have "controller_ok c'" using releaseLease_effect [OF c] c' by simp
  then have out: "i \<notin> set (acActive c')"
    using rel controller_okD(3) by (fastforce simp: leases_ok_def lease_released_def)
  note ok = controller_okD [OF c]
  note ri = leases_ok_release [OF ok(3) r]
  let ?d = "releaseVirtual i (released now i r outcome meta c)"
  have a: "adapt_ok (adaptation (acConfig c)) (acAdapt (released now i r outcome meta c))"
    using feedback_ok sampleIntegral_ok [OF c] ok(1) by (simp add: released_def config_ok_def)
  have "controller_ok ?d"
    using releaseVirtual_effect [OF c r, of "released now i r outcome meta c"] a
    by (simp add: released_def)
  from dispatch_effect(3) [OF this, of now]
  have "acActiveCost c' \<le> max (acActiveCost ?d) (currentLimit (acAdapt ?d))"
    unfolding c' releaseLease_unfold [OF r ri(1)] .
  moreover have "acActiveCost ?d = acActiveCost c - lrCost r \<and> currentLimit (acAdapt ?d) = currentLimit (acAdapt c)"
    by (simp add: releaseVirtual_def released_def dispatchVirtual_frame Let_def
        split: VirtualDisposition.split)
  ultimately show ?thesis using idem out by simp
qed

text \<open>
  \<open>shutdown\<close> rejects every request that is still queued, in the shared queue and in every
  lane, with \<open>ADMISSION_SHUTDOWN\<close>, leaves nothing queued, and from then on every \<open>acquire\<close> is
  rejected with the same code.
\<close>

lemma shutdown_settles_all:
  assumes "controller_ok c" "\<not> acShutDown c" and c': "c' = shutdown c"
  shows "acSettled c' = acSettled c @ map (\<lambda>e. (entryId e, Reject ADMISSION_SHUTDOWN)) (drain_all c)
    \<and> mset (map entryId (drain_all c)) = queued_ids (acQueue c) + lane_ids (acLanes c)
    \<and> queued_ids (acQueue c') = {#} \<and> acLanes c' = []
    \<and> fst (acquire now r c') = Inr (Rejected ADMISSION_SHUTDOWN)"
proof -
  note s = shutdown_effect [OF assms(1)]
  note ok = controller_okD [OF assms(1)]
  have "fst (acquire now r c') = Inr (Rejected ADMISSION_SHUTDOWN)"
    using s(2) c' by (simp add: acquire_def reject_with_def reject_acquire_def)
  with s(3) assms(2) c' drain_all_ids(1) [OF ok(6,7,1)] show ?thesis by simp
qed

text \<open>
  \<open>updateConfig\<close> is all or nothing and loses no request: an invalid configuration changes
  nothing at all; a valid one is in force afterwards, the limit is back inside the new bounds, and
  every promise is still queued or settled.
\<close>

lemma update_config_transactional:
  assumes "controller_ok c" "updateConfig now input c = (res, c')"
  shows "(case res of
       Inl err \<Rightarrow> c' = c \<and> validateConfig input = Inl err
     | Inr _ \<Rightarrow> validateConfig input = Inr (acConfig c')
         \<and> minLimit (acConfig c') \<le> currentLimit (acAdapt c') \<and> currentLimit (acAdapt c') \<le> maxLimit (acConfig c'))
    \<and> queued_ids (acQueue c') + lane_ids (acLanes c') + mset (map fst (acSettled c'))
      = queued_ids (acQueue c) + lane_ids (acLanes c) + mset (map fst (acSettled c))"
proof -
  note u = updateConfig_effect [OF assms]
  note b = config_bounds(2,3) [OF controller_okD(1,2) [OF u(1)]]
  have "validateConfig input = Inl err" if "res = Inl err" for err
    using assms(2) that by (auto simp: updateConfig_def Let_def split: sum.splits)
  with u(2,4) b show ?thesis by (cases res) (simp_all add: promises_def)
qed

theorem dispatch_work_conserving_witness:
  "currentLimit (acAdapt (dispatch 3 demo_busy)) - acActiveCost (dispatch 3 demo_busy) \<le> 0
   \<or> (\<forall>i e. head_at (acQueue (dispatch 3 demo_busy)) i = Some e \<longrightarrow>
        currentLimit (acAdapt (dispatch 3 demo_busy)) - acActiveCost (dispatch 3 demo_busy) < entryCost e
        \<or> (\<exists>j r. oldest_aged (acQueue (dispatch 3 demo_busy)) j r
             \<and> currentLimit (acAdapt (dispatch 3 demo_busy)) - acActiveCost (dispatch 3 demo_busy) < entryCost r))"
  using dispatch_work_conserving [OF demo_busy_ok demo_busy_facts(4,3) refl refl] by blast

text \<open>
  The shadow accounting of every reachable state mirrors the leases: the virtual active cost
  and count are those of the active leases admitted virtually, and the virtual queue holds
  exactly the active leases that would have had to wait.
\<close>

lemma shadow_accounting:
  assumes "new_controller now input = Inr c0" and c: "c = foldl controller_step c0 evs"
  shows "acVirtualActiveCost c = (\<Sum>i\<leftarrow>filter (\<lambda>i. disposition_of (acRecords c) i = VActive) (acActive c).
            lease_cost (acRecords c) i)
    \<and> acVirtualActiveCount c = int (length (filter (\<lambda>i. disposition_of (acRecords c) i = VActive) (acActive c)))
    \<and> image_mset entryId (content (acVirtualQueue c))
        = mset (filter (\<lambda>i. disposition_of (acRecords c) i = VQueued) (acActive c))"
proof -
  have ok: "controller_ok c"
    unfolding c by (rule controller_run.run_always_good) (use new_controller_ok(1) [OF assms(1)] in auto)
  have w: "with_disposition R act d = mset (filter (\<lambda>i. disposition_of R i = d) act)" for R act d
    by (simp add: with_disposition_def)
  have "(\<Sum>i\<in>#mset xs. f i) = (\<Sum>i\<leftarrow>xs. f i)" for f :: "string \<Rightarrow> int" and xs
    by (metis mset_map sum_mset_sum_list)
  with controller_okD(4) [OF ok] show ?thesis by (simp add: virtual_ok_def w del: mset_filter)
qed

text \<open>
  In mode enforce a request is admitted on arrival only with a fresh lease that is counted in
  full, and only if nothing is queued in the shared queue and its cost fits under the current
  limit, or if it is the only work in an unpressured system and costs at most the maximum limit.
\<close>

lemma admission_sound:
  assumes c: "controller_ok c" and m: "mode (acConfig c) = Enforce"
    and a: "acquire now r c = (Inr (Admitted i n d), c')"
  shows "i \<notin> set (acActive c) \<and> acActive c' = acActive c @ [i] \<and> acActiveCost c' = acActiveCost c + n
    \<and> 0 < n
    \<and> (fq_size (acQueue c) = 0 \<and> acActiveCost c' \<le> currentLimit (acAdapt c)
       \<or> acActive c = [] \<and> fq_size (acQueue c) = 0 \<and> laneTotalQueuedCount c = 0
         \<and> pressure (acAdapt c) = Normal \<and> n \<le> maxLimit (acConfig c))"
proof -
  define c1 where "c1 = (case reqPressure r of None \<Rightarrow> c | Some p \<Rightarrow> c\<lparr>acAdapt := setPressure (acAdapt c) p\<rparr>)"
  have same: "acConfig c1 = acConfig c" "acQueue c1 = acQueue c" "acActive c1 = acActive c"
    "acActiveCost c1 = acActiveCost c" "acLanes c1 = acLanes c" "leaseSeq c1 = leaseSeq c"
    "currentLimit (acAdapt c1) = currentLimit (acAdapt c)"
    "laneTotalQueuedCount c1 = laneTotalQueuedCount c"
    by (simp_all add: c1_def setPressure_def laneTotalQueuedCount_def split: option.split)
  have norm: "pressure (acAdapt c1) = Normal \<Longrightarrow> pressure (acAdapt c) = Normal"
    by (cases "pressure (acAdapt c)")
      (auto simp: c1_def setPressure_def split: option.splits if_splits AdmissionPressure.splits)
  obtain cost where cost: "resolveCost c1 r = Inr cost" and e: "acquire_enforce now r cost c1 = (Inr (Admitted i n d), c')"
    using a m same
    by (auto simp: acquire_def reject_with_def reject_acquire_def c1_def [symmetric] Let_def
        split: if_splits sum.splits)
  have pos: "0 < cost"
    using resolveCost_bounds [of c1 r cost] cost controller_okD(1) [OF c] same by auto
  have adm: "admit_now now cost c1 = (Inr (Admitted i n d), c')
      \<and> (cost > currentLimit (acAdapt c1) \<and> shouldAdmitSolo cost c1
         \<or> fq_size (acQueue c1) = 0 \<and> acActiveCost c1 + cost \<le> currentLimit (acAdapt c1))"
    using e by (auto simp: acquire_enforce_def reject_with_def reject_acquire_def enqueue_request_def
        Let_def split: if_splits sum.splits prod.splits)
  have fresh: "make_id ''lease'' (Suc (leaseSeq c)) \<notin> set (acActive c)"
    by (rule fresh_lease(2) [OF controller_okD(3) [OF c]])
  have out: "i = make_id ''lease'' (Suc (leaseSeq c))" "n = cost"
    "acActive c' = acActive c @ [i]" "acActiveCost c' = acActiveCost c + cost"
    using adm fresh same by (auto simp: admit_now_def admit_def nextId_def case_prod_unfold Let_def)
  with adm fresh pos same norm show ?thesis by (auto simp: shouldAdmitSolo_def)
qed

end
