(* ===== verification/Circuit_Breaker.thy ===== *)
theory Circuit_Breaker
  imports Prelude
begin

text \<open>
  The circuit breaker of \<open>src/shared/utils/circuitBreaker.ts\<close>: one breaker's state machine
  (CLOSED, DEGRADED, OPEN, HALF_OPEN), its failure-kind thresholds and cooldowns, the escalating
  reset timeout, and the bounded registry of breakers. \<open>execute\<close> awaits the caller's function,
  so it is two steps: \<open>begin_execute\<close> up to the await, and the outcome afterwards. The row
  \<open>saveCircuitBreakerState\<close> last wrote is the field \<open>cbSaved\<close>, and whether the database can be
  read and written is the field \<open>cbDbUp\<close>, which the environment changes (event \<open>Br_db\<close>): the
  failures that \<open>_restoreFromDb\<close> and \<open>_persistToDb\<close> catch. State-change callbacks are the log
  \<open>cbNotified\<close>.
\<close>


section \<open>State\<close>

datatype CircuitState = CLOSED | DEGRADED | OPEN | HALF_OPEN

datatype FailureKind = Rate_limit | Quota_exhausted | Transient

record FailureKindThresholds =
  kindThreshold :: "int option"
  immediateOpen :: bool

record TransitionRecord =
  trFrom :: CircuitState
  trTo :: CircuitState
  trTimestamp :: int
  trFailureCount :: int
  trReason :: "string option"

record saved_state =
  svState :: CircuitState
  svFailureCount :: int
  svLastFailureTime :: "int option"
  svLastFailureKind :: "FailureKind option"
  svOpenCycleCount :: int
  svKindFailureCounts :: "FailureKind \<Rightarrow> int"

record CircuitBreaker =
  cbName :: string
  failureThreshold :: int
  resetTimeout :: int
  halfOpenRequests :: int
  cooldownByKind :: "FailureKind \<Rightarrow> js_value"
  kindThresholds :: "FailureKind \<Rightarrow> FailureKindThresholds option"
  degradationThreshold :: int
  maxBackoffMultiplier :: int
  backoffEscalationCount :: int
  cbState :: CircuitState
  failureCount :: int
  successCount :: int
  lastFailureTime :: "int option"
  halfOpenAllowed :: int
  lastFailureKind :: "FailureKind option"
  kindFailureCounts :: "FailureKind \<Rightarrow> int"
  openCycleCount :: int
  transitionHistory :: "TransitionRecord list"
  cbSaved :: "saved_state option"
  cbDbUp :: bool
  cbNotified :: "(CircuitState \<times> CircuitState) list"

definition MAX_TRANSITION_HISTORY :: nat where
  "MAX_TRANSITION_HISTORY = 20"

record CircuitBreakerOptions =
  optFailureThreshold :: "int option"
  optResetTimeout :: "int option"
  optHalfOpenRequests :: "int option"
  optCooldownByKind :: "(FailureKind \<Rightarrow> js_value) option"
  optKindThresholds :: "(FailureKind \<Rightarrow> FailureKindThresholds option) option"
  optDegradationThreshold :: "int option"
  optMaxBackoffMultiplier :: "int option"
  optBackoffEscalationCount :: "int option"

definition opt_or :: "'a option \<Rightarrow> 'a \<Rightarrow> 'a" where
  "opt_or v d = (case v of Some x \<Rightarrow> x | None \<Rightarrow> d)"


section \<open>Persistence\<close>

text \<open>
  \<open>loadCircuitBreakerState\<close> reads a failure time of 0 back as \<open>null\<close>. A load that throws is
  caught and restores nothing; a save that throws is caught and leaves the row as it was.
\<close>

definition loaded_failure_time :: "saved_state \<Rightarrow> int option" where
  "loaded_failure_time s = (if svLastFailureTime s = Some 0 then None else svLastFailureTime s)"

definition restoreFromDb :: "saved_state option \<Rightarrow> CircuitBreaker \<Rightarrow> CircuitBreaker" where
  "restoreFromDb row b =
     (if \<not> cbDbUp b then b
      else case row of
        None \<Rightarrow> b
      | Some s \<Rightarrow>
          let b = b\<lparr>cbState := svState s, failureCount := svFailureCount s,
                    lastFailureTime := loaded_failure_time s,
                    lastFailureKind := (case svLastFailureKind s of
                        Some k \<Rightarrow> Some k | None \<Rightarrow> lastFailureKind b),
                    openCycleCount := svOpenCycleCount s,
                    kindFailureCounts := svKindFailureCounts s\<rparr>
          in if cbState b = HALF_OPEN then b\<lparr>halfOpenAllowed := halfOpenRequests b\<rparr> else b)"

definition persistToDb :: "CircuitBreaker \<Rightarrow> CircuitBreaker" where
  "persistToDb b =
     (if cbDbUp b
      then b\<lparr>cbSaved := Some
         \<lparr>svState = cbState b, svFailureCount = failureCount b,
          svLastFailureTime = lastFailureTime b, svLastFailureKind = lastFailureKind b,
          svOpenCycleCount = openCycleCount b, svKindFailureCounts = kindFailureCounts b\<rparr>\<rparr>
      else b)"

definition new_breaker ::
  "string \<Rightarrow> CircuitBreakerOptions \<Rightarrow> bool \<Rightarrow> saved_state option \<Rightarrow> CircuitBreaker" where
  "new_breaker name opts up row =
     (let ft = opt_or (optFailureThreshold opts) 5 in
      restoreFromDb row
        \<lparr>cbName = name, failureThreshold = ft,
         resetTimeout = opt_or (optResetTimeout opts) 30000,
         halfOpenRequests = opt_or (optHalfOpenRequests opts) 1,
         cooldownByKind = opt_or (optCooldownByKind opts) (\<lambda>_. Undefined),
         kindThresholds = opt_or (optKindThresholds opts) (\<lambda>_. None),
         degradationThreshold = opt_or (optDegradationThreshold opts) \<lceil>of_int (ft * 60) / (100 :: rat)\<rceil>,
         maxBackoffMultiplier = opt_or (optMaxBackoffMultiplier opts) 16,
         backoffEscalationCount = opt_or (optBackoffEscalationCount opts) 3,
         cbState = CLOSED, failureCount = 0, successCount = 0, lastFailureTime = None,
         halfOpenAllowed = 0, lastFailureKind = None, kindFailureCounts = (\<lambda>_. 0),
         openCycleCount = 0, transitionHistory = [], cbSaved = row, cbDbUp = up, cbNotified = []\<rparr>)"


section \<open>Timeouts\<close>

definition effectiveResetTimeout :: "CircuitBreaker \<Rightarrow> int" where
  "effectiveResetTimeout b =
     (if openCycleCount b \<le> backoffEscalationCount b then resetTimeout b
      else min (resetTimeout b * 2 ^ nat (openCycleCount b - backoffEscalationCount b))
               (resetTimeout b * maxBackoffMultiplier b))"

definition effectiveCooldown :: "CircuitBreaker \<Rightarrow> rat" where
  "effectiveCooldown b =
     (let base = of_int (effectiveResetTimeout b) in
      case lastFailureKind b of
        None \<Rightarrow> base
      | Some k \<Rightarrow>
          (case finite_of (cooldownByKind b k) of
             Some v \<Rightarrow> if v \<ge> 0 then v else base
           | None \<Rightarrow> base))"

text \<open>\<open>!this.lastFailureTime\<close>: \<open>null\<close> or zero.\<close>

definition no_failure_time :: "CircuitBreaker \<Rightarrow> bool" where
  "no_failure_time b \<longleftrightarrow> lastFailureTime b = None \<or> lastFailureTime b = Some 0"

definition shouldAttemptReset :: "int \<Rightarrow> CircuitBreaker \<Rightarrow> bool" where
  "shouldAttemptReset now b =
     (if no_failure_time b then True
      else of_int (now - opt_or (lastFailureTime b) 0) \<ge> effectiveCooldown b)"

definition timeUntilReset :: "int \<Rightarrow> CircuitBreaker \<Rightarrow> rat" where
  "timeUntilReset now b =
     (if no_failure_time b then 0
      else max 0 (effectiveCooldown b - of_int (now - opt_or (lastFailureTime b) 0)))"


section \<open>Transitions\<close>

definition transition ::
  "int \<Rightarrow> CircuitState \<Rightarrow> string option \<Rightarrow> CircuitBreaker \<Rightarrow> CircuitBreaker" where
  "transition now newState reason b =
     (let oldState = cbState b;
          b = b\<lparr>cbState := newState\<rparr>;
          b = (if newState = HALF_OPEN then b\<lparr>halfOpenAllowed := halfOpenRequests b\<rparr> else b);
          h = transitionHistory b @
                [\<lparr>trFrom = oldState, trTo = newState, trTimestamp = now,
                  trFailureCount = failureCount b, trReason = reason\<rparr>];
          h = (if length h > MAX_TRANSITION_HISTORY then tl h else h);
          b = b\<lparr>transitionHistory := h\<rparr>
      in if oldState \<noteq> newState then b\<lparr>cbNotified := cbNotified b @ [(oldState, newState)]\<rparr> else b)"

definition refreshOpenState :: "int \<Rightarrow> CircuitBreaker \<Rightarrow> CircuitBreaker" where
  "refreshOpenState now b =
     (if cbState b = OPEN \<and> shouldAttemptReset now b
      then persistToDb (transition now HALF_OPEN (Some ''timeout-elapsed'') b)
      else b)"

definition kind_name :: "FailureKind \<Rightarrow> string" where
  "kind_name k = (case k of Rate_limit \<Rightarrow> ''rate_limit'' | Quota_exhausted \<Rightarrow> ''quota_exhausted''
     | Transient \<Rightarrow> ''transient'')"

definition openCircuit :: "int \<Rightarrow> FailureKind option \<Rightarrow> CircuitBreaker \<Rightarrow> CircuitBreaker" where
  "openCircuit now kind b = transition now OPEN (map_option (\<lambda>k. ''kind:'' @ kind_name k) kind) b"

definition onSuccess :: "int \<Rightarrow> CircuitBreaker \<Rightarrow> CircuitBreaker" where
  "onSuccess now b = persistToDb
     (if cbState b = OPEN then
        (transition now CLOSED (Some ''success-recovery'') b)
          \<lparr>failureCount := 0, successCount := 0, lastFailureTime := None, lastFailureKind := None,
           openCycleCount := 0, kindFailureCounts := (\<lambda>_. 0)\<rparr>
      else if cbState b = HALF_OPEN then
        (transition now CLOSED (Some ''probe-success'') (b\<lparr>successCount := successCount b + 1\<rparr>))
          \<lparr>failureCount := 0, lastFailureKind := None, openCycleCount := 0,
           kindFailureCounts := (\<lambda>_. 0)\<rparr>
      else
        let b = b\<lparr>failureCount := max 0 (failureCount b - 1)\<rparr> in
        if cbState b = DEGRADED \<and> failureCount b \<le> degradationThreshold b
        then transition now CLOSED (Some ''recovery'') b else b)"

text \<open>\<open>kindConfig.threshold || d\<close>: zero and absent are both the default.\<close>

definition threshold_or :: "FailureKindThresholds \<Rightarrow> int \<Rightarrow> int" where
  "threshold_or cfg d = (case kindThreshold cfg of Some t \<Rightarrow> if t = 0 then d else t | None \<Rightarrow> d)"

text \<open>Whether the thresholds of a failure kind open the circuit at the current count.\<close>

definition kind_opens :: "CircuitBreaker \<Rightarrow> FailureKind \<Rightarrow> bool" where
  "kind_opens b k =
     (case kindThresholds b k of
        None \<Rightarrow> False
      | Some cfg \<Rightarrow>
          immediateOpen cfg \<and> kindFailureCounts b k \<ge> threshold_or cfg 1 \<or>
          kindFailureCounts b k \<ge> threshold_or cfg (failureThreshold b))"

definition count_failure :: "int \<Rightarrow> FailureKind option \<Rightarrow> CircuitBreaker \<Rightarrow> CircuitBreaker" where
  "count_failure now kind b =
     (let b = b\<lparr>failureCount := failureCount b + 1, lastFailureTime := Some now,
                lastFailureKind := kind\<rparr>
      in case kind of
           None \<Rightarrow> b
         | Some k \<Rightarrow> b\<lparr>kindFailureCounts := (kindFailureCounts b)(k := kindFailureCounts b k + 1)\<rparr>)"

definition onFailure :: "int \<Rightarrow> FailureKind option \<Rightarrow> CircuitBreaker \<Rightarrow> CircuitBreaker" where
  "onFailure now kind b =
     (let b = count_failure now kind b in
      if (case kind of None \<Rightarrow> False | Some k \<Rightarrow> kind_opens b k) then openCircuit now kind b
      else persistToDb
        (if cbState b = OPEN then b
         else if cbState b = HALF_OPEN then
           let b = b\<lparr>openCycleCount := openCycleCount b + 1\<rparr> in
           transition now OPEN
             (Some (''probe-failed (cycle '' @ show_nat (nat (openCycleCount b)) @ '')'')) b
         else if cbState b = DEGRADED then
           (if failureCount b \<ge> failureThreshold b then openCircuit now kind b else b)
         else
           (if failureCount b \<ge> failureThreshold b then openCircuit now kind b
            else if failureCount b \<ge> degradationThreshold b then
              transition now DEGRADED
                (Some (''elevated-failures ('' @ show_nat (nat (failureCount b)) @ ''/'' @
                       show_nat (nat (failureThreshold b)) @ '')'')) b
            else b)))"

definition reset_breaker :: "int \<Rightarrow> CircuitBreaker \<Rightarrow> CircuitBreaker" where
  "reset_breaker now b = persistToDb
     ((transition now CLOSED (Some ''manual-reset'') b)
        \<lparr>failureCount := 0, successCount := 0, lastFailureTime := None, lastFailureKind := None,
         openCycleCount := 0, kindFailureCounts := (\<lambda>_. 0)\<rparr>)"


section \<open>Requests\<close>

datatype open_error = CircuitBreakerOpenError rat

text \<open>\<open>execute\<close> up to the call of the function.\<close>

definition begin_execute :: "int \<Rightarrow> CircuitBreaker \<Rightarrow> (open_error + unit) \<times> CircuitBreaker" where
  "begin_execute now b =
     (let b = refreshOpenState now b in
      if cbState b = OPEN then (Inl (CircuitBreakerOpenError (timeUntilReset now b)), b)
      else if cbState b = HALF_OPEN \<and> halfOpenAllowed b \<le> 0
      then (Inl (CircuitBreakerOpenError (timeUntilReset now b)), b)
      else if cbState b = HALF_OPEN then (Inr (), b\<lparr>halfOpenAllowed := halfOpenAllowed b - 1\<rparr>)
      else (Inr (), b))"

text \<open>
  How the function ended: with a value, or with an error that \<open>isFailure\<close> counts or not, and
  that \<open>classifyError\<close> gives a kind or not (absent, or itself throwing).
\<close>

datatype outcome = Succeeded | Failed bool "FailureKind option"

definition end_execute :: "int \<Rightarrow> outcome \<Rightarrow> CircuitBreaker \<Rightarrow> CircuitBreaker" where
  "end_execute now out b =
     (case out of
        Succeeded \<Rightarrow> onSuccess now b
      | Failed counts kind \<Rightarrow> if counts then onFailure now kind b else b)"

definition canExecute :: "int \<Rightarrow> CircuitBreaker \<Rightarrow> bool \<times> CircuitBreaker" where
  "canExecute now b =
     (let b = refreshOpenState now b in
      (if cbState b = CLOSED \<or> cbState b = DEGRADED then True
       else if cbState b = OPEN then False
       else halfOpenAllowed b > 0, b))"

definition getRetryAfterMs :: "int \<Rightarrow> CircuitBreaker \<Rightarrow> rat \<times> CircuitBreaker" where
  "getRetryAfterMs now b =
     (let b = refreshOpenState now b in
      (if cbState b = CLOSED \<or> cbState b = DEGRADED then 0 else timeUntilReset now b, b))"

record CircuitBreakerStatus =
  csName :: string
  csState :: CircuitState
  csFailureCount :: int
  csLastFailureTime :: "int option"
  csRetryAfterMs :: rat
  csLastFailureKind :: "FailureKind option"
  csOpenCycleCount :: int
  csKindFailureCounts :: "FailureKind \<Rightarrow> int"
  csDegradationThreshold :: int
  csEffectiveResetTimeout :: int
  csTransitionHistory :: "TransitionRecord list"

definition getStatus :: "int \<Rightarrow> CircuitBreaker \<Rightarrow> CircuitBreakerStatus \<times> CircuitBreaker" where
  "getStatus now b =
     (let b = refreshOpenState now b;
          (retry, b) = getRetryAfterMs now b
      in (\<lparr>csName = cbName b, csState = cbState b, csFailureCount = failureCount b,
           csLastFailureTime = lastFailureTime b, csRetryAfterMs = retry,
           csLastFailureKind = lastFailureKind b, csOpenCycleCount = openCycleCount b,
           csKindFailureCounts = kindFailureCounts b,
           csDegradationThreshold = degradationThreshold b,
           csEffectiveResetTimeout = effectiveResetTimeout b,
           csTransitionHistory = transitionHistory b\<rparr>, b))"

text \<open>The moves of the environment on one breaker.\<close>

datatype breaker_event =
    Br_begin
  | Br_end outcome
  | Br_can_execute
  | Br_status
  | Br_retry_after
  | Br_reset
  | Br_db bool

fun breaker_step :: "CircuitBreaker \<Rightarrow> int \<times> breaker_event \<Rightarrow> CircuitBreaker" where
  "breaker_step b (now, Br_begin) = snd (begin_execute now b)"
| "breaker_step b (now, Br_end out) = end_execute now out b"
| "breaker_step b (now, Br_can_execute) = snd (canExecute now b)"
| "breaker_step b (now, Br_status) = snd (getStatus now b)"
| "breaker_step b (now, Br_retry_after) = snd (getRetryAfterMs now b)"
| "breaker_step b (now, Br_reset) = reset_breaker now b"
| "breaker_step b (now, Br_db up) = b\<lparr>cbDbUp := up\<rparr>"

section \<open>The registry\<close>

definition MAX_REGISTRY_SIZE :: nat where
  "MAX_REGISTRY_SIZE = 500"

text \<open>
  The registered breakers, the rows of the state table by breaker name, and whether the database
  can be used: a delete or a load that throws is caught and does nothing.
\<close>

record breaker_registry =
  rgMap :: "(string, CircuitBreaker) js_map"
  rgDb :: "string \<Rightarrow> saved_state option"
  rgDbUp :: bool

definition put_breaker :: "string \<Rightarrow> CircuitBreaker \<Rightarrow> breaker_registry \<Rightarrow> breaker_registry" where
  "put_breaker n b rg =
     rg\<lparr>rgMap := js_set n b (rgMap rg), rgDb := (rgDb rg)(n := cbSaved b)\<rparr>"

definition drop_breaker :: "string \<Rightarrow> breaker_registry \<Rightarrow> breaker_registry" where
  "drop_breaker n rg =
     rg\<lparr>rgMap := js_delete n (rgMap rg),
        rgDb := (if rgDbUp rg then (rgDb rg)(n := None) else rgDb rg)\<rparr>"

text \<open>\<open>getStatus\<close> on every breaker of a pass: it may move OPEN breakers to HALF_OPEN.\<close>

definition refresh_all :: "int \<Rightarrow> breaker_registry \<Rightarrow> breaker_registry" where
  "refresh_all now rg = fold (\<lambda>(n, b). put_breaker n (snd (getStatus now b))) (rgMap rg) rg"

definition cold :: "CircuitBreaker \<Rightarrow> bool" where
  "cold b \<longleftrightarrow> cbState b = CLOSED \<and> failureCount b = 0"

definition registrySweep :: "int \<Rightarrow> breaker_registry \<Rightarrow> breaker_registry" where
  "registrySweep now rg =
     fold (\<lambda>(n, b) rg.
         let b' = snd (getStatus now b); rg = put_breaker n b' rg in
         if cold b' \<and> (no_failure_time b' \<or> now - opt_or (lastFailureTime b') 0 > 30 * 60 * 1000)
         then drop_breaker n rg else rg)
       (rgMap rg) rg"

definition evictColdBreakersIfNeeded :: "int \<Rightarrow> breaker_registry \<Rightarrow> breaker_registry" where
  "evictColdBreakersIfNeeded now rg =
     (if length (rgMap rg) < MAX_REGISTRY_SIZE then rg
      else
        let rg = refresh_all now rg;
            candidates = sort_key snd
              (map (\<lambda>(n, b). (n, opt_or (lastFailureTime b) 0)) (filter (\<lambda>(n, b). cold b) (rgMap rg)));
            target = length (rgMap rg) - MAX_REGISTRY_SIZE + 1
        in fold drop_breaker (map fst (take target candidates)) rg)"

definition apply_options :: "CircuitBreakerOptions \<Rightarrow> CircuitBreaker \<Rightarrow> CircuitBreaker" where
  "apply_options opts b =
     (let b = b\<lparr>failureThreshold := opt_or (optFailureThreshold opts) (failureThreshold b)\<rparr>;
          b = b\<lparr>resetTimeout := opt_or (optResetTimeout opts) (resetTimeout b)\<rparr>;
          b = (case optHalfOpenRequests opts of
                 None \<Rightarrow> b
               | Some n \<Rightarrow>
                   let b = b\<lparr>halfOpenRequests := n\<rparr> in
                   if cbState b = HALF_OPEN
                   then b\<lparr>halfOpenAllowed := min (halfOpenAllowed b) (halfOpenRequests b)\<rparr> else b);
          b = (case optCooldownByKind opts of
                 None \<Rightarrow> b
               | Some c \<Rightarrow> b\<lparr>cooldownByKind := (\<lambda>k. if c k = Undefined then cooldownByKind b k else c k)\<rparr>);
          b = (case optKindThresholds opts of
                 None \<Rightarrow> b
               | Some t \<Rightarrow> b\<lparr>kindThresholds := (\<lambda>k. case t k of None \<Rightarrow> kindThresholds b k | Some x \<Rightarrow> Some x)\<rparr>);
          b = b\<lparr>degradationThreshold := opt_or (optDegradationThreshold opts) (degradationThreshold b)\<rparr>;
          b = b\<lparr>maxBackoffMultiplier := opt_or (optMaxBackoffMultiplier opts) (maxBackoffMultiplier b)\<rparr>;
          b = b\<lparr>backoffEscalationCount := opt_or (optBackoffEscalationCount opts) (backoffEscalationCount b)\<rparr>
      in persistToDb b)"

definition no_options :: CircuitBreakerOptions where
  "no_options =
     \<lparr>optFailureThreshold = None, optResetTimeout = None, optHalfOpenRequests = None,
      optCooldownByKind = None, optKindThresholds = None, optDegradationThreshold = None,
      optMaxBackoffMultiplier = None, optBackoffEscalationCount = None\<rparr>"

definition getCircuitBreaker ::
  "int \<Rightarrow> string \<Rightarrow> CircuitBreakerOptions option \<Rightarrow> breaker_registry \<Rightarrow> breaker_registry" where
  "getCircuitBreaker now name opts rg =
     (let rg = (if js_has (rgMap rg) name then rg
                else
                  let rg = evictColdBreakersIfNeeded now rg
                  in put_breaker name (new_breaker name (opt_or opts no_options) (rgDbUp rg) (rgDb rg name)) rg)
      in case opts of
           None \<Rightarrow> rg
         | Some o' \<Rightarrow>
             (case js_get (rgMap rg) name of
                None \<Rightarrow> rg
              | Some b \<Rightarrow> put_breaker name (apply_options o' b) rg))"

text \<open>The names of the persisted rows come from the database in its order.\<close>

definition getAllCircuitBreakerStatuses ::
  "int \<Rightarrow> string list \<Rightarrow> breaker_registry \<Rightarrow> CircuitBreakerStatus list \<times> breaker_registry" where
  "getAllCircuitBreakerStatuses now persisted rg =
     (let rg = fold (\<lambda>n rg. if js_has (rgMap rg) n then rg else getCircuitBreaker now n None rg)
                (if rgDbUp rg then persisted else []) rg
      in (map (\<lambda>(n, b). fst (getStatus now b)) (rgMap rg), refresh_all now rg))"

definition resetAllCircuitBreakers :: "int \<Rightarrow> breaker_registry \<Rightarrow> breaker_registry" where
  "resetAllCircuitBreakers now rg =
     (let rg = fold (\<lambda>(n, b). put_breaker n (reset_breaker now b)) (rgMap rg) rg
      in rg\<lparr>rgMap := [], rgDb := (if rgDbUp rg then (\<lambda>_. None) else rgDb rg)\<rparr>)"


section \<open>One breaker's invariant\<close>

definition breaker_ok :: "CircuitBreaker \<Rightarrow> bool" where
  "breaker_ok b \<longleftrightarrow>
     0 \<le> failureCount b \<and> 0 \<le> openCycleCount b \<and> 0 \<le> halfOpenRequests b \<and>
     length (transitionHistory b) \<le> MAX_TRANSITION_HISTORY \<and>
     (cbState b = HALF_OPEN \<longrightarrow> 0 \<le> halfOpenAllowed b \<and> halfOpenAllowed b \<le> halfOpenRequests b)"

lemma transition_simps [simp]:
  "cbState (transition now s r b) = s" "failureCount (transition now s r b) = failureCount b"
  "openCycleCount (transition now s r b) = openCycleCount b"
  "halfOpenRequests (transition now s r b) = halfOpenRequests b"
  "halfOpenAllowed (transition now s r b) = (if s = HALF_OPEN then halfOpenRequests b else halfOpenAllowed b)"
  "lastFailureTime (transition now s r b) = lastFailureTime b"
  "lastFailureKind (transition now s r b) = lastFailureKind b"
  "kindFailureCounts (transition now s r b) = kindFailureCounts b"
  "cbSaved (transition now s r b) = cbSaved b" "cbDbUp (transition now s r b) = cbDbUp b"
  "failureThreshold (transition now s r b) = failureThreshold b"
  "degradationThreshold (transition now s r b) = degradationThreshold b"
  "cooldownByKind (transition now s r b) = cooldownByKind b"
  "kindThresholds (transition now s r b) = kindThresholds b"
  "resetTimeout (transition now s r b) = resetTimeout b"
  "maxBackoffMultiplier (transition now s r b) = maxBackoffMultiplier b"
  "backoffEscalationCount (transition now s r b) = backoffEscalationCount b"
  "cbName (transition now s r b) = cbName b"
  by (simp_all add: transition_def Let_def)

lemma transition_history:
  "length (transitionHistory b) \<le> MAX_TRANSITION_HISTORY \<Longrightarrow>
   length (transitionHistory (transition now s r b)) \<le> MAX_TRANSITION_HISTORY"
  by (simp add: transition_def Let_def)

lemma persist_simps [simp]:
  "cbState (persistToDb b) = cbState b" "failureCount (persistToDb b) = failureCount b"
  "openCycleCount (persistToDb b) = openCycleCount b" "halfOpenRequests (persistToDb b) = halfOpenRequests b"
  "halfOpenAllowed (persistToDb b) = halfOpenAllowed b" "lastFailureTime (persistToDb b) = lastFailureTime b"
  "lastFailureKind (persistToDb b) = lastFailureKind b"
  "kindFailureCounts (persistToDb b) = kindFailureCounts b"
  "transitionHistory (persistToDb b) = transitionHistory b"
  "failureThreshold (persistToDb b) = failureThreshold b"
  "degradationThreshold (persistToDb b) = degradationThreshold b"
  "cooldownByKind (persistToDb b) = cooldownByKind b" "kindThresholds (persistToDb b) = kindThresholds b"
  "resetTimeout (persistToDb b) = resetTimeout b"
  "maxBackoffMultiplier (persistToDb b) = maxBackoffMultiplier b"
  "backoffEscalationCount (persistToDb b) = backoffEscalationCount b"
  "cbName (persistToDb b) = cbName b" "cbDbUp (persistToDb b) = cbDbUp b"
  by (simp_all add: persistToDb_def)

lemma transition_ok [wf_intros]: "breaker_ok b \<Longrightarrow> breaker_ok (transition now s r b)"
  using transition_history [of b now s r] by (simp add: breaker_ok_def)

lemma persist_ok [simp]: "breaker_ok (persistToDb b) = breaker_ok b"
  by (simp add: breaker_ok_def)

lemma refresh_ok [wf_intros]: "breaker_ok b \<Longrightarrow> breaker_ok (refreshOpenState now b)"
  by (simp add: refreshOpenState_def transition_ok)

lemma begin_execute_ok [wf_intros]:
  assumes "breaker_ok b"
  shows "breaker_ok (snd (begin_execute now b))"
  using refresh_ok [OF assms, of now]
  by (auto simp: begin_execute_def Let_def breaker_ok_def)

lemma onSuccess_ok [wf_intros]:
  assumes "breaker_ok b"
  shows "breaker_ok (onSuccess now b)"
  using assms transition_history
  by (cases "cbState b") (auto simp: onSuccess_def Let_def breaker_ok_def)

lemma count_failure_simps [simp]:
  "cbState (count_failure now k b) = cbState b"
  "failureCount (count_failure now k b) = failureCount b + 1"
  "openCycleCount (count_failure now k b) = openCycleCount b"
  "halfOpenRequests (count_failure now k b) = halfOpenRequests b"
  "halfOpenAllowed (count_failure now k b) = halfOpenAllowed b"
  "lastFailureTime (count_failure now k b) = Some now" "lastFailureKind (count_failure now k b) = k"
  "transitionHistory (count_failure now k b) = transitionHistory b"
  "cbSaved (count_failure now k b) = cbSaved b" "cbDbUp (count_failure now k b) = cbDbUp b"
  "failureThreshold (count_failure now k b) = failureThreshold b"
  "degradationThreshold (count_failure now k b) = degradationThreshold b"
  "kindThresholds (count_failure now k b) = kindThresholds b"
  by (simp_all add: count_failure_def Let_def split: option.split)

lemma onFailure_ok [wf_intros]:
  assumes "breaker_ok b"
  shows "breaker_ok (onFailure now k b)"
proof -
  have c: "breaker_ok (count_failure now k b)" using assms by (simp add: breaker_ok_def)
  then have "breaker_ok (transition now s r (count_failure now k b))" for s r by (rule transition_ok)
  moreover have "breaker_ok ((count_failure now k b)\<lparr>openCycleCount := openCycleCount b + 1\<rparr>)"
    using c by (simp add: breaker_ok_def)
  ultimately show ?thesis using c
    by (simp add: onFailure_def Let_def openCircuit_def transition_ok)
qed

lemma reset_breaker_ok [wf_intros]:
  assumes "breaker_ok b"
  shows "breaker_ok (reset_breaker now b)"
  using transition_ok [OF assms, of now CLOSED "Some ''manual-reset''"]
  by (simp add: reset_breaker_def breaker_ok_def)

lemma getRetryAfterMs_snd: "snd (getRetryAfterMs now b) = refreshOpenState now b"
  by (simp add: getRetryAfterMs_def Let_def)

lemma canExecute_snd: "snd (canExecute now b) = refreshOpenState now b"
  by (simp add: canExecute_def Let_def)

lemma getStatus_snd: "snd (getStatus now b) = refreshOpenState now (refreshOpenState now b)"
  by (simp add: getStatus_def Let_def case_prod_unfold getRetryAfterMs_snd)

lemma breaker_ok_db: "breaker_ok (b\<lparr>cbDbUp := up\<rparr>) = breaker_ok b"
  by (simp add: breaker_ok_def)

lemma breaker_step_ok:
  assumes "breaker_ok b"
  shows "breaker_ok (breaker_step b ev)"
proof -
  obtain now e where "ev = (now, e)" by (cases ev)
  with assms show ?thesis
    by (cases e) (auto simp: getRetryAfterMs_snd canExecute_snd getStatus_snd end_execute_def
        breaker_ok_db split: outcome.split intro!: wf_intros)
qed

interpretation breaker_run: step_invariant breaker_step "\<lambda>_ _. True" breaker_ok
  by unfold_locales (rule breaker_step_ok)

section \<open>The state machine\<close>

text \<open>The changes of state the code makes, and nothing else.\<close>

inductive state_move :: "CircuitState \<Rightarrow> CircuitState \<Rightarrow> bool" where
  elevated: "state_move CLOSED DEGRADED"
| tripped: "state_move CLOSED OPEN"
| worsened: "state_move DEGRADED OPEN"
| recovered: "state_move DEGRADED CLOSED"
| probing: "state_move OPEN HALF_OPEN"
| probe_failed: "state_move HALF_OPEN OPEN"
| probe_succeeded: "state_move HALF_OPEN CLOSED"
| late_success: "state_move OPEN CLOSED"

code_pred state_move .

inductive_cases state_move_from_closedE: "state_move CLOSED s"

inductive_cases state_move_to_half_openE: "state_move s HALF_OPEN"

lemma refresh_move:
  "cbState (refreshOpenState now b) = cbState b \<or> state_move (cbState b) (cbState (refreshOpenState now b))"
  by (auto simp: refreshOpenState_def intro: state_move.intros)

lemma refresh_refresh:
  "cbState (refreshOpenState now (refreshOpenState now b)) = cbState (refreshOpenState now b)"
  by (auto simp: refreshOpenState_def)

lemma begin_execute_state: "cbState (snd (begin_execute now b)) = cbState (refreshOpenState now b)"
  by (simp add: begin_execute_def Let_def)

lemma onSuccess_move:
  "cbState (onSuccess now b) = cbState b \<or> state_move (cbState b) (cbState (onSuccess now b))"
  by (cases "cbState b") (auto simp: onSuccess_def Let_def intro: state_move.intros)

lemma onFailure_move:
  "cbState (onFailure now k b) = cbState b \<or> state_move (cbState b) (cbState (onFailure now k b))"
  by (cases "cbState b") (auto simp: onFailure_def Let_def openCircuit_def intro: state_move.intros)

lemma breaker_step_move:
  assumes "snd ev \<noteq> Br_reset"
  shows "cbState (breaker_step b ev) = cbState b \<or> state_move (cbState b) (cbState (breaker_step b ev))"
proof -
  obtain now e where "ev = (now, e)" by (cases ev)
  with assms show ?thesis
    using refresh_move [of now b] onSuccess_move [of now b] onFailure_move [of now _ b]
    by (cases e) (auto simp: getRetryAfterMs_snd canExecute_snd getStatus_snd refresh_refresh
        begin_execute_state end_execute_def split: outcome.split)
qed


section \<open>Opening and reopening\<close>

definition failing :: "CircuitBreaker \<Rightarrow> int list \<Rightarrow> CircuitBreaker" where
  "failing b ts = foldl (\<lambda>b t. onFailure t None b) b ts"

definition state_after :: "CircuitBreaker \<Rightarrow> int \<Rightarrow> CircuitState" where
  "state_after b n =
     (if n \<ge> failureThreshold b then OPEN else if n \<ge> degradationThreshold b then DEGRADED else CLOSED)"

lemma onFailure_plain:
  "onFailure t None b = persistToDb
     (if cbState b = OPEN then count_failure t None b
      else if cbState b = HALF_OPEN then
        transition t OPEN (Some (''probe-failed (cycle '' @ show_nat (nat (openCycleCount b + 1)) @ '')''))
          ((count_failure t None b)\<lparr>openCycleCount := openCycleCount b + 1\<rparr>)
      else if cbState b = DEGRADED then
        (if failureCount b + 1 \<ge> failureThreshold b then openCircuit t None (count_failure t None b)
         else count_failure t None b)
      else
        (if failureCount b + 1 \<ge> failureThreshold b then openCircuit t None (count_failure t None b)
         else if failureCount b + 1 \<ge> degradationThreshold b then
           transition t DEGRADED
             (Some (''elevated-failures ('' @ show_nat (nat (failureCount b + 1)) @ ''/'' @
                    show_nat (nat (failureThreshold b)) @ '')'')) (count_failure t None b)
         else count_failure t None b))"
  by (simp add: onFailure_def Let_def)

lemma failing_states:
  assumes "cbState b = CLOSED" "failureCount b = 0" "0 < degradationThreshold b" "0 < failureThreshold b"
  shows "failureCount (failing b ts) = int (length ts) \<and>
    cbState (failing b ts) = state_after b (int (length ts)) \<and>
    failureThreshold (failing b ts) = failureThreshold b \<and>
    degradationThreshold (failing b ts) = degradationThreshold b"
proof (induction ts rule: rev_induct)
  case Nil
  with assms show ?case by (simp add: failing_def state_after_def)
next
  case (snoc t ts)
  have "failing b (ts @ [t]) = onFailure t None (failing b ts)" by (simp add: failing_def)
  with snoc show ?case
    by (simp add: onFailure_plain openCircuit_def state_after_def)
qed

lemma open_rejects:
  assumes "cbState b = OPEN" "\<not> shouldAttemptReset now b"
  shows "begin_execute now b = (Inl (CircuitBreakerOpenError (timeUntilReset now b)), b)"
    "0 < timeUntilReset now b" "fst (canExecute now b) = False"
  using assms
  by (auto simp: begin_execute_def refreshOpenState_def canExecute_def timeUntilReset_def
      shouldAttemptReset_def Let_def split: if_splits)

lemma cooldown_elapses:
  assumes "cbState b = OPEN" "of_int later \<ge> of_int now + timeUntilReset now b"
  shows "shouldAttemptReset later b"
proof (cases "no_failure_time b")
  case True
  then show ?thesis by (simp add: shouldAttemptReset_def)
next
  case False
  have "effectiveCooldown b - of_int (now - opt_or (lastFailureTime b) 0) \<le> timeUntilReset now b"
    using False by (simp add: timeUntilReset_def)
  with assms(2) have "effectiveCooldown b \<le> of_int (later - opt_or (lastFailureTime b) 0)" by simp
  with False show ?thesis by (simp add: shouldAttemptReset_def)
qed

lemma reopens:
  assumes "cbState b = OPEN" "shouldAttemptReset now b" "0 < halfOpenRequests b"
  shows "fst (canExecute now b)" "cbState (snd (begin_execute now b)) = HALF_OPEN"
    "fst (begin_execute now b) = Inr ()"
    "halfOpenAllowed (snd (begin_execute now b)) = halfOpenRequests b - 1"
  using assms by (simp_all add: canExecute_def begin_execute_def refreshOpenState_def Let_def)


section \<open>Probing\<close>

definition granted :: "CircuitBreaker \<Rightarrow> int \<times> breaker_event \<Rightarrow> bool" where
  "granted b ev =
     (case ev of (now, Br_begin) \<Rightarrow> fst (begin_execute now b) = Inr () | _ \<Rightarrow> False)"

fun grants :: "CircuitBreaker \<Rightarrow> (int \<times> breaker_event) list \<Rightarrow> nat" where
  "grants b [] = 0"
| "grants b (ev # evs) = (if granted b ev then 1 else 0) + grants (breaker_step b ev) evs"

text \<open>Events that decide no probe: new calls, queries, and calls that ended in an error that
  does not count.\<close>

definition undecided :: "int \<times> breaker_event \<Rightarrow> bool" where
  "undecided ev \<longleftrightarrow>
     (case snd ev of Br_reset \<Rightarrow> False
      | Br_end out \<Rightarrow> (case out of Succeeded \<Rightarrow> False | Failed counts k \<Rightarrow> \<not> counts)
      | _ \<Rightarrow> True)"

lemma half_open_step:
  assumes "cbState b = HALF_OPEN" "undecided ev"
  shows "cbState (breaker_step b ev) = HALF_OPEN"
    "halfOpenAllowed (breaker_step b ev) = halfOpenAllowed b - (if granted b ev then 1 else 0)"
    "granted b ev \<Longrightarrow> 0 < halfOpenAllowed b"
proof -
  obtain now e where ev: "ev = (now, e)" by (cases ev)
  have r: "refreshOpenState now b = b" using assms(1) by (simp add: refreshOpenState_def)
  show "cbState (breaker_step b ev) = HALF_OPEN"
    "halfOpenAllowed (breaker_step b ev) = halfOpenAllowed b - (if granted b ev then 1 else 0)"
    using assms r
    by (cases e; auto simp: ev undecided_def granted_def begin_execute_def Let_def end_execute_def
        canExecute_snd getStatus_snd getRetryAfterMs_snd split: outcome.splits)+
  show "0 < halfOpenAllowed b" if "granted b ev"
    using that assms r
    by (cases e) (auto simp: ev granted_def begin_execute_def Let_def split: if_splits)
qed

lemma half_open_grants:
  "cbState b = HALF_OPEN \<Longrightarrow> 0 \<le> halfOpenAllowed b \<Longrightarrow> (\<forall>ev\<in>set evs. undecided ev) \<Longrightarrow>
   cbState (foldl breaker_step b evs) = HALF_OPEN \<and>
   halfOpenAllowed (foldl breaker_step b evs) = halfOpenAllowed b - int (grants b evs) \<and>
   0 \<le> halfOpenAllowed (foldl breaker_step b evs)"
proof (induction evs arbitrary: b)
  case Nil
  then show ?case by simp
next
  case (Cons ev evs)
  have u: "undecided ev" using Cons.prems(3) by simp
  note s = half_open_step [OF Cons.prems(1) u]
  from Cons.IH [OF s(1)] s(2,3) Cons.prems(2,3) show ?case by (cases "granted b ev") auto
qed

text \<open>Once the probes are used up and none of them was counted, nothing but a reset moves it.\<close>

lemma half_open_stuck:
  assumes "cbState b = HALF_OPEN" "halfOpenAllowed b = 0" "\<forall>ev\<in>set evs. undecided ev"
  shows "cbState (foldl breaker_step b evs) = HALF_OPEN"
    "fst (canExecute now (foldl breaker_step b evs)) = False"
    "\<exists>ms. fst (begin_execute now (foldl breaker_step b evs)) = Inl (CircuitBreakerOpenError ms)"
proof -
  let ?b = "foldl breaker_step b evs"
  have h: "cbState ?b = HALF_OPEN" "halfOpenAllowed ?b \<le> 0"
    using half_open_grants [OF assms(1) _ assms(3)] assms(2) by simp_all
  then have "refreshOpenState now ?b = ?b" by (simp add: refreshOpenState_def)
  with h show "cbState ?b = HALF_OPEN" "fst (canExecute now ?b) = False"
    "\<exists>ms. fst (begin_execute now ?b) = Inl (CircuitBreakerOpenError ms)"
    by (simp_all add: canExecute_def begin_execute_def Let_def)
qed


section \<open>Backoff\<close>

lemma effectiveResetTimeout_range:
  assumes "0 \<le> resetTimeout b" "1 \<le> maxBackoffMultiplier b"
  shows "resetTimeout b \<le> effectiveResetTimeout b"
    "effectiveResetTimeout b \<le> resetTimeout b * maxBackoffMultiplier b"
proof -
  have "resetTimeout b * 1 \<le> resetTimeout b * maxBackoffMultiplier b"
    using assms by (intro mult_left_mono) auto
  moreover have "resetTimeout b * 1 \<le> resetTimeout b * 2 ^ n" for n
    using assms(1) by (intro mult_left_mono) auto
  ultimately show "resetTimeout b \<le> effectiveResetTimeout b"
    "effectiveResetTimeout b \<le> resetTimeout b * maxBackoffMultiplier b"
    by (simp_all add: effectiveResetTimeout_def)
qed

lemma effectiveResetTimeout_mono:
  assumes "0 \<le> resetTimeout b" "1 \<le> maxBackoffMultiplier b" "openCycleCount b \<le> n"
  shows "effectiveResetTimeout b \<le> effectiveResetTimeout (b\<lparr>openCycleCount := n\<rparr>)"
proof (cases "openCycleCount b \<le> backoffEscalationCount b")
  case True
  have "effectiveResetTimeout b = resetTimeout b" using True by (simp add: effectiveResetTimeout_def)
  with effectiveResetTimeout_range(1) [of "b\<lparr>openCycleCount := n\<rparr>"] assms show ?thesis by simp
next
  case False
  have "resetTimeout b * 2 ^ nat (openCycleCount b - backoffEscalationCount b)
      \<le> resetTimeout b * 2 ^ nat (n - backoffEscalationCount b)"
    using assms by (intro mult_left_mono power_increasing nat_mono) auto
  with False assms(3) show ?thesis by (auto simp: effectiveResetTimeout_def)
qed

lemma probe_failure_cycle:
  assumes "cbState b = HALF_OPEN" "\<And>x. k = Some x \<Longrightarrow> \<not> kind_opens (count_failure now k b) x"
  shows "cbState (onFailure now k b) = OPEN" "openCycleCount (onFailure now k b) = openCycleCount b + 1"
  using assms by (auto simp: onFailure_def Let_def split: option.split)

lemma kind_failure:
  assumes "kind_opens (count_failure now (Some k) b) k"
  shows "cbState (onFailure now (Some k) b) = OPEN"
    "openCycleCount (onFailure now (Some k) b) = openCycleCount b"
    "cbSaved (onFailure now (Some k) b) = cbSaved b"
  using assms by (simp_all add: onFailure_def Let_def openCircuit_def)


section \<open>Persistence\<close>

definition saved_now :: "CircuitBreaker \<Rightarrow> bool" where
  "saved_now b \<longleftrightarrow> cbSaved b = Some
     \<lparr>svState = cbState b, svFailureCount = failureCount b, svLastFailureTime = lastFailureTime b,
      svLastFailureKind = lastFailureKind b, svOpenCycleCount = openCycleCount b,
      svKindFailureCounts = kindFailureCounts b\<rparr>"

lemma saved_now_persist [simp]: "cbDbUp b \<Longrightarrow> saved_now (persistToDb b)"
  by (simp add: saved_now_def persistToDb_def)

lemma unsaved_persist [simp]: "\<not> cbDbUp b \<Longrightarrow> persistToDb b = b"
  by (simp add: persistToDb_def)

lemma saved_refresh: "saved_now b \<Longrightarrow> cbDbUp b \<Longrightarrow> saved_now (refreshOpenState now b)"
  by (simp add: refreshOpenState_def)

lemma refresh_db [simp]: "cbDbUp (refreshOpenState now b) = cbDbUp b"
  by (simp add: refreshOpenState_def)

lemma saved_ghost [simp]:
  "saved_now (b\<lparr>halfOpenAllowed := n\<rparr>) = saved_now b" "saved_now (b\<lparr>cbDbUp := up\<rparr>) = saved_now b"
  by (simp_all add: saved_now_def)

text \<open>Events other than a failure that crosses the threshold of its kind, and the events of a run
  that always save: a success, a failure that crosses no such threshold, and a manual reset.\<close>

definition plain_failure :: "CircuitBreaker \<Rightarrow> int \<times> breaker_event \<Rightarrow> bool" where
  "plain_failure b ev \<longleftrightarrow>
     (case ev of (now, Br_end (Failed True (Some k))) \<Rightarrow> \<not> kind_opens (count_failure now (Some k) b) k
      | _ \<Rightarrow> True)"

definition counted_event :: "int \<times> breaker_event \<Rightarrow> bool" where
  "counted_event ev \<longleftrightarrow>
     (case snd ev of Br_reset \<Rightarrow> True
      | Br_end out \<Rightarrow> (case out of Succeeded \<Rightarrow> True | Failed counts k \<Rightarrow> counts)
      | _ \<Rightarrow> False)"

definition keeps_saved :: "CircuitBreaker \<Rightarrow> int \<times> breaker_event \<Rightarrow> bool" where
  "keeps_saved b ev \<longleftrightarrow> cbDbUp b \<and> plain_failure b ev"

lemma onFailure_saved:
  assumes "cbDbUp b"
  shows "saved_now (onFailure now None b)"
    "\<not> kind_opens (count_failure now (Some k) b) k \<Longrightarrow> saved_now (onFailure now (Some k) b)"
  using assms by (simp_all add: onFailure_def openCircuit_def Let_def)

lemma onSuccess_saved: "cbDbUp b \<Longrightarrow> saved_now (onSuccess now b)"
  by (simp add: onSuccess_def Let_def)

lemma reset_saved: "cbDbUp b \<Longrightarrow> saved_now (reset_breaker now b)"
  by (simp add: reset_breaker_def)

lemma breaker_step_saves:
  assumes "keeps_saved b ev" "counted_event ev"
  shows "saved_now (breaker_step b ev)"
proof -
  obtain now e where ev: "ev = (now, e)" by (cases ev)
  with assms onFailure_saved [of b now] onSuccess_saved [of b now] reset_saved [of b now] show ?thesis
    by (cases e) (auto simp: keeps_saved_def plain_failure_def counted_event_def end_execute_def
        split: outcome.splits option.splits)
qed

lemma breaker_step_saved:
  assumes "saved_now b" "keeps_saved b ev"
  shows "saved_now (breaker_step b ev)"
proof (cases "counted_event ev")
  case True
  with assms(2) show ?thesis by (rule breaker_step_saves)
next
  case False
  obtain now e where ev: "ev = (now, e)" by (cases ev)
  have "saved_now (refreshOpenState now b)"
    using assms by (simp add: keeps_saved_def saved_refresh)
  moreover from this have "saved_now (snd (begin_execute now b))"
    by (simp add: begin_execute_def Let_def)
  ultimately show ?thesis
    using assms False
    by (cases e) (auto simp: ev counted_event_def keeps_saved_def end_execute_def getRetryAfterMs_snd
        canExecute_snd getStatus_snd saved_refresh split: outcome.splits)
qed

interpretation breaker_saved: step_invariant breaker_step keeps_saved saved_now
  by unfold_locales (rule breaker_step_saved)

text \<open>While the database is down, nothing changes the row.\<close>

definition db_down :: "CircuitBreaker \<Rightarrow> int \<times> breaker_event \<Rightarrow> bool" where
  "db_down b ev \<longleftrightarrow> \<not> cbDbUp b"

lemma down_simps:
  assumes "\<not> cbDbUp b"
  shows "cbSaved (refreshOpenState now b) = cbSaved b" "cbSaved (onSuccess now b) = cbSaved b"
    "cbSaved (onFailure now k b) = cbSaved b" "cbSaved (reset_breaker now b) = cbSaved b"
  using assms
  by (simp_all add: refreshOpenState_def onSuccess_def onFailure_def openCircuit_def
      reset_breaker_def Let_def split: option.split)

lemma breaker_step_down: "db_down b ev \<Longrightarrow> cbSaved (breaker_step b ev) = cbSaved b"
proof -
  obtain now e where ev: "ev = (now, e)" by (cases ev)
  assume "db_down b ev"
  then have "\<not> cbDbUp b" by (simp add: db_down_def)
  then show ?thesis
    by (cases e) (auto simp: ev down_simps begin_execute_def end_execute_def getRetryAfterMs_snd
        canExecute_snd getStatus_snd Let_def split: outcome.split)
qed

interpretation breaker_down: step_invariant breaker_step db_down "\<lambda>b. cbSaved b = row" for row
  by unfold_locales (simp add: breaker_step_down)

lemma restore_saved:
  assumes "saved_now b" and r_def: "r = new_breaker name opts True (cbSaved b)"
  shows "cbState r = cbState b" "failureCount r = failureCount b"
    "lastFailureTime r = (if lastFailureTime b = Some 0 then None else lastFailureTime b)"
    "lastFailureKind r = lastFailureKind b" "openCycleCount r = openCycleCount b"
    "kindFailureCounts r = kindFailureCounts b"
    "cbState b = HALF_OPEN \<Longrightarrow> halfOpenAllowed r = opt_or (optHalfOpenRequests opts) 1"
  unfolding r_def assms(1) [unfolded saved_now_def] new_breaker_def restoreFromDb_def Let_def
    loaded_failure_time_def
  by (simp_all split: option.split)

section \<open>The registry stays bounded and keeps what matters\<close>

lemma fold_put_breaker:
  "js_map_ok (xs @ ys) \<Longrightarrow> rgMap rg = xs @ ys \<Longrightarrow>
   rgMap (fold (\<lambda>(n, b). put_breaker n (f b)) ys rg) = xs @ map (\<lambda>(n, b). (n, f b)) ys"
proof (induction ys arbitrary: xs rg)
  case Nil
  then show ?case by simp
next
  case (Cons y ys)
  obtain n b where y: "y = (n, b)" by (cases y)
  have n: "n \<notin> set (js_keys xs)" using Cons.prems(1) y by auto
  have "rgMap (put_breaker n (f b) rg) = (xs @ [(n, f b)]) @ ys"
    using Cons.prems(2) y n by (simp add: put_breaker_def)
  moreover have "js_map_ok ((xs @ [(n, f b)]) @ ys)" using Cons.prems(1) y by simp
  ultimately show ?case using Cons.IH [of "xs @ [(n, f b)]"] y by simp
qed

lemma refresh_all_map:
  "js_map_ok (rgMap rg) \<Longrightarrow>
   rgMap (refresh_all now rg) = map (\<lambda>(n, b). (n, snd (getStatus now b))) (rgMap rg)"
  using fold_put_breaker [of "[]" "rgMap rg" rg "\<lambda>b. snd (getStatus now b)"]
  by (simp add: refresh_all_def)

lemma fold_drop_breaker:
  "rgMap (fold drop_breaker ns rg) = filter (\<lambda>(n, b). n \<notin> set ns) (rgMap rg)"
proof (induction ns arbitrary: rg)
  case Nil
  then show ?case by (simp add: case_prod_unfold)
next
  case (Cons n ns)
  then show ?case
    by (auto simp: drop_breaker_def AList.delete_eq case_prod_unfold intro!: filter_cong)
qed

definition cold_candidates :: "(string, CircuitBreaker) js_map \<Rightarrow> (string \<times> int) list" where
  "cold_candidates m = sort_key snd
     (map (\<lambda>(n, b). (n, opt_or (lastFailureTime b) 0)) (filter (\<lambda>(n, b). cold b) m))"

lemma cold_candidates_cold:
  "js_map_ok m \<Longrightarrow> (n, b) \<in> set m \<Longrightarrow> n \<in> set (map fst (cold_candidates m)) \<Longrightarrow> cold b"
  by (auto simp: cold_candidates_def dest: eq_key_imp_eq_value)

lemma evict_map:
  assumes "js_map_ok (rgMap rg)" "MAX_REGISTRY_SIZE \<le> length (rgMap rg)"
    and m_def: "m = map (\<lambda>(n, b). (n, snd (getStatus now b))) (rgMap rg)"
  shows "rgMap (evictColdBreakersIfNeeded now rg) =
    filter (\<lambda>(n, b). n \<notin> set (map fst (take (length (rgMap rg) - MAX_REGISTRY_SIZE + 1)
      (cold_candidates m)))) m"
  using assms(2) refresh_all_map [OF assms(1), of now]
  by (simp add: evictColdBreakersIfNeeded_def Let_def fold_drop_breaker cold_candidates_def m_def)

lemma evict_keeps_hot:
  assumes "js_map_ok (rgMap rg)" "js_get (rgMap rg) n = Some b" "\<not> cold (snd (getStatus now b))"
  shows "js_has (rgMap (evictColdBreakersIfNeeded now rg)) n"
proof (cases "length (rgMap rg) < MAX_REGISTRY_SIZE")
  case True
  with assms(2) show ?thesis by (simp add: evictColdBreakersIfNeeded_def js_has_def)
next
  case False
  define m where "m = map (\<lambda>(n, b). (n, snd (getStatus now b))) (rgMap rg)"
  have "js_keys m = js_keys (rgMap rg)" by (simp add: m_def case_prod_unfold comp_def)
  then have ok: "js_map_ok m" using assms(1) by metis
  have in_m: "(n, snd (getStatus now b)) \<in> set m"
    using map_of_SomeD [OF assms(2)] by (force simp: m_def)
  have "n \<notin> set (map fst (cold_candidates m))"
    using cold_candidates_cold [OF ok in_m] assms(3) by blast
  then have "n \<notin> set (map fst (take k (cold_candidates m)))" for k
    by (auto dest: in_set_takeD)
  with in_m evict_map [OF assms(1) _ m_def] False show ?thesis
    by (force simp: js_has_keys m_def [symmetric])
qed

lemma length_filter_notin:
  assumes "js_map_ok m" "distinct ks" "set ks \<subseteq> set (js_keys m)"
  shows "length (filter (\<lambda>(n, b). n \<notin> set ks) m) = length m - length ks"
proof -
  have "length (filter (\<lambda>(n, b). n \<notin> set ks) m) = card (set (js_keys m) - set ks)"
  proof -
    have d: "distinct (map fst (filter (\<lambda>(n, b). n \<notin> set ks) m))" using assms(1) by (rule distinct_map_filter)
    have "set (map fst (filter (\<lambda>(n, b). n \<notin> set ks) m)) = set (js_keys m) - set ks" by force
    with distinct_card [OF d] show ?thesis by simp
  qed
  also have "\<dots> = length m - length ks"
  proof -
    have "card (set (js_keys m)) = length m" using distinct_card [OF assms(1)] by simp
    moreover have "card (set ks) = length ks" using assms(2) by (rule distinct_card)
    ultimately show ?thesis using card_Diff_subset [OF finite_set assms(3)] by simp
  qed
  finally show ?thesis .
qed

lemma evict_makes_room:
  assumes "js_map_ok (rgMap rg)" "length (rgMap rg) \<le> MAX_REGISTRY_SIZE"
    "(n, b) \<in> set (rgMap rg)" "cold (snd (getStatus now b))"
  shows "length (rgMap (evictColdBreakersIfNeeded now rg)) < MAX_REGISTRY_SIZE"
proof (cases "length (rgMap rg) < MAX_REGISTRY_SIZE")
  case True
  then show ?thesis by (simp add: evictColdBreakersIfNeeded_def)
next
  case False
  then have len: "length (rgMap rg) = MAX_REGISTRY_SIZE" using assms(2) by simp
  define m where "m = map (\<lambda>(n, b). (n, snd (getStatus now b))) (rgMap rg)"
  have keys: "js_keys m = js_keys (rgMap rg)" by (simp add: m_def case_prod_unfold comp_def)
  then have ok: "js_map_ok m" using assms(1) by metis
  have "(n, snd (getStatus now b)) \<in> set m" using assms(3) by (force simp: m_def)
  with assms(4) have "(n, opt_or (lastFailureTime (snd (getStatus now b))) 0) \<in> set (cold_candidates m)"
    by (force simp: cold_candidates_def)
  then obtain c cs where c: "cold_candidates m = c # cs" by (cases "cold_candidates m") auto
  then have "c \<in> set (cold_candidates m)" by simp
  then have sub: "fst c \<in> set (js_keys m)" by (force simp: cold_candidates_def)
  have "rgMap (evictColdBreakersIfNeeded now rg) = filter (\<lambda>(n, b). n \<notin> set [fst c]) m"
    using evict_map [OF assms(1) _ m_def] len c by simp
  also have "length \<dots> = length m - length [fst c]"
    using length_filter_notin [OF ok, of "[fst c]"] sub by simp
  finally show ?thesis using len by (simp add: m_def MAX_REGISTRY_SIZE_def)
qed

section \<open>Properties\<close>

definition demo_breaker :: CircuitBreaker where
  "demo_breaker = new_breaker ''p'' no_options True None"

lemma demo_breaker_fields:
  "cbState demo_breaker = CLOSED" "failureCount demo_breaker = 0" "failureThreshold demo_breaker = 5"
  "degradationThreshold demo_breaker = 3" "halfOpenRequests demo_breaker = 1"
  by (simp_all add: demo_breaker_def new_breaker_def restoreFromDb_def no_options_def opt_or_def)

text \<open>A breaker that failed five times at times 1 to 5, and one whose cooldown has elapsed since.\<close>

definition demo_open :: CircuitBreaker where
  "demo_open = failing demo_breaker [1, 2, 3, 4, 5]"

definition demo_half_open :: CircuitBreaker where
  "demo_half_open = snd (canExecute 30005 demo_open)"

lemma demo_open_fields:
  "cbState demo_open = OPEN" "lastFailureTime demo_open = Some 5" "halfOpenRequests demo_open = 1"
  "lastFailureKind demo_open = None" "openCycleCount demo_open = 0" "resetTimeout demo_open = 30000"
  "backoffEscalationCount demo_open = 3" "cbDbUp demo_open"
  by (simp_all add: demo_open_def failing_def demo_breaker_def new_breaker_def restoreFromDb_def
      no_options_def opt_or_def onFailure_plain count_failure_def openCircuit_def)

lemma demo_open_cooldown:
  "\<not> shouldAttemptReset 100 demo_open" "shouldAttemptReset 30005 demo_open"
  by (simp_all add: shouldAttemptReset_def no_failure_time_def demo_open_fields effectiveCooldown_def
      effectiveResetTimeout_def opt_or_def)

lemma demo_half_open_fields:
  "cbState demo_half_open = HALF_OPEN" "halfOpenAllowed demo_half_open = 1"
  by (simp_all add: demo_half_open_def canExecute_def refreshOpenState_def demo_open_fields
      demo_open_cooldown)

text \<open>
  Counting failures of a closed breaker with no success in between: below the degradation
  threshold it stays closed, from there on it is degraded, and from the failure threshold on it
  is open, whatever the times of the failures.
\<close>

lemma consecutive_failures_open:
  assumes "cbState b = CLOSED" "failureCount b = 0" "0 < degradationThreshold b" "0 < failureThreshold b"
  shows "cbState (foldl (\<lambda>b t. onFailure t None b) b ts) =
     (if int (length ts) \<ge> failureThreshold b then OPEN
      else if int (length ts) \<ge> degradationThreshold b then DEGRADED else CLOSED)"
  using failing_states [OF assms, of ts] by (simp add: failing_def state_after_def)

text \<open>
  Every event except a manual reset either keeps the breaker's state or makes one of the eight
  moves of the state machine; in particular a closed or degraded breaker never goes straight to
  half-open, and a half-open one never to degraded.
\<close>

lemma breaker_moves:
  assumes "snd ev \<noteq> Br_reset" "cbState (breaker_step b ev) \<noteq> cbState b"
  shows "state_move (cbState b) (cbState (breaker_step b ev))
    \<and> (cbState (breaker_step b ev) = HALF_OPEN \<longrightarrow> cbState b = OPEN)
    \<and> (cbState (breaker_step b ev) = DEGRADED \<longrightarrow> cbState b = CLOSED)"
proof -
  have m: "state_move (cbState b) (cbState (breaker_step b ev))"
    using breaker_step_move [OF assms(1), of b] assms(2) by blast
  then show ?thesis by (auto elim: state_move.cases)
qed

text \<open>
  An open breaker rejects every call and changes nothing until its cooldown has elapsed, and
  the remaining time it reports is the truth: at any time from then on, the next call is let
  through as a probe.
\<close>

lemma open_until_cooldown:
  assumes "cbState b = OPEN" "\<not> shouldAttemptReset now b" "0 < halfOpenRequests b"
    "of_int later \<ge> of_int now + timeUntilReset now b"
  shows "begin_execute now b = (Inl (CircuitBreakerOpenError (timeUntilReset now b)), b)
    \<and> 0 < timeUntilReset now b \<and> \<not> fst (canExecute now b)
    \<and> fst (canExecute later b) \<and> fst (begin_execute later b) = Inr ()
    \<and> cbState (snd (begin_execute later b)) = HALF_OPEN"
  using open_rejects [OF assms(1,2)] reopens [OF assms(1) cooldown_elapses [OF assms(1,4)] assms(3)]
  by simp

text \<open>
  From the moment a breaker becomes half-open until a probe's result is counted, at most
  \<open>halfOpenRequests\<close> calls are let through, whatever calls, queries and uncounted errors come in
  between, and the breaker stays half-open.
\<close>

lemma probes_bounded:
  assumes "cbState b = OPEN" "shouldAttemptReset now b" "0 \<le> halfOpenRequests b"
    "\<forall>ev \<in> set evs. undecided ev"
  shows "int (grants (snd (canExecute now b)) evs) \<le> halfOpenRequests b
    \<and> cbState (foldl breaker_step (snd (canExecute now b)) evs) = HALF_OPEN"
proof -
  have "cbState (snd (canExecute now b)) = HALF_OPEN"
    "halfOpenAllowed (snd (canExecute now b)) = halfOpenRequests b"
    using assms(1,2) by (simp_all add: canExecute_def refreshOpenState_def Let_def)
  with half_open_grants [of "snd (canExecute now b)" evs] assms(3,4) show ?thesis by simp
qed

text \<open>
  A half-open breaker whose probes have all been handed out and ended in errors that
  \<open>isFailure\<close> does not count (a client abort) stays half-open and rejects every further call:
  neither time nor any later call, query or uncounted error frees it, only a counted result of a
  probe still running or a manual reset.
\<close>

lemma uncounted_probes_wedge:
  assumes "cbState b = HALF_OPEN" "halfOpenAllowed b = 0" "\<forall>ev \<in> set evs. undecided ev"
  shows "cbState (foldl breaker_step b evs) = HALF_OPEN
    \<and> \<not> fst (canExecute now (foldl breaker_step b evs))
    \<and> (\<exists>ms. fst (begin_execute now (foldl breaker_step b evs)) = Inl (CircuitBreakerOpenError ms))"
  using half_open_stuck [OF assms] by simp

text \<open>
  C8: a breaker rebuilt after a restart continues where the row left it. Take a breaker in any state
  \<open>b\<^sub>0\<close>, its row up to date or not. Once it has counted a success or a failure, or
  was reset, while the database could be written (\<open>ev\<close>), the row is the current state, and it stays
  so through any further events while the database can be written (\<open>up\<close>). If the database then cannot be
  written any more, the failing saves are swallowed and the row keeps the last state before that,
  whatever the breaker does (\<open>down\<close>). A breaker rebuilt from the row in a readable database has
  the state, counts, last failure and open-cycle count of that moment (a failure time of 0 is read
  as none, which the breaker treats alike), with its probes refilled if it was half-open.
  Excluded from \<open>ev\<close> and \<open>up\<close>, and only there: a failure that crosses a per-kind threshold,
  which the code does not save (\<open>kind_threshold_unsaved\<close> below).
\<close>

theorem restart_restores:
  assumes "keeps_saved b\<^sub>0 ev" "counted_event ev"
    and "breaker_saved.run_ok (breaker_step b\<^sub>0 ev) up"
    and "b = foldl breaker_step (breaker_step b\<^sub>0 ev) up"
    and "breaker_down.run_ok b down"
    and "r = new_breaker name opts True (cbSaved (foldl breaker_step b down))"
  shows "cbState r = cbState b \<and> failureCount r = failureCount b
    \<and> lastFailureTime r = (if lastFailureTime b = Some 0 then None else lastFailureTime b)
    \<and> lastFailureKind r = lastFailureKind b \<and> openCycleCount r = openCycleCount b
    \<and> kindFailureCounts r = kindFailureCounts b
    \<and> (cbState b = HALF_OPEN \<longrightarrow> halfOpenAllowed r = opt_or (optHalfOpenRequests opts) 1)"
proof -
  have saved: "saved_now b"
    unfolding assms(4) by (rule breaker_saved.run_good [OF breaker_step_saves [OF assms(1,2)] assms(3)])
  have "r = new_breaker name opts True (cbSaved b)"
    using breaker_down.run_good [OF refl assms(5)] assms(6) by simp
  note restored = restore_saved [OF saved this]
  show ?thesis by (intro conjI impI) (fact restored)+
qed

text \<open>
  The fifth failure opens the breaker, a call at time 30005 makes it half-open, the database goes
  away, and the probe succeeds without being saved: after the restart the breaker is half-open.
\<close>

definition demo_failing :: CircuitBreaker where
  "demo_failing = foldl breaker_step demo_breaker (map (\<lambda>t. (t, Br_end (Failed True None))) [1, 2, 3, 4])"

lemma demo_failing_open: "breaker_step demo_failing (5, Br_end (Failed True None)) = demo_open"
  by (simp add: demo_failing_def demo_open_def failing_def end_execute_def)

lemma onFailure_db: "cbDbUp (onFailure now k b) = cbDbUp b"
  by (simp add: onFailure_def openCircuit_def Let_def split: option.split)

lemma begin_execute_db: "cbDbUp (snd (begin_execute now b)) = cbDbUp b"
  by (simp add: begin_execute_def Let_def)

lemma demo_failing_db: "cbDbUp demo_failing"
  by (simp add: demo_failing_def end_execute_def onFailure_db demo_breaker_def new_breaker_def
      restoreFromDb_def Let_def)

theorem restart_restores_witness:
  "cbState (foldl breaker_step demo_open
       [(30005, Br_begin), (30005, Br_db False), (30006, Br_end Succeeded)]) = CLOSED
   \<and> cbState (new_breaker ''p'' no_options True (cbSaved (foldl breaker_step demo_open
       [(30005, Br_begin), (30005, Br_db False), (30006, Br_end Succeeded)]))) = HALF_OPEN"
  using restart_restores [of demo_failing "(5, Br_end (Failed True None))"
      "[(30005, Br_begin), (30005, Br_db False)]" _ "[(30006, Br_end Succeeded)]" _ "''p''" no_options,
      unfolded demo_failing_open, OF _ _ _ refl _ refl]
    reopens(2) [OF demo_open_fields(1) demo_open_cooldown(2)]
  by (simp add: keeps_saved_def plain_failure_def counted_event_def db_down_def demo_failing_db
      demo_open_fields begin_execute_db end_execute_def onSuccess_def)

text \<open>
  A failure that crosses the threshold of its kind opens the breaker without saving it and
  without counting an open cycle, even out of half-open: the row in the database keeps the state
  from before the failure, and the backoff does not escalate.
\<close>

lemma kind_threshold_unsaved:
  assumes "kind_opens (count_failure now (Some k) b) k"
  shows "cbState (onFailure now (Some k) b) = OPEN \<and> cbSaved (onFailure now (Some k) b) = cbSaved b
    \<and> openCycleCount (onFailure now (Some k) b) = openCycleCount b"
  using kind_failure [OF assms] by simp

text \<open>
  The registry never evicts a breaker that is doing something: a breaker that is not closed
  without failures after its state was refreshed survives every eviction, and when the registry
  is full one that can be evicted makes room for a new one.
\<close>

lemma eviction_spares_active:
  assumes "js_map_ok (rgMap rg)" "js_get (rgMap rg) n = Some b"
  shows "(\<not> cold (snd (getStatus now b)) \<longrightarrow> js_has (rgMap (evictColdBreakersIfNeeded now rg)) n)
    \<and> (length (rgMap rg) \<le> MAX_REGISTRY_SIZE \<longrightarrow> cold (snd (getStatus now b)) \<longrightarrow>
         length (rgMap (evictColdBreakersIfNeeded now rg)) < MAX_REGISTRY_SIZE)"
  using evict_keeps_hot [OF assms] evict_makes_room [OF assms(1) _ map_of_SomeD [OF assms(2)]] by blast

end
