(* ===== verification/Sliding_Window.thy ===== *)
theory Sliding_Window
  imports Prelude
begin

text \<open>
  The trailing-window limiter of \<open>open-sse/services/slidingWindowLimiter.ts\<close>: hits per key,
  atomic acquisition over several scopes, leases that take their hits back, and the cap on the
  number of keys. A released lease is a list of \<open>(key, hit id)\<close> pairs.
\<close>


section \<open>Definitions\<close>

record RateLimitWindow =
  requests :: int
  windowLength :: int

record RateLimitScope =
  scopeKey :: string
  scopeWindow :: RateLimitWindow

record Hit =
  hitId :: nat
  timestamp :: int

record limiter =
  hits :: "(string, Hit list) js_map"
  nextHitId :: nat

record MultiAcquireResult =
  allowed :: bool
  retryAfterMs :: int
  lease :: "(string \<times> nat) list option"

definition MAX_KEYS :: nat where
  "MAX_KEYS = 5000"

definition new_limiter :: limiter where
  "new_limiter = \<lparr>hits = [], nextHitId = 1\<rparr>"

definition set_hits :: "string \<Rightarrow> Hit list \<Rightarrow> limiter \<Rightarrow> limiter" where
  "set_hits key live l =
     (if live = [] then l\<lparr>hits := js_delete key (hits l)\<rparr>
      else
        let h = (if \<not> js_has (hits l) key \<and> length (hits l) \<ge> MAX_KEYS
                 then (case hits l of [] \<Rightarrow> hits l | (oldest, _) # _ \<Rightarrow> js_delete oldest (hits l))
                 else hits l)
        in l\<lparr>hits := js_set key live h\<rparr>)"

text \<open>\<open>prepared\<close>: per scope the live hits and the wait until a slot frees.\<close>

definition live_hits :: "int \<Rightarrow> limiter \<Rightarrow> RateLimitScope \<Rightarrow> Hit list" where
  "live_hits now l s =
     (case js_get (hits l) (scopeKey s) of
        None \<Rightarrow> []
      | Some hs \<Rightarrow> filter (\<lambda>h. timestamp h > now - windowLength (scopeWindow s)) hs)"

definition scope_retry :: "int \<Rightarrow> limiter \<Rightarrow> RateLimitScope \<Rightarrow> int" where
  "scope_retry now l s =
     (let live = live_hits now l s in
      if int (length live) \<ge> requests (scopeWindow s)
      then max 0 ((case live of [] \<Rightarrow> 0 | h # _ \<Rightarrow> timestamp h) + windowLength (scopeWindow s) - now)
      else 0)"

definition active_scope :: "RateLimitScope \<Rightarrow> bool" where
  "active_scope s \<longleftrightarrow> requests (scopeWindow s) > 0 \<and> windowLength (scopeWindow s) > 0"

text \<open>One step of the recording loop: the new hit, and the key and id of the lease's entry.\<close>

definition record_hit ::
  "int \<Rightarrow> string \<times> Hit list \<Rightarrow> limiter \<times> (string \<times> nat) list \<Rightarrow> limiter \<times> (string \<times> nat) list" where
  "record_hit now p acc =
     (let (key, live) = p; (l, es) = acc; i = nextHitId l;
          l = set_hits key (live @ [\<lparr>hitId = i, timestamp = now\<rparr>]) (l\<lparr>nextHitId := i + 1\<rparr>)
      in (l, es @ [(key, i)]))"

definition tryAcquireMany ::
  "int \<Rightarrow> RateLimitScope list \<Rightarrow> limiter \<Rightarrow> MultiAcquireResult \<times> limiter" where
  "tryAcquireMany now scopes l =
     (let act = filter active_scope scopes in
      if act = [] then (\<lparr>allowed = True, retryAfterMs = 0, lease = None\<rparr>, l)
      else
        let prepared = map (\<lambda>s. (scopeKey s, live_hits now l s)) act;
            retry = foldl (\<lambda>mx s. max mx (scope_retry now l s)) 0 act;
            l1 = fold (\<lambda>(key, live). set_hits key live) prepared l
        in if retry > 0 then (\<lparr>allowed = False, retryAfterMs = retry, lease = None\<rparr>, l1)
           else
             let (l2, es) = fold (record_hit now) prepared (l1, [])
             in (\<lparr>allowed = True, retryAfterMs = 0, lease = Some es\<rparr>, l2))"

definition tryAcquire :: "int \<Rightarrow> string \<Rightarrow> RateLimitWindow \<Rightarrow> limiter \<Rightarrow> (bool \<times> int) \<times> limiter" where
  "tryAcquire now key w l =
     (let (r, l') = tryAcquireMany now [\<lparr>scopeKey = key, scopeWindow = w\<rparr>] l
      in ((allowed r, retryAfterMs r), l'))"

text \<open>\<open>lease.release\<close>, the first time it is called.\<close>

definition release_hit :: "string \<times> nat \<Rightarrow> limiter \<Rightarrow> limiter" where
  "release_hit e l =
     (case js_get (hits l) (fst e) of
        None \<Rightarrow> l
      | Some live \<Rightarrow>
          let remaining = filter (\<lambda>h. hitId h \<noteq> snd e) live in
          if length remaining > 0 then l\<lparr>hits := js_set (fst e) remaining (hits l)\<rparr>
          else l\<lparr>hits := js_delete (fst e) (hits l)\<rparr>)"

definition release_lease :: "(string \<times> nat) list \<Rightarrow> limiter \<Rightarrow> limiter" where
  "release_lease es l = fold release_hit es l"

definition reset_hits :: "string option \<Rightarrow> limiter \<Rightarrow> limiter" where
  "reset_hits k l =
     (case k of None \<Rightarrow> l\<lparr>hits := []\<rparr> | Some key \<Rightarrow> l\<lparr>hits := js_delete key (hits l)\<rparr>)"


section \<open>The invariant\<close>

text \<open>Keys are distinct and capped, no list of hits is empty, and hit ids are fresh.\<close>

definition limiter_ok :: "limiter \<Rightarrow> bool" where
  "limiter_ok l \<longleftrightarrow>
     js_map_ok (hits l) \<and> length (hits l) \<le> MAX_KEYS \<and>
     (\<forall>hs\<in>set (js_values (hits l)). hs \<noteq> [] \<and> (\<forall>h\<in>set hs. hitId h < nextHitId l))"

text \<open>The hits recorded under a key.\<close>

definition hits_of :: "limiter \<Rightarrow> string \<Rightarrow> Hit list" where
  "hits_of l k = (case js_get (hits l) k of None \<Rightarrow> [] | Some hs \<Rightarrow> hs)"

lemma new_limiter_ok [wf_intros]: "limiter_ok new_limiter"
  by (simp add: limiter_ok_def new_limiter_def)

lemma live_hits_of: "live_hits now l s =
    filter (\<lambda>h. timestamp h > now - windowLength (scopeWindow s)) (hits_of l (scopeKey s))"
  by (simp add: live_hits_def hits_of_def split: option.split)

lemma limiter_okI:
  assumes "js_map_ok (hits l)" "length (hits l) \<le> MAX_KEYS"
    "\<And>k hs. js_get (hits l) k = Some hs \<Longrightarrow> hs \<noteq> [] \<and> (\<forall>h\<in>set hs. hitId h < nextHitId l)"
  shows "limiter_ok l"
  using assms js_get_values [OF assms(1)] unfolding limiter_ok_def by blast

lemma limiter_okD:
  assumes "limiter_ok l"
  shows "js_map_ok (hits l)" "length (hits l) \<le> MAX_KEYS"
    "js_get (hits l) k = Some hs \<Longrightarrow> hs \<noteq> [] \<and> (\<forall>h\<in>set hs. hitId h < nextHitId l)"
  using assms js_values_get [of "hits l" k hs] by (auto simp: limiter_ok_def)

lemma length_js_delete_le: "length (js_delete k m) \<le> length m"
  by (simp add: AList.delete_eq)

lemma set_hits_ok:
  assumes "limiter_ok l" "\<And>h. h \<in> set live \<Longrightarrow> hitId h < nextHitId l"
  shows "limiter_ok (set_hits k live l)"
proof (cases "live = []")
  case True
  note ok = limiter_okD [OF assms(1)]
  show ?thesis
  proof (rule limiter_okI)
    show "js_map_ok (hits (set_hits k live l))" using ok(1) True by (simp add: set_hits_def)
    show "length (hits (set_hits k live l)) \<le> MAX_KEYS"
      using ok(2) True length_js_delete_le [of k "hits l"] by (simp add: set_hits_def)
    show "hs \<noteq> [] \<and> (\<forall>h\<in>set hs. hitId h < nextHitId (set_hits k live l))"
      if "js_get (hits (set_hits k live l)) j = Some hs" for j hs
      using that ok(3) [of j hs] True by (simp add: set_hits_def split: if_splits)
  qed
next
  case False
  note ok = limiter_okD [OF assms(1)]
  define h where "h = (if \<not> js_has (hits l) k \<and> length (hits l) \<ge> MAX_KEYS
      then (case hits l of [] \<Rightarrow> hits l | (oldest, _) # _ \<Rightarrow> js_delete oldest (hits l)) else hits l)"
  have s: "set_hits k live l = l\<lparr>hits := js_set k live h\<rparr>"
    using False by (simp add: set_hits_def h_def Let_def)
  have hk: "js_map_ok h" using ok(1) by (auto simp: h_def split: list.split)
  have sub: "js_get h j = Some hs \<Longrightarrow> js_get (hits l) j = Some hs" for j hs
    by (auto simp: h_def split: if_splits list.splits)
  have len: "length (js_set k live h) \<le> MAX_KEYS"
  proof (cases "\<not> js_has (hits l) k \<and> length (hits l) \<ge> MAX_KEYS")
    case True
    then obtain p m where m: "hits l = p # m" using MAX_KEYS_def by (cases "hits l") auto
    then have "h = js_delete (fst p) m" using True by (auto simp: h_def AList.delete_eq case_prod_unfold)
    then have "length h \<le> length m" using length_js_delete_le by metis
    then show ?thesis using ok(2) m by (simp add: length_js_set)
  next
    case False
    then show ?thesis using ok(2) by (auto simp: h_def length_js_set)
  qed
  show ?thesis
  proof (rule limiter_okI)
    show "js_map_ok (hits (set_hits k live l))" using hk by (simp add: s)
    show "length (hits (set_hits k live l)) \<le> MAX_KEYS" using len by (simp add: s)
    show "hs \<noteq> [] \<and> (\<forall>x\<in>set hs. hitId x < nextHitId (set_hits k live l))"
      if "js_get (hits (set_hits k live l)) j = Some hs" for j hs
      using that ok(3) [of j hs] sub [of j hs] False assms(2) by (auto simp: s split: if_splits)
  qed
qed

lemma set_hits_next [simp]: "nextHitId (set_hits k live l) = nextHitId l"
  by (simp add: set_hits_def Let_def)

text \<open>Without eviction, writing a key changes that key only.\<close>

lemma hits_of_set_hits:
  assumes "js_map_ok (hits l)" "length (hits l) < MAX_KEYS \<or> js_has (hits l) k"
  shows "hits_of (set_hits k live l) j = (if j = k then live else hits_of l j)"
  using assms by (auto simp: set_hits_def hits_of_def Let_def)

section \<open>One call\<close>

lemma scope_retry_pos:
  assumes "active_scope s"
  shows "0 < scope_retry now l s \<longleftrightarrow> requests (scopeWindow s) \<le> int (length (live_hits now l s))"
proof (cases "live_hits now l s")
  case Nil
  with assms show ?thesis by (simp add: scope_retry_def active_scope_def)
next
  case (Cons h hs)
  then have "h \<in> set (live_hits now l s)" by simp
  then have "now - windowLength (scopeWindow s) < timestamp h" by (simp add: live_hits_of)
  with Cons show ?thesis by (simp add: scope_retry_def)
qed

lemma foldl_max_pos:
  fixes f :: "'a \<Rightarrow> int"
  shows "a < foldl (\<lambda>mx s. max mx (f s)) b xs \<longleftrightarrow> a < b \<or> (\<exists>x\<in>set xs. a < f x)"
  by (induction xs arbitrary: b) auto

lemma foldl_max_ge:
  fixes f :: "'a \<Rightarrow> int"
  shows "x \<in> set xs \<Longrightarrow> f x \<le> foldl (\<lambda>mx s. max mx (f s)) b xs"
    "b \<le> foldl (\<lambda>mx s. max mx (f s)) b xs"
proof -
  have b: "b \<le> foldl (\<lambda>mx s. max mx (f s)) b xs" for b xs
  proof (induction xs arbitrary: b)
    case (Cons y ys)
    from Cons.IH [of "max b (f y)"] show ?case by simp
  qed simp
  then show "b \<le> foldl (\<lambda>mx s. max mx (f s)) b xs" .
  show "f x \<le> foldl (\<lambda>mx s. max mx (f s)) b xs" if "x \<in> set xs"
    using that
  proof (induction xs arbitrary: b)
    case (Cons y ys)
    then show ?case using b [of "max b (f y)" ys] by auto
  qed simp
qed

definition has_room :: "int \<Rightarrow> limiter \<Rightarrow> RateLimitScope list \<Rightarrow> bool" where
  "has_room now l scopes \<longleftrightarrow>
     (\<forall>s\<in>set (filter active_scope scopes). int (length (live_hits now l s)) < requests (scopeWindow s))"

lemma allowed_iff: "allowed (fst (tryAcquireMany now scopes l)) \<longleftrightarrow> has_room now l scopes"
proof -
  let ?act = "filter active_scope scopes"
  have "0 < foldl (\<lambda>mx s. max mx (scope_retry now l s)) 0 ?act \<longleftrightarrow>
      (\<exists>s\<in>set ?act. requests (scopeWindow s) \<le> int (length (live_hits now l s)))"
    unfolding foldl_max_pos using scope_retry_pos by auto
  then show ?thesis
    by (auto simp: tryAcquireMany_def Let_def case_prod_unfold has_room_def not_less filter_empty_conv)
qed

lemma blocked_wait:
  assumes "\<not> allowed (fst (tryAcquireMany now scopes l))"
  shows "0 < retryAfterMs (fst (tryAcquireMany now scopes l))"
    "\<And>s. s \<in> set (filter active_scope scopes) \<Longrightarrow>
       scope_retry now l s \<le> retryAfterMs (fst (tryAcquireMany now scopes l))"
proof -
  let ?act = "filter active_scope scopes"
  let ?r = "foldl (\<lambda>mx s. max mx (scope_retry now l s)) 0 ?act"
  have r: "retryAfterMs (fst (tryAcquireMany now scopes l)) = ?r" "0 < ?r"
    using assms by (auto simp: tryAcquireMany_def Let_def case_prod_unfold split: if_splits)
  then show "0 < retryAfterMs (fst (tryAcquireMany now scopes l))" by simp
  show "scope_retry now l s \<le> retryAfterMs (fst (tryAcquireMany now scopes l))"
    if "s \<in> set ?act" for s
    using foldl_max_ge(1) [OF that, of "scope_retry now l" 0] r(1) by simp
qed

text \<open>Writing the prepared lists, with room for every key: no eviction.\<close>

definition roomy :: "limiter \<Rightarrow> string list \<Rightarrow> bool" where
  "roomy l ks \<longleftrightarrow> js_map_ok (hits l) \<and> card (set (js_keys (hits l)) \<union> set ks) \<le> MAX_KEYS"

lemma roomy_step:
  assumes "roomy l ks" "k \<in> set ks"
  shows "length (hits l) < MAX_KEYS \<or> js_has (hits l) k" "roomy (set_hits k live l) ks"
    "hits_of (set_hits k live l) j = (if j = k then live else hits_of l j)"
proof -
  have ok: "js_map_ok (hits l)" using assms(1) by (simp add: roomy_def)
  show room: "length (hits l) < MAX_KEYS \<or> js_has (hits l) k"
  proof (cases "k \<in> set (js_keys (hits l))")
    case True
    then show ?thesis by (simp add: js_has_keys)
  next
    case False
    have "card (insert k (set (js_keys (hits l)))) \<le> card (set (js_keys (hits l)) \<union> set ks)"
      using assms(2) by (intro card_mono) auto
    then have "card (insert k (set (js_keys (hits l)))) \<le> MAX_KEYS"
      using assms(1) by (simp add: roomy_def)
    then show ?thesis using False distinct_card [OF ok] by simp
  qed
  show "hits_of (set_hits k live l) j = (if j = k then live else hits_of l j)"
    by (rule hits_of_set_hits [OF ok room])
  have sub: "set (js_keys (hits (set_hits k live l))) \<subseteq> insert k (set (js_keys (hits l)))"
  proof -
    have "hits (set_hits k live l) = (if live = [] then js_delete k (hits l) else js_set k live (hits l))"
      using room by (auto simp: set_hits_def Let_def)
    then show ?thesis
      using set_js_keys_set [of k live "hits l"] set_js_keys_delete [of k "hits l"]
      by (metis Diff_subset insert_subset order_refl subset_insertI2)
  qed
  have "js_map_ok (hits (set_hits k live l))" using ok room by (auto simp: set_hits_def Let_def)
  moreover have "card (set (js_keys (hits (set_hits k live l))) \<union> set ks)
      \<le> card (set (js_keys (hits l)) \<union> set ks)"
    using sub assms(2) by (intro card_mono) auto
  ultimately show "roomy (set_hits k live l) ks" using assms(1) by (simp add: roomy_def)
qed

lemma fold_set_hits:
  assumes "roomy l ks" "distinct (map fst ps)" "set (map fst ps) \<subseteq> set ks"
  shows "roomy (fold (\<lambda>(key, live). set_hits key live) ps l) ks \<and>
    nextHitId (fold (\<lambda>(key, live). set_hits key live) ps l) = nextHitId l \<and>
    hits_of (fold (\<lambda>(key, live). set_hits key live) ps l) j =
      (case map_of ps j of None \<Rightarrow> hits_of l j | Some live \<Rightarrow> live)"
  using assms
proof (induction ps arbitrary: l)
  case Nil
  then show ?case by simp
next
  case (Cons p ps)
  obtain k live where p: "p = (k, live)" by (cases p)
  have k: "k \<in> set ks" "k \<notin> set (map fst ps)" using Cons.prems(2,3) p by auto
  note s = roomy_step(2,3) [OF Cons.prems(1) k(1), of live]
  from k(2) have "map_of ps k = None" by (simp add: map_of_eq_None_iff)
  with Cons.IH [OF s(1)] Cons.prems(2,3) p s(2) show ?case by (simp split: option.split)
qed

lemma fold_record_hits:
  assumes "roomy l ks" "distinct (map fst ps)" "set (map fst ps) \<subseteq> set ks"
  shows "roomy (fst (fold (record_hit now) ps (l, es))) ks \<and>
    map timestamp (hits_of (fst (fold (record_hit now) ps (l, es))) j) =
      (case map_of ps j of None \<Rightarrow> map timestamp (hits_of l j) | Some live \<Rightarrow> map timestamp live @ [now])"
  using assms
proof (induction ps arbitrary: l es)
  case Nil
  then show ?case by simp
next
  case (Cons p ps)
  obtain k live where p: "p = (k, live)" by (cases p)
  have k: "k \<in> set ks" "k \<notin> set (map fst ps)" using Cons.prems(2,3) p by auto
  let ?l0 = "l\<lparr>nextHitId := nextHitId l + 1\<rparr>" and ?h = "\<lparr>hitId = nextHitId l, timestamp = now\<rparr>"
  have r0: "roomy ?l0 ks" using Cons.prems(1) by (simp add: roomy_def)
  note s = roomy_step(2,3) [OF r0 k(1), of "live @ [?h]"]
  from k(2) have "map_of ps k = None" by (simp add: map_of_eq_None_iff)
  with Cons.IH [OF s(1), of "es @ [(k, nextHitId l)]"] Cons.prems(2,3) p s(2) show ?case
    by (simp add: record_hit_def Let_def hits_of_def split: option.split)
qed

text \<open>What a call leaves under each key.\<close>

lemma tryAcquireMany_hits:
  assumes "distinct (map scopeKey scopes)" "roomy l (map scopeKey scopes)"
    and l'_def: "l' = snd (tryAcquireMany now scopes l)"
  shows "roomy l' (map scopeKey scopes)"
    "s \<in> set scopes \<Longrightarrow> active_scope s \<Longrightarrow> map timestamp (hits_of l' (scopeKey s)) =
       map timestamp (live_hits now l s) @ (if has_room now l scopes then [now] else [])"
    "k \<notin> scopeKey ` set (filter active_scope scopes) \<Longrightarrow>
       map timestamp (hits_of l' k) = map timestamp (hits_of l k)"
proof -
  let ?act = "filter active_scope scopes" and ?ks = "map scopeKey scopes"
  let ?ps = "map (\<lambda>s. (scopeKey s, live_hits now l s)) ?act"
  let ?l1 = "fold (\<lambda>(key, live). set_hits key live) ?ps l"
  have f: "map fst ?ps = map scopeKey ?act" by simp
  have d: "distinct (map fst ?ps)" unfolding f using assms(1) by (rule distinct_map_filter)
  have sub: "set (map fst ?ps) \<subseteq> set ?ks" by auto
  note w = fold_set_hits [OF assms(2) d sub]
  have r1: "roomy ?l1 ?ks" using w by blast
  note rec = fold_record_hits [OF r1 d sub, of now "[]"]
  have l': "l' = (if ?act = [] then l else if has_room now l scopes
      then fst (fold (record_hit now) ?ps (?l1, [])) else ?l1)"
    using allowed_iff [of now scopes l]
    by (auto simp: l'_def tryAcquireMany_def Let_def case_prod_unfold)
  show "roomy l' ?ks" using assms(2) r1 rec by (simp add: l')
  have in_map: "map_of ?ps (scopeKey s) = Some (live_hits now l s)"
    if "s \<in> set scopes" "active_scope s" for s
    using that d by (intro map_of_is_SomeI) auto
  show "map timestamp (hits_of l' (scopeKey s)) =
      map timestamp (live_hits now l s) @ (if has_room now l scopes then [now] else [])"
    if "s \<in> set scopes" "active_scope s"
  proof -
    have "?act \<noteq> []" using that by (auto simp: filter_empty_conv)
    moreover have "hits_of ?l1 (scopeKey s) = live_hits now l s"
      using w [of "scopeKey s"] in_map [OF that] by simp
    moreover have "map timestamp (hits_of (fst (fold (record_hit now) ?ps (?l1, []))) (scopeKey s)) =
        map timestamp (live_hits now l s) @ [now]"
      using rec [of "scopeKey s"] in_map [OF that] by simp
    ultimately show ?thesis by (simp add: l')
  qed
  show "map timestamp (hits_of l' k) = map timestamp (hits_of l k)"
    if "k \<notin> scopeKey ` set ?act"
  proof -
    have "map_of ?ps k = None" using that by (simp add: map_of_eq_None_iff image_image)
    then show ?thesis using w [of k] rec [of k] by (simp add: l')
  qed
qed


section \<open>No window ever holds more than the limit\<close>

type_synonym call = "int \<times> RateLimitScope list"

text \<open>The times at which a call that uses key \<open>k\<close> was let through.\<close>

fun accepted :: "string \<Rightarrow> limiter \<Rightarrow> call list \<Rightarrow> int list" where
  "accepted k l [] = []"
| "accepted k l ((now, scopes) # calls) =
     (if allowed (fst (tryAcquireMany now scopes l)) \<and> k \<in> scopeKey ` set (filter active_scope scopes) then [now] else []) @
     accepted k (snd (tryAcquireMany now scopes l)) calls"

text \<open>A clock that does not run backwards, one window per key, and no eviction.\<close>

fun calls_ok :: "string \<Rightarrow> RateLimitWindow \<Rightarrow> int \<Rightarrow> limiter \<Rightarrow> call list \<Rightarrow> bool" where
  "calls_ok k w prev l [] = True"
| "calls_ok k w prev l ((now, scopes) # calls) =
     (prev \<le> now \<and> distinct (map scopeKey scopes) \<and> roomy l (map scopeKey scopes) \<and>
      (\<forall>s\<in>set scopes. scopeKey s = k \<longrightarrow> scopeWindow s = w) \<and>
      calls_ok k w now (snd (tryAcquireMany now scopes l)) calls)"

definition in_window :: "int \<Rightarrow> RateLimitWindow \<Rightarrow> int list \<Rightarrow> int list" where
  "in_window t w xs = filter (\<lambda>x. t - windowLength w < x \<and> x \<le> t) xs"

text \<open>The history \<open>past\<close> of key \<open>k\<close> up to \<open>prev\<close>: what is recorded is its recent part.\<close>

definition history_ok :: "string \<Rightarrow> RateLimitWindow \<Rightarrow> int \<Rightarrow> int list \<Rightarrow> limiter \<Rightarrow> bool" where
  "history_ok k w prev past l \<longleftrightarrow>
     (\<forall>x\<in>set past. x \<le> prev) \<and>
     (\<exists>c\<le>prev - windowLength w. map timestamp (hits_of l k) = filter (\<lambda>x. c < x) past) \<and>
     (\<forall>t. int (length (in_window t w past)) \<le> requests w)"

lemma history_keep:
  assumes "history_ok k w prev past l" "prev \<le> now"
    "map timestamp (hits_of l' k) = map timestamp (hits_of l k)"
  shows "history_ok k w now past l'"
proof -
  obtain c where "c \<le> prev - windowLength w" "map timestamp (hits_of l k) = filter (\<lambda>x. c < x) past"
    using assms(1) by (auto simp: history_ok_def)
  with assms(2,3) have "\<exists>c\<le>now - windowLength w. map timestamp (hits_of l' k) = filter (\<lambda>x. c < x) past"
    by (intro exI [of _ c]) simp
  moreover have "\<forall>x\<in>set past. x \<le> now" using assms(1,2) by (auto simp: history_ok_def)
  ultimately show ?thesis using assms(1) by (simp add: history_ok_def)
qed

lemma history_step:
  assumes "history_ok k w prev past l" "prev \<le> now" "scopeKey s = k" "scopeWindow s = w"
    "active_scope s" "grant \<longrightarrow> int (length (live_hits now l s)) < requests w"
    "map timestamp (hits_of l' k) = map timestamp (live_hits now l s) @ (if grant then [now] else [])"
  shows "history_ok k w now (past @ (if grant then [now] else [])) l'"
proof -
  obtain c where c: "c \<le> prev - windowLength w" "map timestamp (hits_of l k) = filter (\<lambda>x. c < x) past"
    using assms(1) by (auto simp: history_ok_def)
  let ?cut = "now - windowLength w"
  have live: "map timestamp (live_hits now l s) = filter (\<lambda>x. ?cut < x) past"
  proof -
    have "map timestamp (live_hits now l s) = filter (\<lambda>x. ?cut < x) (map timestamp (hits_of l k))"
      using assms(3,4) by (simp add: live_hits_of filter_map comp_def)
    also have "\<dots> = filter (\<lambda>x. ?cut < x) past"
      using c assms(2) by (auto simp: intro!: filter_cong)
    finally show ?thesis .
  qed
  have past: "\<forall>x\<in>set past. x \<le> now" using assms(1,2) by (auto simp: history_ok_def)
  have pos: "0 < windowLength w" using assms(4,5) by (simp add: active_scope_def)
  have "\<exists>c\<le>now - windowLength w.
      map timestamp (hits_of l' k) = filter (\<lambda>x. c < x) (past @ (if grant then [now] else []))"
    using assms(7) live pos by (intro exI [of _ ?cut]) simp
  moreover have "\<forall>x\<in>set (past @ (if grant then [now] else [])). x \<le> now" using past by auto
  moreover have "int (length (in_window t w (past @ (if grant then [now] else [])))) \<le> requests w" for t
  proof (cases "grant \<and> t - windowLength w < now \<and> now \<le> t")
    case False
    then have "in_window t w (past @ (if grant then [now] else [])) = in_window t w past"
      by (auto simp: in_window_def)
    then show ?thesis using assms(1) by (simp add: history_ok_def)
  next
    case True
    have "length (in_window t w past) \<le> length (filter (\<lambda>x. ?cut < x) past)"
    proof -
      have "in_window t w past = filter (\<lambda>x. t - windowLength w < x \<and> x \<le> t) (filter (\<lambda>x. ?cut < x) past)"
        using True by (auto simp: in_window_def intro!: filter_cong)
      then show ?thesis by (metis length_filter_le)
    qed
    also have "\<dots> = length (live_hits now l s)" using live by (metis length_map)
    finally show ?thesis using True assms(6) by (simp add: in_window_def)
  qed
  ultimately show ?thesis unfolding history_ok_def by blast
qed

lemma accepted_history:
  "history_ok k w prev past l \<Longrightarrow> calls_ok k w prev l calls \<Longrightarrow>
   \<forall>t. int (length (in_window t w (past @ accepted k l calls))) \<le> requests w"
proof (induction calls arbitrary: prev past l)
  case Nil
  then show ?case by (simp add: history_ok_def)
next
  case (Cons cl calls)
  obtain now scopes where cl: "cl = (now, scopes)" by (cases cl)
  have c: "prev \<le> now" "distinct (map scopeKey scopes)" "roomy l (map scopeKey scopes)"
    "\<And>s. s \<in> set scopes \<Longrightarrow> scopeKey s = k \<Longrightarrow> scopeWindow s = w"
    "calls_ok k w now (snd (tryAcquireMany now scopes l)) calls"
    using Cons.prems(2) cl by auto
  note h = tryAcquireMany_hits [OF c(2,3) refl]
  show ?case
  proof (cases "k \<in> scopeKey ` set (filter active_scope scopes)")
    case False
    note keep = history_keep [OF Cons.prems(1) c(1) h(3) [OF False]]
    from Cons.IH [OF keep c(5)] False show ?thesis by (simp add: cl)
  next
    case True
    then obtain s where s: "s \<in> set scopes" "active_scope s" "scopeKey s = k" by auto
    have ts: "map timestamp (hits_of (snd (tryAcquireMany now scopes l)) k) =
        map timestamp (live_hits now l s) @ (if has_room now l scopes then [now] else [])"
      using h(2) [OF s(1,2)] s(3) by simp
    have room: "has_room now l scopes \<longrightarrow> int (length (live_hits now l s)) < requests w"
      using s c(4) [OF s(1,3)] by (auto simp: has_room_def)
    note step = history_step [OF Cons.prems(1) c(1) s(3) c(4) [OF s(1,3)] s(2) room ts]
    from Cons.IH [OF step c(5)] True show ?thesis by (simp add: cl allowed_iff)
  qed
qed

section \<open>Properties\<close>

text \<open>
  C6: the trailing-window guarantee: under a clock that never runs backwards, with one window per
  key, distinct keys in a call and no eviction (at most the limiter's number of keys in use), in every
  half-open interval of the window's length at most \<open>requests\<close> of the calls that name the key, with
  a window that is in force (positive requests and length), were answered with \<open>allowed\<close>, however the
  calls mix scopes and however many are refused. (Runs of acquisitions; no lease is given back.)
\<close>

theorem window_never_exceeded:
  assumes "0 \<le> requests w" "calls_ok k w start new_limiter calls"
  shows "int (length (filter (\<lambda>x. t - windowLength w < x \<and> x \<le> t) (accepted k new_limiter calls))) \<le> requests w"
proof -
  have "history_ok k w start [] new_limiter"
    using assms(1) by (auto simp: history_ok_def in_window_def hits_of_def new_limiter_def)
  from accepted_history [OF this assms(2)] show ?thesis by (simp add: in_window_def)
qed

theorem window_never_exceeded_witness:
  "int (length (filter (\<lambda>x. 12 - 10 < x \<and> x \<le> 12) (accepted ''k'' new_limiter
     [(1, [\<lparr>scopeKey = ''k'', scopeWindow = \<lparr>requests = 1, windowLength = 10\<rparr>\<rparr>]),
      (5, [\<lparr>scopeKey = ''k'', scopeWindow = \<lparr>requests = 1, windowLength = 10\<rparr>\<rparr>]),
      (12, [\<lparr>scopeKey = ''k'', scopeWindow = \<lparr>requests = 1, windowLength = 10\<rparr>\<rparr>])]))) \<le> 1"
  using window_never_exceeded [of "\<lparr>requests = 1, windowLength = 10\<rparr>" "''k''" 0
     "[(1, [\<lparr>scopeKey = ''k'', scopeWindow = \<lparr>requests = 1, windowLength = 10\<rparr>\<rparr>]),
      (5, [\<lparr>scopeKey = ''k'', scopeWindow = \<lparr>requests = 1, windowLength = 10\<rparr>\<rparr>]),
      (12, [\<lparr>scopeKey = ''k'', scopeWindow = \<lparr>requests = 1, windowLength = 10\<rparr>\<rparr>])]" 12]
  by (simp add: roomy_def new_limiter_def tryAcquireMany_def active_scope_def live_hits_def
      scope_retry_def set_hits_def record_hit_def MAX_KEYS_def js_has_def)

text \<open>
  Acquiring several scopes is atomic: it is allowed exactly when every active scope has room;
  then each of them gains one hit at the current time, otherwise none does and the caller is told
  a positive wait; a key outside the call keeps its history.
\<close>

lemma acquire_many_atomic:
  assumes "distinct (map scopeKey scopes)" "roomy l (map scopeKey scopes)"
    "tryAcquireMany now scopes l = (r, l')" "s \<in> set scopes" "active_scope s"
  shows "allowed r = (\<forall>s\<in>set (filter active_scope scopes).
        int (length (live_hits now l s)) < requests (scopeWindow s))
    \<and> map timestamp (hits_of l' (scopeKey s))
        = map timestamp (live_hits now l s) @ (if allowed r then [now] else [])
    \<and> (\<not> allowed r \<longrightarrow> 0 < retryAfterMs r)
    \<and> (k \<notin> scopeKey ` set (filter active_scope scopes) \<longrightarrow>
         map timestamp (hits_of l' k) = map timestamp (hits_of l k))"
proof -
  have r: "r = fst (tryAcquireMany now scopes l)" "l' = snd (tryAcquireMany now scopes l)"
    using assms(3) by simp_all
  have a: "allowed r = has_room now l scopes" unfolding r by (rule allowed_iff)
  note h = tryAcquireMany_hits [OF assms(1,2), of l' now]
  show ?thesis
    using h(2) [OF r(2) assms(4,5)] h(3) [OF r(2), of k] blocked_wait(1) [of now scopes l] a r(1)
    by (simp add: has_room_def)
qed

end
