(* ===== verification/Rolling_Gate.thy ===== *)
theory Rolling_Gate
  imports Sliding_Window
begin

text \<open>
  The requests-per-minute gate of \<open>open-sse/services/rollingRpmGate.ts\<close> over the trailing-window
  limiter: scopes from settings and learned headers, forced waits after upstream cooldowns, and
  the waiting loop of \<open>acquire\<close>. One turn of the loop, up to its \<open>await\<close>, is \<open>gate_attempt\<close>; the
  caller's settings are the parameter \<open>opts\<close>.
\<close>


section \<open>Definitions\<close>

record gate_options =
  getGlobalRpm :: "int option"
  getProviderWindow :: "string \<Rightarrow> RateLimitWindow option"
  getConnectionRpm :: "string \<Rightarrow> int option"
  getLimiterKey :: "string \<Rightarrow> string \<Rightarrow> string option \<Rightarrow> string"

record LearnedHeaderWindow =
  learnedWindow :: RateLimitWindow
  expiresAt :: int

record gate =
  gtLimiter :: limiter
  blockedUntil :: "(string, int) js_map"
  learnedHeaderWindows :: "(string, LearnedHeaderWindow) js_map"

datatype wait_reason = Local_queue | Upstream_cooldown

datatype gate_outcome =
    Gate_pass "(string \<times> nat) list option"
  | Gate_timeout wait_reason
  | Gate_aborted
  | Gate_sleep int

definition gateWindowMs :: int where
  "gateWindowMs = 60000"

definition new_gate :: gate where
  "new_gate = \<lparr>gtLimiter = new_limiter, blockedUntil = [], learnedHeaderWindows = []\<rparr>"

definition blocked_until :: "gate \<Rightarrow> string \<Rightarrow> int" where
  "blocked_until g k = (case js_get (blockedUntil g) k of Some t \<Rightarrow> t | None \<Rightarrow> 0)"

fun contains_str :: "string \<Rightarrow> string \<Rightarrow> bool" where
  "contains_str needle [] = (needle = [])"
| "contains_str needle (c # cs) = (take (length needle) (c # cs) = needle \<or> contains_str needle cs)"

definition ends_with :: "string \<Rightarrow> string \<Rightarrow> bool" where
  "ends_with s key = (length s \<le> length key \<and> drop (length key - length s) key = s)"

definition keyContainsConnection :: "string \<Rightarrow> string \<Rightarrow> bool" where
  "keyContainsConnection key connectionId =
     (let marker = '':'' @ connectionId in ends_with marker key \<or> contains_str (marker @ '':'') key)"

definition header_key :: "gate_options \<Rightarrow> string \<Rightarrow> string \<Rightarrow> string option \<Rightarrow> string" where
  "header_key opts provider conn model = ''header:'' @ getLimiterKey opts provider conn model"

definition rpm_scope :: "string \<Rightarrow> int option \<Rightarrow> RateLimitScope list" where
  "rpm_scope key rpm =
     (case rpm of
        Some n \<Rightarrow> if n > 0
          then [\<lparr>scopeKey = key, scopeWindow = \<lparr>requests = n, windowLength = gateWindowMs\<rparr>\<rparr>] else []
      | None \<Rightarrow> [])"

definition getScopes ::
  "gate_options \<Rightarrow> int \<Rightarrow> string \<Rightarrow> string \<Rightarrow> string option \<Rightarrow> gate \<Rightarrow> RateLimitScope list \<times> gate" where
  "getScopes opts now provider conn model g =
     (let global = rpm_scope ''global'' (getGlobalRpm opts);
          prov = (case getProviderWindow opts provider of
                    Some w \<Rightarrow> [\<lparr>scopeKey = ''provider:'' @ provider, scopeWindow = w\<rparr>]
                  | None \<Rightarrow> []);
          acct = rpm_scope (''provider-account:'' @ provider @ '':'' @ conn) (getConnectionRpm opts conn);
          scopes = global @ prov @ acct;
          hk = header_key opts provider conn model;
          until = blocked_until g hk;
          remaining = until - now
      in if remaining > 0
         then (scopes @ [\<lparr>scopeKey = hk, scopeWindow = \<lparr>requests = 1, windowLength = remaining\<rparr>\<rparr>], g)
         else
           let g = (if until > 0 then g\<lparr>blockedUntil := js_delete hk (blockedUntil g)\<rparr> else g) in
           case js_get (learnedHeaderWindows g) hk of
             None \<Rightarrow> (scopes, g)
           | Some lw \<Rightarrow>
               if expiresAt lw > now then (scopes @ [\<lparr>scopeKey = hk, scopeWindow = learnedWindow lw\<rparr>], g)
               else (scopes, g\<lparr>learnedHeaderWindows := js_delete hk (learnedHeaderWindows g)\<rparr>))"

text \<open>The loop over the scopes: the latest block, dropping the expired ones.\<close>

definition scope_block :: "int \<Rightarrow> RateLimitScope \<Rightarrow> int \<times> gate \<Rightarrow> int \<times> gate" where
  "scope_block now s acc =
     (let (mx, g) = acc; t = blocked_until g (scopeKey s) in
      if t > now then (max mx t, g)
      else if t > 0 then (mx, g\<lparr>blockedUntil := js_delete (scopeKey s) (blockedUntil g)\<rparr>)
      else (mx, g))"

definition gate_attempt ::
  "gate_options \<Rightarrow> int \<Rightarrow> string \<Rightarrow> string \<Rightarrow> string option \<Rightarrow> bool \<Rightarrow> int \<Rightarrow> int \<Rightarrow> gate \<Rightarrow>
   gate_outcome \<times> gate" where
  "gate_attempt opts now provider conn model aborted maxWaitMs startedAt g =
     (if aborted then (Gate_aborted, g)
      else
        let bk = getLimiterKey opts provider conn model;
            (scopes, g) = getScopes opts now provider conn model g
        in if scopes = [] \<and> blocked_until g bk \<le> now then (Gate_pass None, g)
        else
          let blocked = blocked_until g bk;
              g = (if blocked \<le> now then g\<lparr>blockedUntil := js_delete bk (blockedUntil g)\<rparr> else g);
              (scopeBlocked, g) = fold (scope_block now) scopes (0, g);
              forced = max 0 (max (blocked - now) (scopeBlocked - now))
          in if forced = 0 then
               let (r, l) = tryAcquireMany now scopes (gtLimiter g); g = g\<lparr>gtLimiter := l\<rparr> in
               if allowed r then (Gate_pass (lease r), g)
               else
                 let retry = max 1 (retryAfterMs r);
                     remaining = (if maxWaitMs > 0 then maxWaitMs - (now - startedAt) else retry)
                 in if maxWaitMs > 0 \<and> remaining \<le> 0 then (Gate_timeout Local_queue, g)
                    else (Gate_sleep (min retry (if maxWaitMs > 0 then remaining else retry)), g)
             else
               let remaining = (if maxWaitMs > 0 then maxWaitMs - (now - startedAt) else forced) in
               if maxWaitMs > 0 \<and> remaining \<le> 0 then (Gate_timeout Upstream_cooldown, g)
               else (Gate_sleep (min forced (if maxWaitMs > 0 then remaining else forced)), g))"

text \<open>The first turn: a request with no scope and no block passes before the loop, abort or not.\<close>

definition gate_acquire ::
  "gate_options \<Rightarrow> int \<Rightarrow> string \<Rightarrow> string \<Rightarrow> string option \<Rightarrow> bool \<Rightarrow> int \<Rightarrow> int \<Rightarrow> gate \<Rightarrow>
   gate_outcome \<times> gate" where
  "gate_acquire opts now provider conn model aborted maxWaitMs startedAt g =
     (let (scopes, g) = getScopes opts now provider conn model g in
      if scopes = [] \<and> blocked_until g (getLimiterKey opts provider conn model) \<le> now
      then (Gate_pass None, g)
      else gate_attempt opts now provider conn model aborted maxWaitMs startedAt g)"

definition gate_block ::
  "gate_options \<Rightarrow> int \<Rightarrow> string \<Rightarrow> string \<Rightarrow> string option \<Rightarrow> int \<Rightarrow> gate \<Rightarrow> gate" where
  "gate_block opts now provider conn model retry g =
     (if retry > 0
      then g\<lparr>blockedUntil := js_set (getLimiterKey opts provider conn model) (now + retry) (blockedUntil g)\<rparr>
      else g)"

definition learnHeaderWindow ::
  "gate_options \<Rightarrow> string \<Rightarrow> string \<Rightarrow> string option \<Rightarrow> int \<Rightarrow> int \<Rightarrow> int \<Rightarrow> gate \<Rightarrow> gate" where
  "learnHeaderWindow opts provider conn model reqs wnd expires g =
     (let key = header_key opts provider conn model in
      if reqs \<le> 0
      then g\<lparr>learnedHeaderWindows := js_delete key (learnedHeaderWindows g),
             blockedUntil := js_set key expires (blockedUntil g)\<rparr>
      else g\<lparr>blockedUntil := js_delete key (blockedUntil g),
             learnedHeaderWindows := js_set key
               \<lparr>learnedWindow = \<lparr>requests = reqs, windowLength = wnd\<rparr>, expiresAt = expires\<rparr>
               (learnedHeaderWindows g)\<rparr>)"

definition clearLearnedHeaderWindow ::
  "gate_options \<Rightarrow> string \<Rightarrow> string \<Rightarrow> string option \<Rightarrow> gate \<Rightarrow> gate" where
  "clearLearnedHeaderWindow opts provider conn model g =
     (let key = header_key opts provider conn model in
      g\<lparr>learnedHeaderWindows := js_delete key (learnedHeaderWindows g),
        blockedUntil := js_delete key (blockedUntil g)\<rparr>)"

definition clearConnection :: "string \<Rightarrow> gate \<Rightarrow> gate" where
  "clearConnection conn g =
     g\<lparr>blockedUntil := filter (\<lambda>(k, v). \<not> keyContainsConnection k conn) (blockedUntil g),
       learnedHeaderWindows := filter (\<lambda>(k, v). \<not> keyContainsConnection k conn) (learnedHeaderWindows g)\<rparr>"

definition gate_reset :: "gate \<Rightarrow> gate" where
  "gate_reset g =
     \<lparr>gtLimiter = reset_hits None (gtLimiter g), blockedUntil = [], learnedHeaderWindows = []\<rparr>"

definition cleanupExpired :: "int \<Rightarrow> gate \<Rightarrow> gate" where
  "cleanupExpired now g =
     g\<lparr>blockedUntil := filter (\<lambda>(k, t). \<not> t \<le> now) (blockedUntil g),
       learnedHeaderWindows := filter (\<lambda>(k, w). \<not> expiresAt w \<le> now) (learnedHeaderWindows g)\<rparr>"


section \<open>Waiting\<close>

text \<open>A turn that sleeps sleeps a positive time, and never past the caller's deadline.\<close>

lemma gate_attempt_sleep:
  assumes "fst (gate_attempt opts now p c m aborted maxWaitMs startedAt g) = Gate_sleep ms"
  shows "0 < ms" "0 < maxWaitMs \<Longrightarrow> now + ms \<le> startedAt + maxWaitMs"
  using assms
  by (auto simp: gate_attempt_def Let_def case_prod_unfold min_def max_def split: if_splits)

lemma gate_attempt_deadline:
  assumes "0 < maxWaitMs" "startedAt + maxWaitMs \<le> now"
  shows "\<not> (\<exists>ms. fst (gate_attempt opts now p c m aborted maxWaitMs startedAt g) = Gate_sleep ms)"
proof
  assume "\<exists>ms. fst (gate_attempt opts now p c m aborted maxWaitMs startedAt g) = Gate_sleep ms"
  then obtain ms where "fst (gate_attempt opts now p c m aborted maxWaitMs startedAt g) = Gate_sleep ms" ..
  from gate_attempt_sleep [OF this] assms show False by simp
qed

text \<open>
  The loop of \<open>acquire\<close> run against an environment that only lets time pass: after each sleep the
  clock shows at least the time slept for. \<open>fuel\<close> counts the turns.
\<close>

fun gate_run ::
  "nat \<Rightarrow> gate_options \<Rightarrow> (nat \<Rightarrow> int) \<Rightarrow> string \<Rightarrow> string \<Rightarrow> string option \<Rightarrow> int \<Rightarrow> int \<Rightarrow> gate \<Rightarrow>
   int \<Rightarrow> (gate_outcome \<times> gate) option" where
  "gate_run 0 opts lag p c m maxWaitMs startedAt g now = None"
| "gate_run (Suc n) opts lag p c m maxWaitMs startedAt g now =
     (case gate_attempt opts now p c m False maxWaitMs startedAt g of
        (Gate_sleep ms, g') \<Rightarrow>
          gate_run n opts lag p c m maxWaitMs startedAt g' (now + ms + max 0 (lag n))
      | out \<Rightarrow> Some out)"

lemma gate_run_returns:
  assumes "0 < maxWaitMs" "max 0 (startedAt + maxWaitMs - now) < int n"
  shows "\<exists>out. gate_run n opts lag p c m maxWaitMs startedAt g now = Some out"
  using assms(2)
proof (induction n arbitrary: g now)
  case 0
  then show ?case by simp
next
  case (Suc n)
  obtain r g' where a: "gate_attempt opts now p c m False maxWaitMs startedAt g = (r, g')"
    by (cases "gate_attempt opts now p c m False maxWaitMs startedAt g")
  show ?case
  proof (cases r)
    case (Gate_sleep ms)
    then have s: "0 < ms" "now + ms \<le> startedAt + maxWaitMs"
      using gate_attempt_sleep [of opts now p c m False maxWaitMs startedAt g ms] a assms(1) by auto
    from Suc.IH [of "now + ms + max 0 (lag n)" g'] Suc.prems s a Gate_sleep show ?thesis by simp
  qed (use a in auto)
qed

text \<open>A block is respected: no turn passes while the model's own key is blocked.\<close>

lemma getScopes_blocked:
  assumes "k \<noteq> header_key opts p c m"
  shows "blocked_until (snd (getScopes opts now p c m g)) k = blocked_until g k"
  using assms by (auto simp: getScopes_def Let_def blocked_until_def split: option.split)

lemma scope_block_keeps:
  assumes "now < blocked_until g k"
  shows "blocked_until (snd (scope_block now s (mx, g))) k = blocked_until g k"
  using assms by (auto simp: scope_block_def blocked_until_def Let_def)

lemma gate_attempt_blocked:
  assumes "now < blocked_until g (getLimiterKey opts p c m)"
  shows "\<not> (\<exists>le. fst (gate_attempt opts now p c m aborted maxWaitMs startedAt g) = Gate_pass le)"
proof -
  have "getLimiterKey opts p c m \<noteq> header_key opts p c m" by (simp add: header_key_def)
  note b = getScopes_blocked [OF this, of now g]
  show ?thesis
    using assms b by (auto simp: gate_attempt_def Let_def case_prod_unfold split: if_splits)
qed

text \<open>A learned header window that is used up blocks its key until it expires.\<close>

lemma exhausted_header_scope:
  assumes "now < blocked_until g (header_key opts p c m)"
  shows "\<exists>s\<in>set (fst (getScopes opts now p c m g)). scopeKey s = header_key opts p c m"
    "snd (getScopes opts now p c m g) = g"
  using assms by (auto simp: getScopes_def Let_def)

lemma fold_scope_block:
  "x \<le> fst (fold (scope_block now) ss (x, g)) \<and>
   (\<forall>s\<in>set ss. now < blocked_until g (scopeKey s) \<longrightarrow>
     blocked_until g (scopeKey s) \<le> fst (fold (scope_block now) ss (x, g)))"
proof (induction ss arbitrary: x g)
  case Nil
  then show ?case by simp
next
  case (Cons s ss)
  obtain x' g' where sb: "scope_block now s (x, g) = (x', g')" by (cases "scope_block now s (x, g)")
  have x': "x \<le> x'" "now < blocked_until g (scopeKey s) \<longrightarrow> blocked_until g (scopeKey s) \<le> x'"
    using sb by (auto simp: scope_block_def Let_def split: if_splits)
  have keep: "now < blocked_until g k \<longrightarrow> blocked_until g' k = blocked_until g k" for k
    using scope_block_keeps [of now g k s x] sb by simp
  from Cons.IH [of x' g'] x' keep sb show ?case by fastforce
qed

lemma gate_attempt_header_blocked:
  assumes "now < blocked_until g (header_key opts p c m)"
  shows "\<not> (\<exists>le. fst (gate_attempt opts now p c m aborted maxWaitMs startedAt g) = Gate_pass le)"
proof -
  let ?k = "getLimiterKey opts p c m" and ?h = "header_key opts p c m"
  obtain s where s: "s \<in> set (fst (getScopes opts now p c m g))" "scopeKey s = ?h"
    and g: "snd (getScopes opts now p c m g) = g"
    using exhausted_header_scope [OF assms] by blast
  have "?k \<noteq> ?h" by (simp add: header_key_def)
  then have keep: "blocked_until (if blocked_until g ?k \<le> now
      then g\<lparr>blockedUntil := js_delete ?k (blockedUntil g)\<rparr> else g) ?h = blocked_until g ?h"
    by (auto simp: blocked_until_def)
  let ?g = "if blocked_until g ?k \<le> now then g\<lparr>blockedUntil := js_delete ?k (blockedUntil g)\<rparr> else g"
  have "now < fst (fold (scope_block now) (fst (getScopes opts now p c m g)) (0, ?g))"
    using fold_scope_block [of 0 now "fst (getScopes opts now p c m g)" ?g] s keep assms by fastforce
  with s(1) g show ?thesis
    by (auto simp: gate_attempt_def Let_def case_prod_unfold split: if_splits)
qed

section \<open>Properties\<close>

text \<open>
  With a positive maximum wait \<open>acquire\<close> always returns, whatever the limiter, the blocks and
  the delays of the timers do: after at most one turn per remaining millisecond it has passed the
  request or thrown, and never sleeps past the caller's deadline.
\<close>

lemma gate_acquire_returns:
  assumes "0 < maxWaitMs" "max 0 (startedAt + maxWaitMs - now) < int n"
  shows "\<exists>out g'. gate_run n opts lag p c m maxWaitMs startedAt g now = Some (out, g')
    \<and> (\<forall>ms. out \<noteq> Gate_sleep ms)"
proof -
  have "gate_run n opts lag p c m maxWaitMs startedAt g now = Some (out, g') \<Longrightarrow> out \<noteq> Gate_sleep ms"
    for n g now out g' ms
    by (induction n arbitrary: g now) (auto split: prod.splits gate_outcome.splits)
  with gate_run_returns [OF assms, of opts lag p c m g] show ?thesis by fastforce
qed

text \<open>
  A cooldown is respected: while the limiter key of the request, or its learned header window,
  is blocked, no turn of \<open>acquire\<close> lets the request through, whatever the other scopes allow.
\<close>

lemma blocked_never_passes:
  assumes "now < blocked_until g (getLimiterKey opts p c m) \<or> now < blocked_until g (header_key opts p c m)"
  shows "fst (gate_attempt opts now p c m aborted maxWaitMs startedAt g) \<noteq> Gate_pass le"
  using assms gate_attempt_blocked gate_attempt_header_blocked by blast

end
