(* ===== verification/Rate_Semaphore.thy ===== *)
theory Rate_Semaphore
  imports Prelude
begin

text \<open>
  The per-model concurrency gates of \<open>open-sse/services/rateLimitSemaphore.ts\<close>. Timeout and
  cooldown callbacks capture a gate object that may have left the map since, so gates live in a
  store and the map holds their addresses. Every call of \<open>acquire\<close> takes the next number; the
  same number names its queue item, its timer and its release function. Promise settlements go
  to the log \<open>smLog\<close>, and \<open>smHeld\<close> lists the release functions not yet called.
\<close>


section \<open>State\<close>

record ModelGate =
  gateRunning :: int
  gateMax :: int
  gateQueue :: "nat list"
  rateLimitedUntil :: "int option"

datatype slot_outcome = Slot_granted | SEMAPHORE_QUEUE_FULL | SEMAPHORE_TIMEOUT | Semaphore_reset

record semaphore =
  smGates :: "(string, nat) js_map"
  smStore :: "nat \<Rightarrow> ModelGate"
  smNextGate :: nat
  smNextItem :: nat
  smTimers :: "(nat, nat \<times> int) js_map"
  smHeld :: "(nat \<times> string) list"
  smLog :: "(nat \<times> slot_outcome) list"
  smCooldowns :: "(nat \<times> string \<times> int) list"

definition idle_gate :: "int \<Rightarrow> ModelGate" where
  "idle_gate mx = \<lparr>gateRunning = 0, gateMax = mx, gateQueue = [], rateLimitedUntil = None\<rparr>"

definition new_semaphore :: semaphore where
  "new_semaphore =
     \<lparr>smGates = [], smStore = (\<lambda>_. idle_gate 0), smNextGate = 0, smNextItem = 0, smTimers = [],
      smHeld = [], smLog = [], smCooldowns = []\<rparr>"

definition DEFAULT_MAX_CONCURRENCY :: int where
  "DEFAULT_MAX_CONCURRENCY = 3"


section \<open>Operations\<close>

definition upd_gate :: "nat \<Rightarrow> (ModelGate \<Rightarrow> ModelGate) \<Rightarrow> semaphore \<Rightarrow> semaphore" where
  "upd_gate gid f s = s\<lparr>smStore := (smStore s)(gid := f (smStore s gid))\<rparr>"

definition getGate :: "string \<Rightarrow> int \<Rightarrow> semaphore \<Rightarrow> nat \<times> semaphore" where
  "getGate m mx s =
     (let s = (case js_get (smGates s) m of
          Some _ \<Rightarrow> s
        | None \<Rightarrow> s\<lparr>smGates := js_set m (smNextGate s) (smGates s),
                    smStore := (smStore s)(smNextGate s := idle_gate mx),
                    smNextGate := smNextGate s + 1\<rparr>);
          gid = (case js_get (smGates s) m of Some gid \<Rightarrow> gid | None \<Rightarrow> 0)
      in (gid, upd_gate gid (\<lambda>g. g\<lparr>gateMax := mx\<rparr>) s))"

definition isRateLimited :: "int \<Rightarrow> ModelGate \<Rightarrow> bool \<times> ModelGate" where
  "isRateLimited now g =
     (case rateLimitedUntil g of
        None \<Rightarrow> (False, g)
      | Some t \<Rightarrow> if t = 0 then (False, g)
                  else if now \<ge> t then (False, g\<lparr>rateLimitedUntil := None\<rparr>) else (True, g))"

definition grant :: "nat \<Rightarrow> string \<Rightarrow> semaphore \<Rightarrow> semaphore" where
  "grant i m s = s\<lparr>smHeld := (i, m) # smHeld s, smLog := smLog s @ [(i, Slot_granted)]\<rparr>"

text \<open>
  One round of the loop of \<open>drainQueue\<close>: shift the queue, stop the timer, count the slot and
  resolve. Then the loop itself, on the queue of the gate.
\<close>

definition grant_head :: "string \<Rightarrow> nat \<Rightarrow> ModelGate \<Rightarrow> nat \<Rightarrow> nat list \<Rightarrow> semaphore \<Rightarrow> semaphore" where
  "grant_head m gid g i q s =
     grant i m
       ((upd_gate gid (\<lambda>_. g\<lparr>gateQueue := q, gateRunning := gateRunning g + 1\<rparr>) s)
          \<lparr>smTimers := js_delete i (smTimers s)\<rparr>)"

fun drain_items :: "int \<Rightarrow> string \<Rightarrow> nat \<Rightarrow> nat list \<Rightarrow> semaphore \<Rightarrow> semaphore" where
  "drain_items now m gid [] s = s"
| "drain_items now m gid (i # q) s =
     (if gateRunning (smStore s gid) < gateMax (smStore s gid) then
        (case isRateLimited now (smStore s gid) of
           (True, g) \<Rightarrow> upd_gate gid (\<lambda>_. g) s
         | (False, g) \<Rightarrow> drain_items now m gid q (grant_head m gid g i q s))
      else s)"

definition drop_if_idle :: "string \<Rightarrow> nat \<Rightarrow> semaphore \<Rightarrow> semaphore" where
  "drop_if_idle m gid s =
     (if gateRunning (smStore s gid) = 0 \<and> gateQueue (smStore s gid) = []
      then s\<lparr>smGates := js_delete m (smGates s)\<rparr> else s)"

definition drainQueue :: "int \<Rightarrow> string \<Rightarrow> semaphore \<Rightarrow> semaphore" where
  "drainQueue now m s =
     (case js_get (smGates s) m of
        None \<Rightarrow> s
      | Some gid \<Rightarrow> drop_if_idle m gid (drain_items now m gid (gateQueue (smStore s gid)) s))"

text \<open>The release function of call \<open>i\<close>; a second call does nothing.\<close>

definition release_slot :: "int \<Rightarrow> nat \<Rightarrow> semaphore \<Rightarrow> semaphore" where
  "release_slot now i s =
     (case map_of (smHeld s) i of
        None \<Rightarrow> s
      | Some m \<Rightarrow>
          let s = s\<lparr>smHeld := filter (\<lambda>(j, _). j \<noteq> i) (smHeld s)\<rparr> in
          case js_get (smGates s) m of
            None \<Rightarrow> s
          | Some gid \<Rightarrow>
              if gateRunning (smStore s gid) > 0 then
                let s = upd_gate gid (\<lambda>g. g\<lparr>gateRunning := gateRunning g - 1\<rparr>) s in
                if gateRunning (smStore s gid) = 0 \<and> gateQueue (smStore s gid) = []
                then s\<lparr>smGates := js_delete m (smGates s)\<rparr>
                else drainQueue now m s
              else s)"

record slot_options =
  maxConcurrency :: "int option"
  timeoutMs :: "int option"
  maxQueueSize :: "int option"

definition acquire_slot :: "int \<Rightarrow> string \<Rightarrow> slot_options \<Rightarrow> semaphore \<Rightarrow> nat \<times> semaphore" where
  "acquire_slot now m opts s =
     (let mx = (case maxConcurrency opts of Some n \<Rightarrow> n | None \<Rightarrow> DEFAULT_MAX_CONCURRENCY);
          (gid, s) = getGate m mx s;
          i = smNextItem s;
          s = s\<lparr>smNextItem := i + 1\<rparr>;
          room = gateRunning (smStore s gid) < gateMax (smStore s gid);
          (limited, g) = isRateLimited now (smStore s gid);
          s = (if room then upd_gate gid (\<lambda>_. g) s else s)
      in if room \<and> \<not> limited
         then (i, grant i m (upd_gate gid (\<lambda>g. g\<lparr>gateRunning := gateRunning g + 1\<rparr>) s))
         else if (case maxQueueSize opts of
                    None \<Rightarrow> False
                  | Some n \<Rightarrow> n \<ge> 0 \<and> int (length (gateQueue (smStore s gid))) \<ge> n)
         then (i, drop_if_idle m gid (s\<lparr>smLog := smLog s @ [(i, SEMAPHORE_QUEUE_FULL)]\<rparr>))
         else
           (i, (upd_gate gid (\<lambda>g. g\<lparr>gateQueue := gateQueue g @ [i]\<rparr>) s)
                 \<lparr>smTimers := js_set i
                    (gid, now + (case timeoutMs opts of Some t \<Rightarrow> t | None \<Rightarrow> 30000)) (smTimers s)\<rparr>))"

text \<open>The timeout callback of call \<open>i\<close>, with the gate it captured.\<close>

definition slot_timeout_fires :: "int \<Rightarrow> nat \<Rightarrow> semaphore \<Rightarrow> semaphore" where
  "slot_timeout_fires now i s =
     (case js_get (smTimers s) i of
        None \<Rightarrow> s
      | Some (gid, due) \<Rightarrow>
          if now < due then s
          else
            (upd_gate gid (\<lambda>g. g\<lparr>gateQueue := remove1 i (gateQueue g)\<rparr>) s)
              \<lparr>smTimers := js_delete i (smTimers s), smLog := smLog s @ [(i, SEMAPHORE_TIMEOUT)]\<rparr>)"

definition markRateLimited :: "int \<Rightarrow> string \<Rightarrow> int \<Rightarrow> semaphore \<Rightarrow> semaphore" where
  "markRateLimited now m cooldown s =
     (let (gid, s) = getGate m DEFAULT_MAX_CONCURRENCY s;
          s = upd_gate gid (\<lambda>g. g\<lparr>rateLimitedUntil := Some (now + cooldown)\<rparr>) s
      in s\<lparr>smCooldowns := smCooldowns s @ [(gid, m, now + cooldown + 50)]\<rparr>)"

definition cooldown_fires :: "int \<Rightarrow> nat \<times> string \<times> int \<Rightarrow> semaphore \<Rightarrow> semaphore" where
  "cooldown_fires now cd s =
     (case cd of (gid, m, due) \<Rightarrow>
        if cd \<notin> set (smCooldowns s) \<or> now < due then s
        else
          let s = s\<lparr>smCooldowns := remove1 cd (smCooldowns s)\<rparr> in
          case rateLimitedUntil (smStore s gid) of
            None \<Rightarrow> s
          | Some t \<Rightarrow>
              if t \<noteq> 0 \<and> now \<ge> t
              then drainQueue now m (upd_gate gid (\<lambda>g. g\<lparr>rateLimitedUntil := None\<rparr>) s)
              else s)"

definition getStats :: "semaphore \<Rightarrow> (string \<times> int \<times> nat \<times> int \<times> int option) list" where
  "getStats s =
     map (\<lambda>(m, gid). let g = smStore s gid in
            (m, gateRunning g, length (gateQueue g), gateMax g,
             (case rateLimitedUntil g of Some t \<Rightarrow> if t = 0 then None else Some t | None \<Rightarrow> None)))
       (smGates s)"

definition reset_all_slots :: "semaphore \<Rightarrow> semaphore" where
  "reset_all_slots s =
     (let items = concat (map (\<lambda>gid. gateQueue (smStore s gid)) (js_values (smGates s)))
      in s\<lparr>smTimers := filter (\<lambda>(i, _). i \<notin> set items) (smTimers s),
           smLog := smLog s @ map (\<lambda>i. (i, Semaphore_reset)) items, smGates := []\<rparr>)"

datatype slot_event =
    Sl_acquire string slot_options
  | Sl_release nat
  | Sl_timeout nat
  | Sl_mark string int
  | Sl_cooldown "nat \<times> string \<times> int"
  | Sl_reset

fun slot_step :: "semaphore \<Rightarrow> int \<times> slot_event \<Rightarrow> semaphore" where
  "slot_step s (now, Sl_acquire m opts) = snd (acquire_slot now m opts s)"
| "slot_step s (now, Sl_release i) = release_slot now i s"
| "slot_step s (now, Sl_timeout i) = slot_timeout_fires now i s"
| "slot_step s (now, Sl_mark m cooldown) = markRateLimited now m cooldown s"
| "slot_step s (now, Sl_cooldown cd) = cooldown_fires now cd s"
| "slot_step s (now, Sl_reset) = reset_all_slots s"

section \<open>Invariant\<close>

definition held_of :: "string \<Rightarrow> semaphore \<Rightarrow> int" where
  "held_of m s = int (length (filter (\<lambda>(_, m'). m' = m) (smHeld s)))"

text \<open>
  The map names different gates; a mapped gate counts exactly the release functions still held
  for its model, and a model without a gate holds none; the timers are those of the queued
  items, each under the gate that queues it; every call so far is queued or settled, never both
  and never twice.
\<close>

definition gates_ok :: "semaphore \<Rightarrow> bool" where
  "gates_ok s \<longleftrightarrow>
     js_map_ok (smGates s)
   \<and> (\<forall>m m' gid. js_get (smGates s) m = Some gid \<longrightarrow> js_get (smGates s) m' = Some gid \<longrightarrow> m = m')
   \<and> (\<forall>m gid. js_get (smGates s) m = Some gid \<longrightarrow> gid < smNextGate s)"

definition counts_ok :: "semaphore \<Rightarrow> bool" where
  "counts_ok s \<longleftrightarrow>
     distinct (map fst (smHeld s))
   \<and> (\<forall>m. held_of m s =
        (case js_get (smGates s) m of Some gid \<Rightarrow> gateRunning (smStore s gid) | None \<Rightarrow> 0))"

definition items_ok :: "semaphore \<Rightarrow> bool" where
  "items_ok s \<longleftrightarrow>
     (\<forall>gid. distinct (gateQueue (smStore s gid)))
   \<and> (\<forall>gid i. i \<in> set (gateQueue (smStore s gid)) \<longleftrightarrow> (\<exists>due. js_get (smTimers s) i = Some (gid, due)))
   \<and> (\<forall>i gid due. js_get (smTimers s) i = Some (gid, due) \<longrightarrow> (\<exists>m. js_get (smGates s) m = Some gid))"

definition calls_settled_ok :: "semaphore \<Rightarrow> bool" where
  "calls_settled_ok s \<longleftrightarrow>
     js_map_ok (smTimers s) \<and> distinct (map fst (smLog s))
   \<and> set (map fst (smLog s)) \<inter> set (js_keys (smTimers s)) = {}
   \<and> set (map fst (smLog s)) \<union> set (js_keys (smTimers s)) = {..<smNextItem s}
   \<and> (\<forall>i m. (i, m) \<in> set (smHeld s) \<longrightarrow> (i, Slot_granted) \<in> set (smLog s))"

definition slots_ok :: "semaphore \<Rightarrow> bool" where
  "slots_ok s \<longleftrightarrow> gates_ok s \<and> counts_ok s \<and> items_ok s \<and> calls_settled_ok s"

lemmas slots_ok_defs = slots_ok_def gates_ok_def counts_ok_def items_ok_def calls_settled_ok_def

lemma upd_gate_simps [simp]:
  "smGates (upd_gate gid f s) = smGates s" "smNextGate (upd_gate gid f s) = smNextGate s"
  "smNextItem (upd_gate gid f s) = smNextItem s" "smTimers (upd_gate gid f s) = smTimers s"
  "smHeld (upd_gate gid f s) = smHeld s" "smLog (upd_gate gid f s) = smLog s"
  "smCooldowns (upd_gate gid f s) = smCooldowns s"
  "smStore (upd_gate gid f s) = (smStore s)(gid := f (smStore s gid))"
  by (simp_all add: upd_gate_def)

lemma grant_simps [simp]:
  "smGates (grant i m s) = smGates s" "smNextGate (grant i m s) = smNextGate s"
  "smNextItem (grant i m s) = smNextItem s" "smTimers (grant i m s) = smTimers s"
  "smHeld (grant i m s) = (i, m) # smHeld s" "smStore (grant i m s) = smStore s"
  "smLog (grant i m s) = smLog s @ [(i, Slot_granted)]" "smCooldowns (grant i m s) = smCooldowns s"
  by (simp_all add: grant_def)

lemma isRateLimited_simps [simp]:
  "gateRunning (snd (isRateLimited now g)) = gateRunning g"
  "gateMax (snd (isRateLimited now g)) = gateMax g"
  "gateQueue (snd (isRateLimited now g)) = gateQueue g"
  by (auto simp: isRateLimited_def split: option.splits)

lemma isRateLimited_same:
  assumes "isRateLimited now g = (b, g')"
  shows "gateRunning g' = gateRunning g" "gateMax g' = gateMax g" "gateQueue g' = gateQueue g"
  using isRateLimited_simps [of now g] assms by simp_all

lemma held_of_simps [simp]:
  "held_of m (upd_gate gid f s) = held_of m s"
  "held_of m (grant i m' s) = held_of m s + (if m' = m then 1 else 0)"
  "held_of m (s\<lparr>smTimers := t\<rparr>) = held_of m s" "held_of m (s\<lparr>smGates := gs\<rparr>) = held_of m s"
  "held_of m (s\<lparr>smLog := l\<rparr>) = held_of m s" "held_of m (s\<lparr>smNextItem := n\<rparr>) = held_of m s"
  "held_of m (s\<lparr>smCooldowns := c\<rparr>) = held_of m s"
  by (simp_all add: held_of_def)

text \<open>A gate update that keeps count and queue keeps the invariant.\<close>

lemma slots_ok_upd_gate [wf_intros]:
  assumes "slots_ok s" "gateRunning (f (smStore s gid)) = gateRunning (smStore s gid)"
    "gateQueue (f (smStore s gid)) = gateQueue (smStore s gid)"
  shows "slots_ok (upd_gate gid f s)"
  using assms by (auto simp: slots_ok_defs split: option.splits)

lemma slots_ok_drop_if_idle [wf_intros]:
  assumes ok: "slots_ok s" and m: "js_get (smGates s) m = Some gid"
  shows "slots_ok (drop_if_idle m gid s)"
proof (cases "gateRunning (smStore s gid) = 0 \<and> gateQueue (smStore s gid) = []")
  case True
  let ?s = "s\<lparr>smGates := js_delete m (smGates s)\<rparr>"
  have io: "items_ok s" using ok by (simp add: slots_ok_def)
  have "gates_ok ?s" using ok by (auto simp: slots_ok_def gates_ok_def)
  moreover have "counts_ok ?s"
    using ok m True by (auto simp: slots_ok_def counts_ok_def split: option.splits)
  moreover have "\<exists>m'. js_get (smGates ?s) m' = Some gid'"
    if timer: "js_get (smTimers s) i = Some (gid', due)" for i gid' due
  proof -
    have "gid' \<noteq> gid" using io timer True unfolding items_ok_def by (metis empty_iff empty_set)
    moreover obtain m' where "js_get (smGates s) m' = Some gid'"
      using io timer unfolding items_ok_def by blast
    ultimately show ?thesis using m by (intro exI [of _ m']) auto
  qed
  then have "items_ok ?s" using io by (simp add: items_ok_def)
  moreover have "calls_settled_ok ?s" using ok by (simp add: slots_ok_def calls_settled_ok_def)
  ultimately show ?thesis using True by (simp add: drop_if_idle_def slots_ok_def)
next
  case False
  with ok show ?thesis by (auto simp: drop_if_idle_def)
qed

text \<open>The two places that hand out a slot: the head of a queue, and a call on arrival.\<close>

lemma counts_ok_grant:
  assumes c: "counts_ok s" and g: "gates_ok s" and m: "js_get (smGates s) m = Some gid"
    and i: "i \<notin> set (map fst (smHeld s))"
    and g': "gateRunning (f (smStore s gid)) = gateRunning (smStore s gid) + 1"
    and t: "smGates t = smGates s" "smHeld t = (i, m) # smHeld s"
      "smStore t = (smStore s)(gid := f (smStore s gid))"
  shows "counts_ok t"
proof -
  have "held_of m' t = (case js_get (smGates t) m' of
      Some gid \<Rightarrow> gateRunning (smStore t gid) | None \<Rightarrow> 0)" for m'
  proof (cases "m' = m")
    case True
    with c m g' t show ?thesis by (auto simp: counts_ok_def held_of_def)
  next
    case False
    then have ne: "js_get (smGates s) m' \<noteq> Some gid" using g m unfolding gates_ok_def by blast
    have "held_of m' t = held_of m' s" using False t by (simp add: held_of_def)
    with c ne t show ?thesis by (auto simp: counts_ok_def split: option.splits)
  qed
  with c i t show ?thesis by (simp add: counts_ok_def)
qed

lemma grant_head_simps [simp]:
  "smGates (grant_head m gid g i q s) = smGates s"
  "smNextGate (grant_head m gid g i q s) = smNextGate s"
  "smNextItem (grant_head m gid g i q s) = smNextItem s"
  "smTimers (grant_head m gid g i q s) = js_delete i (smTimers s)"
  "smHeld (grant_head m gid g i q s) = (i, m) # smHeld s"
  "smLog (grant_head m gid g i q s) = smLog s @ [(i, Slot_granted)]"
  "smCooldowns (grant_head m gid g i q s) = smCooldowns s"
  "smStore (grant_head m gid g i q s) =
     (smStore s)(gid := g\<lparr>gateQueue := q, gateRunning := gateRunning g + 1\<rparr>)"
  by (simp_all add: grant_head_def)

lemma slots_ok_grant_head [wf_intros]:
  assumes ok: "slots_ok s" and m: "js_get (smGates s) m = Some gid"
    and q: "gateQueue (smStore s gid) = i # q"
    and g: "gateRunning g = gateRunning (smStore s gid)"
  shows "slots_ok (grant_head m gid g i q s)" (is "slots_ok ?s")
proof -
  have io: "items_ok s" and co: "calls_settled_ok s" using ok by (simp_all add: slots_ok_def)
  obtain due where due: "js_get (smTimers s) i = Some (gid, due)"
    using io q unfolding items_ok_def by (metis list.set_intros(1))
  then have i: "i \<in> set (js_keys (smTimers s))" by (metis js_has_keys js_has_def option.discI)
  with co have log: "i \<notin> set (map fst (smLog s))"
    unfolding calls_settled_ok_def by blast
  have held: "i \<notin> set (map fst (smHeld s))"
  proof
    assume "i \<in> set (map fst (smHeld s))"
    then obtain m' where "(i, m') \<in> set (smHeld s)" by auto
    with co have "(i, Slot_granted) \<in> set (smLog s)" unfolding calls_settled_ok_def by blast
    then have "i \<in> set (map fst (smLog s))" by force
    with log show False ..
  qed
  have "gates_ok ?s" using ok by (simp add: slots_ok_def gates_ok_def)
  moreover have "counts_ok ?s"
    using counts_ok_grant [of s m gid i "\<lambda>_. g\<lparr>gateQueue := q, gateRunning := gateRunning g + 1\<rparr>" ?s]
      ok m g held by (simp add: slots_ok_def)
  moreover have "items_ok ?s"
  proof -
    have iq: "distinct (i # q)" using io q unfolding items_ok_def by metis
    then have "j \<in> set q \<longleftrightarrow> j \<noteq> i \<and> j \<in> set (gateQueue (smStore s gid))" for j
      using q by auto
    then have "j \<in> set q \<longleftrightarrow> j \<noteq> i \<and> (\<exists>due. js_get (smTimers s) j = Some (gid, due))" for j
      using io unfolding items_ok_def by blast
    with io due iq show ?thesis unfolding items_ok_def by (auto simp del: fst_conv)
  qed
  moreover have "calls_settled_ok ?s"
  proof -
    have "i < smNextItem s" using co i unfolding calls_settled_ok_def by blast
    with co i log show ?thesis unfolding calls_settled_ok_def by (auto simp del: set_map)
  qed
  ultimately show ?thesis by (simp add: slots_ok_def)
qed

lemma drain_items_effect:
  assumes "slots_ok s" "js_get (smGates s) m = Some gid" "gateQueue (smStore s gid) = q"
  shows "slots_ok (drain_items now m gid q s)
    \<and> smGates (drain_items now m gid q s) = smGates s
    \<and> (\<exists>k. gateQueue (smStore (drain_items now m gid q s) gid) = drop k q
         \<and> smLog (drain_items now m gid q s) = smLog s @ map (\<lambda>i. (i, Slot_granted)) (take k q))"
  using assms
proof (induction q arbitrary: s)
  case (Cons i q)
  obtain b g where r: "isRateLimited now (smStore s gid) = (b, g)" by fastforce
  note g = isRateLimited_same [OF r]
  show ?case
  proof (cases "gateRunning (smStore s gid) < gateMax (smStore s gid) \<and> \<not> b")
    case True
    let ?s = "grant_head m gid g i q s"
    have "slots_ok ?s" by (rule slots_ok_grant_head) (use Cons.prems g in auto)
    then have IH: "slots_ok (drain_items now m gid q ?s)
      \<and> smGates (drain_items now m gid q ?s) = smGates s
      \<and> (\<exists>k. gateQueue (smStore (drain_items now m gid q ?s) gid) = drop k q
         \<and> smLog (drain_items now m gid q ?s)
             = (smLog s @ [(i, Slot_granted)]) @ map (\<lambda>i. (i, Slot_granted)) (take k q))"
      using Cons.IH [of ?s] Cons.prems by simp
    then obtain k where k: "gateQueue (smStore (drain_items now m gid q ?s) gid) = drop k q"
      "smLog (drain_items now m gid q ?s)
        = (smLog s @ [(i, Slot_granted)]) @ map (\<lambda>i. (i, Slot_granted)) (take k q)" by blast
    have "drain_items now m gid (i # q) s = drain_items now m gid q ?s" using True r by simp
    with IH k show ?thesis by (auto intro!: exI [of _ "Suc k"])
  next
    case False
    then have "drain_items now m gid (i # q) s = s
      \<or> drain_items now m gid (i # q) s = upd_gate gid (\<lambda>_. g) s" using r by auto
    with Cons.prems g show ?thesis
      by (auto intro!: exI [of _ 0] slots_ok_upd_gate)
  qed
qed auto

lemma slots_ok_drainQueue [wf_intros]: "slots_ok s \<Longrightarrow> slots_ok (drainQueue now m s)"
  using drain_items_effect [OF _ _ refl] slots_ok_drop_if_idle
  by (auto simp: drainQueue_def split: option.splits)

text \<open>Taking one slot away again, when its release function runs.\<close>

lemma slots_ok_release [wf_intros]:
  assumes ok: "slots_ok s"
  shows "slots_ok (release_slot now i s)"
proof (cases "map_of (smHeld s) i")
  case None
  with ok show ?thesis by (simp add: release_slot_def)
next
  case (Some m)
  then have im: "(i, m) \<in> set (smHeld s)" by (rule map_of_SomeD)
  define h where "h = filter (\<lambda>(j, _). j \<noteq> i) (smHeld s)"
  let ?s = "s\<lparr>smHeld := h\<rparr>"
  have d: "distinct (map fst (smHeld s))" using ok by (simp add: slots_ok_def counts_ok_def)
  have held: "held_of m' ?s = held_of m' s - (if m' = m then 1 else 0)" for m'
    using im d unfolding held_of_def h_def
  proof (induction "smHeld s" arbitrary: s)
    case (Cons p ps)
    show ?case
    proof (cases "p = (i, m)")
      case True
      with Cons.prems Cons.hyps(2) [symmetric] have "i \<notin> fst ` set ps" by auto
      then have "filter (\<lambda>(j, _). j \<noteq> i) ps = ps" by (force simp: filter_id_conv)
      with True Cons.hyps(2) [symmetric] show ?thesis by simp
    next
      case False
      have "(i, m) \<in> set ps" "fst p \<notin> set (map fst ps)"
        using False Cons.prems Cons.hyps(2) [symmetric] by auto
      moreover from \<open>(i, m) \<in> set ps\<close> have "i \<in> set (map fst ps)" by (metis fst_conv image_eqI set_map)
      ultimately have "fst p \<noteq> i" by blast
      with False Cons.prems Cons.hyps(1) [of "s\<lparr>smHeld := ps\<rparr>"] Cons.hyps(2) [symmetric]
      show ?thesis by (cases p) (auto split: if_splits)
    qed
  qed simp
  have "held_of m s > 0"
  proof -
    have "(i, m) \<in> set (filter (\<lambda>(_, m'). m' = m) (smHeld s))" using im by simp
    then have "filter (\<lambda>(_, m'). m' = m) (smHeld s) \<noteq> []" by (metis empty_iff empty_set)
    then show ?thesis by (simp add: held_of_def)
  qed
  then obtain gid where gid: "js_get (smGates s) m = Some gid"
    and run: "gateRunning (smStore s gid) > 0"
    using ok by (force simp: slots_ok_def counts_ok_def split: option.splits)
  let ?t = "upd_gate gid (\<lambda>g. g\<lparr>gateRunning := gateRunning g - 1\<rparr>) ?s"
  have "gates_ok ?t" using ok by (simp add: slots_ok_def gates_ok_def)
  have "held_of m' ?t = (case js_get (smGates ?t) m' of
      Some gid \<Rightarrow> gateRunning (smStore ?t gid) | None \<Rightarrow> 0)" for m'
  proof (cases "m' = m")
    case True
    with ok gid held [of m] show ?thesis by (simp add: slots_ok_def counts_ok_def)
  next
    case False
    then have "js_get (smGates s) m' \<noteq> Some gid" using ok gid unfolding slots_ok_def gates_ok_def by blast
    with False ok held [of m'] show ?thesis
      by (auto simp: slots_ok_def counts_ok_def split: option.splits)
  qed
  moreover have "distinct (map fst h)" unfolding h_def using d by (rule distinct_map_filter)
  ultimately have "counts_ok ?t" unfolding counts_ok_def by simp
  moreover have "items_ok ?t" using ok by (auto simp: slots_ok_def items_ok_def)
  moreover have "calls_settled_ok ?t" using ok by (auto simp: slots_ok_def calls_settled_ok_def h_def)
  moreover note \<open>gates_ok ?t\<close>
  ultimately have t: "slots_ok ?t" by (simp add: slots_ok_def)
  have "release_slot now i s = (if gateRunning (smStore ?t gid) = 0 \<and> gateQueue (smStore ?t gid) = []
      then drop_if_idle m gid ?t else drainQueue now m ?t)"
    using Some gid run by (simp add: release_slot_def Let_def h_def drop_if_idle_def)
  moreover have "slots_ok (drop_if_idle m gid ?t)" by (rule slots_ok_drop_if_idle) (use t gid in simp_all)
  ultimately show ?thesis using slots_ok_drainQueue [OF t] by simp
qed

lemma getGate_effect:
  assumes ok: "slots_ok s" and r: "getGate m mx s = (gid, t)"
  shows "slots_ok t" and "js_get (smGates t) m = Some gid" and "gateMax (smStore t gid) = mx"
    and "smLog t = smLog s" and "smNextItem t = smNextItem s" and "smHeld t = smHeld s"
    and "smTimers t = smTimers s"
    and "gateRunning (smStore t gid) = held_of m s"
proof -
  let ?s = "s\<lparr>smGates := js_set m (smNextGate s) (smGates s),
              smStore := (smStore s)(smNextGate s := idle_gate mx), smNextGate := smNextGate s + 1\<rparr>"
  have new: "slots_ok ?s" if none: "js_get (smGates s) m = None"
  proof -
    have lt: "gid < smNextGate s" if "js_get (smGates s) m' = Some gid" for m' gid
      using ok that unfolding slots_ok_def gates_ok_def by blast
    have timers: "gid < smNextGate s" if timer: "js_get (smTimers s) i = Some (gid, due)" for i gid due
      using ok timer lt unfolding slots_ok_def items_ok_def by metis
    have "gates_ok ?s" using ok lt by (auto simp: slots_ok_def gates_ok_def dest!: lt less_imp_neq intro: less_SucI)
    moreover have "held_of m' ?s = held_of m' s" for m' by (simp add: held_of_def)
    with ok none have "counts_ok ?s"
      by (auto simp: slots_ok_def counts_ok_def idle_gate_def dest!: lt split: option.splits)
    moreover have "\<exists>m'. js_get (smGates ?s) m' = Some gid"
      if timer: "js_get (smTimers s) i = Some (gid, due)" for i gid due
    proof -
      obtain m' where "js_get (smGates s) m' = Some gid"
        using ok timer unfolding slots_ok_def items_ok_def by blast
      with none show ?thesis by (intro exI [of _ m']) auto
    qed
    with ok have "items_ok ?s"
      by (auto simp: slots_ok_def items_ok_def idle_gate_def dest: timers simp del: js_get_set)
    moreover have "calls_settled_ok ?s" using ok by (simp add: slots_ok_def calls_settled_ok_def)
    ultimately show ?thesis by (simp add: slots_ok_def)
  qed
  have "slots_ok t \<and> js_get (smGates t) m = Some gid \<and> gateMax (smStore t gid) = mx
      \<and> smLog t = smLog s \<and> smNextItem t = smNextItem s \<and> smHeld t = smHeld s
      \<and> smTimers t = smTimers s"
  proof (cases "js_get (smGates s) m")
    case None
    with new [OF None] r show ?thesis by (auto simp: getGate_def Let_def intro!: slots_ok_upd_gate)
  next
    case (Some gid')
    with ok r show ?thesis by (auto simp: getGate_def Let_def intro!: slots_ok_upd_gate)
  qed
  then show *: "slots_ok t" "js_get (smGates t) m = Some gid" "gateMax (smStore t gid) = mx"
    "smLog t = smLog s" "smNextItem t = smNextItem s" "smHeld t = smHeld s" "smTimers t = smTimers s"
    by blast+
  then show "gateRunning (smStore t gid) = held_of m s"
    by (simp add: slots_ok_def counts_ok_def held_of_def)
qed

section \<open>Every call and callback keeps the invariant\<close>

lemma slots_frame [simp]:
  "gates_ok (s\<lparr>smLog := l\<rparr>) = gates_ok s" "gates_ok (s\<lparr>smNextItem := n\<rparr>) = gates_ok s"
  "gates_ok (s\<lparr>smTimers := t\<rparr>) = gates_ok s" "gates_ok (s\<lparr>smCooldowns := c\<rparr>) = gates_ok s"
  "counts_ok (s\<lparr>smLog := l\<rparr>) = counts_ok s" "counts_ok (s\<lparr>smNextItem := n\<rparr>) = counts_ok s"
  "counts_ok (s\<lparr>smTimers := t\<rparr>) = counts_ok s" "counts_ok (s\<lparr>smCooldowns := c\<rparr>) = counts_ok s"
  "items_ok (s\<lparr>smLog := l\<rparr>) = items_ok s" "items_ok (s\<lparr>smNextItem := n\<rparr>) = items_ok s"
  "items_ok (s\<lparr>smCooldowns := c\<rparr>) = items_ok s"
  "calls_settled_ok (s\<lparr>smCooldowns := c\<rparr>) = calls_settled_ok s"
  by (simp_all add: gates_ok_def counts_ok_def items_ok_def calls_settled_ok_def
      cong: option.case_cong)

lemma upd_gate_next: "upd_gate gid f (t\<lparr>smNextItem := n\<rparr>) = (upd_gate gid f t)\<lparr>smNextItem := n\<rparr>"
  by (cases t) (simp add: upd_gate_def)

text \<open>\<open>acquire\<close> after its gate is looked up and an expired cooldown cleared.\<close>

lemma acquire_slot_unfold:
  assumes "getGate m (case maxConcurrency opts of Some n \<Rightarrow> n | None \<Rightarrow> DEFAULT_MAX_CONCURRENCY) s = (gid, t)"
    and "isRateLimited now (smStore t gid) = (b, g)"
    and u_def: "u = (if gateRunning (smStore t gid) < gateMax (smStore t gid)
             then upd_gate gid (\<lambda>_. g) t else t)"
    and i_def: "i = smNextItem t"
  shows "acquire_slot now m opts s =
     (i, if gateRunning (smStore u gid) < gateMax (smStore u gid) \<and> \<not> b
         then grant i m (upd_gate gid (\<lambda>g. g\<lparr>gateRunning := gateRunning g + 1\<rparr>) (u\<lparr>smNextItem := i + 1\<rparr>))
         else if (case maxQueueSize opts of
                    None \<Rightarrow> False
                  | Some n \<Rightarrow> n \<ge> 0 \<and> int (length (gateQueue (smStore u gid))) \<ge> n)
         then drop_if_idle m gid (u\<lparr>smNextItem := i + 1, smLog := smLog u @ [(i, SEMAPHORE_QUEUE_FULL)]\<rparr>)
         else (upd_gate gid (\<lambda>g. g\<lparr>gateQueue := gateQueue g @ [i]\<rparr>) (u\<lparr>smNextItem := i + 1\<rparr>))
                \<lparr>smTimers := js_set i
                   (gid, now + (case timeoutMs opts of Some t \<Rightarrow> t | None \<Rightarrow> 30000)) (smTimers u)\<rparr>)"
  using assms isRateLimited_same [OF assms(2)]
  by (cases "gateRunning (smStore t gid) < gateMax (smStore t gid)")
    (simp_all add: acquire_slot_def Let_def upd_gate_next cong: option.case_cong)

lemma slots_ok_acquire [wf_intros]:
  assumes ok: "slots_ok s"
  shows "slots_ok (snd (acquire_slot now m opts s))"
proof -
  define mx where "mx = (case maxConcurrency opts of Some n \<Rightarrow> n | None \<Rightarrow> DEFAULT_MAX_CONCURRENCY)"
  obtain gid t where t: "getGate m mx s = (gid, t)" by fastforce
  note e = getGate_effect [OF ok t]
  define i where "i = smNextItem t"
  obtain b g where r: "isRateLimited now (smStore t gid) = (b, g)" by fastforce
  note g = isRateLimited_same [OF r]
  define u where "u = (if gateRunning (smStore t gid) < gateMax (smStore t gid)
             then upd_gate gid (\<lambda>_. g) t else t)"
  have u: "slots_ok u" "js_get (smGates u) m = Some gid" "smNextItem u = i"
    using e(1,2) g by (auto simp: u_def i_def intro: slots_ok_upd_gate)
  then have parts: "gates_ok u" "counts_ok u" "items_ok u" "calls_settled_ok u"
    by (simp_all add: slots_ok_def)
  have log: "set (map fst (smLog u)) \<union> set (js_keys (smTimers u)) = {..<i}"
    using parts(4) u(3) by (simp add: calls_settled_ok_def)
  then have fresh: "i \<notin> set (map fst (smLog u))" "i \<notin> set (js_keys (smTimers u))" by blast+
  have held: "i \<notin> set (map fst (smHeld u))"
  proof
    assume "i \<in> set (map fst (smHeld u))"
    then obtain m' where "(i, m') \<in> set (smHeld u)" by auto
    then have "(i, Slot_granted) \<in> set (smLog u)" using parts(4) unfolding calls_settled_ok_def by blast
    then have "i \<in> set (map fst (smLog u))" by force
    with fresh(1) show False ..
  qed
  let ?u = "u\<lparr>smNextItem := i + 1\<rparr>"
  have accept: "slots_ok (grant i m (upd_gate gid (\<lambda>g. g\<lparr>gateRunning := gateRunning g + 1\<rparr>) ?u))"
    (is "slots_ok ?a")
  proof -
    have "gates_ok ?a" using parts(1) by (simp add: gates_ok_def)
    moreover have "counts_ok ?a"
      by (rule counts_ok_grant [of u m gid i "\<lambda>g. g\<lparr>gateRunning := gateRunning g + 1\<rparr>"])
        (use parts u held in simp_all)
    moreover have "items_ok ?a" using parts(3) unfolding items_ok_def by auto
    moreover have "calls_settled_ok ?a"
      using parts(4) log fresh unfolding calls_settled_ok_def
      by (auto simp: lessThan_Suc simp del: set_map)
    ultimately show ?thesis by (simp add: slots_ok_def)
  qed
  have reject: "slots_ok (u\<lparr>smNextItem := i + 1, smLog := smLog u @ [(i, SEMAPHORE_QUEUE_FULL)]\<rparr>)"
  proof -
    have "calls_settled_ok (u\<lparr>smNextItem := i + 1, smLog := smLog u @ [(i, SEMAPHORE_QUEUE_FULL)]\<rparr>)"
      using parts(4) log fresh unfolding calls_settled_ok_def
      by (auto simp: lessThan_Suc simp del: set_map)
    with parts show ?thesis by (simp add: slots_ok_def)
  qed
  have queue: "slots_ok ((upd_gate gid (\<lambda>g. g\<lparr>gateQueue := gateQueue g @ [i]\<rparr>) ?u)
      \<lparr>smTimers := js_set i (gid, due) (smTimers u)\<rparr>)" (is "slots_ok ?q") for due
  proof -
    have none: "js_get (smTimers u) i = None" using fresh(2) by (simp add: map_of_eq_None_iff)
    have "gates_ok ?q" using parts(1) by (simp add: gates_ok_def)
    moreover have "counts_ok ?q"
      using parts(2) by (auto simp: counts_ok_def held_of_def split: option.splits)
    moreover have "i \<notin> set (gateQueue (smStore u gid))"
      using parts(3) none unfolding items_ok_def by (metis option.distinct(1))
    with parts(3) u(2) none have "items_ok ?q" unfolding items_ok_def by auto
    moreover have "calls_settled_ok ?q"
      using parts(4) log fresh unfolding calls_settled_ok_def
      by (auto simp: lessThan_Suc simp del: set_map)
    ultimately show ?thesis by (simp add: slots_ok_def)
  qed
  have "js_get (smGates (u\<lparr>smNextItem := i + 1, smLog := smLog u @ [(i, SEMAPHORE_QUEUE_FULL)]\<rparr>)) m
      = Some gid" using u(2) by simp
  note drop = slots_ok_drop_if_idle [OF reject this]
  show ?thesis
    unfolding acquire_slot_unfold [OF t [unfolded mx_def] r u_def i_def] snd_conv
    using accept drop queue by (simp only: if_split split: if_splits) blast
qed

text \<open>The callbacks.\<close>

lemma slots_ok_timeout [wf_intros]:
  assumes ok: "slots_ok s"
  shows "slots_ok (slot_timeout_fires now i s)"
proof (cases "js_get (smTimers s) i")
  case None
  with ok show ?thesis by (simp add: slot_timeout_fires_def)
next
  case (Some p)
  obtain gid due where p: "p = (gid, due)" by fastforce
  note timer = Some [unfolded p]
  have parts: "gates_ok s" "counts_ok s" "items_ok s" "calls_settled_ok s"
    using ok by (simp_all add: slots_ok_def)
  let ?t = "(upd_gate gid (\<lambda>g. g\<lparr>gateQueue := remove1 i (gateQueue g)\<rparr>) s)
              \<lparr>smTimers := js_delete i (smTimers s), smLog := smLog s @ [(i, SEMAPHORE_TIMEOUT)]\<rparr>"
  have i: "i \<in> set (js_keys (smTimers s))" using timer by (metis js_has_keys js_has_def option.discI)
  have "gates_ok ?t" using parts(1) by (simp add: gates_ok_def)
  moreover have "counts_ok ?t"
    using parts(2) by (auto simp: counts_ok_def held_of_def split: option.splits)
  moreover have "items_ok ?t"
    using parts(3) timer unfolding items_ok_def by auto
  moreover have "calls_settled_ok ?t"
    using parts(4) i unfolding calls_settled_ok_def by (auto simp del: set_map)
  ultimately show ?thesis using ok by (auto simp: slot_timeout_fires_def slots_ok_def timer)
qed

lemma slots_ok_mark [wf_intros]:
  assumes "slots_ok s"
  shows "slots_ok (markRateLimited now m cooldown s)"
proof -
  obtain gid t where t: "getGate m DEFAULT_MAX_CONCURRENCY s = (gid, t)" by fastforce
  have "slots_ok (upd_gate gid (\<lambda>g. g\<lparr>rateLimitedUntil := Some (now + cooldown)\<rparr>) t)"
    by (rule slots_ok_upd_gate) (use getGate_effect(1) [OF assms t] in simp_all)
  with t show ?thesis by (simp add: markRateLimited_def slots_ok_def)
qed

lemma slots_ok_cooldown [wf_intros]:
  assumes ok: "slots_ok s"
  shows "slots_ok (cooldown_fires now cd s)"
proof -
  have "slots_ok (s\<lparr>smCooldowns := c\<rparr>)" for c using ok by (simp add: slots_ok_def)
  then show ?thesis using ok
    by (auto simp: cooldown_fires_def Let_def split: prod.splits option.splits
        intro!: slots_ok_drainQueue slots_ok_upd_gate)
qed


section \<open>Runs\<close>

fun slot_event_ok :: "int \<times> slot_event \<Rightarrow> bool" where
  "slot_event_ok (now, Sl_reset) = False"
| "slot_event_ok _ = True"

lemma slot_step_ok: "slots_ok s \<Longrightarrow> slot_event_ok ev \<Longrightarrow> slots_ok (slot_step s ev)"
  by (induction s ev rule: slot_step.induct) (auto intro: wf_intros)

interpretation slot_run: step_invariant slot_step "\<lambda>_. slot_event_ok" slots_ok
  by unfold_locales (rule slot_step_ok)

lemma new_semaphore_ok: "slots_ok new_semaphore"
  by (auto simp: slots_ok_defs new_semaphore_def idle_gate_def held_of_def)

text \<open>No gate ever runs more than its limit allowed when it handed the slot out.\<close>

definition within_max :: "int \<Rightarrow> semaphore \<Rightarrow> bool" where
  "within_max M s \<longleftrightarrow>
     (\<forall>gid. gateMax (smStore s gid) \<le> M \<and> gateRunning (smStore s gid) \<le> M)"

lemma within_max_frame [simp]:
  "within_max M (s\<lparr>smLog := l\<rparr>) = within_max M s" "within_max M (s\<lparr>smNextItem := n\<rparr>) = within_max M s"
  "within_max M (s\<lparr>smTimers := t\<rparr>) = within_max M s" "within_max M (s\<lparr>smCooldowns := c\<rparr>) = within_max M s"
  "within_max M (s\<lparr>smHeld := h\<rparr>) = within_max M s" "within_max M (s\<lparr>smGates := gs\<rparr>) = within_max M s"
  "within_max M (grant i m s) = within_max M s"
  by (simp_all add: within_max_def)

lemma within_max_upd_gate:
  "within_max M s \<Longrightarrow> gateMax (f (smStore s gid)) \<le> M \<Longrightarrow> gateRunning (f (smStore s gid)) \<le> M
   \<Longrightarrow> within_max M (upd_gate gid f s)"
  by (simp add: within_max_def)

lemma within_max_gate:
  "within_max M s \<Longrightarrow> gateMax (smStore s gid) \<le> M" "within_max M s \<Longrightarrow> gateRunning (smStore s gid) \<le> M"
  by (simp_all add: within_max_def)

lemma within_max_drop: "within_max M s \<Longrightarrow> within_max M (drop_if_idle m gid s)"
  by (simp add: drop_if_idle_def)

lemma within_max_drain_items: "within_max M s \<Longrightarrow> within_max M (drain_items now m gid q s)"
proof (induction q arbitrary: s)
  case (Cons i q)
  obtain b g where r: "isRateLimited now (smStore s gid) = (b, g)" by fastforce
  have "within_max M (grant_head m gid g i q s)"
    if "gateRunning (smStore s gid) < gateMax (smStore s gid)"
    unfolding grant_head_def within_max_frame
    by (rule within_max_upd_gate)
      (use that Cons.prems within_max_gate [OF Cons.prems, of gid] isRateLimited_same [OF r] in simp_all)
  moreover have "within_max M (upd_gate gid (\<lambda>_. g) s)"
    by (rule within_max_upd_gate)
      (use Cons.prems within_max_gate [OF Cons.prems, of gid] isRateLimited_same [OF r] in simp_all)
  ultimately show ?case using Cons r by (auto split: bool.splits)
qed simp

lemma within_max_drainQueue: "within_max M s \<Longrightarrow> within_max M (drainQueue now m s)"
  by (auto simp: drainQueue_def within_max_drop within_max_drain_items split: option.splits)

lemma within_max_getGate:
  assumes "within_max M s" "getGate m mx s = (gid, t)" "mx \<le> M" "0 \<le> M"
  shows "within_max M t"
  using assms by (auto simp: getGate_def Let_def within_max_def idle_gate_def split: option.splits)

lemma within_max_acquire:
  assumes w: "within_max M s" and M: "0 \<le> M"
    and mx: "(case maxConcurrency opts of Some n \<Rightarrow> n | None \<Rightarrow> DEFAULT_MAX_CONCURRENCY) \<le> M"
  shows "within_max M (snd (acquire_slot now m opts s))"
proof -
  obtain gid t where t: "getGate m (case maxConcurrency opts of Some n \<Rightarrow> n | None \<Rightarrow> DEFAULT_MAX_CONCURRENCY) s
    = (gid, t)" by fastforce
  obtain b g where r: "isRateLimited now (smStore t gid) = (b, g)" by fastforce
  have wt: "within_max M t" using within_max_getGate [OF w t mx M] .
  define u where "u = (if gateRunning (smStore t gid) < gateMax (smStore t gid)
             then upd_gate gid (\<lambda>_. g) t else t)"
  have u: "within_max M u"
    using wt within_max_gate [OF wt, of gid] isRateLimited_same [OF r]
    by (auto simp: u_def intro!: within_max_upd_gate)
  show ?thesis
    unfolding acquire_slot_unfold [OF t r u_def refl] snd_conv
    using u within_max_gate [OF u, of gid]
    by (auto intro!: within_max_upd_gate within_max_drop)
qed

fun asks_at_most :: "int \<Rightarrow> int \<times> slot_event \<Rightarrow> bool" where
  "asks_at_most M (now, Sl_acquire m opts) \<longleftrightarrow>
     (case maxConcurrency opts of Some n \<Rightarrow> n | None \<Rightarrow> DEFAULT_MAX_CONCURRENCY) \<le> M"
| "asks_at_most M (now, Sl_mark m cooldown) \<longleftrightarrow> DEFAULT_MAX_CONCURRENCY \<le> M"
| "asks_at_most M _ \<longleftrightarrow> True"

lemma slot_step_within:
  assumes "0 \<le> M \<and> within_max M s" "asks_at_most M ev"
  shows "0 \<le> M \<and> within_max M (slot_step s ev)"
proof -
  have w: "within_max M s" and M: "0 \<le> M" using assms by blast+
  have rel: "within_max M (release_slot now i s)" for now i
  proof -
    have d: "within_max M (upd_gate gid (\<lambda>g. g\<lparr>gateRunning := gateRunning g - 1\<rparr>) (s\<lparr>smHeld := h\<rparr>))"
      for gid h
      by (rule within_max_upd_gate) (use w within_max_gate [OF w, of gid] in simp_all)
    with w show ?thesis
      by (auto simp: release_slot_def Let_def intro: within_max_drainQueue split: option.splits)
  qed
  have cool: "within_max M (cooldown_fires now cd s)" for now cd
  proof -
    have "within_max M (upd_gate gid (\<lambda>g. g\<lparr>rateLimitedUntil := None\<rparr>) (s\<lparr>smCooldowns := c\<rparr>))" for gid c
      by (rule within_max_upd_gate) (use w within_max_gate [OF w, of gid] in simp_all)
    with w show ?thesis
      by (auto simp: cooldown_fires_def Let_def intro!: within_max_drainQueue split: prod.splits option.splits)
  qed
  have mark: "within_max M (markRateLimited now m c s)" if "DEFAULT_MAX_CONCURRENCY \<le> M" for now m c
  proof -
    obtain gid t where t: "getGate m DEFAULT_MAX_CONCURRENCY s = (gid, t)" by fastforce
    have wt: "within_max M t" by (rule within_max_getGate [OF w t that M])
    have "within_max M (upd_gate gid (\<lambda>g. g\<lparr>rateLimitedUntil := Some (now + c)\<rparr>) t)"
      by (rule within_max_upd_gate) (use wt within_max_gate [OF wt, of gid] in simp_all)
    with t show ?thesis by (simp add: markRateLimited_def)
  qed
  have out: "within_max M (slot_timeout_fires now i s)" for now i
  proof -
    have "within_max M (upd_gate gid (\<lambda>g. g\<lparr>gateQueue := remove1 i (gateQueue g)\<rparr>) s)" for gid
      by (rule within_max_upd_gate) (use w within_max_gate [OF w, of gid] in simp_all)
    with w show ?thesis by (auto simp: slot_timeout_fires_def split: option.splits)
  qed
  show ?thesis
    using assms rel cool mark out within_max_acquire [OF w M]
    by (cases ev rule: slot_event_ok.cases) (auto simp: reset_all_slots_def Let_def)
qed

interpretation slot_limit: step_invariant slot_step "\<lambda>_. asks_at_most M" "\<lambda>s. 0 \<le> M \<and> within_max M s" for M
  by unfold_locales (rule slot_step_within)

text \<open>A drain leaves waiters only behind a full or cooling gate.\<close>

lemma drain_items_rest:
  "gateQueue (smStore s gid) = q \<Longrightarrow>
     gateQueue (smStore (drain_items now m gid q s) gid) \<noteq> [] \<Longrightarrow>
     gateRunning (smStore (drain_items now m gid q s) gid) \<ge> gateMax (smStore (drain_items now m gid q s) gid)
   \<or> fst (isRateLimited now (smStore (drain_items now m gid q s) gid))"
proof (induction q arbitrary: s)
  case (Cons i q)
  obtain b g where r: "isRateLimited now (smStore s gid) = (b, g)" by fastforce
  show ?case
  proof (cases "gateRunning (smStore s gid) < gateMax (smStore s gid)")
    case True
    show ?thesis
    proof (cases b)
      case True
      with r have "g = smStore s gid" by (auto simp: isRateLimited_def split: option.splits if_splits)
      with True r show ?thesis by simp
    next
      case False
      with True Cons.IH [of "grant_head m gid g i q s"] Cons.prems r show ?thesis by simp
    qed
  qed simp
qed simp

section \<open>Properties\<close>

text \<open>A call is queued behind a full gate; a later call with a larger limit leaves room for it.\<close>

definition waiting_run :: "(int \<times> slot_event) list" where
  "waiting_run =
     [(0, Sl_acquire ''m'' \<lparr>maxConcurrency = Some 1, timeoutMs = None, maxQueueSize = None\<rparr>),
      (1, Sl_acquire ''m'' \<lparr>maxConcurrency = Some 1, timeoutMs = None, maxQueueSize = None\<rparr>),
      (2, Sl_acquire ''m'' \<lparr>maxConcurrency = Some 3, timeoutMs = None, maxQueueSize = None\<rparr>)]"

lemma waiting_run_state:
  "slots_ok (foldl slot_step new_semaphore waiting_run)"
  "js_get (smGates (foldl slot_step new_semaphore waiting_run)) ''m'' = Some 0"
  "gateQueue (smStore (foldl slot_step new_semaphore waiting_run) 0) = [1]"
  "smLog (foldl slot_step new_semaphore waiting_run) = [(0, Slot_granted), (2, Slot_granted)]"
proof -
  show "slots_ok (foldl slot_step new_semaphore waiting_run)"
    by (rule slot_run.run_always_good) (use new_semaphore_ok in \<open>auto simp: waiting_run_def\<close>)
qed (simp_all add: waiting_run_def acquire_slot_def getGate_def new_semaphore_def idle_gate_def
       isRateLimited_def grant_def Let_def)

text \<open>
  C7: whatever is acquired, released, timed out, marked rate-limited or cooled down, in any order
  and at any times (but without a reset, which drops the gates of running requests), every mapped
  gate counts exactly the slots handed out for its model and not released, and every call of
  \<open>acquire\<close> so far is in exactly one of two states: waiting in the queue of exactly one gate, once, a
  gate that is mapped, with its timer armed for that gate; or settled, once, and then it is in no
  queue and has no timer.
\<close>

theorem semaphore_accounts:
  assumes "\<forall>ev \<in> set evs. slot_event_ok ev"
  defines "s \<equiv> foldl slot_step new_semaphore evs"
  shows "(\<forall>m gid. js_get (smGates s) m = Some gid \<longrightarrow> gateRunning (smStore s gid) = held_of m s)
    \<and> (\<forall>m. js_get (smGates s) m = None \<longrightarrow> held_of m s = 0)
    \<and> (\<forall>i < smNextItem s.
         (\<exists>gid due m. js_get (smTimers s) i = Some (gid, due) \<and> js_get (smGates s) m = Some gid
            \<and> (\<forall>g. i \<in> set (gateQueue (smStore s g)) \<longleftrightarrow> g = gid))
           \<noteq> (i \<in> set (map fst (smLog s))))
    \<and> (\<forall>i \<in> set (map fst (smLog s)). js_get (smTimers s) i = None \<and> (\<forall>g. i \<notin> set (gateQueue (smStore s g))))
    \<and> (\<forall>g. distinct (gateQueue (smStore s g))) \<and> distinct (map fst (smLog s))"
proof -
  have ok: "slots_ok s"
    unfolding s_def by (rule slot_run.run_always_good) (use new_semaphore_ok assms(1) in auto)
  then have g: "\<forall>m gid. js_get (smGates s) m = Some gid \<longrightarrow> gateRunning (smStore s gid) = held_of m s"
    and h: "\<forall>m. js_get (smGates s) m = None \<longrightarrow> held_of m s = 0"
    by (simp_all add: slots_ok_def counts_ok_def)
  have c: "calls_settled_ok s" and io: "items_ok s" using ok by (simp_all add: slots_ok_def)
  have q: "i \<in> set (gateQueue (smStore s g)) \<longleftrightarrow> (\<exists>due. js_get (smTimers s) i = Some (g, due))" for i g
    using io unfolding items_ok_def by blast
  have timed: "i \<in> set (js_keys (smTimers s)) \<longleftrightarrow> (\<exists>gid due. js_get (smTimers s) i = Some (gid, due))" for i
    by (metis js_has_keys js_has_def not_None_eq surj_pair)
  have settled: "js_get (smTimers s) i = None" if i: "i \<in> set (map fst (smLog s))" for i
  proof -
    have "i \<notin> set (js_keys (smTimers s))" using c i unfolding calls_settled_ok_def by blast
    with timed [of i] show ?thesis by (metis not_None_eq surj_pair)
  qed
  have waiting: "(\<exists>gid due m. js_get (smTimers s) i = Some (gid, due) \<and> js_get (smGates s) m = Some gid
      \<and> (\<forall>g. i \<in> set (gateQueue (smStore s g)) \<longleftrightarrow> g = gid)) \<noteq> (i \<in> set (map fst (smLog s)))"
    if i: "i < smNextItem s" for i
  proof (cases "i \<in> set (map fst (smLog s))")
    case True
    with settled show ?thesis by simp
  next
    case False
    with c i timed [of i] obtain gid due where t: "js_get (smTimers s) i = Some (gid, due)"
      unfolding calls_settled_ok_def by blast
    then obtain m where "js_get (smGates s) m = Some gid" using io unfolding items_ok_def by blast
    with t q False show ?thesis by auto
  qed
  have "distinct (map fst (smLog s))" "\<forall>g. distinct (gateQueue (smStore s g))"
    using c io by (simp_all add: calls_settled_ok_def items_ok_def)
  with g h waiting settled q show ?thesis by auto
qed

theorem semaphore_accounts_witness:
  "gateRunning (smStore (foldl slot_step new_semaphore waiting_run) 0)
     = held_of ''m'' (foldl slot_step new_semaphore waiting_run)"
  using semaphore_accounts [of waiting_run] waiting_run_state(2)
  by (simp add: waiting_run_def)

text \<open>
  When no caller asks for more than \<open>M\<close> slots (and \<open>M\<close> covers the default that
  \<open>markRateLimited\<close> writes), no gate ever runs more than \<open>M\<close> requests, resets included.
\<close>

lemma semaphore_bounded:
  assumes "0 \<le> M" "\<forall>ev \<in> set evs. asks_at_most M ev"
  shows "gateRunning (smStore (foldl slot_step new_semaphore evs) gid) \<le> M"
proof -
  have "0 \<le> M \<and> within_max M (foldl slot_step new_semaphore evs)"
    by (rule slot_limit.run_always_good)
      (use assms in \<open>auto simp: within_max_def new_semaphore_def idle_gate_def\<close>)
  then show ?thesis by (simp add: within_max_def)
qed

text \<open>
  Draining a gate hands the slots to its waiters in the order they queued (a prefix of the
  queue, the rest untouched) and stops only when the queue is empty, the gate is full, or its
  cooldown is still running.
\<close>

lemma drain_fifo:
  assumes "slots_ok s" "js_get (smGates s) m = Some gid"
    and t: "t = drainQueue now m s"
  shows "\<exists>k. gateQueue (smStore t gid) = drop k (gateQueue (smStore s gid))
     \<and> smLog t = smLog s @ map (\<lambda>i. (i, Slot_granted)) (take k (gateQueue (smStore s gid)))
     \<and> (gateQueue (smStore t gid) = []
        \<or> gateRunning (smStore t gid) \<ge> gateMax (smStore t gid)
        \<or> fst (isRateLimited now (smStore t gid)))"
proof -
  define d where "d = drain_items now m gid (gateQueue (smStore s gid)) s"
  have t: "smStore t = smStore d" "smLog t = smLog d"
    using assms(2) t by (simp_all add: drainQueue_def d_def drop_if_idle_def)
  show ?thesis
    unfolding t using drain_items_effect [OF assms(1,2) refl, of now, folded d_def]
      drain_items_rest [of s gid _ now m, OF refl, folded d_def] by blast
qed

text \<open>
  A model's only running request that reports a rate limit and is then released takes the
  cooldown with it: the idle gate is dropped from the map, and the next \<open>acquire\<close> for the model
  is granted at once, however long the cooldown was meant to last.
\<close>

lemma release_forgets_cooldown:
  assumes ok: "slots_ok s" and held: "map_of (smHeld s) i = Some m"
    and alone: "held_of m s = 1" "js_get (smGates s) m = Some gid" "gateQueue (smStore s gid) = []"
    and ask: "maxConcurrency opts = Some mx" "0 < mx"
    and t: "t = release_slot now i (markRateLimited now m cooldown s)"
  shows "js_get (smGates t) m = None
    \<and> smLog (snd (acquire_slot later m opts t)) = smLog t @ [(fst (acquire_slot later m opts t), Slot_granted)]"
proof -
  have run: "gateRunning (smStore s gid) = 1"
    using ok alone by (simp add: slots_ok_def counts_ok_def)
  have none: "js_get (smGates t) m = None"
    unfolding t using held alone(2,3) run
    by (simp add: markRateLimited_def getGate_def Let_def release_slot_def)
  then have "smLog (snd (acquire_slot later m opts t))
      = smLog t @ [(fst (acquire_slot later m opts t), Slot_granted)]"
    using ask by (simp add: acquire_slot_def getGate_def Let_def idle_gate_def isRateLimited_def)
  with none show ?thesis ..
qed

text \<open>
  \<open>markRateLimited\<close> sets the model's concurrency limit to the default of 3 whatever limit
  the callers configured, in addition to starting the cooldown.
\<close>

lemma mark_overwrites_limit:
  assumes "js_get (smGates s) m = Some gid"
  shows "gateMax (smStore (markRateLimited now m cooldown s) gid) = 3
    \<and> rateLimitedUntil (smStore (markRateLimited now m cooldown s) gid) = Some (now + cooldown)"
  using assms by (simp add: markRateLimited_def getGate_def Let_def DEFAULT_MAX_CONCURRENCY_def)

end
