(* ===== verification/Account_Semaphore.thy ===== *)
theory Account_Semaphore
  imports Prelude "HOL-Library.List_Lexorder" "HOL-Library.Char_ord"
begin

text \<open>
  The hierarchical account gates of \<open>open-sse/services/accountSemaphore.ts\<close>: one request is
  admitted only when every gate it names (global, provider, account) has room, and a waiting
  request holds nothing. Gates are map values: the only closure that captures a gate object is
  its cleanup timer, which is named here by a number. Every call of \<open>acquireMany\<close> takes the next
  number; it names the request, its timer, its abort listener and its release function. Promise
  settlements go to the log \<open>acLog\<close>, and \<open>acHeld\<close> lists the composite release functions not
  yet called.
\<close>


section \<open>State\<close>

record AccountGate =
  agRunning :: int
  agMax :: int
  agQueue :: "nat list"
  agBlockedUntil :: "int option"
  agCleanup :: "nat option"

record AcquireRequest =
  rqKeys :: "string list"
  rqTimer :: "int option"
  rqListener :: bool
  rqSettled :: bool

datatype admission = Ac_granted | Ac_bypassed | Ac_aborted | Ac_queue_full | Ac_timeout | Ac_reset

record account_sem =
  acGates :: "(string, AccountGate) js_map"
  acQueued :: "nat list"
  acRequests :: "nat \<Rightarrow> AcquireRequest"
  acNext :: nat
  acCleanups :: "(nat, string) js_map"
  acNextTimer :: nat
  acHeld :: "(nat \<times> string list) list"
  acLog :: "(nat \<times> admission) list"

definition new_account_sem :: account_sem where
  "new_account_sem =
     \<lparr>acGates = [], acQueued = [],
      acRequests = (\<lambda>_. \<lparr>rqKeys = [], rqTimer = None, rqListener = False, rqSettled = True\<rparr>),
      acNext = 0, acCleanups = [], acNextTimer = 0, acHeld = [], acLog = []\<rparr>"

definition buildAccountSemaphoreKey :: "string \<Rightarrow> string \<Rightarrow> string" where
  "buildAccountSemaphoreKey provider accountKey = provider @ '':'' @ accountKey"

definition isBypassed :: "js_number option \<Rightarrow> bool" where
  "isBypassed mx = (case mx of Some (Finite r) \<Rightarrow> r \<le> 0 | _ \<Rightarrow> True)"


section \<open>Gates\<close>

definition set_gate :: "string \<Rightarrow> AccountGate \<Rightarrow> account_sem \<Rightarrow> account_sem" where
  "set_gate k g s = s\<lparr>acGates := js_set k g (acGates s)\<rparr>"

definition upd_account :: "string \<Rightarrow> (AccountGate \<Rightarrow> AccountGate) \<Rightarrow> account_sem \<Rightarrow> account_sem" where
  "upd_account k f s = (case js_get (acGates s) k of None \<Rightarrow> s | Some g \<Rightarrow> set_gate k (f g) s)"

definition ensureGate :: "string \<Rightarrow> int \<Rightarrow> account_sem \<Rightarrow> account_sem" where
  "ensureGate k mx s =
     (case js_get (acGates s) k of
        Some g \<Rightarrow> set_gate k (g\<lparr>agMax := mx\<rparr>) s
      | None \<Rightarrow> set_gate k \<lparr>agRunning = 0, agMax = mx, agQueue = [], agBlockedUntil = None,
                            agCleanup = None\<rparr> s)"

text \<open>\<open>isBlocked\<close> on the gate at a key; a block that has run out is cleared on the way.\<close>

definition isBlocked :: "int \<Rightarrow> string \<Rightarrow> account_sem \<Rightarrow> bool \<times> account_sem" where
  "isBlocked now k s =
     (case js_get (acGates s) k of
        None \<Rightarrow> (False, s)
      | Some g \<Rightarrow>
          (case agBlockedUntil g of
             None \<Rightarrow> (False, s)
           | Some t \<Rightarrow> if t = 0 then (False, s)
                       else if now \<ge> t then (False, set_gate k (g\<lparr>agBlockedUntil := None\<rparr>) s)
                       else (True, s)))"

definition clearCleanupTimer :: "string \<Rightarrow> account_sem \<Rightarrow> account_sem" where
  "clearCleanupTimer k s =
     (case js_get (acGates s) k of
        None \<Rightarrow> s
      | Some g \<Rightarrow>
          (case agCleanup g of
             None \<Rightarrow> s
           | Some t \<Rightarrow> (set_gate k (g\<lparr>agCleanup := None\<rparr>) s)
                         \<lparr>acCleanups := js_delete t (acCleanups s)\<rparr>))"

definition cleanupGateIfIdle :: "int \<Rightarrow> string \<Rightarrow> account_sem \<Rightarrow> account_sem" where
  "cleanupGateIfIdle now k s =
     (case js_get (acGates s) k of
        None \<Rightarrow> s
      | Some g \<Rightarrow>
          if agRunning g > 0 \<or> agQueue g \<noteq> [] then s
          else
            (case isBlocked now k s of
               (True, s) \<Rightarrow> s
             | (False, s) \<Rightarrow>
                 let s = clearCleanupTimer k s in s\<lparr>acGates := js_delete k (acGates s)\<rparr>))"

definition scheduleCleanup :: "string \<Rightarrow> account_sem \<Rightarrow> account_sem" where
  "scheduleCleanup k s =
     (case js_get (acGates s) k of
        None \<Rightarrow> s
      | Some _ \<Rightarrow>
          let s = clearCleanupTimer k s
          in (upd_account k (\<lambda>g. g\<lparr>agCleanup := Some (acNextTimer s)\<rparr>) s)
               \<lparr>acCleanups := js_set (acNextTimer s) k (acCleanups s),
                acNextTimer := acNextTimer s + 1\<rparr>)"

text \<open>The cleanup timer \<open>t\<close> fires: its gate forgets it, and the gate now at the key goes if idle.\<close>

definition cleanup_fires :: "int \<Rightarrow> nat \<Rightarrow> account_sem \<Rightarrow> account_sem" where
  "cleanup_fires now t s =
     (case js_get (acCleanups s) t of
        None \<Rightarrow> s
      | Some k \<Rightarrow>
          cleanupGateIfIdle now k
            ((upd_account k (\<lambda>g. if agCleanup g = Some t then g\<lparr>agCleanup := None\<rparr> else g) s)
               \<lparr>acCleanups := js_delete t (acCleanups s)\<rparr>))"

definition schedule_if_idle :: "string \<Rightarrow> account_sem \<Rightarrow> account_sem" where
  "schedule_if_idle k s =
     (case js_get (acGates s) k of
        None \<Rightarrow> s
      | Some g \<Rightarrow> if agRunning g = 0 \<and> agQueue g = [] then scheduleCleanup k s else s)"


section \<open>Requests\<close>

definition upd_request :: "nat \<Rightarrow> (AcquireRequest \<Rightarrow> AcquireRequest) \<Rightarrow> account_sem \<Rightarrow> account_sem" where
  "upd_request r f s = s\<lparr>acRequests := (acRequests s)(r := f (acRequests s r))\<rparr>"

abbreviation request_keys :: "account_sem \<Rightarrow> nat \<Rightarrow> string list" where
  "request_keys s r \<equiv> rqKeys (acRequests s r)"

definition log_account :: "nat \<Rightarrow> admission \<Rightarrow> account_sem \<Rightarrow> account_sem" where
  "log_account r a s = s\<lparr>acLog := acLog s @ [(r, a)]\<rparr>"

definition unqueue :: "nat \<Rightarrow> string list \<Rightarrow> account_sem \<Rightarrow> account_sem" where
  "unqueue r ks s =
     foldl (\<lambda>s k. schedule_if_idle k (upd_account k (\<lambda>g. g\<lparr>agQueue := remove1 r (agQueue g)\<rparr>) s)) s ks"

definition removeRequest :: "nat \<Rightarrow> account_sem \<Rightarrow> account_sem" where
  "removeRequest r s =
     unqueue r (request_keys s r)
       ((upd_request r (\<lambda>q. q\<lparr>rqTimer := None, rqListener := False\<rparr>) s)
          \<lparr>acQueued := remove1 r (acQueued s)\<rparr>)"

definition settle_request :: "nat \<Rightarrow> account_sem \<Rightarrow> account_sem" where
  "settle_request r s = removeRequest r (upd_request r (\<lambda>q. q\<lparr>rqSettled := True\<rparr>) s)"

text \<open>The conditions \<open>canAcquire\<close> asks of every gate of the request, in its order.\<close>

fun can_pass :: "int \<Rightarrow> nat \<Rightarrow> string list \<Rightarrow> account_sem \<Rightarrow> bool \<times> account_sem" where
  "can_pass now r [] s = (True, s)"
| "can_pass now r (k # ks) s =
     (case js_get (acGates s) k of
        None \<Rightarrow> (False, s)
      | Some g \<Rightarrow>
          (case isBlocked now k s of
             (True, s) \<Rightarrow> (False, s)
           | (False, s) \<Rightarrow>
               if agRunning g < agMax g \<and> agQueue g \<noteq> [] \<and> hd (agQueue g) = r
               then can_pass now r ks s else (False, s)))"

definition canAcquire :: "int \<Rightarrow> nat \<Rightarrow> account_sem \<Rightarrow> bool \<times> account_sem" where
  "canAcquire now r s = can_pass now r (request_keys s r) s"

text \<open>The first request of \<open>queuedRequests\<close> that can be admitted now.\<close>

fun first_ready :: "int \<Rightarrow> nat list \<Rightarrow> account_sem \<Rightarrow> nat option \<times> account_sem" where
  "first_ready now [] s = (None, s)"
| "first_ready now (r # rs) s =
     (if rqSettled (acRequests s r) then first_ready now rs s
      else (case canAcquire now r s of
              (True, s) \<Rightarrow> (Some r, s)
            | (False, s) \<Rightarrow> first_ready now rs s))"

definition count_running :: "string list \<Rightarrow> account_sem \<Rightarrow> account_sem" where
  "count_running ks s = foldl (\<lambda>s k. upd_account k (\<lambda>g. g\<lparr>agRunning := agRunning g + 1\<rparr>) s) s ks"

definition hand_out :: "nat \<Rightarrow> string list \<Rightarrow> account_sem \<Rightarrow> account_sem" where
  "hand_out r ks s = log_account r Ac_granted ((count_running ks s)\<lparr>acHeld := (r, ks) # acHeld s\<rparr>)"

definition admit_request :: "nat \<Rightarrow> account_sem \<Rightarrow> account_sem" where
  "admit_request r s = (let s = settle_request r s in hand_out r (request_keys s r) s)"

subsection \<open>What the gate operations leave alone\<close>

lemma upd_account_frame [simp]:
  "acQueued (upd_account k f s) = acQueued s" "acRequests (upd_account k f s) = acRequests s"
  "acNext (upd_account k f s) = acNext s" "acHeld (upd_account k f s) = acHeld s"
  "acLog (upd_account k f s) = acLog s"
  by (simp_all add: upd_account_def set_gate_def split: option.splits)

lemma upd_account_get [simp]:
  "js_get (acGates (upd_account k f s)) k'
     = (if k' = k then map_option f (js_get (acGates s) k) else js_get (acGates s) k')"
  by (simp add: upd_account_def set_gate_def split: option.splits)

lemma upd_account_map_ok [simp]: "js_map_ok (acGates s) \<Longrightarrow> js_map_ok (acGates (upd_account k f s))"
  by (simp add: upd_account_def set_gate_def split: option.splits)

lemma upd_request_frame [simp]:
  "acRequests (upd_request r f s) = (acRequests s)(r := f (acRequests s r))"
  "acGates (upd_request r f s) = acGates s" "acQueued (upd_request r f s) = acQueued s"
  "acNext (upd_request r f s) = acNext s" "acHeld (upd_request r f s) = acHeld s"
  "acLog (upd_request r f s) = acLog s"
  by (simp_all add: upd_request_def)

lemma schedule_if_idle_frame [simp]:
  "acQueued (schedule_if_idle k s) = acQueued s" "acRequests (schedule_if_idle k s) = acRequests s"
  "acNext (schedule_if_idle k s) = acNext s" "acHeld (schedule_if_idle k s) = acHeld s"
  "acLog (schedule_if_idle k s) = acLog s"
  by (simp_all add: schedule_if_idle_def scheduleCleanup_def clearCleanupTimer_def set_gate_def Let_def
      split: option.splits)

lemma unqueue_frame [simp]:
  "acQueued (unqueue r ks s) = acQueued s" "acRequests (unqueue r ks s) = acRequests s"
  "acNext (unqueue r ks s) = acNext s" "acHeld (unqueue r ks s) = acHeld s"
  "acLog (unqueue r ks s) = acLog s"
  by (induction ks arbitrary: s) (simp_all add: unqueue_def)

lemma count_running_frame [simp]:
  "acQueued (count_running ks s) = acQueued s" "acRequests (count_running ks s) = acRequests s"
  "acNext (count_running ks s) = acNext s" "acHeld (count_running ks s) = acHeld s"
  "acLog (count_running ks s) = acLog s"
  by (induction ks arbitrary: s) (simp_all add: count_running_def)

lemma isBlocked_frame:
  assumes "isBlocked now k s = (b, t)"
  shows "acQueued t = acQueued s" "acRequests t = acRequests s" "acNext t = acNext s"
    "acHeld t = acHeld s" "acLog t = acLog s"
  using assms by (auto simp: isBlocked_def set_gate_def split: option.splits if_splits)

lemma can_pass_frame:
  "can_pass now r ks s = (b, t) \<Longrightarrow>
     acQueued t = acQueued s \<and> acRequests t = acRequests s \<and> acNext t = acNext s
   \<and> acHeld t = acHeld s \<and> acLog t = acLog s"
proof (induction ks arbitrary: s)
  case (Cons k ks)
  obtain c u where u: "isBlocked now k s = (c, u)" by fastforce
  show ?case
    using Cons u isBlocked_frame [OF u] by (auto split: option.splits if_splits bool.splits)
qed simp

lemma first_ready_frame:
  "first_ready now rs s = (p, t) \<Longrightarrow>
     acQueued t = acQueued s \<and> acRequests t = acRequests s \<and> acNext t = acNext s
   \<and> acHeld t = acHeld s \<and> acLog t = acLog s"
proof (induction rs arbitrary: s)
  case (Cons r rs)
  obtain c u where u: "canAcquire now r s = (c, u)" by fastforce
  show ?case
    using Cons u can_pass_frame [OF u [unfolded canAcquire_def]]
    by (auto split: if_splits bool.splits)
qed simp

lemma first_ready_in: "first_ready now rs s = (Some r, t) \<Longrightarrow> r \<in> set rs"
  by (induction rs arbitrary: s) (auto split: if_splits bool.splits prod.splits)

lemma settle_request_frame [simp]:
  "acQueued (settle_request r s) = remove1 r (acQueued s)" "acNext (settle_request r s) = acNext s"
  "acHeld (settle_request r s) = acHeld s" "acLog (settle_request r s) = acLog s"
  "acRequests (settle_request r s) = (acRequests s)(r := (acRequests s r)
     \<lparr>rqSettled := True, rqTimer := None, rqListener := False\<rparr>)"
  by (simp_all add: settle_request_def removeRequest_def upd_request_def)

lemma admit_request_frame [simp]:
  "acQueued (admit_request r s) = remove1 r (acQueued s)" "acNext (admit_request r s) = acNext s"
  "acHeld (admit_request r s) = (r, request_keys s r) # acHeld s"
  "acLog (admit_request r s) = acLog s @ [(r, Ac_granted)]"
  "acRequests (admit_request r s) = (acRequests s)(r := (acRequests s r)
     \<lparr>rqSettled := True, rqTimer := None, rqListener := False\<rparr>)"
  by (simp_all add: admit_request_def hand_out_def log_account_def Let_def)


section \<open>The drain and the operations\<close>

text \<open>\<open>drainQueues\<close>: admit the first request that can pass, and look again from the start.\<close>

function drainQueues :: "int \<Rightarrow> account_sem \<Rightarrow> account_sem" where
  "drainQueues now s =
     (case first_ready now (acQueued s) s of
        (None, s) \<Rightarrow> s
      | (Some r, s) \<Rightarrow> drainQueues now (admit_request r s))"
  by pat_completeness auto

termination
proof (relation "measure (\<lambda>(_, s). length (acQueued s))")
  fix now :: int and s t x2 r
  assume f: "(x2, t) = first_ready now (acQueued s) s" and x2: "x2 = Some r"
  then have "acQueued t = acQueued s" "r \<in> set (acQueued s)"
    using first_ready_frame [of now "acQueued s" s x2 t] first_ready_in [of now "acQueued s" s r t]
    by auto
  then show "((now, admit_request r t), now, s) \<in> measure (\<lambda>(_, s). length (acQueued s))"
    using length_pos_if_in_set [of r "acQueued s"] by (simp add: length_remove1)
qed simp

declare drainQueues.simps [simp del]

text \<open>The release function of call \<open>i\<close>; a second call does nothing.\<close>

definition count_released :: "string list \<Rightarrow> account_sem \<Rightarrow> account_sem" where
  "count_released ks s =
     foldl (\<lambda>s k. upd_account k
        (\<lambda>g. if agRunning g > 0 then g\<lparr>agRunning := agRunning g - 1\<rparr> else g) s) s ks"

definition schedule_idle_gates :: "string list \<Rightarrow> account_sem \<Rightarrow> account_sem" where
  "schedule_idle_gates ks s = foldl (\<lambda>s k. schedule_if_idle k s) s ks"

definition release_account :: "int \<Rightarrow> nat \<Rightarrow> account_sem \<Rightarrow> account_sem" where
  "release_account now i s =
     (case map_of (acHeld s) i of
        None \<Rightarrow> s
      | Some ks \<Rightarrow>
          schedule_idle_gates ks
            (drainQueues now
              (count_released ks (s\<lparr>acHeld := filter (\<lambda>(j, _). j \<noteq> i) (acHeld s)\<rparr>))))"

text \<open>The limits of the enabled requirements, the smallest one per key.\<close>

fun enabled_limits :: "(string \<times> js_number option) list \<Rightarrow> (string, int) js_map \<Rightarrow> (string, int) js_map" where
  "enabled_limits [] m = m"
| "enabled_limits ((k, mx) # rs) m =
     (case mx of
        Some (Finite r) \<Rightarrow>
          if isBypassed mx then enabled_limits rs m
          else enabled_limits rs
                 (js_set k (min (case js_get m k of Some l \<Rightarrow> l | None \<Rightarrow> \<lfloor>r\<rfloor>) \<lfloor>r\<rfloor>) m)
      | _ \<Rightarrow> enabled_limits rs m)"

definition limit_of :: "(string, int) js_map \<Rightarrow> string \<Rightarrow> int" where
  "limit_of m k = (case js_get m k of Some l \<Rightarrow> l | None \<Rightarrow> 0)"

text \<open>Create or update the gates in key order; a full queue stops the loop with an error.\<close>

fun prepare_gates :: "int \<Rightarrow> (string, int) js_map \<Rightarrow> string list \<Rightarrow> account_sem \<Rightarrow> bool \<times> account_sem" where
  "prepare_gates mq limits [] s = (False, s)"
| "prepare_gates mq limits (k # ks) s =
     (let s = clearCleanupTimer k (ensureGate k (limit_of limits k) s) in
      if mq > 0 \<and> (case js_get (acGates s) k of Some g \<Rightarrow> int (length (agQueue g)) \<ge> mq | None \<Rightarrow> False)
      then (True, s) else prepare_gates mq limits ks s)"

fun room_now :: "int \<Rightarrow> string list \<Rightarrow> account_sem \<Rightarrow> bool \<times> account_sem" where
  "room_now now [] s = (True, s)"
| "room_now now (k # ks) s =
     (case js_get (acGates s) k of
        None \<Rightarrow> (False, s)
      | Some g \<Rightarrow>
          if agQueue g = [] \<and> agRunning g < agMax g then
            (case isBlocked now k s of
               (True, s) \<Rightarrow> (False, s)
             | (False, s) \<Rightarrow> room_now now ks s)
          else (False, s))"

record account_options =
  aoTimeout :: "int option"
  aoSignal :: "bool option"
  aoMaxQueue :: "int option"

definition push_request :: "nat \<Rightarrow> string list \<Rightarrow> account_sem \<Rightarrow> account_sem" where
  "push_request r ks s = foldl (\<lambda>s k. upd_account k (\<lambda>g. g\<lparr>agQueue := agQueue g @ [r]\<rparr>) s) s ks"

definition queue_request :: "int \<Rightarrow> nat \<Rightarrow> string list \<Rightarrow> account_options \<Rightarrow> account_sem \<Rightarrow> account_sem" where
  "queue_request now i ks opts s =
     drainQueues now
       (push_request i ks
         ((upd_request i
             (\<lambda>_. \<lparr>rqKeys = ks,
                   rqTimer = Some (now + (case aoTimeout opts of Some t \<Rightarrow> t | None \<Rightarrow> 30000)),
                   rqListener = (aoSignal opts \<noteq> None), rqSettled = False\<rparr>) s)
            \<lparr>acQueued := acQueued s @ [i]\<rparr>))"

definition acquireMany :: "int \<Rightarrow> (string \<times> js_number option) list \<Rightarrow> account_options \<Rightarrow> account_sem \<Rightarrow> account_sem" where
  "acquireMany now reqs opts s =
     (let i = acNext s;
          s = s\<lparr>acNext := i + 1\<rparr>;
          limits = enabled_limits reqs []
      in if limits = [] then log_account i Ac_bypassed s
         else if aoSignal opts = Some True then log_account i Ac_aborted s
         else
           let ks = sort (js_keys limits) in
           case prepare_gates (case aoMaxQueue opts of Some n \<Rightarrow> n | None \<Rightarrow> 20) limits ks s of
             (True, s) \<Rightarrow> log_account i Ac_queue_full s
           | (False, s) \<Rightarrow>
               (case room_now now ks s of
                  (True, s) \<Rightarrow> hand_out i ks s
                | (False, s) \<Rightarrow> queue_request now i ks opts s))"

definition acquire_account :: "int \<Rightarrow> string \<Rightarrow> js_number option \<Rightarrow> account_options \<Rightarrow> account_sem \<Rightarrow> account_sem" where
  "acquire_account now k mx opts s = acquireMany now [(k, mx)] opts s"

text \<open>The timeout callback and the abort listener of request \<open>i\<close>.\<close>

definition timeout_fires :: "int \<Rightarrow> nat \<Rightarrow> account_sem \<Rightarrow> account_sem" where
  "timeout_fires now i s =
     (case rqTimer (acRequests s i) of
        None \<Rightarrow> s
      | Some due \<Rightarrow>
          if now < due then s
          else let s = upd_request i (\<lambda>q. q\<lparr>rqTimer := None\<rparr>) s in
               if rqSettled (acRequests s i) then s
               else drainQueues now (log_account i Ac_timeout (settle_request i s)))"

definition abort_fires :: "int \<Rightarrow> nat \<Rightarrow> account_sem \<Rightarrow> account_sem" where
  "abort_fires now i s =
     (if \<not> rqListener (acRequests s i) then s
      else let s = upd_request i (\<lambda>q. q\<lparr>rqListener := False\<rparr>) s in
           if rqSettled (acRequests s i) then s
           else drainQueues now (log_account i Ac_aborted (settle_request i s)))"

text \<open>
  An instant as \<open>markBlocked\<close> takes it: a \<open>Date\<close> or a parsed date string (\<open>None\<close> for an
  invalid date), or a delay in milliseconds (\<open>None\<close> when it is not finite).
\<close>

datatype block_until = At_instant "int option" | For_delay "int option"

definition markBlocked :: "int \<Rightarrow> string \<Rightarrow> block_until \<Rightarrow> account_sem \<Rightarrow> account_sem" where
  "markBlocked now k u s =
     (case (case u of At_instant t \<Rightarrow> t | For_delay d \<Rightarrow> map_option (\<lambda>d. now + max 0 d) d) of
        None \<Rightarrow> s
      | Some t \<Rightarrow>
          if t \<le> now then s
          else upd_account k (\<lambda>g. g\<lparr>agBlockedUntil := Some t\<rparr>)
                 (clearCleanupTimer k
                   (ensureGate k (case js_get (acGates s) k of Some g \<Rightarrow> agMax g | None \<Rightarrow> 1) s)))"

definition unblock :: "int \<Rightarrow> string \<Rightarrow> account_sem \<Rightarrow> account_sem" where
  "unblock now k s =
     (case js_get (acGates s) k of
        None \<Rightarrow> s
      | Some _ \<Rightarrow>
          cleanupGateIfIdle now k
            (drainQueues now (upd_account k (\<lambda>g. g\<lparr>agBlockedUntil := None\<rparr>) s)))"

definition account_stats :: "account_sem \<Rightarrow> (string \<times> int \<times> nat \<times> int \<times> int option) list" where
  "account_stats s =
     map (\<lambda>(k, g). (k, agRunning g, length (agQueue g), agMax g,
            (case agBlockedUntil g of Some t \<Rightarrow> if t = 0 then None else Some t | None \<Rightarrow> None)))
       (acGates s)"

definition isAccountSemaphoreFull :: "int \<Rightarrow> string \<Rightarrow> string \<Rightarrow> js_number option \<Rightarrow> account_sem \<Rightarrow> bool \<times> account_sem" where
  "isAccountSemaphoreFull now provider accountKey mx s =
     (let k = buildAccountSemaphoreKey provider accountKey in
      case mx of
        Some (Finite cap) \<Rightarrow>
          if isBypassed mx then (False, s)
          else (case js_get (acGates s) k of
                  None \<Rightarrow> (False, s)
                | Some g \<Rightarrow>
                    if of_int (agRunning g) \<ge> cap then (True, s) else isBlocked now k s)
      | _ \<Rightarrow> (False, s))"

text \<open>\<open>reset\<close> and \<open>resetAll\<close> settle the requests first and reject them afterwards.\<close>

fun settle_all :: "nat list \<Rightarrow> account_sem \<Rightarrow> nat list \<times> account_sem" where
  "settle_all [] s = ([], s)"
| "settle_all (r # rs) s =
     (if rqSettled (acRequests s r) then settle_all rs s
      else let (rejected, s) = settle_all rs (settle_request r s) in (r # rejected, s))"

definition reject_all :: "nat list \<Rightarrow> account_sem \<Rightarrow> account_sem" where
  "reject_all rs s = foldl (\<lambda>s r. log_account r Ac_reset s) s rs"

definition reset_account :: "int \<Rightarrow> string \<Rightarrow> account_sem \<Rightarrow> account_sem" where
  "reset_account now k s =
     (case js_get (acGates s) k of
        None \<Rightarrow> s
      | Some g \<Rightarrow>
          let (rejected, s) = settle_all (agQueue g) (clearCleanupTimer k s)
          in drainQueues now (reject_all rejected (s\<lparr>acGates := js_delete k (acGates s)\<rparr>)))"

definition reset_all_accounts :: "account_sem \<Rightarrow> account_sem" where
  "reset_all_accounts s =
     (let (rejected, s) = settle_all (acQueued s) s;
          s = foldl (\<lambda>s k. clearCleanupTimer k s) s (js_keys (acGates s))
      in reject_all rejected (s\<lparr>acGates := [], acQueued := []\<rparr>))"

section \<open>Invariant\<close>

text \<open>
  What admission looks at: running count, limit and queue of the gate at a key. Blocks and
  cleanup timers come and go without touching it.
\<close>

definition view :: "account_sem \<Rightarrow> string \<Rightarrow> (int \<times> int \<times> nat list) option" where
  "view s k = map_option (\<lambda>g. (agRunning g, agMax g, agQueue g)) (js_get (acGates s) k)"

definition running_at :: "account_sem \<Rightarrow> string \<Rightarrow> int" where
  "running_at s k = (case view s k of None \<Rightarrow> 0 | Some (n, _, _) \<Rightarrow> n)"

definition held_count :: "account_sem \<Rightarrow> string \<Rightarrow> int" where
  "held_count s k = int (length (filter (\<lambda>(_, ks). k \<in> set ks) (acHeld s)))"

definition calm :: "account_sem \<Rightarrow> account_sem \<Rightarrow> bool" where
  "calm s t \<longleftrightarrow>
     view t = view s \<and> (js_map_ok (acGates s) \<longrightarrow> js_map_ok (acGates t))
   \<and> acQueued t = acQueued s \<and> acRequests t = acRequests s \<and> acNext t = acNext s
   \<and> acHeld t = acHeld s \<and> acLog t = acLog s"

lemma calm_refl [simp]: "calm s s"
  by (simp add: calm_def)

lemma calm_trans: "calm s t \<Longrightarrow> calm t u \<Longrightarrow> calm s u"
  by (auto simp: calm_def)

lemma calm_upd_account:
  "(\<And>g. agRunning (f g) = agRunning g \<and> agMax (f g) = agMax g \<and> agQueue (f g) = agQueue g) \<Longrightarrow>
     calm s (upd_account k f s)"
  by (auto simp: calm_def view_def fun_eq_iff option.map_comp o_def intro!: option.map_cong)

lemma calm_isBlocked: "isBlocked now k s = (b, t) \<Longrightarrow> calm s t"
  by (auto simp: isBlocked_def calm_def view_def set_gate_def fun_eq_iff
      split: option.splits if_splits)

lemma calm_clearCleanupTimer: "calm s (clearCleanupTimer k s)"
  by (auto simp: clearCleanupTimer_def calm_def view_def set_gate_def fun_eq_iff split: option.splits)

lemma calm_scheduleCleanup: "calm s (scheduleCleanup k s)"
proof (cases "js_get (acGates s) k")
  case (Some g)
  let ?c = "clearCleanupTimer k s"
  have "calm ?c (upd_account k (\<lambda>g. g\<lparr>agCleanup := Some (acNextTimer ?c)\<rparr>) ?c)"
    by (rule calm_upd_account) simp
  then have "calm ?c (scheduleCleanup k s)"
    using Some by (auto simp: scheduleCleanup_def calm_def view_def Let_def fun_eq_iff)
  with calm_clearCleanupTimer show ?thesis by (rule calm_trans)
qed (simp add: scheduleCleanup_def)

lemma calm_schedule_if_idle: "calm s (schedule_if_idle k s)"
  using calm_scheduleCleanup by (auto simp: schedule_if_idle_def split: option.splits)

lemma calm_schedule_idle_gates: "calm s (schedule_idle_gates ks s)"
proof (induction ks arbitrary: s)
  case (Cons k ks)
  then have "calm (schedule_if_idle k s) (schedule_idle_gates (k # ks) s)"
    by (simp add: schedule_idle_gates_def)
  with calm_schedule_if_idle show ?case by (rule calm_trans)
qed (simp add: schedule_idle_gates_def)

lemma view_upd_account:
  assumes "\<And>g. (agRunning (f g), agMax (f g), agQueue (f g)) = h (agRunning g, agMax g, agQueue g)"
  shows "view (upd_account k f s) k' = (if k' = k then map_option h (view s k') else view s k')"
  using assms by (simp add: view_def option.map_comp o_def)

text \<open>Sequences of updates, one key after the other.\<close>

lemma view_fold:
  assumes "\<And>s k'. view (F s k') k = (if k = k' then map_option h (view s k) else view s k)"
  shows "distinct ks \<Longrightarrow>
    view (foldl F s ks) k = (if k \<in> set ks then map_option h (view s k) else view s k)"
  by (induction ks arbitrary: s) (auto simp: assms)

lemma view_unqueue:
  "distinct ks \<Longrightarrow> view (unqueue r ks s) k
     = (if k \<in> set ks then map_option (\<lambda>(n, m, q). (n, m, remove1 r q)) (view s k) else view s k)"
  unfolding unqueue_def
proof (rule view_fold)
  fix s k'
  let ?u = "upd_account k' (\<lambda>g. g\<lparr>agQueue := remove1 r (agQueue g)\<rparr>) s"
  have "view (schedule_if_idle k' ?u) = view ?u"
    using calm_schedule_if_idle [of ?u k'] by (simp add: calm_def)
  moreover have "view ?u k = (if k = k' then map_option (\<lambda>(n, m, q). (n, m, remove1 r q)) (view s k)
      else view s k)" by (rule view_upd_account) simp
  ultimately show "view (schedule_if_idle k' ?u) k
    = (if k = k' then map_option (\<lambda>(n, m, q). (n, m, remove1 r q)) (view s k) else view s k)"
    by simp
qed

lemma view_count_running:
  "distinct ks \<Longrightarrow> view (count_running ks s) k
     = (if k \<in> set ks then map_option (\<lambda>(n, m, q). (n + 1, m, q)) (view s k) else view s k)"
  unfolding count_running_def by (rule view_fold [OF view_upd_account]) simp_all

lemma view_count_released:
  "distinct ks \<Longrightarrow> view (count_released ks s) k
     = (if k \<in> set ks then map_option (\<lambda>(n, m, q). (if n > 0 then n - 1 else n, m, q)) (view s k)
        else view s k)"
  unfolding count_released_def by (rule view_fold [OF view_upd_account]) simp_all

lemma view_push_request:
  "distinct ks \<Longrightarrow> view (push_request r ks s) k
     = (if k \<in> set ks then map_option (\<lambda>(n, m, q). (n, m, q @ [r])) (view s k) else view s k)"
  unfolding push_request_def by (rule view_fold [OF view_upd_account]) simp_all

lemma account_folds_frame [simp]:
  "acQueued (push_request r ks s) = acQueued s" "acRequests (push_request r ks s) = acRequests s"
  "acNext (push_request r ks s) = acNext s" "acHeld (push_request r ks s) = acHeld s"
  "acLog (push_request r ks s) = acLog s"
  "acQueued (count_released ks s) = acQueued s" "acRequests (count_released ks s) = acRequests s"
  "acNext (count_released ks s) = acNext s" "acHeld (count_released ks s) = acHeld s"
  "acLog (count_released ks s) = acLog s"
  by (induction ks arbitrary: s) (simp_all add: push_request_def count_released_def)

lemma account_folds_map_ok [simp]:
  assumes "js_map_ok (acGates s)"
  shows "js_map_ok (acGates (push_request r ks s))" "js_map_ok (acGates (count_released ks s))"
    "js_map_ok (acGates (count_running ks s))" "js_map_ok (acGates (unqueue r ks s))"
proof -
  have "js_map_ok (acGates (schedule_if_idle k s))" if "js_map_ok (acGates s)" for k s
    using that calm_schedule_if_idle [of s k] by (simp add: calm_def)
  then show "js_map_ok (acGates (unqueue r ks s))"
    using assms by (induction ks arbitrary: s) (simp_all add: unqueue_def)
qed (use assms in \<open>induction ks arbitrary: s;
      simp add: push_request_def count_released_def count_running_def\<close>)+

text \<open>
  The invariant. A gate's queue is the sublist of the pending requests that name it, in arrival
  order; every gate a pending request names is there; a gate runs no more requests than hold a
  release function naming it, and exactly that many (\<open>exact\<close>) as long as no reset has
  dropped gates with running requests. Every call so far is pending, settled, or in \<open>P\<close>, the
  calls an operation has taken out of the queues and not yet settled.
\<close>

definition queues_wf :: "account_sem \<Rightarrow> bool" where
  "queues_wf s \<longleftrightarrow>
     js_map_ok (acGates s) \<and> distinct (acQueued s)
   \<and> (\<forall>r. \<not> rqSettled (acRequests s r) \<longrightarrow> r \<in> set (acQueued s))
   \<and> (\<forall>r \<in> set (acQueued s). \<not> rqSettled (acRequests s r) \<and> request_keys s r \<noteq> []
        \<and> distinct (request_keys s r) \<and> (\<forall>k \<in> set (request_keys s r). view s k \<noteq> None))
   \<and> (\<forall>k n m q. view s k = Some (n, m, q) \<longrightarrow>
        q = filter (\<lambda>r. k \<in> set (request_keys s r)) (acQueued s))"

definition counts_wf :: "bool \<Rightarrow> account_sem \<Rightarrow> bool" where
  "counts_wf exact s \<longleftrightarrow>
     (\<forall>k. 0 \<le> running_at s k \<and> running_at s k \<le> held_count s k
        \<and> (exact \<longrightarrow> running_at s k = held_count s k))
   \<and> distinct (map fst (acHeld s)) \<and> (\<forall>h \<in> set (acHeld s). distinct (snd h))"

definition calls_wf :: "nat set \<Rightarrow> account_sem \<Rightarrow> bool" where
  "calls_wf P s \<longleftrightarrow>
     distinct (map fst (acLog s))
   \<and> set (map fst (acLog s)) \<inter> (set (acQueued s) \<union> P) = {} \<and> set (acQueued s) \<inter> P = {}
   \<and> set (map fst (acLog s)) \<union> set (acQueued s) \<union> P = {..<acNext s}
   \<and> set (map fst (acHeld s)) \<subseteq> set (map fst (acLog s))"

definition acct_ok :: "bool \<Rightarrow> nat set \<Rightarrow> account_sem \<Rightarrow> bool" where
  "acct_ok exact P s \<longleftrightarrow> queues_wf s \<and> counts_wf exact s \<and> calls_wf P s"

lemmas acct_defs = acct_ok_def queues_wf_def counts_wf_def calls_wf_def running_at_def held_count_def

lemma acct_ok_queued:
  assumes "acct_ok ex P s" "r \<in> set (acQueued s)"
  shows "\<not> rqSettled (acRequests s r)" "request_keys s r \<noteq> []" "distinct (request_keys s r)"
    "\<And>k. k \<in> set (request_keys s r) \<Longrightarrow> view s k \<noteq> None" "r \<notin> P" "r < acNext s"
    "r \<notin> set (map fst (acLog s))"
  using assms unfolding acct_ok_def queues_wf_def calls_wf_def by blast+

lemma acct_ok_view:
  assumes "acct_ok ex P s" "view s k = Some (n, m, q)"
  shows "q = filter (\<lambda>r. k \<in> set (request_keys s r)) (acQueued s)" "0 \<le> n" "n \<le> held_count s k"
proof -
  show "q = filter (\<lambda>r. k \<in> set (request_keys s r)) (acQueued s)"
    using assms unfolding acct_ok_def queues_wf_def by blast
  have "0 \<le> running_at s k \<and> running_at s k \<le> held_count s k"
    using assms(1) unfolding acct_ok_def counts_wf_def by blast
  then show "0 \<le> n" "n \<le> held_count s k" using assms(2) by (simp_all add: running_at_def)
qed

lemma acct_ok_calm: "calm s t \<Longrightarrow> acct_ok ex P s \<Longrightarrow> acct_ok ex P t"
  unfolding acct_defs calm_def by simp

lemma new_account_sem_ok: "acct_ok ex {} new_account_sem"
  by (simp add: acct_defs new_account_sem_def view_def)

text \<open>Settling a call, taking a request out, handing out slots, starting a call.\<close>

lemma acct_ok_log:
  assumes "acct_ok ex P s" "r \<in> P"
  shows "acct_ok ex (P - {r}) (log_account r a s)"
proof -
  have "view (log_account r a s) = view s" by (simp add: view_def log_account_def fun_eq_iff)
  moreover have "calls_wf (P - {r}) (log_account r a s)"
    using assms by (auto simp: acct_ok_def calls_wf_def log_account_def)
  ultimately show ?thesis
    using assms(1) by (simp add: acct_ok_def queues_wf_def counts_wf_def running_at_def held_count_def)
      (simp add: log_account_def)
qed

lemma acct_ok_settle:
  assumes ok: "acct_ok ex P s" and r: "r \<in> set (acQueued s)"
  shows "acct_ok ex (insert r P) (settle_request r s)"
proof -
  let ?t = "settle_request r s"
  have d: "distinct (request_keys s r)" using acct_ok_queued [OF ok r] by simp
  have dq: "distinct (acQueued s)" and mok: "js_map_ok (acGates s)"
    using ok by (simp_all add: acct_ok_def queues_wf_def)
  have v: "view ?t k = (if k \<in> set (request_keys s r)
      then map_option (\<lambda>(n, m, q). (n, m, remove1 r q)) (view s k) else view s k)" for k
    using view_unqueue [OF d, of r] by (simp add: settle_request_def removeRequest_def upd_request_def)
      (simp add: view_def)
  have run: "running_at ?t k = running_at s k" for k
    by (simp add: running_at_def v split: option.splits prod.splits)
  have keys: "request_keys ?t i = request_keys s i" for i by simp
  have q: "q = filter (\<lambda>i. k \<in> set (request_keys ?t i)) (acQueued ?t)"
    if kv: "view ?t k = Some (n, m, q)" for k n m q
  proof (cases "k \<in> set (request_keys s r)")
    case True
    with kv v obtain q' where "view s k = Some (n, m, q')" "q = remove1 r q'" by auto
    with acct_ok_view(1) [OF ok] have "q = remove1 r (filter (\<lambda>i. k \<in> set (request_keys s i)) (acQueued s))"
      by metis
    then show ?thesis unfolding keys by (simp add: filter_remove1)
  next
    case False
    with kv v have "view s k = Some (n, m, q)" by simp
    with acct_ok_view(1) [OF ok] have "q = filter (\<lambda>i. k \<in> set (request_keys s i)) (acQueued s)" by metis
    also have "\<dots> = filter (\<lambda>i. k \<in> set (request_keys s i)) (remove1 r (acQueued s))"
      using False dq by (simp add: distinct_remove1_removeAll removeAll_filter_not_eq filter_filter)
        (rule filter_cong, auto)
    finally show ?thesis unfolding keys by simp
  qed
  have "js_map_ok (acGates ?t)"
    using mok by (simp add: settle_request_def removeRequest_def upd_request_def)
  then have "queues_wf ?t"
    using ok dq q by (auto simp: acct_ok_def queues_wf_def v)
  moreover have "counts_wf ex ?t"
    using ok by (simp add: acct_ok_def counts_wf_def run held_count_def)
  moreover have "calls_wf (insert r P) ?t"
    using ok r dq by (auto simp: acct_ok_def calls_wf_def)
  ultimately show ?thesis by (simp add: acct_ok_def)
qed

lemma acct_ok_hand_out:
  assumes ok: "acct_ok ex P s" and r: "r \<in> P" and d: "distinct ks"
    and gates: "\<And>k. k \<in> set ks \<Longrightarrow> view s k \<noteq> None"
  shows "acct_ok ex (P - {r}) (hand_out r ks s)"
proof -
  let ?u = "(count_running ks s)\<lparr>acHeld := (r, ks) # acHeld s\<rparr>"
  have u: "view ?u k = (if k \<in> set ks then map_option (\<lambda>(n, m, q). (n + 1, m, q)) (view s k) else view s k)" for k
    using view_count_running [OF d, of s k] by (simp add: view_def)
  have run: "running_at ?u k = running_at s k + (if k \<in> set ks then 1 else 0)" for k
    using gates [of k] by (auto simp: running_at_def u split: option.splits)
  have held: "held_count ?u k = held_count s k + (if k \<in> set ks then 1 else 0)" for k
    by (simp add: held_count_def)
  have new: "r \<notin> set (map fst (acHeld s))" using ok r unfolding acct_ok_def calls_wf_def by blast
  let ?t = "hand_out r ks s"
  have v: "view ?t = view ?u" by (simp add: hand_out_def log_account_def view_def fun_eq_iff)
  have frame: "acQueued ?t = acQueued s" "acRequests ?t = acRequests s" "acNext ?t = acNext s"
    "acHeld ?t = (r, ks) # acHeld s" "acLog ?t = acLog s @ [(r, Ac_granted)]"
    "acGates ?t = acGates (count_running ks s)"
    by (simp_all add: hand_out_def log_account_def)
  have "queues_wf ?t"
    using ok by (auto simp: acct_ok_def queues_wf_def v u frame simp del: not_None_eq split: if_splits)
  moreover have "counts_wf ex ?t"
  proof -
    have "running_at ?t k = running_at ?u k" "held_count ?t k = held_count ?u k" for k
      by (simp_all add: running_at_def v held_count_def frame)
    then show ?thesis using ok new d by (simp add: acct_ok_def counts_wf_def run held frame)
  qed
  moreover have "calls_wf (P - {r}) ?t"
    using ok r by (auto simp: acct_ok_def calls_wf_def frame)
  ultimately show ?thesis by (simp add: acct_ok_def)
qed

lemma acct_ok_admit:
  assumes ok: "acct_ok ex P s" and r: "r \<in> set (acQueued s)"
  shows "acct_ok ex P (admit_request r s)"
proof -
  let ?t = "settle_request r s"
  have t: "acct_ok ex (insert r P) ?t" using ok r by (rule acct_ok_settle)
  have k: "request_keys ?t r = request_keys s r" by simp
  have "acct_ok ex (insert r P - {r}) (hand_out r (request_keys s r) ?t)"
  proof (rule acct_ok_hand_out [OF t])
    fix k assume "k \<in> set (request_keys s r)"
    with acct_ok_queued [OF ok r] have "view s k \<noteq> None" "distinct (request_keys s r)" by blast+
    then show "view ?t k \<noteq> None"
      using view_unqueue [of "request_keys s r" r]
      by (simp add: settle_request_def removeRequest_def upd_request_def) (simp add: view_def)
  qed (use acct_ok_queued [OF ok r] in simp_all)
  then show ?thesis using acct_ok_queued(5) [OF ok r] by (simp add: admit_request_def Let_def k)
qed

section \<open>Admission\<close>

text \<open>
  What admission promises, said without the order of evaluation: a request passes when at every
  gate it names it is first in line, there is room, and no block is running.
\<close>

definition blocked_at :: "int \<Rightarrow> account_sem \<Rightarrow> string \<Rightarrow> bool" where
  "blocked_at now s k \<longleftrightarrow>
     (\<exists>g t. js_get (acGates s) k = Some g \<and> agBlockedUntil g = Some t \<and> t \<noteq> 0 \<and> now < t)"

definition gate_passes :: "int \<Rightarrow> account_sem \<Rightarrow> nat \<Rightarrow> string \<Rightarrow> bool" where
  "gate_passes now s r k \<longleftrightarrow>
     (\<exists>n m q. view s k = Some (n, m, q) \<and> n < m \<and> q \<noteq> [] \<and> hd q = r) \<and> \<not> blocked_at now s k"

definition passable :: "int \<Rightarrow> account_sem \<Rightarrow> nat \<Rightarrow> bool" where
  "passable now s r \<longleftrightarrow> (\<forall>k \<in> set (request_keys s r). gate_passes now s r k)"

lemma isBlocked_eq:
  assumes "isBlocked now k s = (b, t)"
  shows "b \<longleftrightarrow> blocked_at now s k" "blocked_at now t = blocked_at now s"
  using assms
  by (auto simp: isBlocked_def blocked_at_def set_gate_def fun_eq_iff split: option.splits if_splits)

lemma gate_passes_calm:
  assumes "calm s t" "blocked_at now t = blocked_at now s"
  shows "gate_passes now t r k \<longleftrightarrow> gate_passes now s r k" "passable now t r \<longleftrightarrow> passable now s r"
  using assms by (simp_all add: gate_passes_def passable_def calm_def)

lemma can_pass_calm:
  "can_pass now r ks s = (b, t) \<Longrightarrow> calm s t \<and> blocked_at now t = blocked_at now s"
proof (induction ks arbitrary: s)
  case (Cons k ks)
  obtain c u where u: "isBlocked now k s = (c, u)" by fastforce
  have su: "calm s u" "blocked_at now u = blocked_at now s"
    using calm_isBlocked [OF u] isBlocked_eq [OF u] by simp_all
  show ?case
    using Cons.prems Cons.IH [of u] u su
    by (auto split: option.splits if_splits bool.splits intro: calm_trans)
qed simp

lemma can_pass_eq:
  "can_pass now r ks s = (b, t) \<Longrightarrow> b \<longleftrightarrow> (\<forall>k \<in> set ks. gate_passes now s r k)"
proof (induction ks arbitrary: s)
  case (Cons k ks)
  obtain c u where u: "isBlocked now k s = (c, u)" by fastforce
  have su: "calm s u" "blocked_at now u = blocked_at now s"
    using calm_isBlocked [OF u] isBlocked_eq [OF u] by simp_all
  show ?case
  proof (cases "js_get (acGates s) k")
    case None
    with Cons.prems show ?thesis by (simp add: gate_passes_def view_def)
  next
    case (Some g)
    have head: "gate_passes now s r k \<longleftrightarrow> agRunning g < agMax g \<and> agQueue g \<noteq> [] \<and> hd (agQueue g) = r \<and> \<not> c"
      using Some isBlocked_eq(1) [OF u] by (auto simp: gate_passes_def view_def)
    show ?thesis
      using Cons.prems Cons.IH [of u] u head Some gate_passes_calm(1) [OF su]
      by (auto split: if_splits bool.splits)
  qed
qed simp

lemma canAcquire_eq:
  assumes "canAcquire now r s = (b, t)"
  shows "b \<longleftrightarrow> passable now s r" "calm s t" "blocked_at now t = blocked_at now s"
  using can_pass_eq [OF assms [unfolded canAcquire_def]] can_pass_calm [OF assms [unfolded canAcquire_def]]
  by (simp_all add: passable_def)

lemma first_ready_calm:
  "first_ready now rs s = (p, t) \<Longrightarrow> calm s t \<and> blocked_at now t = blocked_at now s"
proof (induction rs arbitrary: s)
  case (Cons r rs)
  obtain c u where u: "canAcquire now r s = (c, u)" by fastforce
  show ?case
    using Cons.prems Cons.IH [of u] Cons.IH [of s] u canAcquire_eq(2,3) [OF u]
    by (auto split: if_splits bool.splits intro: calm_trans)
qed simp

lemma first_ready_eq:
  "first_ready now rs s = (p, t) \<Longrightarrow> (\<forall>r \<in> set rs. \<not> rqSettled (acRequests s r)) \<Longrightarrow>
     p = find (passable now s) rs"
proof (induction rs arbitrary: s)
  case (Cons r rs)
  obtain c u where u: "canAcquire now r s = (c, u)" by fastforce
  have req: "acRequests u = acRequests s" using canAcquire_eq(2) [OF u] by (simp add: calm_def)
  have "passable now u = passable now s"
    using gate_passes_calm(2) [OF canAcquire_eq(2,3) [OF u]] by auto
  then show ?case
    using Cons.prems Cons.IH [of u] u canAcquire_eq(1) [OF u] req by (auto split: bool.splits)
qed simp

text \<open>The drain keeps the invariant and leaves no request behind that could pass.\<close>

lemma drain_round:
  assumes ok: "acct_ok ex P s" and f: "first_ready now (acQueued s) s = (p, t)"
  shows "acct_ok ex P t" "calm s t" "blocked_at now t = blocked_at now s"
    "p = find (passable now s) (acQueued s)"
    "p = Some r \<Longrightarrow> r \<in> set (acQueued t) \<and> passable now t r \<and> acct_ok ex P (admit_request r t)"
proof -
  show q: "calm s t" and b: "blocked_at now t = blocked_at now s"
    using first_ready_calm [OF f] by blast+
  with ok show okt: "acct_ok ex P t" by (blast intro: acct_ok_calm)
  have "\<forall>r \<in> set (acQueued s). \<not> rqSettled (acRequests s r)" using acct_ok_queued(1) [OF ok] by blast
  with f show p: "p = find (passable now s) (acQueued s)" by (rule first_ready_eq)
  assume r: "p = Some r"
  then have "r \<in> set (acQueued s)" "passable now s r"
    using p by (auto simp: find_Some_iff dest!: sym [of "Some r"])
  then have "r \<in> set (acQueued t)" "passable now t r"
    using q gate_passes_calm(2) [OF q b] by (simp_all add: calm_def)
  with okt show "r \<in> set (acQueued t) \<and> passable now t r \<and> acct_ok ex P (admit_request r t)"
    by (simp add: acct_ok_admit)
qed

text \<open>An induction rule for properties of the drain.\<close>

lemma drain_induct [consumes 1, case_names stop admit]:
  assumes "acct_ok ex P s"
    and stop: "\<And>s t. acct_ok ex P s \<Longrightarrow> acct_ok ex P t \<Longrightarrow> calm s t \<Longrightarrow>
        blocked_at now t = blocked_at now s \<Longrightarrow> \<forall>r \<in> set (acQueued t). \<not> passable now t r \<Longrightarrow> Q s t"
    and admit: "\<And>s t u r. acct_ok ex P s \<Longrightarrow> acct_ok ex P t \<Longrightarrow> calm s t \<Longrightarrow>
        blocked_at now t = blocked_at now s \<Longrightarrow> r \<in> set (acQueued t) \<Longrightarrow> passable now t r \<Longrightarrow>
        Q (admit_request r t) u \<Longrightarrow> Q s u"
  shows "Q s (drainQueues now s)"
  using assms(1)
proof (induction "length (acQueued s)" arbitrary: s rule: less_induct)
  case less
  obtain p t where f: "first_ready now (acQueued s) s = (p, t)" by fastforce
  note round = drain_round [OF less.prems f]
  show ?case
  proof (cases p)
    case None
    then have "\<forall>r \<in> set (acQueued s). \<not> passable now s r"
      using round(4) by (auto simp: find_None_iff dest!: sym [of None])
    then have "\<forall>r \<in> set (acQueued t). \<not> passable now t r"
      using round(2) gate_passes_calm(2) [OF round(2,3)] by (simp add: calm_def)
    with None f show ?thesis
      using stop [OF less.prems round(1-3)] by (simp add: drainQueues.simps [of now s])
  next
    case (Some r)
    note r = round(5) [OF Some]
    have "acQueued t = acQueued s" using round(2) by (simp add: calm_def)
    with r have "length (acQueued (admit_request r t)) < length (acQueued s)"
      using length_pos_if_in_set [of r "acQueued t"] by (simp add: length_remove1)
    then have "Q (admit_request r t) (drainQueues now (admit_request r t))"
      using less.hyps r by blast
    with Some f r show ?thesis
      using admit [OF less.prems round(1-3), of r] by (simp add: drainQueues.simps [of now s])
  qed
qed

lemma acct_ok_drain: "acct_ok ex P s \<Longrightarrow> acct_ok ex P (drainQueues now s)"
  by (induction rule: drain_induct)

lemma drain_rest:
  "acct_ok ex P s \<Longrightarrow> \<forall>r \<in> set (acQueued (drainQueues now s)). \<not> passable now (drainQueues now s) r"
  by (induction rule: drain_induct)

subsection \<open>Every operation keeps the invariant\<close>

lemma acct_ok_released:
  assumes ok: "acct_ok ex P s" and h: "map_of (acHeld s) i = Some ks"
  shows "acct_ok ex P (count_released ks (s\<lparr>acHeld := filter (\<lambda>(j, _). j \<noteq> i) (acHeld s)\<rparr>))"
    (is "acct_ok ex P ?t")
proof -
  have in_held: "(i, ks) \<in> set (acHeld s)" using h by (rule map_of_SomeD)
  then have d: "distinct ks" and dh: "distinct (map fst (acHeld s))"
    using ok unfolding acct_ok_def counts_wf_def by fastforce+
  have v: "view ?t k = (if k \<in> set ks
      then map_option (\<lambda>(n, m, q). (if n > 0 then n - 1 else n, m, q)) (view s k) else view s k)" for k
    using view_count_released [OF d] by (simp add: view_def)
  have cnt: "held_count s k = held_count ?t k + (if k \<in> set ks then 1 else 0)" for k
  proof -
    obtain h1 h2 where s: "acHeld s = h1 @ (i, ks) # h2" using in_held by (meson split_list)
    then have "i \<notin> fst ` set h1" "i \<notin> fst ` set h2" using dh by auto
    then have "filter (\<lambda>(j, _). j \<noteq> i) h1 = h1" "filter (\<lambda>(j, _). j \<noteq> i) h2 = h2"
      by (intro filter_True; force)+
    with s have "filter (\<lambda>(j, _). j \<noteq> i) (acHeld s) = h1 @ h2" by simp
    with s show ?thesis by (simp add: held_count_def)
  qed
  have "0 \<le> running_at ?t k \<and> running_at ?t k \<le> held_count ?t k
      \<and> (ex \<longrightarrow> running_at ?t k = held_count ?t k)" for k
  proof -
    have "0 \<le> running_at s k \<and> running_at s k \<le> held_count s k
        \<and> (ex \<longrightarrow> running_at s k = held_count s k)"
      using ok by (simp add: acct_ok_def counts_wf_def)
    moreover have "running_at ?t k = running_at s k - (if k \<in> set ks \<and> running_at s k > 0 then 1 else 0)"
      by (simp add: running_at_def v split: option.splits prod.splits)
    moreover have "0 \<le> held_count ?t k" by (simp add: held_count_def)
    ultimately show ?thesis using cnt [of k] by (auto split: if_splits)
  qed
  then have "counts_wf ex ?t"
    using ok dh by (auto simp: acct_ok_def counts_wf_def distinct_map_filter)
  moreover have "queues_wf ?t"
    using ok by (auto simp: acct_ok_def queues_wf_def v simp del: not_None_eq split: if_splits)
  moreover have "calls_wf P ?t"
    using ok by (auto simp: acct_ok_def calls_wf_def)
  ultimately show ?thesis by (simp add: acct_ok_def)
qed

lemma acct_ok_release: "acct_ok ex P s \<Longrightarrow> acct_ok ex P (release_account now i s)"
  using acct_ok_calm [OF calm_schedule_idle_gates] acct_ok_drain acct_ok_released
  by (auto simp: release_account_def split: option.splits)

text \<open>A gate that runs nothing and queues nothing can go.\<close>

lemma acct_ok_drop_gate:
  assumes ok: "acct_ok ex P s" and v: "view s k = Some (n, m, [])" and n: "ex \<longrightarrow> n = 0"
  shows "acct_ok ex P (s\<lparr>acGates := js_delete k (acGates s)\<rparr>)" (is "acct_ok ex P ?t")
proof -
  have vt: "view ?t k' = (if k' = k then None else view s k')" for k' by (simp add: view_def)
  have run: "running_at ?t k' = (if k' = k then 0 else running_at s k')" for k'
    by (simp add: running_at_def vt)
  have none: "k \<notin> set (request_keys s r)" if "r \<in> set (acQueued s)" for r
    using acct_ok_view(1) [OF ok v] that by (metis empty_filter_conv)
  have "queues_wf ?t"
    using ok none by (auto simp: acct_ok_def queues_wf_def vt simp del: not_None_eq split: if_splits)
  moreover have "counts_wf ex ?t"
  proof -
    have "running_at s k = n" using v by (simp add: running_at_def)
    moreover have "0 \<le> held_count ?t k'" for k' by (simp add: held_count_def)
    moreover have "held_count ?t = held_count s" by (simp add: held_count_def fun_eq_iff)
    ultimately show ?thesis
      using ok n by (auto simp: acct_ok_def counts_wf_def run)
  qed
  ultimately show ?thesis using ok by (simp add: acct_ok_def calls_wf_def)
qed

lemma acct_ok_cleanup_idle: "acct_ok ex P s \<Longrightarrow> acct_ok ex P (cleanupGateIfIdle now k s)"
proof -
  assume ok: "acct_ok ex P s"
  obtain b t where t: "isBlocked now k s = (b, t)" by fastforce
  let ?c = "clearCleanupTimer k t"
  have q: "calm s ?c" using calm_isBlocked [OF t] calm_clearCleanupTimer by (rule calm_trans)
  show ?thesis
  proof (cases "js_get (acGates s) k")
    case (Some g)
    have "acct_ok ex P (?c\<lparr>acGates := js_delete k (acGates ?c)\<rparr>)"
      if idle: "agRunning g \<le> 0" "agQueue g = []"
    proof (rule acct_ok_drop_gate)
      show okc: "acct_ok ex P ?c" using q ok by (rule acct_ok_calm)
      show v: "view ?c k = Some (agRunning g, agMax g, [])"
        using q Some idle by (simp add: calm_def) (simp add: view_def)
      show "ex \<longrightarrow> agRunning g = 0" using acct_ok_view(2) [OF okc v] idle by simp
    qed
    then show ?thesis
      using Some t ok acct_ok_calm [OF calm_isBlocked [OF t] ok]
      by (auto simp: cleanupGateIfIdle_def Let_def split: bool.splits)
  qed (simp add: cleanupGateIfIdle_def ok)
qed

lemma acct_ok_cleanup_fires: "acct_ok ex P s \<Longrightarrow> acct_ok ex P (cleanup_fires now t s)"
proof -
  assume ok: "acct_ok ex P s"
  have "acct_ok ex P ((upd_account k (\<lambda>g. if agCleanup g = Some t then g\<lparr>agCleanup := None\<rparr> else g) s)
      \<lparr>acCleanups := c\<rparr>)" for k c
  proof (rule acct_ok_calm [OF _ ok])
    have "calm s (upd_account k (\<lambda>g. if agCleanup g = Some t then g\<lparr>agCleanup := None\<rparr> else g) s)"
      by (rule calm_upd_account) simp
    then show "calm s ((upd_account k (\<lambda>g. if agCleanup g = Some t then g\<lparr>agCleanup := None\<rparr> else g) s)
      \<lparr>acCleanups := c\<rparr>)"
      by (simp add: calm_def view_def fun_eq_iff)
  qed
  with ok show ?thesis by (auto simp: cleanup_fires_def intro: acct_ok_cleanup_idle split: option.splits)
qed

text \<open>Creating a gate or changing its limit.\<close>

lemma view_ensureGate:
  "view (ensureGate k mx s) k'
     = (if k' = k then Some (case view s k of Some (n, _, q) \<Rightarrow> (n, mx, q) | None \<Rightarrow> (0, mx, []))
        else view s k')"
  by (simp add: ensureGate_def set_gate_def view_def split: option.splits)

lemma acct_ok_ensureGate:
  assumes ok: "acct_ok ex P s"
  shows "acct_ok ex P (ensureGate k mx s)" (is "acct_ok ex P ?t")
proof -
  have frame: "acQueued ?t = acQueued s" "acRequests ?t = acRequests s" "acNext ?t = acNext s"
    "acHeld ?t = acHeld s" "acLog ?t = acLog s"
    by (simp_all add: ensureGate_def set_gate_def split: option.splits)
  have "js_map_ok (acGates s)" using ok by (simp add: acct_ok_def queues_wf_def)
  then have "js_map_ok (acGates ?t)"
    by (simp add: ensureGate_def set_gate_def split: option.splits)
  moreover have "q = filter (\<lambda>r. k' \<in> set (request_keys s r)) (acQueued s)"
    if vq: "view ?t k' = Some (n, m, q)" for k' n m q
  proof (cases "view s k'")
    case None
    then have "k' \<notin> set (request_keys s r)" if "r \<in> set (acQueued s)" for r
      using acct_ok_queued(4) [OF ok that] by blast
    moreover have "q = []" using None vq by (simp add: view_ensureGate split: if_splits)
    ultimately show ?thesis by simp
  next
    case (Some a)
    then obtain n' m' where "view s k' = Some (n', m', q)"
      using vq by (cases a) (auto simp: view_ensureGate split: if_splits)
    with acct_ok_view(1) [OF ok] show ?thesis by blast
  qed
  moreover have "view ?t k' = None \<longleftrightarrow> k' \<noteq> k \<and> view s k' = None" for k'
    by (simp add: view_ensureGate)
  ultimately have "queues_wf ?t"
    using ok by (auto simp: acct_ok_def queues_wf_def frame simp del: not_None_eq)
  moreover have "running_at ?t k' = running_at s k'" for k'
    by (simp add: running_at_def view_ensureGate split: option.splits)
  ultimately show ?thesis
    using ok by (simp add: acct_ok_def counts_wf_def held_count_def calls_wf_def frame)
qed

lemma ensureGate_frame [simp]:
  "acQueued (ensureGate k mx s) = acQueued s" "acRequests (ensureGate k mx s) = acRequests s"
  "acNext (ensureGate k mx s) = acNext s" "acHeld (ensureGate k mx s) = acHeld s"
  "acLog (ensureGate k mx s) = acLog s"
  by (simp_all add: ensureGate_def set_gate_def split: option.splits)

lemma acct_ok_markBlocked: "acct_ok ex P s \<Longrightarrow> acct_ok ex P (markBlocked now k u s)"
proof -
  assume ok: "acct_ok ex P s"
  have q: "calm (ensureGate k mx s) (upd_account k (\<lambda>g. g\<lparr>agBlockedUntil := b\<rparr>)
      (clearCleanupTimer k (ensureGate k mx s)))" for mx b
    by (rule calm_trans [OF calm_clearCleanupTimer calm_upd_account]) simp
  have "acct_ok ex P (upd_account k (\<lambda>g. g\<lparr>agBlockedUntil := b\<rparr>) (clearCleanupTimer k (ensureGate k mx s)))"
    for mx b
    by (rule acct_ok_calm [OF q acct_ok_ensureGate [OF ok]])
  with ok show ?thesis by (auto simp: markBlocked_def split: option.splits)
qed

lemma acct_ok_unblock: "acct_ok ex P s \<Longrightarrow> acct_ok ex P (unblock now k s)"
proof -
  assume ok: "acct_ok ex P s"
  have "acct_ok ex P (upd_account k (\<lambda>g. g\<lparr>agBlockedUntil := None\<rparr>) s)"
    by (rule acct_ok_calm [OF calm_upd_account ok]) simp
  with ok show ?thesis
    by (auto simp: unblock_def intro: acct_ok_cleanup_idle acct_ok_drain split: option.splits)
qed

text \<open>A call: its gates are prepared, then it gets its slots, waits, or fails.\<close>

lemma prepare_gates_ok:
  "prepare_gates mq limits ks s = (full, t) \<Longrightarrow> acct_ok ex P s \<Longrightarrow>
     acct_ok ex P t \<and> acNext t = acNext s \<and> acLog t = acLog s \<and> acQueued t = acQueued s
   \<and> acRequests t = acRequests s \<and> acHeld t = acHeld s
   \<and> (\<forall>k. running_at t k = running_at s k) \<and> (\<forall>k. view s k \<noteq> None \<longrightarrow> view t k \<noteq> None)
   \<and> (\<not> full \<longrightarrow> (\<forall>k \<in> set ks. view t k \<noteq> None))"
proof (induction ks arbitrary: s)
  case (Cons k ks)
  let ?e = "ensureGate k (limit_of limits k) s"
  let ?c = "clearCleanupTimer k ?e"
  have q: "calm ?e ?c" by (rule calm_clearCleanupTimer)
  have okc: "acct_ok ex P ?c" using q acct_ok_ensureGate [OF Cons.prems(2)] by (rule acct_ok_calm)
  have vc: "view ?c = view ?e" using q by (simp add: calm_def)
  have c: "running_at ?c k' = running_at s k'" "view s k' \<noteq> None \<Longrightarrow> view ?c k' \<noteq> None"
    "view ?c k \<noteq> None" for k'
    by (auto simp: running_at_def vc view_ensureGate split: option.splits)
  have fr: "acNext ?c = acNext s" "acLog ?c = acLog s" "acQueued ?c = acQueued s"
    "acRequests ?c = acRequests s" "acHeld ?c = acHeld s"
    using q by (simp_all add: calm_def)
  let ?full = "mq > 0 \<and> (case js_get (acGates ?c) k of Some g \<Rightarrow> int (length (agQueue g)) \<ge> mq | None \<Rightarrow> False)"
  have "prepare_gates mq limits (k # ks) s = (if ?full then (True, ?c) else prepare_gates mq limits ks ?c)"
    by (simp only: prepare_gates.simps Let_def)
  then consider "full" "t = ?c" | "prepare_gates mq limits ks ?c = (full, t)"
    using Cons.prems(1) by (metis (no_types, lifting) prod.inject)
  then show ?case
  proof cases
    case 1
    with okc c fr show ?thesis by blast
  next
    case 2
    from Cons.IH [OF this okc] show ?thesis using c fr by (auto simp del: not_None_eq)
  qed
qed simp

lemma room_now_calm: "room_now now ks s = (b, t) \<Longrightarrow> calm s t \<and> blocked_at now t = blocked_at now s"
proof (induction ks arbitrary: s)
  case (Cons k ks)
  obtain c u where u: "isBlocked now k s = (c, u)" by fastforce
  show ?case
    using Cons.prems Cons.IH [of u] u calm_isBlocked [OF u] isBlocked_eq(2) [OF u]
    by (auto split: option.splits if_splits bool.splits intro: calm_trans)
qed simp

lemma room_now_room:
  "room_now now ks s = (True, t) \<Longrightarrow> k \<in> set ks \<Longrightarrow> \<exists>n m. view s k = Some (n, m, []) \<and> n < m"
proof (induction ks arbitrary: s)
  case (Cons k' ks)
  obtain c u where u: "isBlocked now k' s = (c, u)" by fastforce
  have vu: "view u = view s" using calm_isBlocked [OF u] by (simp add: calm_def)
  show ?case
  proof (cases "k = k'")
    case True
    with Cons.prems(1) show ?thesis by (auto simp: view_def split: option.splits if_splits)
  next
    case False
    with Cons.prems u have "room_now now ks u = (True, t)" "k \<in> set ks"
      by (auto split: option.splits if_splits bool.splits)
    from Cons.IH [OF this] show ?thesis by (simp add: vu)
  qed
qed simp

text \<open>The state in which a new request has joined the queues, before the drain.\<close>

lemma acct_ok_enqueue:
  assumes ok: "acct_ok ex P s" and i: "i \<in> P" and d: "distinct ks" "ks \<noteq> []"
    and gates: "\<forall>k \<in> set ks. view s k \<noteq> None" and q: "rqKeys q = ks" "\<not> rqSettled q"
  shows "acct_ok ex (P - {i}) (push_request i ks ((upd_request i (\<lambda>_. q) s)\<lparr>acQueued := acQueued s @ [i]\<rparr>))"
    (is "acct_ok ex _ (push_request i ks ?u)")
proof -
  let ?t = "push_request i ks ?u"
  have vu: "view ?u = view s" by (simp add: view_def upd_request_def fun_eq_iff)
  have v: "view ?t k = (if k \<in> set ks then map_option (\<lambda>(n, m, q). (n, m, q @ [i])) (view s k) else view s k)" for k
    unfolding view_push_request [OF d(1), of i ?u k] vu ..
  have fr: "acQueued ?t = acQueued s @ [i]" "acRequests ?t = (acRequests s)(i := q)"
    "acNext ?t = acNext s" "acHeld ?t = acHeld s" "acLog ?t = acLog s"
    by (simp_all add: upd_request_def)
  have new: "i \<notin> set (acQueued s)" using ok i unfolding acct_ok_def calls_wf_def by blast
  have old: "filter (\<lambda>r. k \<in> set (request_keys ?t r)) (acQueued s)
      = filter (\<lambda>r. k \<in> set (request_keys s r)) (acQueued s)" for k
    using new by (intro filter_cong) (auto simp: upd_request_def)
  have "p = filter (\<lambda>r. k \<in> set (request_keys ?t r)) (acQueued ?t)"
    if kv: "view ?t k = Some (n, m, p)" for k n m p
  proof -
    obtain n' m' p' where s: "view s k = Some (n', m', p')" "p = (if k \<in> set ks then p' @ [i] else p')"
      using kv by (auto simp: v split: if_splits)
    with acct_ok_view(1) [OF ok s(1)] old [of k] q show ?thesis
      by (simp add: fr upd_request_def)
  qed
  moreover have "js_map_ok (acGates ?t)"
    using ok by (simp add: acct_ok_def queues_wf_def upd_request_def)
  ultimately have "queues_wf ?t"
    using ok gates new d q
    by (auto simp: acct_ok_def queues_wf_def fr v simp del: not_None_eq split: if_splits)
  moreover have "running_at ?t k = running_at s k" for k
    by (auto simp: running_at_def v split: option.splits)
  then have "counts_wf ex ?t" using ok by (simp add: acct_ok_def counts_wf_def held_count_def fr)
  moreover have "calls_wf (P - {i}) ?t"
    using ok i by (auto simp: acct_ok_def calls_wf_def fr)
  ultimately show ?thesis by (simp add: acct_ok_def)
qed

lemma acct_ok_queue_request:
  assumes "acct_ok ex P s" "i \<in> P" "distinct ks" "ks \<noteq> []" "\<forall>k \<in> set ks. view s k \<noteq> None"
  shows "acct_ok ex (P - {i}) (queue_request now i ks opts s)"
  unfolding queue_request_def
  by (intro acct_ok_drain acct_ok_enqueue) (use assms in simp_all)

lemma enabled_limits_ok: "js_map_ok m \<Longrightarrow> js_map_ok (enabled_limits reqs m)"
  by (induction reqs m rule: enabled_limits.induct)
    (auto split: option.splits js_number.splits simp del: js_get_set)

lemma acct_ok_next_call:
  "acct_ok ex {} s \<Longrightarrow> acct_ok ex {acNext s} (s\<lparr>acNext := acNext s + 1\<rparr>)"
  by (auto simp: acct_ok_def queues_wf_def counts_wf_def calls_wf_def running_at_def held_count_def view_def)

lemma acquireMany_eq:
  assumes "prepare_gates (case aoMaxQueue opts of Some n \<Rightarrow> n | None \<Rightarrow> 20) (enabled_limits reqs [])
      (sort (js_keys (enabled_limits reqs []))) (s\<lparr>acNext := acNext s + 1\<rparr>) = (full, v)"
    and "room_now now (sort (js_keys (enabled_limits reqs []))) v = (room, w)"
  shows "acquireMany now reqs opts s =
    (if enabled_limits reqs [] = [] then log_account (acNext s) Ac_bypassed (s\<lparr>acNext := acNext s + 1\<rparr>)
     else if aoSignal opts = Some True
     then log_account (acNext s) Ac_aborted (s\<lparr>acNext := acNext s + 1\<rparr>)
     else if full then log_account (acNext s) Ac_queue_full v
     else if room then hand_out (acNext s) (sort (js_keys (enabled_limits reqs []))) w
     else queue_request now (acNext s) (sort (js_keys (enabled_limits reqs []))) opts w)"
  using assms by (simp add: acquireMany_def Let_def split: bool.splits)

lemma acct_ok_acquireMany:
  assumes ok: "acct_ok ex {} s"
  shows "acct_ok ex {} (acquireMany now reqs opts s)"
proof -
  define limits where "limits = enabled_limits reqs []"
  define ks where "ks = sort (js_keys limits)"
  define u where "u = s\<lparr>acNext := acNext s + 1\<rparr>"
  define i where "i = acNext s"
  have u: "acct_ok ex {i} u" unfolding u_def i_def using ok by (rule acct_ok_next_call)
  have log: "acct_ok ex {} (log_account i a v)" if "acct_ok ex {i} v" for a v
    using acct_ok_log [OF that, of i a] by simp
  have d: "distinct ks" using enabled_limits_ok [of "[]" reqs] by (simp add: ks_def limits_def)
  obtain full v where v: "prepare_gates (case aoMaxQueue opts of Some n \<Rightarrow> n | None \<Rightarrow> 20) limits ks u = (full, v)"
    by fastforce
  note pv = prepare_gates_ok [OF v u]
  obtain room w where w: "room_now now ks v = (room, w)" by fastforce
  have okw: "acct_ok ex {i} w" and vw: "view w = view v"
    using room_now_calm [OF w] pv acct_ok_calm [of v w] by (auto simp: calm_def)
  have "acct_ok ex {} (hand_out i ks w)" if "\<not> full"
    using acct_ok_hand_out [OF okw _ d, of i] that pv by (simp add: vw)
  moreover have "acct_ok ex {} (queue_request now i ks opts w)" if "\<not> full" "limits \<noteq> []"
    using acct_ok_queue_request [OF okw _ d, of i] that pv
    by (simp add: vw ks_def) (metis length_0_conv length_map length_sort)
  ultimately show ?thesis
    unfolding acquireMany_eq [OF v [unfolded u_def ks_def limits_def] w [unfolded ks_def limits_def]]
    using log [OF u] log pv by (simp add: limits_def ks_def u_def i_def)
qed

lemma acct_ok_unsettled: "acct_ok ex P s \<Longrightarrow> \<not> rqSettled (acRequests s r) \<Longrightarrow> r \<in> set (acQueued s)"
  unfolding acct_ok_def queues_wf_def by blast

lemma acct_ok_upd_request:
  assumes "acct_ok ex P s" "\<And>q. rqKeys (f q) = rqKeys q" "\<And>q. rqSettled (f q) = rqSettled q"
  shows "acct_ok ex P (upd_request r f s)"
proof -
  have "acRequests (upd_request r f s) i = (if i = r then f (acRequests s i) else acRequests s i)" for i
    by simp
  then have "request_keys (upd_request r f s) i = request_keys s i"
    "rqSettled (acRequests (upd_request r f s) i) = rqSettled (acRequests s i)" for i
    using assms(2,3) by auto
  moreover have "view (upd_request r f s) = view s" by (simp add: view_def fun_eq_iff)
  ultimately show ?thesis
    using assms(1) unfolding acct_ok_def queues_wf_def counts_wf_def calls_wf_def running_at_def held_count_def
    by (simp del: upd_request_frame(1))
qed

text \<open>Taking a pending request out with an error, as the timeout and the abort listener do.\<close>

lemma acct_ok_fail:
  assumes ok: "acct_ok ex P s" and r: "r \<in> set (acQueued s)"
  shows "acct_ok ex P (log_account r a (settle_request r s))"
  using acct_ok_log [OF acct_ok_settle [OF ok r], of r a] acct_ok_queued(5) [OF ok r] by simp

lemma acct_ok_timeout: "acct_ok ex P s \<Longrightarrow> acct_ok ex P (timeout_fires now i s)"
proof -
  assume ok: "acct_ok ex P s"
  let ?u = "upd_request i (\<lambda>q. q\<lparr>rqTimer := None\<rparr>) s"
  have u: "acct_ok ex P ?u" by (rule acct_ok_upd_request [OF ok]) simp_all
  have "acct_ok ex P (drainQueues now (log_account i Ac_timeout (settle_request i ?u)))"
    if "\<not> rqSettled (acRequests ?u i)"
    by (intro acct_ok_drain acct_ok_fail u acct_ok_unsettled [OF u that])
  with ok u show ?thesis by (simp add: timeout_fires_def Let_def split: option.splits)
qed

lemma acct_ok_abort: "acct_ok ex P s \<Longrightarrow> acct_ok ex P (abort_fires now i s)"
proof -
  assume ok: "acct_ok ex P s"
  let ?u = "upd_request i (\<lambda>q. q\<lparr>rqListener := False\<rparr>) s"
  have u: "acct_ok ex P ?u" by (rule acct_ok_upd_request [OF ok]) simp_all
  have "acct_ok ex P (drainQueues now (log_account i Ac_aborted (settle_request i ?u)))"
    if "\<not> rqSettled (acRequests ?u i)"
    by (intro acct_ok_drain acct_ok_fail u acct_ok_unsettled [OF u that])
  with ok u show ?thesis by (simp add: abort_fires_def Let_def)
qed

lemma settle_all_ok:
  "settle_all rs s = (rejected, t) \<Longrightarrow> acct_ok ex P s \<Longrightarrow> set rs \<subseteq> set (acQueued s) \<Longrightarrow> distinct rs \<Longrightarrow>
     acct_ok ex (P \<union> set rs) t \<and> rejected = rs
   \<and> acQueued t = filter (\<lambda>r. r \<notin> set rs) (acQueued s)
   \<and> (\<forall>k. running_at t k = running_at s k) \<and> (\<forall>k. view t k = None \<longleftrightarrow> view s k = None)
   \<and> (\<forall>i. request_keys t i = request_keys s i) \<and> acNext t = acNext s \<and> acLog t = acLog s"
proof (induction rs arbitrary: s P rejected)
  case (Cons r rs)
  have r: "r \<in> set (acQueued s)" using Cons.prems by simp
  note req = acct_ok_queued [OF Cons.prems(2) r]
  let ?u = "settle_request r s"
  have u: "acct_ok ex (insert r P) ?u" by (rule acct_ok_settle [OF Cons.prems(2) r])
  obtain js where js: "settle_all rs ?u = (js, t)" "rejected = r # js"
    using Cons.prems(1) req(1) by (auto split: prod.splits)
  have v: "view ?u k = (if k \<in> set (request_keys s r)
      then map_option (\<lambda>(n, m, q). (n, m, remove1 r q)) (view s k) else view s k)" for k
    using view_unqueue [OF req(3), of r] by (simp add: settle_request_def removeRequest_def)
      (simp add: view_def)
  have "distinct (acQueued s)" using Cons.prems(2) by (simp add: acct_ok_def queues_wf_def)
  then have fl: "remove1 r (acQueued s) = filter (\<lambda>x. x \<noteq> r) (acQueued s)"
    by (simp add: distinct_remove1_removeAll removeAll_filter_not_eq)
      (rule filter_cong, auto)
  have u': "set rs \<subseteq> set (acQueued ?u)" using Cons.prems fl by auto
  have "running_at ?u k = running_at s k" "view ?u k = None \<longleftrightarrow> view s k = None" for k
    by (auto simp: running_at_def v split: option.splits)
  moreover have "request_keys ?u i = request_keys s i" for i by simp
  ultimately show ?case
    using Cons.IH [OF js(1) u u'] js(2) Cons.prems(4) fl by (auto simp: filter_filter conj_commute)
qed simp

lemma acct_ok_reject_all:
  "acct_ok ex P s \<Longrightarrow> distinct rs \<Longrightarrow> set rs \<subseteq> P \<Longrightarrow> acct_ok ex (P - set rs) (reject_all rs s)"
proof (induction rs arbitrary: s P)
  case (Cons r rs)
  then have "acct_ok ex (P - {r}) (log_account r Ac_reset s)" by (intro acct_ok_log) auto
  then have "acct_ok ex (P - {r} - set rs) (reject_all rs (log_account r Ac_reset s))"
    by (rule Cons.IH) (use Cons.prems in auto)
  then show ?case by (simp add: reject_all_def insert_Diff_if Diff_insert2 [symmetric])
qed (simp add: reject_all_def)

lemma acct_ok_weaken: "acct_ok ex P s \<Longrightarrow> acct_ok False P s"
  unfolding acct_ok_def counts_wf_def by blast

lemma acct_ok_reset:
  assumes ok: "acct_ok False {} s"
  shows "acct_ok False {} (reset_account now k s)"
proof (cases "js_get (acGates s) k")
  case (Some g)
  let ?c = "clearCleanupTimer k s"
  have q: "calm s ?c" by (rule calm_clearCleanupTimer)
  have okc: "acct_ok False {} ?c" using q ok by (rule acct_ok_calm)
  have v: "view ?c k = Some (agRunning g, agMax g, agQueue g)"
    using q Some by (simp add: calm_def) (simp add: view_def)
  note qk = acct_ok_view(1) [OF okc v]
  have d: "distinct (agQueue g)" "set (agQueue g) \<subseteq> set (acQueued ?c)"
    using okc by (auto simp: qk acct_ok_def queues_wf_def)
  obtain js t where t: "settle_all (agQueue g) ?c = (js, t)" by fastforce
  note st = settle_all_ok [OF t okc d(2,1)]
  then obtain n m p where vt: "view t k = Some (n, m, p)" using v by (cases "view t k") auto
  moreover have "p = []"
    using acct_ok_view(1) [OF _ vt] st by (auto simp: qk filter_empty_conv)
  ultimately have "acct_ok False (set js) (t\<lparr>acGates := js_delete k (acGates t)\<rparr>)"
    using acct_ok_drop_gate [of False _ t k n m] st by simp
  from acct_ok_reject_all [OF this, of js] show ?thesis
    using Some t st d by (simp add: reset_account_def acct_ok_drain)
qed (simp add: reset_account_def ok)

lemma acct_ok_reset_all:
  assumes ok: "acct_ok False {} s"
  shows "acct_ok False {} (reset_all_accounts s)"
proof -
  have d: "distinct (acQueued s)" using ok by (simp add: acct_ok_def queues_wf_def)
  obtain js t where t: "settle_all (acQueued s) s = (js, t)" by fastforce
  note st = settle_all_ok [OF t ok order_refl d]
  have qt: "calm t' (foldl (\<lambda>s k. clearCleanupTimer k s) t' ks)" for t' ks
  proof (induction ks arbitrary: t')
    case (Cons k ks)
    from Cons [of "clearCleanupTimer k t'"] show ?case
      by (simp add: calm_trans [OF calm_clearCleanupTimer])
  qed simp
  then have u: "acct_ok False (set js) (foldl (\<lambda>s k. clearCleanupTimer k s) t (js_keys (acGates t)))"
      (is "acct_ok False _ ?u")
    using st by (intro acct_ok_calm [OF qt]) simp
  have "acQueued ?u = []"
    using qt [of t "js_keys (acGates t)"] st by (simp add: calm_def)
  then have "acct_ok False (set js) (?u\<lparr>acGates := [], acQueued := []\<rparr>)"
    using u by (auto simp: acct_defs view_def)
  from acct_ok_reject_all [OF this, of js] show ?thesis
    using t st d by (simp add: reset_all_accounts_def Let_def)
qed


section \<open>Runs\<close>

datatype account_event =
    Ac_acquire "(string \<times> js_number option) list" account_options
  | Ac_release nat
  | Ac_timer nat
  | Ac_abort nat
  | Ac_mark string block_until
  | Ac_unblock string
  | Ac_cleanup nat
  | Ac_full_check string string "js_number option"
  | Ac_reset_key string
  | Ac_reset_everything

fun account_step :: "account_sem \<Rightarrow> int \<times> account_event \<Rightarrow> account_sem" where
  "account_step s (now, Ac_acquire reqs opts) = acquireMany now reqs opts s"
| "account_step s (now, Ac_release i) = release_account now i s"
| "account_step s (now, Ac_timer i) = timeout_fires now i s"
| "account_step s (now, Ac_abort i) = abort_fires now i s"
| "account_step s (now, Ac_mark k u) = markBlocked now k u s"
| "account_step s (now, Ac_unblock k) = unblock now k s"
| "account_step s (now, Ac_cleanup t) = cleanup_fires now t s"
| "account_step s (now, Ac_full_check p a mx) = snd (isAccountSemaphoreFull now p a mx s)"
| "account_step s (now, Ac_reset_key k) = reset_account now k s"
| "account_step s (now, Ac_reset_everything) = reset_all_accounts s"

fun not_reset :: "int \<times> account_event \<Rightarrow> bool" where
  "not_reset (now, Ac_reset_key k) = False"
| "not_reset (now, Ac_reset_everything) = False"
| "not_reset (now, e) = True"

lemma acct_ok_full_check: "acct_ok ex P s \<Longrightarrow> acct_ok ex P (snd (isAccountSemaphoreFull now p a mx s))"
  using acct_ok_calm [OF calm_isBlocked [OF surjective_pairing]]
  by (auto simp: isAccountSemaphoreFull_def Let_def split: option.splits js_number.splits)

lemmas acct_ok_operations =
  acct_ok_acquireMany acct_ok_release acct_ok_timeout acct_ok_abort acct_ok_markBlocked acct_ok_unblock
  acct_ok_cleanup_fires acct_ok_full_check

lemma account_step_ok:
  assumes "acct_ok ex {} s" "\<not> ex \<or> not_reset ev"
  shows "acct_ok ex {} (account_step s ev)"
  using assms acct_ok_operations acct_ok_reset acct_ok_reset_all
  by (cases ev rule: not_reset.cases; cases ex) simp_all

interpretation account_run: step_invariant account_step "\<lambda>_ ev. not_reset ev" "acct_ok True {}"
  by unfold_locales (rule account_step_ok, simp_all)

interpretation account_any_run: step_invariant account_step "\<lambda>_ _. True" "acct_ok False {}"
  by unfold_locales (rule account_step_ok, simp_all)

section \<open>Properties\<close>

text \<open>
  One drain, seen from a gate: it serves a prefix of its queue, one slot each, within its limit.
\<close>

definition served :: "account_sem \<Rightarrow> account_sem \<Rightarrow> string \<Rightarrow> bool" where
  "served s t k \<longleftrightarrow>
     (\<forall>n m q. view s k = Some (n, m, q) \<longrightarrow>
        (\<exists>j. view t k = Some (n + int j, m, drop j q) \<and> j \<le> length q \<and> (j > 0 \<longrightarrow> n + int j \<le> m)))"

lemma served_refl: "view t = view s \<Longrightarrow> served s t k"
  unfolding served_def by (metis add.right_neutral drop0 le0 less_irrefl of_nat_0)

lemma served_trans: "served s t k \<Longrightarrow> served t u k \<Longrightarrow> served s u k"
proof (unfold served_def, intro allI impI)
  fix n m q
  assume st: "\<forall>n m q. view s k = Some (n, m, q) \<longrightarrow>
        (\<exists>j. view t k = Some (n + int j, m, drop j q) \<and> j \<le> length q \<and> (j > 0 \<longrightarrow> n + int j \<le> m))"
    and tu: "\<forall>n m q. view t k = Some (n, m, q) \<longrightarrow>
        (\<exists>j. view u k = Some (n + int j, m, drop j q) \<and> j \<le> length q \<and> (j > 0 \<longrightarrow> n + int j \<le> m))"
    and s: "view s k = Some (n, m, q)"
  from st s obtain j where j: "view t k = Some (n + int j, m, drop j q)" "j \<le> length q"
    "j > 0 \<longrightarrow> n + int j \<le> m" by blast
  from tu j(1) obtain i where i: "view u k = Some (n + int j + int i, m, drop i (drop j q))"
    "i \<le> length q - j" "i > 0 \<longrightarrow> n + int j + int i \<le> m" by (metis length_drop)
  have "view u k = Some (n + int (j + i), m, drop (j + i) q)" using i(1) by (simp add: add.commute add.left_commute)
  moreover have "j + i \<le> length q" "j + i > 0 \<longrightarrow> n + int (j + i) \<le> m" using i j by auto
  ultimately show "\<exists>j. view u k = Some (n + int j, m, drop j q) \<and> j \<le> length q \<and> (j > 0 \<longrightarrow> n + int j \<le> m)"
    by blast
qed

lemma served_admit:
  assumes ok: "acct_ok ex P s" and r: "r \<in> set (acQueued s)" and p: "passable now s r"
  shows "served s (admit_request r s) k"
proof -
  have d: "distinct (request_keys s r)" using acct_ok_queued [OF ok r] by blast
  have v: "view (admit_request r s) k = (if k \<in> set (request_keys s r)
      then map_option (\<lambda>(n, m, q). (n + 1, m, remove1 r q)) (view s k) else view s k)"
  proof -
    have "view (settle_request r s) k = (if k \<in> set (request_keys s r)
        then map_option (\<lambda>(n, m, q). (n, m, remove1 r q)) (view s k) else view s k)"
      using view_unqueue [OF d, of r] by (simp add: settle_request_def removeRequest_def)
        (simp add: view_def)
    moreover have "view (admit_request r s) k
        = view (count_running (request_keys s r) (settle_request r s)) k"
      by (simp add: admit_request_def hand_out_def log_account_def Let_def view_def)
    ultimately show ?thesis
      using view_count_running [OF d, of "settle_request r s" k] by (cases "view s k") auto
  qed
  have "\<exists>j. view (admit_request r s) k = Some (n + int j, m, drop j q) \<and> j \<le> length q
      \<and> (j > 0 \<longrightarrow> n + int j \<le> m)" if s: "view s k = Some (n, m, q)" for n m q
  proof (cases "k \<in> set (request_keys s r)")
    case True
    with p s have "n < m" "q \<noteq> []" "hd q = r" by (auto simp: passable_def gate_passes_def)
    then show ?thesis using v True s by (intro exI [of _ 1]) (cases q; simp)
  next
    case False
    then show ?thesis using v s by (intro exI [of _ 0]) simp
  qed
  then show ?thesis by (simp add: served_def)
qed

lemma drain_served: "acct_ok ex P s \<Longrightarrow> served s (drainQueues now s) k"
proof (induction rule: drain_induct)
  case (stop s t)
  then show ?case by (intro served_refl) (simp add: calm_def)
next
  case (admit s t u r)
  have "served s t k" using admit by (intro served_refl) (simp add: calm_def)
  with served_admit [OF admit(2,5,6)] admit(7) show ?case by (blast intro: served_trans)
qed

text \<open>The oldest pending request is first in line at every gate it names.\<close>

lemma oldest_is_head:
  assumes ok: "acct_ok ex P s" and r: "acQueued s = r # rs" and k: "k \<in> set (request_keys s r)"
    and v: "view s k = Some (n, m, q)"
  shows "q \<noteq> [] \<and> hd q = r"
  using acct_ok_view(1) [OF ok v] r k by simp

lemma account_run_ok: "\<forall>ev \<in> set evs. not_reset ev \<Longrightarrow> acct_ok True {} (foldl account_step new_account_sem evs)"
  by (rule account_run.run_always_good) (use new_account_sem_ok in auto)

lemma account_any_run_ok: "acct_ok False {} (foldl account_step new_account_sem evs)"
  by (rule account_any_run.run_always_good) (use new_account_sem_ok in auto)

text \<open>Two requests compete for a provider gate and an account gate with one slot.\<close>

definition plain_options :: account_options where
  "plain_options = \<lparr>aoTimeout = None, aoSignal = None, aoMaxQueue = None\<rparr>"

definition contended_run :: "(int \<times> account_event) list" where
  "contended_run =
     [(0, Ac_acquire [(''p'', Some (Finite 2)), (''a'', Some (Finite 1))] plain_options),
      (1, Ac_acquire [(''p'', Some (Finite 2)), (''a'', Some (Finite 1))] plain_options)]"

text \<open>
  C9: as long as nothing is reset, whatever is acquired, released, timed out, aborted, blocked or
  cleaned up, a gate runs exactly the requests whose release function is still held and names it
  (a waiting request holds no slot at any gate), its queue is the pending requests that name it,
  in arrival order, and every call so far is either pending or settled, once.
\<close>

theorem account_gates_account:
  assumes "\<forall>ev \<in> set evs. not_reset ev"
  defines "s \<equiv> foldl account_step new_account_sem evs"
  shows "(\<forall>k. running_at s k = held_count s k)
    \<and> (\<forall>k n m q. view s k = Some (n, m, q) \<longrightarrow>
         q = filter (\<lambda>r. k \<in> set (request_keys s r)) (acQueued s))
    \<and> (\<forall>i < acNext s. (i \<in> set (acQueued s)) \<noteq> (i \<in> set (map fst (acLog s))))
    \<and> distinct (map fst (acLog s))"
proof -
  have ok: "acct_ok True {} s" unfolding s_def using assms(1) by (rule account_run_ok)
  then have c: "calls_wf {} s" "counts_wf True s" "queues_wf s" by (simp_all add: acct_ok_def)
  have "\<forall>i < acNext s. (i \<in> set (acQueued s)) \<noteq> (i \<in> set (map fst (acLog s)))"
    using c(1) unfolding calls_wf_def by blast
  with c show ?thesis unfolding counts_wf_def queues_wf_def calls_wf_def by blast
qed

theorem account_gates_account_witness:
  "running_at (foldl account_step new_account_sem contended_run) ''a''
     = held_count (foldl account_step new_account_sem contended_run) ''a''"
  using account_gates_account [of contended_run] by (simp add: contended_run_def)

text \<open>
  C10: a drain serves every gate in arrival order: the requests it admits at a gate are a prefix of
  that gate's queue, each takes one slot, and the count never passes the gate's limit. What is
  left waiting cannot be admitted, and the oldest of all waiting requests is held back only by a
  gate that is full or blocked, never by a younger request.
\<close>

theorem drain_in_order:
  assumes ok: "acct_ok exact P s" and t_def: "t = drainQueues now s"
  shows "(\<forall>k. served s t k)
    \<and> (\<forall>r \<in> set (acQueued t). \<not> passable now t r)
    \<and> (\<forall>r rs. acQueued t = r # rs \<longrightarrow>
         (\<exists>k \<in> set (request_keys t r). \<exists>n m q. view t k = Some (n, m, q) \<and> (n \<ge> m \<or> blocked_at now t k)))"
proof (intro conjI)
  show "\<forall>k. served s t k" unfolding t_def using drain_served [OF ok] ..
  show rest: "\<forall>r \<in> set (acQueued t). \<not> passable now t r" unfolding t_def by (rule drain_rest [OF ok])
  have okt: "acct_ok exact P t" unfolding t_def by (rule acct_ok_drain [OF ok])
  show "\<forall>r rs. acQueued t = r # rs \<longrightarrow>
     (\<exists>k \<in> set (request_keys t r). \<exists>n m q. view t k = Some (n, m, q) \<and> (n \<ge> m \<or> blocked_at now t k))"
  proof (intro allI impI)
    fix r rs assume r: "acQueued t = r # rs"
    with rest obtain k where k: "k \<in> set (request_keys t r)" "\<not> gate_passes now t r k"
      by (auto simp: passable_def)
    have "r \<in> set (acQueued t)" using r by simp
    with k acct_ok_queued(4) [OF okt] obtain n m q where v: "view t k = Some (n, m, q)" by fastforce
    with oldest_is_head [OF okt r k(1) v] k have "n \<ge> m \<or> blocked_at now t k"
      by (auto simp: gate_passes_def)
    with k v show "\<exists>k \<in> set (request_keys t r). \<exists>n m q. view t k = Some (n, m, q) \<and> (n \<ge> m \<or> blocked_at now t k)"
      by blast
  qed
qed

theorem drain_in_order_witness:
  "\<exists>k. served (foldl account_step new_account_sem contended_run)
        (drainQueues 5 (foldl account_step new_account_sem contended_run)) k"
  using drain_in_order [OF account_any_run_ok [of contended_run] refl, of 5] by blast

lemma drain_nothing: "acQueued s = [] \<Longrightarrow> drainQueues now s = s"
  by (simp add: drainQueues.simps [of now s])

abbreviation single_gate :: "int \<Rightarrow> nat option \<Rightarrow> AccountGate" where
  "single_gate n c \<equiv> \<lparr>agRunning = n, agMax = 1, agQueue = [], agBlockedUntil = None, agCleanup = c\<rparr>"

lemmas account_eval =
  acquireMany_def isBypassed_def ensureGate_def set_gate_def limit_of_def clearCleanupTimer_def
  isBlocked_def hand_out_def count_running_def log_account_def upd_account_def

lemma acquire_fresh:
  assumes "aoSignal opts = None" "acGates s = []"
  shows "acquireMany now [(k, Some (Finite 1))] opts s =
    s\<lparr>acGates := [(k, single_gate 1 None)], acNext := acNext s + 1,
      acHeld := (acNext s, [k]) # acHeld s, acLog := acLog s @ [(acNext s, Ac_granted)]\<rparr>"
  using assms by (cases "aoMaxQueue opts") (simp_all add: account_eval Let_def)

lemma acquire_idle:
  assumes "aoSignal opts = None" "acGates s = [(k, single_gate 0 (Some t))]"
  shows "acquireMany now [(k, Some (Finite 1))] opts s =
    s\<lparr>acGates := [(k, single_gate 1 None)], acCleanups := js_delete t (acCleanups s),
      acNext := acNext s + 1,
      acHeld := (acNext s, [k]) # acHeld s, acLog := acLog s @ [(acNext s, Ac_granted)]\<rparr>"
  using assms by (cases "aoMaxQueue opts") (simp_all add: account_eval Let_def)

lemma reset_single:
  assumes "acGates s = [(k, single_gate n None)]" "acQueued s = []"
  shows "reset_account now k s = s\<lparr>acGates := []\<rparr>"
  using assms by (simp add: reset_account_def clearCleanupTimer_def reject_all_def drain_nothing)

lemma release_single:
  assumes "acGates s = [(k, single_gate 1 None)]" "acQueued s = []" "map_of (acHeld s) i = Some [k]"
  shows "release_account now i s =
    s\<lparr>acGates := [(k, single_gate 0 (Some (acNextTimer s)))],
      acHeld := filter (\<lambda>(j, _). j \<noteq> i) (acHeld s),
      acCleanups := js_set (acNextTimer s) k (acCleanups s), acNextTimer := acNextTimer s + 1\<rparr>"
  using assms
  by (simp add: release_account_def count_released_def upd_account_def set_gate_def drain_nothing
      schedule_idle_gates_def schedule_if_idle_def scheduleCleanup_def clearCleanupTimer_def Let_def)

text \<open>
  \<open>reset\<close> forgets the running requests of a gate but not their release functions: one request
  is admitted with a limit of one, the key is reset, a second is admitted, and the late release
  of the first frees the slot of the second, so that a third is admitted beside it: two requests
  run under a limit of one.
\<close>

lemma reset_overadmits:
  assumes "aoSignal opts = None"
    and "s = foldl account_step new_account_sem
     [(t0, Ac_acquire [(k, Some (Finite 1))] opts), (t1, Ac_reset_key k),
      (t2, Ac_acquire [(k, Some (Finite 1))] opts), (t3, Ac_release 0),
      (t4, Ac_acquire [(k, Some (Finite 1))] opts)]"
  shows "held_count s k = 2 \<and> view s k = Some (1, 1, [])"
proof -
  have n: "acGates new_account_sem = []" "acQueued new_account_sem = []" "acNext new_account_sem = 0"
    "acHeld new_account_sem = []" "acNextTimer new_account_sem = 0"
    by (simp_all add: new_account_sem_def)
  show ?thesis
    unfolding assms(2)
    by (simp add: assms(1) n acquire_fresh reset_single release_single acquire_idle held_count_def view_def)
qed

end
