(* ===== verification/Lockout_Policy.thy ===== *)
theory Lockout_Policy
  imports Prelude
begin

text \<open>
  The lockout policy of \<open>src/domain/lockoutPolicy.ts\<close> and the rows it keeps through
  \<open>src/lib/db/domainState.ts\<close>: failed attempts per identifier, counted in a sliding window,
  and a lock with an expiry time. The in-memory cache and the table are maps; \<open>loDbUp\<close> says
  whether a database call succeeds or throws (every throw is caught by the policy). The JSON
  encoding of the attempts column is the list itself.
\<close>


section \<open>State and the table\<close>

record lockout_state =
  loAttempts :: "int list"
  loLockedUntil :: "int option"

record lockouts =
  loCache :: "(string, lockout_state) js_map"
  loRows :: "(string, lockout_state) js_map"
  loDbUp :: bool

record lockout_config =
  maxAttempts :: nat
  lockoutDurationMs :: int
  attemptWindowMs :: int

record lockout_verdict =
  lvLocked :: bool
  lvRemaining :: "int option"
  lvAttempts :: "nat option"

definition DEFAULT_CONFIG :: lockout_config where
  "DEFAULT_CONFIG = \<lparr>maxAttempts = 5, lockoutDurationMs = 15 * 60 * 1000, attemptWindowMs = 5 * 60 * 1000\<rparr>"

definition saveLockoutState :: "string \<Rightarrow> lockout_state \<Rightarrow> lockouts \<Rightarrow> lockouts" where
  "saveLockoutState i st s = (if loDbUp s then s\<lparr>loRows := js_set i st (loRows s)\<rparr> else s)"

definition loadLockoutState :: "string \<Rightarrow> lockouts \<Rightarrow> lockout_state option" where
  "loadLockoutState i s = (if loDbUp s then js_get (loRows s) i else None)"

definition deleteLockoutState :: "string \<Rightarrow> lockouts \<Rightarrow> lockouts" where
  "deleteLockoutState i s = (if loDbUp s then s\<lparr>loRows := js_delete i (loRows s)\<rparr> else s)"

definition loadAllLockedIdentifiers :: "int \<Rightarrow> lockouts \<Rightarrow> (string \<times> int) list" where
  "loadAllLockedIdentifiers now s =
     (if loDbUp s then
        concat (map (\<lambda>(i, st). case loLockedUntil st of
                       Some u \<Rightarrow> if u > now \<and> i \<noteq> [] then [(i, u)] else []
                     | None \<Rightarrow> []) (loRows s))
      else [])"

text \<open>\<open>state.lockedUntil\<close> in a condition: null and 0 are false.\<close>

fun truthy :: "int option \<Rightarrow> bool" where
  "truthy None = False"
| "truthy (Some u) = (u \<noteq> 0)"


section \<open>Operations\<close>

definition getState :: "string \<Rightarrow> lockouts \<Rightarrow> lockout_state option \<times> lockouts" where
  "getState i s =
     (case js_get (loCache s) i of
        Some st \<Rightarrow> (Some st, s)
      | None \<Rightarrow>
          (case loadLockoutState i s of
             Some st \<Rightarrow> (Some st, s\<lparr>loCache := js_set i st (loCache s)\<rparr>)
           | None \<Rightarrow> (None, s)))"

definition persistState :: "string \<Rightarrow> lockout_state \<Rightarrow> lockouts \<Rightarrow> lockouts" where
  "persistState i st s = saveLockoutState i st (s\<lparr>loCache := js_set i st (loCache s)\<rparr>)"

definition recent :: "int \<Rightarrow> lockout_config \<Rightarrow> int list \<Rightarrow> int list" where
  "recent now cfg = filter (\<lambda>t. t > now - attemptWindowMs cfg)"

definition checkLockout :: "int \<Rightarrow> string \<Rightarrow> lockout_config \<Rightarrow> lockouts \<Rightarrow> lockout_verdict \<times> lockouts" where
  "checkLockout now i cfg s =
     (case getState i s of
        (None, s) \<Rightarrow> (\<lparr>lvLocked = False, lvRemaining = None, lvAttempts = Some 0\<rparr>, s)
      | (Some st, s) \<Rightarrow>
          if truthy (loLockedUntil st) \<and> now < the (loLockedUntil st) then
            (\<lparr>lvLocked = True, lvRemaining = Some (the (loLockedUntil st) - now),
              lvAttempts = Some (length (loAttempts st))\<rparr>, s)
          else
            let expired = truthy (loLockedUntil st);
                st = (if expired then \<lparr>loAttempts = [], loLockedUntil = None\<rparr> else st);
                s = (if expired then persistState i st s else s);
                st = st\<lparr>loAttempts := recent now cfg (loAttempts st)\<rparr>
            in (\<lparr>lvLocked = False, lvRemaining = None, lvAttempts = Some (length (loAttempts st))\<rparr>,
                persistState i st s))"

definition recordFailedAttempt :: "int \<Rightarrow> string \<Rightarrow> lockout_config \<Rightarrow> lockouts \<Rightarrow> lockout_verdict \<times> lockouts" where
  "recordFailedAttempt now i cfg s =
     (let (found, s) = getState i s;
          st = (case found of Some st \<Rightarrow> st | None \<Rightarrow> \<lparr>loAttempts = [], loLockedUntil = None\<rparr>);
          st = st\<lparr>loAttempts := recent now cfg (loAttempts st) @ [now]\<rparr>
      in if length (loAttempts st) \<ge> maxAttempts cfg then
           (\<lparr>lvLocked = True, lvRemaining = Some (lockoutDurationMs cfg), lvAttempts = None\<rparr>,
            persistState i (st\<lparr>loLockedUntil := Some (now + lockoutDurationMs cfg)\<rparr>) s)
         else
           (\<lparr>lvLocked = False, lvRemaining = None, lvAttempts = None\<rparr>, persistState i st s))"

definition recordSuccess :: "string \<Rightarrow> lockouts \<Rightarrow> lockouts" where
  "recordSuccess i s = deleteLockoutState i (s\<lparr>loCache := js_delete i (loCache s)\<rparr>)"

definition forceUnlock :: "string \<Rightarrow> lockouts \<Rightarrow> lockouts" where
  "forceUnlock i s = deleteLockoutState i (s\<lparr>loCache := js_delete i (loCache s)\<rparr>)"

definition merge_locked :: "(string \<times> int) list \<Rightarrow> lockouts \<Rightarrow> lockouts" where
  "merge_locked rows s =
     foldl (\<lambda>s (i, u). if js_has (loCache s) i then s
              else s\<lparr>loCache := js_set i \<lparr>loAttempts = [], loLockedUntil = Some u\<rparr> (loCache s)\<rparr>) s rows"

definition getLockedIdentifiers :: "int \<Rightarrow> lockouts \<Rightarrow> (string \<times> int \<times> int) list \<times> lockouts" where
  "getLockedIdentifiers now s =
     (let s = merge_locked (loadAllLockedIdentifiers now s) s
      in (concat (map (\<lambda>(i, st). case loLockedUntil st of
                        Some u \<Rightarrow> if u \<noteq> 0 \<and> u > now then [(i, u, u - now)] else []
                      | None \<Rightarrow> []) (loCache s)), s))"

text \<open>What happens to the policy, and a restart of the process, which empties the cache.\<close>

datatype lockout_event =
    Lo_check string lockout_config
  | Lo_failure string lockout_config
  | Lo_success string
  | Lo_unlock string
  | Lo_list
  | Lo_restart

fun lockout_step :: "lockouts \<Rightarrow> int \<times> lockout_event \<Rightarrow> lockouts" where
  "lockout_step s (now, Lo_check i cfg) = snd (checkLockout now i cfg s)"
| "lockout_step s (now, Lo_failure i cfg) = snd (recordFailedAttempt now i cfg s)"
| "lockout_step s (now, Lo_success i) = recordSuccess i s"
| "lockout_step s (now, Lo_unlock i) = forceUnlock i s"
| "lockout_step s (now, Lo_list) = snd (getLockedIdentifiers now s)"
| "lockout_step s (now, Lo_restart) = s\<lparr>loCache := []\<rparr>"


section \<open>A lock holds\<close>

definition locked_to :: "int \<Rightarrow> lockout_state \<Rightarrow> bool" where
  "locked_to u st \<longleftrightarrow> (\<exists>v. loLockedUntil st = Some v \<and> u \<le> v)"

text \<open>With the database up, the lock of \<open>i\<close> is in the table, and in the cache if it has an entry.\<close>

definition lock_kept :: "string \<Rightarrow> int \<Rightarrow> lockouts \<Rightarrow> bool" where
  "lock_kept i u s \<longleftrightarrow>
     loDbUp s \<and> js_map_ok (loRows s) \<and> (\<exists>st. js_get (loRows s) i = Some st \<and> locked_to u st)
   \<and> (\<forall>st. js_get (loCache s) i = Some st \<longrightarrow> locked_to u st)"

lemma getState_locked:
  assumes "lock_kept i u s" "getState i s = (found, t)"
  shows "\<exists>st. found = Some st \<and> locked_to u st"
proof (cases "js_get (loCache s) i")
  case None
  with assms show ?thesis
    by (auto simp: lock_kept_def getState_def loadLockoutState_def simp del: map_of_eq_Some_iff)
next
  case (Some st)
  with assms have "found = Some st" "locked_to u st"
    by (auto simp: lock_kept_def getState_def)
  then show ?thesis by blast
qed

lemma getState_other:
  assumes "lock_kept i u s" "getState j s = (found, t)"
  shows "lock_kept i u t"
  using assms
  by (auto simp: lock_kept_def getState_def loadLockoutState_def simp del: map_of_eq_Some_iff
      split: option.splits if_splits)

lemma persistState_kept:
  assumes "lock_kept i u s" "j = i \<longrightarrow> locked_to u st"
  shows "lock_kept i u (persistState j st s)"
  using assms by (auto simp: lock_kept_def persistState_def saveLockoutState_def)

lemma merge_locked_kept:
  "lock_kept i u s \<Longrightarrow> \<forall>(j, v) \<in> set rows. j = i \<longrightarrow> u \<le> v \<Longrightarrow> lock_kept i u (merge_locked rows s)"
proof (induction rows arbitrary: s)
  case (Cons row rows)
  obtain j v where row: "row = (j, v)" by fastforce
  have "lock_kept i u (if js_has (loCache s) j then s
      else s\<lparr>loCache := js_set j \<lparr>loAttempts = [], loLockedUntil = Some v\<rparr> (loCache s)\<rparr>)"
    using Cons.prems row by (auto simp: lock_kept_def locked_to_def)
  with Cons row show ?case by (simp add: merge_locked_def)
qed (simp add: merge_locked_def)

text \<open>Events that leave the lock of \<open>i\<close> until \<open>u\<close> in force.\<close>

fun respects_lock :: "string \<Rightarrow> int \<Rightarrow> int \<times> lockout_event \<Rightarrow> bool" where
  "respects_lock i u (now, Lo_check j cfg) = (j = i \<longrightarrow> now < u)"
| "respects_lock i u (now, Lo_failure j cfg) = (j = i \<longrightarrow> u \<le> now + lockoutDurationMs cfg)"
| "respects_lock i u (now, Lo_success j) = (j \<noteq> i)"
| "respects_lock i u (now, Lo_unlock j) = (j \<noteq> i)"
| "respects_lock i u (now, Lo_list) = True"
| "respects_lock i u (now, Lo_restart) = True"

lemma check_kept:
  assumes k: "lock_kept i u s" and c: "j = i \<longrightarrow> now < u" and u: "0 < u"
  shows "lock_kept i u (snd (checkLockout now j cfg s))"
proof -
  obtain found t where t: "getState j s = (found, t)" by fastforce
  have kt: "lock_kept i u t" by (rule getState_other [OF k t])
  show ?thesis
  proof (cases "j = i")
    case True
    with getState_locked [OF k] t obtain st v where
      "found = Some st" "loLockedUntil st = Some v" "u \<le> v" by (auto simp: locked_to_def)
    with c u kt t True show ?thesis by (simp add: checkLockout_def)
  next
    case False
    then have "lock_kept i u (persistState j st t')" if "lock_kept i u t'" for st t'
      using that by (auto intro: persistState_kept)
    with kt t show ?thesis
      by (auto simp: checkLockout_def Let_def split: option.splits)
  qed
qed

lemma failure_kept:
  assumes k: "lock_kept i u s" and c: "j = i \<longrightarrow> u \<le> now + lockoutDurationMs cfg"
  shows "lock_kept i u (snd (recordFailedAttempt now j cfg s))"
proof -
  obtain found t where t: "getState j s = (found, t)" by fastforce
  have kt: "lock_kept i u t" by (rule getState_other [OF k t])
  have "\<exists>st. found = Some st \<and> locked_to u st" if "j = i" using getState_locked [OF k] t that by simp
  then show ?thesis
    using kt t c by (auto simp: recordFailedAttempt_def Let_def locked_to_def intro!: persistState_kept)
qed

lemma lock_kept_list:
  assumes k: "lock_kept i u s"
  shows "lock_kept i u (merge_locked (loadAllLockedIdentifiers now s) s)"
proof (rule merge_locked_kept [OF k])
  obtain st where st: "js_get (loRows s) i = Some st" "locked_to u st" and d: "js_map_ok (loRows s)"
    using k by (auto simp: lock_kept_def)
  have "u \<le> v" if "(i, v) \<in> set (loadAllLockedIdentifiers now s)" for v
  proof -
    have "\<exists>st'. (i, st') \<in> set (loRows s) \<and> loLockedUntil st' = Some v"
      using that by (auto simp: loadAllLockedIdentifiers_def split: option.splits if_splits)
    with st(1) map_of_is_SomeI [OF d] have "loLockedUntil st = Some v" by fastforce
    with st(2) show ?thesis by (simp add: locked_to_def)
  qed
  then show "\<forall>(j, v) \<in> set (loadAllLockedIdentifiers now s). j = i \<longrightarrow> u \<le> v" by blast
qed

lemma lockout_step_kept:
  assumes k: "lock_kept i u s" and u: "0 < u" and r: "respects_lock i u ev"
  shows "lock_kept i u (lockout_step s ev)"
proof -
  obtain now e where ev: "ev = (now, e)" by fastforce
  show ?thesis
  proof (cases e)
    case (Lo_check j cfg)
    then show ?thesis using check_kept [OF k _ u] r ev by simp
  next
    case (Lo_failure j cfg)
    then show ?thesis using failure_kept [OF k] r ev by simp
  next
    case (Lo_success j)
    then show ?thesis using k r ev by (auto simp: lock_kept_def recordSuccess_def deleteLockoutState_def)
  next
    case (Lo_unlock j)
    then show ?thesis using k r ev by (auto simp: lock_kept_def forceUnlock_def deleteLockoutState_def)
  next
    case Lo_list
    then show ?thesis using lock_kept_list [OF k] ev by (simp add: getLockedIdentifiers_def Let_def)
  next
    case Lo_restart
    then show ?thesis using k ev by (simp add: lock_kept_def del: map_of_eq_Some_iff)
  qed
qed

interpretation lock_run: step_invariant lockout_step "\<lambda>_. respects_lock i u" "\<lambda>s. 0 < u \<and> lock_kept i u s" for i u
  by unfold_locales (use lockout_step_kept in blast)

text \<open>The failure that trips the limit puts the lock in place.\<close>

lemma lock_taken:
  assumes "recordFailedAttempt now i cfg s = (v, t)" "lvLocked v" "loDbUp s" "js_map_ok (loRows s)"
  shows "lock_kept i (now + lockoutDurationMs cfg) t"
proof -
  obtain found w where w: "getState i s = (found, w)" by fastforce
  then have "loDbUp w" "js_map_ok (loRows w)"
    using assms(3,4) by (auto simp: getState_def split: option.splits)
  then show ?thesis
    using assms(1,2) w
    by (auto simp: recordFailedAttempt_def Let_def persistState_def saveLockoutState_def lock_kept_def
        locked_to_def split: if_splits)
qed


lemma lock_kept_checked:
  assumes "lock_kept i u s" "later < u" "0 < u"
  shows "lvLocked (fst (checkLockout later i cfg s))"
proof -
  obtain found w where w: "getState i s = (found, w)" by fastforce
  with getState_locked [OF assms(1)] obtain st x where "found = Some st" "loLockedUntil st = Some x" "u \<le> x"
    by (auto simp: locked_to_def)
  with w assms(2,3) show ?thesis by (simp add: checkLockout_def)
qed


section \<open>Counting failures\<close>

text \<open>Failures at the given times, the first one on an identifier without any state.\<close>

fun failures :: "int list \<Rightarrow> string \<Rightarrow> lockout_config \<Rightarrow> lockouts \<Rightarrow> lockout_verdict list \<times> lockouts" where
  "failures [] i cfg s = ([], s)"
| "failures (t # ts) i cfg s =
     (let (v, s) = recordFailedAttempt t i cfg s; (vs, s) = failures ts i cfg s in (v # vs, s))"

text \<open>What the policy means to compute: how many of the failures lie in the last window.\<close>

definition failures_in_window :: "int \<Rightarrow> lockout_config \<Rightarrow> int list \<Rightarrow> nat" where
  "failures_in_window now cfg ts = length (filter (\<lambda>t. now - attemptWindowMs cfg < t \<and> t \<le> now) ts)"

definition attempts_of :: "string \<Rightarrow> lockouts \<Rightarrow> int list" where
  "attempts_of i s = (case fst (getState i s) of Some st \<Rightarrow> loAttempts st | None \<Rightarrow> [])"

lemma recordFailedAttempt_attempts:
  assumes "recordFailedAttempt now i cfg s = (v, t)"
  shows "attempts_of i t = recent now cfg (attempts_of i s) @ [now]"
    "lvLocked v \<longleftrightarrow> length (recent now cfg (attempts_of i s) @ [now]) \<ge> maxAttempts cfg"
  using assms
  by (auto simp: recordFailedAttempt_def Let_def attempts_of_def persistState_def saveLockoutState_def
      getState_def recent_def split: prod.splits option.splits if_splits)

lemma failures_snoc:
  "failures (ts @ [t]) i cfg s =
     (let (vs, s) = failures ts i cfg s; (v, s) = recordFailedAttempt t i cfg s in (vs @ [v], s))"
  by (induction ts arbitrary: s) (simp_all add: Let_def split: prod.splits)

lemma failures_attempts:
  assumes "sorted ts" "ts \<noteq> []" "0 < attemptWindowMs cfg" "attempts_of i s = []"
  shows "attempts_of i (snd (failures ts i cfg s)) = filter (\<lambda>t. last ts - attemptWindowMs cfg < t) ts"
  using assms
proof (induction ts rule: rev_induct)
  case (snoc t ts)
  obtain vs u where u: "failures ts i cfg s = (vs, u)" by fastforce
  obtain v w where w: "recordFailedAttempt t i cfg u = (v, w)" by fastforce
  have "attempts_of i u = (if ts = [] then [] else filter (\<lambda>t. last ts - attemptWindowMs cfg < t) ts)"
    using snoc u by (auto simp: sorted_append)
  moreover have "last ts \<le> t" if "ts \<noteq> []" using snoc.prems(1) that by (auto simp: sorted_append)
  ultimately have "recent t cfg (attempts_of i u) = filter (\<lambda>x. t - attemptWindowMs cfg < x) ts"
    by (auto simp: recent_def filter_filter intro!: filter_cong)
  then show ?case
    using recordFailedAttempt_attempts(1) [OF w] snoc.prems(3) u w
    by (simp add: failures_snoc)
qed simp


section \<open>Properties\<close>

definition fresh_lockouts :: lockouts where
  "fresh_lockouts = \<lparr>loCache = [], loRows = [], loDbUp = True\<rparr>"

text \<open>Five failures within the window of the default configuration.\<close>

definition five_failures :: "int list" where
  "five_failures = [1000, 2000, 3000, 4000, 5000]"

lemma five_failures_lock:
  "recordFailedAttempt 5000 ''u'' DEFAULT_CONFIG (snd (failures [1000, 2000, 3000, 4000] ''u'' DEFAULT_CONFIG fresh_lockouts))
     = (\<lparr>lvLocked = True, lvRemaining = Some 900000, lvAttempts = None\<rparr>,
        \<lparr>loCache = [(''u'', \<lparr>loAttempts = five_failures, loLockedUntil = Some 905000\<rparr>)],
         loRows = [(''u'', \<lparr>loAttempts = five_failures, loLockedUntil = Some 905000\<rparr>)], loDbUp = True\<rparr>)"
  by (simp add: recordFailedAttempt_def getState_def loadLockoutState_def persistState_def saveLockoutState_def
      recent_def DEFAULT_CONFIG_def fresh_lockouts_def five_failures_def Let_def)

text \<open>
  An identifier without history that fails at the given times, in order, is locked by the last
  failure exactly when the number of failures inside the window that ends there has reached the
  limit: pruning the list on every call counts the same as a sliding window over the whole history.
\<close>

lemma failures_counted:
  assumes "sorted ts" "ts \<noteq> []" "0 < attemptWindowMs cfg" "attempts_of i s = []"
  shows "lvLocked (last (fst (failures ts i cfg s))) \<longleftrightarrow> failures_in_window (last ts) cfg ts \<ge> maxAttempts cfg"
proof -
  obtain ts' t where ts: "ts = ts' @ [t]" using assms(2) by (metis append_butlast_last_id)
  obtain vs u where u: "failures ts' i cfg s = (vs, u)" by fastforce
  obtain v w where w: "recordFailedAttempt t i cfg u = (v, w)" by fastforce
  have "lvLocked v \<longleftrightarrow> maxAttempts cfg \<le> length (attempts_of i w)"
    using recordFailedAttempt_attempts [OF w] by simp
  moreover have "w = snd (failures ts i cfg s)" "v = last (fst (failures ts i cfg s))"
    by (simp_all add: ts failures_snoc u w)
  moreover have "filter (\<lambda>x. last ts - attemptWindowMs cfg < x) ts
      = filter (\<lambda>x. last ts - attemptWindowMs cfg < x \<and> x \<le> last ts) ts"
    using assms(1) by (intro filter_cong) (auto simp: ts sorted_append)
  ultimately show ?thesis using failures_attempts [OF assms] by (simp add: failures_in_window_def)
qed

text \<open>
  C11: once a failure has locked an identifier, every check until the lock expires reports it
  locked, whatever else happens in between: checks and failures (under a duration that does not
  shorten the lock), listings, other identifiers, and restarts that lose the cache. Only a success
  or an administrator of this very identifier lifts it. The database is up throughout.
\<close>

theorem lock_holds:
  assumes locks: "recordFailedAttempt now i cfg s = (v, t)" "lvLocked v"
    and db: "loDbUp s" "js_map_ok (loRows s)"
    and u: "u = now + lockoutDurationMs cfg" "0 < u"
    and evs: "\<forall>ev \<in> set evs. respects_lock i u ev"
    and later: "later < u"
  shows "lvLocked (fst (checkLockout later i cfg' (foldl lockout_step t evs)))"
proof -
  let ?s = "foldl lockout_step t evs"
  have "0 < u \<and> lock_kept i u t" using lock_taken [OF locks db] u by simp
  then have k: "lock_kept i u ?s" using lock_run.run_always_good [of u i t evs] evs by blast
  from lock_kept_checked [OF k later] u show ?thesis by simp
qed

theorem lock_holds_witness:
  "lvLocked (fst (checkLockout 904999 ''u'' DEFAULT_CONFIG
     (foldl lockout_step
        \<lparr>loCache = [(''u'', \<lparr>loAttempts = five_failures, loLockedUntil = Some 905000\<rparr>)],
         loRows = [(''u'', \<lparr>loAttempts = five_failures, loLockedUntil = Some 905000\<rparr>)], loDbUp = True\<rparr>
        [(6000, Lo_restart), (7000, Lo_list), (8000, Lo_success ''v''), (400000, Lo_failure ''u'' DEFAULT_CONFIG)])))"
  by (rule lock_holds [OF five_failures_lock, of 905000])
    (simp_all add: DEFAULT_CONFIG_def fresh_lockouts_def recordFailedAttempt_def getState_def
      loadLockoutState_def persistState_def saveLockoutState_def recent_def Let_def)

text \<open>
  A failure recorded while the identifier is locked, after the attempts that locked it have
  left the window, is reported as not locked, although a check at the same instant says it is.
\<close>

lemma failure_in_lock_reports_unlocked:
  assumes st: "getState i s = (Some st, s')" "loLockedUntil st = Some u" "u \<noteq> 0" "now < u"
    and few: "length (recent now cfg (loAttempts st)) + 1 < maxAttempts cfg"
  shows "\<not> lvLocked (fst (recordFailedAttempt now i cfg s))
    \<and> lvLocked (fst (checkLockout now i cfg' (snd (recordFailedAttempt now i cfg s))))"
  using assms
  by (auto simp: recordFailedAttempt_def checkLockout_def Let_def persistState_def saveLockoutState_def
      getState_def split: option.splits)

end
