(* ===== verification/Fallback_Policy.thy ===== *)
theory Fallback_Policy
  imports Prelude
begin

text \<open>
  The declarative fallback chains of \<open>src/domain/fallbackPolicy.ts\<close>, with the rows they keep
  through \<open>src/lib/db/domainState.ts\<close>: per model a list of providers, sorted by priority when
  it is registered, read back with the providers already tried left out. \<open>fbDbUp\<close> says whether
  a database call succeeds or throws (every throw is caught). The JSON column is the list itself.
\<close>


section \<open>State and operations\<close>

record FallbackEntry =
  feProvider :: string
  fePriority :: int
  feEnabled :: bool

text \<open>An entry as a caller passes it: priority and enabled are optional.\<close>

record chain_entry =
  ceProvider :: string
  cePriority :: "int option"
  ceEnabled :: "bool option"

record fallbacks =
  fbChains :: "(string, FallbackEntry list) js_map"
  fbLoaded :: bool
  fbRows :: "(string, FallbackEntry list) js_map"
  fbDbUp :: bool

definition loadAllFallbackChains :: "fallbacks \<Rightarrow> (string \<times> FallbackEntry list) list" where
  "loadAllFallbackChains s = (if fbDbUp s then filter (\<lambda>(m, _). m \<noteq> []) (fbRows s) else [])"

definition saveFallbackChain :: "string \<Rightarrow> FallbackEntry list \<Rightarrow> fallbacks \<Rightarrow> fallbacks" where
  "saveFallbackChain m c s = (if fbDbUp s then s\<lparr>fbRows := js_set m c (fbRows s)\<rparr> else s)"

definition deleteFallbackChain :: "string \<Rightarrow> fallbacks \<Rightarrow> fallbacks" where
  "deleteFallbackChain m s = (if fbDbUp s then s\<lparr>fbRows := js_delete m (fbRows s)\<rparr> else s)"

definition deleteAllFallbackChains :: "fallbacks \<Rightarrow> fallbacks" where
  "deleteAllFallbackChains s = (if fbDbUp s then s\<lparr>fbRows := []\<rparr> else s)"

definition ensureLoaded :: "fallbacks \<Rightarrow> fallbacks" where
  "ensureLoaded s =
     (if fbLoaded s then s
      else s\<lparr>fbChains := foldl (\<lambda>cs (m, c). js_set m c cs) (fbChains s) (loadAllFallbackChains s),
             fbLoaded := True\<rparr>)"

definition fallback_entry :: "chain_entry \<Rightarrow> FallbackEntry" where
  "fallback_entry e =
     \<lparr>feProvider = ceProvider e,
      fePriority = (case cePriority e of Some p \<Rightarrow> p | None \<Rightarrow> 0),
      feEnabled = (case ceEnabled e of Some b \<Rightarrow> b | None \<Rightarrow> True)\<rparr>"

definition registerFallback :: "string \<Rightarrow> chain_entry list \<Rightarrow> fallbacks \<Rightarrow> fallbacks" where
  "registerFallback m chain s =
     (let s = ensureLoaded s;
          sorted = sort_key fePriority (map fallback_entry chain)
      in saveFallbackChain m sorted (s\<lparr>fbChains := js_set m sorted (fbChains s)\<rparr>))"

definition resolveFallbackChain :: "string \<Rightarrow> string list \<Rightarrow> fallbacks \<Rightarrow> FallbackEntry list \<times> fallbacks" where
  "resolveFallbackChain m exclude s =
     (let s = ensureLoaded s in
      case js_get (fbChains s) m of
        None \<Rightarrow> ([], s)
      | Some chain \<Rightarrow> (filter (\<lambda>e. feEnabled e \<and> feProvider e \<notin> set exclude) chain, s))"

definition getNextFallback :: "string \<Rightarrow> string list \<Rightarrow> fallbacks \<Rightarrow> string option \<times> fallbacks" where
  "getNextFallback m exclude s =
     (case resolveFallbackChain m exclude s of
        ([], s) \<Rightarrow> (None, s)
      | (e # _, s) \<Rightarrow> (Some (feProvider e), s))"

definition hasFallback :: "string \<Rightarrow> fallbacks \<Rightarrow> bool \<times> fallbacks" where
  "hasFallback m s =
     (let s = ensureLoaded s in
      case js_get (fbChains s) m of
        None \<Rightarrow> (False, s)
      | Some chain \<Rightarrow> (list_ex feEnabled chain, s))"

definition removeFallback :: "string \<Rightarrow> fallbacks \<Rightarrow> bool \<times> fallbacks" where
  "removeFallback m s =
     (let s = ensureLoaded s; removed = js_has (fbChains s) m;
          s = s\<lparr>fbChains := js_delete m (fbChains s)\<rparr>
      in (removed, if removed then deleteFallbackChain m s else s))"

definition getAllFallbackChains :: "fallbacks \<Rightarrow> (string, FallbackEntry list) js_map \<times> fallbacks" where
  "getAllFallbackChains s = (let s = ensureLoaded s in (fbChains s, s))"

definition resetAllFallbacks :: "fallbacks \<Rightarrow> fallbacks" where
  "resetAllFallbacks s = deleteAllFallbackChains (s\<lparr>fbChains := [], fbLoaded := False\<rparr>)"


section \<open>Walking a chain\<close>

text \<open>What a caller does that excludes every provider it has tried, at most \<open>n\<close> times.\<close>

fun walk :: "nat \<Rightarrow> string \<Rightarrow> string list \<Rightarrow> fallbacks \<Rightarrow> string list" where
  "walk 0 m tried s = []"
| "walk (Suc n) m tried s =
     (case getNextFallback m tried s of
        (None, s) \<Rightarrow> []
      | (Some p, s) \<Rightarrow> p # walk n m (p # tried) s)"

definition keep_first :: "'a list \<Rightarrow> 'a list" where
  "keep_first xs = rev (remdups (rev xs))"

lemma remdups_snoc: "remdups (xs @ [x]) = remdups (filter (\<lambda>y. y \<noteq> x) xs) @ [x]"
  by (induction xs) auto

lemma keep_first_Cons: "keep_first (x # xs) = x # keep_first (filter (\<lambda>y. y \<noteq> x) xs)"
  by (simp add: keep_first_def remdups_snoc rev_filter)

lemma keep_first_Nil [simp]: "keep_first [] = []"
  by (simp add: keep_first_def)

lemma ensureLoaded_idem [simp]: "ensureLoaded (ensureLoaded s) = ensureLoaded s"
  by (simp add: ensureLoaded_def)

lemma resolve_state [simp]: "snd (resolveFallbackChain m ex s) = ensureLoaded s"
  by (simp add: resolveFallbackChain_def Let_def split: option.splits)

definition offered :: "string \<Rightarrow> string list \<Rightarrow> fallbacks \<Rightarrow> string list" where
  "offered m ex s = map feProvider (fst (resolveFallbackChain m ex s))"

lemma getNextFallback_offered:
  "getNextFallback m ex s = (case offered m ex s of [] \<Rightarrow> None | p # _ \<Rightarrow> Some p, ensureLoaded s)"
  using resolve_state [of m ex s]
  by (cases "resolveFallbackChain m ex s") (simp add: getNextFallback_def offered_def split: list.split)

lemma offered_loaded [simp]: "offered m ex (ensureLoaded s) = offered m ex s"
  by (simp add: offered_def resolveFallbackChain_def)

lemma offered_exclude: "offered m (p # ex) s = filter (\<lambda>q. q \<noteq> p) (offered m ex s)"
  by (auto simp: offered_def resolveFallbackChain_def Let_def filter_map o_def
      intro!: arg_cong [of _ _ "map feProvider"] filter_cong split: option.splits)

lemma walk_offered:
  "length (offered m tried s) \<le> n \<Longrightarrow> walk n m tried s = keep_first (offered m tried s)"
proof (induction n arbitrary: tried s)
  case (Suc n)
  show ?case
  proof (cases "offered m tried s")
    case (Cons p ps)
    have "length (filter (\<lambda>q. q \<noteq> p) ps) \<le> n"
      using Suc.prems Cons by (metis Suc_le_mono length_Cons length_filter_le order_trans)
    then show ?thesis
      using Suc.IH [of "p # tried" "ensureLoaded s"] Cons
      by (simp add: getNextFallback_offered offered_exclude keep_first_Cons)
  qed (simp add: getNextFallback_offered)
qed simp

definition demo_chain :: "chain_entry list" where
  "demo_chain =
     [\<lparr>ceProvider = ''b'', cePriority = Some 2, ceEnabled = None\<rparr>,
      \<lparr>ceProvider = ''a'', cePriority = None, ceEnabled = Some True\<rparr>,
      \<lparr>ceProvider = ''c'', cePriority = Some 1, ceEnabled = Some False\<rparr>,
      \<lparr>ceProvider = ''a'', cePriority = Some 3, ceEnabled = None\<rparr>]"

text \<open>
  C14: after a chain has been registered for a model, asking for the next fallback and excluding
  every answer offers each enabled provider of the chain once, in order of priority (entries of
  equal priority in the order they were registered), and then ends: as many calls as the chain is
  long are enough.
\<close>

theorem fallback_walk:
  assumes "length chain \<le> n"
  shows "walk n m [] (registerFallback m chain s)
    = keep_first (map feProvider (filter feEnabled (sort_key fePriority (map fallback_entry chain))))"
proof -
  have "js_get (fbChains (ensureLoaded (registerFallback m chain s))) m
      = Some (sort_key fePriority (map fallback_entry chain))"
    by (simp add: registerFallback_def saveFallbackChain_def ensureLoaded_def Let_def)
  then have o: "offered m [] (registerFallback m chain s)
      = map feProvider (filter feEnabled (sort_key fePriority (map fallback_entry chain)))"
    by (simp add: offered_def resolveFallbackChain_def Let_def)
  have "length (offered m [] (registerFallback m chain s)) \<le> n"
    unfolding o using assms length_filter_le [of feEnabled "sort_key fePriority (map fallback_entry chain)"]
    by (simp add: le_trans)
  from walk_offered [OF this] show ?thesis by (simp add: o)
qed

theorem fallback_walk_witness:
  "walk 4 ''m'' [] (registerFallback ''m'' demo_chain
      \<lparr>fbChains = [], fbLoaded = False, fbRows = [], fbDbUp = True\<rparr>) = [''a'', ''b'']"
  using fallback_walk [of demo_chain 4 "''m''"]
  by (simp add: demo_chain_def fallback_entry_def keep_first_def)

end
