(* ===== verification/Fair_Share.thy ===== *)
theory Fair_Share
  imports Prelude
begin

text \<open>
  Quota sharing: the dimensions of \<open>src/lib/quota/dimensions.ts\<close>, the fair-share decision of
  \<open>src/lib/quota/fairShare.ts\<close> and the burn-rate estimators of \<open>src/lib/quota/burnRate.ts\<close>.
  Amounts are rationals. A policy read from the database may hold any string, so unknown values
  are a constructor of their own.
\<close>


section \<open>Dimensions\<close>

datatype QuotaUnit = Percent | Requests | Tokens | Usd

datatype QuotaWindow = Window_5h | Hourly | Daily | Weekly | Monthly

datatype Policy = Hard | Soft | Burst | Unknown_policy string

fun unit_string :: "QuotaUnit \<Rightarrow> string" where
  "unit_string Percent = ''percent''"
| "unit_string Requests = ''requests''"
| "unit_string Tokens = ''tokens''"
| "unit_string Usd = ''usd''"

fun window_string :: "QuotaWindow \<Rightarrow> string" where
  "window_string Window_5h = ''5h''"
| "window_string Hourly = ''hourly''"
| "window_string Daily = ''daily''"
| "window_string Weekly = ''weekly''"
| "window_string Monthly = ''monthly''"

fun WINDOW_MS :: "QuotaWindow \<Rightarrow> int" where
  "WINDOW_MS Hourly = 60 * 60 * 1000"
| "WINDOW_MS Window_5h = 5 * 60 * 60 * 1000"
| "WINDOW_MS Daily = 24 * 60 * 60 * 1000"
| "WINDOW_MS Weekly = 7 * 24 * 60 * 60 * 1000"
| "WINDOW_MS Monthly = 30 * 24 * 60 * 60 * 1000"

record DimensionKey =
  dkPool :: string
  dkUnit :: QuotaUnit
  dkWindow :: QuotaWindow

definition dimensionKeyToString :: "DimensionKey \<Rightarrow> string" where
  "dimensionKeyToString k = dkPool k @ '':'' @ unit_string (dkUnit k) @ '':'' @ window_string (dkWindow k)"


section \<open>The decision\<close>

record FairShareDimension =
  fdKey :: DimensionKey
  fdLimit :: rat
  fdConsumedTotal :: rat
  fdUsedPercent :: rat

record FairShareAllocation =
  faWeight :: rat
  faCapValue :: "rat option"
  faCapUnit :: "QuotaUnit option"
  faPolicy :: Policy

record FairShareInput =
  fiDimensions :: "FairShareDimension list"
  fiAllocation :: FairShareAllocation
  fiConsumed :: "(string, rat) js_map"
  fiThreshold :: rat

datatype block_reason = Fair_share | Cap_absolute | Global_saturated

datatype FairShareDecision = Allow bool | Block block_reason

definition dimensionKeyString :: "DimensionKey \<Rightarrow> string" where
  "dimensionKeyString k = dkPool k @ '':'' @ unit_string (dkUnit k) @ '':'' @ window_string (dkWindow k)"

fun normalizePolicy :: "Policy \<Rightarrow> Policy" where
  "normalizePolicy (Unknown_policy _) = Hard"
| "normalizePolicy p = p"

definition consumed_of :: "(string, rat) js_map \<Rightarrow> FairShareDimension \<Rightarrow> rat" where
  "consumed_of m d = (case js_get m (dimensionKeyString (fdKey d)) of Some c \<Rightarrow> c | None \<Rightarrow> 0)"

definition fair_share_of :: "FairShareAllocation \<Rightarrow> FairShareDimension \<Rightarrow> rat" where
  "fair_share_of a d = (faWeight a / 100) * fdLimit d"

text \<open>The loop over the dimensions, with \<open>anyPenalized\<close>.\<close>

fun decide_dimensions ::
  "FairShareAllocation \<Rightarrow> (string, rat) js_map \<Rightarrow> rat \<Rightarrow> FairShareDimension list \<Rightarrow> bool \<Rightarrow> FairShareDecision" where
  "decide_dimensions a m thr [] pen = Allow pen"
| "decide_dimensions a m thr (d # ds) pen =
     (let consumed = consumed_of m d; share = fair_share_of a d; policy = normalizePolicy (faPolicy a) in
      if (case faCapValue a of Some c \<Rightarrow> faCapUnit a = Some (dkUnit (fdKey d)) \<and> consumed \<ge> c | None \<Rightarrow> False)
      then Block Cap_absolute
      else if fdConsumedTotal d \<ge> fdLimit d then Block Global_saturated
      else if fdUsedPercent d \<ge> thr then
        (case policy of
           Soft \<Rightarrow> decide_dimensions a m thr ds (pen \<or> consumed \<ge> share)
         | Burst \<Rightarrow> decide_dimensions a m thr ds pen
         | _ \<Rightarrow> if consumed \<ge> share then Block Fair_share else decide_dimensions a m thr ds pen)
      else
        (case policy of
           Soft \<Rightarrow> decide_dimensions a m thr ds (pen \<or> consumed \<ge> share)
         | Burst \<Rightarrow> decide_dimensions a m thr ds pen
         | _ \<Rightarrow> if consumed \<ge> fdLimit d then Block Global_saturated
                else decide_dimensions a m thr ds pen))"

definition decideFairShare :: "FairShareInput \<Rightarrow> FairShareDecision" where
  "decideFairShare i =
     (if fiDimensions i = [] then Allow False
      else decide_dimensions (fiAllocation i) (fiConsumed i) (fiThreshold i) (fiDimensions i) False)"


section \<open>Burn rate\<close>

record BurnRateSample =
  brTs :: rat
  brConsumed :: rat

record BurnRateResult =
  tokensPerSecond :: rat
  timeToExhaustionMs :: "rat option"

definition EMA_ALPHA :: rat where
  "EMA_ALPHA = 3 / 10"

definition exhaustion :: "rat \<Rightarrow> rat option \<Rightarrow> rat option" where
  "exhaustion rate remaining =
     (case remaining of
        Some r \<Rightarrow> if rate > 0 \<and> r \<ge> 0 then Some ((r / rate) * 1000) else None
      | None \<Rightarrow> None)"

definition computeBurnRateFromWindow :: "int \<Rightarrow> rat \<Rightarrow> int \<Rightarrow> rat option \<Rightarrow> BurnRateResult" where
  "computeBurnRateFromWindow now consumedTotal windowMs remaining =
     (if consumedTotal \<le> 0 \<or> windowMs \<le> 0 then \<lparr>tokensPerSecond = 0, timeToExhaustionMs = None\<rparr>
      else
        let windowStart = (now div windowMs) * windowMs;
            elapsed = max 1 (now - windowStart);
            rate = consumedTotal / (of_int elapsed / 1000)
        in \<lparr>tokensPerSecond = rate, timeToExhaustionMs = exhaustion rate remaining\<rparr>)"

text \<open>The moving average over the consecutive pairs; \<open>None\<close> until the first usable pair.\<close>

definition instant_rate :: "BurnRateSample \<Rightarrow> BurnRateSample \<Rightarrow> rat" where
  "instant_rate a b = (brConsumed b - brConsumed a) / ((brTs b - brTs a) / 1000)"

fun ema_rate :: "BurnRateSample list \<Rightarrow> rat option \<Rightarrow> rat option" where
  "ema_rate (a # b # h) ema =
     (if brTs b - brTs a \<le> 0 then ema_rate (b # h) ema
      else ema_rate (b # h)
        (Some (case ema of
                 None \<Rightarrow> instant_rate a b
               | Some e \<Rightarrow> EMA_ALPHA * instant_rate a b + (1 - EMA_ALPHA) * e)))"
| "ema_rate h ema = ema"

definition computeBurnRate :: "BurnRateSample list \<Rightarrow> rat option \<Rightarrow> BurnRateResult" where
  "computeBurnRate history remaining =
     (if length history < 2 then \<lparr>tokensPerSecond = 0, timeToExhaustionMs = None\<rparr>
      else (case ema_rate history None of
              None \<Rightarrow> \<lparr>tokensPerSecond = 0, timeToExhaustionMs = None\<rparr>
            | Some e \<Rightarrow>
                let rate = max 0 e
                in \<lparr>tokensPerSecond = rate, timeToExhaustionMs = exhaustion rate remaining\<rparr>))"


section \<open>Lemmas\<close>

text \<open>What each dimension has to satisfy, and when it penalises, without the loop.\<close>

definition cap_hit :: "FairShareAllocation \<Rightarrow> (string, rat) js_map \<Rightarrow> FairShareDimension \<Rightarrow> bool" where
  "cap_hit a m d \<longleftrightarrow>
     (\<exists>c. faCapValue a = Some c \<and> faCapUnit a = Some (dkUnit (fdKey d)) \<and> consumed_of m d \<ge> c)"

definition is_hard :: "Policy \<Rightarrow> bool" where
  "is_hard p \<longleftrightarrow> p \<noteq> Soft \<and> p \<noteq> Burst"

definition dimension_allows :: "FairShareAllocation \<Rightarrow> (string, rat) js_map \<Rightarrow> rat \<Rightarrow> FairShareDimension \<Rightarrow> bool" where
  "dimension_allows a m thr d \<longleftrightarrow>
     \<not> cap_hit a m d \<and> fdConsumedTotal d < fdLimit d
   \<and> (is_hard (faPolicy a) \<longrightarrow>
        consumed_of m d < (if fdUsedPercent d \<ge> thr then fair_share_of a d else fdLimit d))"

lemma is_hard_normalize: "is_hard p \<longleftrightarrow> normalizePolicy p = Hard"
  by (cases p) (auto simp: is_hard_def)

lemma decide_dimensions_eq:
  "decide_dimensions a m thr ds pen = Allow b \<longleftrightarrow>
     (\<forall>d \<in> set ds. dimension_allows a m thr d)
   \<and> (b \<longleftrightarrow> pen \<or> faPolicy a = Soft \<and> (\<exists>d \<in> set ds. consumed_of m d \<ge> fair_share_of a d))"
proof (induction ds arbitrary: pen)
  case (Cons d ds)
  have cap: "(case faCapValue a of Some c \<Rightarrow> faCapUnit a = Some (dkUnit (fdKey d)) \<and> consumed_of m d \<ge> c
      | None \<Rightarrow> False) \<longleftrightarrow> cap_hit a m d"
    by (auto simp: cap_hit_def split: option.splits)
  show ?case
    using Cons.IH
    by (cases "faPolicy a")
      (auto simp: Let_def cap dimension_allows_def is_hard_def not_le not_less)
qed auto

lemma ema_rate_within:
  assumes "\<And>x y. (x, y) \<in> set (zip h (tl h)) \<Longrightarrow> brTs x < brTs y \<Longrightarrow> lo \<le> instant_rate x y \<and> instant_rate x y \<le> hi"
    "\<And>e. ema = Some e \<Longrightarrow> lo \<le> e \<and> e \<le> hi" "ema_rate h ema = Some r"
  shows "lo \<le> r \<and> r \<le> hi"
  using assms
proof (induction h ema rule: ema_rate.induct)
  case (1 a b h ema)
  have rest: "\<And>x y. (x, y) \<in> set (zip (b # h) (tl (b # h))) \<Longrightarrow> brTs x < brTs y \<Longrightarrow>
      lo \<le> instant_rate x y \<and> instant_rate x y \<le> hi"
    using "1.prems"(1) by (cases h) auto
  show ?case
  proof (cases "brTs b - brTs a \<le> 0")
    case True
    with "1.IH"(1) [OF True rest] "1.prems"(2,3) show ?thesis by simp
  next
    case False
    then have ab: "lo \<le> instant_rate a b \<and> instant_rate a b \<le> hi" using "1.prems"(1) [of a b] by simp
    let ?e = "case ema of None \<Rightarrow> instant_rate a b | Some e \<Rightarrow> EMA_ALPHA * instant_rate a b + (1 - EMA_ALPHA) * e"
    have "lo \<le> ?e \<and> ?e \<le> hi"
    proof (cases ema)
      case (Some e)
      with "1.prems"(2) ab show ?thesis by (simp add: EMA_ALPHA_def)
    qed (use ab in simp)
    with "1.IH"(2) [OF False rest] "1.prems"(3) False show ?thesis by auto
  qed
qed simp_all

lemma ema_rate_usable:
  "ema \<noteq> None \<or> (\<exists>(x, y) \<in> set (zip h (tl h)). brTs x < brTs y) \<Longrightarrow> ema_rate h ema \<noteq> None"
proof (induction h ema rule: ema_rate.induct)
  case (1 a b h ema)
  show ?case
  proof (cases "brTs b - brTs a \<le> 0")
    case True
    with 1(1) [OF True] 1(3) show ?thesis by (cases h) auto
  next
    case False
    with 1(2) [OF False] show ?thesis by simp
  qed
qed auto

lemma strict_hard_consumed:
  assumes "decideFairShare i = Allow b" "d \<in> set (fiDimensions i)"
    and "is_hard (faPolicy (fiAllocation i))" "fiThreshold i \<le> fdUsedPercent d"
  shows "consumed_of (fiConsumed i) d < fair_share_of (fiAllocation i) d"
proof -
  have "decide_dimensions (fiAllocation i) (fiConsumed i) (fiThreshold i) (fiDimensions i) False = Allow b"
    using assms(1,2) by (auto simp: decideFairShare_def split: if_splits)
  with assms(2-4) show ?thesis
    by (auto simp: decide_dimensions_eq dimension_allows_def)
qed


section \<open>Properties\<close>

definition sample_dimension :: FairShareDimension where
  "sample_dimension =
     \<lparr>fdKey = \<lparr>dkPool = ''p'', dkUnit = Tokens, dkWindow = Daily\<rparr>, fdLimit = 1000, fdConsumedTotal = 900,
      fdUsedPercent = 9 / 10\<rparr>"

definition sample_input :: "Policy \<Rightarrow> rat \<Rightarrow> rat \<Rightarrow> FairShareInput" where
  "sample_input p w c =
     \<lparr>fiDimensions = [sample_dimension],
      fiAllocation = \<lparr>faWeight = w, faCapValue = None, faCapUnit = None, faPolicy = p\<rparr>,
      fiConsumed = [(''p:tokens:daily'', c)], fiThreshold = 1 / 2\<rparr>"

lemmas sample_defs =
  sample_input_def sample_dimension_def fair_share_of_def consumed_of_def dimensionKeyString_def
  dimension_allows_def cap_hit_def is_hard_def

text \<open>
  The decision over all dimensions, without the order of evaluation. A request is allowed
  exactly when, in every dimension, the key is under its absolute cap, the pool is under its
  limit, and a hard policy (or any value that is no known policy) is under its fair share when the
  pool is saturated and under the pool's limit otherwise; it is penalised exactly when a soft
  policy is over its fair share in some dimension.
\<close>

lemma fair_share_decision:
  "decideFairShare i = Allow pen \<longleftrightarrow>
     (\<forall>d \<in> set (fiDimensions i). dimension_allows (fiAllocation i) (fiConsumed i) (fiThreshold i) d)
   \<and> (pen \<longleftrightarrow> faPolicy (fiAllocation i) = Soft
        \<and> (\<exists>d \<in> set (fiDimensions i). consumed_of (fiConsumed i) d \<ge> fair_share_of (fiAllocation i) d))"
  by (auto simp: decideFairShare_def decide_dimensions_eq)

text \<open>
  C13: when a pool is saturated in a dimension, keys under a hard policy whose weights add up to at
  most 100 percent and who are all still allowed have together consumed less than the pool's
  limit: no combination of allowed keys oversubscribes it.
\<close>

theorem hard_keys_within_limit:
  assumes keys: "is \<noteq> []" "\<forall>i \<in> set is. \<exists>pen. decideFairShare i = Allow pen"
    and hard: "\<forall>i \<in> set is. is_hard (faPolicy (fiAllocation i)) \<and> d \<in> set (fiDimensions i)
        \<and> fiThreshold i \<le> fdUsedPercent d"
    and weights: "(\<Sum>i\<leftarrow>is. faWeight (fiAllocation i)) \<le> 100" and limit: "0 \<le> fdLimit d"
  shows "(\<Sum>i\<leftarrow>is. consumed_of (fiConsumed i) d) < fdLimit d"
proof -
  have "consumed_of (fiConsumed i) d < fair_share_of (fiAllocation i) d" if "i \<in> set is" for i
    using that keys(2) hard strict_hard_consumed by blast
  then have "(\<Sum>i\<leftarrow>is. consumed_of (fiConsumed i) d) < (\<Sum>i\<leftarrow>is. fair_share_of (fiAllocation i) d)"
    using keys(1)
  proof (induction "is")
    case (Cons i js)
    show ?case
    proof (cases "js = []")
      case False
      then have "(\<Sum>i\<leftarrow>js. consumed_of (fiConsumed i) d) < (\<Sum>i\<leftarrow>js. fair_share_of (fiAllocation i) d)"
        using Cons by simp
      with Cons.prems(1) [of i] show ?thesis by simp
    qed (use Cons.prems(1) [of i] in simp)
  qed simp
  also have "(\<Sum>i\<leftarrow>is. fair_share_of (fiAllocation i) d) = (\<Sum>i\<leftarrow>is. faWeight (fiAllocation i)) / 100 * fdLimit d"
    by (induction "is") (simp_all add: fair_share_of_def algebra_simps add_divide_distrib)
  also have "\<dots> \<le> 1 * fdLimit d" using weights limit by (intro mult_right_mono) simp_all
  finally show ?thesis by simp
qed

theorem hard_keys_within_limit_witness:
  "(\<Sum>i\<leftarrow>[sample_input Hard 60 500, sample_input Hard 40 300]. consumed_of (fiConsumed i) sample_dimension) < 1000"
proof -
  let ?is = "[sample_input Hard 60 500, sample_input Hard 40 300]"
  have "\<forall>i \<in> set ?is. decideFairShare i = Allow False"
    by (simp add: decideFairShare_def decide_dimensions_eq sample_defs)
  then show ?thesis
    using hard_keys_within_limit [of ?is sample_dimension] by (auto simp: sample_defs)
qed

text \<open>
  The smoothed burn rate stays between the slowest and the fastest rate seen between two
  consecutive samples, and the projected time to exhaustion stays between the times those two
  rates give.
\<close>

lemma burn_rate_within:
  assumes rates: "\<And>x y. (x, y) \<in> set (zip h (tl h)) \<Longrightarrow> brTs x < brTs y \<Longrightarrow>
      lo \<le> instant_rate x y \<and> instant_rate x y \<le> hi"
    and usable: "\<exists>(x, y) \<in> set (zip h (tl h)). brTs x < brTs y"
    and lo: "0 < lo" and r: "0 \<le> remaining"
  shows "\<exists>t. computeBurnRate h (Some remaining) = \<lparr>tokensPerSecond = t,
        timeToExhaustionMs = Some (remaining / t * 1000)\<rparr>
      \<and> lo \<le> t \<and> t \<le> hi \<and> remaining / hi \<le> remaining / t \<and> remaining / t \<le> remaining / lo"
proof -
  have two: "\<not> length h < 2" using usable by (cases h rule: remdups_adj.cases) auto
  obtain e where e: "ema_rate h None = Some e" using ema_rate_usable [of None h] usable by auto
  have in_range: "lo \<le> e \<and> e \<le> hi" by (rule ema_rate_within [OF rates _ e]) simp_all
  then have "max 0 e = e" "0 < e" using lo by simp_all
  moreover have "remaining / hi \<le> remaining / e" "remaining / e \<le> remaining / lo"
    using in_range lo r by (simp_all add: divide_left_mono)
  ultimately show ?thesis
    using two e in_range r by (simp add: computeBurnRate_def exhaustion_def Let_def)
qed

end
