(* ===== verification/Account_Buckets.thy ===== *)
theory Account_Buckets
  imports Prelude
begin

text \<open>
  The saturating quota windows of \<open>src/lib/quota/accountBuckets.ts\<close>: one bucket per connection
  and window, cleared lazily when a read finds its reset time passed. \<open>Date.parse\<close> is the
  parameter \<open>date_parse\<close> (\<open>None\<close> for an invalid date).
\<close>


section \<open>State and operations\<close>

record BucketEntry =
  beSaturated :: bool
  beResetsAt :: int

record UsageQuotaSlim =
  uqUsed :: js_value
  uqResetAt :: "string option"

type_synonym bucket_store = "(string, BucketEntry) js_map"

definition SATURATION_THRESHOLD_PCT :: rat where
  "SATURATION_THRESHOLD_PCT = 100"

definition storeKey :: "string \<Rightarrow> string \<Rightarrow> string" where
  "storeKey c w = c @ ''::'' @ w"

definition parseResetAtMs :: "(string \<Rightarrow> int option) \<Rightarrow> string option \<Rightarrow> int" where
  "parseResetAtMs date_parse r =
     (case r of
        None \<Rightarrow> 0
      | Some t \<Rightarrow> if t = [] then 0
                  else (case date_parse t of Some ms \<Rightarrow> if ms > 0 then ms else 0 | None \<Rightarrow> 0))"

definition isBucketSaturated :: "int \<Rightarrow> string \<Rightarrow> string \<Rightarrow> bucket_store \<Rightarrow> bool \<times> bucket_store" where
  "isBucketSaturated now c w b =
     (if c = [] \<or> w = [] then (False, b)
      else (case js_get b (storeKey c w) of
              None \<Rightarrow> (False, b)
            | Some e \<Rightarrow>
                if beResetsAt e > 0 \<and> now \<ge> beResetsAt e then (False, js_delete (storeKey c w) b)
                else (beSaturated e, b)))"

definition is_saturating :: "js_number \<Rightarrow> bool" where
  "is_saturating used = (case used of Finite r \<Rightarrow> r \<ge> SATURATION_THRESHOLD_PCT | _ \<Rightarrow> False)"

definition recordUsage ::
  "(string \<Rightarrow> int option) \<Rightarrow> int \<Rightarrow> string \<Rightarrow> string \<Rightarrow> js_number \<Rightarrow> string option \<Rightarrow> bucket_store \<Rightarrow> bucket_store" where
  "recordUsage date_parse now c w used resetAt b =
     (if c = [] \<or> w = [] then b
      else
        let resets = parseResetAtMs date_parse resetAt in
        if resets > 0 \<and> now \<ge> resets then js_delete (storeKey c w) b
        else if \<not> is_saturating used then js_delete (storeKey c w) b
        else js_set (storeKey c w) \<lparr>beSaturated = True, beResetsAt = resets\<rparr> b)"

definition processQuotaEntry ::
  "(string \<Rightarrow> int option) \<Rightarrow> int \<Rightarrow> string \<Rightarrow> string \<Rightarrow> UsageQuotaSlim option \<Rightarrow> bucket_store \<Rightarrow> bucket_store" where
  "processQuotaEntry date_parse now c w entry b =
     (case entry of
        None \<Rightarrow> b
      | Some q \<Rightarrow>
          (case uqUsed q of
             Number used \<Rightarrow> recordUsage date_parse now c w used (uqResetAt q) b
           | _ \<Rightarrow> b))"

text \<open>
  \<open>/^weekly (.+) \(7d\)$/\<close>: the text between the prefix and the suffix, not empty and without
  line terminators.
\<close>

definition weekly_model :: "string \<Rightarrow> string option" where
  "weekly_model k =
     (let m = take (length k - 12) (drop 7 k) in
      if 12 < length k \<and> take 7 k = ''weekly '' \<and> drop (length k - 5) k = '' (7d)''
         \<and> CHR 0x0A \<notin> set m \<and> CHR 0x0D \<notin> set m
      then Some m else None)"

text \<open>One entry of \<open>quotas\<close> in the loop over the per-model windows; a value may be undefined.\<close>

definition process_model_entry ::
  "(string \<Rightarrow> int option) \<Rightarrow> int \<Rightarrow> string \<Rightarrow> string \<times> UsageQuotaSlim option \<Rightarrow> bucket_store \<Rightarrow> bucket_store" where
  "process_model_entry date_parse now c kv b =
     (case weekly_model (fst kv) of
        None \<Rightarrow> b
      | Some m \<Rightarrow> processQuotaEntry date_parse now c (''7d:'' @ m) (snd kv) b)"

definition quota_at :: "(string, UsageQuotaSlim option) js_map \<Rightarrow> string \<Rightarrow> UsageQuotaSlim option" where
  "quota_at quotas k = (case js_get quotas k of Some e \<Rightarrow> e | None \<Rightarrow> None)"

definition updateAccountBuckets ::
  "(string \<Rightarrow> int option) \<Rightarrow> int \<Rightarrow> string \<Rightarrow> (string, UsageQuotaSlim option) js_map option \<Rightarrow> bucket_store \<Rightarrow> bucket_store" where
  "updateAccountBuckets date_parse now c quotas b =
     (case quotas of
        None \<Rightarrow> b
      | Some q \<Rightarrow>
          if c = [] then b
          else
            let b = processQuotaEntry date_parse now c ''5h'' (quota_at q ''session (5h)'') b;
                b = processQuotaEntry date_parse now c ''7d'' (quota_at q ''weekly (7d)'') b
            in foldl (\<lambda>b kv. process_model_entry date_parse now c kv b) b q)"


section \<open>What a bucket is meant to say\<close>

text \<open>
  An observation of a window: its key, the use and the reset time. Reading a usage report makes
  observations of the fixed windows and of every per-model window.
\<close>

type_synonym observation = "(string \<times> string) \<times> js_number \<times> int"

definition entry_observations ::
  "(string \<Rightarrow> int option) \<Rightarrow> string \<Rightarrow> string \<Rightarrow> UsageQuotaSlim option \<Rightarrow> observation list" where
  "entry_observations date_parse c w entry =
     (case entry of
        Some q \<Rightarrow> (case uqUsed q of Number used \<Rightarrow> [((c, w), used, parseResetAtMs date_parse (uqResetAt q))] | _ \<Rightarrow> [])
      | None \<Rightarrow> [])"

definition report_observations ::
  "(string \<Rightarrow> int option) \<Rightarrow> string \<Rightarrow> (string, UsageQuotaSlim option) js_map option \<Rightarrow> observation list" where
  "report_observations date_parse c quotas =
     (case quotas of
        None \<Rightarrow> []
      | Some q \<Rightarrow>
          entry_observations date_parse c ''5h'' (quota_at q ''session (5h)'')
        @ entry_observations date_parse c ''7d'' (quota_at q ''weekly (7d)'')
        @ concat (map (\<lambda>kv. case weekly_model (fst kv) of
                               Some m \<Rightarrow> entry_observations date_parse c (''7d:'' @ m) (snd kv)
                             | None \<Rightarrow> []) q))"

datatype bucket_event =
    Bu_record string string js_number "string option"
  | Bu_report string "(string, UsageQuotaSlim option) js_map option"
  | Bu_check string string

fun bucket_step :: "(string \<Rightarrow> int option) \<Rightarrow> bucket_store \<Rightarrow> int \<times> bucket_event \<Rightarrow> bucket_store" where
  "bucket_step dp b (now, Bu_record c w used r) = recordUsage dp now c w used r b"
| "bucket_step dp b (now, Bu_report c q) = updateAccountBuckets dp now c q b"
| "bucket_step dp b (now, Bu_check c w) = snd (isBucketSaturated now c w b)"

fun event_observations :: "(string \<Rightarrow> int option) \<Rightarrow> int \<times> bucket_event \<Rightarrow> observation list" where
  "event_observations dp (now, Bu_record c w used r) = [((c, w), used, parseResetAtMs dp r)]"
| "event_observations dp (now, Bu_report c q) = report_observations dp c q"
| "event_observations dp (now, Bu_check c w) = []"

text \<open>
  The specification: a window is saturated when its last observation was, and the reset time
  that came with it, if any, has not been reached.
\<close>

definition saturated_by :: "int \<Rightarrow> (js_number \<times> int) option \<Rightarrow> bool" where
  "saturated_by now ob =
     (case ob of
        None \<Rightarrow> False
      | Some (used, resets) \<Rightarrow> is_saturating used \<and> (resets > 0 \<longrightarrow> now < resets))"

definition last_of :: "string \<times> string \<Rightarrow> observation list \<Rightarrow> (js_number \<times> int) option" where
  "last_of k obs = map_of (rev obs) k"

lemma parseResetAtMs_nonneg [simp]: "0 \<le> parseResetAtMs dp r"
  by (simp add: parseResetAtMs_def split: option.splits)

text \<open>A connection id without colons separates the keys.\<close>

lemma storeKey_inject:
  "CHR 0x3A \<notin> set c \<Longrightarrow> CHR 0x3A \<notin> set d \<Longrightarrow> storeKey c w = storeKey d v \<longleftrightarrow> c = d \<and> w = v"
proof (unfold storeKey_def, induction c arbitrary: d)
  case Nil
  then show ?case by (cases d) auto
next
  case (Cons x c)
  then show ?case by (cases d) auto
qed

text \<open>
  The store agrees with the observations so far: an entry is the last observation of its window,
  and no entry means that this observation does not saturate the window from now on.
\<close>

definition agrees :: "int \<Rightarrow> (js_number \<times> int) option \<Rightarrow> BucketEntry option \<Rightarrow> bool" where
  "agrees now ob entry \<longleftrightarrow>
     (case entry of
        None \<Rightarrow> (\<forall>t \<ge> now. \<not> saturated_by t ob)
      | Some e \<Rightarrow> beSaturated e \<and> (\<exists>used. ob = Some (used, beResetsAt e) \<and> is_saturating used))"

definition tracks :: "int \<Rightarrow> observation list \<Rightarrow> bucket_store \<Rightarrow> bool" where
  "tracks now obs b \<longleftrightarrow>
     (\<forall>c w. c \<noteq> [] \<longrightarrow> w \<noteq> [] \<longrightarrow> CHR 0x3A \<notin> set c \<longrightarrow>
        agrees now (last_of (c, w) obs) (js_get b (storeKey c w)))"

lemma last_of_snoc: "last_of k (obs @ [(k', v)]) = (if k = k' then Some v else last_of k obs)"
  by (simp add: last_of_def)

lemma tracks_later:
  assumes "tracks now obs b" "now \<le> later"
  shows "tracks later obs b"
  using assms by (fastforce simp: tracks_def agrees_def split: option.splits)

lemma tracks_record:
  assumes t: "tracks now obs b" and c: "CHR 0x3A \<notin> set c"
  shows "tracks now (obs @ [((c, w), used, parseResetAtMs dp r)]) (recordUsage dp now c w used r b)"
proof (unfold tracks_def, intro allI impI)
  fix d v :: string
  assume d: "d \<noteq> []" "v \<noteq> []" "CHR 0x3A \<notin> set d"
  let ?b = "recordUsage dp now c w used r b"
  let ?obs = "obs @ [((c, w), used, parseResetAtMs dp r)]"
  show "agrees now (last_of (d, v) ?obs) (js_get ?b (storeKey d v))"
  proof (cases "d = c \<and> v = w")
    case True
    with d show ?thesis
      by (auto simp: recordUsage_def Let_def last_of_snoc saturated_by_def agrees_def)
  next
    case False
    then have "storeKey d v \<noteq> storeKey c w" using storeKey_inject [OF d(3) c] by blast
    then have "js_get ?b (storeKey d v) = js_get b (storeKey d v)"
      by (simp add: recordUsage_def Let_def)
    moreover have "last_of (d, v) ?obs = last_of (d, v) obs" using False by (auto simp: last_of_snoc)
    moreover have "agrees now (last_of (d, v) obs) (js_get b (storeKey d v))"
      using t d unfolding tracks_def by blast
    ultimately show ?thesis by simp
  qed
qed

lemma tracks_entry:
  "tracks now obs b \<Longrightarrow> CHR 0x3A \<notin> set c \<Longrightarrow>
     tracks now (obs @ entry_observations dp c w entry) (processQuotaEntry dp now c w entry b)"
  using tracks_record [of now obs b c w]
  by (auto simp: entry_observations_def processQuotaEntry_def split: option.splits js_value.splits)

lemma tracks_model_entries:
  assumes "tracks now obs b" "CHR 0x3A \<notin> set c"
  shows "tracks now
     (obs @ concat (map (\<lambda>kv. case weekly_model (fst kv) of
                        Some m \<Rightarrow> entry_observations dp c (''7d:'' @ m) (snd kv) | None \<Rightarrow> []) q))
     (foldl (\<lambda>b kv. process_model_entry dp now c kv b) b q)"
  using assms
proof (induction q arbitrary: obs b)
  case (Cons kv q)
  let ?o = "case weekly_model (fst kv) of Some m \<Rightarrow> entry_observations dp c (''7d:'' @ m) (snd kv) | None \<Rightarrow> []"
  have "tracks now (obs @ ?o) (process_model_entry dp now c kv b)"
    using tracks_entry [OF Cons.prems] Cons.prems(1)
    by (auto simp: process_model_entry_def split: option.splits)
  from Cons.IH [OF this Cons.prems(2)] show ?case by simp
qed simp

lemma tracks_report:
  assumes t: "tracks now obs b" and c: "CHR 0x3A \<notin> set c" "c \<noteq> []"
  shows "tracks now (obs @ report_observations dp c q) (updateAccountBuckets dp now c q b)"
proof (cases q)
  case (Some m)
  show ?thesis
    using tracks_model_entries [OF tracks_entry [OF tracks_entry [OF t c(1)] c(1)] c(1)] Some c(2)
    by (simp add: report_observations_def updateAccountBuckets_def Let_def)
qed (use t in \<open>simp add: report_observations_def updateAccountBuckets_def\<close>)

lemma check_answer:
  assumes "tracks now obs b" "c \<noteq> []" "w \<noteq> []" "CHR 0x3A \<notin> set c" "now \<le> t"
  shows "fst (isBucketSaturated t c w b) = saturated_by t (last_of (c, w) obs)"
proof -
  have "agrees now (last_of (c, w) obs) (js_get b (storeKey c w))"
    using assms unfolding tracks_def by blast
  then show ?thesis
    using assms by (auto simp: isBucketSaturated_def saturated_by_def agrees_def split: option.splits)
qed

fun plain_connection :: "int \<times> bucket_event \<Rightarrow> bool" where
  "plain_connection (now, Bu_record c w used r) = (CHR 0x3A \<notin> set c)"
| "plain_connection (now, Bu_report c q) = (CHR 0x3A \<notin> set c)"
| "plain_connection (now, Bu_check c w) = (CHR 0x3A \<notin> set c)"

lemma tracks_no_connection:
  "tracks now obs b \<Longrightarrow> \<forall>ob \<in> set new. fst (fst ob) = [] \<Longrightarrow> tracks now (obs @ new) b"
proof (induction new rule: rev_induct)
  case (snoc ob new)
  then have "tracks now (obs @ new) b" by simp
  moreover obtain w v where "ob = (([], w), v)" using snoc.prems(2) by (cases ob) auto
  then have "c \<noteq> [] \<Longrightarrow> last_of (c, x) (obs @ new @ [ob]) = last_of (c, x) (obs @ new)" for c x
    using last_of_snoc [of "(c, x)" "obs @ new"] by simp
  ultimately show ?case by (simp add: tracks_def)
qed simp

lemma report_observations_connection: "ob \<in> set (report_observations dp c q) \<Longrightarrow> fst (fst ob) = c"
  by (auto simp: report_observations_def entry_observations_def split: option.splits js_value.splits)

lemma tracks_check:
  assumes "tracks now obs b" "CHR 0x3A \<notin> set c"
  shows "tracks now obs (snd (isBucketSaturated now c w b))"
proof (unfold tracks_def, intro allI impI)
  fix d v :: string
  assume d: "d \<noteq> []" "v \<noteq> []" "CHR 0x3A \<notin> set d"
  have old: "agrees now (last_of (d, v) obs) (js_get b (storeKey d v))"
    using assms(1) d unfolding tracks_def by blast
  show "agrees now (last_of (d, v) obs) (js_get (snd (isBucketSaturated now c w b)) (storeKey d v))"
    using old storeKey_inject [OF assms(2) d(3)]
    by (auto simp: isBucketSaturated_def saturated_by_def agrees_def split: option.splits if_splits)
qed

lemma tracks_step:
  assumes t: "tracks now obs b" and p: "plain_connection (now, e)"
  shows "tracks now (obs @ event_observations dp (now, e)) (bucket_step dp b (now, e))"
proof (cases e)
  case (Bu_record c w used r)
  with tracks_record [OF t] p show ?thesis by simp
next
  case (Bu_report c q)
  show ?thesis
  proof (cases "c = []")
    case True
    then have "tracks now (obs @ report_observations dp c q) b"
      using tracks_no_connection [OF t] report_observations_connection by fastforce
    then show ?thesis using Bu_report True by (cases q) (simp_all add: updateAccountBuckets_def)
  next
    case False
    then show ?thesis using tracks_report [OF t] p Bu_report by simp
  qed
next
  case (Bu_check c w)
  with tracks_check [OF t] p show ?thesis by simp
qed

lemma tracks_run:
  "tracks now obs b \<Longrightarrow> sorted (now # map fst evs) \<Longrightarrow> \<forall>ev \<in> set evs. plain_connection ev \<Longrightarrow>
     tracks (last (now # map fst evs)) (obs @ concat (map (event_observations dp) evs)) (foldl (bucket_step dp) b evs)"
proof (induction evs arbitrary: now obs b)
  case (Cons ev evs)
  obtain t e where ev: "ev = (t, e)" by fastforce
  have "tracks t obs b" using tracks_later [OF Cons.prems(1)] Cons.prems(2) ev by simp
  then have "tracks t (obs @ event_observations dp ev) (bucket_step dp b ev)"
    using tracks_step [of t obs b e dp] Cons.prems(3) ev by simp
  from Cons.IH [OF this] show ?case using Cons.prems(2,3) ev by simp
qed simp


section \<open>Properties\<close>

text \<open>
  C12: after any usage records, usage reports and checks, at times that never go back and for
  connection ids without colons, a bucket answers exactly what the observations say: saturated
  when the last observation of that very window was at or above the threshold and its reset time
  has not been reached. Overwriting, deletion and the lazy reset lose nothing, and the windows of
  different connections and models never mix.
\<close>

theorem bucket_answers_last_observation:
  assumes "sorted (map fst evs @ [now])" "\<forall>ev \<in> set evs. plain_connection ev"
    and "c \<noteq> []" "w \<noteq> []" "CHR 0x3A \<notin> set c"
  shows "fst (isBucketSaturated now c w (foldl (bucket_step dp) [] evs))
     = saturated_by now (last_of (c, w) (concat (map (event_observations dp) evs)))"
proof -
  define t0 where "t0 = (case evs of [] \<Rightarrow> now | ev # _ \<Rightarrow> fst ev)"
  have "tracks t0 [] []" by (simp add: tracks_def agrees_def saturated_by_def last_of_def)
  moreover have "sorted (t0 # map fst evs)"
    using assms(1) by (cases evs) (auto simp: t0_def sorted_append)
  ultimately have "tracks (last (t0 # map fst evs)) ([] @ concat (map (event_observations dp) evs))
      (foldl (bucket_step dp) [] evs)" using assms(2) by (intro tracks_run) simp_all
  moreover have "last (t0 # map fst evs) \<le> now"
  proof (cases evs)
    case (Cons ev evs')
    then have "last (map fst evs) \<in> set (map fst evs)" by (intro last_in_set) simp
    with assms(1) Cons show ?thesis by (auto simp: sorted_append)
  qed (simp add: t0_def)
  ultimately show ?thesis using check_answer assms(3-5) by simp
qed

definition sample_report :: "(string, UsageQuotaSlim option) js_map" where
  "sample_report =
     [(''weekly opus (7d)'', Some \<lparr>uqUsed = Number (Finite 100), uqResetAt = Some ''t''\<rparr>),
      (''session (5h)'', Some \<lparr>uqUsed = Number (Finite 40), uqResetAt = None\<rparr>)]"

theorem bucket_answers_last_observation_witness:
  "fst (isBucketSaturated 8999 ''c'' ''7d:opus''
     (foldl (bucket_step (\<lambda>_. Some 9000)) [] [(10, Bu_report ''c'' (Some sample_report)), (20, Bu_check ''c'' ''5h'')]))"
  using bucket_answers_last_observation
    [of "[(10, Bu_report ''c'' (Some sample_report)), (20, Bu_check ''c'' ''5h'')]" 8999 "''c''" "''7d:opus''" "\<lambda>_. Some 9000"]
  by (simp add: sample_report_def report_observations_def entry_observations_def quota_at_def weekly_model_def
      parseResetAtMs_def last_of_def saturated_by_def is_saturating_def SATURATION_THRESHOLD_PCT_def Let_def)

end
