(* ===== verification/Adaptive_Circuit.thy ===== *)
theory Adaptive_Circuit
  imports Prelude
begin

text \<open>
  The pure circuit record of \<open>src/lib/resilience/adaptiveCircuit.ts\<close>: one function takes the
  record and an observation to the next record. Times are milliseconds; the code keeps them as
  ISO strings, which carry milliseconds exactly.
\<close>

datatype AdaptiveCircuitState = Closed | Open | Half_open

datatype circuit_observation = Failure | Success | Probe

record AdaptiveCircuit =
  acState :: AdaptiveCircuitState
  acFailures :: nat
  acSuccesses :: nat
  acLastFailureAt :: "int option"
  acOpenedAt :: "int option"
  acHalfOpenAt :: "int option"
  acNextProbeAt :: "int option"
  acReason :: "string option"

record observe_options =
  ooThreshold :: "nat option"
  ooCooldown :: "int option"
  ooReason :: "string option"

definition createAdaptiveCircuit :: AdaptiveCircuit where
  "createAdaptiveCircuit =
     \<lparr>acState = Closed, acFailures = 0, acSuccesses = 0, acLastFailureAt = None, acOpenedAt = None,
      acHalfOpenAt = None, acNextProbeAt = None, acReason = None\<rparr>"

definition observeCircuit :: "AdaptiveCircuit \<Rightarrow> circuit_observation \<Rightarrow> int \<Rightarrow> observe_options \<Rightarrow> AdaptiveCircuit" where
  "observeCircuit c ev now opts =
     (let threshold = (case ooThreshold opts of Some n \<Rightarrow> n | None \<Rightarrow> 3);
          cooldown = (case ooCooldown opts of Some ms \<Rightarrow> ms | None \<Rightarrow> 60000)
      in case ev of
           Failure \<Rightarrow>
             let c = c\<lparr>acFailures := acFailures c + 1, acSuccesses := 0, acLastFailureAt := Some now,
                       acReason := ooReason opts\<rparr>
             in if acState c = Half_open \<or> acFailures c \<ge> threshold
                then c\<lparr>acState := Open, acOpenedAt := Some now, acNextProbeAt := Some (now + cooldown),
                       acHalfOpenAt := None\<rparr>
                else c
         | Probe \<Rightarrow>
             if acState c = Open \<and> (case acNextProbeAt c of None \<Rightarrow> True | Some t \<Rightarrow> now \<ge> t)
             then c\<lparr>acState := Half_open, acHalfOpenAt := Some now\<rparr>
             else c
         | Success \<Rightarrow>
             let c = c\<lparr>acSuccesses := acSuccesses c + 1\<rparr>
             in if acState c = Half_open \<or> acSuccesses c \<ge> 1
                then c\<lparr>acState := Closed, acFailures := 0, acOpenedAt := None, acHalfOpenAt := None,
                       acNextProbeAt := None, acReason := None\<rparr>
                else c)"

text \<open>
  The fields agree with the state: an open circuit knows when it opened and when to probe, a
  half-open one also when it was probed, a closed one none of these and at most its failures.
\<close>

definition circuit_ok :: "AdaptiveCircuit \<Rightarrow> bool" where
  "circuit_ok c \<longleftrightarrow>
     (case acState c of
        Closed \<Rightarrow> acOpenedAt c = None \<and> acHalfOpenAt c = None \<and> acNextProbeAt c = None
      | Open \<Rightarrow> acOpenedAt c \<noteq> None \<and> acNextProbeAt c \<noteq> None \<and> acHalfOpenAt c = None \<and> 0 < acFailures c
      | Half_open \<Rightarrow> acOpenedAt c \<noteq> None \<and> acNextProbeAt c \<noteq> None \<and> acHalfOpenAt c \<noteq> None
          \<and> the (acNextProbeAt c) \<le> the (acHalfOpenAt c))"

lemma createAdaptiveCircuit_ok: "circuit_ok createAdaptiveCircuit"
  by (simp add: circuit_ok_def createAdaptiveCircuit_def)

lemma observeCircuit_ok: "circuit_ok c \<Longrightarrow> circuit_ok (observeCircuit c ev now opts)"
  by (cases ev; cases "acState c")
    (auto simp: circuit_ok_def observeCircuit_def Let_def split: option.splits)

interpretation circuit_run: step_invariant "\<lambda>c (ev, now, opts). observeCircuit c ev now opts" "\<lambda>_ _. True" circuit_ok
  by unfold_locales (auto intro: observeCircuit_ok)

lemma circuit_always_ok: "circuit_ok (foldl (\<lambda>c (ev, now, opts). observeCircuit c ev now opts) createAdaptiveCircuit evs)"
  by (rule circuit_run.run_always_good) (simp_all add: createAdaptiveCircuit_ok)

text \<open>Only a probe at or after the probe time half-opens an open circuit; a success closes any.\<close>

lemma open_needs_probe:
  assumes "circuit_ok c" "acState c = Open" "acState (observeCircuit c ev now opts) = Half_open"
  shows "ev = Probe \<and> the (acNextProbeAt c) \<le> now"
  using assms by (cases ev) (auto simp: observeCircuit_def Let_def circuit_ok_def split: if_splits option.splits)

lemma success_closes: "acState (observeCircuit c Success now opts) = Closed"
  by (simp add: observeCircuit_def Let_def)

end
