(* ===== verification/Utc_Calendar.thy ===== *)
theory Utc_Calendar
  imports Prelude
begin

text \<open>
  The parts of the JavaScript \<open>Date\<close> object that the budget rules use, as ECMA-262 defines them:
  day numbers count from 1970-01-01, months from 0, weekdays from Sunday. \<open>utc_ms\<close> is
  \<open>Date.UTC\<close> with seconds and milliseconds zero; a month outside 0..11 and a day outside the
  month carry over, and years 0 to 99 mean 1900 to 1999.
\<close>

definition ms_per_day :: int where
  "ms_per_day = 86400000"

definition day_of :: "int \<Rightarrow> int" where
  "day_of t = t div ms_per_day"

definition leap :: "int \<Rightarrow> int" where
  "leap y = (if y mod 4 = 0 \<and> (y mod 100 \<noteq> 0 \<or> y mod 400 = 0) then 1 else 0)"

text \<open>\<open>DayFromYear\<close>: the day number of the first of January.\<close>

definition year_start :: "int \<Rightarrow> int" where
  "year_start y = 365 * (y - 1970) + (y - 1969) div 4 - (y - 1901) div 100 + (y - 1601) div 400"

definition year_of_day :: "int \<Rightarrow> int" where
  "year_of_day n =
     (let y = 1970 + (n * 400) div 146097 in
      if n < year_start y then y - 1 else if n < year_start (y + 1) then y else y + 1)"

definition days_before_month :: "int \<Rightarrow> int \<Rightarrow> int" where
  "days_before_month l m =
     (if m = 0 then 0 else if m = 1 then 31 else if m = 2 then 59 + l else if m = 3 then 90 + l
      else if m = 4 then 120 + l else if m = 5 then 151 + l else if m = 6 then 181 + l
      else if m = 7 then 212 + l else if m = 8 then 243 + l else if m = 9 then 273 + l
      else if m = 10 then 304 + l else 334 + l)"

definition month_of_day :: "int \<Rightarrow> int" where
  "month_of_day n =
     (let l = leap (year_of_day n); d = n - year_start (year_of_day n) in
      if d < 31 then 0 else if d < 59 + l then 1 else if d < 90 + l then 2 else if d < 120 + l then 3
      else if d < 151 + l then 4 else if d < 181 + l then 5 else if d < 212 + l then 6
      else if d < 243 + l then 7 else if d < 273 + l then 8 else if d < 304 + l then 9
      else if d < 334 + l then 10 else 11)"

definition date_of_day :: "int \<Rightarrow> int" where
  "date_of_day n =
     n - year_start (year_of_day n) - days_before_month (leap (year_of_day n)) (month_of_day n) + 1"

definition weekday_of_day :: "int \<Rightarrow> int" where
  "weekday_of_day n = (n + 4) mod 7"

definition full_year :: "int \<Rightarrow> int" where
  "full_year y = (if 0 \<le> y \<and> y \<le> 99 then 1900 + y else y)"

definition make_day :: "int \<Rightarrow> int \<Rightarrow> int \<Rightarrow> int" where
  "make_day y m d =
     (let y' = y + m div 12; m' = m mod 12
      in year_start y' + days_before_month (leap y') m' + d - 1)"

definition utc_ms :: "int \<Rightarrow> int \<Rightarrow> int \<Rightarrow> int \<Rightarrow> int \<Rightarrow> int" where
  "utc_ms y m d h mi = make_day (full_year y) m d * ms_per_day + h * 3600000 + mi * 60000"

lemma leap_range: "leap y = 0 \<or> leap y = 1"
  by (simp add: leap_def)

lemma div_bounds:
  fixes a b :: int
  assumes "0 < b"
  shows "b * (a div b) \<le> a" "a < b * (a div b) + b"
  using assms pos_mod_sign [of b a] pos_mod_bound [of b a] mult_div_mod_eq [of b a] by linarith+

text \<open>Counting on by one, across a multiple of \<open>b\<close> or not.\<close>

lemma div_step:
  fixes x b :: int
  assumes "1 < b"
  shows "(x + 1) div b = x div b + (if (x + 1) mod b = 0 then 1 else 0)"
    and "(x + 1) mod b = (if x mod b = b - 1 then 0 else x mod b + 1)"
proof -
  have x: "x + 1 = (x mod b + 1) + b * (x div b)" by (simp add: algebra_simps)
  have r: "0 \<le> x mod b" "x mod b < b" using assms by simp_all
  have "(x + 1) div b = x div b + (x mod b + 1) div b"
    using arg_cong [OF x, of "\<lambda>z. z div b"] assms by (simp only: div_mult_self2)
  moreover have "(x + 1) mod b = (x mod b + 1) mod b"
    using arg_cong [OF x, of "\<lambda>z. z mod b"] by (simp only: mod_mult_self2)
  moreover have "(x mod b + 1) div b = (if x mod b = b - 1 then 1 else 0)
    \<and> (x mod b + 1) mod b = (if x mod b = b - 1 then 0 else x mod b + 1)"
  proof (cases "x mod b = b - 1")
    case False
    with r have "0 \<le> x mod b + 1" "x mod b + 1 < b" by linarith+
    with False show ?thesis by (simp only: div_pos_pos_trivial mod_pos_pos_trivial if_False)
  qed (use assms in simp)
  ultimately show "(x + 1) div b = x div b + (if (x + 1) mod b = 0 then 1 else 0)"
    "(x + 1) mod b = (if x mod b = b - 1 then 0 else x mod b + 1)"
    using r by auto
qed

lemma year_length: "year_start (y + 1) = year_start y + 365 + leap y"
proof -
  have m: "(y - 1968) mod 4 = y mod 4" "(y - 1900) mod 100 = y mod 100" "(y - 1600) mod 400 = y mod 400"
    using mod_mult_self2 [of y 4 "- 492"] mod_mult_self2 [of y 100 "- 19"] mod_mult_self2 [of y 400 "- 4"] by simp_all
  have e: "y - 1969 + 1 = y - 1968" "y - 1901 + 1 = y - 1900" "y - 1601 + 1 = y - 1600"
    "y + 1 - 1969 = y - 1968" "y + 1 - 1901 = y - 1900" "y + 1 - 1601 = y - 1600" by simp_all
  have s: "(y - 1968) div 4 = (y - 1969) div 4 + (if y mod 4 = 0 then 1 else 0)"
    by (rule div_step(1) [of 4 "y - 1969", unfolded e m]) simp
  have t: "(y - 1900) div 100 = (y - 1901) div 100 + (if y mod 100 = 0 then 1 else 0)"
    by (rule div_step(1) [of 100 "y - 1901", unfolded e m]) simp
  have u: "(y - 1600) div 400 = (y - 1601) div 400 + (if y mod 400 = 0 then 1 else 0)"
    by (rule div_step(1) [of 400 "y - 1601", unfolded e m]) simp
  have c: "y mod 100 = y mod 400 mod 100" "y mod 4 = y mod 100 mod 4"
    by (rule mod_mod_cancel [symmetric], simp)+
  show ?thesis
  proof (cases "y mod 100 = 0")
    case True
    then have "y mod 4 = 0" unfolding c(2) by simp
    with True show ?thesis unfolding year_start_def leap_def e s t u by simp
  next
    case False
    then have "y mod 400 \<noteq> 0" unfolding c(1) by auto
    with False show ?thesis unfolding year_start_def leap_def e s t u by simp
  qed
qed

lemma year_start_linear:
  "400 * year_start (1970 + k) \<le> 146097 * k + 800" "146097 * k \<le> 400 * year_start (1970 + k) + 800"
proof -
  define a b c where "a = (k + 1) div 4" and "b = (k + 69) div 100" and "c = (k + 369) div 400"
  have d: "4 * a \<le> k + 1" "k + 1 < 4 * a + 4" "100 * b \<le> k + 69" "k + 69 < 100 * b + 100"
    "400 * c \<le> k + 369" "k + 369 < 400 * c + 400"
    unfolding a_def b_def c_def by (rule div_bounds; simp)+
  have "400 * a \<le> 100 * k + 100" "100 * k \<le> 400 * a + 300" "400 * b \<le> 4 * k + 276" "4 * k \<le> 400 * b + 124"
    "400 * c \<le> k + 369" "k \<le> 400 * c + 31"
    using d by linarith+
  note d = this
  have y: "year_start (1970 + k) = 365 * k + a - b + c"
    by (simp add: year_start_def a_def b_def c_def add.commute)
  show "400 * year_start (1970 + k) \<le> 146097 * k + 800" unfolding y distrib_left right_diff_distrib using d by simp
  show "146097 * k \<le> 400 * year_start (1970 + k) + 800" unfolding y distrib_left right_diff_distrib using d by simp
qed

text \<open>The year of a day, its month and its date are where the day is.\<close>

lemma year_of_day_bounds: "year_start (year_of_day n) \<le> n" "n < year_start (year_of_day n + 1)"
proof -
  define k where "k = (n * 400) div 146097"
  have k: "146097 * k \<le> n * 400" "n * 400 < 146097 * k + 146097"
    unfolding k_def using div_bounds [of 146097 "n * 400"] by simp_all
  have y: "year_of_day n = (if n < year_start (1970 + k) then 1970 + k - 1
      else if n < year_start (1970 + k + 1) then 1970 + k else 1970 + k + 1)"
    by (simp add: year_of_day_def k_def Let_def)
  have s: "1970 + (k - 1) = 1970 + k - 1" "1970 + (k + 2) = 1970 + k + 1 + 1" by simp_all
  have "400 * year_start (1970 + k - 1) \<le> 146097 * (k - 1) + 800"
    "146097 * (k + 2) \<le> 400 * year_start (1970 + k + 1 + 1) + 800"
    using year_start_linear(1) [of "k - 1"] year_start_linear(2) [of "k + 2"] unfolding s by simp_all
  with k have low: "year_start (1970 + k - 1) \<le> n" and high: "n < year_start (1970 + k + 1 + 1)"
    by (simp_all add: algebra_simps)
  show "year_start (year_of_day n) \<le> n" "n < year_start (year_of_day n + 1)"
    unfolding y using low high by (auto split: if_splits)
qed

lemma month_of_day_range: "0 \<le> month_of_day n" "month_of_day n \<le> 11"
  by (simp_all add: month_of_day_def Let_def)

lemma month_of_day_bounds:
  fixes n :: int
  defines "y \<equiv> year_of_day n" and "m \<equiv> month_of_day n"
  shows "year_start y + days_before_month (leap y) m \<le> n"
    and "n < (if m = 11 then year_start (y + 1) else year_start y + days_before_month (leap y) (m + 1))"
proof -
  have b: "0 \<le> n - year_start y" "n < year_start y + 365 + leap y"
    using year_of_day_bounds [of n] year_length [of y] by (simp_all add: y_def)
  show "year_start y + days_before_month (leap y) m \<le> n"
    using b leap_range [of y]
    unfolding m_def month_of_day_def y_def [symmetric] Let_def by (auto simp: days_before_month_def)
  show "n < (if m = 11 then year_start (y + 1) else year_start y + days_before_month (leap y) (m + 1))"
    using b leap_range [of y] year_length [of y]
    unfolding m_def month_of_day_def y_def [symmetric] Let_def by (auto simp: days_before_month_def)
qed

lemma make_day_date: "make_day (year_of_day n) (month_of_day n) (date_of_day n + k) = n + k"
  using month_of_day_range [of n] by (simp add: make_day_def date_of_day_def Let_def)

lemma make_day_month:
  "make_day (year_of_day n) (month_of_day n) 1 \<le> n"
  "n < make_day (year_of_day n) (month_of_day n + 1) 1"
proof -
  note r = month_of_day_range [of n] and b = month_of_day_bounds [of n]
  show "make_day (year_of_day n) (month_of_day n) 1 \<le> n"
    using r b(1) by (simp add: make_day_def Let_def)
  show "n < make_day (year_of_day n) (month_of_day n + 1) 1"
  proof (cases "month_of_day n = 11")
    case True
    with b(2) show ?thesis by (simp add: make_day_def Let_def days_before_month_def)
  next
    case False
    with r have "(month_of_day n + 1) div 12 = 0" "(month_of_day n + 1) mod 12 = month_of_day n + 1" by simp_all
    with False b(2) show ?thesis by (simp add: make_day_def Let_def)
  qed
qed

text \<open>Months last between 28 and 31 days.\<close>

lemma month_length:
  "make_day y m 1 + 28 \<le> make_day y (m + 1) 1" "make_day y (m + 1) 1 \<le> make_day y m 1 + 31"
proof -
  define q r where "q = y + m div 12" and "r = m mod 12"
  have r: "0 \<le> r" "r \<le> 11" by (simp_all add: r_def)
  have months: "r = 0 \<or> r = 1 \<or> r = 2 \<or> r = 3 \<or> r = 4 \<or> r = 5 \<or> r = 6 \<or> r = 7 \<or> r = 8 \<or> r = 9
      \<or> r = 10 \<or> r = 11" using r by presburger
  have next_month: "(m + 1) div 12 = (if r = 11 then m div 12 + 1 else m div 12)"
    "(m + 1) mod 12 = (if r = 11 then 0 else r + 1)" using div_step [of 12 m] by (simp_all add: r_def split: if_splits)
  have "make_day y m 1 = year_start q + days_before_month (leap q) r"
    by (simp add: make_day_def q_def r_def Let_def)
  moreover have "make_day y (m + 1) 1 = (if r = 11 then year_start (q + 1)
      else year_start q + days_before_month (leap q) (r + 1))"
    unfolding make_day_def next_month Let_def q_def by (simp add: days_before_month_def add.assoc)
  ultimately show "make_day y m 1 + 28 \<le> make_day y (m + 1) 1" "make_day y (m + 1) 1 \<le> make_day y m 1 + 31"
    using year_length [of q] leap_range [of q] months by (auto simp: days_before_month_def)
qed

lemma year_of_day_recent:
  assumes "0 \<le> n"
  shows "1970 \<le> year_of_day n"
proof (rule ccontr)
  assume "\<not> 1970 \<le> year_of_day n"
  then have y: "year_of_day n + 1 \<le> 1970" by simp
  define k where "k = year_of_day n + 1 - 1970"
  have "k \<le> 0" "year_of_day n + 1 = 1970 + k" using y by (simp_all add: k_def)
  have "year_start (1970 + k) \<le> 0"
  proof (cases "k = 0")
    case True
    then show ?thesis by (simp add: year_start_def)
  next
    case False
    with \<open>k \<le> 0\<close> year_start_linear(1) [of k] show ?thesis by linarith
  qed
  with year_of_day_bounds(2) [of n] \<open>year_of_day n + 1 = 1970 + k\<close> assms show False by simp
qed

lemma full_year_recent: "0 \<le> n \<Longrightarrow> full_year (year_of_day n) = year_of_day n"
  using year_of_day_recent [of n] by (simp add: full_year_def)

lemma day_of_bounds: "day_of t * ms_per_day \<le> t" "t < (day_of t + 1) * ms_per_day"
proof -
  have "ms_per_day * (t div ms_per_day) \<le> t" "t < ms_per_day * (t div ms_per_day) + ms_per_day"
    by (rule div_bounds; simp add: ms_per_day_def)+
  then show "day_of t * ms_per_day \<le> t" "t < (day_of t + 1) * ms_per_day"
    by (simp_all add: day_of_def algebra_simps)
qed

end
