(* ===== verification/Spend_Writer.thy ===== *)
theory Spend_Writer
  imports Prelude
begin

text \<open>
  The buffered cost writer of \<open>src/lib/spend/batchWriter.ts\<close> and the cost table of
  \<open>src/lib/db/domainState.ts\<close>. A flush runs up to its first \<open>await\<close> in the call of \<open>flush\<close>, and
  the rest of it is the operation \<open>flush_continues\<close>. How the persisting function answers the
  call is an argument: it throws at once, it has stored the rows when it returns (as
  \<open>batchSaveCostEntries\<close> does), or it stores them later. The field \<open>flushPromise\<close> is
  \<open>Idle\<close> for null; \<open>Settled\<close> is a promise that has been resolved but is still in the field.
\<close>


section \<open>State\<close>

record BufferedCostEntry =
  ceKey :: string
  ceCost :: rat
  ceTime :: int

datatype persist_call = Throws | Stores | Stores_later

datatype flush_promise = Idle | Flushing persist_call "BufferedCostEntry list" | Settled

record spend_writer =
  swBuffer :: "BufferedCostEntry list"
  swInFlight :: "BufferedCostEntry list"
  swDiscarded :: "string set"
  swStarted :: bool
  swFlush :: flush_promise
  swMaxBuffer :: nat
  swRows :: "BufferedCostEntry list"

definition new_writer :: "nat \<Rightarrow> spend_writer" where
  "new_writer mx =
     \<lparr>swBuffer = [], swInFlight = [], swDiscarded = {}, swStarted = False, swFlush = Idle,
      swMaxBuffer = mx, swRows = []\<rparr>"


section \<open>Operations\<close>

definition normalizeEntry :: "int \<Rightarrow> string \<Rightarrow> js_number \<Rightarrow> int option \<Rightarrow> BufferedCostEntry option" where
  "normalizeEntry now k cost t =
     (case cost of
        Finite c \<Rightarrow>
          if k = [] \<or> c \<le> 0 then None
          else Some \<lparr>ceKey = k, ceCost = c, ceTime = (case t of Some ms \<Rightarrow> ms | None \<Rightarrow> now)\<rparr>
      | _ \<Rightarrow> None)"

definition batchSaveCostEntries :: "BufferedCostEntry list \<Rightarrow> spend_writer \<Rightarrow> spend_writer" where
  "batchSaveCostEntries es w = w\<lparr>swRows := swRows w @ es\<rparr>"

text \<open>
  \<open>flush\<close> up to its first suspension. When the persisting function throws at once, or there is
  nothing to persist, the inner function runs to its end before its promise is assigned to
  \<open>flushPromise\<close>: the field that its \<open>finally\<close> has just cleared is set again, to a settled promise.
\<close>

definition flush :: "persist_call \<Rightarrow> spend_writer \<Rightarrow> spend_writer" where
  "flush call w =
     (if swFlush w \<noteq> Idle then w
      else if swBuffer w = [] then w
      else
        let es = swBuffer w;
            w = w\<lparr>swBuffer := [], swInFlight := es\<rparr>;
            keep = filter (\<lambda>e. ceKey e \<notin> swDiscarded w) es
        in if keep = [] then w\<lparr>swInFlight := [], swFlush := Settled\<rparr>
           else (case call of
                   Throws \<Rightarrow> w\<lparr>swBuffer := keep @ swBuffer w, swInFlight := [], swFlush := Settled\<rparr>
                 | Stores \<Rightarrow> (batchSaveCostEntries keep w)\<lparr>swFlush := Flushing Stores keep\<rparr>
                 | Stores_later \<Rightarrow> w\<lparr>swFlush := Flushing Stores_later keep\<rparr>))"

text \<open>The rest of a suspended flush; \<open>ok\<close> says whether a later store succeeds.\<close>

definition flush_continues :: "bool \<Rightarrow> spend_writer \<Rightarrow> spend_writer" where
  "flush_continues ok w =
     (case swFlush w of
        Flushing Stores keep \<Rightarrow> w\<lparr>swInFlight := [], swFlush := Idle\<rparr>
      | Flushing _ keep \<Rightarrow>
          (if ok then batchSaveCostEntries keep w else w\<lparr>swBuffer := keep @ swBuffer w\<rparr>)
            \<lparr>swInFlight := [], swFlush := Idle\<rparr>
      | _ \<Rightarrow> w)"

definition increment :: "int \<Rightarrow> persist_call \<Rightarrow> string \<Rightarrow> js_number \<Rightarrow> int option \<Rightarrow> spend_writer \<Rightarrow> spend_writer" where
  "increment now call k cost t w =
     (case normalizeEntry now k cost t of
        None \<Rightarrow> w
      | Some e \<Rightarrow>
          let w = w\<lparr>swStarted := True, swDiscarded := swDiscarded w - {ceKey e}, swBuffer := swBuffer w @ [e]\<rparr>
          in if length (swBuffer w) \<ge> swMaxBuffer w then flush call w else w)"

definition getBufferedEntries :: "string \<Rightarrow> int \<Rightarrow> int option \<Rightarrow> spend_writer \<Rightarrow> BufferedCostEntry list" where
  "getBufferedEntries k since until w =
     filter (\<lambda>e. ceKey e = k \<and> ceTime e \<ge> since
               \<and> (case until of Some u \<Rightarrow> ceTime e < u | None \<Rightarrow> True)) (swInFlight w @ swBuffer w)"

definition getPendingCostTotal :: "string \<Rightarrow> int \<Rightarrow> int option \<Rightarrow> spend_writer \<Rightarrow> rat" where
  "getPendingCostTotal k since until w = (\<Sum>e\<leftarrow>getBufferedEntries k since until w. ceCost e)"

definition discardEntries :: "string \<Rightarrow> spend_writer \<Rightarrow> spend_writer" where
  "discardEntries k w =
     w\<lparr>swDiscarded := insert k (swDiscarded w),
       swBuffer := filter (\<lambda>e. ceKey e \<noteq> k) (swBuffer w),
       swInFlight := filter (\<lambda>e. ceKey e \<noteq> k) (swInFlight w)\<rparr>"

definition stop_writer :: "persist_call \<Rightarrow> spend_writer \<Rightarrow> spend_writer" where
  "stop_writer call w = flush call (w\<lparr>swStarted := False\<rparr>)"

text \<open>The interval timer only runs once the writer was started.\<close>

definition interval_fires :: "persist_call \<Rightarrow> spend_writer \<Rightarrow> spend_writer" where
  "interval_fires call w = (if swStarted w then flush call w else w)"

text \<open>The cost table.\<close>

definition loadCostTotal :: "string \<Rightarrow> int \<Rightarrow> spend_writer \<Rightarrow> rat" where
  "loadCostTotal k since w = (\<Sum>e\<leftarrow>filter (\<lambda>e. ceKey e = k \<and> ceTime e \<ge> since) (swRows w). ceCost e)"

definition loadCostEntriesInRange :: "string \<Rightarrow> int \<Rightarrow> int \<Rightarrow> spend_writer \<Rightarrow> BufferedCostEntry list" where
  "loadCostEntriesInRange k since until w =
     sort_key ceTime (filter (\<lambda>e. ceKey e = k \<and> ceTime e \<ge> since \<and> ceTime e < until) (swRows w))"

definition saveCostEntry :: "string \<Rightarrow> rat \<Rightarrow> int \<Rightarrow> spend_writer \<Rightarrow> spend_writer" where
  "saveCostEntry k c t w = w\<lparr>swRows := swRows w @ [\<lparr>ceKey = k, ceCost = c, ceTime = t\<rparr>]\<rparr>"

definition loadCostEntries :: "string \<Rightarrow> int \<Rightarrow> spend_writer \<Rightarrow> BufferedCostEntry list" where
  "loadCostEntries k since w = sort_key ceTime (filter (\<lambda>e. ceKey e = k \<and> ceTime e \<ge> since) (swRows w))"

definition cleanOldCostEntries :: "int \<Rightarrow> spend_writer \<Rightarrow> nat \<times> spend_writer" where
  "cleanOldCostEntries olderThan w =
     (length (filter (\<lambda>e. ceTime e < olderThan) (swRows w)),
      w\<lparr>swRows := filter (\<lambda>e. \<not> ceTime e < olderThan) (swRows w)\<rparr>)"

definition deleteCostEntries :: "string \<Rightarrow> spend_writer \<Rightarrow> spend_writer" where
  "deleteCostEntries k w = w\<lparr>swRows := filter (\<lambda>e. ceKey e \<noteq> k) (swRows w)\<rparr>"

definition resetForTests :: "spend_writer \<Rightarrow> spend_writer" where
  "resetForTests w =
     w\<lparr>swStarted := False, swBuffer := [], swInFlight := [], swDiscarded := {}, swFlush := Idle\<rparr>"

datatype writer_event =
    Sw_increment persist_call string js_number "int option"
  | Sw_flush persist_call
  | Sw_interval persist_call
  | Sw_continue bool
  | Sw_discard string
  | Sw_delete_rows string
  | Sw_stop persist_call

fun writer_step :: "spend_writer \<Rightarrow> int \<times> writer_event \<Rightarrow> spend_writer" where
  "writer_step w (now, Sw_increment call k c t) = increment now call k c t w"
| "writer_step w (now, Sw_flush call) = flush call w"
| "writer_step w (now, Sw_interval call) = interval_fires call w"
| "writer_step w (now, Sw_continue ok) = flush_continues ok w"
| "writer_step w (now, Sw_discard k) = discardEntries k w"
| "writer_step w (now, Sw_delete_rows k) = deleteCostEntries k w"
| "writer_step w (now, Sw_stop call) = stop_writer call w"


section \<open>No cost is lost or counted twice\<close>

text \<open>The entries a flush has taken out of the buffer and not yet stored.\<close>

definition unstored :: "spend_writer \<Rightarrow> BufferedCostEntry list" where
  "unstored w = (case swFlush w of Flushing Stores_later keep \<Rightarrow> keep | Flushing Throws keep \<Rightarrow> keep | _ \<Rightarrow> [])"

definition of_key :: "string \<Rightarrow> BufferedCostEntry list \<Rightarrow> BufferedCostEntry multiset" where
  "of_key k es = mset (filter (\<lambda>e. ceKey e = k) es)"

lemma of_key_simps [simp]:
  "of_key k [] = {#}" "of_key k (es @ fs) = of_key k es + of_key k fs"
  by (simp_all add: of_key_def)

text \<open>The costs recorded for a key, and where they are: stored, on their way, or buffered.\<close>

fun recorded :: "string \<Rightarrow> int \<times> writer_event \<Rightarrow> BufferedCostEntry multiset" where
  "recorded k (now, Sw_increment call k' c t) =
     (case normalizeEntry now k' c t of Some e \<Rightarrow> if k' = k then {#e#} else {#} | None \<Rightarrow> {#})"
| "recorded k _ = {#}"

definition accounted :: "string \<Rightarrow> spend_writer \<Rightarrow> BufferedCostEntry multiset" where
  "accounted k w = of_key k (swRows w) + of_key k (unstored w) + of_key k (swBuffer w)"

text \<open>
  For a key that is not discarded: in flight is what a running flush took, and nothing is in
  flight when none runs.
\<close>

definition writer_ok :: "string \<Rightarrow> spend_writer \<Rightarrow> bool" where
  "writer_ok k w \<longleftrightarrow>
     k \<notin> swDiscarded w
   \<and> of_key k (swInFlight w) = (case swFlush w of Flushing _ keep \<Rightarrow> of_key k keep | _ \<Rightarrow> {#})"

fun spares :: "string \<Rightarrow> int \<times> writer_event \<Rightarrow> bool" where
  "spares k (now, Sw_discard k') = (k' \<noteq> k)"
| "spares k (now, Sw_delete_rows k') = (k' \<noteq> k)"
| "spares k (now, ev) = True"

lemma of_key_keep: "k \<notin> D \<Longrightarrow> of_key k (filter (\<lambda>e. ceKey e \<notin> D) es) = of_key k es"
  unfolding of_key_def filter_filter by (intro arg_cong [of _ _ mset] filter_cong) auto

lemma of_key_other: "k' \<noteq> k \<Longrightarrow> of_key k (filter (\<lambda>e. ceKey e \<noteq> k') es) = of_key k es"
  unfolding of_key_def filter_filter by (intro arg_cong [of _ _ mset] filter_cong) auto

lemma of_key_none: "k \<notin> D \<Longrightarrow> filter (\<lambda>e. ceKey e \<notin> D) es = [] \<Longrightarrow> of_key k es = {#}"
  using of_key_keep [of k D es] by simp

lemma flush_accounts:
  assumes "writer_ok k w"
  shows "writer_ok k (flush call w) \<and> accounted k (flush call w) = accounted k w"
proof (cases "swFlush w \<noteq> Idle \<or> swBuffer w = []")
  case True
  with assms show ?thesis by (auto simp: flush_def)
next
  case False
  let ?keep = "filter (\<lambda>e. ceKey e \<notin> swDiscarded w) (swBuffer w)"
  have k: "k \<notin> swDiscarded w" using assms by (simp add: writer_ok_def)
  note keep = of_key_keep [OF k, of "swBuffer w"] of_key_none [OF k, of "swBuffer w"]
  show ?thesis
  proof (cases "?keep = []")
    case True
    with False k keep show ?thesis
      by (simp add: flush_def Let_def writer_ok_def accounted_def unstored_def)
  next
    case nonempty: False
    show ?thesis
    proof (cases call)
      case Throws
      with False nonempty k keep(1) show ?thesis
        by (simp add: flush_def Let_def writer_ok_def accounted_def unstored_def)
    next
      case Stores
      with False nonempty k keep(1) show ?thesis
        by (simp add: flush_def Let_def writer_ok_def accounted_def unstored_def batchSaveCostEntries_def)
    next
      case Stores_later
      with False nonempty k keep(1) show ?thesis
        by (simp add: flush_def Let_def writer_ok_def accounted_def unstored_def)
    qed
  qed
qed

lemma continue_accounts:
  assumes "writer_ok k w"
  shows "writer_ok k (flush_continues ok w) \<and> accounted k (flush_continues ok w) = accounted k w"
  using assms
  by (cases ok)
    (auto simp: flush_continues_def writer_ok_def accounted_def unstored_def batchSaveCostEntries_def
      split: flush_promise.splits persist_call.splits)

lemma writer_step_accounts:
  assumes ok: "writer_ok k w" and ev: "spares k ev"
  shows "writer_ok k (writer_step w ev) \<and> accounted k (writer_step w ev) = accounted k w + recorded k ev"
proof -
  obtain now e where e: "ev = (now, e)" by fastforce
  show ?thesis
  proof (cases e)
    case (Sw_increment call k' c t)
    show ?thesis
    proof (cases "normalizeEntry now k' c t")
      case None
      with ok e Sw_increment show ?thesis by (simp add: increment_def)
    next
      case (Some b)
      then have b: "ceKey b = k'" by (auto simp: normalizeEntry_def split: js_number.splits if_splits)
      let ?w = "w\<lparr>swStarted := True, swDiscarded := swDiscarded w - {k'}, swBuffer := swBuffer w @ [b]\<rparr>"
      have w: "writer_ok k ?w" using ok by (simp add: writer_ok_def)
      have "accounted k ?w = accounted k w + (if k' = k then {#b#} else {#})"
        using b by (simp add: accounted_def unstored_def of_key_def)
      with w flush_accounts [OF w, of call] Some b e Sw_increment show ?thesis
        by (simp add: increment_def Let_def)
    qed
  next
    case (Sw_flush call)
    with flush_accounts [OF ok] e show ?thesis by simp
  next
    case (Sw_interval call)
    with flush_accounts [OF ok] ok e show ?thesis by (simp add: interval_fires_def)
  next
    case (Sw_continue b)
    with continue_accounts [OF ok] e show ?thesis by simp
  next
    case (Sw_discard k')
    then have k': "k' \<noteq> k" using ev e by simp
    have "unstored (discardEntries k' w) = unstored w" by (simp add: discardEntries_def unstored_def)
    with k' ok e Sw_discard show ?thesis
      by (simp add: discardEntries_def accounted_def writer_ok_def of_key_other)
  next
    case (Sw_delete_rows k')
    then have k': "k' \<noteq> k" using ev e by simp
    have "unstored (deleteCostEntries k' w) = unstored w" by (simp add: deleteCostEntries_def unstored_def)
    with k' ok e Sw_delete_rows show ?thesis
      by (simp add: deleteCostEntries_def accounted_def writer_ok_def of_key_other)
  next
    case (Sw_stop call)
    have "writer_ok k (w\<lparr>swStarted := False\<rparr>)" "accounted k (w\<lparr>swStarted := False\<rparr>) = accounted k w"
      using ok by (simp_all add: writer_ok_def accounted_def unstored_def)
    with flush_accounts [of k "w\<lparr>swStarted := False\<rparr>" call] e Sw_stop show ?thesis
      by (simp add: stop_writer_def)
  qed
qed

lemma writer_run_accounts:
  "writer_ok k w \<Longrightarrow> \<forall>ev \<in> set evs. spares k ev \<Longrightarrow>
     writer_ok k (foldl writer_step w evs)
   \<and> accounted k (foldl writer_step w evs) = accounted k w + sum_list (map (recorded k) evs)"
proof (induction evs arbitrary: w)
  case (Cons ev evs)
  then have s: "writer_ok k (writer_step w ev)" "accounted k (writer_step w ev) = accounted k w + recorded k ev"
    using writer_step_accounts by simp_all
  from Cons.IH [OF s(1)] Cons.prems(2) s(2) show ?case by (simp add: add.assoc)
qed simp

text \<open>Totals of a key from the multiset of its entries.\<close>

definition total_since :: "int \<Rightarrow> BufferedCostEntry multiset \<Rightarrow> rat" where
  "total_since since M = (\<Sum>e\<in>#filter_mset (\<lambda>e. ceTime e \<ge> since) M. ceCost e)"

lemma total_since_union [simp]: "total_since since (M + N) = total_since since M + total_since since N"
  by (simp add: total_since_def)

lemma total_since_of_key:
  "total_since since (of_key k es) = (\<Sum>e\<leftarrow>filter (\<lambda>e. ceKey e = k \<and> ceTime e \<ge> since) es. ceCost e)"
proof -
  have "filter_mset (\<lambda>e. ceTime e \<ge> since) (of_key k es) = mset (filter (\<lambda>e. ceKey e = k \<and> ceTime e \<ge> since) es)"
    by (simp add: of_key_def filter_filter_mset conj_commute)
  then show ?thesis by (simp only: total_since_def) (simp only: flip: mset_map sum_mset_sum_list)
qed

lemma totals:
  "loadCostTotal k since w + getPendingCostTotal k since None w
     = total_since since (of_key k (swRows w) + of_key k (swInFlight w) + of_key k (swBuffer w))"
  by (simp add: loadCostTotal_def getPendingCostTotal_def getBufferedEntries_def total_since_of_key)

text \<open>
  While a flush that has stored its entries is suspended, they are in the table and in flight:
  a reader that runs then counts them twice.
\<close>

lemma suspended_flush_counts_twice:
  assumes "writer_ok k w" "swFlush w = Flushing Stores keep"
  shows "loadCostTotal k since w + getPendingCostTotal k since None w
    = total_since since (accounted k w) + total_since since (of_key k keep)"
  using assms by (simp add: totals writer_ok_def accounted_def unstored_def)

lemma settled_step:
  assumes "swFlush w = Settled"
  shows "swFlush (writer_step w ev) = Settled \<and> mset (swRows (writer_step w ev)) \<subseteq># mset (swRows w)"
  using assms
  by (cases "(w, ev)" rule: writer_step.cases)
    (auto simp: increment_def Let_def flush_def interval_fires_def flush_continues_def discardEntries_def
      deleteCostEntries_def stop_writer_def split: option.splits)

interpretation settled_run: step_invariant writer_step "\<lambda>_ _. True"
    "\<lambda>w. swFlush w = Settled \<and> mset (swRows w) \<subseteq># M" for M
  by unfold_locales (metis settled_step subset_mset.order_trans)


text \<open>What the stored and pending entries of a key are after a run from the start.\<close>

lemma writer_totals:
  assumes "\<forall>ev \<in> set evs. spares k ev" and w: "w = foldl writer_step (new_writer mx) evs"
  shows "accounted k w = sum_list (map (recorded k) evs)"
    and "\<forall>c keep. swFlush w \<noteq> Flushing c keep \<Longrightarrow>
      loadCostTotal k since w + getPendingCostTotal k since None w
        = total_since since (sum_list (map (recorded k) evs))"
proof -
  have "writer_ok k (new_writer mx)" "accounted k (new_writer mx) = {#}"
    by (simp_all add: writer_ok_def new_writer_def accounted_def unstored_def)
  then have ok: "writer_ok k w" and acc: "accounted k w = sum_list (map (recorded k) evs)"
    using writer_run_accounts [of k "new_writer mx" evs] assms by simp_all
  show "accounted k w = sum_list (map (recorded k) evs)" by (rule acc)
  assume "\<forall>c keep. swFlush w \<noteq> Flushing c keep"
  with ok acc show "loadCostTotal k since w + getPendingCostTotal k since None w
      = total_since since (sum_list (map (recorded k) evs))"
    by (cases "swFlush w") (simp_all add: totals writer_ok_def accounted_def unstored_def)
qed


section \<open>Properties\<close>

text \<open>
  C15: whatever is recorded, flushed, stored now or later, failed and requeued, in any order, every
  cost recorded for a key that is not deleted is in exactly one place: stored, on its way, or
  buffered; and whenever no flush is running, the stored total plus the pending total from any
  time on is the sum of the costs recorded since that time.
\<close>

theorem spend_conserved:
  assumes "\<forall>ev \<in> set evs. spares k ev" and w: "w = foldl writer_step (new_writer mx) evs"
  shows "accounted k w = sum_list (map (recorded k) evs)
    \<and> ((\<forall>c keep. swFlush w \<noteq> Flushing c keep) \<longrightarrow>
         loadCostTotal k since w + getPendingCostTotal k since None w
           = total_since since (sum_list (map (recorded k) evs)))"
  using writer_totals [OF assms] by blast

definition spend_run :: "(int \<times> writer_event) list" where
  "spend_run =
     [(10, Sw_increment Stores ''a'' (Finite (3 / 2)) None), (20, Sw_flush Stores), (21, Sw_continue True),
      (30, Sw_increment Stores ''a'' (Finite 2) (Some 25)), (40, Sw_discard ''b''), (50, Sw_flush Stores_later),
      (51, Sw_continue False)]"

theorem spend_conserved_witness:
  "loadCostTotal ''a'' 0 (foldl writer_step (new_writer 9) spend_run)
     + getPendingCostTotal ''a'' 0 None (foldl writer_step (new_writer 9) spend_run) = 7 / 2"
proof -
  have "sum_list (map (recorded ''a'') spend_run)
      = {# \<lparr>ceKey = ''a'', ceCost = 3 / 2, ceTime = 10\<rparr>, \<lparr>ceKey = ''a'', ceCost = 2, ceTime = 25\<rparr> #}"
    by (simp add: spend_run_def normalizeEntry_def)
  moreover have "swFlush (foldl writer_step (new_writer 9) spend_run) = Idle"
    by (simp add: spend_run_def normalizeEntry_def increment_def new_writer_def flush_def flush_continues_def
        discardEntries_def batchSaveCostEntries_def Let_def)
  moreover have "\<forall>ev \<in> set spend_run. spares ''a'' ev" by (simp add: spend_run_def)
  ultimately show ?thesis
    using spend_conserved [of spend_run "''a''" _ 9 0, OF _ refl] by (simp add: total_since_def)
qed

text \<open>
  A flush whose persisting function throws at once, as a failing database transaction does,
  leaves a settled promise in the field that guards against concurrent flushes: whatever is
  recorded or flushed afterwards, nothing is ever stored again.
\<close>

lemma failed_flush_wedges:
  assumes "swFlush w = Idle" "swBuffer w \<noteq> []"
  shows "mset (swRows (foldl writer_step (flush Throws w) evs)) \<subseteq># mset (swRows w)"
proof -
  have "swFlush (flush Throws w) = Settled \<and> mset (swRows (flush Throws w)) \<subseteq># mset (swRows w)"
    using assms by (simp add: flush_def Let_def)
  then show ?thesis
    using settled_run.run_always_good [of "flush Throws w" "mset (swRows w)" evs] by blast
qed

end
