(* ===== verification/Budget_Rules.thy ===== *)
theory Budget_Rules
  imports Utc_Calendar Spend_Writer
begin

text \<open>
  The budgets of \<open>src/domain/costRules.ts\<close> with their rows in \<open>src/lib/db/domainState.ts\<close>: limits
  per reset interval, the UTC window they apply to, the schedule that rolls them over, and the
  check against what a key has spent. \<open>Number(string)\<close> is the parameter \<open>num_of\<close>; time stamps are
  integral milliseconds. \<open>bgDbUp\<close> says whether database calls succeed or throw (every throw is
  caught). Daily and monthly summaries in local time are left out.
\<close>


section \<open>Configurations\<close>

datatype BudgetResetInterval = Reset_daily | Reset_weekly | Reset_monthly

record BudgetConfig =
  bcDailyLimitUsd :: js_value
  bcWeeklyLimitUsd :: js_value
  bcMonthlyLimitUsd :: js_value
  bcWarningThreshold :: js_value
  bcResetInterval :: js_value
  bcResetTime :: js_value
  bcBudgetResetAt :: "int option"
  bcLastBudgetResetAt :: "int option"
  bcWarningEmittedAt :: "int option"
  bcWarningPeriodStart :: "int option"

record NormalizedBudgetConfig =
  dailyLimitUsd :: rat
  weeklyLimitUsd :: rat
  monthlyLimitUsd :: rat
  warningThreshold :: rat
  resetInterval :: BudgetResetInterval
  resetTime :: string
  budgetResetAt :: "int option"
  lastBudgetResetAt :: "int option"
  warningEmittedAt :: "int option"
  warningPeriodStart :: "int option"

definition toNumber :: "(string \<Rightarrow> js_number) \<Rightarrow> js_value \<Rightarrow> rat \<Rightarrow> rat" where
  "toNumber num_of v fallback =
     (case v of
        Number (Finite r) \<Rightarrow> r
      | Str s \<Rightarrow> if js_trim s = [] then fallback
                 else (case num_of s of Finite r \<Rightarrow> r | _ \<Rightarrow> fallback)
      | _ \<Rightarrow> fallback)"

definition normalizeResetInterval :: "js_value \<Rightarrow> BudgetResetInterval" where
  "normalizeResetInterval v =
     (case v of
        Str s \<Rightarrow>
          let t = map js_lower (js_trim s) in
          if t = ''weekly'' then Reset_weekly else if t = ''monthly'' then Reset_monthly else Reset_daily
      | _ \<Rightarrow> Reset_daily)"

definition interval_name :: "BudgetResetInterval \<Rightarrow> string" where
  "interval_name i = (case i of Reset_daily \<Rightarrow> ''daily'' | Reset_weekly \<Rightarrow> ''weekly'' | Reset_monthly \<Rightarrow> ''monthly'')"

text \<open>\<open>RESET_TIME_REGEX\<close>: two digits, a colon, two digits.\<close>

fun match_reset_time :: "string \<Rightarrow> (int \<times> int) option" where
  "match_reset_time [a, b, c, d, e] =
     (if is_digit a \<and> is_digit b \<and> c = CHR 0x3A \<and> is_digit d \<and> is_digit e
      then Some (10 * digit_value a + digit_value b, 10 * digit_value d + digit_value e) else None)"
| "match_reset_time _ = None"

definition pad2 :: "int \<Rightarrow> string" where
  "pad2 n = [digit (nat n div 10), digit (nat n mod 10)]"

definition normalizeResetTime :: "js_value \<Rightarrow> string" where
  "normalizeResetTime v =
     (case v of
        Str s \<Rightarrow>
          (case match_reset_time (js_trim s) of
             Some (h, m) \<Rightarrow> pad2 (min (max h 0) 23) @ '':'' @ pad2 (min (max m 0) 59)
           | None \<Rightarrow> ''00:00'')
      | _ \<Rightarrow> ''00:00'')"

definition normalizeTimestamp :: "int option \<Rightarrow> int option" where
  "normalizeTimestamp t = (case t of Some ms \<Rightarrow> if ms > 0 then Some ms else None | None \<Rightarrow> None)"

definition normalizeBudgetConfig :: "(string \<Rightarrow> js_number) \<Rightarrow> BudgetConfig \<Rightarrow> NormalizedBudgetConfig" where
  "normalizeBudgetConfig num_of c =
     \<lparr>dailyLimitUsd = max 0 (toNumber num_of (bcDailyLimitUsd c) 0),
      weeklyLimitUsd = max 0 (toNumber num_of (bcWeeklyLimitUsd c) 0),
      monthlyLimitUsd = max 0 (toNumber num_of (bcMonthlyLimitUsd c) 0),
      warningThreshold = min (max (toNumber num_of (bcWarningThreshold c) (4 / 5)) 0) 1,
      resetInterval = normalizeResetInterval (bcResetInterval c),
      resetTime = normalizeResetTime (bcResetTime c),
      budgetResetAt = normalizeTimestamp (bcBudgetResetAt c),
      lastBudgetResetAt = normalizeTimestamp (bcLastBudgetResetAt c),
      warningEmittedAt = normalizeTimestamp (bcWarningEmittedAt c),
      warningPeriodStart = normalizeTimestamp (bcWarningPeriodStart c)\<rparr>"

text \<open>A normalised configuration passed to a function that takes any configuration.\<close>

definition as_config :: "NormalizedBudgetConfig \<Rightarrow> BudgetConfig" where
  "as_config b =
     \<lparr>bcDailyLimitUsd = Number (Finite (dailyLimitUsd b)), bcWeeklyLimitUsd = Number (Finite (weeklyLimitUsd b)),
      bcMonthlyLimitUsd = Number (Finite (monthlyLimitUsd b)),
      bcWarningThreshold = Number (Finite (warningThreshold b)),
      bcResetInterval = Str (interval_name (resetInterval b)), bcResetTime = Str (resetTime b),
      bcBudgetResetAt = budgetResetAt b, bcLastBudgetResetAt = lastBudgetResetAt b,
      bcWarningEmittedAt = warningEmittedAt b, bcWarningPeriodStart = warningPeriodStart b\<rparr>"

definition getResetTimeParts :: "string \<Rightarrow> int \<times> int" where
  "getResetTimeParts s = (case match_reset_time s of Some p \<Rightarrow> p | None \<Rightarrow> (0, 0))"


section \<open>Windows\<close>

record BudgetWindow =
  periodStartAt :: int
  nextResetAt :: int

definition getBudgetWindow :: "BudgetResetInterval \<Rightarrow> string \<Rightarrow> int \<Rightarrow> BudgetWindow" where
  "getBudgetWindow interval time now =
     (let (h, mi) = getResetTimeParts (normalizeResetTime (Str time));
          n = day_of now;
          year = year_of_day n; month = month_of_day n; day = date_of_day n
      in case interval of
           Reset_weekly \<Rightarrow>
             let since_monday = (weekday_of_day n + 6) mod 7;
                 this = utc_ms year month (day - since_monday) h mi
             in if now \<ge> this
                then \<lparr>periodStartAt = this, nextResetAt = utc_ms year month (day - since_monday + 7) h mi\<rparr>
                else \<lparr>periodStartAt = utc_ms year month (day - since_monday - 7) h mi, nextResetAt = this\<rparr>
         | Reset_monthly \<Rightarrow>
             let this = utc_ms year month 1 h mi
             in if now \<ge> this
                then \<lparr>periodStartAt = this, nextResetAt = utc_ms year (month + 1) 1 h mi\<rparr>
                else \<lparr>periodStartAt = utc_ms year (month - 1) 1 h mi, nextResetAt = this\<rparr>
         | Reset_daily \<Rightarrow>
             let this = utc_ms year month day h mi
             in if now \<ge> this
                then \<lparr>periodStartAt = this, nextResetAt = utc_ms year month (day + 1) h mi\<rparr>
                else \<lparr>periodStartAt = utc_ms year month (day - 1) h mi, nextResetAt = this\<rparr>)"

definition getActiveBudgetLimit :: "NormalizedBudgetConfig \<Rightarrow> rat" where
  "getActiveBudgetLimit b =
     (case resetInterval b of
        Reset_monthly \<Rightarrow> if monthlyLimitUsd b > 0 then monthlyLimitUsd b else dailyLimitUsd b
      | Reset_weekly \<Rightarrow> if weeklyLimitUsd b > 0 then weeklyLimitUsd b else dailyLimitUsd b
      | Reset_daily \<Rightarrow> dailyLimitUsd b)"


section \<open>State and operations\<close>

text \<open>The period columns of a log row repeat the two reset instants.\<close>

record reset_log =
  rlKey :: string
  rlInterval :: BudgetResetInterval
  rlPreviousSpend :: rat
  rlResetAt :: int
  rlNextResetAt :: int

record budget_state =
  bgCache :: "(string, NormalizedBudgetConfig) js_map"
  bgTable :: "(string, NormalizedBudgetConfig) js_map"
  bgLogs :: "reset_log list"
  bgWarnings :: "(string \<times> int) list"
  bgWriter :: spend_writer
  bgDbUp :: bool

definition saveBudget :: "string \<Rightarrow> NormalizedBudgetConfig \<Rightarrow> budget_state \<Rightarrow> budget_state" where
  "saveBudget k b s = (if bgDbUp s then s\<lparr>bgTable := js_set k b (bgTable s)\<rparr> else s)"

definition loadBudget :: "string \<Rightarrow> budget_state \<Rightarrow> NormalizedBudgetConfig option" where
  "loadBudget k s = (if bgDbUp s then js_get (bgTable s) k else None)"

definition getBudgetWindowTotal :: "string \<Rightarrow> int \<Rightarrow> budget_state \<Rightarrow> rat" where
  "getBudgetWindowTotal k since s =
     (if bgDbUp s then loadCostTotal k since (bgWriter s) + getPendingCostTotal k since None (bgWriter s) else 0)"

definition getBudgetWindowRangeTotal :: "string \<Rightarrow> int \<Rightarrow> int \<Rightarrow> budget_state \<Rightarrow> rat" where
  "getBudgetWindowRangeTotal k since until s =
     (if bgDbUp s then (\<Sum>e\<leftarrow>loadCostEntriesInRange k since until (bgWriter s). ceCost e)
        + getPendingCostTotal k since (Some until) (bgWriter s) else 0)"

definition reset_rolled :: "NormalizedBudgetConfig \<Rightarrow> BudgetWindow \<Rightarrow> bool" where
  "reset_rolled b w = (case lastBudgetResetAt b of Some l \<Rightarrow> periodStartAt w > l | None \<Rightarrow> False)"

definition saveBudgetResetLog :: "string \<Rightarrow> NormalizedBudgetConfig \<Rightarrow> BudgetWindow \<Rightarrow> budget_state \<Rightarrow> budget_state" where
  "saveBudgetResetLog k b w s =
     (if bgDbUp s then
        s\<lparr>bgLogs := bgLogs s @
            [\<lparr>rlKey = k, rlInterval = resetInterval b,
              rlPreviousSpend =
                getBudgetWindowRangeTotal k (case lastBudgetResetAt b of Some l \<Rightarrow> l | None \<Rightarrow> 0) (periodStartAt w) s,
              rlResetAt = periodStartAt w, rlNextResetAt = nextResetAt w\<rparr>]\<rparr>
      else s)"

definition scheduled :: "NormalizedBudgetConfig \<Rightarrow> BudgetWindow \<Rightarrow> NormalizedBudgetConfig" where
  "scheduled b w =
     b\<lparr>budgetResetAt := Some (nextResetAt w), lastBudgetResetAt := Some (periodStartAt w),
       warningEmittedAt := (if reset_rolled b w then None else warningEmittedAt b),
       warningPeriodStart := (if reset_rolled b w then None else warningPeriodStart b)\<rparr>"

definition syncBudgetSchedule ::
  "(string \<Rightarrow> js_number) \<Rightarrow> int \<Rightarrow> string \<Rightarrow> BudgetConfig \<Rightarrow> bool \<Rightarrow> bool \<Rightarrow> budget_state \<Rightarrow>
   NormalizedBudgetConfig \<times> budget_state" where
  "syncBudgetSchedule num_of now k config logReset persist s =
     (let b = normalizeBudgetConfig num_of config;
          w = getBudgetWindow (resetInterval b) (resetTime b) now;
          s = (if reset_rolled b w \<and> logReset then saveBudgetResetLog k b w s else s);
          u = scheduled b w;
          s = (if b \<noteq> u \<and> persist then saveBudget k u s else s)
      in (u, s\<lparr>bgCache := js_set k u (bgCache s)\<rparr>))"

definition setBudget ::
  "(string \<Rightarrow> js_number) \<Rightarrow> int \<Rightarrow> string \<Rightarrow> BudgetConfig \<Rightarrow> budget_state \<Rightarrow> NormalizedBudgetConfig \<times> budget_state" where
  "setBudget num_of now k config s = syncBudgetSchedule num_of now k config False True s"

definition getBudget ::
  "(string \<Rightarrow> js_number) \<Rightarrow> int \<Rightarrow> string \<Rightarrow> budget_state \<Rightarrow> NormalizedBudgetConfig option \<times> budget_state" where
  "getBudget num_of now k s =
     (case js_get (bgCache s) k of
        Some b \<Rightarrow> (case syncBudgetSchedule num_of now k (as_config b) True True s of (u, s) \<Rightarrow> (Some u, s))
      | None \<Rightarrow>
          (case loadBudget k s of
             Some b \<Rightarrow> (case syncBudgetSchedule num_of now k (as_config b) True True s of (u, s) \<Rightarrow> (Some u, s))
           | None \<Rightarrow> (None, s)))"

definition deleteBudget :: "string \<Rightarrow> budget_state \<Rightarrow> budget_state" where
  "deleteBudget k s =
     (let s = s\<lparr>bgCache := js_delete k (bgCache s), bgWriter := discardEntries k (bgWriter s)\<rparr> in
      if bgDbUp s
      then s\<lparr>bgTable := js_delete k (bgTable s), bgLogs := filter (\<lambda>l. rlKey l \<noteq> k) (bgLogs s),
             bgWriter := deleteCostEntries k (bgWriter s)\<rparr>
      else s)"

definition recordCost :: "int \<Rightarrow> persist_call \<Rightarrow> string \<Rightarrow> js_number \<Rightarrow> budget_state \<Rightarrow> budget_state" where
  "recordCost now call k cost s = s\<lparr>bgWriter := increment now call k cost (Some now) (bgWriter s)\<rparr>"

definition resetCostData :: "budget_state \<Rightarrow> budget_state" where
  "resetCostData s =
     (let s = s\<lparr>bgCache := [], bgWriter := resetForTests (bgWriter s)\<rparr> in
      if bgDbUp s then s\<lparr>bgTable := [], bgLogs := [], bgWriter := (bgWriter s)\<lparr>swRows := []\<rparr>\<rparr> else s)"

fun sync_all :: "(string \<Rightarrow> js_number) \<Rightarrow> int \<Rightarrow> (string \<times> NormalizedBudgetConfig) list \<Rightarrow> budget_state \<Rightarrow> nat \<times> budget_state" where
  "sync_all num_of now [] s = (0, s)"
| "sync_all num_of now ((k, b) # rows) s =
     (let (u, s) = syncBudgetSchedule num_of now k (as_config b) True True s;
          (n, s) = sync_all num_of now rows s
      in (if lastBudgetResetAt b \<noteq> lastBudgetResetAt u then n + 1 else n, s))"

definition syncAllBudgetSchedules :: "(string \<Rightarrow> js_number) \<Rightarrow> int \<Rightarrow> budget_state \<Rightarrow> (nat \<times> nat) \<times> budget_state" where
  "syncAllBudgetSchedules num_of now s =
     (if bgDbUp s then
        let rows = filter (\<lambda>(k, _). k \<noteq> []) (bgTable s); (n, s) = sync_all num_of now rows s
        in ((length rows, n), s)
      else ((0, 0), s))"

record budget_check =
  ckAllowed :: bool
  ckWarning :: bool
  ckRemaining :: rat
  ckPeriodUsed :: rat
  ckActiveLimit :: rat
  ckWindow :: "BudgetWindow option"

definition emitBudgetWarning :: "string \<Rightarrow> BudgetWindow \<Rightarrow> budget_state \<Rightarrow> budget_state" where
  "emitBudgetWarning k w s = s\<lparr>bgWarnings := bgWarnings s @ [(k, periodStartAt w)]\<rparr>"

text \<open>The first warning of a period: the cache takes it even when the save throws.\<close>

definition note_warning :: "int \<Rightarrow> string \<Rightarrow> NormalizedBudgetConfig \<Rightarrow> BudgetWindow \<Rightarrow> budget_state \<Rightarrow> budget_state" where
  "note_warning now k b w s =
     (let u = b\<lparr>warningEmittedAt := Some now, warningPeriodStart := Some (periodStartAt w)\<rparr>;
          s = s\<lparr>bgCache := js_set k u (bgCache s)\<rparr>
      in if bgDbUp s then emitBudgetWarning k w (saveBudget k u s) else s)"

definition checkBudget ::
  "(string \<Rightarrow> js_number) \<Rightarrow> int \<Rightarrow> string \<Rightarrow> rat \<Rightarrow> budget_state \<Rightarrow> budget_check \<times> budget_state" where
  "checkBudget num_of now k additional s =
     (case getBudget num_of now k s of
        (None, s) \<Rightarrow>
          (\<lparr>ckAllowed = True, ckWarning = False, ckRemaining = 0, ckPeriodUsed = 0, ckActiveLimit = 0,
            ckWindow = None\<rparr>, s)
      | (Some b, s) \<Rightarrow>
          let w = getBudgetWindow (resetInterval b) (resetTime b) now;
              used = getBudgetWindowTotal k (periodStartAt w) s;
              projected = used + additional;
              limit = getActiveBudgetLimit b;
              warning = (limit > 0 \<and> projected \<ge> limit * warningThreshold b);
              remaining = max (limit - projected) 0;
              s = (if warning \<and> warningPeriodStart b \<noteq> Some (periodStartAt w) then note_warning now k b w s else s)
          in if limit > 0 \<and> projected > limit
             then (\<lparr>ckAllowed = False, ckWarning = True, ckRemaining = remaining, ckPeriodUsed = used,
                    ckActiveLimit = limit, ckWindow = Some w\<rparr>, s)
             else (\<lparr>ckAllowed = True, ckWarning = warning, ckRemaining = remaining, ckPeriodUsed = used,
                    ckActiveLimit = limit, ckWindow = Some w\<rparr>, s))"

section \<open>Normalisation\<close>

lemma match_pad2:
  assumes "0 \<le> a" "a < 100" "0 \<le> b" "b < 100"
  shows "match_reset_time (pad2 a @ '':'' @ pad2 b) = Some (a, b)"
proof -
  have "nat a div 10 < 10" "nat b div 10 < 10" using assms by linarith+
  then show ?thesis
    using assms digit_facts by (simp add: pad2_def) (simp add: zdiv_int zmod_int)
qed

lemma trim_pad2:
  assumes "0 \<le> a" "a < 100" "0 \<le> b" "b < 100"
  shows "js_trim (pad2 a @ '':'' @ pad2 b) = pad2 a @ '':'' @ pad2 b"
proof -
  have "nat a div 10 < 10" "nat b div 10 < 10" using assms by linarith+
  then have "\<not> js_space c" if "c \<in> set (pad2 a @ '':'' @ pad2 b)" for c
    using that digit_facts by (auto simp: pad2_def) (simp_all add: js_space_def Let_def)
  then show ?thesis by (rule js_trim_none)
qed

lemma normalizeResetTime_form:
  "\<exists>h m. 0 \<le> h \<and> h \<le> 23 \<and> 0 \<le> m \<and> m \<le> 59 \<and> normalizeResetTime v = pad2 h @ '':'' @ pad2 m"
proof -
  have "char_of (of_char (CHR ''0'') :: nat) = CHR ''0''" by (rule char_of_char)
  then have "''00:00'' = pad2 0 @ '':'' @ pad2 0" by (simp add: pad2_def digit_def)
  then have "\<exists>h m. 0 \<le> h \<and> h \<le> 23 \<and> 0 \<le> m \<and> m \<le> 59 \<and> ''00:00'' = pad2 h @ '':'' @ pad2 m"
    by (intro exI [of _ 0]) simp
  moreover have "\<exists>h m. 0 \<le> h \<and> h \<le> 23 \<and> 0 \<le> m \<and> m \<le> 59
      \<and> pad2 (min (max a 0) 23) @ '':'' @ pad2 (min (max b 0) 59) = pad2 h @ '':'' @ pad2 m" for a b
    by (intro exI [of _ "min (max a 0) 23"] exI [of _ "min (max b 0) 59"]) simp
  ultimately show ?thesis
    by (simp add: normalizeResetTime_def split: js_value.split option.split prod.split)
qed

lemma normalizeResetTime_idem [simp]: "normalizeResetTime (Str (normalizeResetTime v)) = normalizeResetTime v"
proof -
  obtain h m where f: "0 \<le> h" "h \<le> 23" "0 \<le> m" "m \<le> 59" "normalizeResetTime v = pad2 h @ '':'' @ pad2 m"
    using normalizeResetTime_form by blast
  have "normalizeResetTime (Str (pad2 h @ '':'' @ pad2 m))
      = (case match_reset_time (pad2 h @ '':'' @ pad2 m) of
           Some (h, m) \<Rightarrow> pad2 (min (max h 0) 23) @ '':'' @ pad2 (min (max m 0) 59) | None \<Rightarrow> ''00:00'')"
    using f trim_pad2 [of h m] by (simp add: normalizeResetTime_def del: append.simps append_Cons)
  also have "\<dots> = pad2 h @ '':'' @ pad2 m"
    using f match_pad2 [of h m] by (simp del: append.simps append_Cons)
  finally show ?thesis using f(5) by simp
qed

lemma reset_parts:
  assumes "getResetTimeParts (normalizeResetTime v) = (h, m)"
  shows "0 \<le> h \<and> h \<le> 23 \<and> 0 \<le> m \<and> m \<le> 59"
proof -
  obtain a b where f: "0 \<le> a" "a \<le> 23" "0 \<le> b" "b \<le> 59" "normalizeResetTime v = pad2 a @ '':'' @ pad2 b"
    using normalizeResetTime_form by blast
  with match_pad2 [of a b] have "getResetTimeParts (normalizeResetTime v) = (a, b)"
    by (simp add: getResetTimeParts_def del: append.simps append_Cons)
  with assms f show ?thesis by simp
qed

lemma interval_name_back [simp]: "normalizeResetInterval (Str (interval_name i)) = i"
  by (cases i) (simp_all add: normalizeResetInterval_def interval_name_def js_trim_def js_space_def js_lower_def)

text \<open>What every stored configuration satisfies: normalising it again changes nothing.\<close>

definition budget_ok :: "NormalizedBudgetConfig \<Rightarrow> bool" where
  "budget_ok b \<longleftrightarrow> (\<forall>num_of. normalizeBudgetConfig num_of (as_config b) = b)"

lemma normalizeTimestamp_idem [simp]: "normalizeTimestamp (normalizeTimestamp t) = normalizeTimestamp t"
  by (simp add: normalizeTimestamp_def split: option.split)

lemma normalize_budget_ok: "budget_ok (normalizeBudgetConfig num_of c)"
proof -
  have "resetTime (normalizeBudgetConfig num_of c) = normalizeResetTime (bcResetTime c)"
    by (simp add: normalizeBudgetConfig_def)
  then show ?thesis
    by (simp add: budget_ok_def) (simp add: normalizeBudgetConfig_def as_config_def toNumber_def)
qed

lemma budget_ok_normalize: "budget_ok b \<Longrightarrow> normalizeBudgetConfig num_of (as_config b) = b"
  by (simp add: budget_ok_def)

lemma budget_ok_threshold: "budget_ok b \<Longrightarrow> 0 \<le> warningThreshold b \<and> warningThreshold b \<le> 1"
proof -
  assume "budget_ok b"
  then have "warningThreshold (normalizeBudgetConfig (\<lambda>_. NaN) (as_config b)) = warningThreshold b"
    by (simp add: budget_ok_normalize)
  then show ?thesis by (simp add: normalizeBudgetConfig_def as_config_def toNumber_def min_def max_def split: if_splits)
qed


section \<open>Windows tile the time line\<close>

definition month_start :: "int \<Rightarrow> int" where
  "month_start i = make_day 0 i 1"

lemma month_start_make: "make_day y m 1 = month_start (12 * y + m)"
proof -
  have "(12 * y + m) div 12 = y + m div 12" "(12 * y + m) mod 12 = m mod 12" by simp_all
  then show ?thesis by (simp add: month_start_def make_day_def)
qed

lemma month_start_step: "month_start i + 28 \<le> month_start (i + 1)" "month_start (i + 1) \<le> month_start i + 31"
  using month_length [of 0 i] by (simp_all add: month_start_def)

lemma month_start_mono: "i \<le> j \<Longrightarrow> month_start i \<le> month_start j"
proof (induction j rule: int_ge_induct)
  case (step j)
  with month_start_step(1) [of j] show ?case by simp
qed simp

text \<open>The time of day of a reset, and the two shapes of windows.\<close>

definition reset_offset :: "string \<Rightarrow> int" where
  "reset_offset time = (case getResetTimeParts (normalizeResetTime (Str time)) of (h, m) \<Rightarrow> h * 3600000 + m * 60000)"

lemma reset_offset_range: "0 \<le> reset_offset time" "reset_offset time < ms_per_day"
proof -
  obtain h m where p: "getResetTimeParts (normalizeResetTime (Str time)) = (h, m)" by fastforce
  with reset_parts [OF p] show "0 \<le> reset_offset time" "reset_offset time < ms_per_day"
    by (simp_all add: reset_offset_def ms_per_day_def)
qed

definition days_window :: "int \<Rightarrow> int \<Rightarrow> int \<Rightarrow> BudgetWindow" where
  "days_window a d off = \<lparr>periodStartAt = a * ms_per_day + off, nextResetAt = (a + d) * ms_per_day + off\<rparr>"

definition month_window :: "int \<Rightarrow> int \<Rightarrow> BudgetWindow" where
  "month_window i off =
     \<lparr>periodStartAt = month_start i * ms_per_day + off, nextResetAt = month_start (i + 1) * ms_per_day + off\<rparr>"

lemma utc_ms_date:
  assumes "0 \<le> now" "getResetTimeParts (normalizeResetTime (Str time)) = (h, mi)"
  shows "utc_ms (year_of_day (day_of now)) (month_of_day (day_of now)) (date_of_day (day_of now) + k) h mi
      = (day_of now + k) * ms_per_day + reset_offset time"
    and "utc_ms (year_of_day (day_of now)) (month_of_day (day_of now) + k) 1 h mi
      = month_start (12 * year_of_day (day_of now) + month_of_day (day_of now) + k) * ms_per_day + reset_offset time"
proof -
  have "0 \<le> day_of now" using assms(1) by (simp add: day_of_def ms_per_day_def)
  note y = full_year_recent [OF this]
  show "utc_ms (year_of_day (day_of now)) (month_of_day (day_of now)) (date_of_day (day_of now) + k) h mi
      = (day_of now + k) * ms_per_day + reset_offset time"
    unfolding utc_ms_def y make_day_date using assms(2) by (simp add: reset_offset_def)
  show "utc_ms (year_of_day (day_of now)) (month_of_day (day_of now) + k) 1 h mi
      = month_start (12 * year_of_day (day_of now) + month_of_day (day_of now) + k) * ms_per_day + reset_offset time"
    unfolding utc_ms_def y month_start_make using assms(2) by (simp add: reset_offset_def add.assoc)
qed

definition contains :: "BudgetWindow \<Rightarrow> int \<Rightarrow> bool" where
  "contains w t \<longleftrightarrow> periodStartAt w \<le> t \<and> t < nextResetAt w"

text \<open>The windows of an interval at a reset time, numbered along the time line.\<close>

definition window_at :: "BudgetResetInterval \<Rightarrow> string \<Rightarrow> int \<Rightarrow> BudgetWindow" where
  "window_at interval time j =
     (case interval of
        Reset_daily \<Rightarrow> days_window j 1 (reset_offset time)
      | Reset_weekly \<Rightarrow> days_window (7 * j - 3) 7 (reset_offset time)
      | Reset_monthly \<Rightarrow> month_window j (reset_offset time))"

lemma since_monday: "n - ((n + 4) mod 7 + 6) mod 7 = 7 * ((n + 3) div 7) - (3::int)"
  by presburger

lemma getBudgetWindow_daily:
  assumes "0 \<le> now"
  shows "getBudgetWindow Reset_daily time now
    = window_at Reset_daily time (if now \<ge> day_of now * ms_per_day + reset_offset time then day_of now else day_of now - 1)"
proof -
  obtain h m where p: "getResetTimeParts (normalizeResetTime (Str time)) = (h, m)" by fastforce
  note u = utc_ms_date(1) [OF assms p]
  show ?thesis
    using u [of 0] u [of 1] u [of "- 1"] p
    by (simp add: getBudgetWindow_def window_at_def days_window_def Let_def)
qed

lemma getBudgetWindow_weekly:
  assumes "0 \<le> now"
  shows "getBudgetWindow Reset_weekly time now
    = window_at Reset_weekly time
        (if now \<ge> (7 * ((day_of now + 3) div 7) - 3) * ms_per_day + reset_offset time
         then (day_of now + 3) div 7 else (day_of now + 3) div 7 - 1)"
proof -
  obtain h m where p: "getResetTimeParts (normalizeResetTime (Str time)) = (h, m)" by fastforce
  define s where "s = ((day_of now + 4) mod 7 + 6) mod 7"
  define j where "j = (day_of now + 3) div 7"
  have s: "day_of now - s = 7 * j - 3" unfolding s_def j_def by (rule since_monday)
  define y mo da where "y = year_of_day (day_of now)" and "mo = month_of_day (day_of now)"
    and "da = date_of_day (day_of now)"
  note u = utc_ms_date(1) [OF assms p, folded y_def mo_def da_def]
  have 1: "utc_ms y mo (da - s) h m = (7 * j - 3) * ms_per_day + reset_offset time"
    using u [of "- s"] s by simp
  have "da + (7 - s) = da - s + 7" "day_of now + (7 - s) = 7 * j - 3 + 7" using s by simp_all
  then have 2: "utc_ms y mo (da - s + 7) h m = (7 * j - 3 + 7) * ms_per_day + reset_offset time"
    using u [of "7 - s"] by metis
  have "da + (- 7 - s) = da - s - 7" "day_of now + (- 7 - s) = 7 * (j - 1) - 3" using s by simp_all
  then have 3: "utc_ms y mo (da - s - 7) h m = (7 * (j - 1) - 3) * ms_per_day + reset_offset time"
    using u [of "- 7 - s"] by metis
  have 4: "7 * (j - 1) - 3 + 7 = 7 * j - (3 :: int)" by simp
  show ?thesis
    unfolding getBudgetWindow_def p prod.case Let_def BudgetResetInterval.case weekday_of_day_def
      s_def [symmetric] j_def [symmetric] y_def [symmetric] mo_def [symmetric] da_def [symmetric] 1 2 3
      window_at_def days_window_def
    by (simp only: if_distrib BudgetWindow.select_convs 4 split: if_split) simp
qed

lemma getBudgetWindow_monthly:
  assumes "0 \<le> now"
  defines "i \<equiv> 12 * year_of_day (day_of now) + month_of_day (day_of now)"
  shows "getBudgetWindow Reset_monthly time now
    = window_at Reset_monthly time (if now \<ge> month_start i * ms_per_day + reset_offset time then i else i - 1)"
proof -
  obtain h m where p: "getResetTimeParts (normalizeResetTime (Str time)) = (h, m)" by fastforce
  note u = utc_ms_date(2) [OF assms(1) p, folded i_def]
  show ?thesis
    using u [of 0] u [of 1] u [of "- 1"] p
    by (simp add: getBudgetWindow_def window_at_def month_window_def Let_def)
qed

lemma window_contains:
  assumes "0 \<le> now"
  obtains j where "getBudgetWindow interval time now = window_at interval time j"
    "contains (window_at interval time j) now"
proof -
  note d = day_of_bounds [of now] and o = reset_offset_range [of time]
  show thesis
  proof (cases interval)
    case Reset_daily
    show thesis
      by (rule that [OF getBudgetWindow_daily [OF assms, folded Reset_daily]])
        (use d o in \<open>simp add: Reset_daily window_at_def days_window_def contains_def ms_per_day_def\<close>)
  next
    case Reset_weekly
    define j where "j = (day_of now + 3) div 7"
    have "7 * j \<le> day_of now + 3" "day_of now + 3 < 7 * j + 7"
      unfolding j_def using div_bounds [of 7 "day_of now + 3"] by simp_all
    with d o show thesis
      by (intro that [OF getBudgetWindow_weekly [OF assms, folded Reset_weekly j_def]])
        (simp add: Reset_weekly window_at_def days_window_def contains_def ms_per_day_def)
  next
    case Reset_monthly
    define i where "i = 12 * year_of_day (day_of now) + month_of_day (day_of now)"
    have m: "month_start i \<le> day_of now" "day_of now < month_start (i + 1)"
      using make_day_month [of "day_of now"] unfolding i_def month_start_make by (simp_all add: add.assoc)
    have "day_of now + 1 \<le> month_start (i + 1)" using m by simp
    moreover have "month_start (i - 1) + 28 \<le> month_start i" using month_start_step(1) [of "i - 1"] by simp
    ultimately show thesis using d o m
      by (intro that [OF getBudgetWindow_monthly [OF assms, folded Reset_monthly i_def]])
        (simp add: Reset_monthly window_at_def month_window_def contains_def ms_per_day_def)
  qed
qed

lemma window_at_order:
  assumes "i < j"
  shows "nextResetAt (window_at interval time i) \<le> periodStartAt (window_at interval time j)"
proof (cases interval)
  case Reset_monthly
  have "month_start (i + 1) \<le> month_start j" using assms by (intro month_start_mono) simp
  with Reset_monthly show ?thesis by (simp add: window_at_def month_window_def ms_per_day_def)
qed (use assms in \<open>simp_all add: window_at_def days_window_def ms_per_day_def\<close>)

lemma window_at_unique:
  assumes "contains (window_at interval time i) t" "contains (window_at interval time j) t"
  shows "i = j"
  using assms window_at_order [of i j interval time] window_at_order [of j i interval time]
  by (cases i j rule: linorder_cases) (auto simp: contains_def)

lemma window_stable:
  assumes "0 \<le> now" "0 \<le> later" "contains (getBudgetWindow interval time now) later"
  shows "getBudgetWindow interval time later = getBudgetWindow interval time now"
proof -
  obtain i where i: "getBudgetWindow interval time now = window_at interval time i"
    by (rule window_contains [OF assms(1)])
  obtain j where j: "getBudgetWindow interval time later = window_at interval time j"
    "contains (window_at interval time j) later" by (rule window_contains [OF assms(2)])
  from window_at_unique [OF _ j(2)] assms(3) i have "i = j" by simp
  with i j show ?thesis by simp
qed

lemma window_start_nonneg_later:
  assumes "0 \<le> now" "now \<le> later" "\<not> contains (getBudgetWindow interval time now) later"
  shows "nextResetAt (getBudgetWindow interval time now) \<le> periodStartAt (getBudgetWindow interval time later)"
proof -
  obtain i where i: "getBudgetWindow interval time now = window_at interval time i"
    "contains (window_at interval time i) now" by (rule window_contains [OF assms(1)])
  have "0 \<le> later" using assms by simp
  then obtain j where j: "getBudgetWindow interval time later = window_at interval time j"
    "contains (window_at interval time j) later" by (rule window_contains)
  have "i \<noteq> j" using assms(3) i(1) j(2) by auto
  moreover have "\<not> j < i"
    using window_at_order [of j i interval time] i(2) j(2) assms(2) by (auto simp: contains_def)
  ultimately show ?thesis using window_at_order [of i j interval time] i(1) j(1) by simp
qed

lemma window_at_next:
  "periodStartAt (window_at interval time (j + 1)) = nextResetAt (window_at interval time j)"
  by (cases interval) (simp_all add: window_at_def days_window_def month_window_def)

text \<open>How long the windows of an interval are.\<close>

fun length_ok :: "BudgetResetInterval \<Rightarrow> int \<Rightarrow> bool" where
  "length_ok Reset_daily d = (d = ms_per_day)"
| "length_ok Reset_weekly d = (d = 7 * ms_per_day)"
| "length_ok Reset_monthly d = (28 * ms_per_day \<le> d \<and> d \<le> 31 * ms_per_day)"

lemma length_ok_bounds: "length_ok interval d \<Longrightarrow> ms_per_day \<le> d \<and> d \<le> 31 * ms_per_day"
  by (cases interval) (simp_all add: ms_per_day_def)

lemma window_at_length:
  "length_ok interval (nextResetAt (window_at interval time j) - periodStartAt (window_at interval time j))"
proof (cases interval)
  case Reset_monthly
  with month_start_step [of j] show ?thesis
    by (simp add: window_at_def month_window_def flip: left_diff_distrib) (simp add: ms_per_day_def)
qed (simp_all add: window_at_def days_window_def algebra_simps)

lemma window_at_nonempty: "periodStartAt (window_at interval time j) < nextResetAt (window_at interval time j)"
  using length_ok_bounds [OF window_at_length [of interval time j]] by (simp add: ms_per_day_def)

lemma window_after:
  assumes "0 \<le> now"
  shows "periodStartAt (getBudgetWindow interval time (nextResetAt (getBudgetWindow interval time now)))
    = nextResetAt (getBudgetWindow interval time now)"
proof -
  obtain i where i: "getBudgetWindow interval time now = window_at interval time i"
    "contains (window_at interval time i) now" by (rule window_contains [OF assms])
  define t where "t = nextResetAt (window_at interval time i)"
  have "0 \<le> t" using i(2) assms by (simp add: t_def contains_def)
  then obtain j where j: "getBudgetWindow interval time t = window_at interval time j"
    "contains (window_at interval time j) t" by (rule window_contains)
  have "contains (window_at interval time (i + 1)) t"
    using window_at_nonempty [of interval time "i + 1"] by (simp add: t_def contains_def window_at_next)
  then have "j = i + 1" using window_at_unique j(2) by blast
  with i(1) j(1) show ?thesis by (simp add: t_def window_at_next)
qed

text \<open>
  The budget window of an instant contains that instant, is one day, one week or one month
  long, is the window of every other instant it contains, and the window of its reset time starts
  where it ends: the windows of an interval follow each other without gap or overlap.
\<close>

lemma budget_windows_tile:
  assumes "0 \<le> now" and w: "w = getBudgetWindow interval time now"
  shows "contains w now \<and> length_ok interval (nextResetAt w - periodStartAt w)
    \<and> (\<forall>later \<ge> 0. contains w later \<longrightarrow> getBudgetWindow interval time later = w)
    \<and> periodStartAt (getBudgetWindow interval time (nextResetAt w)) = nextResetAt w"
proof -
  obtain i where i: "getBudgetWindow interval time now = window_at interval time i"
    "contains (window_at interval time i) now" by (rule window_contains [OF assms(1)])
  with window_at_length [of interval time i] window_stable [OF assms(1), where interval = interval and time = time]
    window_after [OF assms(1), of interval time] w
  show ?thesis by simp
qed

end
