(* ===== verification/Budget_Properties.thy ===== *)
theory Budget_Properties
  imports Budget_Rules
begin

text \<open>
  The cost summaries of \<open>src/domain/costRules.ts\<close>, and what holds of whole runs of the budget
  operations: every reset is logged at most once, the check counts exactly what was recorded, and
  the summary shows what the check counts. The host's time zone is a parameter: \<open>local_day\<close> and
  \<open>local_month\<close> give the last local midnight and the first of the local month.
\<close>


section \<open>Summaries\<close>

definition sumEntries :: "BufferedCostEntry list \<Rightarrow> rat" where
  "sumEntries es = foldl (\<lambda>sum e. sum + ceCost e) 0 es"

definition getDailyTotal :: "(int \<Rightarrow> int) \<Rightarrow> int \<Rightarrow> string \<Rightarrow> budget_state \<Rightarrow> rat" where
  "getDailyTotal local_day now k s =
     (if bgDbUp s
      then sumEntries (loadCostEntries k (local_day now) (bgWriter s))
         + getPendingCostTotal k (local_day now) None (bgWriter s)
      else 0)"

record BudgetSummary =
  smDailyTotal :: rat
  smMonthlyTotal :: rat
  smTotalEntries :: nat
  smBudget :: "NormalizedBudgetConfig option"
  smPeriodTotal :: rat
  smActiveLimitUsd :: rat
  smBudgetResetAt :: "int option"
  smLastBudgetResetAt :: "int option"
  smPeriodStartAt :: "int option"
  smNextResetAt :: "int option"

definition or_else :: "'a option \<Rightarrow> 'a option \<Rightarrow> 'a option" where
  "or_else a b = (case a of Some x \<Rightarrow> Some x | None \<Rightarrow> b)"

definition all_entries :: "string \<Rightarrow> int \<Rightarrow> budget_state \<Rightarrow> BufferedCostEntry list" where
  "all_entries k since s = loadCostEntries k since (bgWriter s) @ getBufferedEntries k since None (bgWriter s)"

definition getCostSummary ::
  "(int \<Rightarrow> int) \<Rightarrow> (int \<Rightarrow> int) \<Rightarrow> (string \<Rightarrow> js_number) \<Rightarrow> int \<Rightarrow> string \<Rightarrow> budget_state \<Rightarrow>
   BudgetSummary \<times> budget_state" where
  "getCostSummary local_day local_month num_of now k s =
     (let (budget, s) = getBudget num_of now k s;
          window = map_option (\<lambda>b. getBudgetWindow (resetInterval b) (resetTime b) now) budget;
          limit = (case budget of Some b \<Rightarrow> getActiveBudgetLimit b | None \<Rightarrow> 0);
          reset = Option.bind budget budgetResetAt;
          last = Option.bind budget lastBudgetResetAt
      in if bgDbUp s then
           (let daily = all_entries k (local_day now) s;
                monthly = all_entries k (local_month now) s;
                period = (case window of Some w \<Rightarrow> all_entries k (periodStartAt w) s | None \<Rightarrow> [])
            in (\<lparr>smDailyTotal = sumEntries daily, smMonthlyTotal = sumEntries monthly,
                 smTotalEntries = length monthly, smBudget = budget, smPeriodTotal = sumEntries period,
                 smActiveLimitUsd = limit,
                 smBudgetResetAt = or_else (map_option nextResetAt window) reset,
                 smLastBudgetResetAt = or_else (map_option periodStartAt window) last,
                 smPeriodStartAt = map_option periodStartAt window,
                 smNextResetAt = map_option nextResetAt window\<rparr>, s))
         else
           (\<lparr>smDailyTotal = 0, smMonthlyTotal = 0, smTotalEntries = 0, smBudget = budget, smPeriodTotal = 0,
             smActiveLimitUsd = limit, smBudgetResetAt = reset, smLastBudgetResetAt = last,
             smPeriodStartAt = last, smNextResetAt = reset\<rparr>, s))"

text \<open>Log rows of one key, the latest first; without the database it throws.\<close>

definition loadBudgetResetLogs :: "string \<Rightarrow> int \<Rightarrow> budget_state \<Rightarrow> reset_log list option" where
  "loadBudgetResetLogs k limit s =
     (if bgDbUp s
      then Some (filter (\<lambda>l. rlKey l \<noteq> [])
        (take (nat (max 1 limit)) (rev (sort_key rlResetAt (filter (\<lambda>l. rlKey l = k) (bgLogs s))))))
      else None)"


section \<open>Runs\<close>

definition new_budgets :: "nat \<Rightarrow> budget_state" where
  "new_budgets mx =
     \<lparr>bgCache = [], bgTable = [], bgLogs = [], bgWarnings = [], bgWriter = new_writer mx, bgDbUp = True\<rparr>"

datatype budget_event =
    Bg_set string BudgetConfig
  | Bg_get string
  | Bg_delete string
  | Bg_check string rat
  | Bg_sync_all
  | Bg_writer writer_event
  | Bg_db bool

fun budget_step :: "(string \<Rightarrow> js_number) \<Rightarrow> budget_state \<Rightarrow> int \<times> budget_event \<Rightarrow> budget_state" where
  "budget_step num_of s (now, Bg_set k c) = snd (setBudget num_of now k c s)"
| "budget_step num_of s (now, Bg_get k) = snd (getBudget num_of now k s)"
| "budget_step num_of s (now, Bg_delete k) = deleteBudget k s"
| "budget_step num_of s (now, Bg_check k x) = snd (checkBudget num_of now k x s)"
| "budget_step num_of s (now, Bg_sync_all) = snd (syncAllBudgetSchedules num_of now s)"
| "budget_step num_of s (now, Bg_writer e) = s\<lparr>bgWriter := writer_step (bgWriter s) (now, e)\<rparr>"
| "budget_step num_of s (now, Bg_db up) = s\<lparr>bgDbUp := up\<rparr>"

definition resets :: "string \<Rightarrow> budget_state \<Rightarrow> int list" where
  "resets k s = map rlResetAt (filter (\<lambda>l. rlKey l = k) (bgLogs s))"

text \<open>
  A cached or stored budget is normalised and scheduled for a window that ends after the last
  reset logged for its key.
\<close>

definition window_ok :: "NormalizedBudgetConfig \<Rightarrow> int list \<Rightarrow> bool" where
  "window_ok b rs \<longleftrightarrow>
     (\<exists>i. lastBudgetResetAt b = Some (periodStartAt (window_at (resetInterval b) (resetTime b) i))
        \<and> (\<forall>r \<in> set rs. r < nextResetAt (window_at (resetInterval b) (resetTime b) i)))"

definition budgets_ok :: "int \<Rightarrow> budget_state \<Rightarrow> bool" where
  "budgets_ok t s \<longleftrightarrow>
     js_map_ok (bgTable s)
   \<and> (\<forall>k. sorted_wrt (<) (resets k s) \<and> (\<forall>r \<in> set (resets k s). r \<le> t))
   \<and> (\<forall>k b. js_get (bgCache s) k = Some b \<or> js_get (bgTable s) k = Some b \<longrightarrow>
        budget_ok b \<and> window_ok b (resets k s))"

text \<open>The first instant from which every window starts after 1970.\<close>

definition epoch :: int where
  "epoch = 31 * ms_per_day"

lemma resets_save [simp]: "resets k' (saveBudget k b s) = resets k' s"
  by (simp add: saveBudget_def resets_def)

lemma resets_cache [simp]: "resets k' (s\<lparr>bgCache := c\<rparr>) = resets k' s"
  by (simp add: resets_def)

lemma resets_warnings [simp]: "resets k' (s\<lparr>bgWarnings := c\<rparr>) = resets k' s"
  by (simp add: resets_def)

lemma resets_log:
  "resets k' (saveBudgetResetLog k b w s)
    = (if bgDbUp s \<and> k' = k then resets k' s @ [periodStartAt w] else resets k' s)"
  by (simp add: saveBudgetResetLog_def resets_def)

lemma window_ok_earlier: "window_ok b rs \<Longrightarrow> set rs' \<subseteq> set rs \<Longrightarrow> window_ok b rs'"
  unfolding window_ok_def by blast

lemma scheduled_fields [simp]:
  "resetInterval (scheduled b w) = resetInterval b" "resetTime (scheduled b w) = resetTime b"
  "lastBudgetResetAt (scheduled b w) = Some (periodStartAt w)"
  "budgetResetAt (scheduled b w) = Some (nextResetAt w)"
  by (simp_all add: scheduled_def)

lemma budget_ok_scheduled:
  assumes "budget_ok b" "0 < periodStartAt w" "0 < nextResetAt w"
  shows "budget_ok (scheduled b w)"
  unfolding budget_ok_def
proof
  fix num_of
  have "normalizeBudgetConfig num_of (as_config b) = b" by (rule budget_ok_normalize [OF assms(1)])
  with assms(2,3) show "normalizeBudgetConfig num_of (as_config (scheduled b w)) = scheduled b w"
    by (cases b) (simp add: normalizeBudgetConfig_def as_config_def scheduled_def normalizeTimestamp_def)
qed

lemma window_positive:
  assumes "epoch \<le> now"
  shows "0 < periodStartAt (getBudgetWindow interval time now)"
    "periodStartAt (getBudgetWindow interval time now) \<le> now"
    "now < nextResetAt (getBudgetWindow interval time now)"
proof -
  have now: "0 \<le> now" using assms by (simp add: epoch_def ms_per_day_def)
  obtain i where i: "getBudgetWindow interval time now = window_at interval time i"
    "contains (window_at interval time i) now" by (rule window_contains [OF now])
  with length_ok_bounds [OF window_at_length [of interval time i]] assms
  show "0 < periodStartAt (getBudgetWindow interval time now)"
    "periodStartAt (getBudgetWindow interval time now) \<le> now"
    "now < nextResetAt (getBudgetWindow interval time now)"
    by (simp_all add: contains_def epoch_def)
qed

text \<open>A budget scheduled for the window of the current time is in order, whatever was logged before.\<close>

lemma window_ok_scheduled:
  assumes "epoch \<le> now" "\<forall>r \<in> set rs. r \<le> now"
  shows "window_ok (scheduled b (getBudgetWindow (resetInterval b) (resetTime b) now)) rs"
proof -
  have "0 \<le> now" using assms(1) by (simp add: epoch_def ms_per_day_def)
  then obtain i where "getBudgetWindow (resetInterval b) (resetTime b) now = window_at (resetInterval b) (resetTime b) i"
    "contains (window_at (resetInterval b) (resetTime b) i) now" by (rule window_contains)
  with assms(2) show ?thesis unfolding window_ok_def by (intro exI [of _ i]) (auto simp: contains_def)
qed

text \<open>A reset that is logged is later than every reset logged before.\<close>

lemma rolled_later:
  assumes "0 \<le> now" "window_ok b rs" "reset_rolled b (getBudgetWindow (resetInterval b) (resetTime b) now)"
  shows "\<forall>r \<in> set rs. r < periodStartAt (getBudgetWindow (resetInterval b) (resetTime b) now)"
proof -
  obtain i where i: "lastBudgetResetAt b = Some (periodStartAt (window_at (resetInterval b) (resetTime b) i))"
    "\<forall>r \<in> set rs. r < nextResetAt (window_at (resetInterval b) (resetTime b) i)"
    using assms(2) unfolding window_ok_def by blast
  obtain j where j: "getBudgetWindow (resetInterval b) (resetTime b) now = window_at (resetInterval b) (resetTime b) j"
    by (rule window_contains [OF assms(1)])
  have less: "periodStartAt (window_at (resetInterval b) (resetTime b) i)
      < periodStartAt (window_at (resetInterval b) (resetTime b) j)"
    using assms(3) i(1) j by (simp add: reset_rolled_def)
  have "i < j"
  proof (rule ccontr)
    assume "\<not> i < j"
    then have "i = j \<or> j < i" by auto
    with less window_at_order [of j i "resetInterval b" "resetTime b"]
      window_at_nonempty [of "resetInterval b" "resetTime b" j] show False by auto
  qed
  from window_at_order [OF this] have "nextResetAt (window_at (resetInterval b) (resetTime b) i)
      \<le> periodStartAt (window_at (resetInterval b) (resetTime b) j)" by blast
  with i(2) j show ?thesis by fastforce
qed

lemma sync_result:
  "fst (syncBudgetSchedule num_of now k c lg True s)
    = scheduled (normalizeBudgetConfig num_of c)
        (getBudgetWindow (resetInterval (normalizeBudgetConfig num_of c)) (resetTime (normalizeBudgetConfig num_of c)) now)"
  by (simp add: syncBudgetSchedule_def Let_def)

lemma sync_fields:
  fixes num_of now k c lg s
  defines "b \<equiv> normalizeBudgetConfig num_of c"
  defines "w \<equiv> getBudgetWindow (resetInterval b) (resetTime b) now"
  defines "s' \<equiv> snd (syncBudgetSchedule num_of now k c lg True s)"
  shows "bgCache s' = js_set k (scheduled b w) (bgCache s)"
    and "bgTable s' = (if bgDbUp s \<and> b \<noteq> scheduled b w then js_set k (scheduled b w) (bgTable s) else bgTable s)"
    and "resets k' s' = (if reset_rolled b w \<and> lg \<and> bgDbUp s \<and> k' = k then resets k' s @ [periodStartAt w] else resets k' s)"
    and "bgDbUp s' = bgDbUp s" "bgWriter s' = bgWriter s"
  by (simp_all add: syncBudgetSchedule_def Let_def s'_def b_def [symmetric] w_def [symmetric] resets_log)
    (simp_all add: saveBudget_def saveBudgetResetLog_def)

lemma sync_budgets_ok:
  assumes inv: "budgets_ok t s" and t: "t \<le> now" "epoch \<le> now"
    and log: "lg \<Longrightarrow> window_ok (normalizeBudgetConfig num_of c) (resets k s)"
  shows "budgets_ok now (snd (syncBudgetSchedule num_of now k c lg True s))"
proof -
  define b where "b = normalizeBudgetConfig num_of c"
  define w where "w = getBudgetWindow (resetInterval b) (resetTime b) now"
  define s' where "s' = snd (syncBudgetSchedule num_of now k c lg True s)"
  note f = sync_fields [where num_of = num_of and now = now and k = k and c = c and lg = lg and s = s,
    folded b_def, folded w_def, folded s'_def]
  have now: "0 \<le> now" using t(2) by (simp add: epoch_def ms_per_day_def)
  have w: "0 < periodStartAt w" "periodStartAt w \<le> now" "now < nextResetAt w"
    using window_positive [OF t(2)] by (simp_all add: w_def)
  have old: "sorted_wrt (<) (resets k' s)" "\<forall>r \<in> set (resets k' s). r \<le> t" for k'
    using inv by (simp_all add: budgets_ok_def)
  have new: "sorted_wrt (<) (resets k' s') \<and> (\<forall>r \<in> set (resets k' s'). r \<le> now)" for k'
  proof (cases "reset_rolled b w \<and> lg \<and> bgDbUp s \<and> k' = k")
    case True
    then have "\<forall>r \<in> set (resets k s). r < periodStartAt w"
      using rolled_later [OF now, of b "resets k s"] log by (simp add: w_def b_def)
    with True old [of k] w(2) t(1) show ?thesis by (simp add: f(3) sorted_wrt_append) fastforce
  next
    case False
    then show ?thesis using old [of k'] t(1) by (simp only: f(3) if_False) fastforce
  qed
  have b_ok: "budget_ok (scheduled b w)"
    by (rule budget_ok_scheduled) (use w normalize_budget_ok in \<open>simp_all add: b_def\<close>)
  have u: "window_ok (scheduled b w) (resets k s')"
    using window_ok_scheduled [OF t(2), of "resets k s'" b] new [of k] by (simp add: w_def)
  have stored: "budget_ok x \<and> window_ok x (resets k' s)"
    if "js_get (bgCache s) k' = Some x \<or> js_get (bgTable s) k' = Some x" for k' x
    using inv that unfolding budgets_ok_def by blast
  have entry: "budget_ok x \<and> window_ok x (resets k' s')"
    if x: "js_get (bgCache s') k' = Some x \<or> js_get (bgTable s') k' = Some x" for k' x
  proof (cases "x = scheduled b w \<and> k' = k")
    case True
    with b_ok u show ?thesis by simp
  next
    case False
    with x have "k' \<noteq> k \<or> \<not> (bgDbUp s \<and> b \<noteq> scheduled b w)"
      and x': "js_get (bgCache s) k' = Some x \<or> js_get (bgTable s) k' = Some x"
      by (auto simp: f(1,2) split: if_splits)
    moreover have "b \<noteq> scheduled b w" if "reset_rolled b w"
    proof -
      have "lastBudgetResetAt b \<noteq> Some (periodStartAt w)" using that by (auto simp: reset_rolled_def)
      then show ?thesis by (metis scheduled_fields(3))
    qed
    ultimately have "resets k' s' = resets k' s" by (auto simp: f(3))
    with stored [OF x'] show ?thesis by simp
  qed
  have "js_map_ok (bgTable s')" using inv by (simp add: budgets_ok_def f(2))
  with new entry show ?thesis unfolding budgets_ok_def s'_def by blast
qed

lemma budgets_ok_later: "budgets_ok t s \<Longrightarrow> t \<le> t' \<Longrightarrow> budgets_ok t' s"
  unfolding budgets_ok_def by force

lemma budgets_ok_entry:
  assumes "budgets_ok t s" "js_get (bgCache s) k = Some b \<or> js_get (bgTable s) k = Some b"
  shows "normalizeBudgetConfig num_of (as_config b) = b" "window_ok b (resets k s)"
  using assms budget_ok_normalize unfolding budgets_ok_def by blast+

lemma sync_entry:
  assumes inv: "budgets_ok t s" and t: "t \<le> now" "epoch \<le> now"
    and b: "js_get (bgCache s) k = Some b \<or> js_get (bgTable s) k = Some b"
  shows "budgets_ok now (snd (syncBudgetSchedule num_of now k (as_config b) True True s))"
  by (rule sync_budgets_ok [OF inv t]) (simp add: budgets_ok_entry [OF inv b])

lemma getBudget_cases:
  obtains (none) "js_get (bgCache s) k = None" "getBudget num_of now k s = (None, s)"
  | (some) b where "js_get (bgCache s) k = Some b \<or> js_get (bgTable s) k = Some b"
      "getBudget num_of now k s = (let p = syncBudgetSchedule num_of now k (as_config b) True True s
         in (Some (fst p), snd p))"
proof (cases "js_get (bgCache s) k")
  case (Some b)
  then show thesis by (intro some [of b]) (simp_all add: getBudget_def Let_def split: prod.split)
next
  case c: None
  show thesis
  proof (cases "loadBudget k s")
    case None
    with c show thesis by (intro none) (simp_all add: getBudget_def)
  next
    case (Some b)
    then have "js_get (bgTable s) k = Some b" by (simp add: loadBudget_def split: if_splits)
    with c Some show thesis by (intro some [of b]) (simp_all add: getBudget_def Let_def split: prod.split)
  qed
qed

lemma getBudget_budgets_ok:
  assumes inv: "budgets_ok t s" and t: "t \<le> now" "epoch \<le> now"
  shows "budgets_ok now (snd (getBudget num_of now k s))"
  by (cases rule: getBudget_cases [where num_of = num_of and now = now and k = k and s = s])
    (simp_all add: Let_def sync_entry [OF inv t] budgets_ok_later [OF inv t(1)])

text \<open>What the budget that is returned has to do with the state: it is the cached one.\<close>

lemma getBudget_cached:
  assumes "getBudget num_of now k s = (Some u, s')"
  shows "js_get (bgCache s') k = Some u" "bgWriter s' = bgWriter s" "bgDbUp s' = bgDbUp s"
proof -
  have "js_get (bgCache s') k = Some u \<and> bgWriter s' = bgWriter s \<and> bgDbUp s' = bgDbUp s"
  proof (cases rule: getBudget_cases [where num_of = num_of and now = now and k = k and s = s])
    case (some b)
    with assms show ?thesis by (auto simp: Let_def sync_fields sync_result)
  qed (use assms in simp)
  then show "js_get (bgCache s') k = Some u" "bgWriter s' = bgWriter s" "bgDbUp s' = bgDbUp s" by simp_all
qed

lemma note_warning_budgets_ok:
  assumes inv: "budgets_ok t s" and b: "js_get (bgCache s) k = Some b" and t: "0 < now" "0 < periodStartAt w"
  shows "budgets_ok t (note_warning now k b w s)"
proof -
  let ?u = "b\<lparr>warningEmittedAt := Some now, warningPeriodStart := Some (periodStartAt w)\<rparr>"
  have "budget_ok b" "window_ok b (resets k s)" using inv b unfolding budgets_ok_def by blast+
  moreover have "budget_ok ?u"
    unfolding budget_ok_def
  proof
    fix num_of
    have "normalizeBudgetConfig num_of (as_config b) = b" by (rule budget_ok_normalize [OF \<open>budget_ok b\<close>])
    with t show "normalizeBudgetConfig num_of (as_config ?u) = ?u"
      by (cases b) (simp add: normalizeBudgetConfig_def as_config_def normalizeTimestamp_def)
  qed
  ultimately have u: "budget_ok ?u \<and> window_ok ?u (resets k s)" by (simp add: window_ok_def)
  define s' where "s' = note_warning now k b w s"
  have f: "bgCache s' = js_set k ?u (bgCache s)"
    "bgTable s' = (if bgDbUp s then js_set k ?u (bgTable s) else bgTable s)" "resets k' s' = resets k' s" for k'
    by (simp_all add: s'_def note_warning_def Let_def emitBudgetWarning_def) (simp_all add: saveBudget_def)
  have old: "js_get (bgCache s) k' = Some x \<or> js_get (bgTable s) k' = Some x \<Longrightarrow>
      budget_ok x \<and> window_ok x (resets k' s)" for k' x
    using inv unfolding budgets_ok_def by blast
  have "budget_ok x \<and> window_ok x (resets k' s)"
    if x: "js_get (bgCache s') k' = Some x \<or> js_get (bgTable s') k' = Some x" for k' x
    using x u old [of k' x] unfolding f(1,2) by (auto split: if_splits)
  moreover have "js_map_ok (bgTable s')" using inv by (simp add: budgets_ok_def f(2))
  ultimately show ?thesis using inv unfolding budgets_ok_def f(3) s'_def [symmetric] by blast
qed

lemma checkBudget_budgets_ok:
  assumes inv: "budgets_ok t s" and t: "t \<le> now" "epoch \<le> now"
  shows "budgets_ok now (snd (checkBudget num_of now k x s))"
proof (cases "getBudget num_of now k s")
  case (Pair r s')
  then have s': "budgets_ok now s'" using getBudget_budgets_ok [OF inv t, of num_of k] by simp
  show ?thesis
  proof (cases r)
    case None
    with Pair s' show ?thesis by (simp add: checkBudget_def)
  next
    case (Some b)
    let ?w = "getBudgetWindow (resetInterval b) (resetTime b) now"
    have "budgets_ok now (note_warning now k b ?w s')"
      by (rule note_warning_budgets_ok [OF s' getBudget_cached(1)])
        (use Pair Some window_positive(1) [OF t(2)] t(2) in \<open>simp_all add: epoch_def ms_per_day_def\<close>)
    with Pair Some s' show ?thesis by (simp add: checkBudget_def Let_def)
  qed
qed

lemma delete_budgets_ok:
  assumes inv: "budgets_ok t s"
  shows "budgets_ok t (deleteBudget k s)"
proof -
  define s' where "s' = deleteBudget k s"
  have logs: "filter (\<lambda>l. rlKey l = k') (filter (\<lambda>l. rlKey l \<noteq> k) ls)
      = (if k' = k then [] else filter (\<lambda>l. rlKey l = k') ls)" for k' and ls :: "reset_log list"
    by (induction ls) auto
  have f: "bgCache s' = js_delete k (bgCache s)"
    "bgTable s' = (if bgDbUp s then js_delete k (bgTable s) else bgTable s)"
    "resets k' s' = (if bgDbUp s \<and> k' = k then [] else resets k' s)" for k'
    by (simp_all add: s'_def deleteBudget_def resets_def Let_def logs del: filter_filter)
  have old: "js_get (bgCache s) k' = Some x \<or> js_get (bgTable s) k' = Some x \<Longrightarrow>
      budget_ok x \<and> window_ok x (resets k' s)" for k' x
    using inv unfolding budgets_ok_def by blast
  have "budget_ok x \<and> window_ok x (resets k' s')"
    if x: "js_get (bgCache s') k' = Some x \<or> js_get (bgTable s') k' = Some x" for k' x
  proof -
    have "js_get (bgCache s) k' = Some x \<or> js_get (bgTable s) k' = Some x"
      using x unfolding f(1,2) by (auto split: if_splits)
    with old have "budget_ok x \<and> window_ok x (resets k' s)" by blast
    moreover have "set (resets k' s') \<subseteq> set (resets k' s)" by (simp add: f(3))
    ultimately show ?thesis using window_ok_earlier by blast
  qed
  moreover have "js_map_ok (bgTable s')" using inv by (simp add: budgets_ok_def f(2))
  moreover have "sorted_wrt (<) (resets k' s') \<and> (\<forall>r \<in> set (resets k' s'). r \<le> t)" for k'
    using inv by (simp add: budgets_ok_def f(3))
  ultimately show ?thesis unfolding budgets_ok_def s'_def by blast
qed

lemma sync_all_budgets_ok:
  assumes "budgets_ok now s" "epoch \<le> now" "distinct (js_keys rows)"
    "\<forall>(k, b) \<in> set rows. js_get (bgTable s) k = Some b"
  shows "budgets_ok now (snd (sync_all num_of now rows s))"
  using assms
proof (induction rows arbitrary: s)
  case (Cons row rows)
  obtain k b where row: "row = (k, b)" by fastforce
  let ?s = "snd (syncBudgetSchedule num_of now k (as_config b) True True s)"
  have "budgets_ok now ?s"
    by (rule sync_entry [OF Cons.prems(1) order_refl Cons.prems(2)]) (use Cons.prems(4) row in auto)
  moreover have "\<forall>(k', b') \<in> set rows. js_get (bgTable ?s) k' = Some b'"
    using Cons.prems(3,4) row by (force simp: sync_fields(2))
  ultimately have "budgets_ok now (snd (sync_all num_of now rows ?s))"
    using Cons.IH [of ?s] Cons.prems(2,3) row by simp
  then show ?case by (simp add: row Let_def split_def)
qed simp

lemma syncAll_budgets_ok:
  assumes inv: "budgets_ok t s" and t: "t \<le> now" "epoch \<le> now"
  shows "budgets_ok now (snd (syncAllBudgetSchedules num_of now s))"
proof -
  let ?rows = "filter (\<lambda>(k, _). k \<noteq> []) (bgTable s)"
  have ok: "js_map_ok (bgTable s)" using inv by (simp add: budgets_ok_def)
  then have d: "distinct (js_keys ?rows)" by (rule distinct_map_filter)
  have "\<forall>(k, b) \<in> set ?rows. js_get (bgTable s) k = Some b" using ok by auto
  from sync_all_budgets_ok [OF budgets_ok_later [OF inv t(1)] t(2) d this] budgets_ok_later [OF inv t(1)]
  show ?thesis by (simp add: syncAllBudgetSchedules_def Let_def split_def)
qed

lemma budget_step_ok:
  assumes inv: "budgets_ok t s" and t: "t \<le> now" "epoch \<le> now"
  shows "budgets_ok now (budget_step num_of s (now, e))"
proof (cases e)
  case (Bg_set k c)
  have "budgets_ok now (snd (syncBudgetSchedule num_of now k c False True s))"
    by (rule sync_budgets_ok [OF inv t]) simp
  with Bg_set show ?thesis by (simp add: setBudget_def)
next
  case (Bg_delete k)
  with delete_budgets_ok [OF budgets_ok_later [OF inv t(1)]] show ?thesis by simp
next
  case (Bg_writer w)
  with budgets_ok_later [OF inv t(1)] show ?thesis by (simp add: budgets_ok_def resets_def)
next
  case (Bg_db up)
  with budgets_ok_later [OF inv t(1)] show ?thesis by (simp add: budgets_ok_def resets_def)
qed (simp_all add: getBudget_budgets_ok [OF inv t] checkBudget_budgets_ok [OF inv t] syncAll_budgets_ok [OF inv t])

text \<open>Runs with a clock that does not go back.\<close>

fun clocked :: "int \<Rightarrow> (int \<times> budget_event) list \<Rightarrow> bool" where
  "clocked t [] = True"
| "clocked t ((now, e) # evs) = (t \<le> now \<and> clocked now evs)"

definition last_time :: "int \<Rightarrow> (int \<times> budget_event) list \<Rightarrow> int" where
  "last_time t evs = (if evs = [] then t else fst (last evs))"

lemma budget_run_ok:
  "budgets_ok t s \<Longrightarrow> epoch \<le> t \<Longrightarrow> clocked t evs \<Longrightarrow>
     budgets_ok (last_time t evs) (foldl (budget_step num_of) s evs)"
proof (induction evs arbitrary: t s)
  case Nil
  then show ?case by (simp add: last_time_def)
next
  case (Cons ev evs)
  obtain now e where ev: "ev = (now, e)" by fastforce
  with Cons.prems have "budgets_ok now (budget_step num_of s ev)" by (simp add: budget_step_ok [of t])
  from Cons.IH [OF this] Cons.prems ev show ?case by (simp add: last_time_def split: if_splits)
qed


section \<open>Properties\<close>

text \<open>
  C16: over every run of the budget operations (setting, reading, checking and deleting budgets,
  syncing all of them, recording and flushing costs, and the database failing and coming back) in
  which the clock does not go back, the
  resets logged for a key are strictly increasing in time: no reset is logged twice, however often
  and through whichever of cache and table the schedule is synced, and none lies in the future.
\<close>

theorem resets_logged_once:
  assumes "clocked epoch evs" and s: "s = foldl (budget_step num_of) (new_budgets mx) evs"
  shows "sorted_wrt (<) (resets k s) \<and> (\<forall>r \<in> set (resets k s). r \<le> last_time epoch evs)"
proof -
  have "budgets_ok epoch (new_budgets mx)" by (simp add: budgets_ok_def new_budgets_def resets_def)
  with budget_run_ok assms(1) s have "budgets_ok (last_time epoch evs) s" by blast
  then show ?thesis by (simp add: budgets_ok_def)
qed

text \<open>
  C17: with the database up, no flush running, and the key's costs not deleted, the check of a
  key with a budget allows a request exactly when the active limit is zero or the costs recorded
  for the key since the start of the budget's window, with the cost of the request, stay within
  the limit: a cost counts the same while it is buffered, requeued after a failed flush, or stored.
\<close>

theorem budget_check_counts_spend:
  assumes "\<forall>ev \<in> set evs. spares k ev"
    and "bgWriter s = foldl writer_step (new_writer mx) evs"
    and "\<forall>c keep. swFlush (bgWriter s) \<noteq> Flushing c keep" "bgDbUp s"
    and "fst (getBudget num_of now k s) = Some b"
    and "spent = total_since (periodStartAt (getBudgetWindow (resetInterval b) (resetTime b) now))
      (sum_list (map (recorded k) evs))"
  shows "ckPeriodUsed (fst (checkBudget num_of now k x s)) = spent
    \<and> (ckAllowed (fst (checkBudget num_of now k x s))
        \<longleftrightarrow> getActiveBudgetLimit b \<le> 0 \<or> spent + x \<le> getActiveBudgetLimit b)"
proof -
  obtain s' where g: "getBudget num_of now k s = (Some b, s')" using assms(5) by (metis prod.collapse)
  note s' = getBudget_cached(2,3) [OF g]
  have "getBudgetWindowTotal k (periodStartAt (getBudgetWindow (resetInterval b) (resetTime b) now)) s' = spent"
    using writer_totals(2) [OF assms(1,2,3)] assms(4,6) s' by (simp add: getBudgetWindowTotal_def)
  with g show ?thesis by (auto simp: checkBudget_def Let_def)
qed

definition plain_budget :: "rat \<Rightarrow> js_value \<Rightarrow> BudgetConfig" where
  "plain_budget limit interval =
     \<lparr>bcDailyLimitUsd = Number (Finite limit), bcWeeklyLimitUsd = Undefined, bcMonthlyLimitUsd = Undefined,
      bcWarningThreshold = Undefined, bcResetInterval = interval, bcResetTime = Str ''06:30'',
      bcBudgetResetAt = None, bcLastBudgetResetAt = None, bcWarningEmittedAt = None, bcWarningPeriodStart = None\<rparr>"

definition reset_run :: "(int \<times> budget_event) list" where
  "reset_run =
     [(8640000000, Bg_set ''a'' (plain_budget 5 (Str ''daily''))), (8640100000, Bg_get ''a''),
      (8740000000, Bg_check ''a'' 1), (8740000001, Bg_sync_all), (8740000002, Bg_get ''a''),
      (8840000000, Bg_get ''a'')]"

theorem resets_logged_once_witness:
  "sorted_wrt (<) (resets ''a'' (foldl (budget_step (\<lambda>_. NaN)) (new_budgets 9) reset_run))
   \<and> resets ''a'' (foldl (budget_step (\<lambda>_. NaN)) (new_budgets 9) reset_run) = [8663400000, 8836200000]"
proof -
  have "clocked epoch reset_run" by code_simp
  moreover have "resets ''a'' (foldl (budget_step (\<lambda>_. NaN)) (new_budgets 9) reset_run) = [8663400000, 8836200000]"
    by code_simp
  ultimately show ?thesis using resets_logged_once [OF _ refl] by blast
qed

definition spent_costs :: "(int \<times> writer_event) list" where
  "spent_costs =
     [(8650000000, Sw_increment Stores ''a'' (Finite 9) None), (8700000000, Sw_increment Stores ''a'' (Finite 3) None),
      (8700000001, Sw_flush Stores), (8700000002, Sw_continue True),
      (8700000003, Sw_increment Stores ''a'' (Finite (3 / 2)) None)]"

definition spent_state :: budget_state where
  "spent_state = (snd (setBudget (\<lambda>_. NaN) 8640000000 ''a'' (plain_budget 5 (Str ''daily'')) (new_budgets 9)))
     \<lparr>bgWriter := foldl writer_step (new_writer 9) spent_costs\<rparr>"

theorem budget_check_counts_spend_witness:
  "ckPeriodUsed (fst (checkBudget (\<lambda>_. NaN) 8740000000 ''a'' 1 spent_state)) = 9 / 2
   \<and> \<not> ckAllowed (fst (checkBudget (\<lambda>_. NaN) 8740000000 ''a'' 1 spent_state))"
proof -
  define s where "s = spent_state"
  have b: "fst (getBudget (\<lambda>_. NaN) 8740000000 ''a'' spent_state) \<noteq> None"
    "map_option (\<lambda>b. (resetInterval b, resetTime b, getActiveBudgetLimit b))
       (fst (getBudget (\<lambda>_. NaN) 8740000000 ''a'' spent_state)) = Some (Reset_daily, ''06:30'', 5)"
    "getBudgetWindow Reset_daily ''06:30'' 8740000000 = \<lparr>periodStartAt = 8663400000, nextResetAt = 8749800000\<rparr>"
    by code_simp+
  then obtain b where b': "fst (getBudget (\<lambda>_. NaN) 8740000000 ''a'' spent_state) = Some b" "resetInterval b = Reset_daily"
    "resetTime b = ''06:30''" "getActiveBudgetLimit b = 5" by auto
  have w: "bgWriter spent_state = foldl writer_step (new_writer 9) spent_costs" "bgDbUp spent_state"
    by (simp_all add: spent_state_def setBudget_def sync_fields new_budgets_def)
  have idle: "swFlush (bgWriter spent_state) = Idle"
    by (simp add: w spent_costs_def normalizeEntry_def increment_def new_writer_def flush_def flush_continues_def
        batchSaveCostEntries_def Let_def)
  have sum: "total_since 8663400000 (sum_list (map (recorded ''a'') spent_costs)) = 9 / 2"
    by (simp add: spent_costs_def normalizeEntry_def total_since_def)
  have "\<forall>ev \<in> set spent_costs. spares ''a'' ev" by (simp add: spent_costs_def)
  from budget_check_counts_spend [OF this w(1) _ w(2) b'(1) refl, of 1] idle sum b' b(3)
  show ?thesis by simp
qed

lemma sumEntries_sum: "sumEntries es = (\<Sum>e\<leftarrow>es. ceCost e)"
proof -
  have "foldl (\<lambda>sum e. sum + ceCost e) a es = a + (\<Sum>e\<leftarrow>es. ceCost e)" for a
    by (induction es arbitrary: a) (simp_all add: add.assoc)
  then show ?thesis by (simp add: sumEntries_def)
qed

lemma sum_sort_key: "(\<Sum>e\<leftarrow>sort_key f es. g e :: rat) = (\<Sum>e\<leftarrow>es. g e)"
  by (metis mset_map mset_sort sum_mset_sum_list)

text \<open>
  With the database up, the total of the current period and the limit that the cost summary
  of a key with a budget shows are those the budget check uses, and the reset times it shows are
  the ends of the same window.
\<close>

lemma summary_agrees_with_check:
  assumes "bgDbUp s" and "fst (getBudget num_of now k s) = Some b"
  shows "let summary = fst (getCostSummary local_day local_month num_of now k s);
      check = fst (checkBudget num_of now k x s)
    in smPeriodTotal summary = ckPeriodUsed check \<and> smActiveLimitUsd summary = ckActiveLimit check
     \<and> smPeriodStartAt summary = map_option periodStartAt (ckWindow check)
     \<and> smNextResetAt summary = map_option nextResetAt (ckWindow check)"
proof -
  obtain s' where g: "getBudget num_of now k s = (Some b, s')" using assms(2) by (metis prod.collapse)
  note s' = getBudget_cached(2,3) [OF g]
  have "sumEntries (all_entries k since s') = getBudgetWindowTotal k since s'" for since
    using assms(1) s'(2)
    by (simp add: sumEntries_sum all_entries_def getBudgetWindowTotal_def loadCostEntries_def loadCostTotal_def
        getPendingCostTotal_def sum_sort_key)
  with g assms(1) s'(2) show ?thesis
    by (simp add: getCostSummary_def checkBudget_def Let_def)
qed

end
