(* ===== verification/Policy_Engine.thy ===== *)
theory Policy_Engine
  imports Lockout_Policy Fallback_Policy Budget_Properties
begin

text \<open>
  The policy engine of \<open>src/domain/policyEngine.ts\<close>: the verdict on a request, composed of the
  lockout, budget and fallback policies in this order, and the engine of declarative policies
  with its glob patterns. The engine builds a regular expression from a pattern; what that
  expression means is written out here (\<open>glob_parse\<close>, \<open>atoms_match\<close>).
\<close>


section \<open>The verdict on a request\<close>

record gateway_policies =
  gpLockouts :: lockouts
  gpBudgets :: budget_state
  gpFallbacks :: fallbacks

record PolicyRequest =
  rqModel :: "string option"
  rqApiKeyId :: "string option"
  rqClientIp :: "string option"

datatype policy_phase = Phase_lockout | Phase_budget | Phase_passed

record PolicyVerdict =
  vdAllowed :: bool
  vdPhase :: policy_phase
  vdAdjustments :: "(string option \<times> FallbackEntry list) option"

text \<open>A string in a condition: null, undefined and the empty string are false.\<close>

definition present :: "string option \<Rightarrow> string option" where
  "present v = (case v of Some s \<Rightarrow> if s = [] then None else Some s | None \<Rightarrow> None)"

definition lockout_phase :: "int \<Rightarrow> PolicyRequest \<Rightarrow> gateway_policies \<Rightarrow> bool \<times> gateway_policies" where
  "lockout_phase now r g =
     (case present (rqClientIp r) of
        Some ip \<Rightarrow> (let (v, l) = checkLockout now ip DEFAULT_CONFIG (gpLockouts g) in (lvLocked v, g\<lparr>gpLockouts := l\<rparr>))
      | None \<Rightarrow> (False, g))"

definition budget_phase ::
  "(string \<Rightarrow> js_number) \<Rightarrow> int \<Rightarrow> PolicyRequest \<Rightarrow> gateway_policies \<Rightarrow> bool \<times> gateway_policies" where
  "budget_phase num_of now r g =
     (case present (rqApiKeyId r) of
        Some k \<Rightarrow> (let (v, b) = checkBudget num_of now k 0 (gpBudgets g) in (\<not> ckAllowed v, g\<lparr>gpBudgets := b\<rparr>))
      | None \<Rightarrow> (False, g))"

definition evaluateRequest ::
  "(string \<Rightarrow> js_number) \<Rightarrow> int \<Rightarrow> PolicyRequest \<Rightarrow> gateway_policies \<Rightarrow> PolicyVerdict \<times> gateway_policies" where
  "evaluateRequest num_of now r g =
     (let (locked, g) = lockout_phase now r g in
      if locked then (\<lparr>vdAllowed = False, vdPhase = Phase_lockout, vdAdjustments = None\<rparr>, g)
      else
        let (over, g) = budget_phase num_of now r g in
        if over then (\<lparr>vdAllowed = False, vdPhase = Phase_budget, vdAdjustments = None\<rparr>, g)
        else
          let (chain, f) = (case rqModel r of
                              Some m \<Rightarrow> resolveFallbackChain m [] (gpFallbacks g)
                            | None \<Rightarrow> ([], ensureLoaded (gpFallbacks g)))
          in (\<lparr>vdAllowed = True, vdPhase = Phase_passed, vdAdjustments = Some (rqModel r, chain)\<rparr>,
              g\<lparr>gpFallbacks := f\<rparr>))"

fun first_allowed ::
  "(string \<Rightarrow> js_number) \<Rightarrow> int \<Rightarrow> PolicyRequest \<Rightarrow> string list \<Rightarrow> gateway_policies \<Rightarrow>
   (string \<times> PolicyVerdict) option \<times> gateway_policies" where
  "first_allowed num_of now r [] g = (None, g)"
| "first_allowed num_of now r (m # ms) g =
     (let (v, g) = evaluateRequest num_of now (r\<lparr>rqModel := Some m\<rparr>) g in
      if vdAllowed v then (Some (m, v), g) else first_allowed num_of now r ms g)"

definition evaluateFirstAllowed ::
  "(string \<Rightarrow> js_number) \<Rightarrow> int \<Rightarrow> string list \<Rightarrow> PolicyRequest \<Rightarrow> gateway_policies \<Rightarrow>
   string option \<times> PolicyVerdict \<times> gateway_policies" where
  "evaluateFirstAllowed num_of now models r g =
     (case first_allowed num_of now r models g of
        (Some (m, v), g) \<Rightarrow> (Some m, v, g)
      | (None, g) \<Rightarrow>
          (None, evaluateRequest num_of now
             (r\<lparr>rqModel := (if models = [] then None else Some (last models))\<rparr>) g))"


section \<open>Glob patterns\<close>

text \<open>
  \<open>globMatch\<close> escapes the special characters of a pattern except \<open>?\<close>, and turns \<open>*\<close> into
  \<open>.*\<close>. A question mark thus makes the character before it optional, a second one only makes
  that choice lazy, and one with nothing to repeat is a syntax error.
\<close>

datatype glob_atom = Lit char | Star

definition question :: char where
  "question = CHR 0x3F"

definition star :: char where
  "star = CHR 0x2A"

fun skip_lazy :: "string \<Rightarrow> string" where
  "skip_lazy [] = []"
| "skip_lazy (c # cs) = (if c = question then cs else c # cs)"

lemma length_skip_lazy: "length (skip_lazy s) \<le> length s"
  by (cases s) simp_all

function glob_parse :: "string \<Rightarrow> (glob_atom \<times> bool) list option" where
  "glob_parse [] = Some []"
| "glob_parse (c # cs) =
     (if c = question then None
      else if c = star then map_option (\<lambda>as. (Star, False) # as) (glob_parse (skip_lazy cs))
      else if cs \<noteq> [] \<and> hd cs = question
      then map_option (\<lambda>as. (Lit c, True) # as) (glob_parse (skip_lazy (tl cs)))
      else map_option (\<lambda>as. (Lit c, False) # as) (glob_parse cs))"
  by pat_completeness auto
termination
proof (relation "measure length")
  show "(skip_lazy cs, c # cs) \<in> measure length" for c cs
    using length_skip_lazy [of cs] by simp
  show "(skip_lazy (tl cs), c # cs) \<in> measure length" for c cs
    using length_skip_lazy [of "tl cs"] by (cases cs) simp_all
qed simp_all

text \<open>What \<open>.\<close> matches: any character but the line terminators.\<close>

definition is_dot :: "char \<Rightarrow> bool" where
  "is_dot c \<longleftrightarrow> c \<noteq> CHR 0x0A \<and> c \<noteq> CHR 0x0D"

function atoms_match :: "(glob_atom \<times> bool) list \<Rightarrow> string \<Rightarrow> bool" where
  "atoms_match [] s = (s = [])"
| "atoms_match ((Lit c, opt) # as) s =
     ((case s of x # xs \<Rightarrow> x = c \<and> atoms_match as xs | [] \<Rightarrow> False) \<or> opt \<and> atoms_match as s)"
| "atoms_match ((Star, opt) # as) s =
     (atoms_match as s \<or> (case s of x # xs \<Rightarrow> is_dot x \<and> atoms_match ((Star, opt) # as) xs | [] \<Rightarrow> False))"
  by pat_completeness auto
termination by (relation "measure (\<lambda>(as, s). length as + length s)") simp_all

datatype policy_error = Syntax_error

definition globMatch :: "string \<Rightarrow> string \<Rightarrow> policy_error + bool" where
  "globMatch pattern v =
     (case glob_parse pattern of None \<Rightarrow> Inl Syntax_error | Some as \<Rightarrow> Inr (atoms_match as v))"


section \<open>Declarative policies\<close>

datatype policy_type = Routing | Access | Budget | Other_type string

record policy_rule =
  plId :: string
  plName :: string
  plType :: policy_type
  plEnabled :: bool
  plPriority :: int
  plModelPattern :: "string option"
  plPreferProvider :: "string list option"
  plBlockModel :: "string list option"
  plMaxTokens :: "int option"

type_synonym policy_engine = "policy_rule list"

definition loadPolicies :: "policy_rule list \<Rightarrow> policy_engine \<Rightarrow> policy_engine" where
  "loadPolicies ps e = ps"

definition addPolicy :: "policy_rule \<Rightarrow> policy_engine \<Rightarrow> policy_engine" where
  "addPolicy p e = e @ [p]"

definition removePolicy :: "string \<Rightarrow> policy_engine \<Rightarrow> policy_engine" where
  "removePolicy i e = filter (\<lambda>p. plId p \<noteq> i) e"

record evaluation =
  evAllowed :: bool
  evBlockedBy :: "string option"
  evPreferredProviders :: "string list"
  evAppliedPolicies :: "string list"
  evMaxTokens :: "int option"

definition no_policy :: evaluation where
  "no_policy = \<lparr>evAllowed = True, evBlockedBy = None, evPreferredProviders = [], evAppliedPolicies = [],
     evMaxTokens = None\<rparr>"

fun any_match :: "string \<Rightarrow> string list \<Rightarrow> policy_error + bool" where
  "any_match model [] = Inr False"
| "any_match model (p # ps) =
     and_then (globMatch p model) (\<lambda>b. if b then Inr True else any_match model ps)"

definition condition_holds :: "string \<Rightarrow> policy_rule \<Rightarrow> policy_error + bool" where
  "condition_holds model p =
     (case present (plModelPattern p) of Some pat \<Rightarrow> globMatch pat model | None \<Rightarrow> Inr True)"

definition applied :: "policy_rule \<Rightarrow> evaluation \<Rightarrow> evaluation" where
  "applied p r = r\<lparr>evAppliedPolicies := evAppliedPolicies r @ [plName p]\<rparr>"

text \<open>One policy that matches; the flag says that the evaluation returns.\<close>

definition apply_policy :: "string \<Rightarrow> policy_rule \<Rightarrow> evaluation \<Rightarrow> policy_error + (bool \<times> evaluation)" where
  "apply_policy model p r =
     (case plType p of
        Routing \<Rightarrow>
          Inr (False, applied p (case plPreferProvider p of
                 Some ps \<Rightarrow> r\<lparr>evPreferredProviders := evPreferredProviders r @ ps\<rparr> | None \<Rightarrow> r))
      | Access \<Rightarrow>
          (case plBlockModel p of
             Some ps \<Rightarrow>
               and_then (any_match model ps) (\<lambda>blocked.
                 if blocked
                 then Inr (True, applied p (r\<lparr>evAllowed := False, evBlockedBy := Some (plName p)\<rparr>))
                 else Inr (False, applied p r))
           | None \<Rightarrow> Inr (False, applied p r))
      | Budget \<Rightarrow>
          Inr (False, applied p (case plMaxTokens p of Some n \<Rightarrow> r\<lparr>evMaxTokens := Some n\<rparr> | None \<Rightarrow> r))
      | Other_type _ \<Rightarrow> Inr (False, r))"

fun apply_policies :: "string \<Rightarrow> policy_rule list \<Rightarrow> evaluation \<Rightarrow> policy_error + evaluation" where
  "apply_policies model [] r = Inr r"
| "apply_policies model (p # ps) r =
     and_then (condition_holds model p) (\<lambda>b.
       if \<not> b then apply_policies model ps r
       else and_then (apply_policy model p r) (\<lambda>(done, r).
         if done then Inr r else apply_policies model ps r))"

definition evaluate :: "string \<Rightarrow> policy_engine \<Rightarrow> policy_error + evaluation" where
  "evaluate model e = apply_policies model (sort_key plPriority (filter plEnabled e)) no_policy"


section \<open>Patterns without a question mark are wildcards\<close>

text \<open>\<open>fill\<close> puts a string in the place of each star.\<close>

fun fill :: "string \<Rightarrow> string list \<Rightarrow> string" where
  "fill [] gaps = []"
| "fill (c # cs) gaps = (if c = star then hd gaps @ fill cs (tl gaps) else c # fill cs gaps)"

definition stars :: "string \<Rightarrow> nat" where
  "stars p = length (filter (\<lambda>c. c = star) p)"

lemma skip_lazy_id: "question \<notin> set s \<Longrightarrow> skip_lazy s = s"
  by (cases s) auto

lemma glob_parse_plain:
  "question \<notin> set p \<Longrightarrow> glob_parse p = Some (map (\<lambda>c. (if c = star then Star else Lit c, False)) p)"
proof (induction p rule: glob_parse.induct)
  case (2 c cs)
  have "\<not> (cs \<noteq> [] \<and> hd cs = question)" using 2(4) by (cases cs) auto
  with 2 show ?case by (auto simp: skip_lazy_id)
qed simp

lemma split_Cons:
  "(\<exists>g t. x # xs = g @ t \<and> P g t) \<longleftrightarrow> P [] (x # xs) \<or> (\<exists>g t. xs = g @ t \<and> P (x # g) t)"
proof
  assume "\<exists>g t. x # xs = g @ t \<and> P g t"
  then obtain g t where "x # xs = g @ t" "P g t" by blast
  then show "P [] (x # xs) \<or> (\<exists>g t. xs = g @ t \<and> P (x # g) t)" by (cases g) auto
next
  assume "P [] (x # xs) \<or> (\<exists>g t. xs = g @ t \<and> P (x # g) t)"
  then show "\<exists>g t. x # xs = g @ t \<and> P g t"
  proof
    assume "P [] (x # xs)"
    then show ?thesis by (intro exI [of _ "[]"] exI [of _ "x # xs"]) simp
  next
    assume "\<exists>g t. xs = g @ t \<and> P (x # g) t"
    then obtain g t where "xs = g @ t" "P (x # g) t" by blast
    then show ?thesis by (intro exI [of _ "x # g"] exI [of _ t]) simp
  qed
qed

lemma atoms_match_star:
  "atoms_match ((Star, b) # as) s \<longleftrightarrow> (\<exists>g t. s = g @ t \<and> list_all is_dot g \<and> atoms_match as t)"
proof (induction s)
  case (Cons x s)
  have "(\<exists>g t. s = g @ t \<and> list_all is_dot (x # g) \<and> atoms_match as t)
      \<longleftrightarrow> is_dot x \<and> (\<exists>g t. s = g @ t \<and> list_all is_dot g \<and> atoms_match as t)" by auto
  with Cons.IH show ?case by (simp only: split_Cons) simp
qed simp

lemma atoms_match_fill:
  "atoms_match (map (\<lambda>c. (if c = star then Star else Lit c, False)) p) v
   \<longleftrightarrow> (\<exists>gaps. length gaps = stars p \<and> (\<forall>g \<in> set gaps. list_all is_dot g) \<and> v = fill p gaps)"
proof (induction p arbitrary: v)
  case Nil
  then show ?case by (simp add: stars_def)
next
  case (Cons c p)
  show ?case
  proof (cases "c = star")
    case False
    with Cons.IH show ?thesis by (auto simp: stars_def split: list.split)
  next
    case True
    have "(\<exists>gaps. length gaps = Suc (stars p) \<and> (\<forall>g \<in> set gaps. list_all is_dot g)
            \<and> v = hd gaps @ fill p (tl gaps))
      \<longleftrightarrow> (\<exists>g gaps. length gaps = stars p \<and> list_all is_dot g \<and> (\<forall>g \<in> set gaps. list_all is_dot g)
            \<and> v = g @ fill p gaps)" (is "?l \<longleftrightarrow> ?r")
    proof
      assume ?l
      then obtain gaps where "length gaps = Suc (stars p)" "\<forall>g \<in> set gaps. list_all is_dot g"
        "v = hd gaps @ fill p (tl gaps)" by blast
      then show ?r by (intro exI [of _ "hd gaps"] exI [of _ "tl gaps"]) (cases gaps; simp)
    next
      assume ?r
      then obtain g gaps where "length gaps = stars p" "list_all is_dot g"
        "\<forall>g \<in> set gaps. list_all is_dot g" "v = g @ fill p gaps" by blast
      then show ?l by (intro exI [of _ "g # gaps"]) simp
    qed
    with True Cons.IH show ?thesis
      by (auto simp: stars_def atoms_match_star simp del: atoms_match.simps(3))
  qed
qed

text \<open>
  C19: a glob pattern without a question mark matches exactly the strings that arise from it by
  putting a string without line breaks in the place of each star; every other character of the
  pattern stands for itself, the special characters of regular expressions included.
\<close>

theorem glob_is_wildcard:
  assumes "question \<notin> set pattern"
  shows "globMatch pattern v
    = Inr (\<exists>gaps. length gaps = stars pattern \<and> (\<forall>g \<in> set gaps. list_all is_dot g) \<and> v = fill pattern gaps)"
  by (simp add: globMatch_def glob_parse_plain [OF assms] atoms_match_fill)

theorem glob_is_wildcard_witness:
  "globMatch ''gpt-4.*-mini*'' ''gpt-4.1-mini'' = Inr True \<and> globMatch ''gpt-4.*'' ''gpt-41'' = Inr False"
proof -
  have q: "question \<notin> set ''gpt-4.*-mini*''" "question \<notin> set ''gpt-4.*''" by code_simp+
  have "\<exists>gaps. length gaps = stars ''gpt-4.*-mini*'' \<and> (\<forall>g \<in> set gaps. list_all is_dot g)
      \<and> ''gpt-4.1-mini'' = fill ''gpt-4.*-mini*'' gaps"
    by (rule exI [of _ "[''1'', '''']"]) code_simp
  moreover have "\<not> (\<exists>gaps. ''gpt-41'' = fill ''gpt-4.*'' gaps)" by (simp add: star_def)
  ultimately show ?thesis using glob_is_wildcard [OF q(1)] glob_is_wildcard [OF q(2)] by auto
qed

text \<open>A question mark is not a wildcard: it makes the character before it optional.\<close>

lemma question_is_optional:
  "globMatch ''gpt-?'' ''gpt-4'' = Inr False" "globMatch ''gpt-?'' ''gpt'' = Inr True"
  "globMatch ''?'' ''x'' = Inl Syntax_error"
  by code_simp+


section \<open>A locked client is turned away\<close>

text \<open>Everything that happens to the state of the policies.\<close>

datatype gateway_event =
    Gw_request PolicyRequest
  | Gw_lockout lockout_event
  | Gw_budget budget_event
  | Gw_register string "chain_entry list"

fun gateway_step :: "(string \<Rightarrow> js_number) \<Rightarrow> gateway_policies \<Rightarrow> int \<times> gateway_event \<Rightarrow> gateway_policies" where
  "gateway_step num_of g (now, Gw_request r) = snd (evaluateRequest num_of now r g)"
| "gateway_step num_of g (now, Gw_lockout e) = g\<lparr>gpLockouts := lockout_step (gpLockouts g) (now, e)\<rparr>"
| "gateway_step num_of g (now, Gw_budget e) = g\<lparr>gpBudgets := budget_step num_of (gpBudgets g) (now, e)\<rparr>"
| "gateway_step num_of g (now, Gw_register m chain) = g\<lparr>gpFallbacks := registerFallback m chain (gpFallbacks g)\<rparr>"

fun respects_client :: "string \<Rightarrow> int \<Rightarrow> int \<times> gateway_event \<Rightarrow> bool" where
  "respects_client ip u (now, Gw_request r) = (rqClientIp r = Some ip \<longrightarrow> now < u)"
| "respects_client ip u (now, Gw_lockout e) = respects_lock ip u (now, e)"
| "respects_client ip u ev = True"

lemma evaluateRequest_lockouts:
  "gpLockouts (snd (evaluateRequest num_of now r g))
    = (case present (rqClientIp r) of
         Some ip \<Rightarrow> snd (checkLockout now ip DEFAULT_CONFIG (gpLockouts g)) | None \<Rightarrow> gpLockouts g)"
  by (auto simp: evaluateRequest_def lockout_phase_def budget_phase_def Let_def split: option.split prod.split)

lemma present_Some [simp]: "present v = Some s \<longleftrightarrow> v = Some s \<and> s \<noteq> []"
  by (auto simp: present_def split: option.splits if_splits)

lemma gateway_step_kept:
  assumes "lock_kept ip u (gpLockouts g)" "0 < u" "respects_client ip u ev"
  shows "lock_kept ip u (gpLockouts (gateway_step num_of g ev))"
proof -
  obtain now e where ev: "ev = (now, e)" by fastforce
  show ?thesis
  proof (cases e)
    case (Gw_request r)
    with assms ev show ?thesis
      by (auto simp: evaluateRequest_lockouts check_kept split: option.split)
  next
    case (Gw_lockout le)
    with assms ev lockout_step_kept [of ip u "gpLockouts g"] show ?thesis by simp
  qed (use assms ev in simp_all)
qed

interpretation client_run: step_invariant "gateway_step num_of" "\<lambda>_. respects_client ip u"
    "\<lambda>g. 0 < u \<and> lock_kept ip u (gpLockouts g)" for num_of ip u
  by unfold_locales (use gateway_step_kept in blast)

text \<open>
  Once a failure has locked a client, the verdict on each of its requests is a denial by the
  lockout policy until the lock expires, whatever the gateway does in between (other requests,
  budgets, costs, fallback chains, failures and checks of this client, restarts of the lockout
  cache), unless this very client succeeds or is unlocked. The denial comes before the budget is
  looked at: no budget is synced, no warning emitted, no chain loaded.
\<close>

lemma locked_client_denied:
  assumes locks: "recordFailedAttempt now ip DEFAULT_CONFIG (gpLockouts g) = (v, l)" "lvLocked v"
    and db: "loDbUp (gpLockouts g)" "js_map_ok (loRows (gpLockouts g))"
    and u: "u = now + lockoutDurationMs DEFAULT_CONFIG" "0 < u" and ip: "ip \<noteq> []"
    and evs: "\<forall>ev \<in> set evs. respects_client ip u ev" and later: "later < u"
    and g': "g' = foldl (gateway_step num_of) (g\<lparr>gpLockouts := l\<rparr>) evs"
    and verdict: "(vd, h) = evaluateRequest num_of later \<lparr>rqModel = m, rqApiKeyId = k, rqClientIp = Some ip\<rparr> g'"
  shows "\<not> vdAllowed vd \<and> vdPhase vd = Phase_lockout \<and> vdAdjustments vd = None
    \<and> gpBudgets h = gpBudgets g' \<and> gpFallbacks h = gpFallbacks g'"
proof -
  have "0 < u \<and> lock_kept ip u l" using lock_taken [OF locks db] u by simp
  then have "lock_kept ip u (gpLockouts g')"
    using client_run.run_always_good [of u ip "g\<lparr>gpLockouts := l\<rparr>" evs num_of] evs g' by simp
  then have "lvLocked (fst (checkLockout later ip DEFAULT_CONFIG (gpLockouts g')))"
    using lock_kept_checked later u(2) by blast
  with ip verdict show ?thesis
    by (auto simp: evaluateRequest_def lockout_phase_def present_def Let_def split: prod.splits)
qed

definition locking_gateway :: gateway_policies where
  "locking_gateway =
     \<lparr>gpLockouts = snd (failures [1000, 2000, 3000, 4000] ''u'' DEFAULT_CONFIG fresh_lockouts),
      gpBudgets = new_budgets 9,
      gpFallbacks = \<lparr>fbChains = [], fbLoaded = False, fbRows = [], fbDbUp = True\<rparr>\<rparr>"

section \<open>The first allowed model\<close>

lemma getState_persist: "getState i (persistState i st s) = (Some st, persistState i st s)"
  by (simp add: getState_def persistState_def saveLockoutState_def)

lemma checkLockout_again:
  "lvLocked (fst (checkLockout now i cfg (snd (checkLockout now i cfg s)))) = lvLocked (fst (checkLockout now i cfg s))"
proof -
  obtain found t where t: "getState i s = (found, t)" by fastforce
  show ?thesis
  proof (cases found)
    case None
    with t have "t = s" by (auto simp: getState_def split: option.splits)
    with t None show ?thesis by (simp add: checkLockout_def)
  next
    case (Some st)
    with t have "js_get (loCache t) i = Some st" by (auto simp: getState_def split: option.splits)
    then have "getState i t = (Some st, t)" by (simp add: getState_def)
    with t Some show ?thesis by (simp add: checkLockout_def Let_def getState_persist)
  qed
qed

text \<open>What of a budget the check depends on.\<close>

definition same_terms :: "NormalizedBudgetConfig \<Rightarrow> NormalizedBudgetConfig \<Rightarrow> bool" where
  "same_terms a b \<longleftrightarrow>
     dailyLimitUsd a = dailyLimitUsd b \<and> weeklyLimitUsd a = weeklyLimitUsd b
   \<and> monthlyLimitUsd a = monthlyLimitUsd b \<and> resetInterval a = resetInterval b \<and> resetTime a = resetTime b"

lemma same_terms_scheduled [simp]: "same_terms (scheduled b w) b' = same_terms b b'"
  by (simp add: same_terms_def scheduled_def)

lemma normalize_again:
  assumes "same_terms u (normalizeBudgetConfig num_of c)"
  shows "same_terms (normalizeBudgetConfig num_of' (as_config u)) u"
  using assms by (simp add: same_terms_def normalizeBudgetConfig_def as_config_def toNumber_def)

lemma getBudget_again:
  assumes "getBudget num_of now k s = (Some u, s')" and t: "js_get (bgCache t) k = Some u'" "same_terms u' u"
  shows "\<exists>u'' t'. getBudget num_of now k t = (Some u'', t') \<and> same_terms u'' u \<and> bgWriter t' = bgWriter t
    \<and> bgDbUp t' = bgDbUp t"
proof -
  obtain b where "u = fst (syncBudgetSchedule num_of now k (as_config b) True True s)"
    using assms(1) by (cases rule: getBudget_cases [where num_of = num_of and now = now and k = k and s = s])
      (auto simp: Let_def)
  then have "same_terms u' (normalizeBudgetConfig num_of (as_config b))"
    using t(2) by (simp add: sync_result same_terms_def scheduled_def)
  from normalize_again [OF this]
  have "same_terms (fst (syncBudgetSchedule num_of now k (as_config u') True True t)) u"
    using t(2) by (simp add: sync_result) (simp add: same_terms_def)
  then show ?thesis using t(1) by (simp add: getBudget_def split_def sync_fields)
qed

lemma checkBudget_again:
  "ckAllowed (fst (checkBudget num_of now k x (snd (checkBudget num_of now k x s))))
    = ckAllowed (fst (checkBudget num_of now k x s))"
proof (cases "getBudget num_of now k s")
  case (Pair r s')
  show ?thesis
  proof (cases r)
    case None
    with Pair have "s' = s"
      by (cases rule: getBudget_cases [where num_of = num_of and now = now and k = k and s = s]) (auto simp: Let_def)
    with Pair None show ?thesis by (simp add: checkBudget_def)
  next
    case (Some u)
    let ?t = "snd (checkBudget num_of now k x s)"
    note c = getBudget_cached [OF Pair [unfolded Some]]
    have "\<exists>u'. js_get (bgCache ?t) k = Some u' \<and> same_terms u' u" and t: "bgWriter ?t = bgWriter s'" "bgDbUp ?t = bgDbUp s'"
      using Pair Some c
      by (simp_all add: checkBudget_def Let_def note_warning_def emitBudgetWarning_def)
        (simp_all add: same_terms_def saveBudget_def)
    then obtain u' where "js_get (bgCache ?t) k = Some u'" "same_terms u' u" by blast
    from getBudget_again [OF Pair [unfolded Some] this] obtain u'' t' where
      t': "getBudget num_of now k ?t = (Some u'', t')" "same_terms u'' u" "bgWriter t' = bgWriter ?t" "bgDbUp t' = bgDbUp ?t"
      by blast
    have "getActiveBudgetLimit u'' = getActiveBudgetLimit u"
      using t'(2) by (cases "resetInterval u") (simp_all add: getActiveBudgetLimit_def same_terms_def)
    moreover have "getBudgetWindowTotal k since t' = getBudgetWindowTotal k since s'" for since
      using t'(3,4) t by (simp add: getBudgetWindowTotal_def)
    ultimately show ?thesis
      using t'(1,2) Pair Some by (simp add: checkBudget_def Let_def same_terms_def)
  qed
qed

text \<open>A denial is repeated, for whichever model, when the request is evaluated again.\<close>

definition denied :: "(string \<Rightarrow> js_number) \<Rightarrow> int \<Rightarrow> PolicyRequest \<Rightarrow> policy_phase \<Rightarrow> gateway_policies \<Rightarrow> bool" where
  "denied num_of now r ph g \<longleftrightarrow>
     (\<forall>m. \<not> vdAllowed (fst (evaluateRequest num_of now (r\<lparr>rqModel := m\<rparr>) g))
        \<and> vdPhase (fst (evaluateRequest num_of now (r\<lparr>rqModel := m\<rparr>) g)) = ph)"

lemma phases_model [simp]:
  "lockout_phase now (r\<lparr>rqModel := m\<rparr>) g = lockout_phase now r g"
  "budget_phase num_of now (r\<lparr>rqModel := m\<rparr>) g = budget_phase num_of now r g"
  by (simp_all add: lockout_phase_def budget_phase_def)

lemma lockout_phase_again:
  "fst (lockout_phase now r (snd (lockout_phase now r g))) = fst (lockout_phase now r g)"
  by (cases "present (rqClientIp r)")
    (simp_all add: lockout_phase_def Let_def split_def checkLockout_again del: present_Some)

lemma budget_phase_again:
  "fst (budget_phase num_of now r (snd (budget_phase num_of now r g))) = fst (budget_phase num_of now r g)"
  by (cases "present (rqApiKeyId r)")
    (simp_all add: budget_phase_def Let_def split_def checkBudget_again del: present_Some)

lemma phases_frame [simp]:
  "gpBudgets (snd (lockout_phase now r g)) = gpBudgets g" "gpFallbacks (snd (lockout_phase now r g)) = gpFallbacks g"
  "gpLockouts (snd (budget_phase num_of now r g)) = gpLockouts g"
  by (simp_all add: lockout_phase_def budget_phase_def Let_def split: option.split prod.split)

lemma lockout_phase_local:
  "gpLockouts h = gpLockouts g \<Longrightarrow> fst (lockout_phase now r h) = fst (lockout_phase now r g)"
  by (cases "present (rqClientIp r)") (simp_all add: lockout_phase_def Let_def split_def del: present_Some)

lemma budget_phase_local:
  "gpBudgets h = gpBudgets g \<Longrightarrow> fst (budget_phase num_of now r h) = fst (budget_phase num_of now r g)"
  by (cases "present (rqApiKeyId r)") (simp_all add: budget_phase_def Let_def split_def del: present_Some)

lemma evaluateRequest_phases:
  "vdAllowed (fst (evaluateRequest num_of now r g))
     \<longleftrightarrow> \<not> fst (lockout_phase now r g) \<and> \<not> fst (budget_phase num_of now r g)"
  "vdPhase (fst (evaluateRequest num_of now r g))
     = (if fst (lockout_phase now r g) then Phase_lockout
        else if fst (budget_phase num_of now r g) then Phase_budget else Phase_passed)"
proof -
  have b: "fst (budget_phase num_of now r (snd (lockout_phase now r g))) = fst (budget_phase num_of now r g)"
    by (rule budget_phase_local) simp
  show "vdAllowed (fst (evaluateRequest num_of now r g))
     \<longleftrightarrow> \<not> fst (lockout_phase now r g) \<and> \<not> fst (budget_phase num_of now r g)"
    "vdPhase (fst (evaluateRequest num_of now r g))
     = (if fst (lockout_phase now r g) then Phase_lockout
        else if fst (budget_phase num_of now r g) then Phase_budget else Phase_passed)"
    unfolding b [symmetric] by (simp_all add: evaluateRequest_def Let_def split_def)
qed

lemma denied_again:
  assumes "\<not> vdAllowed (fst (evaluateRequest num_of now r g))"
  shows "denied num_of now r (vdPhase (fst (evaluateRequest num_of now r g))) (snd (evaluateRequest num_of now r g))"
proof -
  let ?g = "snd (lockout_phase now r g)"
  let ?h = "snd (evaluateRequest num_of now r g)"
  have b: "fst (budget_phase num_of now r ?g) = fst (budget_phase num_of now r g)"
    by (rule budget_phase_local) simp
  have h: "?h = (if fst (lockout_phase now r g) then ?g else snd (budget_phase num_of now r ?g))"
    using assms by (simp add: evaluateRequest_phases) (auto simp: evaluateRequest_def Let_def split_def b)
  have "gpLockouts ?h = gpLockouts ?g" by (simp add: h)
  then have l: "fst (lockout_phase now r ?h) = fst (lockout_phase now r g)"
    using lockout_phase_local lockout_phase_again by metis
  have "fst (budget_phase num_of now r ?h) = fst (budget_phase num_of now r g)" if "\<not> fst (lockout_phase now r g)"
    using budget_phase_again [of num_of now r ?g] that by (simp add: h b)
  with l assms show ?thesis by (auto simp: denied_def evaluateRequest_phases)
qed

lemma denied_step:
  assumes "denied num_of now r ph g"
  shows "denied num_of now r ph (snd (evaluateRequest num_of now (r\<lparr>rqModel := m\<rparr>) g))"
  using assms denied_again [of num_of now "r\<lparr>rqModel := m\<rparr>" g] by (simp add: denied_def)

lemma first_allowed_denied:
  "denied num_of now r ph g \<Longrightarrow>
     fst (first_allowed num_of now r ms g) = None \<and> denied num_of now r ph (snd (first_allowed num_of now r ms g))"
proof (induction ms arbitrary: g)
  case (Cons m ms)
  have "\<not> vdAllowed (fst (evaluateRequest num_of now (r\<lparr>rqModel := Some m\<rparr>) g))"
    using Cons.prems by (simp add: denied_def)
  with Cons.IH [OF denied_step [OF Cons.prems]] show ?case by (simp add: split_def)
qed simp

text \<open>
  Choosing the first allowed of several models either takes the very first one, with the verdict
  on it, or takes none and reports a denial by the policy that denied the first: no policy looks
  at the model, so a later model is never chosen.
\<close>

lemma first_model_or_none:
  assumes "evaluateRequest num_of now (r\<lparr>rqModel := Some m\<rparr>) g = (v, h)"
    and "evaluateFirstAllowed num_of now (m # ms) r g = (chosen, w, t)"
  shows "if vdAllowed v then chosen = Some m \<and> w = v \<and> t = h
    else chosen = None \<and> \<not> vdAllowed w \<and> vdPhase w = vdPhase v"
proof (cases "vdAllowed v")
  case True
  with assms show ?thesis by (simp add: evaluateFirstAllowed_def)
next
  case False
  with denied_again [of num_of now "r\<lparr>rqModel := Some m\<rparr>" g] assms(1)
  have d: "denied num_of now r (vdPhase v) h" by (simp add: denied_def)
  let ?f = "first_allowed num_of now r ms h"
  from first_allowed_denied [OF d, of ms] have "fst ?f = None" "denied num_of now r (vdPhase v) (snd ?f)" by simp_all
  with assms False show ?thesis
    by (auto simp: evaluateFirstAllowed_def denied_def split_def) (metis fst_conv)+
qed

text \<open>Without any model the verdict on an undefined model is returned, and it may be a permission.\<close>

lemma no_models_may_pass:
  "let (chosen, w, t) = evaluateFirstAllowed (\<lambda>_. NaN) 5000 []
      \<lparr>rqModel = None, rqApiKeyId = None, rqClientIp = None\<rparr> locking_gateway
   in chosen = None \<and> vdAllowed w"
  by code_simp


section \<open>What declarative policies decide\<close>

text \<open>Patterns the engine can compile, and what they mean then.\<close>

definition pattern_ok :: "string \<Rightarrow> bool" where
  "pattern_ok p \<longleftrightarrow> glob_parse p \<noteq> None"

definition matches :: "string \<Rightarrow> string \<Rightarrow> bool" where
  "matches p v \<longleftrightarrow> globMatch p v = Inr True"

definition policy_ok :: "policy_rule \<Rightarrow> bool" where
  "policy_ok p \<longleftrightarrow>
     (case present (plModelPattern p) of Some pat \<Rightarrow> pattern_ok pat | None \<Rightarrow> True)
   \<and> (case plBlockModel p of Some ps \<Rightarrow> list_all pattern_ok ps | None \<Rightarrow> True)"

lemma globMatch_ok: "pattern_ok p \<Longrightarrow> globMatch p v = Inr (matches p v)"
  by (auto simp: pattern_ok_def matches_def globMatch_def)

definition concerns :: "string \<Rightarrow> policy_rule \<Rightarrow> bool" where
  "concerns model p = (case present (plModelPattern p) of Some pat \<Rightarrow> matches pat model | None \<Rightarrow> True)"

definition blocks :: "string \<Rightarrow> policy_rule \<Rightarrow> bool" where
  "blocks model p =
     (plType p = Access \<and> (case plBlockModel p of Some ps \<Rightarrow> list_ex (\<lambda>pat. matches pat model) ps | None \<Rightarrow> False))"

definition preferred :: "policy_rule \<Rightarrow> string list" where
  "preferred p = (if plType p = Routing then (case plPreferProvider p of Some ps \<Rightarrow> ps | None \<Rightarrow> []) else [])"

definition limits :: "policy_rule \<Rightarrow> int list" where
  "limits p = (if plType p = Budget then (case plMaxTokens p of Some n \<Rightarrow> [n] | None \<Rightarrow> []) else [])"

definition known :: "policy_rule \<Rightarrow> bool" where
  "known p = (case plType p of Other_type _ \<Rightarrow> False | _ \<Rightarrow> True)"

text \<open>A list up to and including the first element with a property.\<close>

fun upto_first :: "('a \<Rightarrow> bool) \<Rightarrow> 'a list \<Rightarrow> 'a list" where
  "upto_first P [] = []"
| "upto_first P (x # xs) = x # (if P x then [] else upto_first P xs)"

definition last_or :: "'a option \<Rightarrow> 'a list \<Rightarrow> 'a option" where
  "last_or d xs = (if xs = [] then d else Some (last xs))"

definition outcome_from :: "string \<Rightarrow> evaluation \<Rightarrow> policy_rule list \<Rightarrow> evaluation" where
  "outcome_from model r ps =
     (let seen = upto_first (blocks model) ps in
      \<lparr>evAllowed = evAllowed r \<and> (\<forall>p \<in> set ps. \<not> blocks model p),
       evBlockedBy = (case find (blocks model) ps of Some p \<Rightarrow> Some (plName p) | None \<Rightarrow> evBlockedBy r),
       evPreferredProviders = evPreferredProviders r @ concat (map preferred seen),
       evAppliedPolicies = evAppliedPolicies r @ map plName (filter known seen),
       evMaxTokens = last_or (evMaxTokens r) (concat (map limits seen))\<rparr>)"

lemma any_match_ok: "list_all pattern_ok ps \<Longrightarrow> any_match model ps = Inr (list_ex (\<lambda>pat. matches pat model) ps)"
  by (induction ps) (simp_all add: globMatch_ok)

lemma condition_ok: "policy_ok p \<Longrightarrow> condition_holds model p = Inr (concerns model p)"
  by (cases "present (plModelPattern p)")
    (simp_all add: policy_ok_def condition_holds_def concerns_def globMatch_ok del: present_Some)

lemma outcome_from_Nil [simp]: "outcome_from model r [] = r"
  by (simp add: outcome_from_def last_or_def)

lemma last_or_append [simp]: "last_or d (xs @ ys) = last_or (last_or d xs) ys"
  by (simp add: last_or_def)

definition after :: "policy_rule \<Rightarrow> evaluation \<Rightarrow> evaluation" where
  "after p r = r\<lparr>evPreferredProviders := evPreferredProviders r @ preferred p,
     evAppliedPolicies := evAppliedPolicies r @ map plName (filter known [p]),
     evMaxTokens := last_or (evMaxTokens r) (limits p)\<rparr>"

definition block_by :: "policy_rule \<Rightarrow> evaluation \<Rightarrow> evaluation" where
  "block_by p r = r\<lparr>evAllowed := False, evBlockedBy := Some (plName p)\<rparr>"

lemma outcome_after: "\<not> blocks model p \<Longrightarrow> outcome_from model r (p # ps) = outcome_from model (after p r) ps"
  by (simp add: outcome_from_def after_def Let_def cong: option.case_cong)

lemma outcome_block: "blocks model p \<Longrightarrow> outcome_from model r (p # ps) = after p (block_by p r)"
  by (simp add: outcome_from_def after_def block_by_def Let_def)

lemma apply_policy_ok:
  assumes "policy_ok p"
  shows "apply_policy model p r = Inr (blocks model p, after p (if blocks model p then block_by p r else r))"
proof (cases "plType p")
  case Access
  then show ?thesis
    using assms by (cases "plBlockModel p")
      (simp_all add: apply_policy_def blocks_def policy_ok_def any_match_ok applied_def after_def preferred_def
        limits_def known_def last_or_def block_by_def)
next
  case Routing
  then show ?thesis
    by (cases "plPreferProvider p")
      (simp_all add: apply_policy_def blocks_def applied_def after_def preferred_def limits_def known_def last_or_def)
next
  case Budget
  then show ?thesis
    by (cases "plMaxTokens p")
      (simp_all add: apply_policy_def blocks_def applied_def after_def preferred_def limits_def known_def last_or_def)
qed (simp add: apply_policy_def blocks_def after_def preferred_def limits_def known_def last_or_def)

lemma apply_policies_ok:
  "list_all policy_ok ps \<Longrightarrow>
     apply_policies model ps r = Inr (outcome_from model r (filter (concerns model) ps))"
proof (induction ps arbitrary: r)
  case (Cons p ps)
  then have ok: "policy_ok p" "list_all policy_ok ps" by simp_all
  show ?case
  proof (cases "concerns model p")
    case False
    with Cons.IH [OF ok(2)] ok(1) show ?thesis by (simp add: condition_ok)
  next
    case True
    with Cons.IH [OF ok(2), of "after p r"] ok(1) show ?thesis
      by (cases "blocks model p") (simp_all add: condition_ok apply_policy_ok outcome_after outcome_block)
  qed
qed simp

text \<open>
  C18: with patterns the engine can compile, the evaluation of a model looks at the enabled policies
  that concern the model, by priority and in the order they were added among equals, up to the
  first access policy that blocks the model. It allows the model if and only if there is none, and
  returns the providers these policies prefer, in this order, the names of the policies applied,
  and the token limit of the last of them that sets one.
\<close>

theorem policies_decide:
  assumes "list_all policy_ok ps"
    and "concerned = filter (concerns model) (sort_key plPriority (filter plEnabled ps))"
    and "seen = upto_first (blocks model) concerned"
  shows "evaluate model ps = Inr
    \<lparr>evAllowed = (\<forall>p \<in> set concerned. \<not> blocks model p),
     evBlockedBy = map_option plName (find (blocks model) concerned),
     evPreferredProviders = concat (map preferred seen),
     evAppliedPolicies = map plName (filter known seen),
     evMaxTokens = last_or None (concat (map limits seen))\<rparr>"
proof -
  have "list_all policy_ok (sort_key plPriority (filter plEnabled ps))"
    using assms(1) by (simp add: list_all_iff)
  from apply_policies_ok [OF this, of model no_policy] show ?thesis
    by (simp add: evaluate_def outcome_from_def no_policy_def Let_def assms(2,3) map_option_case
        cong: option.case_cong)
qed

definition demo_policies :: "policy_rule list" where
  "demo_policies =
     [\<lparr>plId = ''1'', plName = ''late'', plType = Budget, plEnabled = True, plPriority = 9, plModelPattern = None,
       plPreferProvider = None, plBlockModel = None, plMaxTokens = Some 100\<rparr>,
      \<lparr>plId = ''2'', plName = ''block'', plType = Access, plEnabled = True, plPriority = 5,
       plModelPattern = Some ''gpt-*'', plPreferProvider = None, plBlockModel = Some [''*-preview''], plMaxTokens = None\<rparr>,
      \<lparr>plId = ''3'', plName = ''route'', plType = Routing, plEnabled = True, plPriority = 1, plModelPattern = None,
       plPreferProvider = Some [''openai''], plBlockModel = None, plMaxTokens = None\<rparr>]"

theorem policies_decide_witness:
  "evaluate ''gpt-4-preview'' demo_policies = Inr
     \<lparr>evAllowed = False, evBlockedBy = Some ''block'', evPreferredProviders = [''openai''],
      evAppliedPolicies = [''route'', ''block''], evMaxTokens = None\<rparr>"
proof -
  let ?c = "filter (concerns ''gpt-4-preview'') (sort_key plPriority (filter plEnabled demo_policies))"
  let ?s = "upto_first (blocks ''gpt-4-preview'') ?c"
  have ok: "list_all policy_ok demo_policies" by code_simp
  have "(\<forall>p \<in> set ?c. \<not> blocks ''gpt-4-preview'' p) = False"
    "map_option plName (find (blocks ''gpt-4-preview'') ?c) = Some ''block''"
    "concat (map preferred ?s) = [''openai'']" "map plName (filter known ?s) = [''route'', ''block'']"
    "last_or None (concat (map limits ?s)) = None"
    by code_simp+
  then show ?thesis using policies_decide [OF ok refl refl, of "''gpt-4-preview''"] by simp
qed

end
