(* ===== verification/Ip_Filter.thy ===== *)
theory Ip_Filter
  imports Prelude "HOL-Library.Word"
begin

text \<open>
  The address filter of \<open>open-sse/services/ipFilter.ts\<close>: black and white list with CIDR and
  wildcard entries, temporary bans, and the configuration row that every access reads again.
  Addresses are 32-bit words, as the shifts of the code make them. \<open>ipDbUp\<close> says whether database
  calls succeed or throw (every throw is caught); \<open>isIP\<close> of \<open>node:net\<close> is the parameter \<open>is_ip\<close>.
\<close>

unbundle bit_operations_syntax


section \<open>Addresses\<close>

definition dot :: char where "dot = CHR 0x2E"
definition slash :: char where "slash = CHR 0x2F"
definition comma :: char where "comma = CHR 0x2C"
definition asterisk :: char where "asterisk = CHR 0x2A"

fun octets :: "32 word \<Rightarrow> string list \<Rightarrow> 32 word option" where
  "octets num [] = Some num"
| "octets num (p # ps) =
     (case parseInt p of
        Some n \<Rightarrow> if n < 0 \<or> n > 255 then None else octets (push_bit 8 num OR of_int n) ps
      | None \<Rightarrow> None)"

definition ipToNum :: "string \<Rightarrow> 32 word option" where
  "ipToNum ip = (let parts = js_split dot ip in if length parts \<noteq> 4 then None else octets 0 parts)"

text \<open>The shift count of \<open>-1 << (32 - mask)\<close> is taken modulo 32.\<close>

definition mask_bits :: "int \<Rightarrow> 32 word" where
  "mask_bits m = push_bit (nat ((32 - m) mod 32)) (- 1)"

definition matchesCIDR :: "string \<Rightarrow> string \<Rightarrow> bool" where
  "matchesCIDR ip cidr =
     (let parts = js_split slash cidr; range = parts ! 0 in
      case (if length parts > 1 then parseInt (parts ! 1) else None) of
        None \<Rightarrow> False
      | Some m \<Rightarrow>
          if m < 0 \<or> m > 32 then False
          else (case (ipToNum ip, ipToNum range) of
                  (Some a, Some r) \<Rightarrow> a AND mask_bits m = r AND mask_bits m
                | _ \<Rightarrow> False))"

definition matchesWildcard :: "string \<Rightarrow> string \<Rightarrow> bool" where
  "matchesWildcard ip pat =
     (let ipParts = js_split dot ip; patParts = js_split dot pat in
      length ipParts = 4 \<and> length patParts = 4
    \<and> list_all (\<lambda>(part, p). p = [asterisk] \<or> part = p) (zip ipParts patParts))"

definition entry_matches :: "string \<Rightarrow> string \<Rightarrow> bool" where
  "entry_matches ip entry \<longleftrightarrow>
     slash \<in> set entry \<and> matchesCIDR ip entry \<or> asterisk \<in> set entry \<and> matchesWildcard ip entry"

definition matchesAny :: "string \<Rightarrow> string list \<Rightarrow> bool" where
  "matchesAny ip ipSet \<longleftrightarrow> ip \<in> set ipSet \<or> list_ex (entry_matches ip) ipSet"

definition mapped_prefix :: string where
  "mapped_prefix = ''::ffff:''"

definition normalizeIP :: "string \<Rightarrow> string" where
  "normalizeIP ip = js_trim (if take 7 ip = mapped_prefix then drop 7 ip else ip)"

fun first_valid :: "(string \<Rightarrow> bool) \<Rightarrow> string list \<Rightarrow> string option" where
  "first_valid is_ip [] = None"
| "first_valid is_ip (c # cs) =
     (let n = normalizeIP c in if n \<noteq> [] \<and> is_ip n then Some n else first_valid is_ip cs)"

definition pickFirstValidIp :: "(string \<Rightarrow> bool) \<Rightarrow> string option \<Rightarrow> string option" where
  "pickFirstValidIp is_ip raw =
     (case raw of
        None \<Rightarrow> None
      | Some s \<Rightarrow> if js_trim s = [] then None else first_valid is_ip (js_split comma s))"


section \<open>State\<close>

text \<open>A JavaScript \<open>Set\<close> in insertion order.\<close>

definition set_add :: "'a list \<Rightarrow> 'a \<Rightarrow> 'a list" where
  "set_add xs x = (if x \<in> set xs then xs else xs @ [x])"

definition new_set :: "'a list \<Rightarrow> 'a list" where
  "new_set xs = foldl set_add [] xs"

record ip_config =
  ipEnabled :: bool
  ipMode :: string
  ipBlacklist :: "string list"
  ipWhitelist :: "string list"

record ip_ban =
  ibUntil :: int
  ibReason :: string

record ip_filter =
  ifConfig :: ip_config
  ifTempBans :: "(string, ip_ban) js_map"
  ifRow :: "ip_config option"
  ifDbUp :: bool

definition default_config :: ip_config where
  "default_config = \<lparr>ipEnabled = False, ipMode = ''blacklist'', ipBlacklist = [], ipWhitelist = []\<rparr>"

text \<open>The fields of \<open>configureIPFilter\<close>; an empty mode counts as absent.\<close>

record config_change =
  ccEnabled :: "bool option"
  ccMode :: "string option"
  ccBlacklist :: "string list option"
  ccWhitelist :: "string list option"

definition load_row :: "ip_filter \<Rightarrow> ip_filter" where
  "load_row s =
     (if ifDbUp s then (case ifRow s of Some c \<Rightarrow> s\<lparr>ifConfig := c\<rparr> | None \<Rightarrow> s) else s)"

definition persist :: "ip_filter \<Rightarrow> ip_filter" where
  "persist s = (if ifDbUp s then s\<lparr>ifRow := Some (ifConfig s)\<rparr> else s)"

definition sweep_bans :: "int \<Rightarrow> ip_filter \<Rightarrow> ip_filter" where
  "sweep_bans now s = s\<lparr>ifTempBans := filter (\<lambda>(ip, e). \<not> now \<ge> ibUntil e) (ifTempBans s)\<rparr>"

definition configureIPFilter :: "config_change \<Rightarrow> ip_filter \<Rightarrow> ip_filter" where
  "configureIPFilter c s =
     (let s = load_row s; old = ifConfig s in
      persist (s\<lparr>ifConfig :=
        \<lparr>ipEnabled = opt_default (ccEnabled c) (ipEnabled old),
         ipMode = (if opt_default (ccMode c) [] \<noteq> [] then the (ccMode c) else ipMode old),
         ipBlacklist = opt_default (map_option new_set (ccBlacklist c)) (ipBlacklist old),
         ipWhitelist = opt_default (map_option new_set (ccWhitelist c)) (ipWhitelist old)\<rparr>\<rparr>))"

definition getIPFilterConfig :: "int \<Rightarrow> ip_filter \<Rightarrow> (ip_config \<times> (string \<times> int \<times> string \<times> int) list) \<times> ip_filter" where
  "getIPFilterConfig now s =
     (let s = load_row s in
      ((ifConfig s, map (\<lambda>(ip, e). (ip, ibUntil e, ibReason e, max 0 (ibUntil e - now))) (ifTempBans s)), s))"

datatype ip_verdict = Ip_allowed | Ip_banned string | Not_whitelisted | Blacklisted

definition list_verdict :: "string \<Rightarrow> ip_config \<Rightarrow> ip_verdict" where
  "list_verdict ip c =
     (if ipMode c = ''whitelist'' then
        (if matchesAny ip (ipWhitelist c) then Ip_allowed else Not_whitelisted)
      else if ipMode c = ''whitelist-priority'' then
        (if matchesAny ip (ipWhitelist c) then Ip_allowed
         else if matchesAny ip (ipBlacklist c) then Blacklisted else Ip_allowed)
      else (if matchesAny ip (ipBlacklist c) then Blacklisted else Ip_allowed))"

definition checkIP :: "int \<Rightarrow> string \<Rightarrow> ip_filter \<Rightarrow> ip_verdict \<times> ip_filter" where
  "checkIP now ip s =
     (let s = load_row s in
      if \<not> ipEnabled (ifConfig s) then (Ip_allowed, s)
      else if ip = [] then (Ip_allowed, s)
      else
        let n = normalizeIP ip in
        case js_get (ifTempBans s) n of
          Some b \<Rightarrow>
            if now < ibUntil b then (Ip_banned (ibReason b), s)
            else (list_verdict n (ifConfig s), s\<lparr>ifTempBans := js_delete n (ifTempBans s)\<rparr>)
        | None \<Rightarrow> (list_verdict n (ifConfig s), s))"

definition tempBanIP :: "int \<Rightarrow> string \<Rightarrow> int \<Rightarrow> string \<Rightarrow> ip_filter \<Rightarrow> ip_filter" where
  "tempBanIP now ip duration reason s =
     s\<lparr>ifTempBans := js_set (normalizeIP ip) \<lparr>ibUntil = now + duration, ibReason = reason\<rparr> (ifTempBans s)\<rparr>"

definition removeTempBan :: "string \<Rightarrow> ip_filter \<Rightarrow> ip_filter" where
  "removeTempBan ip s = s\<lparr>ifTempBans := js_delete (normalizeIP ip) (ifTempBans s)\<rparr>"

definition update_config :: "(ip_config \<Rightarrow> ip_config) \<Rightarrow> ip_filter \<Rightarrow> ip_filter" where
  "update_config f s = (let s = load_row s in persist (s\<lparr>ifConfig := f (ifConfig s)\<rparr>))"

definition addToBlacklist :: "string \<Rightarrow> ip_filter \<Rightarrow> ip_filter" where
  "addToBlacklist ip = update_config (\<lambda>c. c\<lparr>ipBlacklist := set_add (ipBlacklist c) (normalizeIP ip)\<rparr>)"

definition removeFromBlacklist :: "string \<Rightarrow> ip_filter \<Rightarrow> ip_filter" where
  "removeFromBlacklist ip = update_config (\<lambda>c. c\<lparr>ipBlacklist := removeAll (normalizeIP ip) (ipBlacklist c)\<rparr>)"

definition addToWhitelist :: "string \<Rightarrow> ip_filter \<Rightarrow> ip_filter" where
  "addToWhitelist ip = update_config (\<lambda>c. c\<lparr>ipWhitelist := set_add (ipWhitelist c) (normalizeIP ip)\<rparr>)"

definition removeFromWhitelist :: "string \<Rightarrow> ip_filter \<Rightarrow> ip_filter" where
  "removeFromWhitelist ip = update_config (\<lambda>c. c\<lparr>ipWhitelist := removeAll (normalizeIP ip) (ipWhitelist c)\<rparr>)"

definition resetIPFilter :: "ip_filter \<Rightarrow> ip_filter" where
  "resetIPFilter s = s\<lparr>ifConfig := default_config, ifTempBans := []\<rparr>"

text \<open>A request: its trusted peer, the forwarding headers, and the address of the socket.\<close>

record ip_request =
  irTrustedPeer :: "string option"
  irCfConnecting :: "string option"
  irForwardedFor :: "string option"
  irRealIp :: "string option"
  irSocket :: "string option"
  irIp :: "string option"

definition orelse :: "'a option \<Rightarrow> 'a option \<Rightarrow> 'a option" where
  "orelse a b = (case a of Some x \<Rightarrow> Some x | None \<Rightarrow> b)"

definition header_ip :: "(string \<Rightarrow> bool) \<Rightarrow> ip_request \<Rightarrow> string option" where
  "header_ip is_ip r =
     orelse (pickFirstValidIp is_ip (irCfConnecting r))
       (orelse (pickFirstValidIp is_ip (irForwardedFor r)) (pickFirstValidIp is_ip (irRealIp r)))"

definition checkRequestIP :: "(string \<Rightarrow> bool) \<Rightarrow> int \<Rightarrow> ip_request \<Rightarrow> ip_filter \<Rightarrow> ip_verdict \<times> ip_filter" where
  "checkRequestIP is_ip now r s =
     (let own = normalizeIP (opt_default (irIp r) []);
          ip = opt_default
                 (orelse (pickFirstValidIp is_ip (irTrustedPeer r))
                   (orelse (header_ip is_ip r) (if own = [] then None else Some own)))
                 ''unknown''
      in checkIP now ip s)"

definition extractClientIP :: "(string \<Rightarrow> bool) \<Rightarrow> ip_request \<Rightarrow> string" where
  "extractClientIP is_ip r =
     opt_default
       (orelse (header_ip is_ip r)
         (orelse (pickFirstValidIp is_ip (irSocket r)) (pickFirstValidIp is_ip (irIp r))))
       ''unknown''"

text \<open>The middleware answers 403 or passes the request on.\<close>

definition ip_middleware :: "(string \<Rightarrow> bool) \<Rightarrow> int \<Rightarrow> ip_request \<Rightarrow> ip_filter \<Rightarrow> (ip_verdict + unit) \<times> ip_filter" where
  "ip_middleware is_ip now r s =
     (case checkIP now (extractClientIP is_ip r) s of
        (Ip_allowed, s) \<Rightarrow> (Inr (), s)
      | (v, s) \<Rightarrow> (Inl v, s))"


section \<open>CIDR entries\<close>

text \<open>An address in dotted form, as it is printed from its octets.\<close>

definition octet :: "nat \<Rightarrow> 32 word \<Rightarrow> string" where
  "octet k w = show_nat (unat (take_bit 8 (drop_bit k w)))"

definition dotted :: "32 word \<Rightarrow> string" where
  "dotted w = octet 24 w @ dot # octet 16 w @ dot # octet 8 w @ dot # octet 0 w"

lemma show_nat_free: "\<not> is_digit c \<Longrightarrow> c \<notin> set (show_nat n)"
  using show_nat_digits digit_facts by blast

lemma octet_free [simp]: "dot \<notin> set (octet k w)" "slash \<notin> set (octet k w)" "asterisk \<notin> set (octet k w)"
  by (simp_all add: octet_def show_nat_free is_digit_def dot_def slash_def asterisk_def)

lemma next_octet:
  "push_bit 8 (drop_bit (k + 8) w) OR take_bit 8 (drop_bit k w) = drop_bit k (w :: 32 word)"
  by (rule bit_word_eqI) (auto simp: bit_simps)

lemma parse_octet [simp]: "parseInt (octet k w) = Some (int (unat (take_bit 8 (drop_bit k w))))"
  by (simp add: octet_def)

lemma octet_bound: "int (unat (take_bit 8 (w :: 32 word))) \<le> 255"
proof -
  have "take_bit 8 (unat w) < 2 ^ 8" by (rule take_bit_nat_less_exp)
  then have "unat (take_bit 8 w) < 256" by (simp only: unsigned_take_bit_eq) simp
  then show ?thesis by linarith
qed

lemma octets_octet:
  "octets (drop_bit (k + 8) w) (octet k w # ps) = octets (drop_bit k w) ps"
proof -
  have "\<not> int (unat (take_bit 8 (drop_bit k w))) > 255" using octet_bound [of "drop_bit k w"] by linarith
  moreover have "(of_int (int (unat (take_bit 8 (drop_bit k w)))) :: 32 word) = take_bit 8 (drop_bit k w)" by simp
  ultimately show ?thesis
    by (simp only: octets.simps parse_octet option.case next_octet of_nat_0_le_iff not_less if_False disj_not1) simp
qed

lemma ipToNum_dotted: "ipToNum (dotted w) = Some w"
proof -
  have "drop_bit 32 w = 0" by (rule bit_word_eqI) (auto simp: bit_simps dest: bit_imp_le_length)
  then have "octets 0 (octet 24 w # ps) = octets (drop_bit 24 w) ps" for ps
    using octets_octet [of 24 w ps] by (simp del: octets.simps)
  moreover have "octets (drop_bit 24 w) (octet 16 w # ps) = octets (drop_bit 16 w) ps"
    "octets (drop_bit 16 w) (octet 8 w # ps) = octets (drop_bit 8 w) ps"
    "octets (drop_bit 8 w) (octet 0 w # ps) = octets w ps" for ps
    using octets_octet [of 16 w ps] octets_octet [of 8 w ps] octets_octet [of 0 w ps]
    by (simp_all del: octets.simps)
  ultimately have "octets 0 [octet 24 w, octet 16 w, octet 8 w, octet 0 w] = Some w" by simp
  then show ?thesis by (simp add: ipToNum_def dotted_def del: octets.simps)
qed

lemma same_masked: "a AND push_bit k (- 1) = r AND push_bit k (- 1) \<longleftrightarrow> drop_bit k a = drop_bit k (r :: 32 word)"
proof
  assume "a AND push_bit k (- 1) = r AND push_bit k (- 1)"
  then have "drop_bit k (a AND push_bit k (- 1)) = drop_bit k (r AND push_bit k (- 1))" by simp
  moreover have "drop_bit k (x AND push_bit k (- 1)) = drop_bit k x" for x :: "32 word"
    by (rule bit_word_eqI) (auto simp: bit_simps dest: bit_imp_le_length)
  ultimately show "drop_bit k a = drop_bit k r" by simp
next
  assume d: "drop_bit k a = drop_bit k r"
  have "push_bit k (drop_bit k x) = x AND push_bit k (- 1)" for x :: "32 word"
    by (rule bit_word_eqI) (auto simp: bit_simps)
  with d show "a AND push_bit k (- 1) = r AND push_bit k (- 1)" by metis
qed

lemma drop_bit_div: "drop_bit k a = drop_bit k r \<longleftrightarrow> unat a div 2 ^ k = unat (r :: 32 word) div 2 ^ k"
proof -
  have "drop_bit k a = drop_bit k r \<longleftrightarrow> unat (drop_bit k a) = unat (drop_bit k r)"
    by (simp only: word_unat_eq_iff)
  moreover have "unat (drop_bit k x) = unat x div 2 ^ k" for x :: "32 word"
    by (simp only: unat_drop_bit_eq) (simp only: drop_bit_eq_div)
  ultimately show ?thesis by simp
qed

text \<open>
  C21: an address matches a CIDR entry of prefix length 1 to 32 exactly when the two agree on that
  many leading bits. For prefix length 0 it must equal the address of the entry: the shift by 32
  of the mask is a shift by 0, and the entry that is meant to cover every address covers one.
\<close>

theorem cidr_is_prefix:
  assumes "m \<le> 32"
  shows "matchesCIDR (dotted a) (dotted r @ slash # show_nat m)
    \<longleftrightarrow> (if m = 0 then a = r else unat a div 2 ^ (32 - m) = unat r div 2 ^ (32 - m))"
proof -
  have free: "slash \<notin> set (dotted r)" "slash \<notin> set (show_nat m)"
    by (simp_all add: dotted_def show_nat_free is_digit_def slash_def dot_def flip: slash_def)
      (simp_all add: show_nat_free is_digit_def slash_def octet_def)
  have k: "nat ((32 - int m) mod 32) = (if m = 0 then 0 else 32 - m)"
  proof (cases "m = 0")
    case False
    then have "(32 - int m) mod 32 = 32 - int m" using assms by (intro mod_pos_pos_trivial) simp_all
    with False assms show ?thesis by simp
  qed simp
  have masked: "a AND mask_bits (int m) = r AND mask_bits (int m)
      \<longleftrightarrow> (if m = 0 then a = r else unat a div 2 ^ (32 - m) = unat r div 2 ^ (32 - m))"
    by (simp only: mask_bits_def k same_masked drop_bit_div) (simp add: word_unat_eq_iff)
  from assms free show ?thesis
    by (simp add: matchesCIDR_def Let_def ipToNum_dotted masked)
qed

theorem cidr_is_prefix_witness:
  "matchesCIDR ''10.1.2.3'' ''10.0.0.0/8'' \<and> \<not> matchesCIDR ''11.1.2.3'' ''10.0.0.0/8''
   \<and> \<not> matchesCIDR ''10.1.2.3'' ''0.0.0.0/0''"
proof -
  have d: "dotted 0x0A010203 = ''10.1.2.3''" "dotted 0x0B010203 = ''11.1.2.3''"
    "dotted 0x0A000000 @ slash # show_nat 8 = ''10.0.0.0/8''" "dotted 0 @ slash # show_nat 0 = ''0.0.0.0/0''"
    by code_simp+
  show ?thesis
    using cidr_is_prefix [of 8 "0x0A010203" "0x0A000000"] cidr_is_prefix [of 8 "0x0B010203" "0x0A000000"]
      cidr_is_prefix [of 0 "0x0A010203" 0]
    unfolding d by simp
qed


section \<open>Bans\<close>

datatype ip_event =
    Ip_configure config_change
  | Ip_read
  | Ip_check string
  | Ip_ban string int string
  | Ip_unban string
  | Ip_black string
  | Ip_unblack string
  | Ip_white string
  | Ip_unwhite string
  | Ip_sweep
  | Ip_db bool

fun ip_step :: "ip_filter \<Rightarrow> int \<times> ip_event \<Rightarrow> ip_filter" where
  "ip_step s (now, Ip_configure c) = configureIPFilter c s"
| "ip_step s (now, Ip_read) = snd (getIPFilterConfig now s)"
| "ip_step s (now, Ip_check ip) = snd (checkIP now ip s)"
| "ip_step s (now, Ip_ban ip d r) = tempBanIP now ip d r s"
| "ip_step s (now, Ip_unban ip) = removeTempBan ip s"
| "ip_step s (now, Ip_black ip) = addToBlacklist ip s"
| "ip_step s (now, Ip_unblack ip) = removeFromBlacklist ip s"
| "ip_step s (now, Ip_white ip) = addToWhitelist ip s"
| "ip_step s (now, Ip_unwhite ip) = removeFromWhitelist ip s"
| "ip_step s (now, Ip_sweep) = sweep_bans now s"
| "ip_step s (now, Ip_db up) = s\<lparr>ifDbUp := up\<rparr>"

text \<open>Events before \<open>u\<close> that do not lift the ban of \<open>ip\<close>, in whichever form it is written.\<close>

fun respects_ban :: "string \<Rightarrow> int \<Rightarrow> int \<times> ip_event \<Rightarrow> bool" where
  "respects_ban ip u (now, Ip_ban j d r) = (normalizeIP j = normalizeIP ip \<longrightarrow> u \<le> now + d)"
| "respects_ban ip u (now, Ip_unban j) = (normalizeIP j \<noteq> normalizeIP ip)"
| "respects_ban ip u (now, Ip_check j) = (now < u)"
| "respects_ban ip u (now, Ip_sweep) = (now < u)"
| "respects_ban ip u (now, e) = True"

definition ban_kept :: "string \<Rightarrow> int \<Rightarrow> ip_filter \<Rightarrow> bool" where
  "ban_kept ip u s \<longleftrightarrow>
     js_map_ok (ifTempBans s)
   \<and> (\<exists>b. js_get (ifTempBans s) (normalizeIP ip) = Some b \<and> u \<le> ibUntil b)"

lemma frame_bans [simp]:
  "ifTempBans (load_row s) = ifTempBans s" "ifTempBans (persist s) = ifTempBans s"
  "ifTempBans (update_config f s) = ifTempBans s" "ifTempBans (configureIPFilter c s) = ifTempBans s"
  by (simp_all add: load_row_def persist_def update_config_def configureIPFilter_def Let_def split: option.split)

lemma checkIP_bans:
  "ifTempBans (snd (checkIP now j s)) = ifTempBans s
   \<or> ifTempBans (snd (checkIP now j s)) = js_delete (normalizeIP j) (ifTempBans s)
     \<and> (\<exists>b. js_get (ifTempBans s) (normalizeIP j) = Some b \<and> ibUntil b \<le> now)"
  by (auto simp: checkIP_def Let_def split: option.split)

lemma ip_step_kept:
  assumes k: "ban_kept ip u s" and r: "respects_ban ip u ev"
  shows "ban_kept ip u (ip_step s ev)"
proof -
  obtain now e where ev: "ev = (now, e)" by fastforce
  obtain b where b: "js_get (ifTempBans s) (normalizeIP ip) = Some b" "u \<le> ibUntil b" and ok: "js_map_ok (ifTempBans s)"
    using k by (auto simp: ban_kept_def simp del: map_of_eq_Some_iff)
  show ?thesis
  proof (cases e)
    case (Ip_check j)
    with r ev have now: "now < u" by simp
    show ?thesis
    proof (cases "ifTempBans (snd (checkIP now j s)) = ifTempBans s")
      case True
      with k Ip_check ev show ?thesis by (simp add: ban_kept_def del: map_of_eq_Some_iff)
    next
      case False
      with checkIP_bans [of now j s] obtain b' where
        del: "ifTempBans (snd (checkIP now j s)) = js_delete (normalizeIP j) (ifTempBans s)"
        "js_get (ifTempBans s) (normalizeIP j) = Some b'" "ibUntil b' \<le> now" by blast
      then have "normalizeIP j \<noteq> normalizeIP ip" using b now by auto
      with del(1) b ok Ip_check ev show ?thesis by (simp add: ban_kept_def del: map_of_eq_Some_iff)
    qed
  next
    case (Ip_ban j d reason)
    with r ev b ok show ?thesis by (simp add: ban_kept_def tempBanIP_def del: map_of_eq_Some_iff)
  next
    case (Ip_unban j)
    with r ev b ok show ?thesis by (simp add: ban_kept_def removeTempBan_def del: map_of_eq_Some_iff)
  next
    case Ip_sweep
    then have "ibUntil b > now" using r ev b by simp
    moreover have "js_get (filter (\<lambda>(ip, e). P e) m) i = Some c" if "js_map_ok m" "js_get m i = Some c" "P c"
      for P and m :: "(string, ip_ban) js_map" and i c
      using that by (simp add: map_of_eq_Some_iff distinct_map_filter)
    ultimately show ?thesis using b ok Ip_sweep ev
      by (simp add: ban_kept_def sweep_bans_def distinct_map_filter del: map_of_eq_Some_iff)
  qed (use k ev in \<open>simp_all add: ban_kept_def getIPFilterConfig_def Let_def addToBlacklist_def removeFromBlacklist_def
      addToWhitelist_def removeFromWhitelist_def del: map_of_eq_Some_iff\<close>)
qed

interpretation ban_run: step_invariant ip_step "\<lambda>_. respects_ban ip u" "ban_kept ip u" for ip u
  by unfold_locales (rule ip_step_kept)

text \<open>
  C22: while the filter is enabled, a banned address is refused until the ban expires, whatever
  happens in between: other checks and bans, sweeps, edits of the lists, changes of the mode (a
  white list does not lift a ban), the filter switched off and on, the database failing and coming
  back; and the address counts as the same in its IPv4-mapped form. The conditions: the
  configuration in force at the check (the row, if it can be read) has the filter enabled, since a
  disabled filter, the default, lets everything through; the check and the checks and sweeps in
  between read a clock before the end of the ban; and no event lifts this ban or bans the same
  address again until an earlier time.
\<close>

theorem ban_holds:
  assumes "js_map_ok (ifTempBans s)" and u: "u = now + duration"
    and t: "t = foldl ip_step (tempBanIP now ip duration reason s) evs"
    and evs: "\<forall>ev \<in> set evs. respects_ban ip u ev"
    and later: "later < u" and same: "normalizeIP ip' = normalizeIP ip" "ip' \<noteq> []"
    and on: "ipEnabled (ifConfig (load_row t))"
  shows "\<exists>why. fst (checkIP later ip' t) = Ip_banned why"
proof -
  have "ban_kept ip u (tempBanIP now ip duration reason s)"
    using assms(1) u by (simp add: ban_kept_def tempBanIP_def)
  then have "ban_kept ip u t" unfolding t using ban_run.run_always_good evs by blast
  then obtain b where "js_get (ifTempBans t) (normalizeIP ip) = Some b" "u \<le> ibUntil b"
    by (auto simp: ban_kept_def simp del: map_of_eq_Some_iff)
  with later same on show ?thesis by (simp add: checkIP_def Let_def)
qed

definition demo_filter :: ip_filter where
  "demo_filter =
     \<lparr>ifConfig = default_config, ifTempBans = [],
      ifRow = Some \<lparr>ipEnabled = True, ipMode = ''whitelist-priority'', ipBlacklist = [''10.0.0.0/8''],
        ipWhitelist = [''10.1.*.*'']\<rparr>,
      ifDbUp = True\<rparr>"

theorem ban_holds_witness:
  "\<exists>why. fst (checkIP 4000 ''::ffff:10.1.2.3''
     (foldl ip_step (tempBanIP 1000 ''10.1.2.3'' 5000 ''flood'' demo_filter)
        [(2000, Ip_check ''10.1.2.3''), (3000, Ip_white ''10.1.2.3''), (3500, Ip_sweep)])) = Ip_banned why"
  by (rule ban_holds [OF _ refl refl]) (code_simp | simp)+


section \<open>Restarts\<close>

definition new_filter :: ip_filter where
  "new_filter = \<lparr>ifConfig = default_config, ifTempBans = [], ifRow = None, ifDbUp = True\<rparr>"

text \<open>What another process, or this one after a restart, starts with.\<close>

definition restarted :: "ip_filter \<Rightarrow> ip_filter" where
  "restarted s = \<lparr>ifConfig = default_config, ifTempBans = [], ifRow = ifRow s, ifDbUp = ifDbUp s\<rparr>"

definition row_ok :: "ip_filter \<Rightarrow> bool" where
  "row_ok s \<longleftrightarrow> ifDbUp s \<and> (ifRow s = None \<longrightarrow> ifConfig s = default_config)"

lemma row_ok_update: "row_ok s \<Longrightarrow> row_ok (update_config f s)"
  by (simp add: row_ok_def update_config_def load_row_def persist_def Let_def split: option.split)

lemma row_ok_load: "row_ok s \<Longrightarrow> row_ok (load_row s)"
  by (simp add: row_ok_def load_row_def split: option.split)

lemma ip_step_row: "row_ok s \<Longrightarrow> (\<forall>up. snd ev \<noteq> Ip_db up) \<Longrightarrow> row_ok (ip_step s ev)"
proof -
  assume s: "row_ok s" and n: "\<forall>up. snd ev \<noteq> Ip_db up"
  note l = row_ok_load [OF s]
  have frame: "row_ok (x\<lparr>ifTempBans := b\<rparr>) = row_ok x" for x b by (simp add: row_ok_def)
  obtain now e where ev: "ev = (now, e)" by fastforce
  show "row_ok (ip_step s ev)"
  proof (cases e)
    case (Ip_configure c)
    with l ev show ?thesis by (simp add: row_ok_def configureIPFilter_def persist_def Let_def)
  next
    case (Ip_check ip)
    with l ev show ?thesis by (auto simp: checkIP_def Let_def frame split: option.split)
  next
    case (Ip_db up)
    with spec [OF n, of up] ev show ?thesis by simp
  qed (use s l ev in \<open>simp_all add: row_ok_update frame getIPFilterConfig_def Let_def addToBlacklist_def
      removeFromBlacklist_def addToWhitelist_def removeFromWhitelist_def tempBanIP_def removeTempBan_def sweep_bans_def\<close>)
qed

interpretation row_run: step_invariant ip_step "\<lambda>_ ev. \<forall>up. snd ev \<noteq> Ip_db up" row_ok
  by unfold_locales (rule ip_step_row)

text \<open>
  With the database up, the configuration survives a restart and reaches every other process:
  after any run, a process that starts anew shows the same configuration and gives every address
  the verdict this one gives it once its temporary bans, which are meant to be forgotten, are set aside.
\<close>

lemma config_survives_restart:
  assumes "\<forall>ev \<in> set evs. \<forall>up. snd ev \<noteq> Ip_db up" and s: "s = foldl ip_step new_filter evs"
  shows "fst (checkIP now ip (restarted s)) = fst (checkIP now ip (s\<lparr>ifTempBans := []\<rparr>))
    \<and> fst (fst (getIPFilterConfig now (restarted s))) = fst (fst (getIPFilterConfig now s))"
proof -
  have "row_ok new_filter" by (simp add: row_ok_def new_filter_def)
  then have ok: "row_ok s" unfolding s using row_run.run_always_good assms(1) by blast
  have c: "ifConfig (load_row (restarted s)) = ifConfig (load_row s)"
    "ifConfig (load_row (s\<lparr>ifTempBans := []\<rparr>)) = ifConfig (load_row s)"
    using ok by (auto simp: row_ok_def load_row_def restarted_def split: option.split)
  then show ?thesis by (simp add: checkIP_def getIPFilterConfig_def restarted_def Let_def)
qed

end
