(* ===== verification/Shuffle_Deck.thy ===== *)
theory Shuffle_Deck
  imports Prelude "HOL-Library.List_Lexorder" "HOL-Library.Char_ord"
begin

text \<open>
  The shuffle decks of \<open>src/shared/utils/shuffleDeck.ts\<close>, which rotate combo models and provider
  connections. The random source of \<open>secureRandom.ts\<close> is the parameter \<open>draw\<close>: the value of the
  \<open>i\<close>-th call with a bound; \<open>crypto.randomInt\<close> documents that it is below the bound. The mutex of the
  asynchronous function lets one caller at a time through, in the order of arrival, and its body
  does not suspend: a run is a list of calls.
\<close>


section \<open>Shuffling\<close>

definition secureRandomInt :: "(nat \<Rightarrow> nat \<Rightarrow> nat) \<Rightarrow> nat \<Rightarrow> nat \<Rightarrow> nat \<times> nat" where
  "secureRandomInt draw n k = (if n \<le> 1 then (0, k) else (draw k n, k + 1))"

definition swap :: "'a list \<Rightarrow> nat \<Rightarrow> nat \<Rightarrow> 'a list" where
  "swap xs i j = xs[i := xs ! j, j := xs ! i]"

text \<open>The loop from position \<open>i\<close> down to 1.\<close>

fun shuffle_down :: "(nat \<Rightarrow> nat \<Rightarrow> nat) \<Rightarrow> nat \<Rightarrow> 'a list \<Rightarrow> nat \<Rightarrow> 'a list \<times> nat" where
  "shuffle_down draw 0 xs k = (xs, k)"
| "shuffle_down draw (Suc i) xs k =
     (let (j, k) = secureRandomInt draw (Suc i + 1) k in shuffle_down draw i (swap xs (Suc i) j) k)"

definition fisherYatesShuffle :: "(nat \<Rightarrow> nat \<Rightarrow> nat) \<Rightarrow> 'a list \<Rightarrow> nat \<Rightarrow> 'a list \<times> nat" where
  "fisherYatesShuffle draw xs k = shuffle_down draw (length xs - 1) xs k"


section \<open>Decks\<close>

record shuffle_deck =
  sdOrder :: "string list"
  sdIndex :: nat
  sdIdsKey :: string

record deck_state =
  dsDecks :: "(string, shuffle_deck) js_map"
  dsDraws :: nat

fun join :: "string \<Rightarrow> string list \<Rightarrow> string" where
  "join sep [] = []"
| "join sep [w] = w"
| "join sep (w # ws) = w @ sep @ join sep ws"

definition ids_key :: "string list \<Rightarrow> string" where
  "ids_key ids = join '','' (sort ids)"

definition last_used :: "shuffle_deck option \<Rightarrow> string \<Rightarrow> string option" where
  "last_used d key =
     (case d of
        Some e \<Rightarrow> if sdIdsKey e = key \<and> sdOrder e \<noteq> [] then Some (last (sdOrder e)) else None
      | None \<Rightarrow> None)"

text \<open>A new order whose first item is not the last one of the cycle before.\<close>

definition avoid_repeat :: "(nat \<Rightarrow> nat \<Rightarrow> nat) \<Rightarrow> string option \<Rightarrow> string list \<Rightarrow> nat \<Rightarrow> string list \<times> nat" where
  "avoid_repeat draw lastId order k =
     (if lastId \<noteq> None \<and> order ! 0 = the lastId \<and> length order > 1
      then (let (r, k) = secureRandomInt draw (length order - 1) k in (swap order 0 (1 + r), k))
      else (order, k))"

definition next_item :: "(nat \<Rightarrow> nat \<Rightarrow> nat) \<Rightarrow> string \<Rightarrow> string list \<Rightarrow> deck_state \<Rightarrow> string \<times> shuffle_deck \<times> nat" where
  "next_item draw ns ids s =
     (let key = ids_key ids; existing = js_get (dsDecks s) ns in
      case (case existing of
              Some e \<Rightarrow> if sdIdsKey e = key \<and> sdIndex e < length (sdOrder e) then Some e else None
            | None \<Rightarrow> None) of
        Some e \<Rightarrow> (sdOrder e ! sdIndex e, e\<lparr>sdIndex := sdIndex e + 1\<rparr>, dsDraws s)
      | None \<Rightarrow>
          let (order, k) = fisherYatesShuffle draw ids (dsDraws s);
              (order, k) = avoid_repeat draw (last_used existing key) order k
          in (order ! 0, \<lparr>sdOrder = order, sdIndex = 1, sdIdsKey = key\<rparr>, k))"

definition getNextFromDeckSync ::
  "(nat \<Rightarrow> nat \<Rightarrow> nat) \<Rightarrow> string \<Rightarrow> string list \<Rightarrow> deck_state \<Rightarrow> string \<times> deck_state" where
  "getNextFromDeckSync draw ns ids s =
     (case ids of
        [] \<Rightarrow> ('''', s)
      | [x] \<Rightarrow> (x, s)
      | _ \<Rightarrow> (case next_item draw ns ids s of
                (x, d, k) \<Rightarrow> (x, s\<lparr>dsDecks := js_set ns d (dsDecks s), dsDraws := k\<rparr>)))"

text \<open>The asynchronous version, once the mutex of the namespace is held.\<close>

definition getNextFromDeck ::
  "(nat \<Rightarrow> nat \<Rightarrow> nat) \<Rightarrow> string \<Rightarrow> string list \<Rightarrow> deck_state \<Rightarrow> string \<times> deck_state" where
  "getNextFromDeck draw ns ids s =
     (case ids of
        [] \<Rightarrow> ('''', s)
      | [x] \<Rightarrow> (x, s)
      | _ \<Rightarrow> (case next_item draw ns ids s of
                (x, d, k) \<Rightarrow> (x, s\<lparr>dsDecks := js_set ns d (dsDecks s), dsDraws := k\<rparr>)))"

text \<open>A plan: the item, and the deck that \<open>commit\<close> will put in place (none for short lists).\<close>

definition planNextFromDeckSync ::
  "(nat \<Rightarrow> nat \<Rightarrow> nat) \<Rightarrow> string \<Rightarrow> string list \<Rightarrow> deck_state \<Rightarrow> (string \<times> shuffle_deck option) \<times> deck_state" where
  "planNextFromDeckSync draw ns ids s =
     (case ids of
        [] \<Rightarrow> (('''', None), s)
      | [x] \<Rightarrow> ((x, None), s)
      | _ \<Rightarrow> (case next_item draw ns ids s of (x, d, k) \<Rightarrow> ((x, Some d), s\<lparr>dsDraws := k\<rparr>)))"

definition commit_plan :: "string \<Rightarrow> shuffle_deck option \<Rightarrow> deck_state \<Rightarrow> deck_state" where
  "commit_plan ns d s = (case d of Some e \<Rightarrow> s\<lparr>dsDecks := js_set ns e (dsDecks s)\<rparr> | None \<Rightarrow> s)"

definition resetAllDecks :: "deck_state \<Rightarrow> deck_state" where
  "resetAllDecks s = s\<lparr>dsDecks := []\<rparr>"


section \<open>A shuffle is a permutation\<close>

definition draws_below :: "(nat \<Rightarrow> nat \<Rightarrow> nat) \<Rightarrow> bool" where
  "draws_below draw \<longleftrightarrow> (\<forall>k n. 1 < n \<longrightarrow> draw k n < n)"

lemma draw_below: "draws_below draw \<Longrightarrow> 0 < n \<Longrightarrow> fst (secureRandomInt draw n k) < n"
  by (auto simp: secureRandomInt_def draws_below_def)

lemma length_swap [simp]: "length (swap xs i j) = length xs"
  by (simp add: swap_def)

lemma mset_swap_positions: "i < length xs \<Longrightarrow> j < length xs \<Longrightarrow> mset (swap xs i j) = mset xs"
  by (simp add: swap_def mset_swap)

lemma mset_shuffle_down:
  assumes "draws_below draw"
  shows "i < length xs \<Longrightarrow> mset (fst (shuffle_down draw i xs k)) = mset xs"
proof (induction i arbitrary: xs k)
  case (Suc i)
  let ?j = "fst (secureRandomInt draw (Suc i + 1) k)"
  have j: "?j < length xs" using draw_below [OF assms, of "Suc i + 1" k] Suc.prems by simp
  with Suc.IH [of "swap xs (Suc i) ?j"] Suc.prems show ?case
    by (simp add: split_def Let_def mset_swap_positions)
qed simp

lemma mset_shuffle:
  assumes "draws_below draw"
  shows "mset (fst (fisherYatesShuffle draw xs k)) = mset xs"
  using mset_shuffle_down [OF assms, of "length xs - 1" xs k]
  by (cases xs) (simp_all add: fisherYatesShuffle_def)

lemma mset_avoid_repeat:
  assumes "draws_below draw"
  shows "mset (fst (avoid_repeat draw l order k)) = mset order"
  using draw_below [OF assms, of "length order - 1" k]
  by (auto simp: avoid_repeat_def split_def Let_def intro!: mset_swap_positions)

lemma avoid_repeat_first:
  assumes "draws_below draw" "distinct order" "length order > 1"
  shows "fst (avoid_repeat draw (Some l) order k) ! 0 \<noteq> l"
proof (cases "order ! 0 = l")
  case True
  define r where "r = fst (secureRandomInt draw (length order - 1) k)"
  have r: "1 + r < length order" using draw_below [OF assms(1), of "length order - 1" k] assms(3) by (simp add: r_def)
  then have "swap order 0 (1 + r) ! 0 = order ! (1 + r)" by (cases order) (simp_all add: swap_def)
  moreover have "order ! (1 + r) \<noteq> order ! 0" using assms(2) r nth_eq_iff_index_eq [of order "1 + r" 0] by fastforce
  ultimately show ?thesis using True assms(3) by (simp add: avoid_repeat_def split_def Let_def r_def)
qed (simp add: avoid_repeat_def)

text \<open>Planning and committing is the same as taking the next item.\<close>

lemma plan_commit:
  assumes "planNextFromDeckSync draw ns ids s = ((x, d), t)"
  shows "getNextFromDeckSync draw ns ids s = (x, commit_plan ns d t)"
  using assms by (auto simp: planNextFromDeckSync_def getNextFromDeckSync_def commit_plan_def split: list.splits prod.splits)


section \<open>Cycles\<close>

text \<open>The items served in a namespace by a list of calls.\<close>

fun serve :: "(nat \<Rightarrow> nat \<Rightarrow> nat) \<Rightarrow> string \<Rightarrow> (string \<times> string list) list \<Rightarrow> deck_state \<Rightarrow> string list \<times> deck_state" where
  "serve draw ns [] s = ([], s)"
| "serve draw ns ((n, ids) # calls) s =
     (let (x, s) = getNextFromDeckSync draw n ids s; (xs, s) = serve draw ns calls s
      in (if n = ns then x # xs else xs, s))"

text \<open>
  What has been served to users of one list of items: whole cycles and a part of the current one,
  each a permutation of the items, and no item twice in a row.
\<close>

definition cycles_of :: "string list \<Rightarrow> string list list \<Rightarrow> string list \<Rightarrow> nat \<Rightarrow> string list \<Rightarrow> bool" where
  "cycles_of items cs order i h \<longleftrightarrow>
     h = concat cs @ take i order \<and> i \<le> length order
   \<and> (\<forall>c \<in> set (order # cs). mset c = mset items) \<and> successively (\<noteq>) h"

definition served_ok :: "string \<Rightarrow> string list \<Rightarrow> string list \<Rightarrow> deck_state \<Rightarrow> bool" where
  "served_ok ns items h s \<longleftrightarrow>
     (case js_get (dsDecks s) ns of
        None \<Rightarrow> h = []
      | Some d \<Rightarrow>
          if sdIdsKey d = ids_key items
          then 0 < sdIndex d \<and> (\<exists>cs. cycles_of items cs (sdOrder d) (sdIndex d) h)
          else h = [])"

lemma successively_snoc: "successively P h \<Longrightarrow> P (last h) x \<Longrightarrow> successively P (h @ [x])"
  by (simp add: successively_append_iff)

lemma cycles_successive: "cycles_of items cs order i h \<Longrightarrow> successively (\<noteq>) h"
  unfolding cycles_of_def by blast

lemma next_within:
  assumes "cycles_of items cs order i h" "0 < i" "i < length order" "distinct items"
  shows "cycles_of items cs order (Suc i) (h @ [order ! i])"
proof -
  have d: "distinct order" using assms(1,4) by (metis cycles_of_def list.set_intros(1) mset_eq_imp_distinct_iff)
  obtain j where j: "i = Suc j" using assms(2) by (cases i) simp_all
  then have "last (take i order) = order ! j" using assms(3) by (simp add: take_Suc_conv_app_nth)
  moreover have "order ! j \<noteq> order ! i" using d j assms(3) by (simp add: nth_eq_iff_index_eq)
  moreover have "take i order \<noteq> []" using assms(2,3) by auto
  ultimately have "last h \<noteq> order ! i" using assms(1) by (simp add: cycles_of_def)
  with cycles_successive [OF assms(1)] have "successively (\<noteq>) (h @ [order ! i])" by (rule successively_snoc)
  moreover have "h @ [order ! i] = concat cs @ take (Suc i) order"
    using assms(1,3) by (simp add: cycles_of_def take_Suc_conv_app_nth)
  ultimately show ?thesis using assms(1,3) by (simp only: cycles_of_def) simp
qed

lemma next_cycle:
  assumes "cycles_of items cs order i h" "i = length order" "items \<noteq> []" "mset new = mset items"
    "new ! 0 \<noteq> last order"
  shows "cycles_of items (cs @ [order]) new 1 (h @ [new ! 0])"
proof -
  have "order \<noteq> []" "new \<noteq> []" using assms(1,3,4) by (auto simp: cycles_of_def)
  then have "take 1 new = [new ! 0]" by (cases new) simp_all
  have h: "h = concat (cs @ [order])" "\<forall>c \<in> set (order # cs). mset c = mset items"
    using assms(1,2) by (simp_all add: cycles_of_def)
  have "last h \<noteq> new ! 0" using h(1) \<open>order \<noteq> []\<close> assms(5) by simp
  with cycles_successive [OF assms(1)] have "successively (\<noteq>) (h @ [new ! 0])" by (rule successively_snoc)
  with h \<open>take 1 new = [new ! 0]\<close> \<open>new \<noteq> []\<close> assms(4) show ?thesis
    by (simp only: cycles_of_def) (simp add: Suc_le_eq)
qed

lemma new_order:
  fixes draw :: "nat \<Rightarrow> nat \<Rightarrow> nat" and items :: "string list" and l :: "string option" and k :: nat
  assumes draw: "draws_below draw" and n: "length items > 1" "distinct items"
  defines "p \<equiv> fisherYatesShuffle draw items k"
  defines "q \<equiv> avoid_repeat draw l (fst p) (snd p)"
  shows "mset (fst q) = mset items" "l = Some x \<Longrightarrow> fst q ! 0 \<noteq> x" "length (fst q) > 0"
proof -
  have m: "mset (fst p) = mset items" unfolding p_def by (rule mset_shuffle [OF draw])
  then show q: "mset (fst q) = mset items" unfolding q_def by (simp add: mset_avoid_repeat [OF draw])
  have "distinct (fst p)" using m n(2) by (metis mset_eq_imp_distinct_iff)
  moreover have "length (fst p) > 1" using m n(1) by (metis size_mset)
  ultimately show "l = Some x \<Longrightarrow> fst q ! 0 \<noteq> x" unfolding q_def by (simp add: avoid_repeat_first [OF draw])
  show "length (fst q) > 0" using q n(1) by (metis size_mset less_trans zero_less_one)
qed

lemma next_item_ok:
  assumes draw: "draws_below draw" and n: "length items > 1" "distinct items"
    and s: "served_ok ns items h s" and x: "getNextFromDeckSync draw ns items s = (x, t)"
  shows "served_ok ns items (h @ [x]) t"
proof -
  obtain y d k where y: "next_item draw ns items s = (y, d, k)" by (metis prod_cases3)
  have t: "x = y" "t = s\<lparr>dsDecks := js_set ns d (dsDecks s), dsDraws := k\<rparr>"
    using x n y by (auto simp: getNextFromDeckSync_def split: list.splits)
  have "sdIdsKey d = ids_key items \<and> 0 < sdIndex d \<and> (\<exists>cs. cycles_of items cs (sdOrder d) (sdIndex d) (h @ [y]))"
  proof (cases "\<exists>e. js_get (dsDecks s) ns = Some e \<and> sdIdsKey e = ids_key items \<and> sdIndex e < length (sdOrder e)")
    case True
    then obtain e where e: "js_get (dsDecks s) ns = Some e" "sdIdsKey e = ids_key items" "sdIndex e < length (sdOrder e)"
      by blast
    then obtain cs where cs: "0 < sdIndex e" "cycles_of items cs (sdOrder e) (sdIndex e) h"
      using s by (auto simp: served_ok_def)
    have "y = sdOrder e ! sdIndex e" "d = e\<lparr>sdIndex := Suc (sdIndex e)\<rparr>"
      using y e by (simp_all add: next_item_def Let_def)
    with next_within [OF cs(2,1) e(3) n(2)] e(2) show ?thesis by auto
  next
    case False
    let ?l = "last_used (js_get (dsDecks s) ns) (ids_key items)"
    define p where "p = fisherYatesShuffle draw items (dsDraws s)"
    define q where "q = avoid_repeat draw ?l (fst p) (snd p)"
    note new = new_order [OF draw n, where l = ?l and k = "dsDraws s", folded p_def, folded q_def]
    have fresh: "(case js_get (dsDecks s) ns of
        Some e \<Rightarrow> if sdIdsKey e = ids_key items \<and> sdIndex e < length (sdOrder e) then Some e else None
      | None \<Rightarrow> None) = None"
      using False by (auto split: option.split)
    have d: "y = fst q ! 0" "d = \<lparr>sdOrder = fst q, sdIndex = 1, sdIdsKey = ids_key items\<rparr>"
      using y fresh by (simp_all add: next_item_def Let_def split_def p_def q_def)
    have "\<exists>cs. cycles_of items cs (fst q) 1 (h @ [fst q ! 0])"
    proof (cases "\<exists>e. js_get (dsDecks s) ns = Some e \<and> sdIdsKey e = ids_key items")
      case True
      then obtain e cs where e: "js_get (dsDecks s) ns = Some e" "sdIdsKey e = ids_key items"
        and cs: "0 < sdIndex e" "cycles_of items cs (sdOrder e) (sdIndex e) h"
        using s by (auto simp: served_ok_def)
      with False have i: "sdIndex e = length (sdOrder e)" by (auto simp: cycles_of_def)
      with cs(1) have "?l = Some (last (sdOrder e))" using e by (auto simp: last_used_def)
      then have "fst q ! 0 \<noteq> last (sdOrder e)" by (rule new(2))
      moreover have "items \<noteq> []" using n(1) by auto
      ultimately have "cycles_of items (cs @ [sdOrder e]) (fst q) 1 (h @ [fst q ! 0])"
        using next_cycle [OF cs(2) i _ new(1)] by blast
      then show ?thesis by blast
    next
      case no: False
      then have "h = []" using s by (auto simp: served_ok_def split: option.splits)
      with new(1,3) have "cycles_of items [] (fst q) 1 (h @ [fst q ! 0])"
        by (cases "fst q") (simp_all add: cycles_of_def)
      then show ?thesis by blast
    qed
    with d show ?thesis by simp
  qed
  with t show ?thesis by (simp add: served_ok_def)
qed

lemma other_namespace:
  "n \<noteq> ns \<Longrightarrow> served_ok ns items h s \<Longrightarrow> served_ok ns items h (snd (getNextFromDeckSync draw n ids s))"
proof -
  assume "n \<noteq> ns"
  then have "js_get (dsDecks (snd (getNextFromDeckSync draw n ids s))) ns = js_get (dsDecks s) ns"
    by (simp add: getNextFromDeckSync_def split: list.split prod.split)
  then show "served_ok ns items h s \<Longrightarrow> served_ok ns items h (snd (getNextFromDeckSync draw n ids s))"
    by (simp only: served_ok_def)
qed

lemma serve_ok:
  assumes "draws_below draw" "length items > 1" "distinct items"
  shows "served_ok ns items h s \<Longrightarrow> \<forall>ids. (ns, ids) \<in> set calls \<longrightarrow> ids = items \<Longrightarrow>
    served_ok ns items (h @ fst (serve draw ns calls s)) (snd (serve draw ns calls s))"
proof (induction calls arbitrary: h s)
  case (Cons call calls)
  obtain n ids where call: "call = (n, ids)" by fastforce
  obtain x t where x: "getNextFromDeckSync draw n ids s = (x, t)" by fastforce
  show ?case
  proof (cases "n = ns")
    case True
    with Cons.prems call have "ids = items" by simp
    with next_item_ok [OF assms Cons.prems(1)] x True have "served_ok ns items (h @ [x]) t" by simp
    from Cons.IH [OF this] Cons.prems(2) call x True show ?thesis by (simp add: split_def Let_def)
  next
    case False
    with other_namespace [OF _ Cons.prems(1)] x have "served_ok ns items h t" by (metis snd_conv)
    from Cons.IH [OF this] Cons.prems(2) call x False show ?thesis by (simp add: split_def Let_def)
  qed
qed simp

text \<open>
  Callers that draw from a deck with the same two or more distinct items are served cycles,
  each a permutation of the items, and never the same item twice in a row, not even across the end
  of a cycle, whatever the random numbers are and whatever is drawn from other decks in between.
\<close>

lemma deck_cycles:
  assumes "draws_below draw" "length items > 1" "distinct items"
    and fresh: "js_get (dsDecks s) ns = None"
    and same: "\<forall>ids. (ns, ids) \<in> set calls \<longrightarrow> ids = items"
  shows "\<exists>cs order i. fst (serve draw ns calls s) = concat cs @ take i order
    \<and> (\<forall>c \<in> set (order # cs). mset c = mset items)
    \<and> successively (\<noteq>) (fst (serve draw ns calls s))"
proof -
  have "served_ok ns items [] s" using fresh by (simp add: served_ok_def)
  from serve_ok [OF assms(1-3) this same]
  have r: "served_ok ns items (fst (serve draw ns calls s)) (snd (serve draw ns calls s))" by simp
  show ?thesis
  proof (cases "fst (serve draw ns calls s) = []")
    case True
    then show ?thesis by (intro exI [of _ "[]"] exI [of _ items] exI [of _ 0]) simp
  next
    case False
    with r obtain cs order i where "cycles_of items cs order i (fst (serve draw ns calls s))"
      by (auto simp: served_ok_def split: option.splits if_splits)
    then show ?thesis unfolding cycles_of_def by blast
  qed
qed

end
