(* ===== verification/Request_Dedup.thy ===== *)
theory Request_Dedup
  imports Prelude
begin

text \<open>
  Request deduplication, \<open>open-sse/services/requestDedup.ts\<close>: concurrent requests with the same
  hash share one upstream call. A call of \<open>deduplicate\<close> is a caller, numbered in order; the shared
  promise of an upstream call carries the number of the caller that started it. What the upstream
  answers, and when, is an event. The SHA-256 digest of the canonical body is the parameter
  \<open>digest\<close>, of which only its length after slicing is used.
\<close>


section \<open>Hashes\<close>

datatype body_json = Jnull | Jbool bool | Jnum rat | Jstr string | Jarr "body_json list" | Jobj "(string \<times> body_json) list"

text \<open>\<open>body.key\<close>, undefined for a missing key and for anything but an object.\<close>

fun body_field :: "string \<Rightarrow> body_json \<Rightarrow> body_json option" where
  "body_field k (Jobj fs) = map_of fs k"
| "body_field k _ = None"

text \<open>\<open>asRecord\<close>: objects only.\<close>

fun body_record :: "body_json option \<Rightarrow> body_json option" where
  "body_record (Some (Jobj fs)) = Some (Jobj fs)"
| "body_record _ = None"

definition sub_field :: "string \<Rightarrow> body_json option \<Rightarrow> body_json option" where
  "sub_field k v = Option.bind v (body_field k)"

text \<open>\<open>v ?? null\<close>.\<close>

definition or_null :: "body_json option \<Rightarrow> body_json" where
  "or_null v = (case v of Some x \<Rightarrow> x | None \<Rightarrow> Jnull)"

definition kiro_content :: "body_json \<Rightarrow> body_json" where
  "kiro_content state =
     (let user = body_record (sub_field ''userInputMessage'' (body_record (body_field ''currentMessage'' state)));
          history = body_field ''history'' state
      in if user \<noteq> None \<or> history \<noteq> None
         then Jobj [(''content'', or_null (sub_field ''content'' user)), (''history'', or_null history)]
         else Jnull)"

definition extractPromptContent :: "body_json \<Rightarrow> body_json" where
  "extractPromptContent body =
     (case body_field ''messages'' body of Some v \<Rightarrow> v | None \<Rightarrow>
      case body_field ''contents'' body of Some v \<Rightarrow> v | None \<Rightarrow>
      case body_field ''input'' body of Some v \<Rightarrow> v | None \<Rightarrow>
      case sub_field ''contents'' (body_record (body_field ''request'' body)) of Some v \<Rightarrow> v | None \<Rightarrow>
      case body_record (body_field ''conversationState'' body) of Some st \<Rightarrow> kiro_content st | None \<Rightarrow> Jnull)"

definition extractSystemContent :: "body_json \<Rightarrow> body_json" where
  "extractSystemContent body =
     (case body_field ''system'' body of Some v \<Rightarrow> v | None \<Rightarrow>
      case body_field ''instructions'' body of Some v \<Rightarrow> v | None \<Rightarrow>
      case body_field ''systemInstruction'' body of Some v \<Rightarrow> v | None \<Rightarrow>
      or_null (sub_field ''systemInstruction'' (body_record (body_field ''request'' body))))"

definition temperature :: "body_json \<Rightarrow> rat" where
  "temperature body = (case body_field ''temperature'' body of Some (Jnum t) \<Rightarrow> t | _ \<Rightarrow> 1)"

definition canonical :: "body_json \<Rightarrow> body_json" where
  "canonical body =
     Jobj ([(''model'', or_null (body_field ''model'' body)), (''messages'', extractPromptContent body),
            (''system'', extractSystemContent body), (''temperature'', Jnum (temperature body))]
        @ map (\<lambda>k. (k, or_null (body_field k body)))
            [''tools'', ''tool_choice'', ''max_tokens'', ''response_format'', ''top_p'', ''frequency_penalty'',
             ''presence_penalty''])"

definition computeRequestHash :: "(body_json \<Rightarrow> string) \<Rightarrow> body_json \<Rightarrow> string option \<Rightarrow> string" where
  "computeRequestHash digest body tenant =
     (let d = digest (canonical body) in
      case tenant of
        Some t \<Rightarrow> if t = [] then d else t @ ''.'' @ d
      | None \<Rightarrow> d)"

record DedupConfig =
  dcEnabled :: bool
  dcMaxTemperature :: rat
  dcTimeoutMs :: int

definition DEFAULT_DEDUP_CONFIG :: DedupConfig where
  "DEFAULT_DEDUP_CONFIG = \<lparr>dcEnabled = True, dcMaxTemperature = 1 / 10, dcTimeoutMs = 60000\<rparr>"

definition shouldDeduplicate :: "body_json \<Rightarrow> DedupConfig \<Rightarrow> bool" where
  "shouldDeduplicate body cfg =
     (dcEnabled cfg \<and> body_field ''stream'' body \<noteq> Some (Jbool True) \<and> \<not> temperature body > dcMaxTemperature cfg)"


section \<open>Calls in flight\<close>

definition MAX_INFLIGHT :: nat where
  "MAX_INFLIGHT = 1000"

datatype upstream_outcome = Answer string | Error string

text \<open>What a caller gets: the outcome, from which upstream call, and whether it was shared.\<close>

record dedup_answer =
  daCaller :: nat
  daOutcome :: upstream_outcome
  daUpstream :: nat
  daDeduplicated :: bool

record dedup_state =
  ddInflight :: "(string, nat) js_map"
  ddHashes :: "string list"
  ddRunning :: "(nat \<times> bool) list"
  ddWaiting :: "(nat \<times> nat) list"
  ddTimers :: "nat list"
  ddAnswers :: "dedup_answer list"
  ddUnhandled :: "nat list"

text \<open>
  \<open>ddHashes\<close> holds the hash of every caller so far; \<open>ddRunning\<close> the upstream calls that run, and
  whether their promise is shared; \<open>ddWaiting\<close> who waits for which of them.
\<close>

definition new_dedup :: dedup_state where
  "new_dedup = \<lparr>ddInflight = [], ddHashes = [], ddRunning = [], ddWaiting = [], ddTimers = [], ddAnswers = [],
     ddUnhandled = []\<rparr>"

definition evict_oldest :: "(string, nat) js_map \<Rightarrow> (string, nat) js_map" where
  "evict_oldest m = (if length m \<ge> MAX_INFLIGHT then tl m else m)"

text \<open>\<open>deduplicate\<close> up to its first suspension.\<close>

definition deduplicate :: "string \<Rightarrow> DedupConfig \<Rightarrow> dedup_state \<Rightarrow> dedup_state" where
  "deduplicate hash cfg s =
     (let c = length (ddHashes s); s = s\<lparr>ddHashes := ddHashes s @ [hash]\<rparr> in
      if \<not> dcEnabled cfg then s\<lparr>ddRunning := ddRunning s @ [(c, False)]\<rparr>
      else (case js_get (ddInflight s) hash of
              Some p \<Rightarrow> s\<lparr>ddWaiting := ddWaiting s @ [(c, p)]\<rparr>
            | None \<Rightarrow>
                s\<lparr>ddInflight := js_set hash c (evict_oldest (ddInflight s)),
                  ddTimers := ddTimers s @ [c], ddRunning := ddRunning s @ [(c, True)]\<rparr>))"

definition forget_promise :: "nat \<Rightarrow> string \<Rightarrow> dedup_state \<Rightarrow> dedup_state" where
  "forget_promise p hash s =
     (if js_get (ddInflight s) hash = Some p then s\<lparr>ddInflight := js_delete hash (ddInflight s)\<rparr> else s)"

definition answers_for :: "nat \<Rightarrow> upstream_outcome \<Rightarrow> dedup_state \<Rightarrow> dedup_answer list" where
  "answers_for p oc s =
     map (\<lambda>(c, _). \<lparr>daCaller = c, daOutcome = oc, daUpstream = p, daDeduplicated = True\<rparr>)
       (filter (\<lambda>(c, q). q = p) (ddWaiting s))"

text \<open>
  The upstream call of \<open>p\<close> ends. A shared promise is settled for everyone who waits for it; when it
  is rejected and nobody does, the rejection is unhandled, because the caller that started the
  call does not wait for the promise itself.
\<close>

definition upstream_ends :: "nat \<Rightarrow> upstream_outcome \<Rightarrow> dedup_state \<Rightarrow> dedup_state" where
  "upstream_ends p oc s =
     (case map_of (ddRunning s) p of
        None \<Rightarrow> s
      | Some shared \<Rightarrow>
          let own = \<lparr>daCaller = p, daOutcome = oc, daUpstream = p, daDeduplicated = False\<rparr>;
              joined = (if shared then answers_for p oc s else []);
              s = s\<lparr>ddRunning := filter (\<lambda>(q, _). q \<noteq> p) (ddRunning s),
                    ddAnswers := ddAnswers s @ own # joined\<rparr>
          in if \<not> shared then s
             else forget_promise p (ddHashes s ! p)
                    (s\<lparr>ddWaiting := filter (\<lambda>(c, q). q \<noteq> p) (ddWaiting s),
                       ddTimers := removeAll p (ddTimers s),
                       ddUnhandled := (case oc of
                          Error _ \<Rightarrow> if joined = [] then ddUnhandled s @ [p] else ddUnhandled s
                        | Answer _ \<Rightarrow> ddUnhandled s)\<rparr>))"

definition dedup_timeout :: "nat \<Rightarrow> dedup_state \<Rightarrow> dedup_state" where
  "dedup_timeout p s =
     (if p \<in> set (ddTimers s)
      then forget_promise p (ddHashes s ! p) (s\<lparr>ddTimers := removeAll p (ddTimers s)\<rparr>) else s)"

definition getInflightCount :: "dedup_state \<Rightarrow> nat" where
  "getInflightCount s = length (ddInflight s)"

definition getInflightHashes :: "dedup_state \<Rightarrow> string list" where
  "getInflightHashes s = js_keys (ddInflight s)"

definition clearInflight :: "dedup_state \<Rightarrow> dedup_state" where
  "clearInflight s = s\<lparr>ddInflight := []\<rparr>"

datatype dedup_event =
    Dd_call string DedupConfig
  | Dd_ends nat upstream_outcome
  | Dd_timeout nat
  | Dd_clear

fun dedup_step :: "dedup_state \<Rightarrow> dedup_event \<Rightarrow> dedup_state" where
  "dedup_step s (Dd_call h cfg) = deduplicate h cfg s"
| "dedup_step s (Dd_ends p oc) = upstream_ends p oc s"
| "dedup_step s (Dd_timeout p) = dedup_timeout p s"
| "dedup_step s Dd_clear = clearInflight s"


section \<open>Answers and callers\<close>

abbreviation running_ids :: "dedup_state \<Rightarrow> nat list" where
  "running_ids s \<equiv> map fst (ddRunning s)"

text \<open>Every caller runs an upstream call, waits for one, or has been answered.\<close>

definition callers :: "dedup_state \<Rightarrow> nat multiset" where
  "callers s = mset (running_ids s) + mset (map fst (ddWaiting s)) + mset (map daCaller (ddAnswers s))"

definition flights_ok :: "dedup_state \<Rightarrow> bool" where
  "flights_ok s \<longleftrightarrow>
     js_map_ok (ddInflight s)
   \<and> (\<forall>h p. js_get (ddInflight s) h = Some p \<longrightarrow> (p, True) \<in> set (ddRunning s) \<and> ddHashes s ! p = h)
   \<and> (\<forall>(c, p) \<in> set (ddWaiting s). (p, True) \<in> set (ddRunning s) \<and> ddHashes s ! p = ddHashes s ! c)"

definition answers_ok :: "dedup_state \<Rightarrow> bool" where
  "answers_ok s \<longleftrightarrow>
     (\<forall>a \<in> set (ddAnswers s). daUpstream a < length (ddHashes s) \<and> ddHashes s ! daUpstream a = ddHashes s ! daCaller a
        \<and> (\<exists>b \<in> set (ddAnswers s). daCaller b = daUpstream a \<and> daUpstream b = daUpstream a
              \<and> daOutcome b = daOutcome a \<and> \<not> daDeduplicated b))"

definition dedup_ok :: "dedup_state \<Rightarrow> bool" where
  "dedup_ok s \<longleftrightarrow> callers s = mset [0..<length (ddHashes s)] \<and> flights_ok s \<and> answers_ok s"

lemma callers_below:
  assumes "callers s = mset [0..<n]"
  shows "p \<in> set (running_ids s) \<Longrightarrow> p < n" "p \<in> fst ` set (ddWaiting s) \<Longrightarrow> p < n"
    "a \<in> set (ddAnswers s) \<Longrightarrow> daCaller a < n" "distinct (running_ids s)"
proof -
  have sub: "x < n" if "x \<in># callers s" for x using that assms by simp
  show "p \<in> set (running_ids s) \<Longrightarrow> p < n" "p \<in> fst ` set (ddWaiting s) \<Longrightarrow> p < n"
    "a \<in> set (ddAnswers s) \<Longrightarrow> daCaller a < n"
    using sub by (auto simp: callers_def)
  have "mset (running_ids s) \<subseteq># mset [0..<n]" using assms by (metis callers_def mset_subset_eq_add_left union_assoc)
  then have "count (mset (running_ids s)) x \<le> 1" for x
    using mset_subset_eq_count [of "mset (running_ids s)" "mset [0..<n]" x]
    by (metis distinct_count_atmost_1 distinct_upt le_trans linorder_linear not_one_le_zero)
  then show "distinct (running_ids s)"
    by (metis count_greater_eq_one_iff count_mset_0_iff distinct_count_atmost_1 le_antisym not_in_iff set_mset_mset)
qed

lemma js_get_tl:
  assumes "js_map_ok m" "js_get (tl m) h = Some p"
  shows "js_get m h = Some p"
proof (cases m)
  case (Cons kv l)
  with assms(2) have "h \<in> fst ` set l" by (metis list.sel(3) map_of_eq_None_iff option.simps(3))
  with Cons assms show ?thesis by (cases kv) (auto simp del: map_of_eq_Some_iff)
qed (use assms in simp)

lemma evict_subset:
  assumes "js_map_ok m"
  shows "js_map_ok (evict_oldest m)" "js_get (evict_oldest m) h = Some p \<Longrightarrow> js_get m h = Some p"
  using assms js_get_tl [OF assms, of h p] distinct_tl [OF assms]
  by (simp_all add: evict_oldest_def map_tl del: map_of_eq_Some_iff split: if_splits)

text \<open>One more caller, and what it may add.\<close>

lemma flights_extend:
  assumes f: "flights_ok s" and n: "n = length (ddHashes s)"
    and below: "\<forall>p \<in> set (running_ids s). p < n" "\<forall>c \<in> fst ` set (ddWaiting s). c < n"
    and t: "ddHashes t = ddHashes s @ [hash]" "set (ddRunning s) \<subseteq> set (ddRunning t)" "js_map_ok (ddInflight t)"
    and inflight: "\<And>h p. js_get (ddInflight t) h = Some p \<Longrightarrow>
      js_get (ddInflight s) h = Some p \<or> p = n \<and> h = hash \<and> (n, True) \<in> set (ddRunning t)"
    and waiting: "\<And>c p. (c, p) \<in> set (ddWaiting t) \<Longrightarrow>
      (c, p) \<in> set (ddWaiting s) \<or> c = n \<and> js_get (ddInflight s) hash = Some p"
  shows "flights_ok t"
proof -
  have old: "(p, True) \<in> set (ddRunning t) \<and> ddHashes t ! p = ddHashes s ! p" if "(p, True) \<in> set (ddRunning s)" for p
  proof -
    have "p < n" using below(1) that by force
    with that t n show ?thesis by (auto simp: nth_append)
  qed
  have "(p, True) \<in> set (ddRunning t) \<and> ddHashes t ! p = h" if "js_get (ddInflight t) h = Some p" for h p
    using inflight [OF that]
  proof
    assume "js_get (ddInflight s) h = Some p"
    then have "(p, True) \<in> set (ddRunning s)" "ddHashes s ! p = h" using f unfolding flights_ok_def by blast+
    with old show ?thesis by blast
  qed (use t(1) n in simp)
  moreover have "(p, True) \<in> set (ddRunning t) \<and> ddHashes t ! p = ddHashes t ! c" if "(c, p) \<in> set (ddWaiting t)" for c p
    using waiting [OF that]
  proof
    assume w: "(c, p) \<in> set (ddWaiting s)"
    then have "c < n" using below(2) by force
    then have "ddHashes t ! c = ddHashes s ! c" using t(1) n by (simp add: nth_append)
    moreover have "(p, True) \<in> set (ddRunning s)" "ddHashes s ! p = ddHashes s ! c"
      using f w unfolding flights_ok_def by blast+
    ultimately show ?thesis using old by simp
  next
    assume "c = n \<and> js_get (ddInflight s) hash = Some p"
    then have "c = n" "(p, True) \<in> set (ddRunning s)" "ddHashes s ! p = hash" using f unfolding flights_ok_def by blast+
    with old t(1) n show ?thesis by simp
  qed
  ultimately show ?thesis using t(3) unfolding flights_ok_def by blast
qed

lemma answers_ok_hashes:
  "answers_ok s \<Longrightarrow> \<forall>a \<in> set (ddAnswers s). daCaller a < length (ddHashes s) \<Longrightarrow>
     ddAnswers t = ddAnswers s \<Longrightarrow> ddHashes t = ddHashes s @ [h] \<Longrightarrow> answers_ok t"
  by (fastforce simp: answers_ok_def nth_append)

lemma deduplicate_ok:
  assumes ok: "dedup_ok s"
  shows "dedup_ok (deduplicate hash cfg s)"
proof -
  define n where "n = length (ddHashes s)"
  let ?t = "deduplicate hash cfg s"
  note below = callers_below [of s n]
  have c: "callers s = mset [0..<n]" and f: "flights_ok s" and a: "answers_ok s"
    using ok by (simp_all add: dedup_ok_def n_def)
  have hashes: "ddHashes ?t = ddHashes s @ [hash]" and ans: "ddAnswers ?t = ddAnswers s"
    by (auto simp: deduplicate_def Let_def split: option.split)
  have "callers ?t = add_mset n (callers s)"
    by (auto simp: deduplicate_def Let_def callers_def n_def split: option.split)
  then have "callers ?t = mset [0..<length (ddHashes ?t)]" by (simp add: c hashes n_def)
  moreover have "answers_ok ?t"
    by (rule answers_ok_hashes [OF a _ ans hashes]) (use below(3) c in \<open>simp add: n_def\<close>)
  moreover have "flights_ok ?t"
  proof (rule flights_extend [OF f n_def _ _ hashes])
    show "\<forall>p \<in> set (running_ids s). p < n" "\<forall>c \<in> fst ` set (ddWaiting s). c < n" using below(1,2) c by blast+
    show "set (ddRunning s) \<subseteq> set (ddRunning ?t)"
      by (auto simp: deduplicate_def Let_def split: option.split)
    have m: "js_map_ok (ddInflight s)" using f by (simp add: flights_ok_def)
    then show "js_map_ok (ddInflight ?t)"
      by (simp add: deduplicate_def Let_def evict_subset(1) split: option.split)
    show "js_get (ddInflight s) h = Some p \<or> p = n \<and> h = hash \<and> (n, True) \<in> set (ddRunning ?t)"
      if "js_get (ddInflight ?t) h = Some p" for h p
      using that evict_subset(2) [OF m, of h p]
      by (auto simp: deduplicate_def Let_def n_def simp del: map_of_eq_Some_iff split: if_splits option.splits)
    show "(c, p) \<in> set (ddWaiting s) \<or> c = n \<and> js_get (ddInflight s) hash = Some p"
      if "(c, p) \<in> set (ddWaiting ?t)" for c p
      using that by (auto simp: deduplicate_def Let_def n_def split: if_splits option.splits)
  qed
  ultimately show ?thesis by (simp add: dedup_ok_def)
qed

lemma forget_frame [simp]:
  "ddHashes (forget_promise p h s) = ddHashes s" "ddRunning (forget_promise p h s) = ddRunning s"
  "ddWaiting (forget_promise p h s) = ddWaiting s" "ddAnswers (forget_promise p h s) = ddAnswers s"
  by (simp_all add: forget_promise_def)

text \<open>Promises leave the map of calls in flight: nothing else depends on it.\<close>

lemma flights_fewer:
  assumes "flights_ok s" "ddHashes t = ddHashes s" "ddRunning t = ddRunning s" "ddWaiting t = ddWaiting s"
    "js_map_ok (ddInflight t)" "\<And>h p. js_get (ddInflight t) h = Some p \<Longrightarrow> js_get (ddInflight s) h = Some p"
  shows "flights_ok t"
proof -
  have "js_get (ddInflight s) h = Some p \<longrightarrow> (p, True) \<in> set (ddRunning s) \<and> ddHashes s ! p = h" for h p
    using assms(1) unfolding flights_ok_def by blast
  with assms(6) have "js_get (ddInflight t) h = Some p \<longrightarrow> (p, True) \<in> set (ddRunning s) \<and> ddHashes s ! p = h" for h p
    by blast
  with assms(1,5) show ?thesis unfolding flights_ok_def assms(2-4) by blast
qed

lemma fewer_ok:
  assumes ok: "dedup_ok s" and frame: "ddHashes t = ddHashes s" "ddRunning t = ddRunning s" "ddWaiting t = ddWaiting s"
    "ddAnswers t = ddAnswers s"
    and "js_map_ok (ddInflight t)" "\<And>h p. js_get (ddInflight t) h = Some p \<Longrightarrow> js_get (ddInflight s) h = Some p"
  shows "dedup_ok t"
proof -
  have "flights_ok t" by (rule flights_fewer [OF _ frame(1-3)]) (use assms in \<open>simp_all add: dedup_ok_def del: map_of_eq_Some_iff\<close>)
  with ok frame show ?thesis by (simp add: dedup_ok_def callers_def answers_ok_def)
qed

lemma timeout_ok:
  assumes ok: "dedup_ok s"
  shows "dedup_ok (dedup_timeout p s)"
proof -
  have m: "js_map_ok (ddInflight s)" using ok by (simp add: dedup_ok_def flights_ok_def)
  show ?thesis
    by (rule fewer_ok [OF ok])
      (use m in \<open>auto simp: dedup_timeout_def forget_promise_def simp del: map_of_eq_Some_iff split: if_splits\<close>)
qed

lemma clear_ok: "dedup_ok s \<Longrightarrow> dedup_ok (clearInflight s)"
  by (rule fewer_ok) (simp_all add: clearInflight_def)

lemma mset_filter_id:
  "distinct (map fst xs) \<Longrightarrow> map_of xs p = Some b \<Longrightarrow>
     add_mset p (mset (map fst (filter (\<lambda>(q, _). q \<noteq> p) xs))) = mset (map fst xs)"
proof (induction xs)
  case (Cons x xs)
  show ?case
  proof (cases "fst x = p")
    case True
    with Cons.prems(1) have "filter (\<lambda>(q, _). q \<noteq> p) xs = xs" by (auto simp: filter_id_conv rev_image_eqI)
    with True show ?thesis by (cases x) simp
  next
    case False
    with Cons show ?thesis by (cases x) (simp add: add_mset_commute)
  qed
qed simp

lemma mset_partition: "mset (map f (filter (\<lambda>x. \<not> P x) xs)) + mset (map f (filter P xs)) = mset (map f xs)"
  by (induction xs) auto

lemma answers_for_simps [simp]:
  "map daCaller (answers_for p oc s) = map fst (filter (\<lambda>(c, q). q = p) (ddWaiting s))"
  "a \<in> set (answers_for p oc s) \<longleftrightarrow> (\<exists>c. (c, p) \<in> set (ddWaiting s)
     \<and> a = \<lparr>daCaller = c, daOutcome = oc, daUpstream = p, daDeduplicated = True\<rparr>)"
  by (force simp: answers_for_def split_def comp_def)+

lemma ends_ok:
  assumes ok: "dedup_ok s"
  shows "dedup_ok (upstream_ends p oc s)"
proof (cases "map_of (ddRunning s) p")
  case None
  with ok show ?thesis by (simp add: upstream_ends_def)
next
  case (Some shared)
  let ?t = "upstream_ends p oc s"
  have c: "callers s = mset [0..<length (ddHashes s)]" and f: "flights_ok s" and a: "answers_ok s"
    using ok by (simp_all add: dedup_ok_def)
  note d = callers_below(4) [OF c]
  have p: "p < length (ddHashes s)" using callers_below(1) [OF c, of p] map_of_SomeD [OF Some] by force
  have run: "(p, b) \<in> set (ddRunning s) \<longleftrightarrow> b = shared" for b
    using Some d map_of_eq_Some_iff [OF d] by fastforce
  have alone: "\<not> shared \<Longrightarrow> filter (\<lambda>(c, q). q = p) (ddWaiting s) = []"
    using f run by (auto simp: flights_ok_def filter_empty_conv)
  then have alone': "\<not> shared \<Longrightarrow> filter (\<lambda>(c, q). q \<noteq> p) (ddWaiting s) = ddWaiting s"
    by (simp add: filter_empty_conv filter_id_conv split_def)
  let ?joined = "answers_for p oc s"
  let ?own = "\<lparr>daCaller = p, daOutcome = oc, daUpstream = p, daDeduplicated = False\<rparr>"
  have joined: "(if shared then ?joined else []) = ?joined" using alone by (simp add: answers_for_def)
  have t: "ddHashes ?t = ddHashes s" "ddRunning ?t = filter (\<lambda>(q, _). q \<noteq> p) (ddRunning s)"
    "ddWaiting ?t = filter (\<lambda>(c, q). q \<noteq> p) (ddWaiting s)" "ddAnswers ?t = ddAnswers s @ ?own # ?joined"
    using Some alone' joined by (auto simp: upstream_ends_def Let_def)
  have "callers ?t = callers s"
  proof -
    have "mset (map fst (filter (\<lambda>(c, q). q \<noteq> p) (ddWaiting s))) + mset (map fst (filter (\<lambda>(c, q). q = p) (ddWaiting s)))
        = mset (map fst (ddWaiting s))"
      using mset_partition [of fst "\<lambda>(c, q). q = p" "ddWaiting s"] by (simp add: split_def)
    moreover note mset_filter_id [OF d Some]
    ultimately show ?thesis by (simp add: callers_def t flip: mset_map)
  qed
  moreover have "answers_ok ?t"
  proof -
    have "ddHashes s ! p = ddHashes s ! c" if "(c, p) \<in> set (ddWaiting s)" for c
      using f that by (auto simp: flights_ok_def)
    with a p show ?thesis unfolding answers_ok_def t by (fastforce simp: ball_Un bex_Un)
  qed
  moreover have "flights_ok ?t"
  proof -
    have infl: "ddInflight ?t = (if shared \<and> js_get (ddInflight s) (ddHashes s ! p) = Some p
        then js_delete (ddHashes s ! p) (ddInflight s) else ddInflight s)"
      using Some by (simp add: upstream_ends_def Let_def forget_promise_def)
    have in_t: "js_get (ddInflight s) h = Some q \<and> q \<noteq> p" if h: "js_get (ddInflight ?t) h = Some q" for h q
    proof -
      have s: "js_get (ddInflight s) h = Some q" using h infl by (simp del: map_of_eq_Some_iff split: if_splits)
      then have "(q, True) \<in> set (ddRunning s)" "ddHashes s ! q = h" using f unfolding flights_ok_def by blast+
      then have "q = p \<Longrightarrow> js_get (ddInflight ?t) h = None" using s run infl by (simp del: map_of_eq_Some_iff)
      with h s show ?thesis by fastforce
    qed
    have "js_map_ok (ddInflight ?t)"
      using f infl by (simp add: flights_ok_def)
    moreover have "(q, True) \<in> set (ddRunning ?t) \<and> ddHashes ?t ! q = h" if "js_get (ddInflight ?t) h = Some q" for h q
      using in_t [OF that] f unfolding flights_ok_def t by (auto simp del: map_of_eq_Some_iff)
    moreover have "(q, True) \<in> set (ddRunning ?t) \<and> ddHashes ?t ! q = ddHashes ?t ! c'" if "(c', q) \<in> set (ddWaiting ?t)" for c' q
      using that f unfolding flights_ok_def t by auto
    ultimately show ?thesis unfolding flights_ok_def by blast
  qed
  ultimately show ?thesis using c t(1) by (simp add: dedup_ok_def)
qed

lemma dedup_step_ok: "dedup_ok s \<Longrightarrow> dedup_ok (dedup_step s e)"
  by (cases e) (simp_all add: deduplicate_ok ends_ok timeout_ok clear_ok)

interpretation dedup_run: step_invariant dedup_step "\<lambda>_ _. True" dedup_ok
  by unfold_locales (rule dedup_step_ok)

lemma new_dedup_ok: "dedup_ok new_dedup"
  by (simp add: dedup_ok_def callers_def flights_ok_def answers_ok_def new_dedup_def)


section \<open>One call per hash\<close>

definition single_flight :: "dedup_state \<Rightarrow> bool" where
  "single_flight s \<longleftrightarrow>
     (\<forall>p. (p, True) \<in> set (ddRunning s) \<longrightarrow> js_get (ddInflight s) (ddHashes s ! p) = Some p)"

text \<open>Runs in which no timer fires, nothing is cleared, and there is room whenever a call arrives.\<close>

fun undisturbed :: "dedup_state \<Rightarrow> dedup_event list \<Rightarrow> bool" where
  "undisturbed s [] = True"
| "undisturbed s (e # es) =
     ((case e of Dd_call h cfg \<Rightarrow> length (ddInflight s) < MAX_INFLIGHT | Dd_ends p oc \<Rightarrow> True
        | Dd_timeout p \<Rightarrow> False | Dd_clear \<Rightarrow> False)
      \<and> undisturbed (dedup_step s e) es)"

lemma call_single:
  assumes ok: "dedup_ok s" and s: "single_flight s" and room: "length (ddInflight s) < MAX_INFLIGHT"
  shows "single_flight (deduplicate hash cfg s)"
proof -
  let ?t = "deduplicate hash cfg s" and ?n = "length (ddHashes s)"
  have keep: "evict_oldest (ddInflight s) = ddInflight s" using room by (simp add: evict_oldest_def)
  have old: "p < ?n" if "(p, True) \<in> set (ddRunning s)" for p
    using callers_below(1) [of s ?n p] ok that by (force simp: dedup_ok_def)
  have "js_get (ddInflight ?t) (ddHashes ?t ! p) = Some p" if p: "(p, True) \<in> set (ddRunning ?t)" for p
  proof (cases "(p, True) \<in> set (ddRunning s)")
    case True
    then have "js_get (ddInflight s) (ddHashes s ! p) = Some p" using s by (simp add: single_flight_def)
    then show ?thesis using old [OF True]
      by (auto simp: deduplicate_def Let_def keep nth_append simp del: map_of_eq_Some_iff split: option.split)
  next
    case False
    with p show ?thesis
      by (auto simp: deduplicate_def Let_def keep simp del: map_of_eq_Some_iff split: if_splits option.splits)
  qed
  then show ?thesis by (simp add: single_flight_def)
qed

lemma ends_single:
  assumes ok: "dedup_ok s" and s: "single_flight s"
  shows "single_flight (upstream_ends p oc s)"
proof (cases "map_of (ddRunning s) p")
  case None
  with s show ?thesis by (simp add: upstream_ends_def)
next
  case (Some shared)
  let ?t = "upstream_ends p oc s"
  have t: "ddHashes ?t = ddHashes s" "ddRunning ?t = filter (\<lambda>(q, _). q \<noteq> p) (ddRunning s)"
    "ddInflight ?t = (if shared \<and> js_get (ddInflight s) (ddHashes s ! p) = Some p
        then js_delete (ddHashes s ! p) (ddInflight s) else ddInflight s)"
    using Some by (auto simp: upstream_ends_def Let_def forget_promise_def)
  have "js_get (ddInflight ?t) (ddHashes s ! q) = Some q" if q: "(q, True) \<in> set (ddRunning s)" "q \<noteq> p" for q
  proof -
    have "js_get (ddInflight s) (ddHashes s ! q) = Some q" using s q(1) by (simp add: single_flight_def)
    with q(2) t(3) show ?thesis by (auto simp del: map_of_eq_Some_iff)
  qed
  then show ?thesis by (simp add: single_flight_def t(1,2))
qed

lemma undisturbed_run:
  "dedup_ok s \<Longrightarrow> single_flight s \<Longrightarrow> undisturbed s evs \<Longrightarrow> single_flight (foldl dedup_step s evs)"
proof (induction evs arbitrary: s)
  case (Cons e es)
  have "single_flight (dedup_step s e)"
    using Cons.prems call_single ends_single by (cases e) simp_all
  with Cons.IH [OF dedup_step_ok [OF Cons.prems(1)]] Cons.prems(3) show ?case by simp
qed simp


section \<open>Properties\<close>

text \<open>
  C20: over every run of calls, upstream answers, timeouts, evictions and clears, each caller runs an
  upstream call, waits for one, or has been answered, and none of these twice. An answered caller
  got the outcome of one upstream call for the very hash it asked with, the same outcome as the
  caller that made that call and as everyone else who shared it.
\<close>

theorem each_caller_answered_once:
  assumes s: "s = foldl dedup_step new_dedup evs"
  shows "callers s = mset [0..<length (ddHashes s)]
    \<and> (\<forall>a \<in> set (ddAnswers s). ddHashes s ! daUpstream a = ddHashes s ! daCaller a
         \<and> (\<exists>b \<in> set (ddAnswers s). daCaller b = daUpstream a \<and> daUpstream b = daUpstream a
               \<and> daOutcome b = daOutcome a \<and> \<not> daDeduplicated b))"
proof -
  have "dedup_ok s" unfolding s by (rule dedup_run.run_always_good [OF new_dedup_ok]) simp
  then show ?thesis by (simp add: dedup_ok_def answers_ok_def)
qed

definition dedup_demo :: "dedup_event list" where
  "dedup_demo =
     [Dd_call ''h'' DEFAULT_DEDUP_CONFIG, Dd_call ''h'' DEFAULT_DEDUP_CONFIG, Dd_call ''g'' DEFAULT_DEDUP_CONFIG,
      Dd_ends 0 (Answer ''x''), Dd_call ''h'' DEFAULT_DEDUP_CONFIG, Dd_ends 2 (Error ''e'')]"

theorem each_caller_answered_once_witness:
  "callers (foldl dedup_step new_dedup dedup_demo) = mset [0, 1, 2, 3]
   \<and> map daCaller (ddAnswers (foldl dedup_step new_dedup dedup_demo)) = [0, 1, 2]"
proof -
  have "length (ddHashes (foldl dedup_step new_dedup dedup_demo)) = 4"
    "map daCaller (ddAnswers (foldl dedup_step new_dedup dedup_demo)) = [0, 1, 2]" by code_simp+
  moreover have "[0..<4] = [0, 1, 2, 3 :: nat]" by code_simp
  ultimately show ?thesis using each_caller_answered_once [OF refl, of dedup_demo] by (simp only:)
qed

text \<open>
  As long as no timer fires, nothing is cleared and there are fewer than a thousand calls in
  flight whenever one arrives, at most one shared upstream call runs for each hash.
\<close>

lemma one_upstream_per_hash:
  assumes "undisturbed new_dedup evs" and s: "s = foldl dedup_step new_dedup evs"
    and "(p, True) \<in> set (ddRunning s)" "(q, True) \<in> set (ddRunning s)" "ddHashes s ! p = ddHashes s ! q"
  shows "p = q"
proof -
  have "single_flight new_dedup" by (simp add: single_flight_def new_dedup_def)
  with undisturbed_run [OF new_dedup_ok] assms(1) s have "single_flight s" by simp
  with assms(3-5) show ?thesis unfolding single_flight_def by (metis option.inject)
qed

text \<open>What a tenant is: no tenant id and the empty one are the same.\<close>

definition tenant_of :: "string option \<Rightarrow> string" where
  "tenant_of t = (case t of Some x \<Rightarrow> x | None \<Rightarrow> [])"

lemma hash_tenant:
  assumes "\<And>j. length (digest j) = 16" "computeRequestHash digest b t = computeRequestHash digest b' t'"
  shows "tenant_of t = tenant_of t'"
proof -
  have h: "computeRequestHash digest x u
      = (if tenant_of u = [] then digest (canonical x) else tenant_of u @ ''.'' @ digest (canonical x))" for x u
    by (simp add: computeRequestHash_def tenant_of_def Let_def split: option.split)
  have len: "length (computeRequestHash digest x u) = (if tenant_of u = [] then 16 else length (tenant_of u) + 17)" for x u
    by (simp add: h assms(1))
  show ?thesis
  proof (cases "tenant_of t = [] \<or> tenant_of t' = []")
    case True
    with arg_cong [OF assms(2), of length] show ?thesis by (auto simp: len split: if_splits)
  next
    case False
    with assms(2) have "tenant_of t @ ''.'' @ digest (canonical b) = tenant_of t' @ ''.'' @ digest (canonical b')"
      by (simp add: h)
    moreover have "length (''.'' @ digest (canonical b)) = length (''.'' @ digest (canonical b'))"
      by (simp add: assms(1))
    ultimately show ?thesis by (metis append_eq_append_conv)
  qed
qed

text \<open>
  Tenants never share an upstream call: if every caller's hash was computed from its body and
  its tenant, with a digest of sixteen characters, then an answered caller and the caller whose
  upstream call answered it belong to the same tenant, whatever they asked and whenever.
\<close>

lemma tenants_isolated:
  assumes "\<And>j. length (digest j) = 16"
    and s: "s = foldl dedup_step new_dedup evs"
    and "ddHashes s = map (\<lambda>(body, tenant). computeRequestHash digest body tenant) requests"
    and a: "a \<in> set (ddAnswers s)"
  shows "tenant_of (snd (requests ! daCaller a)) = tenant_of (snd (requests ! daUpstream a))"
proof -
  have ok: "dedup_ok s" unfolding s by (rule dedup_run.run_always_good [OF new_dedup_ok]) simp
  then have c: "daCaller a < length (ddHashes s)" using callers_below(3) a unfolding dedup_ok_def by blast
  have "daUpstream a < length (ddHashes s)" "ddHashes s ! daUpstream a = ddHashes s ! daCaller a"
    using ok a by (simp_all add: dedup_ok_def answers_ok_def)
  moreover obtain b t b' t' where "requests ! daUpstream a = (b, t)" "requests ! daCaller a = (b', t')" by fastforce
  ultimately have "requests ! daUpstream a = (b, t)" "requests ! daCaller a = (b', t')"
    "computeRequestHash digest b' t' = computeRequestHash digest b t" using c assms(3) by simp_all
  with hash_tenant [of digest b' t' b t] assms(1) show ?thesis by simp
qed

end
