(* ===== verification/Quota_Inflight.thy ===== *)
theory Quota_Inflight
  imports Prelude
begin

text \<open>
  The in-flight counter of the quota-share strategy,
  \<open>open-sse/services/combo/quotaShareInflight.ts\<close>: for every connection the expiry times of
  its leases, one lease per running request. The clock of every call is an argument, as in the
  code: the release of a request passes the time of its selection.
\<close>


section \<open>State and operations\<close>

definition DEFAULT_LEASE_MS :: int where
  "DEFAULT_LEASE_MS = 120000"

definition MAX_LEASES_PER_CONNECTION :: nat where
  "MAX_LEASES_PER_CONNECTION = 4096"

text \<open>\<open>InflightSlot\<close> holds the list of its leases only.\<close>

type_synonym InflightSlot = "int list"
type_synonym inflight_store = "(string, InflightSlot) js_map"

definition retireExpired :: "int \<Rightarrow> InflightSlot \<Rightarrow> InflightSlot" where
  "retireExpired now ls = (if length ls = 0 then ls else filter (\<lambda>expiresAt. expiresAt > now) ls)"

fun pruneExpired :: "int \<Rightarrow> inflight_store \<Rightarrow> inflight_store" where
  "pruneExpired now [] = []"
| "pruneExpired now ((c, ls) # m) =
     (let ls = retireExpired now ls in
      if ls = [] then pruneExpired now m else (c, ls) # pruneExpired now m)"

definition incrementInflight :: "string \<Rightarrow> int \<Rightarrow> int \<Rightarrow> inflight_store \<Rightarrow> nat \<times> inflight_store" where
  "incrementInflight c leaseMs now m =
     (if c = [] then (0, m)
      else
        let m = pruneExpired now m;
            ls = (case js_get m c of Some ls \<Rightarrow> ls | None \<Rightarrow> []) @ [now + leaseMs];
            ls = (if length ls > MAX_LEASES_PER_CONNECTION then tl ls else ls)
        in (length ls, js_set c ls m))"

text \<open>The loop of \<open>lastIndexWhere\<close>, from the index below \<open>i\<close> down; \<open>None\<close> is \<open>-1\<close>.\<close>

fun last_index_below :: "(int \<Rightarrow> bool) \<Rightarrow> int list \<Rightarrow> nat \<Rightarrow> nat option" where
  "last_index_below P vs 0 = None"
| "last_index_below P vs (Suc i) = (if P (vs ! i) then Some i else last_index_below P vs i)"

definition lastIndexWhere :: "int list \<Rightarrow> (int \<Rightarrow> bool) \<Rightarrow> nat option" where
  "lastIndexWhere vs P = last_index_below P vs (length vs)"

definition decrementInflight :: "string \<Rightarrow> int \<Rightarrow> inflight_store \<Rightarrow> inflight_store" where
  "decrementInflight c now m =
     (if c = [] then m
      else
        (case js_get m c of
           None \<Rightarrow> m
         | Some ls \<Rightarrow>
             let ls = (case lastIndexWhere ls (\<lambda>expiresAt. expiresAt \<le> now) of
                         Some i \<Rightarrow> take i ls @ drop (Suc i) ls
                       | None \<Rightarrow> butlast ls);
                 ls = retireExpired now ls
             in if length ls = 0 then js_delete c m else js_set c ls m))"

definition getInflight :: "string \<Rightarrow> int \<Rightarrow> inflight_store \<Rightarrow> nat \<times> inflight_store" where
  "getInflight c now m =
     (if c = [] then (0, m)
      else
        (case js_get m c of
           None \<Rightarrow> (0, m)
         | Some ls \<Rightarrow> (let ls = retireExpired now ls in (length ls, js_set c ls m))))"


section \<open>The leases of a connection\<close>

definition leases :: "inflight_store \<Rightarrow> string \<Rightarrow> InflightSlot" where
  "leases m c = (case js_get m c of Some ls \<Rightarrow> ls | None \<Rightarrow> [])"

lemma retireExpired_eq: "retireExpired now ls = filter (\<lambda>x. x > now) ls"
  by (simp add: retireExpired_def)

lemma pruneExpired_keys: "set (js_keys (pruneExpired now m)) \<subseteq> set (js_keys m)"
proof (induction now m rule: pruneExpired.induct)
  case (2 now c ls m)
  then show ?case by (cases "retireExpired now ls = []") (auto simp: Let_def)
qed simp

lemma pruneExpired_ok [simp]: "js_map_ok m \<Longrightarrow> js_map_ok (pruneExpired now m)"
proof (induction now m rule: pruneExpired.induct)
  case (2 now c ls m)
  then show ?case using pruneExpired_keys [of now m] by (auto simp: Let_def)
qed simp

lemma leases_prune:
  "js_map_ok m \<Longrightarrow> leases (pruneExpired now m) c = retireExpired now (leases m c)"
proof (induction now m rule: pruneExpired.induct)
  case (2 now d ls m)
  have ok: "js_map_ok m" and d: "d \<notin> set (js_keys m)" using "2.prems" by simp_all
  then have d': "js_get (pruneExpired now m) d = None"
    using pruneExpired_keys [of now m] unfolding map_of_eq_None_iff set_map [symmetric] by blast
  show ?case
  proof (cases "retireExpired now ls = []")
    case True
    have "leases (pruneExpired now m) c = retireExpired now (leases m c)" using "2.IH"(1) [OF refl True ok] .
    with True d' show ?thesis by (cases "c = d") (simp_all add: leases_def Let_def retireExpired_def)
  next
    case False
    have "leases (pruneExpired now m) c = retireExpired now (leases m c)" using "2.IH"(2) [OF refl False ok] .
    with False show ?thesis by (cases "c = d") (simp_all add: leases_def Let_def)
  qed
qed (simp add: leases_def retireExpired_def)

lemma leases_set [simp]: "leases (js_set c ls m) d = (if d = c then ls else leases m d)"
  by (simp add: leases_def)

lemma leases_delete [simp]: "leases (js_delete c m) d = (if d = c then [] else leases m d)"
  by (simp add: leases_def)

lemma get_count: "c \<noteq> [] \<Longrightarrow> fst (getInflight c now m) = length (retireExpired now (leases m c))"
  by (simp add: getInflight_def leases_def Let_def retireExpired_def split: option.splits)

lemma leases_get:
  "leases (snd (getInflight c now m)) d = (if d = c \<and> c \<noteq> [] then retireExpired now (leases m c) else leases m d)"
  by (simp add: getInflight_def leases_def Let_def retireExpired_def split: option.splits)

lemma leases_increment:
  assumes "js_map_ok m" "c \<noteq> []"
  shows "leases (snd (incrementInflight c leaseMs now m)) d =
    (let ls = retireExpired now (leases m d) in
     if d \<noteq> c then ls
     else if length ls < MAX_LEASES_PER_CONNECTION then ls @ [now + leaseMs] else tl (ls @ [now + leaseMs]))"
proof -
  have "(case js_get (pruneExpired now m) c of Some ls \<Rightarrow> ls | None \<Rightarrow> []) = retireExpired now (leases m c)"
    using leases_prune [OF assms(1), of now c] by (simp add: leases_def)
  then show ?thesis using assms by (simp add: incrementInflight_def Let_def leases_prune)
qed

lemma leases_decrement:
  "leases (decrementInflight c now m) d =
     (if d = c \<and> c \<noteq> [] then
        retireExpired now (case lastIndexWhere (leases m c) (\<lambda>x. x \<le> now) of
           Some i \<Rightarrow> take i (leases m c) @ drop (Suc i) (leases m c) | None \<Rightarrow> butlast (leases m c))
      else leases m d)"
  by (auto simp: decrementInflight_def leases_def Let_def retireExpired_def lastIndexWhere_def split: option.splits)

lemma inflight_map_ok [wf_intros]:
  "js_map_ok m \<Longrightarrow> js_map_ok (snd (incrementInflight c leaseMs now m))"
  "js_map_ok m \<Longrightarrow> js_map_ok (decrementInflight c now m)"
  "js_map_ok m \<Longrightarrow> js_map_ok (snd (getInflight c now m))"
  by (simp_all add: incrementInflight_def decrementInflight_def getInflight_def Let_def split: option.splits)

lemma last_index_below_None: "last_index_below P vs n = None \<longleftrightarrow> (\<forall>i<n. \<not> P (vs ! i))"
  by (induction n) (auto simp: less_Suc_eq)

lemma last_index_below_Some: "last_index_below P vs n = Some i \<Longrightarrow> i < n \<and> P (vs ! i)"
  by (induction n) (auto split: if_splits)

lemma lastIndexWhere_None: "lastIndexWhere vs P = None \<longleftrightarrow> (\<forall>x \<in> set vs. \<not> P x)"
  by (force simp: lastIndexWhere_def last_index_below_None in_set_conv_nth)

text \<open>What a release takes: an expired lease when there is one, else the last.\<close>

definition retire_one :: "int \<Rightarrow> InflightSlot \<Rightarrow> InflightSlot" where
  "retire_one now ls = (if \<exists>x \<in> set ls. x \<le> now then retireExpired now ls else butlast ls)"

lemma leases_decrement_one:
  assumes "c \<noteq> []"
  shows "leases (decrementInflight c now m) d = (if d = c then retire_one now (leases m c) else leases m d)"
proof -
  define ls where "ls = leases m c"
  have "retireExpired now (case lastIndexWhere ls (\<lambda>x. x \<le> now) of
           Some i \<Rightarrow> take i ls @ drop (Suc i) ls | None \<Rightarrow> butlast ls) = retire_one now ls"
  proof (cases "lastIndexWhere ls (\<lambda>x. x \<le> now)")
    case None
    then have live: "\<forall>x \<in> set ls. now < x" by (auto simp: lastIndexWhere_None not_le)
    then have "filter (\<lambda>x. now < x) (butlast ls) = butlast ls"
      by (auto simp: filter_id_conv dest: in_set_butlastD)
    with None live show ?thesis by (auto simp: retire_one_def retireExpired_eq)
  next
    case (Some i)
    then have i: "i < length ls" "ls ! i \<le> now"
      using last_index_below_Some by (auto simp: lastIndexWhere_def)
    then have "\<exists>x \<in> set ls. x \<le> now" by auto
    moreover have "filter (\<lambda>x. now < x) ls = filter (\<lambda>x. now < x) (take i ls @ ls ! i # drop (Suc i) ls)"
      using i(1) by (simp add: id_take_nth_drop [symmetric])
    ultimately show ?thesis using Some i(2) by (simp add: retire_one_def retireExpired_eq)
  qed
  then show ?thesis using assms unfolding ls_def by (auto simp: leases_decrement)
qed


section \<open>Runs\<close>

text \<open>What the strategy does with the counter; the time of a release is the one it passes.\<close>

datatype inflight_event =
    In_start string int
  | In_release string int
  | In_read string int

fun event_clock :: "inflight_event \<Rightarrow> int" where
  "event_clock (In_start c now) = now"
| "event_clock (In_release c now) = now"
| "event_clock (In_read c now) = now"

fun inflight_step :: "inflight_store \<Rightarrow> inflight_event \<Rightarrow> inflight_store" where
  "inflight_step m (In_start c now) = snd (incrementInflight c DEFAULT_LEASE_MS now m)"
| "inflight_step m (In_release c now) = decrementInflight c now m"
| "inflight_step m (In_read c now) = snd (getInflight c now m)"

text \<open>The expiry times of all the leases ever given out for a connection.\<close>

fun leases_granted :: "string \<Rightarrow> inflight_event \<Rightarrow> int list" where
  "leases_granted c (In_start d now) = (if d = c then [now + DEFAULT_LEASE_MS] else [])"
| "leases_granted c _ = []"

text \<open>The specification within one lease: a counter between zero and the bound.\<close>

fun count_step :: "string \<Rightarrow> nat \<Rightarrow> inflight_event \<Rightarrow> nat" where
  "count_step c n (In_start d now) = (if d = c then min (Suc n) MAX_LEASES_PER_CONNECTION else n)"
| "count_step c n (In_release d now) = (if d = c then n - 1 else n)"
| "count_step c n (In_read d now) = n"

lemma retire_one_subset: "mset (retire_one now ls) \<subseteq># mset ls"
proof (cases ls rule: rev_cases)
  case (snoc ys y)
  have "mset (filter ((<) now) ls) \<subseteq># mset ls" by (simp add: multiset_filter_subset)
  with snoc show ?thesis by (simp add: retire_one_def retireExpired_eq)
qed (simp add: retire_one_def retireExpired_eq)

lemma retireExpired_subset: "mset (retireExpired now ls) \<subseteq># mset ls"
  by (simp add: retireExpired_eq mset_filter multiset_filter_subset)

lemma mset_tl_subset: "mset (tl xs) \<subseteq># mset xs"
  by (cases xs) auto

definition granted_only :: "inflight_event list \<Rightarrow> inflight_store \<Rightarrow> bool" where
  "granted_only evs m \<longleftrightarrow>
     js_map_ok m \<and> (\<forall>c. c \<noteq> [] \<longrightarrow> mset (leases m c) \<subseteq># mset (concat (map (leases_granted c) evs)))"

lemma granted_only_step:
  assumes g: "granted_only evs m"
  shows "granted_only (evs @ [e]) (inflight_step m e)"
proof -
  have old: "mset (leases m c) \<subseteq># mset (concat (map (leases_granted c) evs))" if "c \<noteq> []" for c
    using g that unfolding granted_only_def by blast
  have less: "mset ls \<subseteq># mset (leases m c) \<Longrightarrow> c \<noteq> [] \<Longrightarrow>
      mset ls \<subseteq># mset (concat (map (leases_granted c) (evs @ [e])))" for c ls
    using old [of c] by (auto intro: subset_mset.order_trans subset_mset.add_increasing2)
  have "mset (leases (inflight_step m e) c) \<subseteq># mset (concat (map (leases_granted c) (evs @ [e])))" if c: "c \<noteq> []" for c
  proof (cases e)
    case (In_start d now)
    show ?thesis
    proof (cases "d = c")
      case True
      let ?ls = "retireExpired now (leases m c) @ [now + DEFAULT_LEASE_MS]"
      have "mset ?ls \<subseteq># mset (concat (map (leases_granted c) (evs @ [e])))"
        using subset_mset.order_trans [OF retireExpired_subset old [OF c]] In_start True by simp
      moreover have "leases (inflight_step m e) c = ?ls \<or> leases (inflight_step m e) c = tl ?ls"
        using g c In_start True by (simp add: granted_only_def leases_increment Let_def)
      ultimately show ?thesis using subset_mset.order_trans [OF mset_tl_subset] by fastforce
    next
      case False
      then have "mset (leases (inflight_step m e) c) \<subseteq># mset (leases m c)"
        using g In_start retireExpired_subset
        by (cases "d = []") (simp_all add: granted_only_def leases_increment leases_prune incrementInflight_def Let_def)
      then show ?thesis using less c by blast
    qed
  next
    case (In_release d now)
    then have "mset (leases (inflight_step m e) c) \<subseteq># mset (leases m c)"
      using retire_one_subset
      by (cases "d = []") (simp add: decrementInflight_def, simp add: leases_decrement_one)
    then show ?thesis using less c by blast
  next
    case (In_read d now)
    then have "mset (leases (inflight_step m e) c) \<subseteq># mset (leases m c)"
      using retireExpired_subset by (simp add: leases_get)
    then show ?thesis using less c by blast
  qed
  moreover have "js_map_ok (inflight_step m e)"
    using g by (cases e) (auto simp: granted_only_def intro: inflight_map_ok)
  ultimately show ?thesis by (simp add: granted_only_def)
qed

lemma granted_only_run: "granted_only evs (foldl inflight_step [] evs)"
proof (induction evs rule: rev_induct)
  case (snoc e evs)
  then show ?case using granted_only_step by simp
qed (simp add: granted_only_def leases_def)


text \<open>Within one lease nothing expires, and the list is a counter.\<close>

definition counts :: "int \<Rightarrow> string \<Rightarrow> nat \<Rightarrow> inflight_store \<Rightarrow> bool" where
  "counts T c n m \<longleftrightarrow>
     js_map_ok m \<and> length (leases m c) = n \<and> n \<le> MAX_LEASES_PER_CONNECTION \<and>
     (\<forall>x \<in> set (leases m c). T + DEFAULT_LEASE_MS \<le> x)"

lemma retireExpired_within:
  "\<forall>x \<in> set ls. T + DEFAULT_LEASE_MS \<le> x \<Longrightarrow> now < T + DEFAULT_LEASE_MS \<Longrightarrow> retireExpired now ls = ls"
  by (auto simp: retireExpired_eq filter_id_conv)

lemma counts_step:
  assumes s: "counts T c n m" and c: "c \<noteq> []"
    and e: "T \<le> event_clock e" "event_clock e < T + DEFAULT_LEASE_MS"
  shows "counts T c (count_step c n e) (inflight_step m e)"
proof -
  have ok: "js_map_ok m" and len: "length (leases m c) = n" "n \<le> MAX_LEASES_PER_CONNECTION"
    and live: "\<forall>x \<in> set (leases m c). T + DEFAULT_LEASE_MS \<le> x"
    using s by (auto simp: counts_def)
  have keep: "retireExpired (event_clock e) (leases m c) = leases m c"
    using retireExpired_within [OF live e(2)] .
  show ?thesis
  proof (cases e)
    case (In_start d now)
    show ?thesis
    proof (cases "d = c")
      case True
      have pos: "0 < MAX_LEASES_PER_CONNECTION" by (simp add: MAX_LEASES_PER_CONNECTION_def)
      have "leases (inflight_step m e) c =
          (if n < MAX_LEASES_PER_CONNECTION then leases m c @ [now + DEFAULT_LEASE_MS]
           else tl (leases m c @ [now + DEFAULT_LEASE_MS]))"
        using leases_increment [OF ok c, of DEFAULT_LEASE_MS now c] keep len(1) In_start True
        by (simp add: Let_def)
      moreover have "set (tl (leases m c @ [now + DEFAULT_LEASE_MS])) \<subseteq> set (leases m c) \<union> {now + DEFAULT_LEASE_MS}"
        by (cases "leases m c") auto
      ultimately show ?thesis
        using ok len live e(1) In_start True pos
        by (auto simp: counts_def inflight_map_ok split: if_splits)
    next
      case False
      then have "leases (inflight_step m e) c = leases m c"
        using leases_increment [OF ok, of d DEFAULT_LEASE_MS now c] keep In_start
        by (cases "d = []") (simp_all add: Let_def incrementInflight_def)
      then show ?thesis using s In_start False by (simp add: counts_def inflight_map_ok)
    qed
  next
    case (In_release d now)
    show ?thesis
    proof (cases "d = c")
      case True
      have "retire_one now (leases m c) = butlast (leases m c)"
        using live e(2) In_release by (force simp: retire_one_def)
      then have "leases (inflight_step m e) c = butlast (leases m c)"
        using leases_decrement_one [OF c] In_release True by simp
      then show ?thesis
        using ok len live In_release True by (auto simp: counts_def inflight_map_ok dest: in_set_butlastD)
    next
      case False
      then have "leases (inflight_step m e) c = leases m c"
        using leases_decrement_one In_release by (cases "d = []") (simp_all add: decrementInflight_def)
      then show ?thesis using s In_release False by (simp add: counts_def inflight_map_ok)
    qed
  next
    case (In_read d now)
    then have "leases (inflight_step m e) c = leases m c" using keep by (auto simp: leases_get)
    then show ?thesis using s In_read by (simp add: counts_def inflight_map_ok)
  qed
qed

lemma counts_run:
  assumes "c \<noteq> []" "counts T c n m"
    and "\<forall>e \<in> set evs. T \<le> event_clock e \<and> event_clock e < T + DEFAULT_LEASE_MS"
  shows "counts T c (foldl (count_step c) n evs) (foldl inflight_step m evs)"
  using assms(2,3)
proof (induction evs arbitrary: n m)
  case (Cons e evs)
  then show ?case using counts_step [OF Cons.prems(1) assms(1)] by simp
qed simp

section \<open>Properties\<close>

text \<open>
  C25: whatever sequence of starts, releases and reads has been run, at whatever clocks, the
  number of requests a connection is said to have in flight is at most the number of its starts
  whose lease has not expired: a request that never releases its slot is forgotten after one
  lease, however busy the connection is.
\<close>

theorem orphans_age_out:
  "fst (getInflight c now (foldl inflight_step [] evs))
     \<le> length (filter (\<lambda>expiresAt. expiresAt > now) (concat (map (leases_granted c) evs)))"
proof (cases "c = []")
  case False
  then have "mset (leases (foldl inflight_step [] evs) c) \<subseteq># mset (concat (map (leases_granted c) evs))"
    using granted_only_run unfolding granted_only_def by blast
  then have "filter_mset (\<lambda>x. now < x) (mset (leases (foldl inflight_step [] evs) c))
      \<subseteq># filter_mset (\<lambda>x. now < x) (mset (concat (map (leases_granted c) evs)))"
    by (rule multiset_filter_mono)
  from size_mset_mono [OF this] False show ?thesis
    by (simp add: get_count retireExpired_eq flip: mset_filter size_mset)
qed (simp add: getInflight_def)

text \<open>
  As long as all calls fall within one lease, the counter of a connection is exactly a
  counter: every start adds one up to the bound of tracked leases, every release takes one while
  there is one, reads and other connections change nothing.
\<close>

lemma inflight_counts:
  assumes "c \<noteq> []" "T \<le> now" "now < T + DEFAULT_LEASE_MS"
    and "\<forall>e \<in> set evs. T \<le> event_clock e \<and> event_clock e < T + DEFAULT_LEASE_MS"
  shows "fst (getInflight c now (foldl inflight_step [] evs)) = foldl (count_step c) 0 evs"
proof -
  have "counts T c 0 []" by (simp add: counts_def leases_def)
  from counts_run [OF assms(1) this assms(4)]
  have "length (leases (foldl inflight_step [] evs) c) = foldl (count_step c) 0 evs"
    and "retireExpired now (leases (foldl inflight_step [] evs) c) = leases (foldl inflight_step [] evs) c"
    using retireExpired_within [OF _ assms(3)] unfolding counts_def by blast+
  with assms(1) show ?thesis by (simp add: get_count)
qed

text \<open>
  A request that outlives its lease takes the lease of another one with it: the start of the
  second request has dropped the expired lease, so the late release finds none and retires the
  live one, whichever clock it passes.
\<close>

lemma late_release_takes_live_lease:
  assumes "c \<noteq> []" "t2 \<ge> t1 + DEFAULT_LEASE_MS" "clock < t2 + DEFAULT_LEASE_MS"
  shows "leases (foldl inflight_step [] [In_start c t1, In_start c t2, In_release c clock]) c = []"
  using assms
  by (simp add: leases_decrement_one leases_increment inflight_map_ok retireExpired_def retire_one_def Let_def
      MAX_LEASES_PER_CONNECTION_def, simp add: leases_def)

end
