(* ===== verification/Quota_Share.thy ===== *)
theory Quota_Share
  imports Account_Buckets Quota_Inflight
begin

text \<open>
  The selection of a target in a quota-share combo,
  \<open>open-sse/services/combo/quotaShareStrategy.ts\<close>: saturated connections and connections at
  their concurrency cap are moved behind the others, deficit round robin orders the rest, and
  the less loaded of the first two is taken. Weights and deficits are rationals.
\<close>


section \<open>State\<close>

text \<open>The fields of a \<open>ResolvedComboTarget\<close> that the strategy reads, and the model it serves.\<close>

record ResolvedComboTarget =
  rtExecutionKey :: string
  rtModelStr :: string
  rtProvider :: string
  rtConnectionId :: "string option"
  rtWeight :: "js_number option"

definition MAX_DRR_COMBOS :: nat where
  "MAX_DRR_COMBOS = 200"

type_synonym deficits = "(string, rat) js_map"
type_synonym drr_state = "(string, deficits) js_map"

definition getDrrDeficits :: "string \<Rightarrow> drr_state \<Rightarrow> deficits \<times> drr_state" where
  "getDrrDeficits combo d =
     (case js_get d combo of
        Some ds \<Rightarrow> (ds, d)
      | None \<Rightarrow>
          let d = (if length d \<ge> MAX_DRR_COMBOS then
                     (case d of [] \<Rightarrow> d | (oldest, _) # _ \<Rightarrow> js_delete oldest d)
                   else d)
          in ([], js_set combo [] d))"

text \<open>\<open>target.connectionId ?? ""\<close>\<close>

definition connection_of :: "ResolvedComboTarget \<Rightarrow> string" where
  "connection_of t = (case rtConnectionId t of Some c \<Rightarrow> c | None \<Rightarrow> [])"


section \<open>Saturated windows\<close>

definition bareModelName :: "string \<Rightarrow> string" where
  "bareModelName m = (if CHR 0x2F \<in> set m then tl (dropWhile (\<lambda>c. c \<noteq> CHR 0x2F) m) else m)"

text \<open>One target of the filter: the windows are asked in turn until one is saturated.\<close>

definition target_saturated :: "int \<Rightarrow> string \<Rightarrow> ResolvedComboTarget \<Rightarrow> bucket_store \<Rightarrow> bool \<times> bucket_store" where
  "target_saturated now model t b =
     (let c = connection_of t in
      if c = [] then (False, b)
      else
        let (sat, b) = isBucketSaturated now c ''5h'' b in
        if sat then (True, b)
        else
          let (sat, b) = isBucketSaturated now c ''7d'' b in
          if sat then (True, b)
          else if model \<noteq> [] then isBucketSaturated now c (''7d:'' @ model) b
          else (False, b))"

fun eligible_loop ::
  "int \<Rightarrow> string \<Rightarrow> ResolvedComboTarget list \<Rightarrow> bucket_store \<Rightarrow> ResolvedComboTarget list \<times> bucket_store" where
  "eligible_loop now model [] b = ([], b)"
| "eligible_loop now model (t # ts) b =
     (let (sat, b) = target_saturated now model t b;
          (rest, b) = eligible_loop now model ts b
      in (if sat then rest else t # rest, b))"

definition filterEligibleBySaturation ::
  "ResolvedComboTarget list \<Rightarrow> string \<Rightarrow> int \<Rightarrow> bucket_store \<Rightarrow> ResolvedComboTarget list \<times> bucket_store" where
  "filterEligibleBySaturation targets modelStr now b =
     (let (eligible, b) = eligible_loop now (bareModelName modelStr) targets b
      in (if length eligible > 0 then eligible else targets, b))"


section \<open>Concurrency caps\<close>

type_synonym caps = "(string, js_number option) js_map"

definition resolveConnectionCap :: "string \<Rightarrow> caps option \<Rightarrow> rat option" where
  "resolveConnectionCap c caps =
     (case caps of
        None \<Rightarrow> None
      | Some m \<Rightarrow>
          if c = [] then None
          else (case js_get m c of
                  Some (Some (Finite cap)) \<Rightarrow> if cap \<le> 0 then None else Some cap
                | _ \<Rightarrow> None))"

definition at_cap :: "caps option \<Rightarrow> int \<Rightarrow> ResolvedComboTarget \<Rightarrow> inflight_store \<Rightarrow> bool \<times> inflight_store" where
  "at_cap caps now t m =
     (case resolveConnectionCap (connection_of t) caps of
        None \<Rightarrow> (False, m)
      | Some cap \<Rightarrow>
          let (n, m) = getInflight (connection_of t) now m in (of_nat n \<ge> cap, m))"

fun partition_loop ::
  "caps option \<Rightarrow> int \<Rightarrow> ResolvedComboTarget list \<Rightarrow> inflight_store
     \<Rightarrow> (ResolvedComboTarget list \<times> ResolvedComboTarget list) \<times> inflight_store" where
  "partition_loop caps now [] m = (([], []), m)"
| "partition_loop caps now (t # ts) m =
     (let (full, m) = at_cap caps now t m;
          ((withRoom, atCap), m) = partition_loop caps now ts m
      in (if full then (withRoom, t # atCap) else (t # withRoom, atCap), m))"

definition partitionByConcurrencyCap ::
  "ResolvedComboTarget list \<Rightarrow> caps option \<Rightarrow> int \<Rightarrow> inflight_store
     \<Rightarrow> (ResolvedComboTarget list \<times> ResolvedComboTarget list) \<times> inflight_store" where
  "partitionByConcurrencyCap targets caps now m =
     (if caps = None \<or> caps = Some [] then ((targets, []), m)
      else
        let ((withRoom, atCap), m) = partition_loop caps now targets m in
        if withRoom = [] then ((targets, []), m) else ((withRoom, atCap), m))"


section \<open>Deficit round robin\<close>

definition normalizeWeight :: "js_number option \<Rightarrow> rat" where
  "normalizeWeight w =
     (if w = Some (Finite 0) then 0
      else (case w of Some (Finite r) \<Rightarrow> if r > 0 then r else 1 | _ \<Rightarrow> 1))"

definition deficit :: "deficits \<Rightarrow> ResolvedComboTarget \<Rightarrow> rat" where
  "deficit ds t = (case js_get ds (rtExecutionKey t) of Some d \<Rightarrow> d | None \<Rightarrow> 0)"

definition total_weight :: "ResolvedComboTarget list \<Rightarrow> rat" where
  "total_weight targets = foldl (\<lambda>sum t. sum + normalizeWeight (rtWeight t)) 0 targets"

definition add_quantum :: "rat \<Rightarrow> deficits \<Rightarrow> ResolvedComboTarget \<Rightarrow> deficits" where
  "add_quantum W ds t =
     js_set (rtExecutionKey t) (deficit ds t + normalizeWeight (rtWeight t) / W) ds"

definition better :: "deficits \<Rightarrow> ResolvedComboTarget \<times> rat \<Rightarrow> ResolvedComboTarget \<Rightarrow> ResolvedComboTarget \<times> rat" where
  "better ds best t = (if deficit ds t > snd best then (t, deficit ds t) else best)"

definition applyDrr ::
  "ResolvedComboTarget list \<Rightarrow> string \<Rightarrow> drr_state \<Rightarrow> ResolvedComboTarget list \<times> drr_state" where
  "applyDrr targets combo d =
     (if length targets \<le> 1 then (targets, d)
      else
        let (ds, d) = getDrrDeficits combo d;
            totalWeight = total_weight targets
        in
          if totalWeight \<le> 0 then (targets, d)
          else
            let ds = foldl (add_quantum totalWeight) ds targets;
                (winner, bestDeficit) = foldl (better ds) (hd targets, deficit ds (hd targets)) (tl targets);
                ds = js_set (rtExecutionKey winner) (bestDeficit - 1) ds
            in (winner # filter (\<lambda>t. rtExecutionKey t \<noteq> rtExecutionKey winner) targets, js_set combo ds d))"


section \<open>Selection\<close>

definition pickByInflightP2C ::
  "ResolvedComboTarget \<Rightarrow> ResolvedComboTarget \<Rightarrow> int \<Rightarrow> inflight_store \<Rightarrow> nat \<times> inflight_store" where
  "pickByInflightP2C a b now m =
     (let (loadFirst, m) = getInflight (connection_of a) now m;
          (loadSecond, m) = getInflight (connection_of b) now m
      in (if loadSecond < loadFirst then 1 else 0, m))"

text \<open>
  The release callback of a selection closes over the connection, the time of the selection and
  a flag; the callbacks handed out are numbered in the order of the selections.
\<close>

record release_handle =
  rhConnection :: string
  rhClock :: int
  rhReleased :: bool

record quota_share =
  qsBuckets :: bucket_store
  qsInflight :: inflight_store
  qsDrr :: drr_state
  qsHandles :: "release_handle list"

record QuotaShareResult =
  qrTarget :: "ResolvedComboTarget option"
  qrOrderedTargets :: "ResolvedComboTarget list"
  qrRelease :: "nat option"

text \<open>The choice between the first two of the ordered targets.\<close>

definition pick_winner ::
  "ResolvedComboTarget list \<Rightarrow> int \<Rightarrow> inflight_store
     \<Rightarrow> (ResolvedComboTarget \<times> ResolvedComboTarget list) \<times> inflight_store" where
  "pick_winner ordered now m =
     (case ordered of
        a # b # others \<Rightarrow>
          (let (i, m) = pickByInflightP2C a b now m in
           (if i = 1 then (b, a # others) else (a, b # others), m))
      | _ \<Rightarrow> ((hd ordered, tl ordered), m))"

definition selectQuotaShareTarget ::
  "ResolvedComboTarget list \<Rightarrow> string \<Rightarrow> string \<Rightarrow> int \<Rightarrow> caps option \<Rightarrow> quota_share
     \<Rightarrow> QuotaShareResult \<times> quota_share" where
  "selectQuotaShareTarget targets combo modelStr now caps q =
     (if length targets = 0 then (\<lparr>qrTarget = None, qrOrderedTargets = [], qrRelease = None\<rparr>, q)
      else
        let (eligible, b) = filterEligibleBySaturation targets modelStr now (qsBuckets q);
            saturatedDeprioritized = filter (\<lambda>t. t \<notin> set eligible) targets;
            ((withRoom, atCap), m) = partitionByConcurrencyCap eligible caps now (qsInflight q);
            (ordered, d) = applyDrr withRoom combo (qsDrr q);
            ((winner, rest), m) = pick_winner ordered now m;
            c = connection_of winner;
            m = (if c \<noteq> [] then snd (incrementInflight c DEFAULT_LEASE_MS now m) else m)
        in (\<lparr>qrTarget = Some winner,
             qrOrderedTargets = [winner] @ rest @ atCap @ saturatedDeprioritized,
             qrRelease = Some (length (qsHandles q))\<rparr>,
            q\<lparr>qsBuckets := b, qsInflight := m, qsDrr := d,
              qsHandles := qsHandles q @ [\<lparr>rhConnection = c, rhClock = now, rhReleased = False\<rparr>]\<rparr>))"

definition release :: "nat \<Rightarrow> quota_share \<Rightarrow> quota_share" where
  "release i q =
     (if i < length (qsHandles q) then
        let h = qsHandles q ! i in
        if rhReleased h then q
        else
          let q = q\<lparr>qsHandles := (qsHandles q)[i := h\<lparr>rhReleased := True\<rparr>]\<rparr> in
          if rhConnection h \<noteq> [] then q\<lparr>qsInflight := decrementInflight (rhConnection h) (rhClock h) (qsInflight q)\<rparr>
          else q
      else q)"


section \<open>Deficit round robin is proportional\<close>

definition share :: "ResolvedComboTarget list \<Rightarrow> ResolvedComboTarget \<Rightarrow> rat" where
  "share targets t = normalizeWeight (rtWeight t) / total_weight targets"

definition deficit_of :: "drr_state \<Rightarrow> string \<Rightarrow> ResolvedComboTarget \<Rightarrow> rat" where
  "deficit_of d combo t = (case js_get d combo of Some ds \<Rightarrow> deficit ds t | None \<Rightarrow> 0)"

abbreviation distinct_targets :: "ResolvedComboTarget list \<Rightarrow> bool" where
  "distinct_targets targets \<equiv> distinct (map rtExecutionKey targets)"

lemma foldl_weights: "foldl (\<lambda>sum t. sum + f t) (a::rat) ts = a + (\<Sum>t\<leftarrow>ts. f t)"
  by (induction ts arbitrary: a) (simp_all add: add.assoc)

lemma total_weight_sum:
  "distinct_targets targets \<Longrightarrow> total_weight targets = (\<Sum>t\<in>set targets. normalizeWeight (rtWeight t))"
  by (simp add: total_weight_def foldl_weights distinct_map sum_list_distinct_conv_sum_set)

lemma share_total:
  "distinct_targets targets \<Longrightarrow> total_weight targets > 0 \<Longrightarrow> (\<Sum>t\<in>set targets. share targets t) = 1"
  by (simp add: share_def total_weight_sum flip: sum_divide_distrib)

lemma deficit_add_quantum:
  "deficit (add_quantum W ds t) u =
     (if rtExecutionKey u = rtExecutionKey t then deficit ds t + normalizeWeight (rtWeight t) / W else deficit ds u)"
  by (simp add: add_quantum_def deficit_def)

lemma deficit_quanta:
  assumes "distinct_targets ts"
  shows "u \<in> set ts \<Longrightarrow> deficit (foldl (add_quantum W) ds ts) u = deficit ds u + normalizeWeight (rtWeight u) / W"
    and "rtExecutionKey u \<notin> rtExecutionKey ` set ts \<Longrightarrow> deficit (foldl (add_quantum W) ds ts) u = deficit ds u"
  using assms
proof (induction ts arbitrary: ds)
  case (Cons t ts)
  {
    case 1
    then have "u = t \<and> rtExecutionKey t \<notin> rtExecutionKey ` set ts \<or>
        u \<in> set ts \<and> rtExecutionKey u \<noteq> rtExecutionKey t" by (auto simp: image_iff)
    then show ?case using Cons.IH 1 by (auto simp: deficit_add_quantum)
  next
    case 2
    then show ?case using Cons.IH(2) by (simp add: deficit_add_quantum)
  }
qed simp_all

lemma best_target:
  assumes "foldl (better ds) (w, deficit ds w) ts = (w', d)"
  shows "w' \<in> insert w (set ts) \<and> d = deficit ds w' \<and> (\<forall>t \<in> insert w (set ts). deficit ds t \<le> d)"
  using assms
proof (induction ts arbitrary: w)
  case (Cons t ts)
  show ?case
  proof (cases "deficit ds t > deficit ds w")
    case True
    then have "better ds (w, deficit ds w) t = (t, deficit ds t)" by (simp add: better_def)
    with Cons.prems have "foldl (better ds) (t, deficit ds t) ts = (w', d)" by simp
    from Cons.IH [OF this] True show ?thesis by auto
  next
    case False
    then have "better ds (w, deficit ds w) t = (w, deficit ds w)" by (simp add: better_def)
    with Cons.prems have "foldl (better ds) (w, deficit ds w) ts = (w', d)" by simp
    from Cons.IH [OF this] False show ?thesis by auto
  qed
qed simp

lemma deficits_created:
  assumes "getDrrDeficits combo d = (ds, d')"
  shows "deficit ds t = deficit_of d combo t"
  using assms by (auto simp: getDrrDeficits_def deficit_of_def deficit_def split: option.splits)

text \<open>One round: every target earns its share, and the one with the largest deficit pays one.\<close>

lemma drr_round:
  assumes keys: "distinct_targets targets" and len: "2 \<le> length targets" and W: "total_weight targets > 0"
  obtains w rest d' where "applyDrr targets combo d = (w # rest, d')" "w \<in> set targets"
    "rest = filter (\<lambda>t. rtExecutionKey t \<noteq> rtExecutionKey w) targets"
    "\<And>t. t \<in> set targets \<Longrightarrow>
       deficit_of d' combo t = deficit_of d combo t + share targets t - (if t = w then 1 else 0)"
    "\<And>t. t \<in> set targets \<Longrightarrow>
       deficit_of d combo t + share targets t \<le> deficit_of d combo w + share targets w"
proof -
  obtain ds d1 where get: "getDrrDeficits combo d = (ds, d1)" by fastforce
  let ?ds = "foldl (add_quantum (total_weight targets)) ds targets"
  obtain w best where fold: "foldl (better ?ds) (hd targets, deficit ?ds (hd targets)) (tl targets) = (w, best)"
    by fastforce
  have hd_tl: "insert (hd targets) (set (tl targets)) = set targets" using len by (cases targets) auto
  have w: "w \<in> set targets" "best = deficit ?ds w" "\<forall>t \<in> set targets. deficit ?ds t \<le> deficit ?ds w"
    using best_target [OF fold] unfolding hd_tl by auto
  have q: "deficit ?ds t = deficit_of d combo t + share targets t" if "t \<in> set targets" for t
    using deficit_quanta(1) [OF keys that] deficits_created [OF get] by (simp add: share_def)
  let ?ds' = "js_set (rtExecutionKey w) (best - 1) ?ds"
  have eq: "rtExecutionKey t = rtExecutionKey w \<longleftrightarrow> t = w" if "t \<in> set targets" for t
    using keys that w(1) by (auto simp: distinct_map dest: inj_onD)
  have new: "deficit_of (js_set combo ?ds' d1) combo t = deficit ?ds t - (if t = w then 1 else 0)"
    if "t \<in> set targets" for t
    using eq [OF that] w(2) by (simp add: deficit_of_def deficit_def)
  show ?thesis
  proof (rule that)
    show "applyDrr targets combo d =
        (w # filter (\<lambda>t. rtExecutionKey t \<noteq> rtExecutionKey w) targets, js_set combo ?ds' d1)"
      using len W by (simp add: applyDrr_def get fold Let_def)
    show "w \<in> set targets" by (rule w)
    show "deficit_of (js_set combo ?ds' d1) combo t =
        deficit_of d combo t + share targets t - (if t = w then 1 else 0)" if "t \<in> set targets" for t
      using new q that by simp
    show "deficit_of d combo t + share targets t \<le> deficit_of d combo w + share targets w"
      if "t \<in> set targets" for t using w(1,3) q that by simp
  qed simp
qed

text \<open>The deficits are balanced: they sum to zero and none is as low as minus one.\<close>

definition balanced :: "ResolvedComboTarget list \<Rightarrow> string \<Rightarrow> drr_state \<Rightarrow> bool" where
  "balanced targets combo d \<longleftrightarrow>
     (\<Sum>t\<in>set targets. deficit_of d combo t) = 0 \<and> (\<forall>t \<in> set targets. deficit_of d combo t > - 1)"

lemma share_nonneg: "total_weight targets > 0 \<Longrightarrow> 0 \<le> share targets t"
  by (auto simp: share_def normalizeWeight_def split: option.splits js_number.splits)

lemma balanced_round:
  assumes keys: "distinct_targets targets" and W: "total_weight targets > 0"
    and b: "balanced targets combo d" and w: "w \<in> set targets"
    and new: "\<And>t. t \<in> set targets \<Longrightarrow>
       deficit_of d' combo t = deficit_of d combo t + share targets t - (if t = w then 1 else 0)"
    and max: "\<And>t. t \<in> set targets \<Longrightarrow>
       deficit_of d combo t + share targets t \<le> deficit_of d combo w + share targets w"
  shows "balanced targets combo d'"
proof -
  let ?e = "\<lambda>t. deficit_of d combo t + share targets t"
  have one: "(\<Sum>t\<in>set targets. ?e t) = 1"
    using b share_total [OF keys W] by (simp add: balanced_def sum.distrib)
  have "?e w > 0"
  proof (rule ccontr)
    assume "\<not> ?e w > 0"
    then have "?e t \<le> 0" if "t \<in> set targets" for t using max [OF that] by simp
    then have "(\<Sum>t\<in>set targets. ?e t) \<le> 0" by (rule sum_nonpos)
    with one show False by simp
  qed
  moreover have "?e t > - 1" if "t \<in> set targets" for t
    using b share_nonneg [OF W, of t] that unfolding balanced_def by fastforce
  ultimately have "\<forall>t \<in> set targets. deficit_of d' combo t > - 1" using new by auto
  moreover have "(\<Sum>t\<in>set targets. deficit_of d' combo t) = (\<Sum>t\<in>set targets. ?e t - (if t = w then 1 else 0))"
    using new by (rule sum.cong [OF refl])
  then have "(\<Sum>t\<in>set targets. deficit_of d' combo t) = 0"
    using one w by (simp add: sum_subtractf)
  ultimately show ?thesis by (simp add: balanced_def)
qed

text \<open>The targets picked in \<open>n\<close> rounds of one combo.\<close>

fun drr_rounds :: "nat \<Rightarrow> ResolvedComboTarget list \<Rightarrow> string \<Rightarrow> drr_state \<Rightarrow> ResolvedComboTarget list \<times> drr_state" where
  "drr_rounds 0 targets combo d = ([], d)"
| "drr_rounds (Suc n) targets combo d =
     (let (ordered, d) = applyDrr targets combo d;
          (picks, d) = drr_rounds n targets combo d
      in (hd ordered # picks, d))"

lemma drr_rounds_account:
  assumes "distinct_targets targets" "2 \<le> length targets" "total_weight targets > 0"
  shows "balanced targets combo d \<Longrightarrow> drr_rounds n targets combo d = (picks, d') \<Longrightarrow>
    balanced targets combo d' \<and>
    (\<forall>t \<in> set targets. deficit_of d' combo t
        = deficit_of d combo t + of_nat n * share targets t - of_nat (count_list picks t))"
proof (induction n arbitrary: d picks)
  case (Suc n)
  obtain w rest d1 where round: "applyDrr targets combo d = (w # rest, d1)" "w \<in> set targets"
    "\<And>t. t \<in> set targets \<Longrightarrow>
       deficit_of d1 combo t = deficit_of d combo t + share targets t - (if t = w then 1 else 0)"
    "\<And>t. t \<in> set targets \<Longrightarrow>
       deficit_of d combo t + share targets t \<le> deficit_of d combo w + share targets w"
    using drr_round [OF assms, of combo d] by metis
  have b: "balanced targets combo d1"
    using balanced_round [OF assms(1,3) Suc.prems(1) round(2-4)] .
  obtain picks' where "drr_rounds n targets combo d1 = (picks', d')" "picks = w # picks'"
    using Suc.prems(2) round(1) by (auto split: prod.splits)
  with Suc.IH [OF b] round(3) show ?case by (auto simp: algebra_simps)
qed simp

lemma balanced_bounds:
  assumes b: "balanced targets combo d" and t: "t \<in> set targets" and len: "2 \<le> card (set targets)"
  shows "- 1 < deficit_of d combo t" "deficit_of d combo t < of_nat (card (set targets)) - 1"
proof -
  show "- 1 < deficit_of d combo t" using b t by (simp add: balanced_def)
  let ?rest = "set targets - {t}"
  have "card ?rest = card (set targets) - 1" using t by simp
  with len have "?rest \<noteq> {}" by force
  then have "(\<Sum>u\<in>?rest. - 1) < (\<Sum>u\<in>?rest. deficit_of d combo u)"
    using b by (intro sum_strict_mono) (auto simp: balanced_def)
  moreover have "(\<Sum>u\<in>set targets. deficit_of d combo u) = deficit_of d combo t + (\<Sum>u\<in>?rest. deficit_of d combo u)"
    using t by (simp add: sum.remove)
  ultimately show "deficit_of d combo t < of_nat (card (set targets)) - 1"
    using b t len by (simp add: balanced_def of_nat_diff)
qed

text \<open>
  C23: deficit round robin serves in proportion to the weights. From the first round of a combo with at least
  two distinct targets whose weights are not all zero, and whatever the number of rounds, a
  target of the combo has been put first less than one time more than its exact share of the
  rounds and less than one time fewer per other target; a target of weight zero never.
\<close>

theorem drr_proportional:
  assumes "distinct_targets targets" "2 \<le> length targets" "total_weight targets > 0"
    and "js_get d combo = None" "t \<in> set targets"
  shows "of_nat n * share targets t - of_nat (length targets - 1)
           < of_nat (count_list (fst (drr_rounds n targets combo d)) t)
       \<and> of_nat (count_list (fst (drr_rounds n targets combo d)) t) < of_nat n * share targets t + 1"
proof -
  obtain picks d' where run: "drr_rounds n targets combo d = (picks, d')" by fastforce
  have start: "balanced targets combo d" "deficit_of d combo t = 0"
    using assms(4) by (simp_all add: balanced_def deficit_of_def)
  have card: "card (set targets) = length targets"
    using assms(1) by (metis distinct_card distinct_map)
  note account = drr_rounds_account [OF assms(1-3) start(1) run]
  have "- 1 < deficit_of d' combo t" "deficit_of d' combo t < of_nat (card (set targets)) - 1"
    using balanced_bounds [of targets combo d' t] account assms(2,5) card by auto
  with account start(2) assms(2,5) run card show ?thesis by (simp add: of_nat_diff)
qed

definition sample_targets :: "ResolvedComboTarget list" where
  "sample_targets =
     [\<lparr>rtExecutionKey = ''a'', rtModelStr = ''p/m'', rtProvider = ''p'', rtConnectionId = Some ''c1'',
       rtWeight = Some (Finite 3)\<rparr>,
      \<lparr>rtExecutionKey = ''b'', rtModelStr = ''p/m'', rtProvider = ''p'', rtConnectionId = Some ''c2'',
       rtWeight = Some (Finite 1)\<rparr>]"

theorem drr_proportional_witness:
  "count_list (fst (drr_rounds 8 sample_targets ''combo'' [])) (hd sample_targets) = 6"
proof -
  have "of_nat (count_list (fst (drr_rounds 8 sample_targets ''combo'' [])) (hd sample_targets)) > (5::rat)
      \<and> of_nat (count_list (fst (drr_rounds 8 sample_targets ''combo'' [])) (hd sample_targets)) < (7::rat)"
    using drr_proportional [of sample_targets "[]" "''combo''" "hd sample_targets" 8]
    by (simp add: sample_targets_def total_weight_def normalizeWeight_def share_def)
  then show ?thesis by linarith
qed


section \<open>What a selection prefers\<close>

text \<open>A check only drops windows whose reset time has passed, which answer no in any case.\<close>

lemma saturated_stable:
  "fst (isBucketSaturated now c w (snd (isBucketSaturated now c' w' b))) = fst (isBucketSaturated now c w b)"
  by (auto simp: isBucketSaturated_def split: option.splits)

definition same_answers :: "int \<Rightarrow> bucket_store \<Rightarrow> bucket_store \<Rightarrow> bool" where
  "same_answers now b b' \<longleftrightarrow> (\<forall>c w. fst (isBucketSaturated now c w b) = fst (isBucketSaturated now c w b'))"

definition saturated :: "int \<Rightarrow> string \<Rightarrow> bucket_store \<Rightarrow> ResolvedComboTarget \<Rightarrow> bool" where
  "saturated now model b t \<longleftrightarrow>
     (let c = connection_of t in
      c \<noteq> [] \<and>
      (fst (isBucketSaturated now c ''5h'' b) \<or> fst (isBucketSaturated now c ''7d'' b)
       \<or> model \<noteq> [] \<and> fst (isBucketSaturated now c (''7d:'' @ model) b)))"

lemma target_saturated_answer:
  assumes "same_answers now b b'"
  shows "fst (target_saturated now model t b) = saturated now model b' t
    \<and> same_answers now (snd (target_saturated now model t b)) b'"
  using assms
  by (simp add: target_saturated_def saturated_def Let_def case_prod_unfold saturated_stable same_answers_def)

lemma eligible_loop_filter:
  "same_answers now b b' \<Longrightarrow>
     fst (eligible_loop now model ts b) = filter (\<lambda>t. \<not> saturated now model b' t) ts"
proof (induction ts arbitrary: b)
  case (Cons t ts)
  from target_saturated_answer [OF Cons.prems, of model t] Cons.IH show ?case
    by (simp add: Let_def case_prod_unfold)
qed simp

definition eligible_targets :: "ResolvedComboTarget list \<Rightarrow> string \<Rightarrow> int \<Rightarrow> bucket_store \<Rightarrow> ResolvedComboTarget list" where
  "eligible_targets targets modelStr now b =
     (let model = bareModelName modelStr in
      if \<forall>t \<in> set targets. saturated now model b t then targets
      else filter (\<lambda>t. \<not> saturated now model b t) targets)"

lemma filterEligible_eq: "fst (filterEligibleBySaturation targets modelStr now b) = eligible_targets targets modelStr now b"
proof -
  have "fst (eligible_loop now (bareModelName modelStr) targets b)
      = filter (\<lambda>t. \<not> saturated now (bareModelName modelStr) b t) targets"
    by (rule eligible_loop_filter) (simp add: same_answers_def)
  then show ?thesis
    by (simp add: filterEligibleBySaturation_def eligible_targets_def Let_def filter_empty_conv case_prod_unfold)
qed

text \<open>The same for the concurrency caps: reading a counter drops expired leases only.\<close>

definition inflight :: "int \<Rightarrow> inflight_store \<Rightarrow> string \<Rightarrow> nat" where
  "inflight now m c = fst (getInflight c now m)"

lemma inflight_leases: "inflight now m c = (if c = [] then 0 else length (retireExpired now (leases m c)))"
  by (simp add: inflight_def get_count) (simp add: getInflight_def)

lemma inflight_stable [simp]: "inflight now (snd (getInflight d now m)) c = inflight now m c"
  by (simp add: inflight_leases leases_get retireExpired_eq)

definition full :: "caps option \<Rightarrow> int \<Rightarrow> inflight_store \<Rightarrow> ResolvedComboTarget \<Rightarrow> bool" where
  "full caps now m t \<longleftrightarrow>
     (case resolveConnectionCap (connection_of t) caps of
        None \<Rightarrow> False
      | Some cap \<Rightarrow> of_nat (inflight now m (connection_of t)) \<ge> cap)"

lemma at_cap_full:
  "fst (at_cap caps now t m) = full caps now m t
     \<and> inflight now (snd (at_cap caps now t m)) c = inflight now m c"
  by (simp add: at_cap_def full_def case_prod_unfold Let_def flip: inflight_def split: option.split)

lemma full_cong: "inflight now m = inflight now m' \<Longrightarrow> full caps now m = full caps now m'"
  by (rule ext) (simp only: full_def)

lemma partition_loop_filter:
  assumes "partition_loop caps now ts m = ((room, cap), m')"
  shows "room = filter (\<lambda>t. \<not> full caps now m t) ts \<and> cap = filter (full caps now m) ts
    \<and> inflight now m' = inflight now m"
  using assms
proof (induction ts arbitrary: m room cap m')
  case (Cons t ts)
  obtain f m1 where t: "at_cap caps now t m = (f, m1)" by fastforce
  obtain room1 cap1 m2 where ts: "partition_loop caps now ts m1 = ((room1, cap1), m2)" by (metis prod.exhaust)
  have m1: "f = full caps now m t" "inflight now m1 = inflight now m"
    using at_cap_full [of caps now t m] t by auto
  show ?case using Cons.IH [OF ts] m1(1) m1(2) full_cong [OF m1(2)] Cons.prems t ts by auto
qed simp

definition room_targets :: "ResolvedComboTarget list \<Rightarrow> caps option \<Rightarrow> int \<Rightarrow> inflight_store \<Rightarrow> ResolvedComboTarget list" where
  "room_targets ts caps now m =
     (if \<forall>t \<in> set ts. full caps now m t then ts else filter (\<lambda>t. \<not> full caps now m t) ts)"

lemma no_caps: "caps = None \<or> caps = Some [] \<Longrightarrow> \<not> full caps now m t"
  by (cases "connection_of t = []") (auto simp: full_def resolveConnectionCap_def)

lemma partitionByConcurrencyCap_eq:
  assumes "partitionByConcurrencyCap ts caps now m = ((room, cap), m')"
  shows "room = room_targets ts caps now m \<and> mset (room @ cap) = mset ts
    \<and> inflight now m' = inflight now m"
proof (cases "caps = None \<or> caps = Some []")
  case True
  then have "filter (\<lambda>t. \<not> full caps now m t) ts = ts" using no_caps by (simp add: filter_id_conv)
  with True assms show ?thesis by (auto simp: partitionByConcurrencyCap_def room_targets_def)
next
  case False
  obtain room1 cap1 m1 where loop: "partition_loop caps now ts m = ((room1, cap1), m1)" by (metis prod.exhaust)
  from partition_loop_filter [OF loop] False assms loop show ?thesis
    by (auto simp: partitionByConcurrencyCap_def room_targets_def Let_def filter_empty_conv
        multiset_partition [symmetric] union_commute split: if_splits)
qed

lemma applyDrr_permutes:
  assumes "distinct_targets ts" "ts \<noteq> []"
  shows "mset (fst (applyDrr ts combo d)) = mset ts"
proof (cases "2 \<le> length ts \<and> total_weight ts > 0")
  case True
  then obtain w rest d' where r: "applyDrr ts combo d = (w # rest, d')" "w \<in> set ts"
    "rest = filter (\<lambda>t. rtExecutionKey t \<noteq> rtExecutionKey w) ts"
    using drr_round [OF assms(1), of combo d] by metis
  have one: "distinct us \<Longrightarrow> w \<in> set us \<Longrightarrow> filter (\<lambda>t. t = w) us = [w]" for us
    by (induction us) (auto simp: filter_empty_conv)
  have "filter (\<lambda>t. rtExecutionKey t = rtExecutionKey w) ts = filter (\<lambda>t. t = w) ts"
    using assms(1) r(2) by (intro filter_cong) (auto simp: distinct_map dest: inj_onD)
  moreover have "distinct ts" using assms(1) by (simp add: distinct_map)
  then have "filter (\<lambda>t. t = w) ts = [w]"
    using r(2) by (rule one)
  ultimately have "mset ts = {#w#} + mset rest"
    using multiset_partition [of "mset ts" "\<lambda>t. rtExecutionKey t = rtExecutionKey w"] r(3)
    by (simp flip: mset_filter)
  with r(1) show ?thesis by simp
next
  case False
  then show ?thesis
    by (auto simp: applyDrr_def Let_def split: prod.splits)
qed

lemma pick_winner_permutes:
  assumes "ordered \<noteq> []" "pick_winner ordered now m = ((w, rest), m')"
  shows "mset (w # rest) = mset ordered \<and> inflight now m' = inflight now m"
proof (cases "\<exists>a b others. ordered = a # b # others")
  case True
  then obtain a b others where o: "ordered = a # b # others" by blast
  obtain n1 m1 where g1: "getInflight (connection_of a) now m = (n1, m1)" by fastforce
  obtain n2 m2 where g2: "getInflight (connection_of b) now m1 = (n2, m2)" by fastforce
  have "inflight now m2 = inflight now m"
    using inflight_stable [of now "connection_of b" m1] inflight_stable [of now "connection_of a" m] g1 g2
    by (simp add: fun_eq_iff)
  with o assms(2) g1 g2 show ?thesis
    by (auto simp: pick_winner_def pickByInflightP2C_def split: if_splits)
next
  case False
  with assms show ?thesis by (cases ordered; cases "tl ordered") (auto simp: pick_winner_def)
qed


section \<open>Reservations\<close>

lemma counts_get:
  assumes "counts T c n m" "c \<noteq> []" "T \<le> now" "now < T + DEFAULT_LEASE_MS"
  shows "counts T c n (snd (getInflight d now m))"
  using counts_step [OF assms(1,2), of "In_read d now"] assms(3,4) by simp

lemma counts_at_cap:
  assumes "counts T c n m" "c \<noteq> []" "T \<le> now" "now < T + DEFAULT_LEASE_MS"
  shows "counts T c n (snd (at_cap caps now t m))"
  using assms counts_get [OF assms] by (simp add: at_cap_def case_prod_unfold Let_def split: option.split)

lemma counts_partition_loop:
  assumes "c \<noteq> []" "T \<le> now" "now < T + DEFAULT_LEASE_MS"
  shows "counts T c n m \<Longrightarrow> counts T c n (snd (partition_loop caps now ts m))"
proof (induction ts arbitrary: m)
  case (Cons t ts)
  then show ?case using counts_at_cap [OF Cons.prems assms, of caps t] by (simp add: case_prod_unfold Let_def)
qed simp

lemma counts_partition:
  assumes "counts T c n m" "c \<noteq> []" "T \<le> now" "now < T + DEFAULT_LEASE_MS"
  shows "counts T c n (snd (partitionByConcurrencyCap ts caps now m))"
  using assms(1) counts_partition_loop [OF assms(2-4,1)]
  by (simp add: partitionByConcurrencyCap_def case_prod_unfold Let_def)

lemma counts_pick:
  assumes "counts T c n m" "c \<noteq> []" "T \<le> now" "now < T + DEFAULT_LEASE_MS"
  shows "counts T c n (snd (pick_winner ordered now m))"
  using assms counts_get [OF counts_get [OF assms] assms(2-4)]
  by (simp add: pick_winner_def pickByInflightP2C_def case_prod_unfold Let_def split: list.split)

datatype qs_event =
    Qs_select "ResolvedComboTarget list" string string int "caps option"
  | Qs_release nat

fun qs_step :: "quota_share \<Rightarrow> qs_event \<Rightarrow> quota_share" where
  "qs_step q (Qs_select targets combo modelStr now caps) = snd (selectQuotaShareTarget targets combo modelStr now caps q)"
| "qs_step q (Qs_release i) = release i q"

fun qs_within :: "int \<Rightarrow> qs_event \<Rightarrow> bool" where
  "qs_within T (Qs_select targets combo modelStr now caps) \<longleftrightarrow> T \<le> now \<and> now < T + DEFAULT_LEASE_MS"
| "qs_within T (Qs_release i) \<longleftrightarrow> True"

definition qs_empty :: quota_share where
  "qs_empty = \<lparr>qsBuckets = [], qsInflight = [], qsDrr = [], qsHandles = []\<rparr>"

definition open_handles :: "string \<Rightarrow> quota_share \<Rightarrow> nat" where
  "open_handles c q = length (filter (\<lambda>h. rhConnection h = c \<and> \<not> rhReleased h) (qsHandles q))"

definition slots_reserved :: "int \<Rightarrow> string \<Rightarrow> quota_share \<Rightarrow> bool" where
  "slots_reserved T c q \<longleftrightarrow>
     counts T c (open_handles c q) (qsInflight q) \<and>
     (\<forall>h \<in> set (qsHandles q). T \<le> rhClock h \<and> rhClock h < T + DEFAULT_LEASE_MS)"

lemma handles_step: "length (qsHandles (qs_step q e)) \<le> Suc (length (qsHandles q))"
  by (cases e) (simp_all add: selectQuotaShareTarget_def release_def case_prod_unfold Let_def)

lemma length_filter_update:
  assumes "i < length xs" "P (xs ! i)" "\<not> P y"
  shows "length (filter P (xs[i := y])) = length (filter P xs) - 1"
proof -
  have "length (filter P xs) = length (filter P (take i xs @ xs ! i # drop (Suc i) xs))"
    using assms(1) by (simp add: id_take_nth_drop [symmetric])
  with assms show ?thesis by (simp add: upd_conv_take_nth_drop)
qed

lemma length_filter_update_out:
  assumes "i < length xs" "\<not> P (xs ! i)" "\<not> P y"
  shows "length (filter P (xs[i := y])) = length (filter P xs)"
proof -
  have "length (filter P xs) = length (filter P (take i xs @ xs ! i # drop (Suc i) xs))"
    using assms(1) by (simp add: id_take_nth_drop [symmetric])
  with assms show ?thesis by (simp add: upd_conv_take_nth_drop)
qed

lemma reserved_select:
  assumes r: "slots_reserved T c q" and c: "c \<noteq> []" and now: "T \<le> now" "now < T + DEFAULT_LEASE_MS"
    and room: "length (qsHandles q) < MAX_LEASES_PER_CONNECTION"
  shows "slots_reserved T c (snd (selectQuotaShareTarget targets combo modelStr now caps q))"
proof (cases "targets = []")
  case False
  obtain eligible b where e: "filterEligibleBySaturation targets modelStr now (qsBuckets q) = (eligible, b)" by fastforce
  obtain room cap m1 where p: "partitionByConcurrencyCap eligible caps now (qsInflight q) = ((room, cap), m1)"
    by (metis prod.exhaust)
  obtain ordered d where o: "applyDrr room combo (qsDrr q) = (ordered, d)" by fastforce
  obtain w rest m2 where w: "pick_winner ordered now m1 = ((w, rest), m2)" by (metis prod.exhaust)
  let ?n = "open_handles c q"
  let ?q = "snd (selectQuotaShareTarget targets combo modelStr now caps q)"
  have m2: "counts T c ?n m2"
    using counts_partition [of T c ?n "qsInflight q" now eligible caps] counts_pick [of T c ?n m1 now ordered]
      r c now p w by (simp add: slots_reserved_def)
  have q: "qsHandles ?q = qsHandles q @ [\<lparr>rhConnection = connection_of w, rhClock = now, rhReleased = False\<rparr>]"
    "qsInflight ?q = (if connection_of w \<noteq> [] then snd (incrementInflight (connection_of w) DEFAULT_LEASE_MS now m2) else m2)"
    using False by (simp_all add: selectQuotaShareTarget_def e p o w Let_def)
  have "?n < MAX_LEASES_PER_CONNECTION"
    using room le_trans [OF length_filter_le] unfolding open_handles_def by (meson le_less_trans length_filter_le)
  moreover have "counts T c (count_step c ?n (In_start (connection_of w) now)) (snd (incrementInflight (connection_of w) DEFAULT_LEASE_MS now m2))"
    using counts_step [OF m2 c, of "In_start (connection_of w) now"] now by simp
  ultimately have "counts T c (open_handles c ?q) (qsInflight ?q)"
    using c m2 q by (cases "connection_of w = []") (auto simp: open_handles_def split: if_splits)
  then show ?thesis using r now q(1) by (auto simp: slots_reserved_def)
qed (use r in \<open>simp add: selectQuotaShareTarget_def\<close>)

lemma reserved_release:
  assumes r: "slots_reserved T c q" and c: "c \<noteq> []"
  shows "slots_reserved T c (release i q)"
proof (cases "i < length (qsHandles q) \<and> \<not> rhReleased (qsHandles q ! i)")
  case True
  let ?h = "qsHandles q ! i"
  have h: "T \<le> rhClock ?h" "rhClock ?h < T + DEFAULT_LEASE_MS" using r True by (auto simp: slots_reserved_def)
  have clocks: "\<forall>h \<in> set ((qsHandles q)[i := ?h\<lparr>rhReleased := True\<rparr>]). T \<le> rhClock h \<and> rhClock h < T + DEFAULT_LEASE_MS"
    using r h set_update_subset_insert [of "qsHandles q" i "?h\<lparr>rhReleased := True\<rparr>"] by (auto simp: slots_reserved_def)
  have n: "open_handles c (q\<lparr>qsHandles := (qsHandles q)[i := ?h\<lparr>rhReleased := True\<rparr>]\<rparr>) = count_step c (open_handles c q) (In_release (rhConnection ?h) (rhClock ?h))"
    using True by (simp add: open_handles_def length_filter_update length_filter_update_out)
  have "counts T c (count_step c (open_handles c q) (In_release (rhConnection ?h) (rhClock ?h))) (decrementInflight (rhConnection ?h) (rhClock ?h) (qsInflight q))"
    using counts_step [of T c "open_handles c q" "qsInflight q" "In_release (rhConnection ?h) (rhClock ?h)"] r c h
    by (simp add: slots_reserved_def)
  then show ?thesis
    using True clocks n by (auto simp: slots_reserved_def release_def Let_def open_handles_def decrementInflight_def)
qed (use r in \<open>auto simp: release_def Let_def\<close>)

lemma reserved_run:
  assumes "c \<noteq> []" "slots_reserved T c q" "\<forall>e \<in> set evs. qs_within T e"
    and "length (qsHandles q) + length evs \<le> MAX_LEASES_PER_CONNECTION"
  shows "slots_reserved T c (foldl qs_step q evs)"
  using assms(2-4)
proof (induction evs arbitrary: q)
  case (Cons e evs)
  have "slots_reserved T c (qs_step q e)"
    using reserved_select [OF Cons.prems(1) assms(1)] reserved_release [OF Cons.prems(1) assms(1)] Cons.prems(2,3)
    by (cases e) auto
  moreover have "length (qsHandles (qs_step q e)) + length evs \<le> MAX_LEASES_PER_CONNECTION"
    using handles_step [of q e] Cons.prems(3) by simp
  ultimately show ?case using Cons.IH Cons.prems(2) by simp
qed simp


section \<open>Properties of the selection\<close>

lemma mset_filter_rest: "mset (filter P ts) + mset (filter (\<lambda>t. t \<notin> set (filter P ts)) ts) = mset ts"
proof -
  have "filter (\<lambda>t. t \<notin> set (filter P ts)) ts = filter (\<lambda>t. \<not> P t) ts" by (rule filter_cong) auto
  then show ?thesis by (simp add: multiset_partition [symmetric])
qed

text \<open>The stages of a selection, each seen from the state before it.\<close>

lemma selection_stages:
  fixes q :: quota_share and now :: int and modelStr :: string
  assumes "distinct_targets targets" "targets \<noteq> []"
  defines "eligible \<equiv> eligible_targets targets modelStr now (qsBuckets q)"
  obtains w rest cap n where
    "fst (selectQuotaShareTarget targets combo modelStr now caps q)
       = \<lparr>qrTarget = Some w, qrOrderedTargets = [w] @ rest @ cap @ filter (\<lambda>t. t \<notin> set eligible) targets,
          qrRelease = Some n\<rparr>"
    "mset (w # rest) = mset (room_targets eligible caps now (qsInflight q))"
    "mset (room_targets eligible caps now (qsInflight q) @ cap) = mset eligible"
proof -
  obtain b where e: "filterEligibleBySaturation targets modelStr now (qsBuckets q) = (eligible, b)"
    using filterEligible_eq [of targets modelStr now "qsBuckets q"] unfolding eligible_def by (metis fst_conv prod.exhaust)
  obtain room cap m1 where p: "partitionByConcurrencyCap eligible caps now (qsInflight q) = ((room, cap), m1)"
    by (metis prod.exhaust)
  obtain ordered d where o: "applyDrr room combo (qsDrr q) = (ordered, d)" by fastforce
  obtain w rest m2 where w: "pick_winner ordered now m1 = ((w, rest), m2)" by (metis prod.exhaust)
  have rm: "room = room_targets eligible caps now (qsInflight q)" "mset (room @ cap) = mset eligible"
    using partitionByConcurrencyCap_eq [OF p] by auto
  have nonempty: "room \<noteq> []"
    using assms(2) unfolding rm(1) eligible_def
    by (auto simp: eligible_targets_def room_targets_def Let_def filter_empty_conv)
  have "distinct_targets room"
    using assms(1) by (simp add: rm(1) eligible_def eligible_targets_def room_targets_def Let_def distinct_map_filter)
  then have ordered: "mset ordered = mset room" using applyDrr_permutes [of room combo "qsDrr q"] nonempty o by simp
  then have "ordered \<noteq> []" using nonempty by auto
  then have "mset (w # rest) = mset ordered" using pick_winner_permutes [OF _ w] by blast
  then have wr: "mset (w # rest) = mset room" by (simp only: ordered)
  have sel: "fst (selectQuotaShareTarget targets combo modelStr now caps q)
      = \<lparr>qrTarget = Some w, qrOrderedTargets = [w] @ rest @ cap @ filter (\<lambda>t. t \<notin> set eligible) targets,
         qrRelease = Some (length (qsHandles q))\<rparr>"
    using assms(2) by (simp add: selectQuotaShareTarget_def e p o w Let_def)
  from that [OF sel wr [unfolded rm(1)] rm(2) [unfolded rm(1)]] show ?thesis .
qed

text \<open>
  A selection never drops a target. The dispatch list is the given targets in some order,
  each as often as it was given, and starts with the selected one, however many connections are
  saturated or at their cap.
\<close>

lemma dispatch_list_complete:
  assumes "distinct_targets targets" "targets \<noteq> []"
  shows "mset (qrOrderedTargets (fst (selectQuotaShareTarget targets combo modelStr now caps q))) = mset targets
    \<and> qrTarget (fst (selectQuotaShareTarget targets combo modelStr now caps q))
        = Some (hd (qrOrderedTargets (fst (selectQuotaShareTarget targets combo modelStr now caps q))))"
proof -
  let ?e = "eligible_targets targets modelStr now (qsBuckets q)"
  obtain w rest cap n where st:
    "fst (selectQuotaShareTarget targets combo modelStr now caps q)
       = \<lparr>qrTarget = Some w, qrOrderedTargets = [w] @ rest @ cap @ filter (\<lambda>t. t \<notin> set ?e) targets,
          qrRelease = Some n\<rparr>"
    "mset (w # rest) = mset (room_targets ?e caps now (qsInflight q))"
    "mset (room_targets ?e caps now (qsInflight q) @ cap) = mset ?e"
    using selection_stages [OF assms, where modelStr = modelStr and now = now and q = q and combo = combo and caps = caps]
    by blast
  have "mset ?e + mset (filter (\<lambda>t. t \<notin> set ?e) targets) = mset targets"
    using mset_filter_rest [of "\<lambda>t. \<not> saturated now (bareModelName modelStr) (qsBuckets q) t" targets]
    by (simp add: eligible_targets_def Let_def)
  moreover have "mset ([w] @ rest @ cap @ filter (\<lambda>t. t \<notin> set ?e) targets)
      = mset (w # rest) + mset cap + mset (filter (\<lambda>t. t \<notin> set ?e) targets)" by simp
  ultimately have "mset ([w] @ rest @ cap @ filter (\<lambda>t. t \<notin> set ?e) targets) = mset targets"
    using st(2,3) by (simp only: mset_append)
  with st(1) show ?thesis by simp
qed

text \<open>
  The selected target is one whose windows are not saturated, unless all are; and among the
  targets left by this rule it is one whose connection is below its concurrency cap, unless all
  are at their caps.
\<close>

lemma selection_prefers_free:
  assumes "distinct_targets targets"
    and "qrTarget (fst (selectQuotaShareTarget targets combo modelStr now caps q)) = Some w"
    and "eligible = (let busy = saturated now (bareModelName modelStr) (qsBuckets q) in
                     if \<forall>t \<in> set targets. busy t then set targets else {t \<in> set targets. \<not> busy t})"
  shows "w \<in> (if \<forall>t \<in> eligible. full caps now (qsInflight q) t then eligible
              else {t \<in> eligible. \<not> full caps now (qsInflight q) t})"
proof -
  have "targets \<noteq> []" using assms(2) by (auto simp: selectQuotaShareTarget_def)
  let ?e = "eligible_targets targets modelStr now (qsBuckets q)"
  obtain w' rest cap n where st:
    "fst (selectQuotaShareTarget targets combo modelStr now caps q)
       = \<lparr>qrTarget = Some w', qrOrderedTargets = [w'] @ rest @ cap @ filter (\<lambda>t. t \<notin> set ?e) targets,
          qrRelease = Some n\<rparr>"
    "mset (w' # rest) = mset (room_targets ?e caps now (qsInflight q))"
    by (rule selection_stages [OF assms(1) \<open>targets \<noteq> []\<close>, where modelStr = modelStr and now = now and q = q and combo = combo and caps = caps])
  then have "w \<in> set (room_targets ?e caps now (qsInflight q))"
    using assms(2) by (metis list.set_intros(1) option.inject QuotaShareResult.select_convs(1) set_mset_mset)
  moreover have "set ?e = eligible" using assms(3) by (simp add: eligible_targets_def Let_def)
  ultimately show ?thesis by (auto simp: room_targets_def split: if_splits)
qed

text \<open>
  C24: whatever is selected and released within the length of one lease, the number of requests a
  connection is said to have in flight is the number of selections that chose it and whose release
  callback has not been called; in particular a callback called twice gives back one slot. The
  conditions: from a fresh store, all selections and the count itself fall into one window of
  \<open>DEFAULT_LEASE_MS\<close> (so that no lease has expired), and there are at most
  \<open>MAX_LEASES_PER_CONNECTION\<close> (4096) selections and releases (beyond that many leases of one
  connection the code drops the oldest and the count falls short). It is the counts that agree:
  the store does not know which lease is whose, and a release drops the newest lease of its
  connection.
\<close>

theorem reservations_match_handles:
  assumes "c \<noteq> []" "\<forall>e \<in> set evs. qs_within T e" "length evs \<le> MAX_LEASES_PER_CONNECTION"
    and "T \<le> now" "now < T + DEFAULT_LEASE_MS"
  shows "fst (getInflight c now (qsInflight (foldl qs_step qs_empty evs))) = open_handles c (foldl qs_step qs_empty evs)"
proof -
  have "slots_reserved T c qs_empty" by (simp add: slots_reserved_def qs_empty_def counts_def open_handles_def leases_def)
  from reserved_run [OF assms(1) this assms(2)] assms(3)
  have "counts T c (open_handles c (foldl qs_step qs_empty evs)) (qsInflight (foldl qs_step qs_empty evs))"
    by (simp add: qs_empty_def slots_reserved_def)
  then have "length (leases (qsInflight (foldl qs_step qs_empty evs)) c) = open_handles c (foldl qs_step qs_empty evs)"
    and "retireExpired now (leases (qsInflight (foldl qs_step qs_empty evs)) c) = leases (qsInflight (foldl qs_step qs_empty evs)) c"
    using retireExpired_within [OF _ assms(5)] unfolding counts_def by blast+
  with assms(1) show ?thesis by (simp add: get_count)
qed

text \<open>Two requests to the same connection; the first one's callback is called twice.\<close>

definition two_requests :: "qs_event list" where
  "two_requests =
     [Qs_select [hd sample_targets] ''combo'' ''p/m'' 1000 None,
      Qs_select [hd sample_targets] ''combo'' ''p/m'' 1200 None, Qs_release 0, Qs_release 0]"

lemma select_only_target:
  "qsBuckets q = [] \<Longrightarrow>
   snd (selectQuotaShareTarget [hd sample_targets] ''combo'' ''p/m'' now None q) =
     q\<lparr>qsInflight := snd (incrementInflight ''c1'' DEFAULT_LEASE_MS now (qsInflight q)),
       qsHandles := qsHandles q @ [\<lparr>rhConnection = ''c1'', rhClock = now, rhReleased = False\<rparr>]\<rparr>"
  by (simp add: selectQuotaShareTarget_def filterEligibleBySaturation_def target_saturated_def isBucketSaturated_def
      partitionByConcurrencyCap_def applyDrr_def pick_winner_def connection_of_def sample_targets_def
      bareModelName_def Let_def)

lemma two_requests_one_open: "open_handles ''c1'' (foldl qs_step qs_empty two_requests) = 1"
  by (simp add: two_requests_def select_only_target qs_empty_def release_def open_handles_def Let_def)

theorem reservations_match_handles_witness:
  "fst (getInflight ''c1'' 1500 (qsInflight (foldl qs_step qs_empty two_requests))) = 1"
proof -
  have "fst (getInflight ''c1'' 1500 (qsInflight (foldl qs_step qs_empty two_requests)))
      = open_handles ''c1'' (foldl qs_step qs_empty two_requests)"
    by (rule reservations_match_handles [where T = 1000])
      (simp_all add: two_requests_def DEFAULT_LEASE_MS_def MAX_LEASES_PER_CONNECTION_def)
  from trans [OF this two_requests_one_open] show ?thesis .
qed

end
