(* ===== verification/Workflow_Fsm.thy ===== *)
theory Workflow_Fsm
  imports Prelude
begin

text \<open>
  The state machine of multi-step workflows, \<open>open-sse/services/workflowFSM.ts\<close>: phases, the
  transition table with its conditions, retries and the history. ISO timestamps are the times
  they print.
\<close>


section \<open>Data\<close>

datatype Phase =
    Classify | Plan | Plan_review | Execute | Code_review | Quality_review | Security | Test
  | Output_review | Done | Failed | Paused

datatype RiskLevel = Low | Medium | High

datatype Verdict = Approve | Approve_with_notes | Request_changes | Reject | Block

record PhaseRecord =
  prPhase :: Phase
  prEnteredAt :: int
  prExitedAt :: "int option"
  prVerdict :: "Verdict option"
  prProvider :: "string option"
  prModel :: "string option"
  prRetryCount :: int
  prNotes :: "string option"

record WorkflowContext =
  wcId :: string
  wcCurrentPhase :: Phase
  wcRisk :: RiskLevel
  wcLastVerdict :: "Verdict option"
  wcRetries :: "(Phase, int) js_map"
  wcMaxRetries :: js_number
  wcTestsPass :: bool
  wcHistory :: "PhaseRecord list"
  wcCreatedAt :: int
  wcMetadata :: "(string, js_value) js_map"


section \<open>Risk\<close>

definition HIGH_KEYWORDS :: "string list" where
  "HIGH_KEYWORDS =
     [''schema'', ''migration'', ''deploy'', ''delete'', ''drop'', ''env'', ''database'', ''refactor'',
      ''security'', ''auth'', ''production'', ''secrets'', ''credentials'', ''permission'']"

definition MED_KEYWORDS :: "string list" where
  "MED_KEYWORDS =
     [''endpoint'', ''feature'', ''service'', ''model'', ''api'', ''integration'', ''webhook'',
      ''middleware'', ''route'']"

text \<open>\<open>l.includes(k)\<close>\<close>

definition js_includes :: "string \<Rightarrow> string \<Rightarrow> bool" where
  "js_includes l k \<longleftrightarrow> list_ex (\<lambda>i. take (length k) (drop i l) = k) [0..<Suc (length l)]"

definition classifyRisk :: "string \<Rightarrow> RiskLevel" where
  "classifyRisk desc =
     (let l = map js_lower desc in
      if list_ex (js_includes l) HIGH_KEYWORDS then High
      else if list_ex (js_includes l) MED_KEYWORDS then Medium
      else Low)"


section \<open>Transitions\<close>

definition PHASE_ORDER :: "Phase list" where
  "PHASE_ORDER =
     [Classify, Plan, Plan_review, Execute, Code_review, Quality_review, Security, Test, Output_review]"

record Transition =
  trFrom :: Phase
  trTo :: Phase
  trCondition :: "WorkflowContext \<Rightarrow> bool"
  trDescription :: string

definition retries_of :: "WorkflowContext \<Rightarrow> Phase \<Rightarrow> int" where
  "retries_of c p = (case js_get (wcRetries c) p of Some n \<Rightarrow> n | None \<Rightarrow> 0)"

text \<open>\<open>n < m\<close> and \<open>n >= m\<close> for a number \<open>m\<close>; both are false for \<open>NaN\<close>.\<close>

fun below :: "int \<Rightarrow> js_number \<Rightarrow> bool" where
  "below n (Finite r) \<longleftrightarrow> of_int n < r"
| "below n Infinity \<longleftrightarrow> True"
| "below n _ \<longleftrightarrow> False"

fun reached :: "int \<Rightarrow> js_number \<Rightarrow> bool" where
  "reached n (Finite r) \<longleftrightarrow> of_int n \<ge> r"
| "reached n NegInfinity \<longleftrightarrow> True"
| "reached n _ \<longleftrightarrow> False"

definition approved :: "WorkflowContext \<Rightarrow> bool" where
  "approved c \<longleftrightarrow> wcLastVerdict c = Some Approve \<or> wcLastVerdict c = Some Approve_with_notes"

definition sent_back :: "WorkflowContext \<Rightarrow> bool" where
  "sent_back c \<longleftrightarrow> wcLastVerdict c = Some Reject \<or> wcLastVerdict c = Some Request_changes"

definition workflow_transition :: "Phase \<Rightarrow> Phase \<Rightarrow> (WorkflowContext \<Rightarrow> bool) \<Rightarrow> string \<Rightarrow> Transition" where
  "workflow_transition f t cond desc = \<lparr>trFrom = f, trTo = t, trCondition = cond, trDescription = desc\<rparr>"

definition T :: "Transition list" where
  "T = [
     workflow_transition Classify Plan (\<lambda>c. wcRisk c = High) ''High risk -> full planning'',
     workflow_transition Classify Execute (\<lambda>c. wcRisk c = Medium) ''Medium risk -> skip planner'',
     workflow_transition Classify Execute (\<lambda>c. wcRisk c = Low) ''Low risk -> direct execute'',
     workflow_transition Plan Plan_review (\<lambda>c. True) ''Plan -> review'',
     workflow_transition Plan_review Execute approved ''Plan approved -> execute'',
     workflow_transition Plan_review Plan (\<lambda>c. sent_back c \<and> below (retries_of c Plan) (wcMaxRetries c)) ''Plan rejected -> retry'',
     workflow_transition Plan_review Failed (\<lambda>c. sent_back c \<and> reached (retries_of c Plan) (wcMaxRetries c)) ''Plan rejected max retries'',
     workflow_transition Execute Code_review (\<lambda>c. wcRisk c \<noteq> Low) ''Non-low -> code review'',
     workflow_transition Execute Test (\<lambda>c. wcRisk c = Low) ''Low -> skip reviews'',
     workflow_transition Code_review Quality_review approved ''Code approved -> quality'',
     workflow_transition Code_review Execute (\<lambda>c. sent_back c \<and> below (retries_of c Execute) (wcMaxRetries c)) ''Code rejected -> re-execute'',
     workflow_transition Code_review Failed (\<lambda>c. sent_back c \<and> reached (retries_of c Execute) (wcMaxRetries c)) ''Code rejected max retries'',
     workflow_transition Quality_review Security (\<lambda>c. wcRisk c = High) ''High -> security audit'',
     workflow_transition Quality_review Test (\<lambda>c. wcRisk c \<noteq> High) ''Non-high -> skip security'',
     workflow_transition Security Failed (\<lambda>c. wcLastVerdict c = Some Block) ''Security BLOCK -> failed'',
     workflow_transition Security Test (\<lambda>c. wcLastVerdict c \<noteq> Some Block) ''Security passed -> test'',
     workflow_transition Test Output_review wcTestsPass ''Tests pass -> output review'',
     workflow_transition Test Execute (\<lambda>c. \<not> wcTestsPass c \<and> below (retries_of c Execute) (wcMaxRetries c)) ''Tests fail -> re-execute'',
     workflow_transition Test Failed (\<lambda>c. \<not> wcTestsPass c \<and> reached (retries_of c Execute) (wcMaxRetries c)) ''Tests fail max retries'',
     workflow_transition Output_review Done (\<lambda>c. True) ''Output reviewed -> done'']"


section \<open>Operations\<close>

definition RISK_NOTE :: "RiskLevel \<Rightarrow> string" where
  "RISK_NOTE r = ''Risk: '' @ (case r of Low \<Rightarrow> ''low'' | Medium \<Rightarrow> ''medium'' | High \<Rightarrow> ''high'')"

definition entered :: "int \<Rightarrow> Phase \<Rightarrow> int \<Rightarrow> string \<Rightarrow> PhaseRecord" where
  "entered now p retries notes =
     \<lparr>prPhase = p, prEnteredAt = now, prExitedAt = None, prVerdict = None, prProvider = None,
      prModel = None, prRetryCount = retries, prNotes = Some notes\<rparr>"

definition createWorkflow ::
  "int \<Rightarrow> string \<Rightarrow> string \<Rightarrow> js_number option \<Rightarrow> (string, js_value) js_map option \<Rightarrow> WorkflowContext" where
  "createWorkflow now wid desc maxRetries metadata =
     (let risk = classifyRisk desc in
      \<lparr>wcId = wid, wcCurrentPhase = Classify, wcRisk = risk, wcLastVerdict = None, wcRetries = [],
       wcMaxRetries = (case maxRetries of Some m \<Rightarrow> m | None \<Rightarrow> Finite 3),
       wcTestsPass = False, wcHistory = [entered now Classify 0 (RISK_NOTE risk)], wcCreatedAt = now,
       wcMetadata = (case metadata of Some m \<Rightarrow> m | None \<Rightarrow> [])\<rparr>)"

record AdvanceResult =
  arVerdict :: "Verdict option"
  arTestsPass :: "bool option"
  arProvider :: "string option"
  arModel :: "string option"
  arNotes :: "string option"

definition indexOf :: "Phase list \<Rightarrow> Phase \<Rightarrow> int" where
  "indexOf ps p = (let n = length (takeWhile (\<lambda>q. q \<noteq> p) ps) in if n < length ps then int n else - 1)"

definition apply_result :: "AdvanceResult \<Rightarrow> WorkflowContext \<Rightarrow> WorkflowContext" where
  "apply_result r c =
     (let c = (case arVerdict r of Some v \<Rightarrow> c\<lparr>wcLastVerdict := Some v\<rparr> | None \<Rightarrow> c) in
      (case arTestsPass r of Some b \<Rightarrow> c\<lparr>wcTestsPass := b\<rparr> | None \<Rightarrow> c))"

definition close_record :: "int \<Rightarrow> AdvanceResult \<Rightarrow> WorkflowContext \<Rightarrow> WorkflowContext" where
  "close_record now r c =
     (if wcHistory c = [] then c
      else c\<lparr>wcHistory := butlast (wcHistory c) @
             [(last (wcHistory c))\<lparr>prExitedAt := Some now, prVerdict := arVerdict r, prProvider := arProvider r,
                                    prModel := arModel r, prNotes := arNotes r\<rparr>]\<rparr>)"

definition take_transition :: "int \<Rightarrow> Transition \<Rightarrow> WorkflowContext \<Rightarrow> WorkflowContext" where
  "take_transition now t c =
     (let fi = indexOf PHASE_ORDER (trFrom t);
          ti = indexOf PHASE_ORDER (trTo t);
          c = (if ti \<ge> 0 \<and> fi \<ge> 0 \<and> ti \<le> fi
               then c\<lparr>wcRetries := js_set (trTo t) (retries_of c (trTo t) + 1) (wcRetries c)\<rparr> else c)
      in c\<lparr>wcCurrentPhase := trTo t,
           wcHistory := wcHistory c @ [entered now (trTo t) (retries_of c (trTo t)) (trDescription t)]\<rparr>)"

definition advance :: "int \<Rightarrow> AdvanceResult \<Rightarrow> WorkflowContext \<Rightarrow> Phase option \<times> WorkflowContext" where
  "advance now r c =
     (let c = close_record now r (apply_result r c) in
      (case find (\<lambda>t. trFrom t = wcCurrentPhase c \<and> trCondition t c) T of
         Some t \<Rightarrow> (Some (trTo t), take_transition now t c)
       | None \<Rightarrow> (None, c)))"

definition pause :: "int \<Rightarrow> string \<Rightarrow> WorkflowContext \<Rightarrow> WorkflowContext" where
  "pause now reason c =
     c\<lparr>wcCurrentPhase := Paused, wcHistory := wcHistory c @ [entered now Paused 0 reason]\<rparr>"

definition resume :: "int \<Rightarrow> Phase \<Rightarrow> WorkflowContext \<Rightarrow> WorkflowContext" where
  "resume now p c =
     (let h = wcHistory c;
          h = (if h = [] then h else butlast h @ [(last h)\<lparr>prExitedAt := Some now\<rparr>])
      in c\<lparr>wcCurrentPhase := p, wcHistory := h @ [entered now p (retries_of c p) ''Resumed'']\<rparr>)"

definition isTerminated :: "WorkflowContext \<Rightarrow> bool" where
  "isTerminated c \<longleftrightarrow> wcCurrentPhase c = Done \<or> wcCurrentPhase c = Failed"

definition getPhaseSequence :: "WorkflowContext \<Rightarrow> Phase list" where
  "getPhaseSequence c = map prPhase (wcHistory c)"

definition getLLMCallCount :: "WorkflowContext \<Rightarrow> nat" where
  "getLLMCallCount c =
     length (filter (\<lambda>r. \<not> List.member [Classify, Paused, Done, Failed] (prPhase r) \<and> prExitedAt r \<noteq> None) (wcHistory c))"


section \<open>Steps\<close>

text \<open>A step of the machine: an \<open>advance\<close> that answers a phase.\<close>

inductive advances :: "WorkflowContext \<Rightarrow> WorkflowContext \<Rightarrow> bool" where
  advance_step: "advance now r c = (Some p, c') \<Longrightarrow> advances c c'"

inductive_cases advancesE: "advances c c'"

lemma indexOf_simps [simp]:
  "indexOf PHASE_ORDER Classify = 0" "indexOf PHASE_ORDER Plan = 1" "indexOf PHASE_ORDER Plan_review = 2"
  "indexOf PHASE_ORDER Execute = 3" "indexOf PHASE_ORDER Code_review = 4" "indexOf PHASE_ORDER Quality_review = 5"
  "indexOf PHASE_ORDER Security = 6" "indexOf PHASE_ORDER Test = 7" "indexOf PHASE_ORDER Output_review = 8"
  "indexOf PHASE_ORDER Done = - 1" "indexOf PHASE_ORDER Failed = - 1" "indexOf PHASE_ORDER Paused = - 1"
  by (simp_all add: indexOf_def PHASE_ORDER_def)

lemma find_Some_in: "find P xs = Some x \<Longrightarrow> x \<in> set xs \<and> P x"
  by (induction xs) (auto split: if_splits)

text \<open>Closing the record of the current phase keeps everything else.\<close>

lemma close_record_simps [simp]:
  "wcCurrentPhase (close_record now r c) = wcCurrentPhase c"
  "wcRisk (close_record now r c) = wcRisk c"
  "wcLastVerdict (close_record now r c) = wcLastVerdict c"
  "wcRetries (close_record now r c) = wcRetries c"
  "wcMaxRetries (close_record now r c) = wcMaxRetries c"
  "wcTestsPass (close_record now r c) = wcTestsPass c"
  by (simp_all add: close_record_def)

lemma apply_result_simps [simp]:
  "wcCurrentPhase (apply_result r c) = wcCurrentPhase c"
  "wcRisk (apply_result r c) = wcRisk c"
  "wcRetries (apply_result r c) = wcRetries c"
  "wcMaxRetries (apply_result r c) = wcMaxRetries c"
  "wcHistory (apply_result r c) = wcHistory c"
  by (simp_all add: apply_result_def Let_def split: option.split)

lemma wcLastVerdict_apply [simp]:
  "wcLastVerdict (apply_result r c) = (if arVerdict r = None then wcLastVerdict c else arVerdict r)"
  by (auto simp: apply_result_def Let_def split: option.split)

lemma getPhaseSequence_close [simp]: "getPhaseSequence (close_record now r c) = getPhaseSequence c"
proof (cases "wcHistory c" rule: rev_cases)
  case (snoc h x)
  then show ?thesis by (simp add: close_record_def getPhaseSequence_def)
qed (simp add: close_record_def)

lemma getPhaseSequence_apply [simp]: "getPhaseSequence (apply_result r c) = getPhaseSequence c"
  by (simp add: getPhaseSequence_def)

lemma retries_of_close [simp]: "retries_of (close_record now r (apply_result r' c)) p = retries_of c p"
  by (simp add: retries_of_def)

text \<open>
  The abstract machine: the phase and the retries of the plan and of the execution, the only two
  phases a transition goes back to.
\<close>

inductive phase_step :: "RiskLevel \<Rightarrow> js_number \<Rightarrow> Phase \<times> int \<times> int \<Rightarrow> Phase \<times> int \<times> int \<Rightarrow> bool"
  for risk :: RiskLevel and m :: js_number where
  to_plan: "risk = High \<Longrightarrow> phase_step risk m (Classify, p, e) (Plan, p, e)"
| to_execute: "risk \<noteq> High \<Longrightarrow> phase_step risk m (Classify, p, e) (Execute, p, e)"
| planned: "phase_step risk m (Plan, p, e) (Plan_review, p, e)"
| plan_ok: "phase_step risk m (Plan_review, p, e) (Execute, p, e)"
| replan: "below p m \<Longrightarrow> phase_step risk m (Plan_review, p, e) (Plan, p + 1, e)"
| to_review: "risk \<noteq> Low \<Longrightarrow> phase_step risk m (Execute, p, e) (Code_review, p, e)"
| to_test: "risk = Low \<Longrightarrow> phase_step risk m (Execute, p, e) (Test, p, e)"
| code_ok: "phase_step risk m (Code_review, p, e) (Quality_review, p, e)"
| redo: "x = Code_review \<or> x = Test \<Longrightarrow> below e m \<Longrightarrow> phase_step risk m (x, p, e) (Execute, p, e + 1)"
| to_audit: "risk = High \<Longrightarrow> phase_step risk m (Quality_review, p, e) (Security, p, e)"
| quality_ok: "risk \<noteq> High \<Longrightarrow> phase_step risk m (Quality_review, p, e) (Test, p, e)"
| audited: "phase_step risk m (Security, p, e) (Test, p, e)"
| tested: "phase_step risk m (Test, p, e) (Output_review, p, e)"
| delivered: "phase_step risk m (Output_review, p, e) (Done, p, e)"
| give_up: "x \<in> {Plan_review, Code_review, Security, Test} \<Longrightarrow> phase_step risk m (x, p, e) (Failed, p, e)"

definition abstract_state :: "WorkflowContext \<Rightarrow> Phase \<times> int \<times> int" where
  "abstract_state c = (wcCurrentPhase c, retries_of c Plan, retries_of c Execute)"

text \<open>The retries a transition counts for a phase.\<close>

definition bump :: "Transition \<Rightarrow> Phase \<Rightarrow> int" where
  "bump t p =
     (if p = trTo t \<and> 0 \<le> indexOf PHASE_ORDER (trTo t) \<and> 0 \<le> indexOf PHASE_ORDER (trFrom t)
         \<and> indexOf PHASE_ORDER (trTo t) \<le> indexOf PHASE_ORDER (trFrom t) then 1 else 0)"

lemma transition_refines:
  assumes "t \<in> set T" "trCondition t d"
  shows "phase_step (wcRisk d) (wcMaxRetries d) (trFrom t, retries_of d Plan, retries_of d Execute)
    (trTo t, retries_of d Plan + bump t Plan, retries_of d Execute + bump t Execute)"
  using assms unfolding T_def workflow_transition_def by (auto simp: bump_def intro: phase_step.intros)

lemma advance_Some:
  assumes "advance now r c = (Some p, c')"
  shows "phase_step (wcRisk c) (wcMaxRetries c) (abstract_state c) (abstract_state c')
    \<and> wcRisk c' = wcRisk c \<and> wcMaxRetries c' = wcMaxRetries c \<and> wcCurrentPhase c' = p
    \<and> getPhaseSequence c' = getPhaseSequence c @ [p]"
proof -
  define d where "d = close_record now r (apply_result r c)"
  obtain t where t: "find (\<lambda>t. trFrom t = wcCurrentPhase d \<and> trCondition t d) T = Some t"
    "c' = take_transition now t d" "p = trTo t"
    using assms by (auto simp: advance_def d_def Let_def split: option.splits)
  have d: "wcCurrentPhase d = wcCurrentPhase c" "wcRisk d = wcRisk c" "wcMaxRetries d = wcMaxRetries c"
    "\<And>p. retries_of d p = retries_of c p" "getPhaseSequence d = getPhaseSequence c"
    by (simp_all add: d_def)
  have in_T: "t \<in> set T" "trFrom t = wcCurrentPhase c" "trCondition t d"
    using find_Some_in [OF t(1)] d(1) by auto
  have new: "retries_of c' p = retries_of c p + bump t p" for p
    using d(4) by (simp add: t(2) take_transition_def retries_of_def bump_def Let_def)
  have "phase_step (wcRisk c) (wcMaxRetries c) (abstract_state c) (abstract_state c')"
    using transition_refines [OF in_T(1,3)] d in_T(2) new t(2)
    by (simp add: abstract_state_def take_transition_def Let_def)
  with d show ?thesis
    by (simp add: t(2,3) take_transition_def getPhaseSequence_def entered_def Let_def)
qed

lemma advance_None:
  assumes "advance now r c = (None, c')"
  shows "abstract_state c' = abstract_state c \<and> wcRisk c' = wcRisk c \<and> wcMaxRetries c' = wcMaxRetries c
    \<and> getPhaseSequence c' = getPhaseSequence c"
  using assms by (auto simp: advance_def abstract_state_def Let_def split: option.splits)

text \<open>When an advance has no transition to take.\<close>

definition verdict_after :: "AdvanceResult \<Rightarrow> WorkflowContext \<Rightarrow> Verdict option" where
  "verdict_after r c = (if arVerdict r = None then wcLastVerdict c else arVerdict r)"

lemma find_transition:
  "find (\<lambda>t. trFrom t = wcCurrentPhase d \<and> trCondition t d) T = None \<longleftrightarrow>
     (\<forall>t \<in> set T. trFrom t = wcCurrentPhase d \<longrightarrow> \<not> trCondition t d)"
  by (auto simp: find_None_iff)

lemma no_verdict: "\<not> approved c \<and> \<not> sent_back c \<longleftrightarrow> wcLastVerdict c \<in> {None, Some Block}"
proof (cases "wcLastVerdict c")
  case (Some v)
  then show ?thesis by (cases v) (simp_all add: approved_def sent_back_def)
qed (simp add: approved_def sent_back_def)

lemma advance_stuck:
  assumes m: "wcMaxRetries c = Finite m"
  shows "fst (advance now r c) = None \<longleftrightarrow>
     wcCurrentPhase c \<in> {Done, Failed, Paused} \<or>
     wcCurrentPhase c \<in> {Plan_review, Code_review} \<and> verdict_after r c \<in> {None, Some Block}"
proof -
  define d where "d = close_record now r (apply_result r c)"
  have d: "wcCurrentPhase d = wcCurrentPhase c" "wcMaxRetries d = Finite m"
    "wcLastVerdict d = verdict_after r c"
    using m by (simp_all add: d_def verdict_after_def)
  have "fst (advance now r c) = None \<longleftrightarrow> (\<forall>t \<in> set T. trFrom t = wcCurrentPhase d \<longrightarrow> \<not> trCondition t d)"
    unfolding find_transition [symmetric] by (simp add: advance_def d_def Let_def split: option.split)
  also have "\<dots> \<longleftrightarrow> wcCurrentPhase c \<in> {Done, Failed, Paused} \<or>
     wcCurrentPhase c \<in> {Plan_review, Code_review} \<and> verdict_after r c \<in> {None, Some Block}"
  proof (cases "wcCurrentPhase c")
    case Classify
    then show ?thesis using d(1) by (cases "wcRisk d") (simp_all add: T_def workflow_transition_def)
  next
    case Plan_review
    then show ?thesis
      using d no_verdict [of d] by (simp add: T_def workflow_transition_def flip: not_less) blast
  next
    case Code_review
    then show ?thesis
      using d no_verdict [of d] by (simp add: T_def workflow_transition_def flip: not_less) blast
  next
    case Test
    then show ?thesis using d by (simp add: T_def workflow_transition_def flip: not_less) blast
  qed (use d(1) in \<open>simp_all add: T_def workflow_transition_def\<close>)
  finally show ?thesis .
qed


section \<open>Termination\<close>

text \<open>How far a phase is from the end, retries aside, and how many retries are left.\<close>

fun phases_left :: "Phase \<Rightarrow> nat" where
  "phases_left Classify = 9"
| "phases_left Plan = 8"
| "phases_left Plan_review = 7"
| "phases_left Execute = 6"
| "phases_left Code_review = 5"
| "phases_left Quality_review = 4"
| "phases_left Security = 3"
| "phases_left Test = 2"
| "phases_left Output_review = 1"
| "phases_left _ = 0"

fun retries_left :: "js_number \<Rightarrow> int \<Rightarrow> nat" where
  "retries_left (Finite m) n = nat (\<lceil>m\<rceil> - n)"
| "retries_left _ n = 0"

fun work_left :: "js_number \<Rightarrow> Phase \<times> int \<times> int \<Rightarrow> nat" where
  "work_left m (x, p, e) = phases_left x + 2 * retries_left m p + 5 * retries_left m e"

lemma retries_left_less: "m \<noteq> Infinity \<Longrightarrow> below n m \<Longrightarrow> Suc (retries_left m (n + 1)) = retries_left m n"
proof (cases m)
  case (Finite r)
  assume "below n m"
  with Finite have "n < \<lceil>r\<rceil>" by (simp add: less_ceiling_iff)
  then show ?thesis using Finite by simp
qed auto

lemma phase_step_work:
  assumes "phase_step risk m s s'" "m \<noteq> Infinity"
  shows "work_left m s' < work_left m s"
  using assms(1)
proof cases
  case (replan p e)
  then show ?thesis using retries_left_less [OF assms(2), of p] by simp
next
  case (redo x e p)
  then show ?thesis using retries_left_less [OF assms(2), of e] by auto
next
  case (give_up x p e)
  then show ?thesis by auto
qed auto

definition run_advances :: "WorkflowContext \<Rightarrow> (int \<times> AdvanceResult) list \<Rightarrow> WorkflowContext" where
  "run_advances c rs = foldl (\<lambda>c (now, r). snd (advance now r c)) c rs"

lemma terminated_stays: "isTerminated c \<Longrightarrow> isTerminated (run_advances c rs)"
proof (induction rs arbitrary: c)
  case (Cons x rs)
  obtain now r where x: "x = (now, r)" by fastforce
  obtain o' c' where a: "advance now r c = (o', c')" by fastforce
  have "isTerminated c'"
  proof (cases o')
    case None
    with advance_None [of now r c c'] a Cons.prems show ?thesis by (simp add: isTerminated_def abstract_state_def)
  next
    case (Some p)
    have "phase_step (wcRisk c) (wcMaxRetries c) (abstract_state c) (abstract_state c')"
      using advance_Some [of now r c p c'] a Some by simp
    then show ?thesis using Cons.prems by cases (auto simp: isTerminated_def abstract_state_def)
  qed
  with Cons.IH a x show ?case by (simp add: run_advances_def)
qed (simp add: run_advances_def)

lemma work_left_zero: "work_left m (x, p, e) = 0 \<Longrightarrow> x \<in> {Done, Failed, Paused}"
  by (cases x) auto

lemma advances_terminate:
  assumes "work_left (wcMaxRetries c) (abstract_state c) \<le> length rs" "wcMaxRetries c = Finite m"
    and "wcCurrentPhase c \<noteq> Paused"
    and "\<forall>(now, r) \<in> set rs. arVerdict r \<notin> {None, Some Block}"
  shows "isTerminated (run_advances c rs)"
  using assms
proof (induction rs arbitrary: c)
  case Nil
  then show ?case
    using work_left_zero [of "Finite m" "wcCurrentPhase c"]
    by (auto simp: abstract_state_def run_advances_def isTerminated_def)
next
  case (Cons x rs)
  obtain now r where x: "x = (now, r)" by fastforce
  show ?case
  proof (cases "isTerminated c")
    case False
    have "verdict_after r c \<notin> {None, Some Block}" using Cons.prems(4) x by (auto simp: verdict_after_def)
    then have "fst (advance now r c) \<noteq> None"
      using advance_stuck [OF Cons.prems(2), of now r] False Cons.prems(3) by (auto simp: isTerminated_def)
    then obtain p c' where a: "advance now r c = (Some p, c')" by (metis option.exhaust prod.exhaust_sel)
    note s = advance_Some [OF a]
    then have "work_left (wcMaxRetries c') (abstract_state c') < work_left (wcMaxRetries c) (abstract_state c)"
      using phase_step_work [of "wcRisk c" "Finite m" "abstract_state c" "abstract_state c'"] Cons.prems(2)
      by simp
    moreover have "wcCurrentPhase c' \<noteq> Paused"
      using s by (auto simp: abstract_state_def elim: phase_step.cases)
    ultimately have "isTerminated (run_advances c' rs)"
      using Cons.IH [of c'] Cons.prems s by simp
    with a x show ?thesis by (simp add: run_advances_def)
  qed (rule terminated_stays)
qed


section \<open>Gates\<close>

text \<open>The phases a workflow has been in when it arrives at a phase.\<close>

function (sequential) gates :: "RiskLevel \<Rightarrow> Phase \<Rightarrow> Phase set" where
  "gates risk Plan_review = {Plan}"
| "gates risk Execute = (if risk = High then {Plan, Plan_review} else {})"
| "gates risk Code_review = insert Execute (gates risk Execute)"
| "gates risk Quality_review = insert Code_review (gates risk Code_review)"
| "gates risk Security = insert Quality_review (gates risk Quality_review)"
| "gates risk Test = (if risk = Low then {Execute}
                      else if risk = High then insert Security (gates risk Security)
                      else insert Quality_review (gates risk Quality_review))"
| "gates risk Output_review = insert Test (gates risk Test)"
| "gates risk Done = insert Output_review (gates risk Output_review)"
| "gates risk _ = {}"
  by pat_completeness auto

termination gates
  by (relation "measure (\<lambda>(risk, x). 9 - phases_left x)") auto

declare gates.simps [simp]

lemma phase_step_gates: "phase_step risk m (x, p, e) (y, p', e') \<Longrightarrow> gates risk y \<subseteq> insert x (gates risk x)"
  by (cases rule: phase_step.cases) (auto split: if_splits)

definition gated :: "WorkflowContext \<Rightarrow> bool" where
  "gated c \<longleftrightarrow> insert (wcCurrentPhase c) (gates (wcRisk c) (wcCurrentPhase c)) \<subseteq> set (getPhaseSequence c)"

lemma gated_advance: "gated c \<Longrightarrow> gated (snd (advance now r c))"
proof -
  assume g: "gated c"
  obtain o' c' where a: "advance now r c = (o', c')" by fastforce
  show ?thesis
  proof (cases o')
    case None
    with advance_None [of now r c c'] a g show ?thesis by (simp add: gated_def abstract_state_def)
  next
    case (Some p)
    note s = advance_Some [OF a [unfolded Some]]
    then have "gates (wcRisk c) (wcCurrentPhase c') \<subseteq> insert (wcCurrentPhase c) (gates (wcRisk c) (wcCurrentPhase c))"
      unfolding abstract_state_def by (intro phase_step_gates) blast
    with g s a show ?thesis by (auto simp: gated_def)
  qed
qed

lemma gated_run: "gated c \<Longrightarrow> gated (run_advances c rs)"
proof (induction rs arbitrary: c)
  case (Cons x rs)
  then show ?case using gated_advance by (cases x) (simp add: run_advances_def)
qed (simp add: run_advances_def)

lemma risk_run: "wcRisk (run_advances c rs) = wcRisk c"
proof (induction rs arbitrary: c)
  case (Cons x rs)
  obtain now r o' c' where a: "x = (now, r)" "advance now r c = (o', c')" by fastforce
  have "wcRisk c' = wcRisk c"
    using advance_None [of now r c c'] advance_Some [of now r c _ c'] a by (cases o') auto
  with Cons.IH a show ?case by (simp add: run_advances_def)
qed (simp add: run_advances_def)

lemma create_simps [simp]:
  "wcCurrentPhase (createWorkflow now wid desc m meta) = Classify"
  "wcRisk (createWorkflow now wid desc m meta) = classifyRisk desc"
  "wcMaxRetries (createWorkflow now wid desc m meta) = (case m of Some m \<Rightarrow> m | None \<Rightarrow> Finite 3)"
  "abstract_state (createWorkflow now wid desc m meta) = (Classify, 0, 0)"
  "getPhaseSequence (createWorkflow now wid desc m meta) = [Classify]"
  by (simp_all add: createWorkflow_def abstract_state_def retries_of_def getPhaseSequence_def entered_def Let_def)


section \<open>Properties\<close>

text \<open>
  C26: a workflow ends. With a limit of \<open>n\<close> retries, after \<open>9 + 7 n\<close> advances that carry a
  verdict other than block, whatever the verdicts and the test results are and whatever the risk,
  it is done or failed: plans and executions are retried at most as often as the limit says and
  every other transition goes forward.
\<close>

theorem workflow_ends:
  assumes "9 + 7 * n \<le> length rs"
    and "\<forall>(now, r) \<in> set rs. arVerdict r \<notin> {None, Some Block}"
  shows "isTerminated (run_advances (createWorkflow now wid desc (Some (Finite (of_nat n))) meta) rs)"
proof (rule advances_terminate)
  show "work_left (wcMaxRetries (createWorkflow now wid desc (Some (Finite (of_nat n))) meta))
      (abstract_state (createWorkflow now wid desc (Some (Finite (of_nat n))) meta)) \<le> length rs"
    using assms(1) by simp
qed (use assms(2) in auto)

theorem workflow_ends_witness:
  "isTerminated (run_advances (createWorkflow 0 ''w'' ''Fix the login'' (Some (Finite (of_nat 1))) None)
     (replicate 16 (5, \<lparr>arVerdict = Some Reject, arTestsPass = None, arProvider = None, arModel = None, arNotes = None\<rparr>)))"
  by (rule workflow_ends) simp_all

text \<open>
  C28: an advance answers null exactly when the workflow is done, failed or paused, or when it is
  in a plan or code review whose last verdict is missing or block: for these two verdicts the
  reviews have no transition, and the workflow waits for another verdict.
\<close>

theorem advance_null_iff:
  assumes "wcMaxRetries c = Finite m"
  shows "fst (advance now r c) = None \<longleftrightarrow>
     wcCurrentPhase c \<in> {Done, Failed, Paused} \<or>
     wcCurrentPhase c \<in> {Plan_review, Code_review} \<and> verdict_after r c \<in> {None, Some Block}"
  using advance_stuck [OF assms] .

theorem advance_null_iff_witness:
  "fst (advance 5 \<lparr>arVerdict = Some Block, arTestsPass = None, arProvider = None, arModel = None, arNotes = None\<rparr>
     (resume 3 Code_review (createWorkflow 0 ''w'' ''x'' None None))) = None"
  using advance_null_iff [of "resume 3 Code_review (createWorkflow 0 ''w'' ''x'' None None)" 3 5
      "\<lparr>arVerdict = Some Block, arTestsPass = None, arProvider = None, arModel = None, arNotes = None\<rparr>"]
  by (simp add: resume_def createWorkflow_def verdict_after_def Let_def)

text \<open>
  C27: no gate is skipped. A workflow driven by advances alone that is done has been through the
  execution, the tests and the output review; through the code and quality reviews when its risk
  is not low; and through the plan, its review and the security audit when its risk is high. (The
  header of \<open>workflowFSM.ts\<close> says \<open>low=execute+test only\<close>; the transitions of the code send every
  workflow through the output review, and that is what is proved.)
\<close>

theorem done_passed_gates:
  assumes "wcCurrentPhase (run_advances (createWorkflow now wid desc m meta) rs) = Done"
  shows "{Execute, Test, Output_review}
     \<union> (if classifyRisk desc \<noteq> Low then {Code_review, Quality_review} else {})
     \<union> (if classifyRisk desc = High then {Plan, Plan_review, Security} else {})
     \<subseteq> set (getPhaseSequence (run_advances (createWorkflow now wid desc m meta) rs))"
proof -
  have "gated (createWorkflow now wid desc m meta)" by (simp add: gated_def)
  from gated_run [OF this, of rs] assms show ?thesis
    by (auto simp: gated_def risk_run split: if_splits)
qed

theorem done_passed_gates_witness:
  "{Execute, Test, Output_review} \<subseteq> set (getPhaseSequence
     (run_advances (createWorkflow 0 ''w'' ''Fix it'' None None)
       (replicate 4 (5, \<lparr>arVerdict = None, arTestsPass = Some True, arProvider = None, arModel = None, arNotes = None\<rparr>))))"
proof -
  let ?rs = "replicate 4 (5, \<lparr>arVerdict = None, arTestsPass = Some True, arProvider = None, arModel = None, arNotes = None\<rparr>)"
  have low: "classifyRisk ''Fix it'' = Low" by code_simp
  have "wcCurrentPhase (run_advances (createWorkflow 0 ''w'' ''Fix it'' None None) ?rs) = Done" by code_simp
  from done_passed_gates [OF this] show ?thesis by (simp add: low)
qed

text \<open>
  The last verdict outlives its phase: the approval of the plan also approves the code when the
  code review is advanced without a verdict of its own.
\<close>

lemma approval_carries_over:
  defines "silent \<equiv> \<lparr>arVerdict = None, arTestsPass = None, arProvider = None, arModel = None, arNotes = None\<rparr>"
  shows "wcCurrentPhase (run_advances (createWorkflow 0 ''w'' ''Deploy it'' None None)
     [(1, silent), (2, silent), (3, silent\<lparr>arVerdict := Some Approve\<rparr>), (4, silent), (5, silent)]) = Quality_review"
  unfolding silent_def by code_simp

end
