(* ===== verification/Key_Rotator.thy ===== *)
theory Key_Rotator
  imports Prelude
begin

text \<open>
  The rotation of the API keys of a connection with their health,
  \<open>open-sse/services/apiKeyRotator.ts\<close>: a primary key and extra keys, the failures of each key,
  and the choice of a key for a request. Times are integers. The health objects are values: a
  record that the code mutates in the map is stored again.
\<close>


section \<open>State\<close>

datatype key_status = Key_active | Key_warning | Key_invalid

record KeyHealth =
  khStatus :: key_status
  khFailures :: int
  khLastFailure :: "int option"
  khLastSuccess :: "int option"
  khTotalRequests :: int
  khTotalFailures :: int

record key_rotator =
  krIndexes :: "(string, nat) js_map"
  krExtraKeys :: "(string, bool) js_map"
  krHealth :: "(string, KeyHealth) js_map"

definition MAX_KEY_HEALTH_ENTRIES :: nat where
  "MAX_KEY_HEALTH_ENTRIES = 500"

definition MAX_CONNECTION_EXTRA_KEYS :: nat where
  "MAX_CONNECTION_EXTRA_KEYS = 500"

definition FAILURE_THRESHOLD :: int where
  "FAILURE_THRESHOLD = 2"

definition new_rotator :: key_rotator where
  "new_rotator = \<lparr>krIndexes = [], krExtraKeys = [], krHealth = []\<rparr>"

text \<open>\<open>map.delete(map.keys().next().value)\<close>\<close>

definition drop_oldest :: "(string, 'a) js_map \<Rightarrow> (string, 'a) js_map" where
  "drop_oldest m = (case m of [] \<Rightarrow> m | (oldest, _) # _ \<Rightarrow> js_delete oldest m)"

definition valid_extras :: "string list \<Rightarrow> string list" where
  "valid_extras extraKeys = filter (\<lambda>k. length (js_trim k) > 0) extraKeys"

definition trackConnectionExtraKeys :: "string \<Rightarrow> string list \<Rightarrow> key_rotator \<Rightarrow> key_rotator" where
  "trackConnectionExtraKeys c extraKeys s =
     (let validExtras = valid_extras extraKeys;
          m = krExtraKeys s;
          m = (if \<not> js_has m c \<and> length m \<ge> MAX_CONNECTION_EXTRA_KEYS then drop_oldest m else m)
      in s\<lparr>krExtraKeys := js_set c (length validExtras > 0) m\<rparr>)"

definition connectionHasExtraKeys :: "string \<Rightarrow> string list option \<Rightarrow> key_rotator \<Rightarrow> bool" where
  "connectionHasExtraKeys c extraKeys s =
     (if (case extraKeys of Some ks \<Rightarrow> length ks > 0 | None \<Rightarrow> False) then True
      else (case js_get (krExtraKeys s) c of Some b \<Rightarrow> b | None \<Rightarrow> False))"


section \<open>Health\<close>

definition scopedKey :: "string \<Rightarrow> string \<Rightarrow> string" where
  "scopedKey c keyId = c @ '':'' @ keyId"

definition fresh_health :: KeyHealth where
  "fresh_health =
     \<lparr>khStatus = Key_active, khFailures = 0, khLastFailure = None, khLastSuccess = None,
      khTotalRequests = 0, khTotalFailures = 0\<rparr>"

definition getOrCreateHealth :: "string \<Rightarrow> string \<Rightarrow> key_rotator \<Rightarrow> KeyHealth \<times> key_rotator" where
  "getOrCreateHealth c keyId s =
     (let k = scopedKey c keyId in
      case js_get (krHealth s) k of
        Some h \<Rightarrow> (h, s)
      | None \<Rightarrow>
          let m = (if length (krHealth s) \<ge> MAX_KEY_HEALTH_ENTRIES then drop_oldest (krHealth s) else krHealth s)
          in (fresh_health, s\<lparr>krHealth := js_set k fresh_health m\<rparr>))"

definition put_health :: "string \<Rightarrow> string \<Rightarrow> KeyHealth \<Rightarrow> key_rotator \<Rightarrow> key_rotator" where
  "put_health c keyId h s = s\<lparr>krHealth := js_set (scopedKey c keyId) h (krHealth s)\<rparr>"

definition recordKeyFailure :: "int \<Rightarrow> string \<Rightarrow> string \<Rightarrow> key_rotator \<Rightarrow> KeyHealth \<times> key_rotator" where
  "recordKeyFailure now c keyId s =
     (let (h, s) = getOrCreateHealth c keyId s;
          h = h\<lparr>khFailures := khFailures h + 1, khTotalRequests := khTotalRequests h + 1,
                khTotalFailures := khTotalFailures h + 1, khLastFailure := Some now\<rparr>;
          h = (if khFailures h \<ge> FAILURE_THRESHOLD then h\<lparr>khStatus := Key_invalid\<rparr>
               else if khFailures h > 0 then h\<lparr>khStatus := Key_warning\<rparr> else h)
      in (h, put_health c keyId h s))"

definition recordKeyTerminal :: "int \<Rightarrow> string \<Rightarrow> string \<Rightarrow> key_rotator \<Rightarrow> KeyHealth \<times> key_rotator" where
  "recordKeyTerminal now c keyId s =
     (let (h, s) = getOrCreateHealth c keyId s;
          h = h\<lparr>khFailures := max (khFailures h + 1) FAILURE_THRESHOLD, khTotalRequests := khTotalRequests h + 1,
                khTotalFailures := khTotalFailures h + 1, khLastFailure := Some now, khStatus := Key_invalid\<rparr>
      in (h, put_health c keyId h s))"

definition recordKeySuccess :: "int \<Rightarrow> string \<Rightarrow> string \<Rightarrow> key_rotator \<Rightarrow> KeyHealth \<times> key_rotator" where
  "recordKeySuccess now c keyId s =
     (let (h, s) = getOrCreateHealth c keyId s;
          h = h\<lparr>khFailures := 0, khTotalRequests := khTotalRequests h + 1, khLastSuccess := Some now,
                khStatus := Key_active\<rparr>
      in (h, put_health c keyId h s))"

definition resetKeyStatus :: "string \<Rightarrow> string \<Rightarrow> key_rotator \<Rightarrow> KeyHealth \<times> key_rotator" where
  "resetKeyStatus c keyId s =
     (let (h, s) = getOrCreateHealth c keyId s;
          h = h\<lparr>khFailures := 0, khStatus := Key_active, khLastFailure := None\<rparr>
      in (h, put_health c keyId h s))"

definition getAllKeyHealth :: "key_rotator \<Rightarrow> (string, KeyHealth) js_map" where
  "getAllKeyHealth s = krHealth s"

fun sync_loop :: "string \<Rightarrow> (string, KeyHealth) js_map \<Rightarrow> key_rotator \<Rightarrow> key_rotator" where
  "sync_loop c [] s = s"
| "sync_loop c ((keyId, h) # entries) s =
     (let m = krHealth s;
          m = (if \<not> js_has m (scopedKey c keyId) \<and> length m \<ge> MAX_KEY_HEALTH_ENTRIES then drop_oldest m else m)
      in sync_loop c entries (s\<lparr>krHealth := js_set (scopedKey c keyId) h m\<rparr>))"

definition syncHealthFromDB :: "string \<Rightarrow> (string, KeyHealth) js_map option \<Rightarrow> key_rotator \<Rightarrow> key_rotator" where
  "syncHealthFromDB c health s = (case health of None \<Rightarrow> s | Some entries \<Rightarrow> sync_loop c entries s)"

text \<open>
  The health map that \<open>recoverKeyHealth\<close> puts into the provider data; the other fields of the
  data are copied and left out here.
\<close>

definition recoverKeyHealth ::
  "int \<Rightarrow> string \<Rightarrow> string \<Rightarrow> (string, KeyHealth) js_map option \<Rightarrow> key_rotator
     \<Rightarrow> (string, KeyHealth) js_map option \<times> key_rotator" where
  "recoverKeyHealth now c keyId health s =
     (case health of
        None \<Rightarrow> (None, s)
      | Some entries \<Rightarrow>
          (case js_get entries keyId of
             None \<Rightarrow> (None, s)
           | Some h \<Rightarrow>
               if khStatus h = Key_active \<and> khFailures h = 0 then (None, s)
               else
                 let s = syncHealthFromDB c health s;
                     (h, s) = recordKeySuccess now c keyId s
                 in (Some (js_set keyId h entries), s)))"

definition removeConnectionHealth :: "string \<Rightarrow> key_rotator \<Rightarrow> key_rotator" where
  "removeConnectionHealth c s =
     s\<lparr>krHealth := filter (\<lambda>(k, _). take (length c + 1) k \<noteq> c @ '':'') (krHealth s)\<rparr>"

definition removeConnectionIndex :: "string \<Rightarrow> key_rotator \<Rightarrow> key_rotator" where
  "removeConnectionIndex c s =
     removeConnectionHealth c (s\<lparr>krIndexes := js_delete c (krIndexes s), krExtraKeys := js_delete c (krExtraKeys s)\<rparr>)"

definition resetRotationIndex :: "string \<Rightarrow> key_rotator \<Rightarrow> key_rotator" where
  "resetRotationIndex c s = s\<lparr>krIndexes := js_delete c (krIndexes s)\<rparr>"


section \<open>Choosing a key\<close>

type_synonym key_choice = "string \<times> string"

definition extra_id :: "nat \<Rightarrow> string" where
  "extra_id i = ''extra_'' @ show_nat i"

text \<open>\<open>health?.[keyId] || getOrCreateHealth(connectionId, keyId)\<close>\<close>

definition health_of ::
  "string \<Rightarrow> (string, KeyHealth) js_map option \<Rightarrow> string \<Rightarrow> key_rotator \<Rightarrow> KeyHealth \<times> key_rotator" where
  "health_of c health keyId s =
     (case (case health of Some m \<Rightarrow> js_get m keyId | None \<Rightarrow> None) of
        Some h \<Rightarrow> (h, s)
      | None \<Rightarrow> getOrCreateHealth c keyId s)"

fun usable_extras ::
  "string \<Rightarrow> (string, KeyHealth) js_map option \<Rightarrow> nat \<Rightarrow> string list \<Rightarrow> key_rotator \<Rightarrow> key_choice list \<times> key_rotator" where
  "usable_extras c health i [] s = ([], s)"
| "usable_extras c health i (k # ks) s =
     (let (h, s) = health_of c health (extra_id i) s;
          (rest, s) = usable_extras c health (Suc i) ks s
      in (if khStatus h \<noteq> Key_invalid then (k, extra_id i) # rest else rest, s))"

definition usable_keys ::
  "string \<Rightarrow> string \<Rightarrow> string list \<Rightarrow> (string, KeyHealth) js_map option \<Rightarrow> key_rotator \<Rightarrow> key_choice list \<times> key_rotator" where
  "usable_keys c primaryKey extraKeys health s =
     (let (primary, s) =
            (if primaryKey = [] then ([], s)
             else let (h, s) = health_of c health ''primary'' s
                  in (if khStatus h \<noteq> Key_invalid then [(primaryKey, ''primary'')] else [], s));
          (extras, s) = usable_extras c health 0 (valid_extras extraKeys) s
      in (primary @ extras, s))"

definition rotate_index :: "string \<Rightarrow> 'k list \<Rightarrow> key_rotator \<Rightarrow> 'k \<times> key_rotator" where
  "rotate_index c allKeys s =
     (let current = (case js_get (krIndexes s) c of Some n \<Rightarrow> n | None \<Rightarrow> 0)
      in (allKeys ! (current mod length allKeys), s\<lparr>krIndexes := js_set c (current + 1) (krIndexes s)\<rparr>))"

definition getValidApiKey ::
  "string \<Rightarrow> string \<Rightarrow> string list \<Rightarrow> (string, KeyHealth) js_map option \<Rightarrow> key_rotator
     \<Rightarrow> key_choice option \<times> key_rotator" where
  "getValidApiKey c primaryKey extraKeys health s =
     (let (allKeys, s) = usable_keys c primaryKey extraKeys health s in
      if length allKeys = 0 then (None, s)
      else if length allKeys = 1 then (Some (allKeys ! 0), s)
      else let (k, s) = rotate_index c allKeys s in (Some k, s))"

definition getRotatingApiKey :: "string \<Rightarrow> string \<Rightarrow> string list \<Rightarrow> key_rotator \<Rightarrow> string \<times> key_rotator" where
  "getRotatingApiKey c primaryKey extraKeys s =
     (let validExtras = valid_extras extraKeys in
      if length validExtras = 0 then (primaryKey, s)
      else
        let allKeys = filter (\<lambda>k. k \<noteq> []) (primaryKey # validExtras) in
        if length allKeys \<le> 1 then (primaryKey, s) else rotate_index c allKeys s)"

text \<open>\<open>/^extra_(\d+)$/\<close> with the number it captures.\<close>

definition extra_index :: "string \<Rightarrow> nat option" where
  "extra_index keyId =
     (if take 6 keyId = ''extra_'' \<and> drop 6 keyId \<noteq> [] \<and> list_all is_digit (drop 6 keyId)
      then Some (read_digits (drop 6 keyId)) else None)"

text \<open>The key that an id selected earlier stands for, if it can still be used.\<close>

definition selected_key ::
  "string \<Rightarrow> string list \<Rightarrow> string \<Rightarrow> key_choice option" where
  "selected_key primaryKey extraKeys keyId =
     (if keyId = ''primary'' \<and> primaryKey \<noteq> [] then Some (primaryKey, ''primary'')
      else
        (case extra_index keyId of
           Some idx \<Rightarrow>
             if idx < length extraKeys \<and> length (js_trim (extraKeys ! idx)) > 0
             then Some (extraKeys ! idx, keyId) else None
         | None \<Rightarrow> None))"

definition resolveKeyForRequest ::
  "string \<Rightarrow> string \<Rightarrow> string list \<Rightarrow> string option \<Rightarrow> key_rotator \<Rightarrow> key_choice option \<times> key_rotator" where
  "resolveKeyForRequest c primaryKey extraKeys selectedKeyId s =
     (case selectedKeyId of
        Some keyId \<Rightarrow>
          if keyId = [] then getValidApiKey c primaryKey extraKeys None s
          else
            let (h, s) = getOrCreateHealth c keyId s in
            if khStatus h \<noteq> Key_invalid
            then (case selected_key primaryKey extraKeys keyId of
                    Some k \<Rightarrow> (Some k, s)
                  | None \<Rightarrow> getValidApiKey c primaryKey extraKeys None s)
            else getValidApiKey c primaryKey extraKeys None s
      | None \<Rightarrow> getValidApiKey c primaryKey extraKeys None s)"

definition getInvalidKeyCount :: "(string, KeyHealth) js_map option \<Rightarrow> nat" where
  "getInvalidKeyCount health =
     (case health of None \<Rightarrow> 0 | Some m \<Rightarrow> length (filter (\<lambda>h. khStatus h = Key_invalid) (js_values m)))"

definition getApiKeyCount :: "string \<Rightarrow> string list \<Rightarrow> nat" where
  "getApiKeyCount primaryKey extraKeys = (if primaryKey \<noteq> [] then 1 else 0) + length (valid_extras extraKeys)"

fun stats_loop ::
  "string \<Rightarrow> (string, KeyHealth) js_map option \<Rightarrow> string list \<Rightarrow> nat \<times> nat \<times> nat \<Rightarrow> key_rotator
     \<Rightarrow> (nat \<times> nat \<times> nat) \<times> key_rotator" where
  "stats_loop c health [] counts s = (counts, s)"
| "stats_loop c health (keyId # ids) (active, warning, invalid) s =
     (let (h, s) = health_of c health keyId s in
      stats_loop c health ids
        (case khStatus h of
           Key_active \<Rightarrow> (active + 1, warning, invalid)
         | Key_warning \<Rightarrow> (active, warning + 1, invalid)
         | Key_invalid \<Rightarrow> (active, warning, invalid + 1)) s)"

definition getKeyHealthStats ::
  "string \<Rightarrow> string \<Rightarrow> string list \<Rightarrow> (string, KeyHealth) js_map option \<Rightarrow> key_rotator
     \<Rightarrow> (nat \<times> nat \<times> nat \<times> nat) \<times> key_rotator" where
  "getKeyHealthStats c primaryKey extraKeys health s =
     (let total = (if primaryKey \<noteq> [] then 1 else 0) + length (filter (\<lambda>k. length (js_trim k) > 0) extraKeys);
          (counts, s) = stats_loop c health (''primary'' # map extra_id [0..<length extraKeys]) (0, 0, 0) s
      in ((total, counts), s))"


section \<open>Bounded maps and consistent health\<close>

definition bounded_map :: "nat \<Rightarrow> ('v \<Rightarrow> bool) \<Rightarrow> (string, 'v) js_map \<Rightarrow> bool" where
  "bounded_map n P m \<longleftrightarrow> js_map_ok m \<and> length m \<le> n \<and> (\<forall>v \<in> set (js_values m). P v)"

lemma bounded_set_present: "bounded_map n P m \<Longrightarrow> js_has m k \<Longrightarrow> P v \<Longrightarrow> bounded_map n P (js_set k v m)"
  using values_set [of k v m] by (auto simp: bounded_map_def length_js_set simp del: set_map)

lemma values_delete: "set (js_values (js_delete k m)) \<subseteq> set (js_values m)"
  by (auto simp: AList.delete_eq)

lemma bounded_drop: "bounded_map n P m \<Longrightarrow> bounded_map n P (drop_oldest m)"
  using values_delete by (fastforce simp: bounded_map_def drop_oldest_def length_delete_le
      intro: le_trans [OF length_delete_le] split: list.split)

lemma length_drop_oldest: "js_map_ok m \<Longrightarrow> length (drop_oldest m) = length m - 1"
  by (auto simp: drop_oldest_def split: list.split)

lemma bounded_store:
  assumes "bounded_map n P m" "P v" "0 < n"
  shows "bounded_map n P (js_set k v (if \<not> js_has m k \<and> length m \<ge> n then drop_oldest m else m))"
proof (cases "js_has m k")
  case True
  with assms show ?thesis by (simp add: bounded_set_present)
next
  case False
  let ?m = "if length m \<ge> n then drop_oldest m else m"
  have "bounded_map n P ?m" using assms(1) bounded_drop by auto
  moreover have "length ?m < n"
    using assms(1,3) length_drop_oldest [of m] by (auto simp: bounded_map_def)
  ultimately have "bounded_map n P (js_set k v ?m)"
    using assms(2) values_set [of k v ?m] by (auto simp: bounded_map_def length_js_set simp del: set_map)
  with False show ?thesis by simp
qed

definition health_ok :: "KeyHealth \<Rightarrow> bool" where
  "health_ok h \<longleftrightarrow>
     0 \<le> khFailures h \<and>
     khStatus h = (if khFailures h \<ge> FAILURE_THRESHOLD then Key_invalid
                   else if khFailures h > 0 then Key_warning else Key_active) \<and>
     0 \<le> khTotalFailures h \<and> khTotalFailures h \<le> khTotalRequests h"

definition rotator_ok :: "key_rotator \<Rightarrow> bool" where
  "rotator_ok s \<longleftrightarrow>
     bounded_map MAX_KEY_HEALTH_ENTRIES health_ok (krHealth s) \<and>
     bounded_map MAX_CONNECTION_EXTRA_KEYS (\<lambda>_. True) (krExtraKeys s)"

lemma limits_positive [simp]: "0 < MAX_KEY_HEALTH_ENTRIES" "0 < MAX_CONNECTION_EXTRA_KEYS"
  by (simp_all add: MAX_KEY_HEALTH_ENTRIES_def MAX_CONNECTION_EXTRA_KEYS_def)

lemma fresh_ok: "health_ok fresh_health"
  by (simp add: health_ok_def fresh_health_def FAILURE_THRESHOLD_def)

lemma rotator_ok_get:
  assumes "rotator_ok s" "getOrCreateHealth c keyId s = (h, s')"
  shows "rotator_ok s' \<and> health_ok h \<and> js_has (krHealth s') (scopedKey c keyId)"
proof (cases "js_get (krHealth s) (scopedKey c keyId)")
  case None
  then have "\<not> js_has (krHealth s) (scopedKey c keyId)" by (simp add: js_has_def)
  with None bounded_store [of MAX_KEY_HEALTH_ENTRIES health_ok "krHealth s" fresh_health "scopedKey c keyId"] assms fresh_ok
  show ?thesis by (auto simp: getOrCreateHealth_def rotator_ok_def Let_def)
next
  case (Some h')
  with assms js_values_get [OF Some] show ?thesis
    by (auto simp: getOrCreateHealth_def rotator_ok_def bounded_map_def js_has_def Let_def)
qed

lemma rotator_ok_put:
  "rotator_ok s \<Longrightarrow> js_has (krHealth s) (scopedKey c keyId) \<Longrightarrow> health_ok h \<Longrightarrow> rotator_ok (put_health c keyId h s)"
  by (simp add: rotator_ok_def put_health_def bounded_set_present)

lemma rotator_ok_records:
  assumes "rotator_ok s"
  shows "rotator_ok (snd (recordKeyFailure now c keyId s))" "rotator_ok (snd (recordKeyTerminal now c keyId s))"
    "rotator_ok (snd (recordKeySuccess now c keyId s))" "rotator_ok (snd (resetKeyStatus c keyId s))"
proof -
  obtain h s' where g: "getOrCreateHealth c keyId s = (h, s')" by fastforce
  note ok = rotator_ok_get [OF assms g]
  show "rotator_ok (snd (recordKeyFailure now c keyId s))" "rotator_ok (snd (recordKeyTerminal now c keyId s))"
    "rotator_ok (snd (recordKeySuccess now c keyId s))" "rotator_ok (snd (resetKeyStatus c keyId s))"
    using ok by (auto simp: recordKeyFailure_def recordKeyTerminal_def recordKeySuccess_def resetKeyStatus_def g
        Let_def health_ok_def FAILURE_THRESHOLD_def intro!: rotator_ok_put)
qed

lemma rotator_ok_sync: "rotator_ok s \<Longrightarrow> \<forall>h \<in> set (js_values entries). health_ok h \<Longrightarrow> rotator_ok (sync_loop c entries s)"
proof (induction c entries s rule: sync_loop.induct)
  case (2 c keyId h entries s)
  have "rotator_ok (s\<lparr>krHealth := js_set (scopedKey c keyId) h
      (if \<not> js_has (krHealth s) (scopedKey c keyId) \<and> length (krHealth s) \<ge> MAX_KEY_HEALTH_ENTRIES
       then drop_oldest (krHealth s) else krHealth s)\<rparr>)"
    using "2.prems" bounded_store [of MAX_KEY_HEALTH_ENTRIES health_ok "krHealth s" h "scopedKey c keyId"]
    by (simp add: rotator_ok_def)
  from "2.IH" [OF refl refl this] "2.prems"(2) show ?case by (simp add: Let_def)
qed simp

lemma rotator_ok_health_of: "rotator_ok s \<Longrightarrow> rotator_ok (snd (health_of c health keyId s))"
  using rotator_ok_get [of s c keyId "fst (getOrCreateHealth c keyId s)" "snd (getOrCreateHealth c keyId s)"]
  by (auto simp: health_of_def split: option.split)

lemma rotator_ok_extras: "rotator_ok s \<Longrightarrow> rotator_ok (snd (usable_extras c health i ks s))"
proof (induction ks arbitrary: i s)
  case (Cons k ks)
  then show ?case using rotator_ok_health_of [OF Cons.prems] by (simp add: case_prod_unfold Let_def)
qed simp

lemma rotator_ok_usable: "rotator_ok s \<Longrightarrow> rotator_ok (snd (usable_keys c p ks health s))"
  using rotator_ok_health_of [of s c health "''primary''"]
  by (simp add: usable_keys_def case_prod_unfold Let_def rotator_ok_extras)

lemma rotator_ok_rotate: "rotator_ok s \<Longrightarrow> rotator_ok (snd (rotate_index c ks s))"
  by (simp add: rotate_index_def rotator_ok_def Let_def)

lemma rotator_ok_choose: "rotator_ok s \<Longrightarrow> rotator_ok (snd (getValidApiKey c p ks health s))"
  using rotator_ok_usable [of s c p ks health]
  by (simp add: getValidApiKey_def case_prod_unfold Let_def rotator_ok_rotate)

lemma rotator_ok_resolve:
  assumes "rotator_ok s"
  shows "rotator_ok (snd (resolveKeyForRequest c p ks selected s))"
proof (cases selected)
  case (Some keyId)
  obtain h s' where g: "getOrCreateHealth c keyId s = (h, s')" by fastforce
  have "rotator_ok s'" using rotator_ok_get [OF assms g] by blast
  with assms Some show ?thesis
    by (simp add: resolveKeyForRequest_def g rotator_ok_choose split: option.split)
qed (use assms in \<open>simp add: resolveKeyForRequest_def rotator_ok_choose\<close>)

lemma rotator_ok_stats: "rotator_ok s \<Longrightarrow> rotator_ok (snd (stats_loop c health ids counts s))"
proof (induction ids arbitrary: counts s)
  case (Cons keyId ids)
  obtain a w i where "counts = (a, w, i)" by (cases counts)
  with Cons rotator_ok_health_of [OF Cons.prems] show ?case by (simp add: case_prod_unfold Let_def)
qed (cases counts; simp)

lemma bounded_filter: "bounded_map n P m \<Longrightarrow> bounded_map n P (filter Q m)"
  by (auto simp: bounded_map_def distinct_map_filter intro: le_trans [OF length_filter_le])

lemma bounded_delete: "bounded_map n P m \<Longrightarrow> bounded_map n P (js_delete k m)"
  by (simp add: AList.delete_eq bounded_filter)

lemma rotator_ok_remove:
  assumes "rotator_ok s"
  shows "rotator_ok (resetRotationIndex c s)" "rotator_ok (removeConnectionHealth c s)"
    "rotator_ok (removeConnectionIndex c s)"
  using assms by (simp_all add: rotator_ok_def resetRotationIndex_def removeConnectionHealth_def
      removeConnectionIndex_def bounded_filter bounded_delete)

datatype rotator_event =
    Kr_failure string string int
  | Kr_terminal string string int
  | Kr_success string string int
  | Kr_reset string string
  | Kr_sync string "(string, KeyHealth) js_map option"
  | Kr_recover string string "(string, KeyHealth) js_map option" int
  | Kr_choose string string "string list" "(string, KeyHealth) js_map option"
  | Kr_rotate string string "string list"
  | Kr_resolve string string "string list" "string option"
  | Kr_stats string string "string list" "(string, KeyHealth) js_map option"
  | Kr_track string "string list"
  | Kr_reset_index string
  | Kr_remove_health string
  | Kr_remove string

fun rotator_step :: "key_rotator \<Rightarrow> rotator_event \<Rightarrow> key_rotator" where
  "rotator_step s (Kr_failure c k now) = snd (recordKeyFailure now c k s)"
| "rotator_step s (Kr_terminal c k now) = snd (recordKeyTerminal now c k s)"
| "rotator_step s (Kr_success c k now) = snd (recordKeySuccess now c k s)"
| "rotator_step s (Kr_reset c k) = snd (resetKeyStatus c k s)"
| "rotator_step s (Kr_sync c health) = syncHealthFromDB c health s"
| "rotator_step s (Kr_recover c k health now) = snd (recoverKeyHealth now c k health s)"
| "rotator_step s (Kr_choose c p ks health) = snd (getValidApiKey c p ks health s)"
| "rotator_step s (Kr_rotate c p ks) = snd (getRotatingApiKey c p ks s)"
| "rotator_step s (Kr_resolve c p ks selected) = snd (resolveKeyForRequest c p ks selected s)"
| "rotator_step s (Kr_stats c p ks health) = snd (getKeyHealthStats c p ks health s)"
| "rotator_step s (Kr_track c ks) = trackConnectionExtraKeys c ks s"
| "rotator_step s (Kr_reset_index c) = resetRotationIndex c s"
| "rotator_step s (Kr_remove_health c) = removeConnectionHealth c s"
| "rotator_step s (Kr_remove c) = removeConnectionIndex c s"

text \<open>The health that comes from the database is consistent.\<close>

fun stored_ok :: "rotator_event \<Rightarrow> bool" where
  "stored_ok (Kr_sync c (Some m)) \<longleftrightarrow> (\<forall>h \<in> set (js_values m). health_ok h)"
| "stored_ok (Kr_recover c k (Some m) now) \<longleftrightarrow> (\<forall>h \<in> set (js_values m). health_ok h)"
| "stored_ok _ \<longleftrightarrow> True"

interpretation rotator_run: step_invariant rotator_step "\<lambda>_. stored_ok" rotator_ok
proof
  fix s e
  assume s: "rotator_ok s" and e: "stored_ok e"
  show "rotator_ok (rotator_step s e)"
  proof (cases e)
    case (Kr_sync c m)
    with s e rotator_ok_sync show ?thesis by (cases m) (auto simp: syncHealthFromDB_def)
  next
    case (Kr_recover c k m now)
    with s e rotator_ok_sync [OF s] rotator_ok_records(3) show ?thesis
      by (cases m) (auto simp: recoverKeyHealth_def syncHealthFromDB_def case_prod_unfold Let_def split: option.split)
  next
    case (Kr_track c ks)
    then show ?thesis
      using s bounded_store [of MAX_CONNECTION_EXTRA_KEYS "\<lambda>_. True" "krExtraKeys s" "length (valid_extras ks) > 0" c]
      by (simp add: trackConnectionExtraKeys_def rotator_ok_def Let_def)
  next
    case (Kr_rotate c p ks)
    with s show ?thesis by (simp add: getRotatingApiKey_def rotator_ok_rotate Let_def)
  next
    case (Kr_stats c p ks health)
    with s show ?thesis by (simp add: getKeyHealthStats_def case_prod_unfold Let_def rotator_ok_stats del: stats_loop.simps)
  qed (use s in \<open>simp_all add: rotator_ok_records rotator_ok_choose rotator_ok_resolve rotator_ok_remove\<close>)
qed


section \<open>The keys a choice sees\<close>

text \<open>The health a key has for a choice: the given one, the one in memory, or a fresh one.\<close>

definition effective_health :: "(string, KeyHealth) js_map option \<Rightarrow> key_rotator \<Rightarrow> string \<Rightarrow> string \<Rightarrow> KeyHealth" where
  "effective_health health s c keyId =
     (case (case health of Some m \<Rightarrow> js_get m keyId | None \<Rightarrow> None) of
        Some h \<Rightarrow> h
      | None \<Rightarrow> (case js_get (krHealth s) (scopedKey c keyId) of Some h \<Rightarrow> h | None \<Rightarrow> fresh_health))"

definition key_usable :: "(string, KeyHealth) js_map option \<Rightarrow> key_rotator \<Rightarrow> string \<Rightarrow> string \<Rightarrow> bool" where
  "key_usable health s c keyId \<longleftrightarrow> khStatus (effective_health health s c keyId) \<noteq> Key_invalid"

definition all_keys :: "string \<Rightarrow> string list \<Rightarrow> key_choice list" where
  "all_keys primaryKey extraKeys =
     (if primaryKey = [] then [] else [(primaryKey, ''primary'')])
     @ map (\<lambda>i. (valid_extras extraKeys ! i, extra_id i)) [0..<length (valid_extras extraKeys)]"

text \<open>
  Reading the health of a key leaves the health of all keys as it was, when no entry has to be
  evicted: the map has room, or the key is known. Once read, a key is known.
\<close>

definition known_connection :: "(string, KeyHealth) js_map option \<Rightarrow> key_rotator \<Rightarrow> string \<Rightarrow> string \<Rightarrow> bool" where
  "known_connection health s c keyId \<longleftrightarrow>
     (case health of Some m \<Rightarrow> js_has m keyId | None \<Rightarrow> False) \<or> js_has (krHealth s) (scopedKey c keyId)"

text \<open>Two states that show the same health, the second knowing at least as many keys.\<close>

definition same_health :: "key_rotator \<Rightarrow> key_rotator \<Rightarrow> bool" where
  "same_health s s' \<longleftrightarrow>
     (\<forall>health c keyId. effective_health health s' c keyId = effective_health health s c keyId)
     \<and> (\<forall>k. js_has (krHealth s) k \<longrightarrow> js_has (krHealth s') k)
     \<and> krIndexes s' = krIndexes s"

lemma same_health_refl [simp]: "same_health s s"
  by (simp add: same_health_def)

lemma same_health_trans: "same_health s t \<Longrightarrow> same_health t u \<Longrightarrow> same_health s u"
  by (simp add: same_health_def)

lemma health_of_room:
  assumes "health_of c health keyId s = (h, s')" "length (krHealth s) < MAX_KEY_HEALTH_ENTRIES"
  shows "h = effective_health health s c keyId \<and> same_health s s' \<and> known_connection health s' c keyId
    \<and> length (krHealth s') \<le> Suc (length (krHealth s))"
proof (cases "case health of Some m \<Rightarrow> js_get m keyId | None \<Rightarrow> None")
  case (Some h')
  with assms(1) show ?thesis
    by (auto simp: health_of_def effective_health_def known_connection_def js_has_def split: option.splits)
next
  case None
  note n = None
  show ?thesis
  proof (cases "js_get (krHealth s) (scopedKey c keyId)")
    case None
    then have g: "getOrCreateHealth c keyId s
        = (fresh_health, s\<lparr>krHealth := js_set (scopedKey c keyId) fresh_health (krHealth s)\<rparr>)"
      using assms(2) by (simp add: getOrCreateHealth_def Let_def)
    have "same_health s (s\<lparr>krHealth := js_set (scopedKey c keyId) fresh_health (krHealth s)\<rparr>)"
      using None by (auto simp: same_health_def effective_health_def split: option.split)
    with assms(1) n None g show ?thesis
      by (auto simp: health_of_def effective_health_def known_connection_def length_js_set)
  next
    case (Some h')
    then have "getOrCreateHealth c keyId s = (h', s)" by (simp add: getOrCreateHealth_def Let_def)
    with assms(1) n Some show ?thesis
      by (auto simp: health_of_def effective_health_def known_connection_def js_has_def)
  qed
qed

lemma usable_extras_room:
  assumes "usable_extras c health i ks s = (us, s')" "length (krHealth s) + length ks \<le> MAX_KEY_HEALTH_ENTRIES"
  shows "us = filter (\<lambda>(k, keyId). key_usable health s c keyId) (map (\<lambda>j. (ks ! j, extra_id (i + j))) [0..<length ks])
    \<and> same_health s s' \<and> (\<forall>j < length ks. known_connection health s' c (extra_id (i + j)))"
  using assms
proof (induction ks arbitrary: i s us s')
  case (Cons k ks)
  obtain h s1 where h: "health_of c health (extra_id i) s = (h, s1)" by fastforce
  obtain rest s2 where r: "usable_extras c health (Suc i) ks s1 = (rest, s2)" by fastforce
  have a: "h = effective_health health s c (extra_id i)" "same_health s s1" "known_connection health s1 c (extra_id i)"
    "length (krHealth s1) \<le> Suc (length (krHealth s))"
    using health_of_room [OF h] Cons.prems(2) by auto
  have b: "rest = filter (\<lambda>(k, keyId). key_usable health s1 c keyId) (map (\<lambda>j. (ks ! j, extra_id (Suc i + j))) [0..<length ks])"
    "same_health s1 s2" "\<forall>j < length ks. known_connection health s2 c (extra_id (Suc i + j))"
    using Cons.IH [OF r] Cons.prems(2) a(4) by auto
  have s': "s' = s2" "us = (if khStatus h \<noteq> Key_invalid then (k, extra_id i) # rest else rest)"
    using Cons.prems(1) h r by (auto simp: Let_def)
  have "key_usable health s1 = key_usable health s"
    using a(2) by (simp add: key_usable_def same_health_def fun_eq_iff)
  moreover have "map (\<lambda>j. ((k # ks) ! j, extra_id (i + j))) [0..<length (k # ks)]
      = (k, extra_id i) # map (\<lambda>j. (ks ! j, extra_id (Suc i + j))) [0..<length ks]"
    by (simp add: upt_conv_Cons map_Suc_upt [symmetric] del: upt_Suc)
  ultimately have "us = filter (\<lambda>(k, keyId). key_usable health s c keyId)
      (map (\<lambda>j. ((k # ks) ! j, extra_id (i + j))) [0..<length (k # ks)])"
    using s'(2) a(1) b(1) by (simp add: key_usable_def)
  moreover have "known_connection health s2 c (extra_id (i + j))" if "j < length (k # ks)" for j
  proof (cases j)
    case 0
    with a(3) b(2) show ?thesis by (auto simp: known_connection_def same_health_def)
  next
    case (Suc n)
    with b(3) that show ?thesis by simp
  qed
  ultimately show ?case using same_health_trans [OF a(2) b(2)] s'(1) by blast
qed simp

lemma usable_keys_room:
  assumes "usable_keys c p extraKeys health s = (us, s')"
    and "length (krHealth s) + Suc (length (valid_extras extraKeys)) \<le> MAX_KEY_HEALTH_ENTRIES"
  shows "us = filter (\<lambda>(k, keyId). key_usable health s c keyId) (all_keys p extraKeys)
    \<and> same_health s s' \<and> (\<forall>(k, keyId) \<in> set (all_keys p extraKeys). known_connection health s' c keyId)"
proof -
  obtain h s1 where h: "health_of c health ''primary'' s = (h, s1)" by fastforce
  define s2 where "s2 = (if p = [] then s else s1)"
  obtain ex s3 where e: "usable_extras c health 0 (valid_extras extraKeys) s2 = (ex, s3)" by fastforce
  have a: "h = effective_health health s c ''primary''" "same_health s s1" "known_connection health s1 c ''primary''"
    "length (krHealth s1) \<le> Suc (length (krHealth s))"
    using health_of_room [OF h] assms(2) by auto
  have s2: "same_health s s2" "length (krHealth s2) + length (valid_extras extraKeys) \<le> MAX_KEY_HEALTH_ENTRIES"
    using a(2,4) assms(2) by (auto simp: s2_def)
  then have ku: "key_usable health s2 = key_usable health s"
    by (simp add: key_usable_def same_health_def fun_eq_iff)
  have b: "ex = filter (\<lambda>(k, keyId). key_usable health s c keyId)
        (map (\<lambda>j. (valid_extras extraKeys ! j, extra_id j)) [0..<length (valid_extras extraKeys)])"
    "same_health s2 s3" "\<forall>j < length (valid_extras extraKeys). known_connection health s3 c (extra_id j)"
    using usable_extras_room [OF e s2(2)] ku by auto
  have r: "s' = s3" "us = (if p = [] \<or> khStatus h = Key_invalid then [] else [(p, ''primary'')]) @ ex"
    using assms(1) h e by (auto simp: usable_keys_def s2_def Let_def split: if_splits)
  have "p \<noteq> [] \<Longrightarrow> known_connection health s3 c ''primary''"
    using a(3) b(2) by (auto simp: known_connection_def same_health_def s2_def)
  then have "\<forall>(k, keyId) \<in> set (all_keys p extraKeys). known_connection health s3 c keyId"
    using b(3) by (auto simp: all_keys_def)
  moreover have "us = filter (\<lambda>(k, keyId). key_usable health s c keyId) (all_keys p extraKeys)"
    using r(2) a(1) b(1) by (simp add: all_keys_def key_usable_def)
  ultimately show ?thesis using same_health_trans [OF s2(1) b(2)] r(1) by blast
qed

lemma health_of_known:
  assumes "known_connection health s c keyId"
  shows "health_of c health keyId s = (effective_health health s c keyId, s)"
  using assms
  by (auto simp: known_connection_def health_of_def effective_health_def getOrCreateHealth_def js_has_def Let_def
      split: option.splits)

lemma usable_extras_known:
  assumes "\<forall>j < length ks. known_connection health s c (extra_id (i + j))"
  shows "usable_extras c health i ks s =
    (filter (\<lambda>(k, keyId). key_usable health s c keyId) (map (\<lambda>j. (ks ! j, extra_id (i + j))) [0..<length ks]), s)"
  using assms
proof (induction ks arbitrary: i)
  case (Cons k ks)
  have "known_connection health s c (extra_id i)" using Cons.prems [rule_format, of 0] by simp
  moreover have "\<forall>j < length ks. known_connection health s c (extra_id (Suc i + j))"
    using Cons.prems by auto
  moreover have "map (\<lambda>j. ((k # ks) ! j, extra_id (i + j))) [0..<length (k # ks)]
      = (k, extra_id i) # map (\<lambda>j. (ks ! j, extra_id (Suc i + j))) [0..<length ks]"
    by (simp add: upt_conv_Cons map_Suc_upt [symmetric] del: upt_Suc)
  ultimately show ?case using Cons.IH [of "Suc i"] by (simp add: health_of_known key_usable_def Let_def del: upt_Suc)
qed simp

lemma usable_keys_known:
  assumes "\<forall>(k, keyId) \<in> set (all_keys p extraKeys). known_connection health s c keyId"
  shows "usable_keys c p extraKeys health s =
    (filter (\<lambda>(k, keyId). key_usable health s c keyId) (all_keys p extraKeys), s)"
proof -
  have "(valid_extras extraKeys ! j, extra_id j) \<in> set (all_keys p extraKeys)"
    if "j < length (valid_extras extraKeys)" for j using that by (auto simp: all_keys_def)
  with assms have "\<forall>j < length (valid_extras extraKeys). known_connection health s c (extra_id (0 + j))" by fastforce
  moreover have "p \<noteq> [] \<Longrightarrow> known_connection health s c ''primary''" using assms by (auto simp: all_keys_def)
  ultimately show ?thesis
    using usable_extras_known [of "valid_extras extraKeys" health s c 0]
    by (auto simp: usable_keys_def health_of_known all_keys_def key_usable_def Let_def)
qed


section \<open>Properties\<close>

text \<open>
  The failures that a history charges to a key: one for each failure, at least the threshold for a
  terminal one, none after a success, a reset, a recovery or the removal of its connection, and
  what is stored when the connection is loaded from the database.
\<close>

fun stored_strikes :: "string \<Rightarrow> string \<Rightarrow> int \<Rightarrow> (string, KeyHealth) js_map \<Rightarrow> int" where
  "stored_strikes key c n [] = n"
| "stored_strikes key c n ((k, h) # entries) =
     stored_strikes key c (if scopedKey c k = key then khFailures h else n) entries"

fun strikes :: "string \<Rightarrow> int \<Rightarrow> rotator_event \<Rightarrow> int" where
  "strikes key n (Kr_failure c k now) = (if scopedKey c k = key then n + 1 else n)"
| "strikes key n (Kr_terminal c k now) = (if scopedKey c k = key then max (n + 1) FAILURE_THRESHOLD else n)"
| "strikes key n (Kr_success c k now) = (if scopedKey c k = key then 0 else n)"
| "strikes key n (Kr_reset c k) = (if scopedKey c k = key then 0 else n)"
| "strikes key n (Kr_sync c (Some m)) = stored_strikes key c n m"
| "strikes key n (Kr_recover c k (Some m) now) =
     (case js_get m k of
        None \<Rightarrow> n
      | Some h \<Rightarrow>
          if khStatus h = Key_active \<and> khFailures h = 0 then n
          else if scopedKey c k = key then 0 else stored_strikes key c n m)"
| "strikes key n (Kr_remove_health c) = (if take (length c + 1) key = c @ '':'' then 0 else n)"
| "strikes key n (Kr_remove c) = (if take (length c + 1) key = c @ '':'' then 0 else n)"
| "strikes key n _ = n"

text \<open>The health map never fills up, so that no record is evicted.\<close>

fun health_roomy :: "key_rotator \<Rightarrow> rotator_event list \<Rightarrow> bool" where
  "health_roomy s [] \<longleftrightarrow> True"
| "health_roomy s (e # evs) \<longleftrightarrow>
     length (krHealth (rotator_step s e)) < MAX_KEY_HEALTH_ENTRIES \<and> health_roomy (rotator_step s e) evs"

definition health_now :: "string \<Rightarrow> key_rotator \<Rightarrow> KeyHealth" where
  "health_now key s = (case js_get (krHealth s) key of Some h \<Rightarrow> h | None \<Rightarrow> fresh_health)"

text \<open>The step from one state to the next keeps the record of a key unless it fills the map.\<close>

definition keeps_health :: "string \<Rightarrow> key_rotator \<Rightarrow> key_rotator \<Rightarrow> bool" where
  "keeps_health key s s' \<longleftrightarrow>
     (js_map_ok (krHealth s) \<longrightarrow>
        js_map_ok (krHealth s') \<and> length (krHealth s) \<le> length (krHealth s')
      \<and> (length (krHealth s') < MAX_KEY_HEALTH_ENTRIES \<longrightarrow> health_now key s' = health_now key s))"

named_theorems keeps_intros \<open>the operations that keep the records of other keys\<close>

lemma keeps_refl [keeps_intros]: "keeps_health key s s"
  by (simp add: keeps_health_def)

lemma keeps_trans: "keeps_health key s s1 \<Longrightarrow> keeps_health key s1 s2 \<Longrightarrow> keeps_health key s s2"
  by (auto simp: keeps_health_def)

lemma keeps_frame [keeps_intros]: "krHealth s' = krHealth s \<Longrightarrow> keeps_health key s s'"
  by (simp add: keeps_health_def health_now_def)

lemma health_now_put: "health_now key (put_health c k h s) = (if scopedKey c k = key then h else health_now key s)"
  by (simp add: health_now_def put_health_def)

lemma get_health_fst: "fst (getOrCreateHealth c k s) = health_now (scopedKey c k) s"
  by (simp add: getOrCreateHealth_def health_now_def Let_def split: option.split)

text \<open>Storing a record under a key that is missing, in a full map in place of the oldest one.\<close>

lemma store_missing:
  assumes "js_map_ok m" "\<not> js_has m k"
    and m': "m' = js_set k h (if length m \<ge> MAX_KEY_HEALTH_ENTRIES then drop_oldest m else m)"
  shows "js_map_ok m'" "length m \<le> length m'"
    "length m' < MAX_KEY_HEALTH_ENTRIES \<Longrightarrow> length m < MAX_KEY_HEALTH_ENTRIES"
proof -
  let ?m = "if length m \<ge> MAX_KEY_HEALTH_ENTRIES then drop_oldest m else m"
  have drop: "js_map_ok ?m" "\<not> js_has ?m k"
    using assms(1,2) by (auto simp: drop_oldest_def js_has_keys split: list.splits)
  then have len: "length m' = Suc (length ?m)" by (simp add: m' length_js_set)
  then show "js_map_ok m'" "length m \<le> length m'"
    "length m' < MAX_KEY_HEALTH_ENTRIES \<Longrightarrow> length m < MAX_KEY_HEALTH_ENTRIES"
    using drop(1) length_drop_oldest [OF assms(1)] by (auto simp: m' split: if_splits)
qed

lemma keeps_get [keeps_intros]: "keeps_health key s (snd (getOrCreateHealth c k s))"
proof (cases "js_get (krHealth s) (scopedKey c k)")
  case None
  let ?m' = "js_set (scopedKey c k) fresh_health
    (if length (krHealth s) \<ge> MAX_KEY_HEALTH_ENTRIES then drop_oldest (krHealth s) else krHealth s)"
  have get: "snd (getOrCreateHealth c k s) = s\<lparr>krHealth := ?m'\<rparr>"
    using None by (simp add: getOrCreateHealth_def Let_def)
  have new: "\<not> js_has (krHealth s) (scopedKey c k)" using None by (simp add: js_has_def)
  show ?thesis
    unfolding keeps_health_def get
  proof (intro impI conjI)
    assume ok: "js_map_ok (krHealth s)"
    note stored = store_missing [OF ok new refl, of fresh_health]
    show "js_map_ok (krHealth (s\<lparr>krHealth := ?m'\<rparr>))" "length (krHealth s) \<le> length (krHealth (s\<lparr>krHealth := ?m'\<rparr>))"
      using stored(1,2) by simp_all
    assume "length (krHealth (s\<lparr>krHealth := ?m'\<rparr>)) < MAX_KEY_HEALTH_ENTRIES"
    then have "length (krHealth s) < MAX_KEY_HEALTH_ENTRIES" using stored(3) by simp
    then show "health_now key (s\<lparr>krHealth := ?m'\<rparr>) = health_now key s"
      using None by (auto simp: health_now_def)
  qed
qed (simp add: getOrCreateHealth_def keeps_refl)

lemma get_present: "js_has (krHealth (snd (getOrCreateHealth c k s))) (scopedKey c k)"
  by (simp add: getOrCreateHealth_def js_has_def Let_def split: option.split)

text \<open>The four operations on a record: get it, change it, store it.\<close>

lemma record_forms:
  "snd (recordKeyFailure now c k s) =
     put_health c k (fst (recordKeyFailure now c k s)) (snd (getOrCreateHealth c k s))"
  "snd (recordKeyTerminal now c k s) =
     put_health c k (fst (recordKeyTerminal now c k s)) (snd (getOrCreateHealth c k s))"
  "snd (recordKeySuccess now c k s) =
     put_health c k (fst (recordKeySuccess now c k s)) (snd (getOrCreateHealth c k s))"
  "snd (resetKeyStatus c k s) =
     put_health c k (fst (resetKeyStatus c k s)) (snd (getOrCreateHealth c k s))"
  by (simp_all add: recordKeyFailure_def recordKeyTerminal_def recordKeySuccess_def resetKeyStatus_def
      case_prod_unfold Let_def)

lemma record_failures:
  "khFailures (fst (recordKeyFailure now c k s)) = khFailures (health_now (scopedKey c k) s) + 1"
  "khFailures (fst (recordKeyTerminal now c k s)) =
     max (khFailures (health_now (scopedKey c k) s) + 1) FAILURE_THRESHOLD"
  "khFailures (fst (recordKeySuccess now c k s)) = 0"
  "khFailures (fst (resetKeyStatus c k s)) = 0"
  by (simp_all add: recordKeyFailure_def recordKeyTerminal_def recordKeySuccess_def resetKeyStatus_def
      get_health_fst [symmetric] case_prod_unfold Let_def)

lemma put_step:
  assumes "js_map_ok (krHealth s)" "s' = put_health c k h (snd (getOrCreateHealth c k s))"
  shows "js_map_ok (krHealth s')" "length (krHealth s) \<le> length (krHealth s')"
    "length (krHealth s') < MAX_KEY_HEALTH_ENTRIES \<Longrightarrow>
     health_now key s' = (if scopedKey c k = key then h else health_now key s)"
proof -
  let ?s = "snd (getOrCreateHealth c k s)"
  have "length (krHealth s') = length (krHealth ?s)"
    using get_present [of c k s] by (simp add: assms(2) put_health_def length_js_set)
  moreover have "js_map_ok (krHealth ?s)" "length (krHealth s) \<le> length (krHealth ?s)"
    "length (krHealth ?s) < MAX_KEY_HEALTH_ENTRIES \<Longrightarrow> health_now key ?s = health_now key s"
    using keeps_get [of key s c k] assms(1) by (auto simp: keeps_health_def)
  ultimately show "js_map_ok (krHealth s')" "length (krHealth s) \<le> length (krHealth s')"
    "length (krHealth s') < MAX_KEY_HEALTH_ENTRIES \<Longrightarrow>
     health_now key s' = (if scopedKey c k = key then h else health_now key s)"
    unfolding assms(2) health_now_put by (simp_all add: put_health_def)
qed

lemma keeps_health_of [keeps_intros]: "keeps_health key s (snd (health_of c health k s))"
  by (auto simp: health_of_def intro: keeps_intros split: option.split)

lemma keeps_extras [keeps_intros]: "keeps_health key s (snd (usable_extras c health i ks s))"
proof (induction ks arbitrary: i s)
  case (Cons k ks)
  show ?case
    using keeps_trans [OF keeps_health_of Cons.IH] by (simp add: case_prod_unfold Let_def)
qed (simp add: keeps_refl)

lemma keeps_usable [keeps_intros]: "keeps_health key s (snd (usable_keys c p ks health s))"
  by (auto simp: usable_keys_def case_prod_unfold Let_def intro: keeps_intros keeps_trans [OF keeps_health_of])

lemma rotate_health: "krHealth (snd (rotate_index c ks s)) = krHealth s"
  by (simp add: rotate_index_def Let_def)

lemma keeps_choose [keeps_intros]: "keeps_health key s (snd (getValidApiKey c p ks health s))"
  using keeps_usable [of key s c p ks health]
  by (auto simp: getValidApiKey_def case_prod_unfold Let_def
      intro: keeps_trans [OF _ keeps_frame [OF rotate_health]])

lemma keeps_resolve [keeps_intros]: "keeps_health key s (snd (resolveKeyForRequest c p ks selected s))"
proof (cases selected)
  case (Some k)
  have "keeps_health key s (snd (getOrCreateHealth c k s))" by (rule keeps_get)
  moreover from this
  have "keeps_health key s (snd (getValidApiKey c p ks None (snd (getOrCreateHealth c k s))))"
    by (rule keeps_trans) (rule keeps_choose)
  ultimately show ?thesis
    using Some keeps_choose [of key s] by (simp add: resolveKeyForRequest_def case_prod_unfold Let_def split: option.split)
qed (simp add: resolveKeyForRequest_def keeps_choose)

lemma keeps_stats [keeps_intros]: "keeps_health key s (snd (stats_loop c health ids counts s))"
proof (induction ids arbitrary: counts s)
  case (Cons k ids)
  obtain a w i where "counts = (a, w, i)" by (cases counts)
  with keeps_trans [OF keeps_health_of Cons.IH] show ?case by (simp add: case_prod_unfold Let_def)
qed (simp add: keeps_refl)

lemma sync_strikes:
  "js_map_ok (krHealth s) \<Longrightarrow> s' = sync_loop c entries s \<Longrightarrow>
   js_map_ok (krHealth s') \<and> length (krHealth s) \<le> length (krHealth s')
   \<and> (length (krHealth s') < MAX_KEY_HEALTH_ENTRIES \<longrightarrow>
        khFailures (health_now key s') = stored_strikes key c (khFailures (health_now key s)) entries)"
proof (induction c entries s rule: sync_loop.induct)
  case (2 c k h entries s)
  let ?m = "krHealth s"
  define m' where "m' = js_set (scopedKey c k) h
      (if \<not> js_has ?m (scopedKey c k) \<and> length ?m \<ge> MAX_KEY_HEALTH_ENTRIES then drop_oldest ?m else ?m)"
  have m': "js_map_ok m' \<and> length ?m \<le> length m' \<and>
    (length m' < MAX_KEY_HEALTH_ENTRIES \<longrightarrow> m' = js_set (scopedKey c k) h ?m)"
  proof (cases "js_has ?m (scopedKey c k)")
    case True
    with "2.prems"(1) show ?thesis by (simp add: m'_def length_js_set)
  next
    case False
    from store_missing [OF "2.prems"(1) False refl, of h] show ?thesis by (simp add: m'_def False)
  qed
  have step: "s' = sync_loop c entries (s\<lparr>krHealth := m'\<rparr>)"
    using "2.prems"(2) by (simp add: m'_def Let_def)
  have "js_map_ok (krHealth (s\<lparr>krHealth := m'\<rparr>))" using m' by simp
  from "2.IH" [OF refl refl, folded m'_def, OF this step] m' show ?case by (auto simp: health_now_def split: if_splits)
qed simp

text \<open>One event moves the failures of a key as the history says.\<close>

lemma record_step:
  assumes "js_map_ok (krHealth s)" "length (krHealth s') < MAX_KEY_HEALTH_ENTRIES"
    and "s' = put_health c k h (snd (getOrCreateHealth c k s))"
  shows "khFailures (health_now key s') = (if scopedKey c k = key then khFailures h else khFailures (health_now key s))"
  using put_step(3) [OF assms(1,3,2)] by simp

lemma keeps_step:
  "keeps_health key s s' \<Longrightarrow> js_map_ok (krHealth s) \<Longrightarrow> length (krHealth s') < MAX_KEY_HEALTH_ENTRIES \<Longrightarrow>
   khFailures (health_now key s') = khFailures (health_now key s)"
  by (simp add: keeps_health_def)

lemma recover_step:
  assumes "js_map_ok (krHealth s)" "length (krHealth (snd (recoverKeyHealth now c k health s))) < MAX_KEY_HEALTH_ENTRIES"
  shows "khFailures (health_now key (snd (recoverKeyHealth now c k health s)))
    = strikes key (khFailures (health_now key s)) (Kr_recover c k health now)"
proof (cases "\<exists>m h. health = Some m \<and> js_get m k = Some h \<and> \<not> (khStatus h = Key_active \<and> khFailures h = 0)")
  case True
  then obtain m h where m: "health = Some m" "js_get m k = Some h" "\<not> (khStatus h = Key_active \<and> khFailures h = 0)"
    by blast
  let ?s = "sync_loop c m s"
  have r: "snd (recoverKeyHealth now c k health s) = snd (recordKeySuccess now c k ?s)"
    using m by (auto simp: recoverKeyHealth_def syncHealthFromDB_def case_prod_unfold Let_def)
  note sync = sync_strikes [OF assms(1) refl, of c m key]
  have "length (krHealth ?s) \<le> length (krHealth (snd (recordKeySuccess now c k ?s)))"
    using put_step(2) [OF _ record_forms(3)] sync by blast
  with sync r assms(2) record_step [OF _ _ record_forms(3), of ?s now c k key] m show ?thesis
    by (auto simp: record_failures)
qed (auto simp: recoverKeyHealth_def split: option.split)

lemma js_get_filter_keys: "js_get (filter (\<lambda>p. Q (fst p)) m) key = (if Q key then js_get m key else None)"
  by (induction m) auto

lemma remove_health_now:
  "health_now key (removeConnectionHealth c s) =
     (if take (length c + 1) key = c @ '':'' then fresh_health else health_now key s)"
  by (simp add: health_now_def removeConnectionHealth_def case_prod_unfold
      js_get_filter_keys [where Q = "\<lambda>k. take (Suc (length c)) k \<noteq> c @ '':''"])

lemma rotator_step_strikes:
  assumes "js_map_ok (krHealth s)" "length (krHealth (rotator_step s e)) < MAX_KEY_HEALTH_ENTRIES"
  shows "khFailures (health_now key (rotator_step s e)) = strikes key (khFailures (health_now key s)) e"
proof (cases e)
  case (Kr_failure c k now)
  then show ?thesis using record_step [OF assms(1) _ record_forms(1), of now c k key] assms(2)
    by (simp add: record_failures)
next
  case (Kr_terminal c k now)
  then show ?thesis using record_step [OF assms(1) _ record_forms(2), of now c k key] assms(2)
    by (simp add: record_failures)
next
  case (Kr_success c k now)
  then show ?thesis using record_step [OF assms(1) _ record_forms(3), of now c k key] assms(2)
    by (simp add: record_failures)
next
  case (Kr_reset c k)
  then show ?thesis using record_step [OF assms(1) _ record_forms(4), of c k key] assms(2)
    by (simp add: record_failures)
next
  case (Kr_sync c m)
  then show ?thesis using sync_strikes [OF assms(1) refl, of c _ key] assms(2)
    by (cases m) (simp_all add: syncHealthFromDB_def)
next
  case (Kr_recover c k m now)
  then show ?thesis using recover_step [OF assms(1)] assms(2) by (simp del: strikes.simps)
next
  case (Kr_choose c p ks health)
  then show ?thesis using keeps_step [OF keeps_choose assms(1)] assms(2) by simp
next
  case (Kr_rotate c p ks)
  have "krHealth (rotator_step s e) = krHealth s"
    by (simp add: Kr_rotate getRotatingApiKey_def rotate_health Let_def)
  then show ?thesis by (simp add: Kr_rotate health_now_def)
next
  case (Kr_resolve c p ks selected)
  then show ?thesis using keeps_step [OF keeps_resolve assms(1)] assms(2) by simp
next
  case (Kr_stats c p ks health)
  then show ?thesis using keeps_step [OF keeps_stats assms(1)] assms(2)
    by (simp add: getKeyHealthStats_def case_prod_unfold Let_def del: stats_loop.simps)
next
  case (Kr_track c ks)
  then show ?thesis by (simp add: trackConnectionExtraKeys_def health_now_def Let_def)
next
  case (Kr_reset_index c)
  then show ?thesis by (simp add: resetRotationIndex_def health_now_def)
next
  case (Kr_remove_health c)
  then show ?thesis by (simp add: remove_health_now fresh_health_def)
next
  case (Kr_remove c)
  then show ?thesis by (simp add: removeConnectionIndex_def remove_health_now fresh_health_def)
      (simp add: health_now_def)
qed

lemma strikes_run:
  "rotator_ok s \<Longrightarrow> \<forall>e \<in> set evs. stored_ok e \<Longrightarrow> health_roomy s evs \<Longrightarrow>
   khFailures (health_now key (foldl rotator_step s evs))
     = foldl (strikes key) (khFailures (health_now key s)) evs"
proof (induction evs arbitrary: s)
  case (Cons e evs)
  have "js_map_ok (krHealth s)" using Cons.prems(1) by (simp add: rotator_ok_def bounded_map_def)
  with Cons rotator_run.step_good [OF Cons.prems(1), of e] show ?case
    by (simp add: rotator_step_strikes)
qed simp

lemma health_now_ok: "rotator_ok s \<Longrightarrow> health_ok (health_now key s)"
  using js_values_get [of "krHealth s" key]
  by (auto simp: health_now_def rotator_ok_def bounded_map_def fresh_ok split: option.split)

text \<open>
  C29: the health of a key is what its history says. Take every sequence of calls from a fresh
  rotator, in which the health that is loaded from the database is consistent itself. Failures
  never outnumber requests, status and failures of every record agree, and neither map ever holds
  more than its 500 entries. And as long as the health map does not fill up (a full map drops its
  oldest record, and with it a history), the failures of a key are those of its history: each
  failure counts one, a terminal one raises the count to at least two, a success, a reset, a
  recovery or the removal of the connection clears it, loading from the database sets it to what
  is stored, and no call for another key and no choice of a key changes it; the key is invalid
  from two on, in warning at one, and active otherwise.
\<close>

theorem key_health_consistent:
  assumes "\<forall>e \<in> set evs. stored_ok e" and s: "s = foldl rotator_step new_rotator evs"
    and n: "n = foldl (strikes key) 0 evs"
  shows "rotator_ok s
    \<and> (health_roomy new_rotator evs \<longrightarrow>
         khFailures (health_now key s) = n \<and>
         khStatus (health_now key s) = (if 2 \<le> n then Key_invalid else if n = 1 then Key_warning else Key_active))"
proof -
  have new: "rotator_ok new_rotator" by (simp add: rotator_ok_def bounded_map_def new_rotator_def)
  have ok: "rotator_ok s" unfolding s using rotator_run.run_always_good [OF new] assms(1) by blast
  have "khFailures (health_now key s) = n" if "health_roomy new_rotator evs"
    unfolding s n using strikes_run [OF new assms(1) that, of key]
    by (simp add: health_now_def new_rotator_def fresh_health_def)
  with ok health_now_ok [OF ok, of key] show ?thesis
    by (auto simp: health_ok_def FAILURE_THRESHOLD_def)
qed

theorem key_health_consistent_witness:
  "khStatus (health_now ''c:extra_0'' (foldl rotator_step new_rotator
      [Kr_terminal ''c'' ''extra_0'' 5, Kr_choose ''c'' ''k'' [''x''] None, Kr_success ''c'' ''extra_0'' 7,
       Kr_failure ''c'' ''primary'' 8, Kr_failure ''c'' ''extra_0'' 9])) = Key_warning"
proof -
  let ?evs = "[Kr_terminal ''c'' ''extra_0'' 5, Kr_choose ''c'' ''k'' [''x''] None, Kr_success ''c'' ''extra_0'' 7,
       Kr_failure ''c'' ''primary'' 8, Kr_failure ''c'' ''extra_0'' 9]"
  have "health_roomy new_rotator ?evs" by code_simp
  moreover have "1 = foldl (strikes ''c:extra_0'') 0 ?evs" by code_simp
  ultimately show ?thesis
    using key_health_consistent [OF _ refl, of ?evs 1 "''c:extra_0''"] by simp
qed

lemma choose_room:
  assumes "length (krHealth s) + Suc (length (valid_extras extraKeys)) \<le> MAX_KEY_HEALTH_ENTRIES"
  shows "fst (getValidApiKey c p extraKeys health s) =
    (let ks = filter (\<lambda>(k, keyId). key_usable health s c keyId) (all_keys p extraKeys);
         n = (case js_get (krIndexes s) c of Some n \<Rightarrow> n | None \<Rightarrow> 0)
     in if ks = [] then None else Some (ks ! (n mod length ks)))"
proof -
  obtain us s1 where u: "usable_keys c p extraKeys health s = (us, s1)" by fastforce
  have "us = filter (\<lambda>(k, keyId). key_usable health s c keyId) (all_keys p extraKeys)" "krIndexes s1 = krIndexes s"
    using usable_keys_room [OF u assms] by (auto simp: same_health_def)
  then show ?thesis by (auto simp: getValidApiKey_def u rotate_index_def Let_def length_Suc_conv)
qed

lemma chosen_usable:
  assumes "length (krHealth s) + Suc (length (valid_extras extraKeys)) \<le> MAX_KEY_HEALTH_ENTRIES"
    and "fst (getValidApiKey c p extraKeys health s) = Some k"
  shows "k \<in> set (filter (\<lambda>(k, keyId). key_usable health s c keyId) (all_keys p extraKeys))"
proof -
  let ?ks = "filter (\<lambda>(k, keyId). key_usable health s c keyId) (all_keys p extraKeys)"
  let ?n = "case js_get (krIndexes s) c of Some n \<Rightarrow> n | None \<Rightarrow> 0"
  have "?ks \<noteq> [] \<and> k = ?ks ! (?n mod length ?ks)"
    using choose_room [OF assms(1), of c p health] assms(2) by (simp only: Let_def split: if_splits) simp_all
  moreover have "?ks \<noteq> [] \<Longrightarrow> ?ks ! (?n mod length ?ks) \<in> set ?ks" by (intro nth_mem) simp
  ultimately show ?thesis by metis
qed

text \<open>
  While the health map has room, the key chosen for a request is one of the connection's
  keys under its own id and is not invalid, and there is no choice only if every key is invalid.
\<close>

lemma invalid_keys_not_served:
  assumes "length (krHealth s) + Suc (length (valid_extras extraKeys)) \<le> MAX_KEY_HEALTH_ENTRIES"
  shows "case fst (getValidApiKey c p extraKeys health s) of
      Some (key, keyId) \<Rightarrow> (key, keyId) \<in> set (all_keys p extraKeys) \<and> key_usable health s c keyId
    | None \<Rightarrow> \<forall>(key, keyId) \<in> set (all_keys p extraKeys). \<not> key_usable health s c keyId"
proof (cases "fst (getValidApiKey c p extraKeys health s)")
  case None
  then show ?thesis
    using choose_room [OF assms, of c p health] by (auto simp: Let_def filter_empty_conv split: if_splits)
next
  case (Some k)
  with chosen_usable [OF assms Some] show ?thesis by auto
qed

text \<open>The keys that \<open>n\<close> requests of a connection in a row are given.\<close>

fun choices :: "nat \<Rightarrow> string \<Rightarrow> string \<Rightarrow> string list \<Rightarrow> (string, KeyHealth) js_map option \<Rightarrow> key_rotator \<Rightarrow> key_choice option list" where
  "choices 0 c p extraKeys health s = []"
| "choices (Suc n) c p extraKeys health s =
     (let (k, s) = getValidApiKey c p extraKeys health s in k # choices n c p extraKeys health s)"

lemma index_frame:
  "known_connection health (s\<lparr>krIndexes := m\<rparr>) c keyId \<longleftrightarrow> known_connection health s c keyId"
  "key_usable health (s\<lparr>krIndexes := m\<rparr>) c keyId \<longleftrightarrow> key_usable health s c keyId"
  by (simp_all add: known_connection_def key_usable_def effective_health_def cong: option.case_cong)

lemma choices_known:
  assumes "\<forall>(k, keyId) \<in> set (all_keys p extraKeys). known_connection health s c keyId"
    and "ks = filter (\<lambda>(k, keyId). key_usable health s c keyId) (all_keys p extraKeys)" "2 \<le> length ks"
  shows "choices n c p extraKeys health s =
    map (\<lambda>j. Some (ks ! (((case js_get (krIndexes s) c of Some i \<Rightarrow> i | None \<Rightarrow> 0) + j) mod length ks))) [0..<n]"
  using assms
proof (induction n arbitrary: s)
  case (Suc n)
  let ?i = "case js_get (krIndexes s) c of Some i \<Rightarrow> i | None \<Rightarrow> 0"
  let ?s = "s\<lparr>krIndexes := js_set c (?i + 1) (krIndexes s)\<rparr>"
  have same: "known_connection health ?s = known_connection health s" "key_usable health ?s = key_usable health s"
    by (simp_all add: index_frame fun_eq_iff)
  have "getValidApiKey c p extraKeys health s = (Some (ks ! (?i mod length ks)), ?s)"
    using usable_keys_known [OF Suc.prems(1)] Suc.prems(2,3) by (auto simp: getValidApiKey_def rotate_index_def Let_def)
  moreover have "choices n c p extraKeys health ?s = map (\<lambda>j. Some (ks ! ((Suc ?i + j) mod length ks))) [0..<n]"
    using Suc.IH [of ?s] Suc.prems same by simp
  ultimately show ?case by (simp add: upt_conv_Cons map_Suc_upt [symmetric] del: upt_Suc)
qed simp

text \<open>
  C30: the rotation is fair. When the health map has room and at least two keys can be used, as
  many requests in a row as there are such keys are given each of them once, in the order of the
  connection's keys, beginning where the rotation stands.
\<close>

theorem keys_rotate:
  assumes "length (krHealth s) + Suc (length (valid_extras extraKeys)) \<le> MAX_KEY_HEALTH_ENTRIES"
    and "ks = filter (\<lambda>(k, keyId). key_usable health s c keyId) (all_keys p extraKeys)" "2 \<le> length ks"
  shows "choices (length ks) c p extraKeys health s
    = map Some (rotate (case js_get (krIndexes s) c of Some i \<Rightarrow> i | None \<Rightarrow> 0) ks)"
proof -
  let ?i = "case js_get (krIndexes s) c of Some i \<Rightarrow> i | None \<Rightarrow> 0"
  obtain us s1 where u: "usable_keys c p extraKeys health s = (us, s1)" by fastforce
  have s1: "us = ks" "same_health s s1" "\<forall>(k, keyId) \<in> set (all_keys p extraKeys). known_connection health s1 c keyId"
    using usable_keys_room [OF u assms(1)] assms(2) by auto
  let ?s = "s1\<lparr>krIndexes := js_set c (?i + 1) (krIndexes s1)\<rparr>"
  have first: "getValidApiKey c p extraKeys health s = (Some (ks ! (?i mod length ks)), ?s)"
    using u s1(1,2) assms(3) by (auto simp: getValidApiKey_def rotate_index_def same_health_def Let_def)
  have "key_usable health s1 = key_usable health s" using s1(2) by (simp add: key_usable_def same_health_def fun_eq_iff)
  then have same: "known_connection health ?s = known_connection health s1" "key_usable health ?s = key_usable health s"
    by (simp_all add: index_frame fun_eq_iff)
  obtain n where n: "length ks = Suc n" using assms(3) by (cases "length ks") auto
  have "choices n c p extraKeys health ?s = map (\<lambda>j. Some (ks ! ((Suc ?i + j) mod length ks))) [0..<n]"
    using choices_known [of p extraKeys health ?s c ks n] s1(3) assms(2,3) same by simp
  then have "choices (Suc n) c p extraKeys health s = map (\<lambda>j. Some (ks ! ((?i + j) mod length ks))) [0..<Suc n]"
    using first by (simp add: upt_conv_Cons map_Suc_upt [symmetric] del: upt_Suc)
  moreover have "map (\<lambda>j. Some (ks ! ((?i + j) mod length ks))) [0..<length ks] = map Some (rotate ?i ks)"
    by (rule nth_equalityI) (simp_all add: nth_rotate)
  ultimately show ?thesis unfolding n by simp
qed

theorem keys_rotate_witness:
  "choices 2 ''c'' ''k'' [''x''] None new_rotator = [Some (''k'', ''primary''), Some (''x'', ''extra_0'')]"
proof -
  have ks: "filter (\<lambda>(k, keyId). key_usable None new_rotator ''c'' keyId) (all_keys ''k'' [''x''])
      = [(''k'', ''primary''), (''x'', ''extra_0'')]" by code_simp
  have room: "length (krHealth new_rotator) + Suc (length (valid_extras [''x''])) \<le> MAX_KEY_HEALTH_ENTRIES" by code_simp
  show ?thesis
    using keys_rotate [OF room ks [symmetric]] by (simp add: new_rotator_def numeral_2_eq_2)
qed

lemma extra_index_id: "extra_index (extra_id i) = Some i"
proof -
  have d: "is_digit c" if "c \<in> set (show_nat i)" for c
    using show_nat_digits [OF that] digit_facts by auto
  then show ?thesis
    using show_nat_nonempty [of i] by (simp add: extra_index_def extra_id_def list_all_iff read_digits_show_nat)
qed

text \<open>
  A request keeps its key. When none of the extra keys is blank, the id that a choice
  returned stands for the same key in every later state, as long as that key has not become
  invalid there.
\<close>

lemma chosen_key_sticks:
  assumes "\<forall>k \<in> set extraKeys. js_trim k \<noteq> []"
    and "length (krHealth s) + Suc (length extraKeys) \<le> MAX_KEY_HEALTH_ENTRIES"
    and "fst (getValidApiKey c p extraKeys health s) = Some (key, keyId)"
    and "key_usable None t c keyId"
  shows "fst (resolveKeyForRequest c p extraKeys (Some keyId) t) = Some (key, keyId)"
proof -
  have ve: "valid_extras extraKeys = extraKeys" using assms(1) by (simp add: valid_extras_def filter_id_conv)
  have "(key, keyId) \<in> set (all_keys p extraKeys)"
    using chosen_usable [of s extraKeys c p health] assms(2,3) by (simp add: ve)
  then have sel: "selected_key p extraKeys keyId = Some (key, keyId)" "keyId \<noteq> []"
    using assms(1) by (auto simp: all_keys_def ve selected_key_def extra_index_id split: if_splits)
      (simp_all add: extra_id_def)
  have "fst (getOrCreateHealth c keyId t) = effective_health None t c keyId"
    by (simp add: getOrCreateHealth_def effective_health_def Let_def split: option.split)
  with assms(4) sel show ?thesis
    by (simp add: resolveKeyForRequest_def key_usable_def case_prod_unfold Let_def)
qed

text \<open>
  With a blank extra key the ids shift: the choice numbers the keys that are not blank, the
  resolution all of them. The id under which the second key was chosen stands for the first one,
  and the failures of one are charged to the other.
\<close>

lemma blank_extra_shifts:
  defines "s \<equiv> snd (getValidApiKey ''c'' [] ['' '', ''A'', ''B''] None new_rotator)"
  shows "fst (getValidApiKey ''c'' [] ['' '', ''A'', ''B''] None s) = Some (''B'', ''extra_1'')
    \<and> fst (resolveKeyForRequest ''c'' [] ['' '', ''A'', ''B''] (Some ''extra_1'') s) = Some (''A'', ''extra_1'')"
  unfolding s_def by code_simp

end
