(* ===== verification/Resilience_Settings.thy ===== *)
theory Resilience_Settings
  imports Prelude
begin

text \<open>
  The resilience settings of \<open>src/lib/resilience/settings.ts\<close> and its parts \<open>types.ts\<close> and
  \<open>normalize.ts\<close>: how stored, legacy and patched values of any shape become settings. The process
  environment is the argument \<open>env\<close>; \<open>Number(v)\<close> of a string, an array or an object is the
  argument \<open>num_of\<close>.
\<close>


section \<open>Untyped values\<close>

datatype json =
    J_undefined | J_null | J_bool bool | J_num js_number | J_str string
  | J_array "json list" | J_object "(string \<times> json) list"

type_synonym JsonRecord = "(string, json) js_map"

definition asRecord :: "json \<Rightarrow> JsonRecord" where
  "asRecord v = (case v of J_object m \<Rightarrow> m | _ \<Rightarrow> [])"

text \<open>\<open>record.key\<close>\<close>

definition field :: "JsonRecord \<Rightarrow> string \<Rightarrow> json" where
  "field r k = (case js_get r k of Some v \<Rightarrow> v | None \<Rightarrow> J_undefined)"

text \<open>\<open>Math.trunc\<close>\<close>

definition js_trunc :: "rat \<Rightarrow> int" where
  "js_trunc r = (if 0 \<le> r then \<lfloor>r\<rfloor> else \<lceil>r\<rceil>)"

text \<open>A number, or a string that is not blank, as a number.\<close>

definition parse_number :: "(json \<Rightarrow> js_number) \<Rightarrow> json \<Rightarrow> js_number" where
  "parse_number num_of v =
     (case v of
        J_num n \<Rightarrow> n
      | J_str s \<Rightarrow> if length (js_trim s) > 0 then num_of v else NaN
      | _ \<Rightarrow> NaN)"

definition toInteger :: "(json \<Rightarrow> js_number) \<Rightarrow> json \<Rightarrow> int \<Rightarrow> int \<Rightarrow> int \<Rightarrow> int" where
  "toInteger num_of v fallback lo hi =
     (case parse_number num_of v of
        Finite r \<Rightarrow> min hi (max lo (js_trunc r))
      | _ \<Rightarrow> fallback)"

definition toBoolean :: "json \<Rightarrow> bool \<Rightarrow> bool" where
  "toBoolean v fallback = (case v of J_bool b \<Rightarrow> b | _ \<Rightarrow> fallback)"


section \<open>The settings\<close>

record RequestQueueSettings =
  qsAutoEnableApiKeyProviders :: bool
  qsRequestsPerMinute :: int
  qsMinTimeBetweenRequestsMs :: int
  qsConcurrentRequests :: int
  qsGlobalConcurrentRequests :: int
  qsMaxWaitMs :: int
  qsMaxQueueDepth :: int

record ConnectionCooldownProfileSettings =
  ccBaseCooldownMs :: int
  ccUseUpstreamRetryHints :: bool
  ccUseUpstream429BreakerHints :: "bool option"
  ccMaxBackoffSteps :: int

record ProviderBreakerProfileSettings =
  pbFailureThreshold :: int
  pbDegradationThreshold :: int
  pbResetTimeoutMs :: int

record WaitForCooldownSettings =
  wcEnabled :: bool
  wcMaxRetries :: int
  wcMaxRetryWaitSec :: int
  wcMaxRetryWaitMs :: int
  wcBudgetMs :: int

record ComboCooldownWaitSettings =
  cwEnabled :: bool
  cwMaxWaitMs :: int
  cwMaxAttempts :: int
  cwBudgetMs :: int

record ProviderCooldownSettings =
  pcEnabled :: bool
  pcMinRetryCooldownMs :: int
  pcMaxRetryCooldownMs :: int

record QuotaPreflightSettings =
  qpEnabled :: bool
  qpDefaultThresholdPercent :: int
  qpWarnThresholdPercent :: int
  qpProviderWindowDefaults :: "(string, (string, int) js_map) js_map"

record StreamThroughputWatchdogSettings =
  twEnabled :: bool
  twWarmupMs :: int
  twWindowMs :: int
  twMinUsefulBytesPerSecond :: int
  twMinUsefulBytes :: int

record StreamRecoverySettings =
  srEnabled :: bool
  srContinueMidStream :: bool
  srThroughputWatchdog :: StreamThroughputWatchdogSettings

record ProviderQuotaOverrideSettings =
  poRpm :: "int option"
  poConcurrency :: "int option"
  poProviderConcurrency :: "int option"

record ResilienceSettings =
  rsRequestQueue :: RequestQueueSettings
  rsCooldownOauth :: ConnectionCooldownProfileSettings
  rsCooldownApikey :: ConnectionCooldownProfileSettings
  rsBreakerOauth :: ProviderBreakerProfileSettings
  rsBreakerApikey :: ProviderBreakerProfileSettings
  rsWaitForCooldown :: WaitForCooldownSettings
  rsComboCooldownWait :: ComboCooldownWaitSettings
  rsQuotaShareConcurrencyLimit :: bool
  rsProviderCooldown :: ProviderCooldownSettings
  rsQuotaPreflight :: QuotaPreflightSettings
  rsStreamRecovery :: StreamRecoverySettings
  rsProviderQuotaOverrides :: "(string, ProviderQuotaOverrideSettings) js_map"


section \<open>Environment and defaults\<close>

text \<open>
  What the process environment says: the breaker thresholds and cooldown limits as the integers
  they parse to, the switches, and the raw variables and feature flags that are read by name
  (\<open>None\<close>: the variable is not set, the flag lookup throws).
\<close>

record environment =
  envQueueMaxWait :: js_number
  envQueueMaxDepth :: js_number
  envOauthThreshold :: int
  envOauthDegradation :: int
  envOauthReset :: int
  envApikeyThreshold :: int
  envApikeyDegradation :: int
  envApikeyReset :: int
  envCooldownMin :: int
  envCooldownMax :: int
  envCooldownEnabled :: bool
  envPreflightEnabled :: bool
  envFlag :: "string \<Rightarrow> string option"
  envVar :: "string \<Rightarrow> string option"

definition DEFAULT_REQUEST_QUEUE_MAX_WAIT_MS :: "environment \<Rightarrow> int" where
  "DEFAULT_REQUEST_QUEUE_MAX_WAIT_MS env =
     (case envQueueMaxWait env of Finite r \<Rightarrow> if r > 0 then js_trunc r else 15000 | _ \<Rightarrow> 15000)"

definition DEFAULT_REQUEST_QUEUE_MAX_DEPTH :: "environment \<Rightarrow> int" where
  "DEFAULT_REQUEST_QUEUE_MAX_DEPTH env =
     (case envQueueMaxDepth env of Finite r \<Rightarrow> if r \<ge> 0 then js_trunc r else 0 | _ \<Rightarrow> 0)"

definition parseFeatureFlagBoolean :: "string \<Rightarrow> bool \<Rightarrow> bool" where
  "parseFeatureFlagBoolean v fallback =
     (let n = map js_lower (js_trim v) in
      if n = ''true'' \<or> n = ''1'' \<or> n = ''yes'' \<or> n = ''on'' then True
      else if n = ''false'' \<or> n = ''0'' \<or> n = ''no'' \<or> n = ''off'' then False
      else fallback)"

definition resolveBooleanFeatureFlag :: "environment \<Rightarrow> string \<Rightarrow> bool \<Rightarrow> bool" where
  "resolveBooleanFeatureFlag env key fallback =
     (case envFlag env key of
        Some v \<Rightarrow> parseFeatureFlagBoolean v fallback
      | None \<Rightarrow>
          (case envVar env key of
             Some v \<Rightarrow> if js_trim v \<noteq> [] then parseFeatureFlagBoolean v fallback else fallback
           | None \<Rightarrow> fallback))"

definition env_json :: "environment \<Rightarrow> string \<Rightarrow> json" where
  "env_json env key = (case envVar env key of Some v \<Rightarrow> J_str v | None \<Rightarrow> J_undefined)"

definition resolveStreamRecoveryDefaults :: "(json \<Rightarrow> js_number) \<Rightarrow> environment \<Rightarrow> StreamRecoverySettings" where
  "resolveStreamRecoveryDefaults num_of env =
     \<lparr>srEnabled = resolveBooleanFeatureFlag env ''STREAM_RECOVERY_ENABLED'' False,
      srContinueMidStream = resolveBooleanFeatureFlag env ''STREAM_RECOVERY_MIDSTREAM_ENABLED'' False,
      srThroughputWatchdog =
        \<lparr>twEnabled = resolveBooleanFeatureFlag env ''STREAM_THROUGHPUT_WATCHDOG_ENABLED'' False,
         twWarmupMs = toInteger num_of (env_json env ''STREAM_THROUGHPUT_WATCHDOG_WARMUP_MS'') 30000 0 600000,
         twWindowMs = toInteger num_of (env_json env ''STREAM_THROUGHPUT_WATCHDOG_WINDOW_MS'') 30000 1000 600000,
         twMinUsefulBytesPerSecond =
           toInteger num_of (env_json env ''STREAM_THROUGHPUT_WATCHDOG_MIN_BYTES_PER_SECOND'') 4 1 1000000,
         twMinUsefulBytes =
           toInteger num_of (env_json env ''STREAM_THROUGHPUT_WATCHDOG_MIN_USEFUL_BYTES'') 1 1 1000000\<rparr>\<rparr>"

definition env_switch :: "environment \<Rightarrow> string \<Rightarrow> bool" where
  "env_switch env key =
     (let v = map js_lower (js_trim (case envVar env key of Some v \<Rightarrow> v | None \<Rightarrow> []))
      in v = ''true'' \<or> v = ''1'' \<or> v = ''on'')"

definition DEFAULT_RESILIENCE_SETTINGS :: "environment \<Rightarrow> ResilienceSettings" where
  "DEFAULT_RESILIENCE_SETTINGS env =
     \<lparr>rsRequestQueue =
        \<lparr>qsAutoEnableApiKeyProviders = True, qsRequestsPerMinute = 60, qsMinTimeBetweenRequestsMs = 350,
         qsConcurrentRequests = 6, qsGlobalConcurrentRequests = 0,
         qsMaxWaitMs = DEFAULT_REQUEST_QUEUE_MAX_WAIT_MS env,
         qsMaxQueueDepth = DEFAULT_REQUEST_QUEUE_MAX_DEPTH env\<rparr>,
      rsCooldownOauth =
        \<lparr>ccBaseCooldownMs = 5000, ccUseUpstreamRetryHints = False, ccUseUpstream429BreakerHints = None,
         ccMaxBackoffSteps = 8\<rparr>,
      rsCooldownApikey =
        \<lparr>ccBaseCooldownMs = 3000, ccUseUpstreamRetryHints = True, ccUseUpstream429BreakerHints = None,
         ccMaxBackoffSteps = 5\<rparr>,
      rsBreakerOauth =
        \<lparr>pbFailureThreshold = envOauthThreshold env, pbDegradationThreshold = envOauthDegradation env,
         pbResetTimeoutMs = envOauthReset env\<rparr>,
      rsBreakerApikey =
        \<lparr>pbFailureThreshold = envApikeyThreshold env, pbDegradationThreshold = envApikeyDegradation env,
         pbResetTimeoutMs = envApikeyReset env\<rparr>,
      rsWaitForCooldown =
        \<lparr>wcEnabled = True, wcMaxRetries = 5, wcMaxRetryWaitSec = 90, wcMaxRetryWaitMs = 90000, wcBudgetMs = 300000\<rparr>,
      rsComboCooldownWait = \<lparr>cwEnabled = True, cwMaxWaitMs = 90000, cwMaxAttempts = 5, cwBudgetMs = 300000\<rparr>,
      rsQuotaShareConcurrencyLimit = True,
      rsProviderCooldown =
        \<lparr>pcEnabled = envCooldownEnabled env, pcMinRetryCooldownMs = envCooldownMin env,
         pcMaxRetryCooldownMs = envCooldownMax env\<rparr>,
      rsQuotaPreflight =
        \<lparr>qpEnabled = envPreflightEnabled env, qpDefaultThresholdPercent = 2, qpWarnThresholdPercent = 20,
         qpProviderWindowDefaults = []\<rparr>,
      rsStreamRecovery =
        \<lparr>srEnabled = env_switch env ''STREAM_RECOVERY_ENABLED'',
         srContinueMidStream = env_switch env ''STREAM_RECOVERY_MIDSTREAM_ENABLED'',
         srThroughputWatchdog =
           \<lparr>twEnabled = env_switch env ''STREAM_THROUGHPUT_WATCHDOG_ENABLED'',
            twWarmupMs = 30000, twWindowMs = 30000, twMinUsefulBytesPerSecond = 4, twMinUsefulBytes = 1\<rparr>\<rparr>,
      rsProviderQuotaOverrides = []\<rparr>"


section \<open>Normalisation of the sections\<close>

definition normalizeRequestQueueSettings ::
  "(json \<Rightarrow> js_number) \<Rightarrow> json \<Rightarrow> RequestQueueSettings \<Rightarrow> RequestQueueSettings" where
  "normalizeRequestQueueSettings num_of nxt fb =
     (let record' = asRecord nxt;
          int_field = (\<lambda>k d. toInteger num_of (field record' k) d)
      in \<lparr>qsAutoEnableApiKeyProviders = toBoolean (field record' ''autoEnableApiKeyProviders'') (qsAutoEnableApiKeyProviders fb),
          qsRequestsPerMinute = int_field ''requestsPerMinute'' (qsRequestsPerMinute fb) 1 1000000,
          qsMinTimeBetweenRequestsMs = int_field ''minTimeBetweenRequestsMs'' (qsMinTimeBetweenRequestsMs fb) 0 3600000,
          qsConcurrentRequests = int_field ''concurrentRequests'' (qsConcurrentRequests fb) 1 10000,
          qsGlobalConcurrentRequests = int_field ''globalConcurrentRequests'' (qsGlobalConcurrentRequests fb) 0 100000,
          qsMaxWaitMs = int_field ''maxWaitMs'' (qsMaxWaitMs fb) 1 86400000,
          qsMaxQueueDepth = int_field ''maxQueueDepth'' (qsMaxQueueDepth fb) 0 100000\<rparr>)"

definition normalizeConnectionCooldownProfile ::
  "(json \<Rightarrow> js_number) \<Rightarrow> json \<Rightarrow> ConnectionCooldownProfileSettings \<Rightarrow> ConnectionCooldownProfileSettings" where
  "normalizeConnectionCooldownProfile num_of nxt fb =
     (let record' = asRecord nxt;
          hints = (if \<not> js_has record' ''useUpstream429BreakerHints'' then ccUseUpstream429BreakerHints fb
                   else (case field record' ''useUpstream429BreakerHints'' of
                           J_null \<Rightarrow> None
                         | J_bool b \<Rightarrow> Some b
                         | _ \<Rightarrow> ccUseUpstream429BreakerHints fb))
      in \<lparr>ccBaseCooldownMs = toInteger num_of (field record' ''baseCooldownMs'') (ccBaseCooldownMs fb) 0 86400000,
          ccUseUpstreamRetryHints = toBoolean (field record' ''useUpstreamRetryHints'') (ccUseUpstreamRetryHints fb),
          ccUseUpstream429BreakerHints = hints,
          ccMaxBackoffSteps = toInteger num_of (field record' ''maxBackoffSteps'') (ccMaxBackoffSteps fb) 0 32\<rparr>)"

definition normalizeLegacyConnectionCooldownProfile ::
  "(json \<Rightarrow> js_number) \<Rightarrow> JsonRecord \<Rightarrow> ConnectionCooldownProfileSettings \<Rightarrow> ConnectionCooldownProfileSettings" where
  "normalizeLegacyConnectionCooldownProfile num_of record' fb =
     (let transientCooldown = toInteger num_of (field record' ''transientCooldown'') (ccBaseCooldownMs fb) 0 86400000;
          legacyRateLimitCooldown = toInteger num_of (field record' ''rateLimitCooldown'') transientCooldown 0 86400000;
          useUpstreamRetryHints =
            (case field record' ''rateLimitCooldown'' of J_num n \<Rightarrow> n = Finite 0 | _ \<Rightarrow> ccUseUpstreamRetryHints fb)
      in \<lparr>ccBaseCooldownMs = (if useUpstreamRetryHints then transientCooldown
                              else max transientCooldown legacyRateLimitCooldown),
          ccUseUpstreamRetryHints = useUpstreamRetryHints,
          ccUseUpstream429BreakerHints = None,
          ccMaxBackoffSteps = toInteger num_of (field record' ''maxBackoffLevel'') (ccMaxBackoffSteps fb) 0 32\<rparr>)"

definition normalizeProviderBreakerProfile ::
  "(json \<Rightarrow> js_number) \<Rightarrow> json \<Rightarrow> ProviderBreakerProfileSettings \<Rightarrow> ProviderBreakerProfileSettings" where
  "normalizeProviderBreakerProfile num_of nxt fb =
     (let record' = asRecord nxt;
          failureThreshold = toInteger num_of (field record' ''failureThreshold'') (pbFailureThreshold fb) 1 1000;
          degradationThreshold =
            min (toInteger num_of (field record' ''degradationThreshold'') (pbDegradationThreshold fb) 1 1000)
                (if failureThreshold \<le> 1 then 1 else failureThreshold - 1)
      in \<lparr>pbFailureThreshold = failureThreshold, pbDegradationThreshold = degradationThreshold,
          pbResetTimeoutMs = toInteger num_of (field record' ''resetTimeoutMs'') (pbResetTimeoutMs fb) 1000 86400000\<rparr>)"

text \<open>\<open>Object.entries\<close> of a value that passes \<open>typeof v === "object" && v !== null\<close>.\<close>

definition object_entries :: "json \<Rightarrow> (string \<times> json) list option" where
  "object_entries v =
     (case v of
        J_object m \<Rightarrow> Some m
      | J_array xs \<Rightarrow> Some (zip (map show_nat [0..<length xs]) xs)
      | _ \<Rightarrow> None)"

fun window_loop :: "(json \<Rightarrow> js_number) \<Rightarrow> (string \<times> json) list \<Rightarrow> (string, int) js_map \<Rightarrow> (string, int) js_map" where
  "window_loop num_of [] windowMap = windowMap"
| "window_loop num_of ((windowName, percent) # es) windowMap =
     (if windowName = [] then window_loop num_of es windowMap
      else
        (case parse_number num_of percent of
           Finite r \<Rightarrow> window_loop num_of es (js_set windowName (min 100 (max 0 (js_trunc r))) windowMap)
         | _ \<Rightarrow> window_loop num_of es windowMap))"

fun provider_window_loop ::
  "(json \<Rightarrow> js_number) \<Rightarrow> (string \<times> json) list \<Rightarrow> (string, (string, int) js_map) js_map
     \<Rightarrow> (string, (string, int) js_map) js_map" where
  "provider_window_loop num_of [] out = out"
| "provider_window_loop num_of ((provider, windows) # ps) out =
     (if provider = [] then provider_window_loop num_of ps out
      else
        (case object_entries windows of
           None \<Rightarrow> provider_window_loop num_of ps out
         | Some es \<Rightarrow>
             let windowMap = window_loop num_of es []
             in provider_window_loop num_of ps (if length windowMap > 0 then js_set provider windowMap out else out)))"

definition windows_json :: "(string, (string, int) js_map) js_map \<Rightarrow> json" where
  "windows_json m =
     J_object (map (\<lambda>(p, ws). (p, J_object (map (\<lambda>(w, n). (w, J_num (Finite (of_int n)))) ws))) m)"

text \<open>\<open>v ?? fallback\<close>\<close>

definition json_or :: "json \<Rightarrow> json \<Rightarrow> json" where
  "json_or v d = (case v of J_undefined \<Rightarrow> d | J_null \<Rightarrow> d | _ \<Rightarrow> v)"

definition normalizeProviderWindowDefaults ::
  "(json \<Rightarrow> js_number) \<Rightarrow> json \<Rightarrow> (string, (string, int) js_map) js_map \<Rightarrow> (string, (string, int) js_map) js_map" where
  "normalizeProviderWindowDefaults num_of nxt fb =
     provider_window_loop num_of (asRecord (json_or nxt (windows_json fb))) []"

definition normalizeQuotaPreflightSettings ::
  "(json \<Rightarrow> js_number) \<Rightarrow> json \<Rightarrow> QuotaPreflightSettings \<Rightarrow> QuotaPreflightSettings" where
  "normalizeQuotaPreflightSettings num_of nxt fb =
     (let record' = asRecord nxt;
          cutoff = toInteger num_of (field record' ''defaultThresholdPercent'') (qpDefaultThresholdPercent fb) 0 99;
          warnRaw = toInteger num_of (field record' ''warnThresholdPercent'') (qpWarnThresholdPercent fb) 0 100
      in \<lparr>qpEnabled = toBoolean (field record' ''enabled'') (qpEnabled fb),
          qpDefaultThresholdPercent = cutoff,
          qpWarnThresholdPercent = (if warnRaw \<le> cutoff then min 100 (cutoff + 1) else warnRaw),
          qpProviderWindowDefaults =
            normalizeProviderWindowDefaults num_of (field record' ''providerWindowDefaults'') (qpProviderWindowDefaults fb)\<rparr>)"

definition normalizeWaitForCooldownSettings ::
  "(json \<Rightarrow> js_number) \<Rightarrow> json \<Rightarrow> WaitForCooldownSettings \<Rightarrow> WaitForCooldownSettings" where
  "normalizeWaitForCooldownSettings num_of nxt fb =
     (let record' = asRecord nxt;
          maxRetryWaitSec = toInteger num_of (field record' ''maxRetryWaitSec'') (wcMaxRetryWaitSec fb) 0 300;
          maxRetries = toInteger num_of (field record' ''maxRetries'') (wcMaxRetries fb) 0 10;
          maxRetryWaitMs = maxRetryWaitSec * 1000;
          budgetMs = toInteger num_of (field record' ''budgetMs'') (wcBudgetMs fb) maxRetryWaitMs 300000
      in \<lparr>wcEnabled = (toBoolean (field record' ''enabled'') (wcEnabled fb) \<and> maxRetries > 0 \<and> maxRetryWaitSec > 0),
          wcMaxRetries = maxRetries, wcMaxRetryWaitSec = maxRetryWaitSec, wcMaxRetryWaitMs = maxRetryWaitMs,
          wcBudgetMs = budgetMs\<rparr>)"

definition normalizeComboCooldownWaitSettings ::
  "(json \<Rightarrow> js_number) \<Rightarrow> json \<Rightarrow> ComboCooldownWaitSettings \<Rightarrow> ComboCooldownWaitSettings" where
  "normalizeComboCooldownWaitSettings num_of nxt fb =
     (let record' = asRecord nxt;
          maxWaitMs = toInteger num_of (field record' ''maxWaitMs'') (cwMaxWaitMs fb) 0 300000;
          maxAttempts = toInteger num_of (field record' ''maxAttempts'') (cwMaxAttempts fb) 0 10;
          budgetMs = toInteger num_of (field record' ''budgetMs'') (cwBudgetMs fb) maxWaitMs 300000
      in \<lparr>cwEnabled = (toBoolean (field record' ''enabled'') (cwEnabled fb) \<and> maxWaitMs > 0 \<and> maxAttempts > 0),
          cwMaxWaitMs = maxWaitMs, cwMaxAttempts = maxAttempts, cwBudgetMs = budgetMs\<rparr>)"

definition normalizeQuotaShareConcurrencyLimitSettings :: "json \<Rightarrow> bool \<Rightarrow> bool" where
  "normalizeQuotaShareConcurrencyLimitSettings nxt fb = toBoolean (field (asRecord nxt) ''enabled'') fb"

definition normalizeProviderCooldownSettings ::
  "(json \<Rightarrow> js_number) \<Rightarrow> json \<Rightarrow> ProviderCooldownSettings \<Rightarrow> ProviderCooldownSettings" where
  "normalizeProviderCooldownSettings num_of nxt fb =
     (let record' = asRecord nxt;
          minMs = toInteger num_of (field record' ''minRetryCooldownMs'') (pcMinRetryCooldownMs fb) 0 3600000
      in \<lparr>pcEnabled = toBoolean (field record' ''enabled'') (pcEnabled fb), pcMinRetryCooldownMs = minMs,
          pcMaxRetryCooldownMs = toInteger num_of (field record' ''maxRetryCooldownMs'') (pcMaxRetryCooldownMs fb) minMs 86400000\<rparr>)"

definition normalizeStreamRecoverySettings ::
  "(json \<Rightarrow> js_number) \<Rightarrow> json \<Rightarrow> StreamRecoverySettings \<Rightarrow> StreamRecoverySettings" where
  "normalizeStreamRecoverySettings num_of nxt fb =
     (let record' = asRecord nxt;
          watchdog = asRecord (field record' ''throughputWatchdog'');
          w = srThroughputWatchdog fb
      in \<lparr>srEnabled = toBoolean (field record' ''enabled'') (srEnabled fb),
          srContinueMidStream = toBoolean (field record' ''continueMidStream'') (srContinueMidStream fb),
          srThroughputWatchdog =
            \<lparr>twEnabled = toBoolean (field watchdog ''enabled'') (twEnabled w),
             twWarmupMs = toInteger num_of (field watchdog ''warmupMs'') (twWarmupMs w) 0 600000,
             twWindowMs = toInteger num_of (field watchdog ''windowMs'') (twWindowMs w) 1000 600000,
             twMinUsefulBytesPerSecond =
               toInteger num_of (field watchdog ''minUsefulBytesPerSecond'') (twMinUsefulBytesPerSecond w) 1 1000000,
             twMinUsefulBytes = toInteger num_of (field watchdog ''minUsefulBytes'') (twMinUsefulBytes w) 1 1000000\<rparr>\<rparr>)"

text \<open>\<open>typeof v === "number" ? v : Number(v)\<close>\<close>

definition as_number :: "(json \<Rightarrow> js_number) \<Rightarrow> json \<Rightarrow> js_number" where
  "as_number num_of v =
     (case v of
        J_num n \<Rightarrow> n
      | J_undefined \<Rightarrow> NaN
      | J_null \<Rightarrow> Finite 0
      | J_bool b \<Rightarrow> Finite (if b then 1 else 0)
      | _ \<Rightarrow> num_of v)"

definition positive_int :: "js_number \<Rightarrow> int option" where
  "positive_int n = (case n of Finite r \<Rightarrow> if r > 0 then Some (js_trunc r) else None | _ \<Rightarrow> None)"

definition natural_int :: "js_number \<Rightarrow> int option" where
  "natural_int n = (case n of Finite r \<Rightarrow> if r \<ge> 0 then Some (js_trunc r) else None | _ \<Rightarrow> None)"

definition normalizeProviderQuotaOverrideEntry ::
  "(json \<Rightarrow> js_number) \<Rightarrow> json \<Rightarrow> ProviderQuotaOverrideSettings option" where
  "normalizeProviderQuotaOverrideEntry num_of raw =
     (case raw of
        J_object record' \<Rightarrow>
          (let rpm = positive_int (as_number num_of (field record' ''rpm''));
               concurrency = positive_int (as_number num_of (field record' ''concurrency''));
               providerConcurrency = natural_int (as_number num_of (field record' ''providerConcurrency''))
           in if rpm = None \<and> concurrency = None \<and> providerConcurrency = None then None
              else Some \<lparr>poRpm = rpm, poConcurrency = concurrency, poProviderConcurrency = providerConcurrency\<rparr>)
      | _ \<Rightarrow> None)"

definition optional_field :: "string \<Rightarrow> int option \<Rightarrow> (string \<times> json) list" where
  "optional_field k n = (case n of Some n \<Rightarrow> [(k, J_num (Finite (of_int n)))] | None \<Rightarrow> [])"

definition override_json :: "ProviderQuotaOverrideSettings \<Rightarrow> json" where
  "override_json p =
     J_object (optional_field ''rpm'' (poRpm p) @ optional_field ''concurrency'' (poConcurrency p)
       @ optional_field ''providerConcurrency'' (poProviderConcurrency p))"

fun override_loop ::
  "(json \<Rightarrow> js_number) \<Rightarrow> (string \<times> json) list \<Rightarrow> (string, ProviderQuotaOverrideSettings) js_map
     \<Rightarrow> (string, ProviderQuotaOverrideSettings) js_map" where
  "override_loop num_of [] out = out"
| "override_loop num_of ((provider, entry) # ps) out =
     (if provider = [] then override_loop num_of ps out
      else
        (case normalizeProviderQuotaOverrideEntry num_of entry of
           Some n \<Rightarrow> override_loop num_of ps (js_set provider n out)
         | None \<Rightarrow> override_loop num_of ps out))"

definition normalizeProviderQuotaOverrides ::
  "(json \<Rightarrow> js_number) \<Rightarrow> json \<Rightarrow> (string, ProviderQuotaOverrideSettings) js_map
     \<Rightarrow> (string, ProviderQuotaOverrideSettings) js_map" where
  "normalizeProviderQuotaOverrides num_of nxt fb =
     override_loop num_of (asRecord (json_or nxt (J_object (map (\<lambda>(p, o'). (p, override_json o')) fb)))) []"


section \<open>Resolving and merging\<close>

definition buildLegacyFallback :: "(json \<Rightarrow> js_number) \<Rightarrow> environment \<Rightarrow> JsonRecord \<Rightarrow> ResilienceSettings" where
  "buildLegacyFallback num_of env settings =
     (let profiles = asRecord (field settings ''providerProfiles'');
          defaults = asRecord (field settings ''rateLimitDefaults'');
          oauthLegacy = asRecord (field profiles ''oauth'');
          apikeyLegacy = asRecord (field profiles ''apikey'');
          D = DEFAULT_RESILIENCE_SETTINGS env;
          waitMaxRetrySec = toInteger num_of (field settings ''maxRetryIntervalSec'') (wcMaxRetryWaitSec (rsWaitForCooldown D)) 0 300;
          waitMaxRetries = toInteger num_of (field settings ''requestRetry'') (wcMaxRetries (rsWaitForCooldown D)) 0 10
      in \<lparr>rsRequestQueue =
            \<lparr>qsAutoEnableApiKeyProviders = qsAutoEnableApiKeyProviders (rsRequestQueue D),
             qsRequestsPerMinute = toInteger num_of (field defaults ''requestsPerMinute'') (qsRequestsPerMinute (rsRequestQueue D)) 1 1000000,
             qsMinTimeBetweenRequestsMs = toInteger num_of (field defaults ''minTimeBetweenRequests'') (qsMinTimeBetweenRequestsMs (rsRequestQueue D)) 0 3600000,
             qsConcurrentRequests = toInteger num_of (field defaults ''concurrentRequests'') (qsConcurrentRequests (rsRequestQueue D)) 1 10000,
             qsGlobalConcurrentRequests = qsGlobalConcurrentRequests (rsRequestQueue D),
             qsMaxWaitMs = qsMaxWaitMs (rsRequestQueue D),
             qsMaxQueueDepth = qsMaxQueueDepth (rsRequestQueue D)\<rparr>,
          rsCooldownOauth = normalizeLegacyConnectionCooldownProfile num_of oauthLegacy (rsCooldownOauth D),
          rsCooldownApikey = normalizeLegacyConnectionCooldownProfile num_of apikeyLegacy (rsCooldownApikey D),
          rsBreakerOauth =
            \<lparr>pbFailureThreshold = toInteger num_of (field oauthLegacy ''circuitBreakerThreshold'') (pbFailureThreshold (rsBreakerOauth D)) 1 1000,
             pbDegradationThreshold = pbDegradationThreshold (rsBreakerOauth D),
             pbResetTimeoutMs = toInteger num_of (field oauthLegacy ''circuitBreakerReset'') (pbResetTimeoutMs (rsBreakerOauth D)) 1000 86400000\<rparr>,
          rsBreakerApikey =
            \<lparr>pbFailureThreshold = toInteger num_of (field apikeyLegacy ''circuitBreakerThreshold'') (pbFailureThreshold (rsBreakerApikey D)) 1 1000,
             pbDegradationThreshold = pbDegradationThreshold (rsBreakerApikey D),
             pbResetTimeoutMs = toInteger num_of (field apikeyLegacy ''circuitBreakerReset'') (pbResetTimeoutMs (rsBreakerApikey D)) 1000 86400000\<rparr>,
          rsWaitForCooldown =
            \<lparr>wcEnabled = (waitMaxRetries > 0 \<and> waitMaxRetrySec > 0), wcMaxRetries = waitMaxRetries,
             wcMaxRetryWaitSec = waitMaxRetrySec, wcMaxRetryWaitMs = waitMaxRetrySec * 1000,
             wcBudgetMs = max (waitMaxRetrySec * 1000) (wcBudgetMs (rsWaitForCooldown D))\<rparr>,
          rsComboCooldownWait = rsComboCooldownWait D,
          rsQuotaShareConcurrencyLimit = rsQuotaShareConcurrencyLimit D,
          rsProviderCooldown = rsProviderCooldown D,
          rsQuotaPreflight = rsQuotaPreflight D,
          rsStreamRecovery = resolveStreamRecoveryDefaults num_of env,
          rsProviderQuotaOverrides = rsProviderQuotaOverrides D\<rparr>)"

text \<open>
  The normalisation of every section of \<open>current\<close> against a fallback; \<open>resolveResilienceSettings\<close>
  and \<open>mergeResilienceSettings\<close> write out the same calls.
\<close>

definition normalize_sections :: "(json \<Rightarrow> js_number) \<Rightarrow> JsonRecord \<Rightarrow> ResilienceSettings \<Rightarrow> ResilienceSettings" where
  "normalize_sections num_of current fb =
     \<lparr>rsRequestQueue = normalizeRequestQueueSettings num_of (field current ''requestQueue'') (rsRequestQueue fb),
      rsCooldownOauth = normalizeConnectionCooldownProfile num_of
        (field (asRecord (field current ''connectionCooldown'')) ''oauth'') (rsCooldownOauth fb),
      rsCooldownApikey = normalizeConnectionCooldownProfile num_of
        (field (asRecord (field current ''connectionCooldown'')) ''apikey'') (rsCooldownApikey fb),
      rsBreakerOauth = normalizeProviderBreakerProfile num_of
        (field (asRecord (field current ''providerBreaker'')) ''oauth'') (rsBreakerOauth fb),
      rsBreakerApikey = normalizeProviderBreakerProfile num_of
        (field (asRecord (field current ''providerBreaker'')) ''apikey'') (rsBreakerApikey fb),
      rsWaitForCooldown = normalizeWaitForCooldownSettings num_of (field current ''waitForCooldown'') (rsWaitForCooldown fb),
      rsComboCooldownWait = normalizeComboCooldownWaitSettings num_of (field current ''comboCooldownWait'') (rsComboCooldownWait fb),
      rsQuotaShareConcurrencyLimit = normalizeQuotaShareConcurrencyLimitSettings
        (field current ''quotaShareConcurrencyLimit'') (rsQuotaShareConcurrencyLimit fb),
      rsProviderCooldown = normalizeProviderCooldownSettings num_of (field current ''providerCooldown'') (rsProviderCooldown fb),
      rsQuotaPreflight = normalizeQuotaPreflightSettings num_of (field current ''quotaPreflight'') (rsQuotaPreflight fb),
      rsStreamRecovery = normalizeStreamRecoverySettings num_of (field current ''streamRecovery'') (rsStreamRecovery fb),
      rsProviderQuotaOverrides = normalizeProviderQuotaOverrides num_of
        (field current ''providerQuotaOverrides'') (rsProviderQuotaOverrides fb)\<rparr>"

definition resolveResilienceSettings :: "(json \<Rightarrow> js_number) \<Rightarrow> environment \<Rightarrow> json \<Rightarrow> ResilienceSettings" where
  "resolveResilienceSettings num_of env settings =
     (let record' = asRecord settings;
          current = asRecord (field record' ''resilienceSettings'')
      in normalize_sections num_of current (buildLegacyFallback num_of env record'))"

definition mergeResilienceSettings :: "(json \<Rightarrow> js_number) \<Rightarrow> ResilienceSettings \<Rightarrow> JsonRecord \<Rightarrow> ResilienceSettings" where
  "mergeResilienceSettings num_of current updates = normalize_sections num_of updates current"

definition isStreamRecoveryExplicitlyConfigured :: "environment \<Rightarrow> json \<Rightarrow> bool" where
  "isStreamRecoveryExplicitlyConfigured env settings =
     (let record' = asRecord settings;
          current = asRecord (field record' ''resilienceSettings'');
          streamRecoveryRecord = asRecord (field current ''streamRecovery'')
      in (case field streamRecoveryRecord ''enabled'' of
            J_bool _ \<Rightarrow> True
          | _ \<Rightarrow> length (js_trim (case envVar env ''STREAM_RECOVERY_ENABLED'' of Some v \<Rightarrow> v | None \<Rightarrow> [])) > 0))"

text \<open>The profiles and limits that old clients read.\<close>

record legacy_profile =
  lpTransientCooldown :: int
  lpRateLimitCooldown :: int
  lpMaxBackoffLevel :: int
  lpCircuitBreakerThreshold :: int
  lpDegradationThreshold :: int
  lpCircuitBreakerReset :: int

record legacy_compat =
  lcOauth :: legacy_profile
  lcApikey :: legacy_profile
  lcRequestsPerMinute :: int
  lcMinTimeBetweenRequests :: int
  lcConcurrentRequests :: int

definition legacy_profile_of :: "ConnectionCooldownProfileSettings \<Rightarrow> ProviderBreakerProfileSettings \<Rightarrow> legacy_profile" where
  "legacy_profile_of c b =
     \<lparr>lpTransientCooldown = ccBaseCooldownMs c,
      lpRateLimitCooldown = (if ccUseUpstreamRetryHints c then 0 else ccBaseCooldownMs c),
      lpMaxBackoffLevel = ccMaxBackoffSteps c, lpCircuitBreakerThreshold = pbFailureThreshold b,
      lpDegradationThreshold = pbDegradationThreshold b, lpCircuitBreakerReset = pbResetTimeoutMs b\<rparr>"

definition buildLegacyResilienceCompat :: "ResilienceSettings \<Rightarrow> legacy_compat" where
  "buildLegacyResilienceCompat s =
     \<lparr>lcOauth = legacy_profile_of (rsCooldownOauth s) (rsBreakerOauth s),
      lcApikey = legacy_profile_of (rsCooldownApikey s) (rsBreakerApikey s),
      lcRequestsPerMinute = qsRequestsPerMinute (rsRequestQueue s),
      lcMinTimeBetweenRequests = qsMinTimeBetweenRequestsMs (rsRequestQueue s),
      lcConcurrentRequests = qsConcurrentRequests (rsRequestQueue s)\<rparr>"

section \<open>Ranges\<close>

named_theorems settings_ranges \<open>what each normaliser guarantees of its section\<close>

lemma toInteger_lower: "m \<le> lo \<Longrightarrow> m \<le> hi \<Longrightarrow> m \<le> fb \<Longrightarrow> m \<le> toInteger num_of v fb lo hi"
  by (auto simp: toInteger_def split: js_number.splits)

lemma toInteger_upper: "fb \<le> hi \<Longrightarrow> toInteger num_of v fb lo hi \<le> hi"
  by (auto simp: toInteger_def split: js_number.splits)

lemmas toInteger_range = toInteger_lower toInteger_upper order_trans [OF toInteger_upper]

definition queue_settings_ok :: "RequestQueueSettings \<Rightarrow> bool" where
  "queue_settings_ok q \<longleftrightarrow>
     1 \<le> qsRequestsPerMinute q \<and> qsRequestsPerMinute q \<le> 1000000 \<and>
     0 \<le> qsMinTimeBetweenRequestsMs q \<and> qsMinTimeBetweenRequestsMs q \<le> 3600000 \<and>
     1 \<le> qsConcurrentRequests q \<and> qsConcurrentRequests q \<le> 10000 \<and>
     0 \<le> qsGlobalConcurrentRequests q \<and> qsGlobalConcurrentRequests q \<le> 100000 \<and>
     1 \<le> qsMaxWaitMs q \<and> qsMaxWaitMs q \<le> 86400000 \<and>
     0 \<le> qsMaxQueueDepth q \<and> qsMaxQueueDepth q \<le> 100000"

definition cooldown_ok :: "ConnectionCooldownProfileSettings \<Rightarrow> bool" where
  "cooldown_ok c \<longleftrightarrow>
     0 \<le> ccBaseCooldownMs c \<and> ccBaseCooldownMs c \<le> 86400000 \<and>
     0 \<le> ccMaxBackoffSteps c \<and> ccMaxBackoffSteps c \<le> 32"

text \<open>A breaker before its two thresholds are put in order, and after.\<close>

definition breaker_ranges :: "ProviderBreakerProfileSettings \<Rightarrow> bool" where
  "breaker_ranges b \<longleftrightarrow>
     1 \<le> pbFailureThreshold b \<and> pbFailureThreshold b \<le> 1000 \<and>
     1 \<le> pbDegradationThreshold b \<and> pbDegradationThreshold b \<le> 1000 \<and>
     1000 \<le> pbResetTimeoutMs b \<and> pbResetTimeoutMs b \<le> 86400000"

definition breaker_settings_ok :: "ProviderBreakerProfileSettings \<Rightarrow> bool" where
  "breaker_settings_ok b \<longleftrightarrow> breaker_ranges b \<and>
     pbDegradationThreshold b \<le> max 1 (pbFailureThreshold b - 1)"

definition wait_ok :: "WaitForCooldownSettings \<Rightarrow> bool" where
  "wait_ok w \<longleftrightarrow>
     0 \<le> wcMaxRetries w \<and> wcMaxRetries w \<le> 10 \<and>
     0 \<le> wcMaxRetryWaitSec w \<and> wcMaxRetryWaitSec w \<le> 300 \<and>
     wcMaxRetryWaitMs w = wcMaxRetryWaitSec w * 1000 \<and>
     0 \<le> wcBudgetMs w \<and> wcBudgetMs w \<le> 300000 \<and>
     \<not> (wcEnabled w \<and> (wcMaxRetries w = 0 \<or> wcMaxRetryWaitSec w = 0))"

definition combo_wait_ok :: "ComboCooldownWaitSettings \<Rightarrow> bool" where
  "combo_wait_ok w \<longleftrightarrow>
     0 \<le> cwMaxWaitMs w \<and> cwMaxWaitMs w \<le> 300000 \<and>
     0 \<le> cwMaxAttempts w \<and> cwMaxAttempts w \<le> 10 \<and>
     0 \<le> cwBudgetMs w \<and> cwBudgetMs w \<le> 300000 \<and>
     \<not> (cwEnabled w \<and> (cwMaxWaitMs w = 0 \<or> cwMaxAttempts w = 0))"

definition provider_cooldown_ok :: "ProviderCooldownSettings \<Rightarrow> bool" where
  "provider_cooldown_ok p \<longleftrightarrow>
     0 \<le> pcMinRetryCooldownMs p \<and> pcMinRetryCooldownMs p \<le> 3600000 \<and>
     0 \<le> pcMaxRetryCooldownMs p \<and> pcMaxRetryCooldownMs p \<le> 86400000"

text \<open>The maps of an operator: proper keys, and values in range.\<close>

definition windows_ok :: "(string, int) js_map \<Rightarrow> bool" where
  "windows_ok ws \<longleftrightarrow> ws \<noteq> [] \<and> js_map_ok ws \<and>
     list_all (\<lambda>(w, n). w \<noteq> [] \<and> 0 \<le> n \<and> n \<le> 100) ws"

definition window_defaults_ok :: "(string, (string, int) js_map) js_map \<Rightarrow> bool" where
  "window_defaults_ok m \<longleftrightarrow> js_map_ok m \<and> list_all (\<lambda>(p, ws). p \<noteq> [] \<and> windows_ok ws) m"

definition preflight_ok :: "QuotaPreflightSettings \<Rightarrow> bool" where
  "preflight_ok q \<longleftrightarrow>
     0 \<le> qpDefaultThresholdPercent q \<and> qpDefaultThresholdPercent q \<le> 99 \<and>
     qpDefaultThresholdPercent q < qpWarnThresholdPercent q \<and> qpWarnThresholdPercent q \<le> 100 \<and>
     window_defaults_ok (qpProviderWindowDefaults q)"

definition watchdog_ok :: "StreamThroughputWatchdogSettings \<Rightarrow> bool" where
  "watchdog_ok w \<longleftrightarrow>
     0 \<le> twWarmupMs w \<and> twWarmupMs w \<le> 600000 \<and>
     1000 \<le> twWindowMs w \<and> twWindowMs w \<le> 600000 \<and>
     1 \<le> twMinUsefulBytesPerSecond w \<and> twMinUsefulBytesPerSecond w \<le> 1000000 \<and>
     1 \<le> twMinUsefulBytes w \<and> twMinUsefulBytes w \<le> 1000000"

definition override_ok :: "ProviderQuotaOverrideSettings \<Rightarrow> bool" where
  "override_ok p \<longleftrightarrow>
     \<not> (poRpm p = None \<and> poConcurrency p = None \<and> poProviderConcurrency p = None) \<and>
     pred_option (\<lambda>n. 0 \<le> n) (poRpm p) \<and> pred_option (\<lambda>n. 0 \<le> n) (poConcurrency p) \<and>
     pred_option (\<lambda>n. 0 \<le> n) (poProviderConcurrency p)"

definition overrides_ok :: "(string, ProviderQuotaOverrideSettings) js_map \<Rightarrow> bool" where
  "overrides_ok m \<longleftrightarrow> js_map_ok m \<and> list_all (\<lambda>(p, o'). p \<noteq> [] \<and> override_ok o') m"

definition settings_ok :: "ResilienceSettings \<Rightarrow> bool" where
  "settings_ok s \<longleftrightarrow>
     queue_settings_ok (rsRequestQueue s) \<and> cooldown_ok (rsCooldownOauth s) \<and> cooldown_ok (rsCooldownApikey s) \<and>
     breaker_settings_ok (rsBreakerOauth s) \<and> breaker_settings_ok (rsBreakerApikey s) \<and> wait_ok (rsWaitForCooldown s) \<and>
     combo_wait_ok (rsComboCooldownWait s) \<and> provider_cooldown_ok (rsProviderCooldown s) \<and>
     preflight_ok (rsQuotaPreflight s) \<and> watchdog_ok (srThroughputWatchdog (rsStreamRecovery s)) \<and>
     overrides_ok (rsProviderQuotaOverrides s)"

text \<open>What the process environment must not say for the defaults to be in range themselves.\<close>

definition env_ok :: "environment \<Rightarrow> bool" where
  "env_ok env \<longleftrightarrow>
     1 \<le> DEFAULT_REQUEST_QUEUE_MAX_WAIT_MS env \<and> DEFAULT_REQUEST_QUEUE_MAX_WAIT_MS env \<le> 86400000 \<and>
     DEFAULT_REQUEST_QUEUE_MAX_DEPTH env \<le> 100000 \<and>
     breaker_ranges (rsBreakerOauth (DEFAULT_RESILIENCE_SETTINGS env)) \<and>
     breaker_ranges (rsBreakerApikey (DEFAULT_RESILIENCE_SETTINGS env)) \<and>
     provider_cooldown_ok (rsProviderCooldown (DEFAULT_RESILIENCE_SETTINGS env))"


subsection \<open>Every normaliser establishes its section's ranges\<close>

lemma queue_ok_normalize [settings_ranges]:
  "queue_settings_ok fb \<Longrightarrow> queue_settings_ok (normalizeRequestQueueSettings num_of v fb)"
  by (simp add: queue_settings_ok_def normalizeRequestQueueSettings_def Let_def toInteger_range)

lemma cooldown_ok_normalize [settings_ranges]:
  "cooldown_ok fb \<Longrightarrow> cooldown_ok (normalizeConnectionCooldownProfile num_of v fb)"
  by (simp add: cooldown_ok_def normalizeConnectionCooldownProfile_def Let_def toInteger_range)

lemma cooldown_ok_legacy [settings_ranges]:
  "cooldown_ok fb \<Longrightarrow> cooldown_ok (normalizeLegacyConnectionCooldownProfile num_of r fb)"
  by (simp add: cooldown_ok_def normalizeLegacyConnectionCooldownProfile_def Let_def toInteger_range
      le_max_iff_disj)

lemma breaker_ok_normalize [settings_ranges]:
  "breaker_ranges fb \<Longrightarrow> breaker_settings_ok (normalizeProviderBreakerProfile num_of v fb)"
  by (simp add: breaker_settings_ok_def breaker_ranges_def normalizeProviderBreakerProfile_def Let_def
      toInteger_range min.coboundedI1 min_less_iff_disj)

lemma breaker_ok_ranges [settings_ranges]: "breaker_settings_ok b \<Longrightarrow> breaker_ranges b"
  by (simp add: breaker_settings_ok_def)

lemma wait_ok_normalize [settings_ranges]:
  "wait_ok fb \<Longrightarrow> wait_ok (normalizeWaitForCooldownSettings num_of v fb)"
  by (auto simp: wait_ok_def normalizeWaitForCooldownSettings_def Let_def toInteger_range)

lemma combo_wait_ok_normalize [settings_ranges]:
  "combo_wait_ok fb \<Longrightarrow> combo_wait_ok (normalizeComboCooldownWaitSettings num_of v fb)"
  by (auto simp: combo_wait_ok_def normalizeComboCooldownWaitSettings_def Let_def toInteger_range)

lemma provider_cooldown_ok_normalize [settings_ranges]:
  "provider_cooldown_ok fb \<Longrightarrow> provider_cooldown_ok (normalizeProviderCooldownSettings num_of v fb)"
  by (auto simp: provider_cooldown_ok_def normalizeProviderCooldownSettings_def Let_def toInteger_range)

subsection \<open>The two maps\<close>

lemma window_loop_ok:
  assumes "js_map_ok acc" "list_all (\<lambda>(w, n). w \<noteq> [] \<and> 0 \<le> n \<and> n \<le> 100) acc"
  shows "window_loop num_of es acc = [] \<or> windows_ok (window_loop num_of es acc)"
  using assms
  by (induction num_of es acc rule: window_loop.induct)
     (simp_all add: windows_ok_def list_all_js_set split: js_number.split)

lemma provider_window_loop_ok:
  "window_defaults_ok out \<Longrightarrow> window_defaults_ok (provider_window_loop num_of ps out)"
proof (induction ps arbitrary: out)
  case (Cons pv ps)
  obtain p v where pv: "pv = (p, v)" by (cases pv)
  have set: "window_defaults_ok (js_set p ws out)" if "p \<noteq> []" "windows_ok ws" for ws
    using Cons.prems that by (simp add: window_defaults_ok_def list_all_js_set)
  show ?case
  proof (cases "object_entries v")
    case None
    then show ?thesis using Cons by (simp add: pv)
  next
    case (Some es)
    with Cons set window_loop_ok [of "[]" num_of es] show ?thesis
      by (auto simp: pv Let_def)
  qed
qed simp

lemma preflight_ok_normalize [settings_ranges]:
  "preflight_ok fb \<Longrightarrow> preflight_ok (normalizeQuotaPreflightSettings num_of v fb)"
  by (simp add: preflight_ok_def normalizeQuotaPreflightSettings_def normalizeProviderWindowDefaults_def
      Let_def toInteger_range provider_window_loop_ok window_defaults_ok_def [of "[]"] min_def
      order_le_less_trans [OF toInteger_upper])

lemma watchdog_ok_normalize [settings_ranges]:
  "watchdog_ok (srThroughputWatchdog fb)
     \<Longrightarrow> watchdog_ok (srThroughputWatchdog (normalizeStreamRecoverySettings num_of v fb))"
  by (simp add: watchdog_ok_def normalizeStreamRecoverySettings_def Let_def toInteger_range)

lemma override_ok_entry: "normalizeProviderQuotaOverrideEntry num_of v = Some p \<Longrightarrow> override_ok p"
  by (auto simp: normalizeProviderQuotaOverrideEntry_def override_ok_def positive_int_def natural_int_def
      js_trunc_def Let_def split: json.splits if_splits js_number.splits)

lemma override_loop_ok: "overrides_ok out \<Longrightarrow> overrides_ok (override_loop num_of ps out)"
proof (induction ps arbitrary: out)
  case (Cons pv ps)
  obtain p v where pv: "pv = (p, v)" by (cases pv)
  have "overrides_ok (js_set p q out)" if "p \<noteq> []" "override_ok q" for q
    using Cons.prems that by (simp add: overrides_ok_def list_all_js_set)
  with Cons override_ok_entry [of num_of v] show ?case
    by (auto simp: pv split: option.split)
qed simp

lemma overrides_ok_normalize [settings_ranges]: "overrides_ok (normalizeProviderQuotaOverrides num_of v fb)"
  by (simp add: normalizeProviderQuotaOverrides_def override_loop_ok overrides_ok_def [of "[]"])


subsection \<open>Settings\<close>

text \<open>What the normalisation asks of the fallback: the two breaker thresholds need not be in order.\<close>

definition fallback_ok :: "ResilienceSettings \<Rightarrow> bool" where
  "fallback_ok s \<longleftrightarrow>
     queue_settings_ok (rsRequestQueue s) \<and> cooldown_ok (rsCooldownOauth s) \<and> cooldown_ok (rsCooldownApikey s) \<and>
     breaker_ranges (rsBreakerOauth s) \<and> breaker_ranges (rsBreakerApikey s) \<and> wait_ok (rsWaitForCooldown s) \<and>
     combo_wait_ok (rsComboCooldownWait s) \<and> provider_cooldown_ok (rsProviderCooldown s) \<and>
     preflight_ok (rsQuotaPreflight s) \<and> watchdog_ok (srThroughputWatchdog (rsStreamRecovery s))"

lemma settings_ok_fallback: "settings_ok s \<Longrightarrow> fallback_ok s"
  by (simp add: settings_ok_def fallback_ok_def settings_ranges)

lemma settings_ok_sections: "fallback_ok fb \<Longrightarrow> settings_ok (normalize_sections num_of current fb)"
  by (simp add: fallback_ok_def settings_ok_def normalize_sections_def settings_ranges)

lemma fallback_ok_legacy:
  assumes "env_ok env"
  shows "fallback_ok (buildLegacyFallback num_of env r)"
proof -
  have queue: "queue_settings_ok (rsRequestQueue (buildLegacyFallback num_of env r))"
    using assms
    by (simp add: env_ok_def queue_settings_ok_def buildLegacyFallback_def DEFAULT_RESILIENCE_SETTINGS_def Let_def
        toInteger_range DEFAULT_REQUEST_QUEUE_MAX_DEPTH_def js_trunc_def split: js_number.splits)
  have breakers: "breaker_ranges (rsBreakerOauth (buildLegacyFallback num_of env r))"
    "breaker_ranges (rsBreakerApikey (buildLegacyFallback num_of env r))"
    using assms
    by (simp_all add: env_ok_def breaker_ranges_def buildLegacyFallback_def DEFAULT_RESILIENCE_SETTINGS_def
        Let_def toInteger_range)
  have cooldown: "provider_cooldown_ok (rsProviderCooldown (buildLegacyFallback num_of env r))"
    using assms by (simp add: env_ok_def buildLegacyFallback_def Let_def)
  have profiles: "cooldown_ok (rsCooldownOauth (DEFAULT_RESILIENCE_SETTINGS env))"
    "cooldown_ok (rsCooldownApikey (DEFAULT_RESILIENCE_SETTINGS env))"
    by (simp_all add: cooldown_ok_def DEFAULT_RESILIENCE_SETTINGS_def)
  have wait: "wait_ok (rsWaitForCooldown (buildLegacyFallback num_of env r))"
    by (simp add: wait_ok_def buildLegacyFallback_def DEFAULT_RESILIENCE_SETTINGS_def Let_def toInteger_range
        le_max_iff_disj)
  have rest: "combo_wait_ok (rsComboCooldownWait (buildLegacyFallback num_of env r))"
    "preflight_ok (rsQuotaPreflight (buildLegacyFallback num_of env r))"
    "watchdog_ok (srThroughputWatchdog (rsStreamRecovery (buildLegacyFallback num_of env r)))"
    by (simp_all add: combo_wait_ok_def preflight_ok_def window_defaults_ok_def watchdog_ok_def
        resolveStreamRecoveryDefaults_def buildLegacyFallback_def DEFAULT_RESILIENCE_SETTINGS_def Let_def
        toInteger_range)
  show ?thesis
    using queue breakers cooldown profiles wait rest
    by (simp add: fallback_ok_def buildLegacyFallback_def Let_def cooldown_ok_legacy)
qed

lemma settings_ok_resolve: "env_ok env \<Longrightarrow> settings_ok (resolveResilienceSettings num_of env stored)"
  by (simp add: resolveResilienceSettings_def Let_def settings_ok_sections fallback_ok_legacy)

lemma settings_ok_merge: "settings_ok s \<Longrightarrow> settings_ok (mergeResilienceSettings num_of s patch)"
  by (simp add: mergeResilienceSettings_def settings_ok_sections settings_ok_fallback)


section \<open>Storing settings and reading them back\<close>

text \<open>
  The value that is saved under \<open>resilienceSettings\<close>: the settings object itself, a hint that is not
  set being absent.
\<close>

abbreviation int_json :: "int \<Rightarrow> json" where
  "int_json n \<equiv> J_num (Finite (of_int n))"

definition queue_json :: "RequestQueueSettings \<Rightarrow> json" where
  "queue_json q = J_object
     [(''autoEnableApiKeyProviders'', J_bool (qsAutoEnableApiKeyProviders q)),
      (''requestsPerMinute'', int_json (qsRequestsPerMinute q)),
      (''minTimeBetweenRequestsMs'', int_json (qsMinTimeBetweenRequestsMs q)),
      (''concurrentRequests'', int_json (qsConcurrentRequests q)),
      (''globalConcurrentRequests'', int_json (qsGlobalConcurrentRequests q)),
      (''maxWaitMs'', int_json (qsMaxWaitMs q)),
      (''maxQueueDepth'', int_json (qsMaxQueueDepth q))]"

definition cooldown_json :: "ConnectionCooldownProfileSettings \<Rightarrow> json" where
  "cooldown_json c = J_object
     ([(''baseCooldownMs'', int_json (ccBaseCooldownMs c)),
       (''useUpstreamRetryHints'', J_bool (ccUseUpstreamRetryHints c)),
       (''maxBackoffSteps'', int_json (ccMaxBackoffSteps c))]
      @ (case ccUseUpstream429BreakerHints c of Some b \<Rightarrow> [(''useUpstream429BreakerHints'', J_bool b)] | None \<Rightarrow> []))"

definition breaker_json :: "ProviderBreakerProfileSettings \<Rightarrow> json" where
  "breaker_json b = J_object
     [(''failureThreshold'', int_json (pbFailureThreshold b)),
      (''degradationThreshold'', int_json (pbDegradationThreshold b)),
      (''resetTimeoutMs'', int_json (pbResetTimeoutMs b))]"

definition wait_json :: "WaitForCooldownSettings \<Rightarrow> json" where
  "wait_json w = J_object
     [(''enabled'', J_bool (wcEnabled w)), (''maxRetries'', int_json (wcMaxRetries w)),
      (''maxRetryWaitSec'', int_json (wcMaxRetryWaitSec w)),
      (''maxRetryWaitMs'', int_json (wcMaxRetryWaitMs w)), (''budgetMs'', int_json (wcBudgetMs w))]"

definition combo_wait_json :: "ComboCooldownWaitSettings \<Rightarrow> json" where
  "combo_wait_json w = J_object
     [(''enabled'', J_bool (cwEnabled w)), (''maxWaitMs'', int_json (cwMaxWaitMs w)),
      (''maxAttempts'', int_json (cwMaxAttempts w)), (''budgetMs'', int_json (cwBudgetMs w))]"

definition provider_cooldown_json :: "ProviderCooldownSettings \<Rightarrow> json" where
  "provider_cooldown_json p = J_object
     [(''enabled'', J_bool (pcEnabled p)), (''minRetryCooldownMs'', int_json (pcMinRetryCooldownMs p)),
      (''maxRetryCooldownMs'', int_json (pcMaxRetryCooldownMs p))]"

definition preflight_json :: "QuotaPreflightSettings \<Rightarrow> json" where
  "preflight_json q = J_object
     [(''enabled'', J_bool (qpEnabled q)),
      (''defaultThresholdPercent'', int_json (qpDefaultThresholdPercent q)),
      (''warnThresholdPercent'', int_json (qpWarnThresholdPercent q)),
      (''providerWindowDefaults'', windows_json (qpProviderWindowDefaults q))]"

definition stream_json :: "StreamRecoverySettings \<Rightarrow> json" where
  "stream_json r = J_object
     [(''enabled'', J_bool (srEnabled r)), (''continueMidStream'', J_bool (srContinueMidStream r)),
      (''throughputWatchdog'', J_object
         [(''enabled'', J_bool (twEnabled (srThroughputWatchdog r))),
          (''warmupMs'', int_json (twWarmupMs (srThroughputWatchdog r))),
          (''windowMs'', int_json (twWindowMs (srThroughputWatchdog r))),
          (''minUsefulBytesPerSecond'', int_json (twMinUsefulBytesPerSecond (srThroughputWatchdog r))),
          (''minUsefulBytes'', int_json (twMinUsefulBytes (srThroughputWatchdog r)))])]"

definition settings_json :: "ResilienceSettings \<Rightarrow> json" where
  "settings_json s = J_object
     [(''requestQueue'', queue_json (rsRequestQueue s)),
      (''connectionCooldown'', J_object
         [(''oauth'', cooldown_json (rsCooldownOauth s)), (''apikey'', cooldown_json (rsCooldownApikey s))]),
      (''providerBreaker'', J_object
         [(''oauth'', breaker_json (rsBreakerOauth s)), (''apikey'', breaker_json (rsBreakerApikey s))]),
      (''waitForCooldown'', wait_json (rsWaitForCooldown s)),
      (''comboCooldownWait'', combo_wait_json (rsComboCooldownWait s)),
      (''quotaShareConcurrencyLimit'', J_object [(''enabled'', J_bool (rsQuotaShareConcurrencyLimit s))]),
      (''providerCooldown'', provider_cooldown_json (rsProviderCooldown s)),
      (''quotaPreflight'', preflight_json (rsQuotaPreflight s)),
      (''streamRecovery'', stream_json (rsStreamRecovery s)),
      (''providerQuotaOverrides'',
         J_object (map (\<lambda>(p, o'). (p, override_json o')) (rsProviderQuotaOverrides s)))]"

text \<open>The relations between fields that reading enforces and merging a partial patch does not.\<close>

definition positive_override :: "ProviderQuotaOverrideSettings \<Rightarrow> bool" where
  "positive_override p \<longleftrightarrow> poRpm p \<noteq> Some 0 \<and> poConcurrency p \<noteq> Some 0"

definition coherent :: "ResilienceSettings \<Rightarrow> bool" where
  "coherent s \<longleftrightarrow>
     wcMaxRetryWaitMs (rsWaitForCooldown s) \<le> wcBudgetMs (rsWaitForCooldown s) \<and>
     cwMaxWaitMs (rsComboCooldownWait s) \<le> cwBudgetMs (rsComboCooldownWait s) \<and>
     pcMinRetryCooldownMs (rsProviderCooldown s) \<le> pcMaxRetryCooldownMs (rsProviderCooldown s) \<and>
     list_all (\<lambda>(p, o'). positive_override o') (rsProviderQuotaOverrides s)"

named_theorems stored \<open>what a normaliser reads of a stored section\<close>

lemma field_Nil [simp]: "field [] k = J_undefined"
  by (simp add: field_def)

lemma field_Cons [simp]: "field ((k', v) # r) k = (if k' = k then v else field r k)"
  by (simp add: field_def)

lemma asRecord_object [simp]: "asRecord (J_object r) = r"
  by (simp add: asRecord_def)

lemma toBoolean_bool [simp]: "toBoolean (J_bool b) d = b"
  by (simp add: toBoolean_def)

lemma js_trunc_of_int [simp]: "js_trunc (of_int n) = n"
  by (simp add: js_trunc_def)

lemma toInteger_stored [simp]: "toInteger num_of (int_json n) fb lo hi = min hi (max lo n)"
  by (simp add: toInteger_def parse_number_def)

lemma read_queue [stored]: "queue_settings_ok q \<Longrightarrow> normalizeRequestQueueSettings num_of (queue_json q) fb = q"
  by (simp add: queue_settings_ok_def queue_json_def normalizeRequestQueueSettings_def Let_def)

lemma read_cooldown [stored]:
  "cooldown_ok c \<Longrightarrow> ccUseUpstream429BreakerHints fb = None
     \<Longrightarrow> normalizeConnectionCooldownProfile num_of (cooldown_json c) fb = c"
  by (cases c) (auto simp: cooldown_ok_def cooldown_json_def normalizeConnectionCooldownProfile_def js_has_def
      Let_def split: option.split)

lemma read_breaker [stored]: "breaker_settings_ok b \<Longrightarrow> normalizeProviderBreakerProfile num_of (breaker_json b) fb = b"
  by (cases b) (auto simp: breaker_settings_ok_def breaker_ranges_def breaker_json_def normalizeProviderBreakerProfile_def
      Let_def)

lemma read_wait:
  "wait_ok w \<Longrightarrow>
     normalizeWaitForCooldownSettings num_of (wait_json w) fb
       = w\<lparr>wcBudgetMs := max (wcMaxRetryWaitMs w) (wcBudgetMs w)\<rparr>"
  by (cases w) (auto simp: wait_ok_def wait_json_def normalizeWaitForCooldownSettings_def Let_def)

lemma read_combo_wait:
  "combo_wait_ok w \<Longrightarrow>
     normalizeComboCooldownWaitSettings num_of (combo_wait_json w) fb
       = w\<lparr>cwBudgetMs := max (cwMaxWaitMs w) (cwBudgetMs w)\<rparr>"
  by (cases w) (auto simp: combo_wait_ok_def combo_wait_json_def normalizeComboCooldownWaitSettings_def Let_def)

lemma read_provider_cooldown:
  "provider_cooldown_ok p \<Longrightarrow>
     normalizeProviderCooldownSettings num_of (provider_cooldown_json p) fb
       = p\<lparr>pcMaxRetryCooldownMs := max (pcMinRetryCooldownMs p) (pcMaxRetryCooldownMs p)\<rparr>"
  by (cases p) (auto simp: provider_cooldown_ok_def provider_cooldown_json_def
      normalizeProviderCooldownSettings_def Let_def)

lemma read_stream [stored]:
  "watchdog_ok (srThroughputWatchdog r) \<Longrightarrow> normalizeStreamRecoverySettings num_of (stream_json r) fb = r"
  by (cases r) (auto simp: watchdog_ok_def stream_json_def normalizeStreamRecoverySettings_def Let_def)

lemma window_loop_stored:
  assumes "js_map_ok (acc @ ws)" "list_all (\<lambda>(w, n). w \<noteq> [] \<and> 0 \<le> n \<and> n \<le> 100) ws"
  shows "window_loop num_of (map (\<lambda>(w, n). (w, int_json n)) ws) acc = acc @ ws"
  using assms
  by (induction ws arbitrary: acc) (auto simp: parse_number_def js_set_absent)

lemma provider_window_loop_stored:
  assumes "js_map_ok (acc @ m)" "list_all (\<lambda>(p, ws). p \<noteq> [] \<and> windows_ok ws) m"
  shows "provider_window_loop num_of
           (map (\<lambda>(p, ws). (p, J_object (map (\<lambda>(w, n). (w, int_json n)) ws))) m) acc = acc @ m"
  using assms
proof (induction m arbitrary: acc)
  case (Cons e m)
  obtain p ws where e: "e = (p, ws)" by (cases e)
  with Cons.prems have "windows_ok ws" by simp
  then have "window_loop num_of (map (\<lambda>(w, n). (w, int_json n)) ws) [] = ws" "ws \<noteq> []"
    using window_loop_stored [of "[]" ws num_of] by (auto simp: windows_ok_def)
  with Cons.prems Cons.IH [of "acc @ [(p, ws)]"] show ?case
    by (simp add: e object_entries_def Let_def js_set_absent)
qed simp

lemma read_preflight [stored]:
  "preflight_ok q \<Longrightarrow> normalizeQuotaPreflightSettings num_of (preflight_json q) fb = q"
  using provider_window_loop_stored [of "[]" "qpProviderWindowDefaults q" num_of]
  by (cases q) (auto simp: preflight_ok_def preflight_json_def normalizeQuotaPreflightSettings_def
      normalizeProviderWindowDefaults_def windows_json_def window_defaults_ok_def json_or_def Let_def)

text \<open>Reading drops an override of zero requests or zero connections.\<close>

definition repair_override :: "ProviderQuotaOverrideSettings \<Rightarrow> ProviderQuotaOverrideSettings option" where
  "repair_override p =
     (let rpm = (if poRpm p = Some 0 then None else poRpm p);
          concurrency = (if poConcurrency p = Some 0 then None else poConcurrency p)
      in if rpm = None \<and> concurrency = None \<and> poProviderConcurrency p = None then None
         else Some \<lparr>poRpm = rpm, poConcurrency = concurrency, poProviderConcurrency = poProviderConcurrency p\<rparr>)"

definition repair_overrides ::
  "(string, ProviderQuotaOverrideSettings) js_map \<Rightarrow> (string, ProviderQuotaOverrideSettings) js_map" where
  "repair_overrides m = List.map_filter (\<lambda>(p, o'). map_option (Pair p) (repair_override o')) m"

lemma optional_field_read:
  assumes "k' \<noteq> k"
  shows "field (optional_field k n @ r) k = (case n of Some n \<Rightarrow> int_json n | None \<Rightarrow> field r k)"
    and "field (optional_field k' n @ r) k = field r k"
  using assms by (auto simp: optional_field_def split: option.split)

lemma read_override: "override_ok p \<Longrightarrow> normalizeProviderQuotaOverrideEntry num_of (override_json p) = repair_override p"
proof -
  assume p: "override_ok p"
  have fields:
    "field (optional_field ''rpm'' r @ optional_field ''concurrency'' c @ optional_field ''providerConcurrency'' q) ''rpm''
       = (case r of Some n \<Rightarrow> int_json n | None \<Rightarrow> J_undefined)"
    "field (optional_field ''rpm'' r @ optional_field ''concurrency'' c @ optional_field ''providerConcurrency'' q) ''concurrency''
       = (case c of Some n \<Rightarrow> int_json n | None \<Rightarrow> J_undefined)"
    "field (optional_field ''rpm'' r @ optional_field ''concurrency'' c @ optional_field ''providerConcurrency'' q)
        ''providerConcurrency''
       = (case q of Some n \<Rightarrow> int_json n | None \<Rightarrow> J_undefined)" for r c q
    by (simp_all add: optional_field_def split: option.split)
  have nums: "positive_int (as_number num_of (case n of Some n \<Rightarrow> int_json n | None \<Rightarrow> J_undefined))
       = (if n = Some 0 then None else n)"
    "natural_int (as_number num_of (case n of Some n \<Rightarrow> int_json n | None \<Rightarrow> J_undefined)) = n"
    if "pred_option (\<lambda>n. 0 \<le> n) n" for n
    using that by (auto simp: as_number_def positive_int_def natural_int_def split: option.splits)
  from p show ?thesis
    by (simp add: override_ok_def normalizeProviderQuotaOverrideEntry_def override_json_def fields nums
        repair_override_def Let_def)
qed

lemma override_loop_stored:
  assumes "js_map_ok (acc @ m)" "list_all (\<lambda>(p, o'). p \<noteq> [] \<and> override_ok o') m"
  shows "override_loop num_of (map (\<lambda>(p, o'). (p, override_json o')) m) acc = acc @ repair_overrides m"
  using assms
proof (induction m arbitrary: acc)
  case (Cons e m)
  obtain p q where e: "e = (p, q)" by (cases e)
  with Cons.prems have "normalizeProviderQuotaOverrideEntry num_of (override_json q) = repair_override q"
    by (simp add: read_override)
  with Cons.prems Cons.IH [of acc] Cons.IH [of "acc @ [(p, r)]" for r] show ?case
    by (auto simp: e js_set_absent repair_overrides_def List.map_filter_simps split: option.split)
qed (simp add: repair_overrides_def List.map_filter_simps)

lemma read_overrides:
  "overrides_ok m \<Longrightarrow>
     normalizeProviderQuotaOverrides num_of (J_object (map (\<lambda>(p, o'). (p, override_json o')) m)) fb
       = repair_overrides m"
  using override_loop_stored [of "[]" m num_of]
  by (simp add: normalizeProviderQuotaOverrides_def overrides_ok_def json_or_def)

lemma repair_override_positive: "repair_override p = Some q \<Longrightarrow> positive_override q"
  by (auto simp: repair_override_def positive_override_def Let_def split: if_splits)

lemma repair_override_same: "override_ok p \<Longrightarrow> positive_override p \<Longrightarrow> repair_override p = Some p"
  by (cases p) (auto simp: repair_override_def positive_override_def override_ok_def)

lemma repair_overrides_positive: "list_all (\<lambda>(p, o'). positive_override o') (repair_overrides m)"
  by (induction m)
     (auto simp: repair_overrides_def List.map_filter_simps repair_override_positive split: option.split)

lemma repair_overrides_same:
  "list_all (\<lambda>(p, o'). p \<noteq> [] \<and> override_ok o') m \<Longrightarrow> list_all (\<lambda>(p, o'). positive_override o') m
     \<Longrightarrow> repair_overrides m = m"
  by (induction m) (auto simp: repair_overrides_def List.map_filter_simps repair_override_same)

text \<open>What is read of stored settings.\<close>

definition repair :: "ResilienceSettings \<Rightarrow> ResilienceSettings" where
  "repair s = s\<lparr>
     rsWaitForCooldown := (rsWaitForCooldown s)
       \<lparr>wcBudgetMs := max (wcMaxRetryWaitMs (rsWaitForCooldown s)) (wcBudgetMs (rsWaitForCooldown s))\<rparr>,
     rsComboCooldownWait := (rsComboCooldownWait s)
       \<lparr>cwBudgetMs := max (cwMaxWaitMs (rsComboCooldownWait s)) (cwBudgetMs (rsComboCooldownWait s))\<rparr>,
     rsProviderCooldown := (rsProviderCooldown s)
       \<lparr>pcMaxRetryCooldownMs := max (pcMinRetryCooldownMs (rsProviderCooldown s)) (pcMaxRetryCooldownMs (rsProviderCooldown s))\<rparr>,
     rsProviderQuotaOverrides := repair_overrides (rsProviderQuotaOverrides s)\<rparr>"

lemma legacy_hints [simp]:
  "ccUseUpstream429BreakerHints (rsCooldownOauth (buildLegacyFallback num_of env r)) = None"
  "ccUseUpstream429BreakerHints (rsCooldownApikey (buildLegacyFallback num_of env r)) = None"
  by (simp_all add: buildLegacyFallback_def normalizeLegacyConnectionCooldownProfile_def Let_def)

lemma resolve_stored:
  assumes "settings_ok s" "js_get r ''resilienceSettings'' = Some (settings_json s)"
  shows "resolveResilienceSettings num_of env (J_object r) = repair s"
proof -
  have "field r ''resilienceSettings'' = settings_json s"
    using assms(2) by (simp add: field_def)
  with assms(1) show ?thesis
    by (cases s) (simp add: resolveResilienceSettings_def settings_json_def normalize_sections_def settings_ok_def
        stored read_wait read_combo_wait read_provider_cooldown read_overrides repair_def
        normalizeQuotaShareConcurrencyLimitSettings_def Let_def)
qed

lemma coherent_repair: "coherent (repair s)"
  using repair_overrides_positive [of "rsProviderQuotaOverrides s"]
  by (simp add: coherent_def repair_def)

lemma repair_coherent: "settings_ok s \<Longrightarrow> coherent s \<Longrightarrow> repair s = s"
  using repair_overrides_same [of "rsProviderQuotaOverrides s"]
  by (cases s) (simp add: coherent_def repair_def settings_ok_def overrides_ok_def)


text \<open>
  The profiles written for old clients: read as the only stored value they give the cooldown back,
  unless it is zero without hints, which old clients write as "use the hints".
\<close>

definition legacy_profile_json :: "legacy_profile \<Rightarrow> JsonRecord" where
  "legacy_profile_json l =
     [(''transientCooldown'', int_json (lpTransientCooldown l)), (''rateLimitCooldown'', int_json (lpRateLimitCooldown l)),
      (''maxBackoffLevel'', int_json (lpMaxBackoffLevel l)),
      (''circuitBreakerThreshold'', int_json (lpCircuitBreakerThreshold l)),
      (''degradationThreshold'', int_json (lpDegradationThreshold l)),
      (''circuitBreakerReset'', int_json (lpCircuitBreakerReset l))]"

lemma legacy_profile_read_back:
  assumes "cooldown_ok c" "ccBaseCooldownMs c \<noteq> 0 \<or> ccUseUpstreamRetryHints c"
  shows "normalizeLegacyConnectionCooldownProfile num_of (legacy_profile_json (legacy_profile_of c b)) fb
    = c\<lparr>ccUseUpstream429BreakerHints := None\<rparr>"
  using assms
  by (cases c) (auto simp: normalizeLegacyConnectionCooldownProfile_def legacy_profile_json_def legacy_profile_of_def
      cooldown_ok_def Let_def)


section \<open>Properties\<close>

text \<open>
  C31: in a process environment whose own values are in range, whatever is stored (legacy keys,
  garbage, values of the wrong type) and whatever patches are merged afterwards, the settings the
  gateway works with are well typed: every number lies in the range of its field, the degradation
  threshold is below the failure threshold (both are 1 when the failure threshold is 1), the warning
  level is above the cutoff, waiting is only enabled with a positive wait and attempt count, and
  every map entry of an operator has a proper key and a value in range. The condition on the
  environment (\<open>env_ok\<close>: the queue limits, the breaker profiles and the cooldown limits that
  the environment variables give lie in the ranges of their fields) is a real one: the code uses
  these values as defaults and fallbacks without a check, and with a cooldown limit that is not a
  number, or a queue wait that truncates to 0, the settings are not well typed.
\<close>

theorem resilience_settings_typed:
  assumes "env_ok env"
  shows "settings_ok (foldl (mergeResilienceSettings num_of) (resolveResilienceSettings num_of env stored) patches)"
proof (induction patches rule: rev_induct)
  case Nil
  show ?case using assms by (simp add: settings_ok_resolve)
next
  case (snoc patch patches)
  then show ?case by (simp add: settings_ok_merge)
qed

definition plain_env :: environment where
  "plain_env =
     \<lparr>envQueueMaxWait = Finite 15000, envQueueMaxDepth = Finite 0,
      envOauthThreshold = 8, envOauthDegradation = 5, envOauthReset = 60000,
      envApikeyThreshold = 12, envApikeyDegradation = 7, envApikeyReset = 30000,
      envCooldownMin = 5000, envCooldownMax = 300000, envCooldownEnabled = False, envPreflightEnabled = False,
      envFlag = (\<lambda>_. None), envVar = (\<lambda>_. None)\<rparr>"

lemma plain_env_ok: "env_ok plain_env"
  by (simp add: plain_env_def env_ok_def breaker_ranges_def provider_cooldown_ok_def DEFAULT_RESILIENCE_SETTINGS_def
      DEFAULT_REQUEST_QUEUE_MAX_WAIT_MS_def DEFAULT_REQUEST_QUEUE_MAX_DEPTH_def js_trunc_def)

definition garbage_settings :: json where
  "garbage_settings = J_object
     [(''requestRetry'', J_num (Finite (- 7))),
      (''resilienceSettings'', J_object
         [(''requestQueue'', J_object [(''requestsPerMinute'', J_num (Finite 0)), (''maxWaitMs'', J_bool True)]),
          (''providerBreaker'', J_object [(''oauth'', J_object [(''degradationThreshold'', J_num (Finite 900))])])])]"

lemma resilience_settings_typed_witness:
  "settings_ok (foldl (mergeResilienceSettings (\<lambda>_. NaN))
      (resolveResilienceSettings (\<lambda>_. NaN) plain_env garbage_settings)
      [[(''waitForCooldown'', J_object [(''maxRetries'', J_num (Finite 99))])], [(''quotaPreflight'', J_null)]])"
  by (rule resilience_settings_typed [OF plain_env_ok])

text \<open>
  C32: what storage does to settings. Settings that are in range, saved under
  \<open>resilienceSettings\<close> next to any other keys (the legacy profiles that the route writes for old
  clients among them) and in any process environment, are read back repaired: each wait budget
  raised to a single wait, the longest cooldown raised to the shortest, request and concurrency
  overrides of zero dropped, nothing else changed. In-range settings that need the repair do occur:
  merging a patch does not restore these relations. Repaired settings are coherent (budgets cover
  a wait, the shortest cooldown is at most the longest, no zero overrides), and coherent settings
  are read back exactly.
\<close>

theorem settings_survive_storage:
  assumes "settings_ok s"
    and "js_get stored ''resilienceSettings'' = Some (settings_json s)"
  shows "resolveResilienceSettings num_of env (J_object stored) = repair s \<and> coherent (repair s)
    \<and> (coherent s \<longrightarrow> resolveResilienceSettings num_of env (J_object stored) = s)"
  using assms by (simp add: resolve_stored repair_coherent coherent_repair)

definition plain_settings :: ResilienceSettings where
  "plain_settings = DEFAULT_RESILIENCE_SETTINGS plain_env"

lemmas plain_settings_simps = plain_settings_def DEFAULT_RESILIENCE_SETTINGS_def plain_env_def
  DEFAULT_REQUEST_QUEUE_MAX_WAIT_MS_def DEFAULT_REQUEST_QUEUE_MAX_DEPTH_def js_trunc_def

lemma plain_settings_ok: "settings_ok plain_settings" "coherent plain_settings"
  by (simp_all add: plain_settings_simps settings_ok_def queue_settings_ok_def cooldown_ok_def breaker_settings_ok_def
      breaker_ranges_def wait_ok_def combo_wait_ok_def provider_cooldown_ok_def preflight_ok_def
      window_defaults_ok_def watchdog_ok_def overrides_ok_def coherent_def)

lemma settings_survive_storage_witness:
  "resolveResilienceSettings (\<lambda>_. NaN) plain_env
     (J_object [(''requestRetry'', J_num (Finite 9)), (''resilienceSettings'', settings_json plain_settings)])
   = plain_settings"
proof -
  have "js_get [(''requestRetry'', J_num (Finite 9)), (''resilienceSettings'', settings_json plain_settings)]
      ''resilienceSettings'' = Some (settings_json plain_settings)" by simp
  from settings_survive_storage [OF plain_settings_ok(1) this] plain_settings_ok(2) show ?thesis by blast
qed

text \<open>
  Merging does not restore the relations between fields, reading does: after any patch, settings
  that were in range are read back with each budget raised to a single wait, the longest cooldown
  raised to the shortest and overrides of zero dropped, and from then on what is stored and what is
  in force agree.
\<close>

lemma stored_patch_is_repaired:
  assumes "settings_ok s"
    and "js_get stored ''resilienceSettings'' = Some (settings_json (mergeResilienceSettings num_of s patch))"
  shows "resolveResilienceSettings num_of env (J_object stored) = repair (mergeResilienceSettings num_of s patch)
    \<and> coherent (repair (mergeResilienceSettings num_of s patch))"
  using assms by (simp add: resolve_stored settings_ok_merge coherent_repair)

definition incoherent_patch :: JsonRecord where
  "incoherent_patch = [(''comboCooldownWait'', J_object [(''budgetMs'', J_num (Finite 1)), (''maxWaitMs'', J_num (Finite 1))])]"

definition long_wait_patch :: JsonRecord where
  "long_wait_patch = [(''comboCooldownWait'', J_object [(''maxWaitMs'', J_num (Finite 5000))])]"

lemma long_wait_short_budget:
  "cwBudgetMs (rsComboCooldownWait (mergeResilienceSettings num_of
      (mergeResilienceSettings num_of s incoherent_patch) long_wait_patch)) = 1"
  "cwMaxWaitMs (rsComboCooldownWait (mergeResilienceSettings num_of
      (mergeResilienceSettings num_of s incoherent_patch) long_wait_patch)) = 5000"
  by (simp_all add: mergeResilienceSettings_def normalize_sections_def incoherent_patch_def long_wait_patch_def
      normalizeComboCooldownWaitSettings_def toInteger_def parse_number_def js_trunc_def Let_def)

end
