(* ===== verification/Model_Lockout.thy ===== *)
theory Model_Lockout
  imports Prelude
begin

text \<open>
  The lockouts of a model on an account, \<open>open-sse/services/accountFallback.ts\<close> with
  \<open>accountFallback/exactModelLock.ts\<close>, \<open>accountFallback/lockoutEviction.ts\<close> and the quota scopes of
  \<open>config/codexQuotaScopes.ts\<close> and \<open>antigravityQuotaFamily.ts\<close>: the three keys of a lock, failures
  with backoff, decay, expiry, eviction and queries. The table of provider aliases is the argument
  \<open>canon\<close>, the time to the next local midnight the argument \<open>until_tomorrow\<close>. Model names that are
  null are empty strings, as the code treats them.
\<close>


section \<open>Keys\<close>

definition js_lower_string :: "string \<Rightarrow> string" where
  "js_lower_string s = map js_lower s"

fun includes_text :: "string \<Rightarrow> string \<Rightarrow> bool" where
  "includes_text [] pat \<longleftrightarrow> pat = []"
| "includes_text (c # s) pat \<longleftrightarrow> take (length pat) (c # s) = pat \<or> includes_text s pat"

definition CODEX_SCOPE_PATTERNS :: "(string \<times> string) list" where
  "CODEX_SCOPE_PATTERNS =
     [(''codex-spark'', ''spark''), (''spark'', ''spark''), (''bengalfox'', ''spark''), (''codex'', ''codex''),
      (''gpt-5'', ''codex'')]"

definition getCodexModelScope :: "string \<Rightarrow> string" where
  "getCodexModelScope model =
     (case find (\<lambda>(pattern, scope). includes_text (js_lower_string model) pattern) CODEX_SCOPE_PATTERNS of
        Some (_, scope) \<Rightarrow> scope | None \<Rightarrow> ''codex'')"

datatype AntigravityQuotaFamily = Family_gemini | Family_claude | Family_other

text \<open>\<open>replace(/^(antigravity|agy)\//, "")\<close>, then what follows the first slash.\<close>

definition drop_prefix :: "string \<Rightarrow> string \<Rightarrow> string" where
  "drop_prefix p s = (if take (length p) s = p then drop (length p) s else s)"

definition bare_model :: "string \<Rightarrow> string" where
  "bare_model model =
     (let n = js_lower_string (js_trim model);
          n = (if take 12 n = ''antigravity/'' then drop 12 n else drop_prefix ''agy/'' n)
      in if CHR ''/'' \<in> set n then tl (dropWhile (\<lambda>c. c \<noteq> CHR ''/'') n) else n)"

definition getAntigravityQuotaFamily :: "string \<Rightarrow> AntigravityQuotaFamily" where
  "getAntigravityQuotaFamily model =
     (let bare = bare_model model in
      if take 7 bare = ''gemini-'' \<or> includes_text bare ''/gemini-'' \<or> includes_text bare ''gemini'' then Family_gemini
      else if take 7 bare = ''claude-'' \<or> take 6 bare = ''cloud-'' \<or> includes_text bare ''/claude-''
              \<or> includes_text bare ''/cloud-'' \<or> includes_text bare ''anthropic'' then Family_claude
      else Family_other)"

text \<open>\<open>null\<close>, for an empty model, is the empty string.\<close>

definition getQuotaScopedModelForProvider :: "string \<Rightarrow> string \<Rightarrow> string" where
  "getQuotaScopedModelForProvider provider model =
     (if model = [] then []
      else if provider \<noteq> ''antigravity'' \<and> provider \<noteq> ''agy'' then model
      else
        (case getAntigravityQuotaFamily model of
           Family_other \<Rightarrow> model
         | Family_gemini \<Rightarrow> ''family:gemini''
         | Family_claude \<Rightarrow> ''family:claude''))"

definition getQuotaScopeLabelForProvider :: "string \<Rightarrow> string \<Rightarrow> string" where
  "getQuotaScopeLabelForProvider provider model =
     (if provider \<noteq> ''antigravity'' \<and> provider \<noteq> ''agy'' then ''model''
      else if getAntigravityQuotaFamily model = Family_other then ''model'' else ''family'')"

definition join_key :: "string \<Rightarrow> string \<Rightarrow> string \<Rightarrow> string" where
  "join_key p c m = p @ '':'' @ c @ '':'' @ m"

definition getModelLockKey ::
  "(string \<Rightarrow> string) \<Rightarrow> string \<Rightarrow> string \<Rightarrow> string \<Rightarrow> string option \<Rightarrow> int option \<Rightarrow> string" where
  "getModelLockKey canon provider c model reason status =
     (let canonicalProvider = canon provider;
          scoped = getQuotaScopedModelForProvider canonicalProvider model;
          lockModel =
            (if reason = Some ''not_found'' \<or> status = Some 404 then model
             else if canonicalProvider = ''codex'' then getCodexModelScope model
             else if scoped \<noteq> [] then scoped else model)
      in join_key canonicalProvider c lockModel)"

definition buildExactModelLockKey :: "string \<Rightarrow> string \<Rightarrow> string \<Rightarrow> string" where
  "buildExactModelLockKey canonicalProvider c model =
     join_key canonicalProvider c (''exact:'' @ js_lower_string (js_trim model))"

text \<open>\<open>Array.from(new Set(keys))\<close> keeps the first of equal keys.\<close>

definition collectModelLockKeys :: "string \<Rightarrow> string \<Rightarrow> string \<Rightarrow> string list" where
  "collectModelLockKeys familyKey notFoundKey exactKey = rev (remdups (rev [familyKey, notFoundKey, exactKey]))"

definition getModelLockKeys :: "(string \<Rightarrow> string) \<Rightarrow> string \<Rightarrow> string \<Rightarrow> string \<Rightarrow> string list" where
  "getModelLockKeys canon provider c model =
     collectModelLockKeys
       (getModelLockKey canon provider c model None None)
       (getModelLockKey canon provider c model (Some ''not_found'') (Some 404))
       (buildExactModelLockKey (canon provider) c model)"


section \<open>State\<close>

record ModelLockoutEntry =
  lkReason :: string
  lkUntil :: int
  lkLockedAt :: int
  lkFailureCount :: int
  lkLastFailureAt :: int
  lkResetAfterMs :: int

record ModelFailureState =
  mfFailureCount :: int
  mfLastFailureAt :: int
  mfResetAfterMs :: int
  mfLastCooldownMs :: "int option"

record model_locks =
  modelLockouts :: "(string, ModelLockoutEntry) js_map"
  modelFailureState :: "(string, ModelFailureState) js_map"

text \<open>The fields of a provider's profile that lockouts read.\<close>

record lock_profile =
  prBaseCooldownMs :: int
  prMaxBackoffSteps :: int
  prResetTimeoutMs :: int

text \<open>\<open>Partial<ModelLockoutEntry>\<close>\<close>

record lock_meta =
  lmFailureCount :: "int option"
  lmLastFailureAt :: "int option"
  lmResetAfterMs :: "int option"

record lock_options =
  loExactCooldownMs :: "int option"
  loMaxCooldownMs :: "int option"
  loScopeExact :: bool
  loIsUpstreamReset :: bool

definition no_locks :: model_locks where
  "no_locks = \<lparr>modelLockouts = [], modelFailureState = []\<rparr>"

definition no_meta :: lock_meta where
  "no_meta = \<lparr>lmFailureCount = None, lmLastFailureAt = None, lmResetAfterMs = None\<rparr>"

definition BACKOFF_MAX :: int where "BACKOFF_MAX = 120000"

definition BACKOFF_MAX_LEVEL :: int where "BACKOFF_MAX_LEVEL = 15"

definition calculateBackoffCooldown :: "int \<Rightarrow> int" where
  "calculateBackoffCooldown level = min (1000 * 2 ^ nat (max 0 level)) BACKOFF_MAX"

definition getFailureWindowMs :: "lock_profile option \<Rightarrow> int \<Rightarrow> int" where
  "getFailureWindowMs profile fallbackMs =
     (case profile of Some p \<Rightarrow> if prResetTimeoutMs p > 0 then prResetTimeoutMs p else fallbackMs
      | None \<Rightarrow> fallbackMs)"

text \<open>How long a failure counts: its window, extended by the cooldown it was given.\<close>

definition counts_until :: "ModelFailureState \<Rightarrow> int" where
  "counts_until f = mfLastFailureAt f + mfResetAfterMs f + opt_default (mfLastCooldownMs f) 0"

definition cleanupModelLockKey :: "string \<Rightarrow> int \<Rightarrow> model_locks \<Rightarrow> model_locks" where
  "cleanupModelLockKey key now s =
     (let s = (case js_get (modelLockouts s) key of
                 Some entry \<Rightarrow> if now > lkUntil entry then s\<lparr>modelLockouts := js_delete key (modelLockouts s)\<rparr> else s
               | None \<Rightarrow> s)
      in case js_get (modelFailureState s) key of
           None \<Rightarrow> s
         | Some failure \<Rightarrow>
             if now \<le> counts_until failure then s
             else if js_has (modelLockouts s) key then s
             else s\<lparr>modelFailureState := js_delete key (modelFailureState s)\<rparr>)"

definition getModelLockBaseCooldown :: "int \<Rightarrow> int \<Rightarrow> lock_profile option \<Rightarrow> int" where
  "getModelLockBaseCooldown status fallbackCooldownMs profile =
     (if fallbackCooldownMs > 0 then fallbackCooldownMs
      else
        (let d = (if status = 429 then calculateBackoffCooldown 0 else 5000) in
         case profile of Some p \<Rightarrow> if prBaseCooldownMs p \<ge> 0 then prBaseCooldownMs p else d | None \<Rightarrow> d))"

definition getScaledCooldown :: "int \<Rightarrow> int \<Rightarrow> int \<Rightarrow> int" where
  "getScaledCooldown baseCooldownMs failureCount maxBackoffLevel =
     (let safeBase = (if baseCooldownMs > 0 then baseCooldownMs else 1000);
          exponent = min (max 0 (failureCount - 1)) (max 0 maxBackoffLevel)
      in safeBase * 2 ^ nat exponent)"


section \<open>Operations\<close>

text \<open>
  \<open>lockModel\<close> and \<open>computeExactModelLockEntry\<close> merge a new lock into the one that is there: a longer
  one stays and only takes over a larger count.
\<close>

definition truthy_count :: "int option \<Rightarrow> int \<Rightarrow> bool" where
  "truthy_count n m = (case n of Some n \<Rightarrow> n \<noteq> 0 \<and> n > m | None \<Rightarrow> False)"

definition new_entry :: "int \<Rightarrow> ModelLockoutEntry option \<Rightarrow> string \<Rightarrow> int \<Rightarrow> lock_meta \<Rightarrow> ModelLockoutEntry" where
  "new_entry now existing reason cooldownMs meta =
     \<lparr>lkReason = reason, lkUntil = now + cooldownMs, lkLockedAt = now,
      lkFailureCount = opt_default (lmFailureCount meta) (case existing of Some e \<Rightarrow> lkFailureCount e | None \<Rightarrow> 1),
      lkLastFailureAt = opt_default (lmLastFailureAt meta) now,
      lkResetAfterMs = opt_default (lmResetAfterMs meta) (case existing of Some e \<Rightarrow> lkResetAfterMs e | None \<Rightarrow> 0)\<rparr>"

definition computeLockEntry ::
  "int \<Rightarrow> ModelLockoutEntry option \<Rightarrow> string \<Rightarrow> int \<Rightarrow> lock_meta \<Rightarrow> ModelLockoutEntry option" where
  "computeLockEntry now existing reason cooldownMs meta =
     (case existing of
        None \<Rightarrow> Some (new_entry now existing reason cooldownMs meta)
      | Some e \<Rightarrow>
          if lkUntil e > now + cooldownMs then
            (if truthy_count (lmFailureCount meta) (lkFailureCount e)
             then Some (e\<lparr>lkFailureCount := opt_default (lmFailureCount meta) 0,
                          lkLastFailureAt := opt_default (lmLastFailureAt meta) (lkLastFailureAt e),
                          lkResetAfterMs := opt_default (lmResetAfterMs meta) (lkResetAfterMs e)\<rparr>)
             else None)
          else Some (new_entry now existing reason cooldownMs meta))"

definition put_lock :: "string \<Rightarrow> int \<Rightarrow> string \<Rightarrow> int \<Rightarrow> lock_meta \<Rightarrow> model_locks \<Rightarrow> model_locks" where
  "put_lock key now reason cooldownMs meta s =
     (let s = cleanupModelLockKey key now s in
      case computeLockEntry now (js_get (modelLockouts s) key) reason cooldownMs meta of
        Some e \<Rightarrow> s\<lparr>modelLockouts := js_set key e (modelLockouts s)\<rparr>
      | None \<Rightarrow> s)"

definition lockModel ::
  "(string \<Rightarrow> string) \<Rightarrow> int \<Rightarrow> string \<Rightarrow> string \<Rightarrow> string \<Rightarrow> string \<Rightarrow> int \<Rightarrow> lock_meta \<Rightarrow> model_locks \<Rightarrow> model_locks" where
  "lockModel canon now provider c model reason cooldownMs meta s =
     (if model = [] then s
      else put_lock (getModelLockKey canon provider c model (Some reason) None) now reason cooldownMs meta s)"

definition lockExactModel ::
  "(string \<Rightarrow> string) \<Rightarrow> int \<Rightarrow> string \<Rightarrow> string \<Rightarrow> string \<Rightarrow> string \<Rightarrow> int \<Rightarrow> lock_meta \<Rightarrow> model_locks \<Rightarrow> model_locks" where
  "lockExactModel canon now provider c model reason cooldownMs meta s =
     (if model = [] then s
      else put_lock (buildExactModelLockKey (canon provider) c model) now reason cooldownMs meta s)"

definition selectLockoutCooldownMs :: "int \<Rightarrow> int \<Rightarrow> bool \<Rightarrow> int" where
  "selectLockoutCooldownMs parsedCooldownMs baseCooldownMs useExponentialBackoff =
     (if parsedCooldownMs > baseCooldownMs then parsedCooldownMs
      else if useExponentialBackoff then 0 else baseCooldownMs)"

text \<open>The number of the failure in its streak, and the cooldown it is given.\<close>

definition streak_count :: "int \<Rightarrow> ModelFailureState option \<Rightarrow> int" where
  "streak_count now previous =
     (case previous of Some f \<Rightarrow> if now \<le> counts_until f then mfFailureCount f + 1 else 1 | None \<Rightarrow> 1)"

definition lockout_cooldown :: "int \<Rightarrow> int \<Rightarrow> int \<Rightarrow> lock_profile option \<Rightarrow> lock_options \<Rightarrow> int" where
  "lockout_cooldown status failureCount fallbackCooldownMs profile options =
     (let baseCooldownMs = getModelLockBaseCooldown status fallbackCooldownMs profile;
          maxCooldownMs = (case loMaxCooldownMs options of Some m \<Rightarrow> if m > 0 then Some m else None | None \<Rightarrow> None);
          backoff = min (getScaledCooldown baseCooldownMs failureCount
                          (case profile of Some p \<Rightarrow> prMaxBackoffSteps p | None \<Rightarrow> BACKOFF_MAX_LEVEL))
                        (opt_default maxCooldownMs BACKOFF_MAX)
      in case loExactCooldownMs options of
           Some exact \<Rightarrow>
             if exact > 0 then
               (case maxCooldownMs of
                  Some m \<Rightarrow> if \<not> loIsUpstreamReset options then min exact m else exact
                | None \<Rightarrow> exact)
             else backoff
         | None \<Rightarrow> backoff)"

record lockout_result =
  lrCooldownMs :: int
  lrFailureCount :: int
  lrResetAfterMs :: int

definition recordModelLockoutFailure ::
  "(string \<Rightarrow> string) \<Rightarrow> int \<Rightarrow> int \<Rightarrow> string \<Rightarrow> string \<Rightarrow> string \<Rightarrow> string \<Rightarrow> int \<Rightarrow> int \<Rightarrow> lock_profile option
     \<Rightarrow> lock_options \<Rightarrow> model_locks \<Rightarrow> lockout_result \<times> model_locks" where
  "recordModelLockoutFailure canon until_tomorrow now provider c model reason status fallbackCooldownMs profile options s =
     (let key = (if loScopeExact options then buildExactModelLockKey (canon provider) c model
                 else getModelLockKey canon provider c model (Some reason) (Some status));
          s = cleanupModelLockKey key now s;
          options = (if reason = ''quota_exhausted'' \<and> loExactCooldownMs options = None
                     then options\<lparr>loExactCooldownMs := Some until_tomorrow\<rparr> else options);
          resetAfterMs = getFailureWindowMs profile 1800000;
          failureCount = streak_count now (js_get (modelFailureState s) key);
          cooldownMs = lockout_cooldown status failureCount fallbackCooldownMs profile options;
          s = s\<lparr>modelFailureState := js_set key
                  \<lparr>mfFailureCount = failureCount, mfLastFailureAt = now, mfResetAfterMs = resetAfterMs,
                   mfLastCooldownMs = Some cooldownMs\<rparr> (modelFailureState s)\<rparr>;
          meta = \<lparr>lmFailureCount = Some failureCount, lmLastFailureAt = Some now, lmResetAfterMs = Some resetAfterMs\<rparr>;
          s = (if loScopeExact options then lockExactModel canon now provider c model reason cooldownMs meta s
               else lockModel canon now provider c model reason cooldownMs meta s)
      in (\<lparr>lrCooldownMs = cooldownMs, lrFailureCount = failureCount, lrResetAfterMs = resetAfterMs\<rparr>, s))"

definition classifyLockoutReason :: "int \<Rightarrow> string" where
  "classifyLockoutReason status =
     (if status = 429 then ''rate_limit'' else if status = 403 then ''quota_exhausted'' else ''unknown'')"

fun clearMultiKeyLock :: "string list \<Rightarrow> model_locks \<Rightarrow> bool \<times> model_locks" where
  "clearMultiKeyLock [] s = (False, s)"
| "clearMultiKeyLock (key # keys) s =
     (let hit = js_has (modelLockouts s) key \<or> js_has (modelFailureState s) key;
          (rest, s') = clearMultiKeyLock keys
            (s\<lparr>modelLockouts := js_delete key (modelLockouts s), modelFailureState := js_delete key (modelFailureState s)\<rparr>)
      in (hit \<or> rest, s'))"

definition clearModelLock :: "(string \<Rightarrow> string) \<Rightarrow> string \<Rightarrow> string \<Rightarrow> string \<Rightarrow> model_locks \<Rightarrow> bool \<times> model_locks" where
  "clearModelLock canon provider c model s =
     (if model = [] then (False, s) else clearMultiKeyLock (getModelLockKeys canon provider c model) s)"

definition decayModelFailureCount ::
  "(string \<Rightarrow> string) \<Rightarrow> string \<Rightarrow> string \<Rightarrow> string \<Rightarrow> model_locks \<Rightarrow> (bool \<times> int) \<times> model_locks" where
  "decayModelFailureCount canon provider c model s =
     (let key = getModelLockKey canon provider c model None None in
      case js_get (modelFailureState s) key of
        None \<Rightarrow> ((False, 0), s)
      | Some failure \<Rightarrow>
          let n = mfFailureCount failure div 2 in
          if n = 0 then ((True, 0), s\<lparr>modelFailureState := js_delete key (modelFailureState s)\<rparr>)
          else ((False, n), s\<lparr>modelFailureState := js_set key (failure\<lparr>mfFailureCount := n\<rparr>) (modelFailureState s)\<rparr>))"

definition clearAllModelLockouts :: "model_locks \<Rightarrow> model_locks" where
  "clearAllModelLockouts s = no_locks"

fun isAnyKeyLocked :: "int \<Rightarrow> string list \<Rightarrow> model_locks \<Rightarrow> bool \<times> model_locks" where
  "isAnyKeyLocked now [] s = (False, s)"
| "isAnyKeyLocked now (key # keys) s =
     (let s = cleanupModelLockKey key now s in
      if js_has (modelLockouts s) key then (True, s) else isAnyKeyLocked now keys s)"

definition isModelLocked :: "(string \<Rightarrow> string) \<Rightarrow> int \<Rightarrow> string \<Rightarrow> string \<Rightarrow> string \<Rightarrow> model_locks \<Rightarrow> bool \<times> model_locks" where
  "isModelLocked canon now provider c model s =
     (if model = [] then (False, s) else isAnyKeyLocked now (getModelLockKeys canon provider c model) s)"

fun collect_entries :: "int \<Rightarrow> string list \<Rightarrow> model_locks \<Rightarrow> ModelLockoutEntry list \<times> model_locks" where
  "collect_entries now [] s = ([], s)"
| "collect_entries now (key # keys) s =
     (let s = cleanupModelLockKey key now s;
          hit = js_get (modelLockouts s) key;
          (rest, s) = collect_entries now keys s
      in (case hit of Some e \<Rightarrow> (e # rest, s) | None \<Rightarrow> (rest, s)))"

text \<open>The first of a stable descending sort by \<open>until\<close>.\<close>

fun latest :: "ModelLockoutEntry list \<Rightarrow> ModelLockoutEntry option" where
  "latest [] = None"
| "latest (e # es) = (case latest es of Some e' \<Rightarrow> if lkUntil e' > lkUntil e then Some e' else Some e | None \<Rightarrow> Some e)"

definition findLatestLockEntry :: "int \<Rightarrow> string list \<Rightarrow> model_locks \<Rightarrow> ModelLockoutEntry option \<times> model_locks" where
  "findLatestLockEntry now keys s = (let (es, s) = collect_entries now keys s in (latest es, s))"

record lockout_info =
  liReason :: string
  liRemainingMs :: int
  liLockedAt :: int
  liFailureCount :: int

definition getModelLockoutInfo ::
  "(string \<Rightarrow> string) \<Rightarrow> int \<Rightarrow> string \<Rightarrow> string \<Rightarrow> string \<Rightarrow> model_locks \<Rightarrow> lockout_info option \<times> model_locks" where
  "getModelLockoutInfo canon now provider c model s =
     (if model = [] then (None, s)
      else
        let (e, s) = findLatestLockEntry now (getModelLockKeys canon provider c model) s
        in (map_option (\<lambda>e. \<lparr>liReason = lkReason e, liRemainingMs = lkUntil e - now, liLockedAt = lkLockedAt e,
                              liFailureCount = lkFailureCount e\<rparr>) e, s))"


subsection \<open>Timer\<close>

definition MODEL_LOCKOUT_EVICTION_CAP :: nat where
  "MODEL_LOCKOUT_EVICTION_CAP = 1000"

definition evict_failures :: "nat \<Rightarrow> model_locks \<Rightarrow> model_locks" where
  "evict_failures cap s =
     (if length (modelFailureState s) > cap then
        (let oldest = take (length (modelFailureState s) - cap) (js_keys (modelFailureState s)) in
         s\<lparr>modelFailureState := filter (\<lambda>(k, _). \<not> (k \<in> set oldest \<and> \<not> js_has (modelLockouts s) k)) (modelFailureState s)\<rparr>)
      else s)"

definition evictLockoutOverflow :: "nat \<Rightarrow> int \<Rightarrow> model_locks \<Rightarrow> model_locks" where
  "evictLockoutOverflow cap now s =
     evict_failures cap
       (if length (modelLockouts s) > cap then
          (let overflow = length (modelLockouts s) - cap;
               evictableKeys = take overflow (map fst (filter (\<lambda>(k, e). lkUntil e \<le> now) (modelLockouts s)))
           in s\<lparr>modelLockouts := filter (\<lambda>(k, _). k \<notin> set evictableKeys) (modelLockouts s),
                modelFailureState := filter (\<lambda>(k, _). k \<notin> set evictableKeys) (modelFailureState s)\<rparr>)
        else s)"

definition cleanup_keys :: "int \<Rightarrow> string list \<Rightarrow> model_locks \<Rightarrow> model_locks" where
  "cleanup_keys now keys s = foldl (\<lambda>s key. cleanupModelLockKey key now s) s keys"

definition cleanup_timer_fires :: "int \<Rightarrow> model_locks \<Rightarrow> model_locks" where
  "cleanup_timer_fires now s =
     (let s = cleanup_keys now (js_keys (modelLockouts s)) s;
          s = cleanup_keys now (js_keys (modelFailureState s)) s
      in evictLockoutOverflow MODEL_LOCKOUT_EVICTION_CAP now s)"

record ModelLockoutInfo =
  mlProvider :: string
  mlConnectionId :: string
  mlModel :: string
  mlReason :: string
  mlRemainingMs :: int
  mlFailureCount :: int
  mlLockedAt :: int
  mlUntil :: int

fun join_colon :: "string list \<Rightarrow> string" where
  "join_colon [] = []"
| "join_colon [s] = s"
| "join_colon (s # t # ss) = s @ '':'' @ join_colon (t # ss)"

definition lockout_row :: "int \<Rightarrow> string \<times> ModelLockoutEntry \<Rightarrow> ModelLockoutInfo" where
  "lockout_row now p =
     (let (key, e) = p; parts = js_split (CHR '':'') key in
      \<lparr>mlProvider = parts ! 0, mlConnectionId = (if length parts > 1 then parts ! 1 else []),
       mlModel = join_colon (drop 2 parts), mlReason = lkReason e, mlRemainingMs = lkUntil e - now,
       mlFailureCount = lkFailureCount e, mlLockedAt = lkLockedAt e, mlUntil = lkUntil e\<rparr>)"

definition getAllModelLockouts :: "int \<Rightarrow> model_locks \<Rightarrow> ModelLockoutInfo list \<times> model_locks" where
  "getAllModelLockouts now s =
     (let s = cleanup_keys now (js_keys (modelLockouts s)) s
      in (map (lockout_row now) (modelLockouts s), s))"


section \<open>Runs\<close>

datatype lock_event =
    Lk_fail int string string string string int int "lock_profile option" lock_options
  | Lk_lock int string string string string int
  | Lk_lock_exact int string string string string int
  | Lk_clear string string string
  | Lk_clear_all
  | Lk_decay string string string
  | Lk_query int string string string
  | Lk_info int string string string
  | Lk_list int
  | Lk_timer int

fun lock_step :: "(string \<Rightarrow> string) \<Rightarrow> (int \<Rightarrow> int) \<Rightarrow> model_locks \<Rightarrow> lock_event \<Rightarrow> model_locks" where
  "lock_step canon midnight s (Lk_fail now p c m reason status fb profile options) =
     snd (recordModelLockoutFailure canon (midnight now) now p c m reason status fb profile options s)"
| "lock_step canon midnight s (Lk_lock now p c m reason cooldownMs) = lockModel canon now p c m reason cooldownMs no_meta s"
| "lock_step canon midnight s (Lk_lock_exact now p c m reason cooldownMs) =
     lockExactModel canon now p c m reason cooldownMs no_meta s"
| "lock_step canon midnight s (Lk_clear p c m) = snd (clearModelLock canon p c m s)"
| "lock_step canon midnight s Lk_clear_all = clearAllModelLockouts s"
| "lock_step canon midnight s (Lk_decay p c m) = snd (decayModelFailureCount canon p c m s)"
| "lock_step canon midnight s (Lk_query now p c m) = snd (isModelLocked canon now p c m s)"
| "lock_step canon midnight s (Lk_info now p c m) = snd (getModelLockoutInfo canon now p c m s)"
| "lock_step canon midnight s (Lk_list now) = snd (getAllModelLockouts now s)"
| "lock_step canon midnight s (Lk_timer now) = cleanup_timer_fires now s"

text \<open>When an event happens, if its effect depends on it.\<close>

fun event_time :: "lock_event \<Rightarrow> int option" where
  "event_time (Lk_fail now p c m reason status fb profile options) = Some now"
| "event_time (Lk_lock now p c m reason cooldownMs) = Some now"
| "event_time (Lk_lock_exact now p c m reason cooldownMs) = Some now"
| "event_time (Lk_query now p c m) = Some now"
| "event_time (Lk_info now p c m) = Some now"
| "event_time (Lk_list now) = Some now"
| "event_time (Lk_timer now) = Some now"
| "event_time _ = None"

text \<open>The locks an event takes away on purpose.\<close>

fun event_clears :: "(string \<Rightarrow> string) \<Rightarrow> string \<Rightarrow> lock_event \<Rightarrow> bool" where
  "event_clears canon key (Lk_clear p c m) \<longleftrightarrow> key \<in> set (getModelLockKeys canon p c m)"
| "event_clears canon key Lk_clear_all \<longleftrightarrow> True"
| "event_clears canon key _ \<longleftrightarrow> False"


section \<open>Locks hold\<close>

definition locked_until :: "string \<Rightarrow> int \<Rightarrow> model_locks \<Rightarrow> bool" where
  "locked_until key u s \<longleftrightarrow> (\<exists>e. js_get (modelLockouts s) key = Some e \<and> u \<le> lkUntil e)"

lemma set_lock_keys:
  "set (getModelLockKeys canon p c m) =
     {getModelLockKey canon p c m None None, getModelLockKey canon p c m (Some ''not_found'') (Some 404),
      buildExactModelLockKey (canon p) c m}"
  by (auto simp: getModelLockKeys_def collectModelLockKeys_def)

lemma cleanup_locks:
  "js_get (modelLockouts (cleanupModelLockKey key now s)) k =
     (case js_get (modelLockouts s) k of
        Some e \<Rightarrow> if k = key \<and> now > lkUntil e then None else Some e
      | None \<Rightarrow> None)"
  by (auto simp: cleanupModelLockKey_def Let_def split: option.splits)

lemma cleanup_failures:
  "js_get (modelFailureState (cleanupModelLockKey key now s)) k =
     (case js_get (modelFailureState s) k of
        Some f \<Rightarrow> if k = key \<and> now > counts_until f \<and> js_get (modelLockouts (cleanupModelLockKey key now s)) key = None
                  then None else Some f
      | None \<Rightarrow> None)"
  by (auto simp: cleanupModelLockKey_def js_has_def Let_def split: option.splits)

lemma locked_cleanup: "locked_until key u s \<Longrightarrow> now \<le> u \<Longrightarrow> locked_until key u (cleanupModelLockKey k now s)"
  by (auto simp: locked_until_def cleanup_locks)

lemma locked_frame [simp]: "locked_until key u (s\<lparr>modelFailureState := m\<rparr>) = locked_until key u s"
  by (simp add: locked_until_def)

lemma locked_put: "locked_until key u s \<Longrightarrow> now \<le> u \<Longrightarrow> locked_until key u (put_lock k now reason d meta s)"
  using locked_cleanup [of key u s now k]
  by (auto simp: put_lock_def locked_until_def computeLockEntry_def new_entry_def Let_def split: option.splits)

lemma put_locks: "locked_until k (now + d) (put_lock k now reason d meta s)"
  by (auto simp: put_lock_def locked_until_def computeLockEntry_def new_entry_def Let_def split: option.split)

lemma locked_lock:
  assumes "locked_until key u s" "now \<le> u"
  shows "locked_until key u (lockModel canon now p c m reason d meta s)"
    and "locked_until key u (lockExactModel canon now p c m reason d meta s)"
  using assms by (simp_all add: lockModel_def lockExactModel_def locked_put)

lemma locked_record:
  assumes "locked_until key u s" "now \<le> u"
  shows "locked_until key u (snd (recordModelLockoutFailure canon mn now p c m reason st fb profile opts s))"
  using assms
  by (simp add: recordModelLockoutFailure_def Let_def locked_cleanup locked_lock)

lemma locked_clear:
  "locked_until key u s \<Longrightarrow> key \<notin> set keys \<Longrightarrow> locked_until key u (snd (clearMultiKeyLock keys s))"
proof (induction keys arbitrary: s)
  case (Cons k keys)
  then have "locked_until key u (s\<lparr>modelLockouts := js_delete k (modelLockouts s),
      modelFailureState := js_delete k (modelFailureState s)\<rparr>)"
    by (simp add: locked_until_def)
  with Cons show ?case by (simp add: case_prod_unfold Let_def)
qed simp

lemma locked_any: "locked_until key u s \<Longrightarrow> now \<le> u \<Longrightarrow> locked_until key u (snd (isAnyKeyLocked now keys s))"
  by (induction keys arbitrary: s) (auto simp: Let_def locked_cleanup)

lemma locked_collect: "locked_until key u s \<Longrightarrow> now \<le> u \<Longrightarrow> locked_until key u (snd (collect_entries now keys s))"
  by (induction keys arbitrary: s) (auto simp: Let_def locked_cleanup case_prod_unfold split: option.split)

lemma locked_cleanup_keys: "locked_until key u s \<Longrightarrow> now \<le> u \<Longrightarrow> locked_until key u (cleanup_keys now keys s)"
  unfolding cleanup_keys_def by (induction keys arbitrary: s) (auto simp: locked_cleanup)

lemma get_filter_key: "js_get (filter (\<lambda>(k, v). P k) m) k = (if P k then js_get m k else None)"
  by (induction m) auto

lemma evict_failures_locks [simp]: "modelLockouts (evict_failures cap s) = modelLockouts s"
  by (simp add: evict_failures_def Let_def)

lemma locked_evict:
  assumes "js_map_ok (modelLockouts s)" "locked_until key u s" "now < u"
  shows "locked_until key u (evictLockoutOverflow cap now s)"
proof -
  obtain e where e: "js_get (modelLockouts s) key = Some e" "u \<le> lkUntil e"
    using assms(2) by (auto simp: locked_until_def)
  have "\<not> (key, e') \<in> set (modelLockouts s) \<or> e' = e" for e'
    using assms(1) e(1) by (metis map_of_eq_Some_iff option.inject)
  with assms(3) e(2) have "key \<notin> set (map fst (filter (\<lambda>(k, e). lkUntil e \<le> now) (modelLockouts s)))"
    by fastforce
  then have "key \<notin> set (take n (map fst (filter (\<lambda>(k, e). lkUntil e \<le> now) (modelLockouts s))))" for n
    by (meson in_set_takeD)
  with e show ?thesis
    by (auto simp: locked_until_def evictLockoutOverflow_def get_filter_key Let_def)
qed

definition locks_ok :: "model_locks \<Rightarrow> bool" where
  "locks_ok s \<longleftrightarrow> js_map_ok (modelLockouts s) \<and> js_map_ok (modelFailureState s)"

lemma locks_ok_updates [wf_intros, simp]:
  "locks_ok s \<Longrightarrow> locks_ok (s\<lparr>modelLockouts := js_set k e (modelLockouts s)\<rparr>)"
  "locks_ok s \<Longrightarrow> locks_ok (s\<lparr>modelFailureState := js_set k f (modelFailureState s)\<rparr>)"
  "locks_ok s \<Longrightarrow> locks_ok (s\<lparr>modelLockouts := js_delete k (modelLockouts s)\<rparr>)"
  "locks_ok s \<Longrightarrow> locks_ok (s\<lparr>modelFailureState := js_delete k (modelFailureState s)\<rparr>)"
  "locks_ok s \<Longrightarrow> locks_ok (s\<lparr>modelLockouts := js_delete k (modelLockouts s),
      modelFailureState := js_delete k (modelFailureState s)\<rparr>)"
  by (simp_all add: locks_ok_def)

lemma map_ok_filter: "js_map_ok m \<Longrightarrow> js_map_ok (filter P m)"
  by (induction m) auto

lemma locks_ok_cleanup [wf_intros, simp]: "locks_ok s \<Longrightarrow> locks_ok (cleanupModelLockKey k now s)"
  by (simp add: cleanupModelLockKey_def Let_def split: option.split)

lemma locks_ok_cleanup_keys [wf_intros, simp]: "locks_ok s \<Longrightarrow> locks_ok (cleanup_keys now ks s)"
  unfolding cleanup_keys_def by (induction ks arbitrary: s) simp_all

lemma locks_ok_put [wf_intros, simp]: "locks_ok s \<Longrightarrow> locks_ok (put_lock k now reason d meta s)"
  by (simp add: put_lock_def Let_def split: option.split)

lemma locks_ok_lock [wf_intros, simp]:
  "locks_ok s \<Longrightarrow> locks_ok (lockModel canon now p c m reason d meta s)"
  "locks_ok s \<Longrightarrow> locks_ok (lockExactModel canon now p c m reason d meta s)"
  by (simp_all add: lockModel_def lockExactModel_def)

lemma locks_ok_record [wf_intros, simp]:
  "locks_ok s \<Longrightarrow> locks_ok (snd (recordModelLockoutFailure canon mn now p c m reason st fb profile opts s))"
  by (simp add: recordModelLockoutFailure_def Let_def)

lemma locks_ok_clear [wf_intros, simp]: "locks_ok s \<Longrightarrow> locks_ok (snd (clearMultiKeyLock ks s))"
  by (induction ks arbitrary: s) (simp_all add: case_prod_unfold Let_def)

lemma locks_ok_any [wf_intros, simp]: "locks_ok s \<Longrightarrow> locks_ok (snd (isAnyKeyLocked now ks s))"
  by (induction ks arbitrary: s) (simp_all add: Let_def)

lemma locks_ok_collect [wf_intros, simp]: "locks_ok s \<Longrightarrow> locks_ok (snd (collect_entries now ks s))"
  by (induction ks arbitrary: s) (simp_all add: Let_def case_prod_unfold split: option.split)

lemma locks_ok_decay [wf_intros, simp]: "locks_ok s \<Longrightarrow> locks_ok (snd (decayModelFailureCount canon p c m s))"
  by (simp add: decayModelFailureCount_def Let_def split: option.split)

lemma locks_ok_evict [wf_intros, simp]: "locks_ok s \<Longrightarrow> locks_ok (evictLockoutOverflow cap now s)"
  by (simp add: locks_ok_def evictLockoutOverflow_def evict_failures_def Let_def map_ok_filter)

lemma locks_ok_step: "locks_ok s \<Longrightarrow> locks_ok (lock_step canon midnight s ev)"
  by (cases ev) (simp_all add: clearModelLock_def clearAllModelLockouts_def no_locks_def locks_ok_def [of "\<lparr>modelLockouts = [], modelFailureState = []\<rparr>"]
      isModelLocked_def getModelLockoutInfo_def findLatestLockEntry_def getAllModelLockouts_def
      cleanup_timer_fires_def Let_def case_prod_unfold)

interpretation model_lock_run: step_invariant "lock_step canon midnight" "\<lambda>_ _. True" locks_ok for canon midnight
  by unfold_locales (rule locks_ok_step)

lemma run_locks_ok: "locks_ok (foldl (lock_step canon midnight) no_locks evs)"
  by (rule model_lock_run.run_always_good) (simp_all add: no_locks_def locks_ok_def)

lemma locked_step:
  assumes "locks_ok s" "locked_until key u s" "\<not> event_clears canon key ev"
    and "case event_time ev of Some now \<Rightarrow> now < u | None \<Rightarrow> True"
  shows "locked_until key u (lock_step canon midnight s ev)"
  using assms
proof (cases ev)
  case (Lk_timer now)
  with assms show ?thesis
    by (auto simp: cleanup_timer_fires_def Let_def locks_ok_def [symmetric] locked_cleanup_keys
        intro!: locked_evict) (metis locks_ok_cleanup_keys locks_ok_def)
qed (auto simp: locked_record locked_lock clearModelLock_def locked_clear decayModelFailureCount_def isModelLocked_def
      locked_any getModelLockoutInfo_def findLatestLockEntry_def locked_collect getAllModelLockouts_def
      locked_cleanup_keys Let_def case_prod_unfold split: option.splits)

definition lock_spares :: "(string \<Rightarrow> string) \<Rightarrow> string list \<Rightarrow> int \<Rightarrow> lock_event \<Rightarrow> bool" where
  "lock_spares canon keys u ev \<longleftrightarrow>
     list_all (\<lambda>key. \<not> event_clears canon key ev) keys \<and>
     (case event_time ev of Some now \<Rightarrow> now < u | None \<Rightarrow> True)"

lemma locked_run:
  assumes "locks_ok s" "locked_until key u s" "key \<in> set keys" "\<forall>ev \<in> set evs. lock_spares canon keys u ev"
  shows "locked_until key u (foldl (lock_step canon midnight) s evs)"
  using assms
  by (induction evs arbitrary: s) (auto simp: lock_spares_def list_all_iff locked_step locks_ok_step)

lemma any_locked: "locked_until key u s \<Longrightarrow> key \<in> set keys \<Longrightarrow> now \<le> u \<Longrightarrow> fst (isAnyKeyLocked now keys s)"
proof (induction keys arbitrary: s)
  case (Cons k keys)
  let ?s = "cleanupModelLockKey k now s"
  have "locked_until key u ?s" using Cons.prems(1,3) by (simp add: locked_cleanup)
  with Cons show ?case by (auto simp: Let_def js_has_def locked_until_def)
qed simp

lemma record_locks:
  assumes "recordModelLockoutFailure canon mn now p c m reason st fb profile opts s = (r, s')" "m \<noteq> []"
  shows "\<exists>key \<in> set (getModelLockKeys canon p c m). locked_until key (now + lrCooldownMs r) s'"
proof -
  let ?key = "if loScopeExact opts then buildExactModelLockKey (canon p) c m
    else getModelLockKey canon p c m (Some reason) None"
  let ?R = "recordModelLockoutFailure canon mn now p c m reason st fb profile opts s"
  have "locked_until ?key (now + lrCooldownMs (fst ?R)) (snd ?R)"
    using assms(2)
    by (simp add: recordModelLockoutFailure_def lockModel_def lockExactModel_def Let_def put_locks)
  moreover have "?key \<in> set (getModelLockKeys canon p c m)"
    by (auto simp: set_lock_keys getModelLockKey_def Let_def)
  ultimately show ?thesis using assms(1) by (metis fst_conv snd_conv)
qed

text \<open>
  C33: a lock holds. Once a failure of a model on an account has been answered with a cooldown, the
  model counts as locked there until that cooldown is over, however its provider is spelled: whatever
  else fails, is locked, decays, expires, is evicted or asked in the meantime, only a success of a model
  that shares the lock or a full reset takes it away.
\<close>

theorem model_lock_holds:
  assumes "s = foldl (lock_step canon midnight) no_locks past"
    and "recordModelLockoutFailure canon mn now p c m reason st fb profile opts s = (r, s')" "m \<noteq> []"
    and "\<forall>ev \<in> set evs. lock_spares canon (getModelLockKeys canon p c m) (now + lrCooldownMs r) ev"
    and "canon p' = canon p" "t \<le> now + lrCooldownMs r"
  shows "fst (isModelLocked canon t p' c m (foldl (lock_step canon midnight) s' evs))"
proof -
  obtain key where key: "key \<in> set (getModelLockKeys canon p c m)" "locked_until key (now + lrCooldownMs r) s'"
    using record_locks [OF assms(2,3)] by blast
  have "locks_ok s'"
    using assms(1,2) run_locks_ok [of canon midnight past] by (metis locks_ok_record snd_conv)
  then have "locked_until key (now + lrCooldownMs r) (foldl (lock_step canon midnight) s' evs)"
    using key assms(4) by (intro locked_run)
  moreover have "getModelLockKeys canon p' c m = getModelLockKeys canon p c m"
    by (simp add: getModelLockKeys_def getModelLockKey_def assms(5) Let_def)
  ultimately show ?thesis
    using key(1) assms(3,6) any_locked by (simp add: isModelLocked_def)
qed

definition plain_lock_options :: lock_options where
  "plain_lock_options = \<lparr>loExactCooldownMs = None, loMaxCooldownMs = Some 60000, loScopeExact = False, loIsUpstreamReset = False\<rparr>"

definition cx_alias :: "string \<Rightarrow> string" where
  "cx_alias p = (if p = ''cx'' then ''codex'' else p)"

theorem model_lock_holds_witness:
  "fst (isModelLocked cx_alias 5900 ''codex'' ''a'' ''gpt-5''
     (foldl (lock_step cx_alias (\<lambda>_. 1000))
       (snd (recordModelLockoutFailure cx_alias 1000 900 ''cx'' ''a'' ''gpt-5'' ''rate_limit'' 429 5000 None plain_lock_options no_locks))
       [Lk_timer 5000, Lk_decay ''cx'' ''a'' ''gpt-5'', Lk_fail 5100 ''cx'' ''b'' ''gpt-5'' ''rate_limit'' 429 0 None plain_lock_options,
        Lk_clear ''cx'' ''b'' ''gpt-5'', Lk_query 5200 ''cx'' ''a'' ''gpt-5-codex-spark'']))"
proof -
  let ?R = "recordModelLockoutFailure cx_alias 1000 900 ''cx'' ''a'' ''gpt-5'' ''rate_limit'' 429 5000 None plain_lock_options no_locks"
  have cd: "lrCooldownMs (fst ?R) = 5000" by code_simp
  show ?thesis
  proof (rule model_lock_holds [where past = "[]" and canon = cx_alias and p = "''cx''" and now = 900 and r = "fst ?R" and s = no_locks])
    show "recordModelLockoutFailure cx_alias 1000 900 ''cx'' ''a'' ''gpt-5'' ''rate_limit'' 429 5000 None plain_lock_options no_locks
        = (fst ?R, snd ?R)" by simp
    show "\<forall>ev \<in> set [Lk_timer 5000, Lk_decay ''cx'' ''a'' ''gpt-5'', Lk_fail 5100 ''cx'' ''b'' ''gpt-5'' ''rate_limit'' 429 0 None plain_lock_options,
        Lk_clear ''cx'' ''b'' ''gpt-5'', Lk_query 5200 ''cx'' ''a'' ''gpt-5-codex-spark''].
        lock_spares cx_alias (getModelLockKeys cx_alias ''cx'' ''a'' ''gpt-5'') (900 + lrCooldownMs (fst ?R)) ev"
      unfolding cd by code_simp
  qed (simp_all add: cd cx_alias_def)
qed


section \<open>Accounts are isolated\<close>

fun event_connection :: "lock_event \<Rightarrow> string option" where
  "event_connection (Lk_fail now p c m reason status fb profile options) = Some c"
| "event_connection (Lk_lock now p c m reason cooldownMs) = Some c"
| "event_connection (Lk_lock_exact now p c m reason cooldownMs) = Some c"
| "event_connection (Lk_clear p c m) = Some c"
| "event_connection (Lk_decay p c m) = Some c"
| "event_connection (Lk_query now p c m) = Some c"
| "event_connection (Lk_info now p c m) = Some c"
| "event_connection _ = None"

lemma colon_prefix:
  assumes "CHR '':'' \<notin> set p" "CHR '':'' \<notin> set q" "p @ CHR '':'' # x = q @ CHR '':'' # y"
  shows "p = q \<and> x = y"
proof -
  have "takeWhile (\<lambda>c. c \<noteq> CHR '':'') (r @ CHR '':'' # z) = r" if "CHR '':'' \<notin> set r" for r z
    using that by (induction r) auto
  with assms have "p = q" by metis
  with assms(3) show ?thesis by simp
qed

lemma join_key_inject:
  assumes "CHR '':'' \<notin> set p" "CHR '':'' \<notin> set q" "CHR '':'' \<notin> set c" "CHR '':'' \<notin> set d"
    and "join_key p c x = join_key q d y"
  shows "c = d"
proof -
  have "c @ CHR '':'' # x = d @ CHR '':'' # y"
    using colon_prefix [OF assms(1,2), of "c @ CHR '':'' # x" "d @ CHR '':'' # y"] assms(5)
    by (simp add: join_key_def)
  with colon_prefix [OF assms(3,4)] show ?thesis by blast
qed

text \<open>A set of keys is left alone by what concerns other keys.\<close>

definition same_on :: "string set \<Rightarrow> model_locks \<Rightarrow> model_locks \<Rightarrow> bool" where
  "same_on K s s' \<longleftrightarrow> (\<forall>k \<in> K. js_get (modelLockouts s') k = js_get (modelLockouts s) k)"

lemma same_on_refl [simp]: "same_on K s s"
  by (simp add: same_on_def)

lemma same_on_trans: "same_on K s t \<Longrightarrow> same_on K t u \<Longrightarrow> same_on K s u"
  by (simp add: same_on_def)

lemma same_on_cleanup: "key \<notin> K \<Longrightarrow> same_on K s t \<Longrightarrow> same_on K s (cleanupModelLockKey key now t)"
  by (auto simp: same_on_def cleanup_locks split: option.split)

lemma same_on_put: "key \<notin> K \<Longrightarrow> same_on K s t \<Longrightarrow> same_on K s (put_lock key now reason d meta t)"
  using same_on_cleanup [of key K s t now]
  by (auto simp: put_lock_def same_on_def Let_def split: option.split)

lemma same_on_failures: "same_on K s t \<Longrightarrow> same_on K s (t\<lparr>modelFailureState := m\<rparr>)"
  by (simp add: same_on_def)

lemma same_on_clear: "set keys \<inter> K = {} \<Longrightarrow> same_on K s t \<Longrightarrow> same_on K s (snd (clearMultiKeyLock keys t))"
proof (induction keys arbitrary: t)
  case (Cons k keys)
  then have "same_on K s (t\<lparr>modelLockouts := js_delete k (modelLockouts t), modelFailureState := js_delete k (modelFailureState t)\<rparr>)"
    by (auto simp: same_on_def)
  with Cons show ?case by (simp add: case_prod_unfold Let_def)
qed simp

lemma same_on_any: "set keys \<inter> K = {} \<Longrightarrow> same_on K s t \<Longrightarrow> same_on K s (snd (isAnyKeyLocked now keys t))"
  by (induction keys arbitrary: t) (auto simp: Let_def same_on_cleanup)

lemma same_on_collect: "set keys \<inter> K = {} \<Longrightarrow> same_on K s t \<Longrightarrow> same_on K s (snd (collect_entries now keys t))"
  by (induction keys arbitrary: t) (auto simp: Let_def same_on_cleanup case_prod_unfold split: option.split)

text \<open>The keys of an account.\<close>

definition account_keys :: "string \<Rightarrow> string set" where
  "account_keys c = {join_key p c x | p x. CHR '':'' \<notin> set p}"

lemma keys_of_account:
  assumes "CHR '':'' \<notin> set (canon p)"
  shows "getModelLockKey canon p c m reason st \<in> account_keys c"
    and "buildExactModelLockKey (canon p) c m \<in> account_keys c"
    and "set (getModelLockKeys canon p c m) \<subseteq> account_keys c"
  using assms by (auto simp: account_keys_def set_lock_keys getModelLockKey_def buildExactModelLockKey_def Let_def)

lemma account_keys_disjoint:
  assumes "CHR '':'' \<notin> set c" "CHR '':'' \<notin> set d" "c \<noteq> d"
  shows "account_keys c \<inter> account_keys d = {}"
  using assms join_key_inject [of _ _ c d] by (fastforce simp: account_keys_def)

lemma other_account_step:
  assumes "\<And>q. CHR '':'' \<notin> set (canon q)" "event_connection ev = Some d"
    and "account_keys c \<inter> account_keys d = {}"
  shows "same_on (account_keys c) s (lock_step canon midnight s ev)"
proof -
  have keys: "getModelLockKey canon p d m reason st \<notin> account_keys c"
    "buildExactModelLockKey (canon p) d m \<notin> account_keys c"
    "set (getModelLockKeys canon p d m) \<inter> account_keys c = {}" for p m reason st
    using keys_of_account [of canon p] assms(1,3) by blast+
  then show ?thesis
    using assms(2)
    by (cases ev)
       (auto simp: recordModelLockoutFailure_def lockModel_def lockExactModel_def clearModelLock_def
         decayModelFailureCount_def isModelLocked_def getModelLockoutInfo_def findLatestLockEntry_def Let_def
         case_prod_unfold same_on_put same_on_failures same_on_cleanup same_on_clear same_on_any same_on_collect
         split: option.split)
qed

lemma any_same: "same_on (set keys) s t \<Longrightarrow> fst (isAnyKeyLocked now keys t) = fst (isAnyKeyLocked now keys s)"
proof (induction keys arbitrary: s t)
  case (Cons k keys)
  then have "same_on (set (k # keys)) (cleanupModelLockKey k now s) (cleanupModelLockKey k now t)"
    by (simp add: same_on_def cleanup_locks)
  with Cons.IH show ?case by (auto simp: Let_def js_has_def same_on_def)
qed simp

text \<open>
  C34: accounts are isolated. Whatever happens to another connection (failures of any model, locks,
  successes, queries), a model is locked on this connection exactly if it was before: the keys of two
  connections never meet, whatever the models are called, since ids have no colon.
\<close>

theorem accounts_isolated:
  assumes "\<And>q. CHR '':'' \<notin> set (canon q)" "CHR '':'' \<notin> set c"
    and "\<forall>ev \<in> set evs. case event_connection ev of Some d \<Rightarrow> d \<noteq> c \<and> CHR '':'' \<notin> set d | None \<Rightarrow> False"
  shows "fst (isModelLocked canon t p c m (foldl (lock_step canon midnight) s evs)) = fst (isModelLocked canon t p c m s)"
proof -
  have "same_on (account_keys c) s (foldl (lock_step canon midnight) s evs)"
    using assms(3)
  proof (induction evs rule: rev_induct)
    case (snoc ev evs)
    then obtain d where "event_connection ev = Some d" "d \<noteq> c" "CHR '':'' \<notin> set d" by (auto split: option.splits)
    with snoc show ?case
      using other_account_step [OF assms(1), of ev d c] account_keys_disjoint [OF assms(2), of d]
      by (auto intro: same_on_trans)
  qed simp
  then have "same_on (set (getModelLockKeys canon p c m)) s (foldl (lock_step canon midnight) s evs)"
    using keys_of_account(3) [of canon p c m] assms(1) by (auto simp: same_on_def)
  then show ?thesis by (simp add: isModelLocked_def any_same)
qed

theorem accounts_isolated_witness:
  "\<not> fst (isModelLocked (\<lambda>_. ''codex'') 10 ''codex'' ''a'' ''gpt-5''
     (foldl (lock_step (\<lambda>_. ''codex'') (\<lambda>_. 1000)) no_locks
       [Lk_fail 5 ''codex'' ''b'' ''gpt-5'' ''rate_limit'' 429 0 None plain_lock_options]))"
proof -
  have "\<not> fst (isModelLocked (\<lambda>_. ''codex'') 10 ''codex'' ''a'' ''gpt-5'' no_locks)" by code_simp
  then show ?thesis
    by (subst accounts_isolated) simp_all
qed


section \<open>Backoff\<close>

lemma scaled_positive: "0 < getScaledCooldown base n steps"
  by (simp add: getScaledCooldown_def Let_def)

lemma lockout_cooldown_positive: "0 < lockout_cooldown status n fb profile opts"
  using scaled_positive
  by (auto simp: lockout_cooldown_def opt_default_def BACKOFF_MAX_def Let_def split: option.split)

text \<open>A cooldown that the upstream did not name stays below the configured cap.\<close>

lemma lockout_cooldown_capped:
  assumes "loMaxCooldownMs opts = Some m" "0 < m" "\<not> loIsUpstreamReset opts"
  shows "lockout_cooldown status n fb profile opts \<le> m"
  using assms by (auto simp: lockout_cooldown_def opt_default_def Let_def split: option.split)

text \<open>Events that only look, and the timer.\<close>

fun quiet :: "int \<Rightarrow> lock_event \<Rightarrow> bool" where
  "quiet u (Lk_query now p c m) \<longleftrightarrow> now \<le> u"
| "quiet u (Lk_info now p c m) \<longleftrightarrow> now \<le> u"
| "quiet u (Lk_list now) \<longleftrightarrow> now \<le> u"
| "quiet u (Lk_timer now) \<longleftrightarrow> now \<le> u"
| "quiet u _ \<longleftrightarrow> False"

definition locks_roomy :: "model_locks \<Rightarrow> bool" where
  "locks_roomy s \<longleftrightarrow> length (modelLockouts s) \<le> MODEL_LOCKOUT_EVICTION_CAP
     \<and> length (modelFailureState s) \<le> MODEL_LOCKOUT_EVICTION_CAP"

definition remembers :: "string \<Rightarrow> ModelFailureState \<Rightarrow> model_locks \<Rightarrow> bool" where
  "remembers key f s \<longleftrightarrow> locks_roomy s \<and> js_get (modelFailureState s) key = Some f"

lemma roomy_cleanup: "locks_roomy s \<Longrightarrow> locks_roomy (cleanupModelLockKey k now s)"
  by (auto simp: locks_roomy_def cleanupModelLockKey_def Let_def intro: le_trans [OF length_delete_le] split: option.split)

lemma remembers_cleanup: "remembers key f s \<Longrightarrow> now \<le> counts_until f \<Longrightarrow> remembers key f (cleanupModelLockKey k now s)"
  by (auto simp: remembers_def roomy_cleanup cleanup_failures)

lemma remembers_any: "remembers key f s \<Longrightarrow> now \<le> counts_until f \<Longrightarrow> remembers key f (snd (isAnyKeyLocked now keys s))"
  by (induction keys arbitrary: s) (auto simp: Let_def remembers_cleanup)

lemma remembers_collect: "remembers key f s \<Longrightarrow> now \<le> counts_until f \<Longrightarrow> remembers key f (snd (collect_entries now keys s))"
  by (induction keys arbitrary: s) (auto simp: Let_def remembers_cleanup case_prod_unfold split: option.split)

lemma remembers_cleanup_keys: "remembers key f s \<Longrightarrow> now \<le> counts_until f \<Longrightarrow> remembers key f (cleanup_keys now keys s)"
  unfolding cleanup_keys_def by (induction keys arbitrary: s) (auto simp: remembers_cleanup)

lemma roomy_evict: "locks_roomy s \<Longrightarrow> evictLockoutOverflow MODEL_LOCKOUT_EVICTION_CAP now s = s"
  by (simp add: locks_roomy_def evictLockoutOverflow_def evict_failures_def)

lemma remembers_step: "remembers key f s \<Longrightarrow> quiet (counts_until f) ev \<Longrightarrow> remembers key f (lock_step canon midnight s ev)"
proof (cases ev)
  case (Lk_timer now)
  assume a: "remembers key f s" "quiet (counts_until f) ev"
  let ?s = "cleanup_keys now (js_keys (modelLockouts s)) s"
  have r: "remembers key f (cleanup_keys now (js_keys (modelFailureState ?s)) ?s)"
    using a Lk_timer by (simp add: remembers_cleanup_keys)
  then have "locks_roomy (cleanup_keys now (js_keys (modelFailureState ?s)) ?s)" by (simp add: remembers_def)
  with r show ?thesis by (simp add: Lk_timer cleanup_timer_fires_def Let_def roomy_evict)
qed (auto simp: isModelLocked_def remembers_any getModelLockoutInfo_def findLatestLockEntry_def remembers_collect
      getAllModelLockouts_def remembers_cleanup_keys Let_def case_prod_unfold)

lemma remembers_run:
  "remembers key f s \<Longrightarrow> \<forall>ev \<in> set evs. quiet (counts_until f) ev
     \<Longrightarrow> remembers key f (foldl (lock_step canon midnight) s evs)"
  by (induction evs arbitrary: s) (auto simp: remembers_step)

definition failure_key :: "(string \<Rightarrow> string) \<Rightarrow> string \<Rightarrow> string \<Rightarrow> string \<Rightarrow> string \<Rightarrow> int \<Rightarrow> lock_options \<Rightarrow> string" where
  "failure_key canon p c m reason st opts =
     (if loScopeExact opts then buildExactModelLockKey (canon p) c m
      else getModelLockKey canon p c m (Some reason) (Some st))"

lemma put_lock_failures:
  "js_get (modelFailureState s) key = Some f \<Longrightarrow> now \<le> counts_until f
     \<Longrightarrow> js_get (modelFailureState (put_lock k now reason d meta s)) key = Some f"
  using cleanup_failures [of k now s key]
  by (auto simp: put_lock_def Let_def split: option.splits)

lemma failure_window_positive: "0 < getFailureWindowMs profile 1800000"
  by (simp add: getFailureWindowMs_def split: option.split)

lemma record_remembers:
  assumes "recordModelLockoutFailure canon mn now p c m reason st fb profile opts s = (r, s')"
  shows "js_get (modelFailureState s') (failure_key canon p c m reason st opts)
    = Some \<lparr>mfFailureCount = lrFailureCount r, mfLastFailureAt = now, mfResetAfterMs = lrResetAfterMs r,
            mfLastCooldownMs = Some (lrCooldownMs r)\<rparr>" (is "?G s' r")
proof -
  let ?R = "recordModelLockoutFailure canon mn now p c m reason st fb profile opts s"
  have "?G (snd ?R) (fst ?R)"
    using failure_window_positive [of profile] lockout_cooldown_positive
    by (simp add: recordModelLockoutFailure_def failure_key_def lockModel_def lockExactModel_def Let_def)
       (intro conjI impI put_lock_failures; simp add: counts_until_def opt_default_def add_nonneg_nonneg less_imp_le)
  with assms show ?thesis by simp
qed

lemma record_counts:
  assumes "recordModelLockoutFailure canon mn now p c m reason st fb profile opts s = (r, s')"
    and "js_get (modelFailureState s) (failure_key canon p c m reason st opts) = Some f" "now \<le> counts_until f"
  shows "lrFailureCount r = mfFailureCount f + 1"
proof -
  let ?R = "recordModelLockoutFailure canon mn now p c m reason st fb profile opts s"
  have "lrFailureCount (fst ?R) = mfFailureCount f + 1"
    using assms(2,3)
    by (simp add: recordModelLockoutFailure_def failure_key_def [symmetric] streak_count_def cleanup_failures Let_def)
  with assms(1) show ?thesis by simp
qed

lemma record_cooldown:
  assumes "recordModelLockoutFailure canon mn now p c m reason st fb profile opts s = (r, s')"
    and "loExactCooldownMs opts = None" "reason \<noteq> ''quota_exhausted''"
  shows "lrCooldownMs r = lockout_cooldown st (lrFailureCount r) fb profile opts"
    and "lrResetAfterMs r = getFailureWindowMs profile 1800000"
  using assms by (auto simp: recordModelLockoutFailure_def Let_def)

text \<open>
  C35: backoff. A failure that follows another of the same kind (same target, reason, status,
  options, fallback cooldown and profile) before the first one's window and cooldown are over counts one more, although queries,
  the dashboard and the cleanup timer have run in between (as long as the maps are below their
  cap). When the failure brings no exact cooldown of its own (a hint of the upstream, passed as
  \<open>exactCooldownMs\<close>) and the reason is not \<open>quota_exhausted\<close>, which locks until the next day, its
  cooldown is the base (one second when the base is not positive) doubled once per earlier failure
  of the streak, up to the number of steps of the profile (without one, the default) and up to the
  cap of the options (without a positive one, the default).
\<close>

theorem backoff_escalates:
  assumes "recordModelLockoutFailure canon mn t1 p c m reason st fb profile opts s = (r1, s1)" "locks_roomy s1"
    and "\<forall>ev \<in> set evs. quiet (t1 + lrResetAfterMs r1 + lrCooldownMs r1) ev"
    and "t2 \<le> t1 + lrResetAfterMs r1 + lrCooldownMs r1"
    and "recordModelLockoutFailure canon mn' t2 p c m reason st fb profile opts
           (foldl (lock_step canon midnight) s1 evs) = (r2, s2)"
    and base: "base = getModelLockBaseCooldown st fb profile"
    and steps: "steps = (case profile of Some q \<Rightarrow> prMaxBackoffSteps q | None \<Rightarrow> BACKOFF_MAX_LEVEL)"
    and cap: "cap = (case loMaxCooldownMs opts of Some m \<Rightarrow> if 0 < m then m else BACKOFF_MAX | None \<Rightarrow> BACKOFF_MAX)"
  shows "lrFailureCount r2 = lrFailureCount r1 + 1 \<and>
    (loExactCooldownMs opts = None \<and> reason \<noteq> ''quota_exhausted'' \<longrightarrow>
     lrCooldownMs r2 = min ((if 0 < base then base else 1000)
       * 2 ^ nat (min (max 0 (lrFailureCount r1)) (max 0 steps))) cap)"
proof -
  let ?f = "\<lparr>mfFailureCount = lrFailureCount r1, mfLastFailureAt = t1, mfResetAfterMs = lrResetAfterMs r1,
     mfLastCooldownMs = Some (lrCooldownMs r1)\<rparr>"
  let ?key = "failure_key canon p c m reason st opts"
  have u: "counts_until ?f = t1 + lrResetAfterMs r1 + lrCooldownMs r1" by (simp add: counts_until_def opt_default_def)
  have "remembers ?key ?f s1" using record_remembers [OF assms(1)] assms(2) by (simp add: remembers_def)
  then have "remembers ?key ?f (foldl (lock_step canon midnight) s1 evs)"
    using assms(3) by (intro remembers_run) (simp_all only: u)
  then have n: "lrFailureCount r2 = lrFailureCount r1 + 1"
    using record_counts [OF assms(5), of ?f] assms(4) by (simp add: remembers_def u)
  moreover have "lrCooldownMs r2 = min ((if 0 < base then base else 1000)
       * 2 ^ nat (min (max 0 (lrFailureCount r1)) (max 0 steps))) cap"
    if "loExactCooldownMs opts = None" "reason \<noteq> ''quota_exhausted''"
  proof -
    have "lrCooldownMs r2 = min (getScaledCooldown base (lrFailureCount r2) steps) cap"
      unfolding record_cooldown(1) [OF assms(5) that] lockout_cooldown_def base steps cap Let_def that(1)
      by (cases "loMaxCooldownMs opts") (simp_all add: opt_default_def)
    then show ?thesis by (simp only: getScaledCooldown_def n Let_def add_diff_cancel_right')
  qed
  ultimately show ?thesis by blast
qed

definition gentle_profile :: lock_profile where
  "gentle_profile = \<lparr>prBaseCooldownMs = 3000, prMaxBackoffSteps = 5, prResetTimeoutMs = 30000\<rparr>"

definition first_failure :: model_locks where
  "first_failure = snd (recordModelLockoutFailure id 1000 100 ''openai'' ''a'' ''m'' ''rate_limit'' 429 1000
     (Some gentle_profile) plain_lock_options no_locks)"

theorem backoff_escalates_witness:
  "lrCooldownMs (fst (recordModelLockoutFailure id 1000 30900 ''openai'' ''a'' ''m'' ''rate_limit'' 429 1000
     (Some gentle_profile) plain_lock_options
     (foldl (lock_step id (\<lambda>_. 1000)) first_failure [Lk_timer 15000, Lk_query 20000 ''openai'' ''a'' ''m'', Lk_timer 30000]))) = 2000"
proof -
  let ?R = "recordModelLockoutFailure id 1000 100 ''openai'' ''a'' ''m'' ''rate_limit'' 429 1000 (Some gentle_profile) plain_lock_options no_locks"
  let ?t = "foldl (lock_step id (\<lambda>_. 1000)) first_failure [Lk_timer 15000, Lk_query 20000 ''openai'' ''a'' ''m'', Lk_timer 30000]"
  let ?R2 = "recordModelLockoutFailure id 1000 30900 ''openai'' ''a'' ''m'' ''rate_limit'' 429 1000 (Some gentle_profile) plain_lock_options ?t"
  have "fst ?R = \<lparr>lrCooldownMs = 1000, lrFailureCount = 1, lrResetAfterMs = 30000\<rparr>" by code_simp
  then have 1: "?R = (\<lparr>lrCooldownMs = 1000, lrFailureCount = 1, lrResetAfterMs = 30000\<rparr>, first_failure)"
    by (metis first_failure_def prod.collapse)
  have "locks_roomy first_failure" by code_simp
  with backoff_escalates [OF 1, of "[Lk_timer 15000, Lk_query 20000 ''openai'' ''a'' ''m'', Lk_timer 30000]" 30900 1000 "\<lambda>_. 1000"
      "fst ?R2" "snd ?R2"]
  show ?thesis by (simp add: plain_lock_options_def gentle_profile_def getModelLockBaseCooldown_def)
qed

text \<open>
  A status of 404 with a reason other than \<open>not_found\<close>, as the combo router reports it: the failure is
  counted for the model alone, but the lock is put on its whole quota family.
\<close>

lemma unknown_404_locks_family:
  "fst (isModelLocked id 20 ''antigravity'' ''a'' ''gemini-3-pro''
     (snd (recordModelLockoutFailure id 1000 10 ''antigravity'' ''a'' ''gemini-2.5-flash'' (classifyLockoutReason 404) 404 1000
        None plain_lock_options no_locks)))"
  by code_simp

end
