(* ===== verification/Combo_Cooldown.thy ===== *)
theory Combo_Cooldown
  imports Model_Lockout Resilience_Settings
begin

text \<open>
  Whether a combo waits for a short cooldown and dispatches again,
  \<open>open-sse/services/combo/comboCooldownRetry.ts\<close>, and the accounting of these waits over a request,
  the end of \<open>dispatchWithCooldownRetry\<close> in \<open>combo.ts\<close>. The lookup of a lock is an argument that
  threads a state, because the one the router passes removes expired locks as it looks
  (\<open>Model_Lockout\<close>); the wait that a retry-after hint stands for, and the model in a model string, are
  arguments. Waits are rationals: hints may be fractional.
\<close>


section \<open>The decision\<close>

definition COMBO_COOLDOWN_NON_RETRYABLE_REASONS :: "string list" where
  "COMBO_COOLDOWN_NON_RETRYABLE_REASONS = [''quota_exhausted'', ''auth_error'', ''not_found'', ''not_found_local'']"

definition COMBO_COOLDOWN_RETRYABLE_REASONS :: "string list" where
  "COMBO_COOLDOWN_RETRYABLE_REASONS = [''rate_limit'', ''rate_limited'', ''transient'', ''overloaded'', ''server_error'']"

definition toFiniteWaitMs :: "json \<Rightarrow> rat" where
  "toFiniteWaitMs v = (case v of J_num (Finite r) \<Rightarrow> if r > 0 then r else 0 | _ \<Rightarrow> 0)"

definition isRetryableComboCooldownReason :: "json \<Rightarrow> bool" where
  "isRetryableComboCooldownReason reason =
     (case reason of
        J_str r \<Rightarrow> r \<noteq> [] \<and> r \<notin> set COMBO_COOLDOWN_NON_RETRYABLE_REASONS \<and> r \<in> set COMBO_COOLDOWN_RETRYABLE_REASONS
      | _ \<Rightarrow> False)"

definition shouldWaitForComboCooldown ::
  "json \<Rightarrow> json \<Rightarrow> int \<Rightarrow> rat \<Rightarrow> ComboCooldownWaitSettings \<Rightarrow> bool \<times> rat" where
  "shouldWaitForComboCooldown reason waitMs attempt budgetLeftMs settings =
     (let waitMs = toFiniteWaitMs waitMs in
      (cwEnabled settings \<and> isRetryableComboCooldownReason reason \<and> waitMs > 0 \<and> waitMs \<le> of_int (cwMaxWaitMs settings)
         \<and> attempt < cwMaxAttempts settings \<and> budgetLeftMs \<ge> waitMs,
       waitMs))"

record ComboCooldownLockInfo =
  ciReason :: json
  ciRemainingMs :: js_number

record ComboCooldownTarget =
  ctProvider :: json
  ctConnectionId :: json
  ctModelStr :: json

record cooldown_decision =
  cdWait :: bool
  cdWaitMs :: rat
  cdReason :: "string option"

definition COMBO_COOLDOWN_WAIT_MARGIN_MS :: rat where
  "COMBO_COOLDOWN_WAIT_MARGIN_MS = 50"

text \<open>\<open>typeof v === "string" ? v : ""\<close>\<close>

definition string_or_empty :: "json \<Rightarrow> string" where
  "string_or_empty v = (case v of J_str s \<Rightarrow> s | _ \<Rightarrow> [])"

type_synonym 's lock_lookup = "string \<Rightarrow> string \<Rightarrow> ComboCooldownTarget \<Rightarrow> 's \<Rightarrow> ComboCooldownLockInfo option \<times> 's"

text \<open>The lock that recovers soonest: \<open>best\<close>, with the state of the lookups threaded.\<close>

fun best_lock ::
  "'s lock_lookup \<Rightarrow> ComboCooldownTarget list \<Rightarrow> (json \<times> rat) option \<Rightarrow> 's \<Rightarrow> (json \<times> rat) option \<times> 's" where
  "best_lock lookupLock [] best s = (best, s)"
| "best_lock lookupLock (target # targets) best s =
     (let provider = string_or_empty (ctProvider target) in
      if provider = [] then best_lock lookupLock targets best s
      else
        let (info, s) = lookupLock provider (string_or_empty (ctConnectionId target)) target s in
        case info of
          None \<Rightarrow> best_lock lookupLock targets best s
        | Some info \<Rightarrow>
            let remainingMs = (case ciRemainingMs info of Finite r \<Rightarrow> r | _ \<Rightarrow> 0);
                better = (case best of None \<Rightarrow> True | Some (_, b) \<Rightarrow> remainingMs < b)
            in best_lock lookupLock targets
                 (if remainingMs \<le> 0 then best else if better then Some (ciReason info, remainingMs) else best) s)"

definition resolveComboCooldownWaitDecision ::
  "'s lock_lookup \<Rightarrow> (json \<Rightarrow> json) \<Rightarrow> ComboCooldownTarget list \<Rightarrow> json \<Rightarrow> int \<Rightarrow> rat \<Rightarrow> ComboCooldownWaitSettings
     \<Rightarrow> 's \<Rightarrow> cooldown_decision \<times> 's" where
  "resolveComboCooldownWaitDecision lookupLock computeWaitMs targets earliestRetryAfter attempt budgetLeftMs settings s =
     (if \<not> cwEnabled settings then (\<lparr>cdWait = False, cdWaitMs = 0, cdReason = None\<rparr>, s)
      else
        let (best, s) = best_lock lookupLock targets None s in
        case best of
          None \<Rightarrow> (\<lparr>cdWait = False, cdWaitMs = 0, cdReason = None\<rparr>, s)
        | Some (reason, remainingMs) \<Rightarrow>
            let hintWaitMs = toFiniteWaitMs (computeWaitMs earliestRetryAfter);
                waitMs = max remainingMs hintWaitMs + COMBO_COOLDOWN_WAIT_MARGIN_MS;
                (wait, waitMs) = shouldWaitForComboCooldown reason (J_num (Finite waitMs)) attempt budgetLeftMs settings
            in (\<lparr>cdWait = wait, cdWaitMs = waitMs,
                 cdReason = (case reason of J_str r \<Rightarrow> Some r | _ \<Rightarrow> None)\<rparr>, s))"


section \<open>The waits of a request\<close>

text \<open>The lookup that the router passes.\<close>

definition combo_lookup :: "(string \<Rightarrow> string) \<Rightarrow> (string \<Rightarrow> string) \<Rightarrow> int \<Rightarrow> model_locks lock_lookup" where
  "combo_lookup canon model_of now provider c target s =
     (let rawModel = model_of (string_or_empty (ctModelStr target)) in
      if rawModel = [] then (None, s)
      else
        let (info, s) = getModelLockoutInfo canon now provider c rawModel s
        in (map_option (\<lambda>i. \<lparr>ciReason = J_str (liReason i), ciRemainingMs = Finite (of_int (liRemainingMs i))\<rparr>) info, s))"

text \<open>\<open>comboCooldownAttempt\<close>, \<open>comboCooldownBudgetLeftMs\<close> and the waits so far.\<close>

record cooldown_waits =
  wsAttempt :: int
  wsBudgetLeft :: rat
  wsWaits :: "rat list"

definition start_waits :: "ComboCooldownWaitSettings \<Rightarrow> cooldown_waits" where
  "start_waits settings = \<lparr>wsAttempt = 0, wsBudgetLeft = of_int (cwBudgetMs settings), wsWaits = []\<rparr>"

definition isComboCooldownWaitEligible :: "string \<Rightarrow> ComboCooldownWaitSettings \<Rightarrow> bool" where
  "isComboCooldownWaitEligible strategy settings = cwEnabled settings"

definition json_truthy :: "json \<Rightarrow> bool" where
  "json_truthy v =
     (case v of
        J_undefined \<Rightarrow> False | J_null \<Rightarrow> False | J_bool b \<Rightarrow> b | J_str s \<Rightarrow> s \<noteq> []
      | J_num n \<Rightarrow> n \<noteq> NaN \<and> n \<noteq> Finite 0 | _ \<Rightarrow> True)"

text \<open>
  The end of a pass over all targets that failed: with a retry-after hint, either the request waits
  and dispatches again (\<open>True\<close>), or it fails. A wait that the client aborts ends the request and is
  not counted here.
\<close>

definition cooldown_turn ::
  "'s lock_lookup \<Rightarrow> (json \<Rightarrow> json) \<Rightarrow> string \<Rightarrow> ComboCooldownWaitSettings \<Rightarrow> ComboCooldownTarget list \<Rightarrow> json
     \<Rightarrow> cooldown_waits \<Rightarrow> 's \<Rightarrow> bool \<times> cooldown_waits \<times> 's" where
  "cooldown_turn lookupLock computeWaitMs strategy settings targets earliestRetryAfter w s =
     (if isComboCooldownWaitEligible strategy settings \<and> json_truthy earliestRetryAfter then
        (let (decision, s) = resolveComboCooldownWaitDecision lookupLock computeWaitMs targets earliestRetryAfter
               (wsAttempt w) (wsBudgetLeft w) settings s
         in if cdWait decision
            then (True, \<lparr>wsAttempt = wsAttempt w + 1, wsBudgetLeft = max 0 (wsBudgetLeft w - cdWaitMs decision),
                         wsWaits = wsWaits w @ [cdWaitMs decision]\<rparr>, s)
            else (False, w, s))
      else (False, w, s))"

text \<open>
  A request as the passes it could make: after each the locks are what they are by then (\<open>'s\<close>) and
  the targets failed with some hint. It goes on only as long as it waits.
\<close>

fun request_waits ::
  "'s lock_lookup \<Rightarrow> (json \<Rightarrow> json) \<Rightarrow> string \<Rightarrow> ComboCooldownWaitSettings
     \<Rightarrow> ('s \<times> ComboCooldownTarget list \<times> json) list \<Rightarrow> cooldown_waits \<Rightarrow> cooldown_waits" where
  "request_waits lookupLock computeWaitMs strategy settings [] w = w"
| "request_waits lookupLock computeWaitMs strategy settings ((s, targets, retryAfter) # passes) w =
     (let (again, w, s') = cooldown_turn lookupLock computeWaitMs strategy settings targets retryAfter w s
      in if again then request_waits lookupLock computeWaitMs strategy settings passes w else w)"


section \<open>Properties\<close>

lemma decision_wait:
  assumes "cdWait (fst (resolveComboCooldownWaitDecision lookup compute targets hint attempt budget settings s))"
  shows "attempt < cwMaxAttempts settings"
    and "0 < cdWaitMs (fst (resolveComboCooldownWaitDecision lookup compute targets hint attempt budget settings s))"
    and "cdWaitMs (fst (resolveComboCooldownWaitDecision lookup compute targets hint attempt budget settings s)) \<le> of_int (cwMaxWaitMs settings)"
    and "cdWaitMs (fst (resolveComboCooldownWaitDecision lookup compute targets hint attempt budget settings s)) \<le> budget"
  using assms
  by (auto simp: resolveComboCooldownWaitDecision_def shouldWaitForComboCooldown_def case_prod_unfold Let_def
      split: if_splits option.splits)

definition waits_ok :: "ComboCooldownWaitSettings \<Rightarrow> cooldown_waits \<Rightarrow> bool" where
  "waits_ok settings w \<longleftrightarrow>
     wsAttempt w = int (length (wsWaits w)) \<and> wsAttempt w \<le> cwMaxAttempts settings \<and> 0 \<le> wsBudgetLeft w
     \<and> sum_list (wsWaits w) = of_int (cwBudgetMs settings) - wsBudgetLeft w
     \<and> list_all (\<lambda>d. 0 < d \<and> d \<le> of_int (cwMaxWaitMs settings)) (wsWaits w)"

lemma waits_ok_add:
  assumes "waits_ok settings w" "wsAttempt w < cwMaxAttempts settings" "0 < d" "d \<le> of_int (cwMaxWaitMs settings)"
    and "d \<le> wsBudgetLeft w"
  shows "waits_ok settings \<lparr>wsAttempt = wsAttempt w + 1, wsBudgetLeft = max 0 (wsBudgetLeft w - d), wsWaits = wsWaits w @ [d]\<rparr>"
  using assms by (simp add: waits_ok_def)

lemma waits_ok_turn:
  assumes "waits_ok settings w" "cooldown_turn lookup compute strategy settings targets hint w s = (again, w', s')"
  shows "waits_ok settings w'"
proof -
  let ?d = "fst (resolveComboCooldownWaitDecision lookup compute targets hint (wsAttempt w) (wsBudgetLeft w) settings s)"
  have "w' = w \<or> cdWait ?d \<and> w' = \<lparr>wsAttempt = wsAttempt w + 1, wsBudgetLeft = max 0 (wsBudgetLeft w - cdWaitMs ?d),
      wsWaits = wsWaits w @ [cdWaitMs ?d]\<rparr>"
    using assms(2) by (simp add: cooldown_turn_def case_prod_unfold Let_def split: if_splits)
  then show ?thesis
  proof (elim disjE conjE)
    assume "cdWait ?d"
    from decision_wait [OF this] assms(1) show "waits_ok settings w'"
      if "w' = \<lparr>wsAttempt = wsAttempt w + 1, wsBudgetLeft = max 0 (wsBudgetLeft w - cdWaitMs ?d),
        wsWaits = wsWaits w @ [cdWaitMs ?d]\<rparr>"
      using that by (simp only: waits_ok_add)
  qed (use assms(1) in simp)
qed

lemma waits_ok_request:
  "waits_ok settings w \<Longrightarrow> waits_ok settings (request_waits lookup compute strategy settings passes w)"
proof (induction passes arbitrary: w)
  case (Cons pass passes)
  obtain s targets hint where pass: "pass = (s, targets, hint)" by (cases pass)
  obtain again w' s' where turn: "cooldown_turn lookup compute strategy settings targets hint w s = (again, w', s')"
    by (metis prod_cases3)
  from waits_ok_turn [OF Cons.prems turn] Cons.IH show ?case by (simp add: pass turn)
qed simp

lemma request_waits_bounded:
  assumes "combo_wait_ok settings"
  shows "waits_ok settings (request_waits lookup compute strategy settings passes (start_waits settings))"
  using assms by (intro waits_ok_request) (simp add: waits_ok_def start_waits_def combo_wait_ok_def)

text \<open>
  C36: a request never waits long. With settings as they are read from any stored value and any
  patches (in a process environment whose own values are in range), whatever the locks and hints are after each pass, a request waits at most ten times, never
  more than its budget and five minutes in total, and no single wait is longer than the configured one.
\<close>

theorem request_waits_at_most:
  assumes "env_ok env"
    and "settings = rsComboCooldownWait
      (foldl (mergeResilienceSettings num_of) (resolveResilienceSettings num_of env stored) patches)"
    and "w = request_waits lookup compute strategy settings passes (start_waits settings)"
  shows "length (wsWaits w) \<le> 10 \<and> int (length (wsWaits w)) \<le> cwMaxAttempts settings
    \<and> sum_list (wsWaits w) \<le> of_int (cwBudgetMs settings) \<and> sum_list (wsWaits w) \<le> 300000
    \<and> list_all (\<lambda>d. 0 < d \<and> d \<le> of_int (cwMaxWaitMs settings)) (wsWaits w)"
proof -
  have "settings_ok (foldl (mergeResilienceSettings num_of) (resolveResilienceSettings num_of env stored) patches)"
    by (induction patches rule: rev_induct) (simp_all add: settings_ok_resolve [OF assms(1)] settings_ok_merge)
  then have ok: "combo_wait_ok settings" by (simp add: settings_ok_def assms(2))
  then have bounds: "cwMaxAttempts settings \<le> 10" "(of_int (cwBudgetMs settings) :: rat) \<le> 300000"
    by (simp_all add: combo_wait_ok_def)
  have "waits_ok settings w" using request_waits_bounded [OF ok] assms(3) by simp
  with bounds show ?thesis by (auto simp: waits_ok_def)
qed

text \<open>Settings whose limits matter: two attempts of at most ten seconds within fifteen.\<close>

definition short_waits :: ComboCooldownWaitSettings where
  "short_waits = \<lparr>cwEnabled = True, cwMaxWaitMs = 10000, cwMaxAttempts = 2, cwBudgetMs = 15000\<rparr>"

definition short_waits_stored :: json where
  "short_waits_stored = J_object [(''resilienceSettings'', J_object [(''comboCooldownWait'', combo_wait_json short_waits)])]"

lemma short_waits_read:
  "rsComboCooldownWait (resolveResilienceSettings (\<lambda>_. NaN) plain_env short_waits_stored) = short_waits"
  by code_simp

definition two_targets :: "ComboCooldownTarget list" where
  "two_targets =
     [\<lparr>ctProvider = J_str ''openai'', ctConnectionId = J_str ''a'', ctModelStr = J_str ''m''\<rparr>,
      \<lparr>ctProvider = J_str ''codex'', ctConnectionId = J_null, ctModelStr = J_str ''gpt-5''\<rparr>]"

lemma two_targets_locks:
  "getModelLockoutInfo id 100 ''openai'' ''a'' ''m'' first_failure =
     (Some \<lparr>liReason = ''rate_limit'', liRemainingMs = 1000, liLockedAt = 100, liFailureCount = 1\<rparr>, first_failure)"
  "getModelLockoutInfo id 100 ''codex'' [] ''gpt-5'' first_failure = (None, first_failure)"
  by code_simp+

lemmas wait_eval = resolveComboCooldownWaitDecision_def two_targets_def combo_lookup_def string_or_empty_def
  two_targets_locks short_waits_def shouldWaitForComboCooldown_def toFiniteWaitMs_def
  COMBO_COOLDOWN_WAIT_MARGIN_MS_def isRetryableComboCooldownReason_def
  COMBO_COOLDOWN_NON_RETRYABLE_REASONS_def COMBO_COOLDOWN_RETRYABLE_REASONS_def

text \<open>Five passes over targets that stay locked for a second: the request waits twice and gives up.\<close>

definition locked_passes :: cooldown_waits where
  "locked_passes = request_waits (combo_lookup id id 100) (\<lambda>_. J_null) ''priority'' short_waits
     (replicate 5 (first_failure, two_targets, J_num (Finite 9))) (start_waits short_waits)"

lemma locked_passes_waits: "wsWaits locked_passes = [1050, 1050]"
  by (simp add: locked_passes_def eval_nat_numeral cooldown_turn_def start_waits_def wait_eval
      isComboCooldownWaitEligible_def json_truthy_def Let_def)

theorem request_waits_at_most_witness:
  "wsWaits locked_passes = [1050, 1050] \<and> int (length (wsWaits locked_passes)) \<le> cwMaxAttempts short_waits
     \<and> sum_list (wsWaits locked_passes) \<le> of_int (cwBudgetMs short_waits)"
proof -
  have "short_waits = rsComboCooldownWait (foldl (mergeResilienceSettings (\<lambda>_. NaN))
      (resolveResilienceSettings (\<lambda>_. NaN) plain_env short_waits_stored) [])" by (simp add: short_waits_read)
  from request_waits_at_most [OF plain_env_ok this locked_passes_def] locked_passes_waits show ?thesis by simp
qed


subsection \<open>The wait is long enough\<close>

text \<open>Looking only removes locks.\<close>

definition shrinks :: "model_locks \<Rightarrow> model_locks \<Rightarrow> bool" where
  "shrinks s s' \<longleftrightarrow> (\<forall>k e. js_get (modelLockouts s') k = Some e \<longrightarrow> js_get (modelLockouts s) k = Some e)"

lemma shrinks_refl [simp]: "shrinks s s"
  by (simp add: shrinks_def)

lemma shrinks_trans: "shrinks s t \<Longrightarrow> shrinks t u \<Longrightarrow> shrinks s u"
  by (simp add: shrinks_def)

lemma shrinks_cleanup: "shrinks s (cleanupModelLockKey k now s)"
  by (auto simp: shrinks_def cleanup_locks split: option.splits if_splits)

lemma shrinks_collect: "collect_entries now keys s = (es, s') \<Longrightarrow> shrinks s s'"
proof (induction keys arbitrary: s es)
  case (Cons k keys)
  obtain rest where r: "collect_entries now keys (cleanupModelLockKey k now s) = (rest, s')"
    using Cons.prems by (auto simp: Let_def case_prod_unfold prod_eq_iff split: option.splits)
  from Cons.IH [OF r] show ?case by (blast intro: shrinks_trans shrinks_cleanup)
qed simp

lemma collect_complete:
  "collect_entries now keys s = (es, s') \<Longrightarrow> k \<in> set keys \<Longrightarrow> js_get (modelLockouts s') k = Some e \<Longrightarrow> e \<in> set es"
proof (induction keys arbitrary: s es)
  case (Cons k' keys)
  let ?s = "cleanupModelLockKey k' now s"
  obtain rest where r: "collect_entries now keys ?s = (rest, s')"
    using Cons.prems(1) by (auto simp: Let_def case_prod_unfold prod_eq_iff split: option.splits)
  with Cons.prems(1) have t: "set rest \<subseteq> set es"
    and hit: "js_get (modelLockouts ?s) k' = Some e \<Longrightarrow> e \<in> set es"
    by (auto simp: Let_def split: option.splits)
  show ?case
  proof (cases "k = k'")
    case True
    have "js_get (modelLockouts ?s) k' = Some e"
      using shrinks_collect [OF r] Cons.prems(3) True by (simp add: shrinks_def)
    then show ?thesis by (rule hit)
  next
    case False
    with Cons.IH [OF r] Cons.prems(2,3) t show ?thesis by auto
  qed
qed simp

lemma latest_latest: "latest es = Some e \<Longrightarrow> e' \<in> set es \<Longrightarrow> lkUntil e' \<le> lkUntil e"
proof (induction es arbitrary: e)
  case (Cons a es)
  show ?case
  proof (cases "latest es")
    case None
    then have "es = []" by (cases es) (auto split: option.splits if_splits)
    with Cons.prems show ?thesis by simp
  next
    case (Some b)
    with Cons show ?thesis by (fastforce split: if_splits)
  qed
qed simp

lemma not_any_locked:
  "(\<And>k e. k \<in> set keys \<Longrightarrow> js_get (modelLockouts s) k = Some e \<Longrightarrow> lkUntil e < t) \<Longrightarrow> \<not> fst (isAnyKeyLocked t keys s)"
proof (induction keys arbitrary: s)
  case (Cons k keys)
  let ?s = "cleanupModelLockKey k t s"
  have "\<not> js_has (modelLockouts ?s) k"
    using Cons.prems [of k] by (auto simp: js_has_def cleanup_locks split: option.split)
  moreover have "lkUntil e < t" if "k' \<in> set keys" "js_get (modelLockouts ?s) k' = Some e" for k' e
    using Cons.prems [of k'] that shrinks_cleanup [of s k t] by (auto simp: shrinks_def)
  ultimately show ?case using Cons.IH [of ?s] by (simp add: Let_def)
qed simp

text \<open>All locks of a model on an account end within \<open>d\<close>.\<close>

definition ends_within :: "(string \<Rightarrow> string) \<Rightarrow> int \<Rightarrow> string \<Rightarrow> string \<Rightarrow> string \<Rightarrow> rat \<Rightarrow> model_locks \<Rightarrow> bool" where
  "ends_within canon now p c m d s \<longleftrightarrow>
     (\<forall>k \<in> set (getModelLockKeys canon p c m). \<forall>e. js_get (modelLockouts s) k = Some e \<longrightarrow> of_int (lkUntil e) \<le> of_int now + d)"

lemma ends_within_shrinks: "ends_within canon now p c m d s \<Longrightarrow> shrinks s s' \<Longrightarrow> ends_within canon now p c m d s'"
  by (simp add: ends_within_def shrinks_def)

lemma info_ends:
  assumes "getModelLockoutInfo canon now p c m s = (info, s')"
  shows "shrinks s s'"
    and "info = Some i \<Longrightarrow> m \<noteq> [] \<and> ends_within canon now p c m (of_int (liRemainingMs i)) s'"
proof -
  obtain es t where es: "collect_entries now (getModelLockKeys canon p c m) s = (es, t)" by fastforce
  have s': "s' = (if m = [] then s else t)"
    and info: "info = (if m = [] then None else map_option (\<lambda>e. \<lparr>liReason = lkReason e, liRemainingMs = lkUntil e - now,
        liLockedAt = lkLockedAt e, liFailureCount = lkFailureCount e\<rparr>) (latest es))"
    using assms es by (auto simp: getModelLockoutInfo_def findLatestLockEntry_def split: if_splits)
  show "shrinks s s'" using s' shrinks_collect [OF es] by simp
  assume i: "info = Some i"
  then obtain e where e: "latest es = Some e" "liRemainingMs i = lkUntil e - now" "m \<noteq> []"
    using info by (auto split: if_splits)
  have "lkUntil e' \<le> lkUntil e" if "k \<in> set (getModelLockKeys canon p c m)" "js_get (modelLockouts t) k = Some e'" for k e'
    using latest_latest [OF e(1)] collect_complete [OF es that] by simp
  with e(2,3) s' show "m \<noteq> [] \<and> ends_within canon now p c m (of_int (liRemainingMs i)) s'"
    by (auto simp: ends_within_def)
qed

definition target_model :: "(string \<Rightarrow> string) \<Rightarrow> ComboCooldownTarget \<Rightarrow> string" where
  "target_model model_of target = model_of (string_or_empty (ctModelStr target))"

text \<open>A target with a lock of this reason that ends within \<open>d\<close>.\<close>

definition frees_within ::
  "(string \<Rightarrow> string) \<Rightarrow> (string \<Rightarrow> string) \<Rightarrow> int \<Rightarrow> ComboCooldownTarget \<Rightarrow> rat \<Rightarrow> model_locks \<Rightarrow> bool" where
  "frees_within canon model_of now target d s \<longleftrightarrow>
     string_or_empty (ctProvider target) \<noteq> [] \<and> target_model model_of target \<noteq> [] \<and>
     ends_within canon now (string_or_empty (ctProvider target)) (string_or_empty (ctConnectionId target))
       (target_model model_of target) d s"

lemma frees_within_shrinks:
  "frees_within canon model_of now target d s \<Longrightarrow> shrinks s s' \<Longrightarrow> frees_within canon model_of now target d s'"
  by (auto simp: frees_within_def intro: ends_within_shrinks)

lemma lookup_frees:
  assumes "combo_lookup canon model_of now (string_or_empty (ctProvider target)) (string_or_empty (ctConnectionId target)) target s
      = (info, s')" "string_or_empty (ctProvider target) \<noteq> []"
  shows "shrinks s s'"
    and "info = Some i \<Longrightarrow> \<exists>n. ciRemainingMs i = Finite (of_int n) \<and> frees_within canon model_of now target (of_int n) s'"
proof -
  let ?m = "target_model model_of target"
  obtain li t where li: "getModelLockoutInfo canon now (string_or_empty (ctProvider target))
      (string_or_empty (ctConnectionId target)) ?m s = (li, t)" by fastforce
  have r: "s' = (if ?m = [] then s else t)"
    "info = (if ?m = [] then None
      else map_option (\<lambda>i. \<lparr>ciReason = J_str (liReason i), ciRemainingMs = Finite (of_int (liRemainingMs i))\<rparr>) li)"
    using assms(1) li by (auto simp: combo_lookup_def target_model_def split: if_splits)
  show "shrinks s s'" using r(1) info_ends(1) [OF li] by simp
  show "\<exists>n. ciRemainingMs i = Finite (of_int n) \<and> frees_within canon model_of now target (of_int n) s'" if "info = Some i"
  proof -
    have inf: "info = Some i" by (rule that)
    obtain j where "li = Some j" "ciRemainingMs i = Finite (of_int (liRemainingMs j))" "s' = t" "?m \<noteq> []"
      using r inf by (cases li) (auto split: if_splits)
    with info_ends(2) [OF li] assms(2) show ?thesis by (auto simp: frees_within_def)
  qed
qed

lemma best_lock_frees:
  assumes "best_lock (combo_lookup canon model_of now) targets best s = (Some (reason, d), s')"
  shows "shrinks s s' \<and> (best = Some (reason, d) \<or> (\<exists>target \<in> set targets. frees_within canon model_of now target d s'))"
  using assms
proof (induction targets arbitrary: best s)
  case (Cons target targets)
  let ?p = "string_or_empty (ctProvider target)"
  show ?case
  proof (cases "?p = []")
    case True
    with Cons show ?thesis by auto
  next
    case False
    obtain info t where look: "combo_lookup canon model_of now ?p (string_or_empty (ctConnectionId target)) target s = (info, t)"
      by fastforce
    note l = lookup_frees [OF look False]
    show ?thesis
    proof (cases info)
      case None
      with Cons.prems look False have "best_lock (combo_lookup canon model_of now) targets best t = (Some (reason, d), s')"
        by (simp add: Let_def)
      from Cons.IH [OF this] l(1) show ?thesis by (auto intro: shrinks_trans)
    next
      case (Some i)
      then obtain n where n: "ciRemainingMs i = Finite (of_int n)" "frees_within canon model_of now target (of_int n) t"
        using l(2) by blast
      define best' where "best' = (if (of_int n :: rat) \<le> 0 then best
        else if (case best of None \<Rightarrow> True | Some (_, b) \<Rightarrow> of_int n < b) then Some (ciReason i, of_int n) else best)"
      have "best_lock (combo_lookup canon model_of now) targets best' t = (Some (reason, d), s')"
        using Cons.prems look False Some n(1) by (simp add: Let_def best'_def)
      from Cons.IH [OF this] have ih: "shrinks t s'"
        "best' = Some (reason, d) \<or> (\<exists>target \<in> set targets. frees_within canon model_of now target d s')" by auto
      have "best' = best \<or> best' = Some (ciReason i, of_int n)" by (simp add: best'_def)
      with ih n(2) l(1) show ?thesis by (auto intro: shrinks_trans frees_within_shrinks)
    qed
  qed
qed simp

text \<open>
  C37: waiting pays, and only for what passes. If the router decides to wait, the reason is one of the
  short transient ones, never an exhausted quota, a rejected credential or a missing model; and once
  the wait is over, with nothing recorded in between, one of the combo's targets is not locked any more.
\<close>

theorem wait_clears_lock:
  assumes "resolveComboCooldownWaitDecision (combo_lookup canon model_of now) compute targets hint attempt budget settings s
      = (d, s')" "cdWait d" "of_int now + cdWaitMs d \<le> of_int t"
  shows "(\<exists>r. cdReason d = Some r \<and> r \<in> set COMBO_COOLDOWN_RETRYABLE_REASONS
        \<and> r \<notin> {''quota_exhausted'', ''auth_error'', ''not_found'', ''not_found_local''})
    \<and> (\<exists>target \<in> set targets. string_or_empty (ctProvider target) \<noteq> [] \<and> target_model model_of target \<noteq> []
        \<and> \<not> fst (isModelLocked canon t (string_or_empty (ctProvider target)) (string_or_empty (ctConnectionId target))
                (target_model model_of target) s'))"
proof -
  obtain best t' where b: "best_lock (combo_lookup canon model_of now) targets None s = (best, t')" by fastforce
  obtain reason rem where best: "best = Some (reason, rem)" "t' = s'" "isRetryableComboCooldownReason reason"
      "rem < cdWaitMs d" "cdReason d = (case reason of J_str r \<Rightarrow> Some r | _ \<Rightarrow> None)"
    using assms(1,2) b
    by (auto simp: resolveComboCooldownWaitDecision_def shouldWaitForComboCooldown_def Let_def toFiniteWaitMs_def
        COMBO_COOLDOWN_WAIT_MARGIN_MS_def split: if_splits option.splits)
  obtain target where target: "target \<in> set targets" "frees_within canon model_of now target rem s'"
    using best_lock_frees [of canon model_of now targets None s reason rem s'] b best(1,2) by auto
  have "lkUntil e < t" if "ends_within canon now p c m rem s'" "k \<in> set (getModelLockKeys canon p c m)"
    "js_get (modelLockouts s') k = Some e" for p c m k e
  proof -
    have "(of_int (lkUntil e) :: rat) \<le> of_int now + rem" using that by (simp add: ends_within_def)
    with best(4) assms(3) have "(of_int (lkUntil e) :: rat) < of_int t" by linarith
    then show ?thesis by simp
  qed
  then have "\<not> fst (isModelLocked canon t (string_or_empty (ctProvider target)) (string_or_empty (ctConnectionId target))
      (target_model model_of target) s')"
    using target(2) by (auto simp: isModelLocked_def frees_within_def intro!: not_any_locked)
  with target best(3,5) show ?thesis
    by (auto simp: isRetryableComboCooldownReason_def COMBO_COOLDOWN_NON_RETRYABLE_REASONS_def frees_within_def
        split: json.splits)
qed

theorem wait_clears_lock_witness:
  "cdReason (fst (resolveComboCooldownWaitDecision (combo_lookup id id 100) (\<lambda>_. J_null) two_targets (J_num (Finite 9)) 0 15000
      short_waits first_failure)) \<noteq> Some ''quota_exhausted''"
proof -
  let ?R = "resolveComboCooldownWaitDecision (combo_lookup id id 100) (\<lambda>_. J_null) two_targets (J_num (Finite 9)) 0 15000
      short_waits first_failure"
  have w: "cdWait (fst ?R)" "cdWaitMs (fst ?R) = 1050"
    by (simp_all add: wait_eval)
  have long: "of_int 100 + cdWaitMs (fst ?R) \<le> of_int 1150" unfolding w(2) by simp
  have "?R = (fst ?R, snd ?R)" by simp
  from wait_clears_lock [OF this w(1) long, THEN conjunct1]
  obtain r where r: "cdReason (fst ?R) = Some r" "r \<notin> {''quota_exhausted'', ''auth_error'', ''not_found'', ''not_found_local''}"
    by (elim exE conjE)
  show ?thesis unfolding r(1) using r(2) by simp
qed

end
