(* ===== verification/Provider_Cooldown.thy ===== *)
theory Provider_Cooldown
  imports Resilience_Settings
begin

text \<open>
  The cooldown of failing providers and connections across requests,
  \<open>open-sse/services/providerCooldownTracker.ts\<close>: consecutive failures, the exponential cooldown
  between the limits of the resilience settings, and the cleanup that forgets old entries. A missing
  connection id is the empty string, as the code treats it; the cleanup timer is an operation.
\<close>


section \<open>State and operations\<close>

record CooldownEntry =
  ceLastFailureAt :: int
  ceFailureCount :: int
  ceRetentionMs :: int

type_synonym cooldown_map = "(string, CooldownEntry) js_map"

definition DEFAULT_ENTRY_RETENTION_MS :: int where
  "DEFAULT_ENTRY_RETENTION_MS = 1800000"

text \<open>\<open>settings?.providerCooldown ?? DEFAULT_RESILIENCE_SETTINGS.providerCooldown\<close>\<close>

definition cooldown_limits :: "environment \<Rightarrow> ProviderCooldownSettings option \<Rightarrow> ProviderCooldownSettings" where
  "cooldown_limits env settings =
     (case settings of Some p \<Rightarrow> p | None \<Rightarrow> rsProviderCooldown (DEFAULT_RESILIENCE_SETTINGS env))"

definition getEntryRetentionMs :: "environment \<Rightarrow> ProviderCooldownSettings option \<Rightarrow> int" where
  "getEntryRetentionMs env settings =
     max DEFAULT_ENTRY_RETENTION_MS (pcMaxRetryCooldownMs (cooldown_limits env settings))"

definition cleanupExpiredCooldownEntries :: "int \<Rightarrow> cooldown_map \<Rightarrow> cooldown_map" where
  "cleanupExpiredCooldownEntries now m = filter (\<lambda>(k, entry). \<not> now - ceLastFailureAt entry > ceRetentionMs entry) m"

definition cooldownKey :: "string \<Rightarrow> string \<Rightarrow> string" where
  "cooldownKey provider c = (if c \<noteq> [] then provider @ '':'' @ c else provider)"

definition untracked :: "string \<Rightarrow> bool" where
  "untracked provider \<longleftrightarrow> provider = [] \<or> provider = ''unknown''"

definition recordProviderCooldown ::
  "environment \<Rightarrow> int \<Rightarrow> string \<Rightarrow> string \<Rightarrow> ProviderCooldownSettings option \<Rightarrow> cooldown_map \<Rightarrow> cooldown_map" where
  "recordProviderCooldown env now provider c settings m =
     (if untracked provider then m
      else
        let key = cooldownKey provider c;
            retentionMs = getEntryRetentionMs env settings
        in case js_get m key of
             Some e \<Rightarrow> js_set key \<lparr>ceLastFailureAt = now, ceFailureCount = ceFailureCount e + 1,
                                 ceRetentionMs = max (ceRetentionMs e) retentionMs\<rparr> m
           | None \<Rightarrow> js_set key \<lparr>ceLastFailureAt = now, ceFailureCount = 1, ceRetentionMs = retentionMs\<rparr> m)"

definition scaledCooldownMs :: "ProviderCooldownSettings \<Rightarrow> int \<Rightarrow> int" where
  "scaledCooldownMs limits failureCount =
     (let exponent = min (max 0 (failureCount - 1)) 10
      in min (pcMinRetryCooldownMs limits * 2 ^ nat exponent) (pcMaxRetryCooldownMs limits))"

definition isProviderInCooldown ::
  "environment \<Rightarrow> int \<Rightarrow> string \<Rightarrow> string \<Rightarrow> ProviderCooldownSettings option \<Rightarrow> cooldown_map \<Rightarrow> bool" where
  "isProviderInCooldown env now provider c settings m =
     (if untracked provider then False
      else
        (case js_get m (cooldownKey provider c) of
           None \<Rightarrow> False
         | Some e \<Rightarrow>
             if ceFailureCount e = 0 then False
             else now - ceLastFailureAt e < scaledCooldownMs (cooldown_limits env settings) (ceFailureCount e)))"

definition getRemainingCooldownMs ::
  "environment \<Rightarrow> int \<Rightarrow> string \<Rightarrow> string \<Rightarrow> ProviderCooldownSettings option \<Rightarrow> cooldown_map \<Rightarrow> int" where
  "getRemainingCooldownMs env now provider c settings m =
     (if untracked provider then 0
      else
        (case js_get m (cooldownKey provider c) of
           None \<Rightarrow> 0
         | Some e \<Rightarrow>
             let remaining = scaledCooldownMs (cooldown_limits env settings) (ceFailureCount e) - (now - ceLastFailureAt e)
             in if remaining > 0 then remaining else 0))"

definition recordProviderSuccess :: "string \<Rightarrow> string \<Rightarrow> cooldown_map \<Rightarrow> cooldown_map" where
  "recordProviderSuccess provider c m =
     (if untracked provider then m
      else
        (case js_get m (cooldownKey provider c) of
           Some e \<Rightarrow> js_set (cooldownKey provider c) (e\<lparr>ceFailureCount := 0\<rparr>) m
         | None \<Rightarrow> m))"

definition clearCooldownState :: "cooldown_map \<Rightarrow> cooldown_map" where
  "clearCooldownState m = []"

definition getCooldownEntryCount :: "cooldown_map \<Rightarrow> nat" where
  "getCooldownEntryCount m = length m"


section \<open>Runs\<close>

datatype cooldown_event =
    Co_failure int string string "ProviderCooldownSettings option"
  | Co_success string string
  | Co_cleanup int
  | Co_clear

fun cooldown_step :: "environment \<Rightarrow> cooldown_map \<Rightarrow> cooldown_event \<Rightarrow> cooldown_map" where
  "cooldown_step env m (Co_failure now p c settings) = recordProviderCooldown env now p c settings m"
| "cooldown_step env m (Co_success p c) = recordProviderSuccess p c m"
| "cooldown_step env m (Co_cleanup now) = cleanupExpiredCooldownEntries now m"
| "cooldown_step env m Co_clear = clearCooldownState m"

text \<open>Events that do not concern a key, and cleanups no later than \<open>t\<close>.\<close>

fun elsewhere :: "string \<Rightarrow> int \<Rightarrow> cooldown_event \<Rightarrow> bool" where
  "elsewhere key t (Co_failure now p c settings) \<longleftrightarrow> untracked p \<or> cooldownKey p c \<noteq> key"
| "elsewhere key t (Co_success p c) \<longleftrightarrow> untracked p \<or> cooldownKey p c \<noteq> key"
| "elsewhere key t (Co_cleanup now) \<longleftrightarrow> now \<le> t"
| "elsewhere key t Co_clear \<longleftrightarrow> False"

lemma get_filter_entry:
  assumes "js_map_ok m"
  shows "js_get (filter (\<lambda>(k, v). P k v) m) k =
    (case js_get m k of Some v \<Rightarrow> if P k v then Some v else None | None \<Rightarrow> None)"
  using assms
proof (induction m)
  case (Cons p m)
  have "js_get (filter (\<lambda>(k, v). P k v) m) k = None" if "k \<notin> set (js_keys m)"
    using that by (force simp: map_of_eq_None_iff)
  with Cons show ?case by (cases p) (auto simp: map_of_eq_None_iff split: option.split)
qed simp

definition cooldown_map_ok :: "cooldown_map \<Rightarrow> bool" where
  "cooldown_map_ok m \<longleftrightarrow> js_map_ok m \<and> list_all (\<lambda>(k, e). 0 \<le> ceFailureCount e) m"

lemma cooldown_map_ok_get: "cooldown_map_ok m \<Longrightarrow> js_get m k = Some e \<Longrightarrow> 0 \<le> ceFailureCount e"
  by (auto simp: cooldown_map_ok_def list_all_iff dest: map_of_SomeD)

lemma cooldown_map_ok_set [wf_intros]:
  "cooldown_map_ok m \<Longrightarrow> 0 \<le> ceFailureCount e \<Longrightarrow> cooldown_map_ok (js_set k e m)"
  by (simp add: cooldown_map_ok_def list_all_js_set)

lemma cooldown_map_ok_step: "cooldown_map_ok m \<Longrightarrow> cooldown_map_ok (cooldown_step env m ev)"
proof (cases ev)
  case (Co_cleanup now)
  assume "cooldown_map_ok m"
  then show ?thesis
    by (auto simp: Co_cleanup cooldown_map_ok_def cleanupExpiredCooldownEntries_def distinct_map_filter list_all_iff)
qed (auto simp: recordProviderCooldown_def recordProviderSuccess_def clearCooldownState_def cooldown_map_ok_def [of "[]"] Let_def
      dest: cooldown_map_ok_get intro!: wf_intros split: option.split)

interpretation cooldown_run: step_invariant "cooldown_step env" "\<lambda>_ _. True" cooldown_map_ok for env
  by unfold_locales (rule cooldown_map_ok_step)

text \<open>The entry of a key is kept, or was dropped by a cleanup after its retention.\<close>

definition keeps_entry :: "string \<Rightarrow> CooldownEntry \<Rightarrow> int \<Rightarrow> cooldown_map \<Rightarrow> bool" where
  "keeps_entry key e t m \<longleftrightarrow> cooldown_map_ok m \<and>
     (js_get m key = Some e \<or> js_get m key = None \<and> ceRetentionMs e < t - ceLastFailureAt e)"

lemma keeps_entry_step:
  assumes "keeps_entry key e t m" "elsewhere key t ev"
  shows "keeps_entry key e t (cooldown_step env m ev)"
proof -
  have "cooldown_map_ok (cooldown_step env m ev)" using assms(1) by (simp add: keeps_entry_def cooldown_map_ok_step)
  moreover have "js_map_ok m" using assms(1) by (simp add: keeps_entry_def cooldown_map_ok_def)
  ultimately show ?thesis
    using assms by (cases ev) (auto simp: keeps_entry_def recordProviderCooldown_def recordProviderSuccess_def
        cleanupExpiredCooldownEntries_def get_filter_entry Let_def simp del: map_of_eq_Some_iff split: option.splits)
qed

lemma keeps_entry_run:
  "keeps_entry key e t m \<Longrightarrow> \<forall>ev \<in> set evs. elsewhere key t ev \<Longrightarrow> keeps_entry key e t (foldl (cooldown_step env) m evs)"
  by (induction evs arbitrary: m) (auto simp: keeps_entry_step)

lemma scaled_at_most: "scaledCooldownMs limits n \<le> pcMaxRetryCooldownMs limits"
  by (simp add: scaledCooldownMs_def Let_def)

text \<open>
  The failures in a row of a key as its history counts them, with the time of the last one and the
  time it is remembered for: a success or a clearing ends the row, and so does a cleanup that runs
  later than that after the last failure.
\<close>

fun streak :: "environment \<Rightarrow> string \<Rightarrow> int \<times> int \<times> int \<Rightarrow> cooldown_event \<Rightarrow> int \<times> int \<times> int" where
  "streak env key (n, t, keep) (Co_failure now p c settings) =
     (if untracked p \<or> cooldownKey p c \<noteq> key then (n, t, keep)
      else (n + 1, now, max keep (getEntryRetentionMs env settings)))"
| "streak env key (n, t, keep) (Co_success p c) =
     (if untracked p \<or> cooldownKey p c \<noteq> key then (n, t, keep) else (0, t, keep))"
| "streak env key (n, t, keep) (Co_cleanup now) =
     (if now - t > keep then (0, t, 0) else (n, t, keep))"
| "streak env key (n, t, keep) Co_clear = (0, t, 0)"

definition failures_in_a_row :: "environment \<Rightarrow> string \<Rightarrow> cooldown_event list \<Rightarrow> int" where
  "failures_in_a_row env key past = fst (foldl (streak env key) (0, 0, 0) past)"

definition agrees_with :: "string \<Rightarrow> int \<times> int \<times> int \<Rightarrow> cooldown_map \<Rightarrow> bool" where
  "agrees_with key h m \<longleftrightarrow>
     (case js_get m key of
        Some e \<Rightarrow> h = (ceFailureCount e, ceLastFailureAt e, ceRetentionMs e)
      | None \<Rightarrow> fst h = 0 \<and> snd (snd h) = 0)"

lemma retention_positive: "0 \<le> getEntryRetentionMs env settings"
  by (simp add: getEntryRetentionMs_def DEFAULT_ENTRY_RETENTION_MS_def)

lemma streak_step:
  assumes "cooldown_map_ok m" "agrees_with key h m"
  shows "agrees_with key (streak env key h ev) (cooldown_step env m ev)"
proof -
  obtain n t keep where h: "h = (n, t, keep)" by (cases h) auto
  have "js_map_ok m" using assms(1) by (simp add: cooldown_map_ok_def)
  then show ?thesis
    using assms(2) retention_positive [of env]
    by (cases ev) (auto simp: h agrees_with_def recordProviderCooldown_def recordProviderSuccess_def
        cleanupExpiredCooldownEntries_def clearCooldownState_def get_filter_entry Let_def
        simp del: map_of_eq_Some_iff split: option.splits)
qed

lemma streak_run:
  "cooldown_map_ok m \<Longrightarrow> agrees_with key h m \<Longrightarrow>
   agrees_with key (foldl (streak env key) h past) (foldl (cooldown_step env) m past)"
  by (induction past arbitrary: m h) (simp_all add: streak_step cooldown_map_ok_step)

lemma streak_count:
  "failures_in_a_row env key past =
     (case js_get (foldl (cooldown_step env) [] past) key of Some e \<Rightarrow> ceFailureCount e | None \<Rightarrow> 0)"
  using streak_run [of "[]" key "(0, 0, 0)" env past]
  by (auto simp: failures_in_a_row_def agrees_with_def cooldown_map_ok_def simp del: map_of_eq_Some_iff
      split: option.splits)

text \<open>
  C38: a cooldown lasts exactly as long as the settings say. Take any history (\<open>past\<close>) and a failure
  of a connection that is the n-th in a row: counted from its last success or clearing of the state,
  or from the last cleanup that ran when its last failure was old enough for the entry to be
  forgotten (more than half an hour, or more than the longest cooldown configured at any failure the
  entry has recorded when that is longer). Then, whatever other
  connections do and whenever the cleanup runs up to the check, the connection is skipped for the
  shortest cooldown doubled n - 1 times (ten at most) and capped at the longest one, and not a moment
  longer: forgetting old entries never cuts a running cooldown short.
\<close>

theorem cooldown_exact:
  assumes "\<not> untracked p" and m: "m = foldl (cooldown_step env) [] past"
    and n_def: "n = failures_in_a_row env (cooldownKey p c) past + 1"
    and evs: "\<forall>ev \<in> set evs. elsewhere (cooldownKey p c) t ev"
  shows "isProviderInCooldown env t p c settings
      (foldl (cooldown_step env) (recordProviderCooldown env now p c settings m) evs)
    \<longleftrightarrow> t < now + scaledCooldownMs (cooldown_limits env settings) n"
proof -
  let ?key = "cooldownKey p c" and ?L = "cooldown_limits env settings"
  let ?m = "recordProviderCooldown env now p c settings m"
  have past: "cooldown_map_ok m"
    unfolding m by (rule cooldown_run.run_always_good) (simp_all add: cooldown_map_ok_def)
  have count: "n = (case js_get m ?key of Some e \<Rightarrow> ceFailureCount e + 1 | None \<Rightarrow> 1)"
    unfolding n_def streak_count m by (simp split: option.split)
  then have n: "0 < n" using past by (auto dest: cooldown_map_ok_get split: option.splits)
  have ok: "cooldown_map_ok ?m" using cooldown_map_ok_step [OF past, of env "Co_failure now p c settings"] by simp
  obtain e where e: "js_get ?m ?key = Some e" "ceFailureCount e = n" "ceLastFailureAt e = now"
      "pcMaxRetryCooldownMs ?L \<le> ceRetentionMs e"
    using assms(1) count by (auto simp: recordProviderCooldown_def getEntryRetentionMs_def Let_def split: option.splits)
  have "keeps_entry ?key e t ?m" using e(1) ok by (simp add: keeps_entry_def)
  from keeps_entry_run [OF this evs, of env] show ?thesis
    using e(2-4) assms(1) n scaled_at_most [of ?L n]
    by (auto simp: keeps_entry_def isProviderInCooldown_def)
qed

definition quick_limits :: ProviderCooldownSettings where
  "quick_limits = \<lparr>pcEnabled = True, pcMinRetryCooldownMs = 1000, pcMaxRetryCooldownMs = 3000\<rparr>"

text \<open>
  The first failure is forgotten by a cleanup forty minutes later and the second ended by a success;
  the fourth one is the second in a row.
\<close>

definition failing_past :: "cooldown_event list" where
  "failing_past =
     [Co_failure 100 ''openai'' ''a'' None, Co_cleanup 2400000, Co_failure 2500000 ''openai'' ''a'' None,
      Co_success ''openai'' ''a'', Co_failure 2600000 ''openai'' ''a'' None]"

lemma failing_past_row: "failures_in_a_row plain_env (cooldownKey ''openai'' ''a'') failing_past = 1"
  by (simp add: failures_in_a_row_def failing_past_def untracked_def getEntryRetentionMs_def
      DEFAULT_ENTRY_RETENTION_MS_def cooldown_limits_def DEFAULT_RESILIENCE_SETTINGS_def plain_env_def)

theorem cooldown_exact_witness:
  "isProviderInCooldown plain_env 2703999 ''openai'' ''a'' (Some quick_limits)
      (foldl (cooldown_step plain_env)
        (recordProviderCooldown plain_env 2702000 ''openai'' ''a'' (Some quick_limits)
          (foldl (cooldown_step plain_env) [] failing_past))
        [Co_cleanup 2703000, Co_success ''openai'' ''b'', Co_failure 2703100 ''openai'' [] None])"
proof -
  have "isProviderInCooldown plain_env 2703999 ''openai'' ''a'' (Some quick_limits)
      (foldl (cooldown_step plain_env)
        (recordProviderCooldown plain_env 2702000 ''openai'' ''a'' (Some quick_limits)
          (foldl (cooldown_step plain_env) [] failing_past))
        [Co_cleanup 2703000, Co_success ''openai'' ''b'', Co_failure 2703100 ''openai'' [] None])
    \<longleftrightarrow> 2703999 < 2702000 + scaledCooldownMs (cooldown_limits plain_env (Some quick_limits))
          (failures_in_a_row plain_env (cooldownKey ''openai'' ''a'') failing_past + 1)"
    by (rule cooldown_exact [OF _ refl refl]) (simp_all add: untracked_def cooldownKey_def)
  then show ?thesis
    unfolding failing_past_row by (simp add: scaledCooldownMs_def cooldown_limits_def quick_limits_def)
qed

text \<open>
  A success sets the count to zero and keeps the time of the last failure: the connection is no longer
  skipped, but the remaining cooldown that is reported stays positive.
\<close>

lemma success_leaves_remaining:
  "\<not> isProviderInCooldown plain_env 150 ''openai'' ''a'' (Some quick_limits)
      (recordProviderSuccess ''openai'' ''a'' (recordProviderCooldown plain_env 100 ''openai'' ''a'' None []))
   \<and> getRemainingCooldownMs plain_env 150 ''openai'' ''a'' (Some quick_limits)
      (recordProviderSuccess ''openai'' ''a'' (recordProviderCooldown plain_env 100 ''openai'' ''a'' None [])) = 950"
  by (simp add: isProviderInCooldown_def getRemainingCooldownMs_def recordProviderSuccess_def recordProviderCooldown_def
      untracked_def cooldownKey_def scaledCooldownMs_def cooldown_limits_def quick_limits_def)

end
