(* ===== verification/Combo_Rotation.thy ===== *)
theory Combo_Rotation
  imports Resilience_Settings
begin

text \<open>
  Round-robin rotation over the targets of a combo with sticky batches,
  \<open>open-sse/services/combo/rrState.ts\<close>, and how \<open>handleRoundRobinCombo\<close> in \<open>combo.ts\<close> uses it: the
  start of a request, the walk over the targets, and what a success records. Also the sticky key of
  weighted combos (\<open>combo/targetResolution.ts\<close>). A target is its execution key; whether a target is
  available or answers is an argument.
\<close>


section \<open>State\<close>

record sticky_target =
  stExecutionKey :: string
  stSuccessCount :: int

record rotation =
  rrCounters :: "(string, nat) js_map"
  rrStickyTargets :: "(string, sticky_target) js_map"
  weightedStickyTargets :: "(string, sticky_target) js_map"

definition MAX_RR_COUNTERS :: nat where
  "MAX_RR_COUNTERS = 500"



section \<open>Operations of rrState.ts\<close>


definition counter_of :: "rotation \<Rightarrow> string \<Rightarrow> nat" where
  "counter_of s combo = (case js_get (rrCounters s) combo of Some n \<Rightarrow> n | None \<Rightarrow> 0)"

fun index_of :: "'a \<Rightarrow> 'a list \<Rightarrow> nat option" where
  "index_of x [] = None"
| "index_of x (y # ys) = (if y = x then Some 0 else map_option Suc (index_of x ys))"

text \<open>The start index is \<open>NaN\<close> (here \<open>None\<close>) for no targets.\<close>

definition getStickyRoundRobinStartIndex :: "string \<Rightarrow> string list \<Rightarrow> int \<Rightarrow> rotation \<Rightarrow> nat option \<times> nat" where
  "getStickyRoundRobinStartIndex combo targets stickyLimit s =
     (let counter = counter_of s combo;
          turn = (if targets = [] then None else Some (counter mod length targets))
      in case js_get (rrStickyTargets s) combo of
           Some sticky \<Rightarrow>
             (case index_of (stExecutionKey sticky) targets of
                Some i \<Rightarrow> if stickyLimit > 1 \<and> stSuccessCount sticky < stickyLimit then (Some i, counter) else (turn, counter)
              | None \<Rightarrow> (turn, counter))
         | None \<Rightarrow> (turn, counter))"

definition next_success_count :: "sticky_target option \<Rightarrow> string \<Rightarrow> int" where
  "next_success_count sticky key =
     (case sticky of Some st \<Rightarrow> if stExecutionKey st = key then stSuccessCount st + 1 else 1 | None \<Rightarrow> 1)"

definition recordStickyRoundRobinSuccess :: "string \<Rightarrow> string \<Rightarrow> int \<Rightarrow> string list \<Rightarrow> rotation \<Rightarrow> rotation" where
  "recordStickyRoundRobinSuccess combo target stickyLimit targets s =
     (let successCount = next_success_count (js_get (rrStickyTargets s) combo) target in
      if successCount \<ge> stickyLimit then
        s\<lparr>rrCounters := js_set combo
             (case index_of target targets of Some i \<Rightarrow> i + 1 | None \<Rightarrow> counter_of s combo + 1) (rrCounters s),
          rrStickyTargets := js_delete combo (rrStickyTargets s)\<rparr>
      else s\<lparr>rrStickyTargets := js_set combo \<lparr>stExecutionKey = target, stSuccessCount = successCount\<rparr> (rrStickyTargets s)\<rparr>)"

definition getStickyWeightedExecutionKey :: "string \<Rightarrow> int \<Rightarrow> rotation \<Rightarrow> string option" where
  "getStickyWeightedExecutionKey combo stickyLimit s =
     (case js_get (weightedStickyTargets s) combo of
        None \<Rightarrow> None
      | Some st \<Rightarrow> if stickyLimit \<le> 1 \<or> stSuccessCount st \<ge> stickyLimit then None else Some (stExecutionKey st))"

definition recordStickyWeightedSuccess :: "string \<Rightarrow> string \<Rightarrow> int \<Rightarrow> rotation \<Rightarrow> rotation" where
  "recordStickyWeightedSuccess combo executionKey stickyLimit s =
     (let successCount = next_success_count (js_get (weightedStickyTargets s) combo) executionKey in
      if successCount \<ge> stickyLimit then s\<lparr>weightedStickyTargets := js_delete combo (weightedStickyTargets s)\<rparr>
      else s\<lparr>weightedStickyTargets :=
               js_set combo \<lparr>stExecutionKey = executionKey, stSuccessCount = successCount\<rparr> (weightedStickyTargets s)\<rparr>)"




section \<open>A round-robin request\<close>

text \<open>The first entry of a map is dropped, \<open>keys().next().value\<close>.\<close>

definition oldest_key :: "(string, 'v) js_map \<Rightarrow> string option" where
  "oldest_key m = (case m of [] \<Rightarrow> None | (k, _) # _ \<Rightarrow> Some k)"

definition clear_stale_sticky :: "string \<Rightarrow> string list \<Rightarrow> int \<Rightarrow> (string \<Rightarrow> bool) \<Rightarrow> rotation \<Rightarrow> rotation" where
  "clear_stale_sticky combo targets stickyLimit available s =
     (if stickyLimit > 1 then
        (case js_get (rrStickyTargets s) combo of
           Some sticky \<Rightarrow>
             if stExecutionKey sticky \<in> set targets \<and> \<not> available (stExecutionKey sticky)
             then s\<lparr>rrStickyTargets := js_delete combo (rrStickyTargets s)\<rparr> else s
         | None \<Rightarrow> s)
      else s)"

definition make_room :: "string \<Rightarrow> rotation \<Rightarrow> rotation" where
  "make_room combo s =
     (if \<not> js_has (rrCounters s) combo \<and> \<not> js_has (rrStickyTargets s) combo \<and> length (rrCounters s) \<ge> MAX_RR_COUNTERS then
        (case oldest_key (rrCounters s) of
           Some k \<Rightarrow> s\<lparr>rrCounters := js_delete k (rrCounters s), rrStickyTargets := js_delete k (rrStickyTargets s)\<rparr>
         | None \<Rightarrow> s)
      else s)"

definition rr_begin :: "string \<Rightarrow> string list \<Rightarrow> int \<Rightarrow> (string \<Rightarrow> bool) \<Rightarrow> rotation \<Rightarrow> nat option \<times> rotation" where
  "rr_begin combo targets stickyLimit available s =
     (let s = make_room combo (clear_stale_sticky combo targets stickyLimit available s);
          s = (if \<not> js_has (rrCounters s) combo then s\<lparr>rrCounters := js_set combo 0 (rrCounters s)\<rparr> else s);
          (startIndex, counter) = getStickyRoundRobinStartIndex combo targets stickyLimit s
      in (startIndex, if \<not> stickyLimit > 1 then s\<lparr>rrCounters := js_set combo (counter + 1) (rrCounters s)\<rparr> else s))"

definition rr_served :: "string \<Rightarrow> string list \<Rightarrow> int \<Rightarrow> nat \<Rightarrow> rotation \<Rightarrow> rotation" where
  "rr_served combo targets stickyLimit modelIndex s =
     (if stickyLimit > 1 then recordStickyRoundRobinSuccess combo (targets ! modelIndex) stickyLimit targets s
      else s\<lparr>rrCounters := js_set combo (modelIndex + 1) (rrCounters s)\<rparr>)"

text \<open>
  What session stickiness and prompt-cache affinity make of a request, as the results that
  \<open>handleRoundRobinCombo\<close> gets from them: the targets bound to concrete connections when the request has
  an affinity key (\<open>expandPromptCacheAffinityTargets\<close>), those targets in the order of the affinity when
  one was applied (\<open>rrAffinity\<close>), the target the conversation is bound to (\<open>_rrSessionSticky\<close>, its first
  target when \<open>stuck\<close>), and the connection of each target.
\<close>

record rr_routing =
  rtExpanded :: "string list option"
  rtAffinity :: "string list option"
  rtStuck :: "string option"
  rtConnection :: "string \<Rightarrow> string option"


definition rr_expanded :: "rr_routing \<Rightarrow> string list \<Rightarrow> string list" where
  "rr_expanded routing targets = (case rtExpanded routing of Some ts \<Rightarrow> ts | None \<Rightarrow> targets)"

definition rr_order :: "rr_routing \<Rightarrow> string list \<Rightarrow> string list" where
  "rr_order routing targets =
     (case rtAffinity routing of
        None \<Rightarrow> rr_expanded routing targets
      | Some ranked \<Rightarrow>
          (case rtStuck routing of
             Some t \<Rightarrow> t # filter (\<lambda>u. u \<noteq> t) ranked
           | None \<Rightarrow> ranked))"

definition rr_start :: "rr_routing \<Rightarrow> string list \<Rightarrow> nat option \<Rightarrow> nat option" where
  "rr_start routing ordered startIndex =
     (let start = (if rtAffinity routing \<noteq> None then Some 0 else startIndex) in
      case rtStuck routing of
        None \<Rightarrow> start
      | Some t \<Rightarrow>
          (case find (\<lambda>i. rtConnection routing (ordered ! i) = rtConnection routing t) [0..<length ordered] of
             Some i \<Rightarrow> Some i
           | None \<Rightarrow> start))"

text \<open>The walk: each target once, in order from the start index, until one answers.\<close>

definition walk_order :: "nat \<Rightarrow> nat \<Rightarrow> nat list" where
  "walk_order startIndex modelCount = map (\<lambda>offset. (startIndex + offset) mod modelCount) [0..<modelCount]"

definition rr_request ::
  "string \<Rightarrow> string list \<Rightarrow> int \<Rightarrow> (string \<Rightarrow> bool) \<Rightarrow> rr_routing \<Rightarrow> (string \<Rightarrow> bool) \<Rightarrow> rotation
     \<Rightarrow> nat option \<times> rotation" where
  "rr_request combo targets stickyLimit available routing answers s =
     (let (startIndex, s) = rr_begin combo targets stickyLimit available s;
          modelCount = length (rr_expanded routing targets);
          ordered = rr_order routing targets
      in case rr_start routing ordered startIndex of
           None \<Rightarrow> (None, s)
         | Some start \<Rightarrow>
             (case find (\<lambda>i. answers (ordered ! i)) (walk_order start modelCount) of
                Some i \<Rightarrow> (Some i, rr_served combo ordered stickyLimit i s)
              | None \<Rightarrow> (None, s)))"


section \<open>Weighted combos\<close>

definition evictOldestWeightedSticky :: "string \<Rightarrow> string \<Rightarrow> rotation \<Rightarrow> rotation" where
  "evictOldestWeightedSticky strategy combo s =
     (if strategy = ''weighted'' \<and> \<not> js_has (weightedStickyTargets s) combo
         \<and> length (weightedStickyTargets s) \<ge> MAX_RR_COUNTERS then
        (case oldest_key (weightedStickyTargets s) of
           Some k \<Rightarrow> s\<lparr>weightedStickyTargets := js_delete k (weightedStickyTargets s)\<rparr>
         | None \<Rightarrow> s)
      else s)"

definition resolveStickyWeightedKey ::
  "string \<Rightarrow> string \<Rightarrow> int \<Rightarrow> string list \<Rightarrow> rotation \<Rightarrow> string option \<times> rotation" where
  "resolveStickyWeightedKey strategy combo stickyWeightedLimit eligible s =
     (let raw = (if strategy = ''weighted'' then getStickyWeightedExecutionKey combo stickyWeightedLimit s else None);
          raw = (if raw = Some [] then None else raw);
          key = (case raw of Some k \<Rightarrow> if k \<in> set eligible then Some k else None | None \<Rightarrow> None);
          drop_pin = (strategy \<noteq> ''weighted'' \<or> stickyWeightedLimit \<le> 1 \<or> raw \<noteq> None \<and> key = None)
      in (key, if drop_pin then s\<lparr>weightedStickyTargets := js_delete combo (weightedStickyTargets s)\<rparr> else s))"

text \<open>The order of weighted targets with their weights: the selected one first, the rest by weight.\<close>

definition orderTargetsForWeightedFallback :: "(string \<times> rat) list \<Rightarrow> string \<Rightarrow> bool \<Rightarrow> (string \<times> rat) list" where
  "orderTargetsForWeightedFallback targets selected preserveExistingOrder =
     (let sel = find (\<lambda>(k, w). k = selected) targets;
          rest = filter (\<lambda>(k, w). k \<noteq> selected) targets;
          rest = (if preserveExistingOrder then rest else sort_key (\<lambda>(k, w). - w) rest)
      in case sel of Some t \<Rightarrow> t # rest | None \<Rightarrow> rest)"

text \<open>\<open>selectWeightedTarget\<close>: \<open>pick\<close> is the random index, \<open>dart\<close> the random number below one.\<close>

fun spin :: "(string \<times> rat) list \<Rightarrow> rat \<Rightarrow> (string \<times> rat) option" where
  "spin [] random = None"
| "spin ((k, w) # ts) random = (if random - w \<le> 0 then Some (k, w) else spin ts (random - w))"

definition selectWeightedTarget :: "nat \<Rightarrow> rat \<Rightarrow> (string \<times> rat) list \<Rightarrow> (string \<times> rat) option" where
  "selectWeightedTarget pick dart targets =
     (if targets = [] then None
      else
        let totalWeight = sum_list (map snd targets) in
        if totalWeight \<le> 0 then Some (targets ! pick)
        else (case spin targets (dart * totalWeight) of Some t \<Rightarrow> Some t | None \<Rightarrow> Some (last targets)))"


section \<open>Rotation in batches\<close>













lemma start_some: "targets \<noteq> [] \<Longrightarrow> \<exists>k. fst (getStickyRoundRobinStartIndex combo targets stickyLimit s) = Some k"
  by (simp add: getStickyRoundRobinStartIndex_def Let_def split: option.split)

text \<open>A request is answered if any target answers, by the first one in the walk that does.\<close>

lemma walk_covers:
  assumes "0 < n"
  shows "set (walk_order k n) = {0..<n}"
proof
  show "set (walk_order k n) \<subseteq> {0..<n}" using assms by (auto simp: walk_order_def)
  show "{0..<n} \<subseteq> set (walk_order k n)"
  proof
    fix j assume j: "j \<in> {0..<n}"
    have "(k + (j + (n - k mod n)) mod n) mod n = (k mod n + j + (n - k mod n)) mod n" by (simp add: mod_simps add.assoc)
    also have "\<dots> = (j + n) mod n" using assms by (simp add: less_imp_le)
    also have "\<dots> = j" using j by simp
    finally have "j \<in> (\<lambda>offset. (k + offset) mod n) ` {0..<n}"
      using assms by (intro image_eqI [where x = "(j + (n - k mod n)) mod n"]) simp_all
    then show "j \<in> set (walk_order k n)" by (simp add: walk_order_def)
  qed
qed

lemma rr_answered:
  assumes "targets \<noteq> []" and ts: "ts = rr_order routing targets" "length ts = length (rr_expanded routing targets)" "ts \<noteq> []"
  shows "fst (rr_request combo targets stickyLimit available routing answers s) = None \<longleftrightarrow> (\<forall>t \<in> set ts. \<not> answers t)"
    and "fst (rr_request combo targets stickyLimit available routing answers s) = Some i \<Longrightarrow> i < length ts \<and> answers (ts ! i)"
proof -
  have walk: "set (walk_order k (length ts)) = {0..<length ts}" for k using ts(3) by (intro walk_covers) simp
  obtain start s1 where b: "rr_begin combo targets stickyLimit available s = (start, s1)" by fastforce
  have "\<exists>t. start = fst (getStickyRoundRobinStartIndex combo targets stickyLimit t)"
    using b by (simp add: rr_begin_def case_prod_unfold Let_def) (blast intro: sym)
  then obtain k' where "start = Some k'" using start_some [OF assms(1)] by metis
  then have "rr_start routing ts start \<noteq> None"
    by (simp add: rr_start_def Let_def split: option.split)
  then obtain k where k: "rr_start routing ts start = Some k" by blast
  let ?f = "find (\<lambda>i. answers (ts ! i)) (walk_order k (length ts))"
  have r: "fst (rr_request combo targets stickyLimit available routing answers s) = ?f"
    by (simp add: rr_request_def b k ts(1) [symmetric] ts(2) [symmetric] Let_def split: option.split)
  have found: "i < length ts \<and> answers (ts ! i)" if "?f = Some i" for i
    using that walk [of k] by (auto simp: find_Some_iff)
  show "fst (rr_request combo targets stickyLimit available routing answers s) = None \<longleftrightarrow> (\<forall>t \<in> set ts. \<not> answers t)"
    unfolding r find_None_iff walk by (auto simp: all_set_conv_all_nth)
  show "i < length ts \<and> answers (ts ! i)" if "fst (rr_request combo targets stickyLimit available routing answers s) = Some i"
    using that found unfolding r by blast
qed

text \<open>A conversation that is bound to a connection is served by that connection while it answers.\<close>

lemma bound_conversation_served:
  assumes "ts = rr_order routing targets" "length ts = length (rr_expanded routing targets)"
    and "rtStuck routing = Some t" "t \<in> set ts" "\<And>u. rtConnection routing u = rtConnection routing t \<Longrightarrow> answers u"
  shows "\<exists>i. fst (rr_request combo targets stickyLimit available routing answers s) = Some i
    \<and> rtConnection routing (ts ! i) = rtConnection routing t"
proof -
  obtain start s1 where b: "rr_begin combo targets stickyLimit available s = (start, s1)" by fastforce
  let ?find = "find (\<lambda>i. rtConnection routing (ts ! i) = rtConnection routing t) [0..<length ts]"
  have "?find \<noteq> None" using assms(4) by (auto simp: find_None_iff in_set_conv_nth)
  then obtain k where k: "?find = Some k" by blast
  then have i: "k < length ts" "rtConnection routing (ts ! k) = rtConnection routing t"
    by (auto simp: find_Some_iff)
  have "walk_order k (length ts) = k # tl (walk_order k (length ts))"
    using i(1) by (cases "length ts") (simp_all add: walk_order_def upt_conv_Cons del: upt_Suc)
  then have "find (\<lambda>i. answers (ts ! i)) (walk_order k (length ts)) = Some k"
    using assms(5) [OF i(2)] by (metis find.simps(2))
  moreover have "rr_start routing ts start = Some k" by (simp add: rr_start_def assms(3) k)
  ultimately show ?thesis
    using i(2) by (simp add: rr_request_def b assms(1) [symmetric] assms(2) [symmetric] Let_def)
qed


section \<open>Weighted selection\<close>

lemma spin_interval:
  assumes "spin ts r = Some t" "\<forall>(k, w) \<in> set ts. 0 \<le> w"
  shows "\<exists>i < length ts. ts ! i = t \<and> r \<le> sum_list (map snd (take (Suc i) ts)) \<and> (i = 0 \<or> sum_list (map snd (take i ts)) < r)"
  using assms
proof (induction ts r rule: spin.induct)
  case (2 k w ts r)
  show ?case
  proof (cases "r - w \<le> 0")
    case True
    with 2 show ?thesis by (intro exI [of _ 0]) auto
  next
    case False
    with 2 obtain i where i: "i < length ts" "ts ! i = t" "r - w \<le> sum_list (map snd (take (Suc i) ts))"
        "i = 0 \<or> sum_list (map snd (take i ts)) < r - w" by auto
    with False show ?thesis by (intro exI [of _ "Suc i"]) auto
  qed
qed simp

lemma spin_hits: "r \<le> sum_list (map snd ts) \<Longrightarrow> ts \<noteq> [] \<Longrightarrow> spin ts r \<noteq> None"
proof (induction ts arbitrary: r)
  case (Cons a ts)
  then show ?case by (cases a; cases ts) (auto simp: not_le)
qed simp

text \<open>
  Weighted selection is proportional. For non-negative weights that are not all zero and a random
  number in (0, 1), the selected target is the one in whose slice of the total weight the number falls:
  each target is selected on an interval of the length of its share, so one of weight zero never.
\<close>

lemma weighted_slices:
  assumes "\<forall>(k, w) \<in> set targets. 0 \<le> w" "0 < sum_list (map snd targets)" "0 < dart" "dart < 1"
  shows "\<exists>i < length targets. selectWeightedTarget pick dart targets = Some (targets ! i)
    \<and> sum_list (map snd (take i targets)) / sum_list (map snd targets) < dart
    \<and> dart \<le> sum_list (map snd (take (Suc i) targets)) / sum_list (map snd targets)
    \<and> 0 < snd (targets ! i)"
proof -
  let ?W = "sum_list (map snd targets)"
  have ne: "targets \<noteq> []" using assms(2) by auto
  have pos: "0 < dart * ?W" using assms(2,3) by simp
  have "dart * ?W \<le> ?W" using assms(2,4) by (simp add: mult_le_cancel_right1)
  then obtain t where t: "spin targets (dart * ?W) = Some t" using spin_hits ne by blast
  obtain i where i: "i < length targets" "targets ! i = t" "dart * ?W \<le> sum_list (map snd (take (Suc i) targets))"
      "i = 0 \<or> sum_list (map snd (take i targets)) < dart * ?W"
    using spin_interval [OF t assms(1)] by blast
  have "sum_list (map snd (take i targets)) < dart * ?W" using i(4) pos by auto
  moreover from this i(1,3) have "0 < snd (targets ! i)" by (simp add: take_Suc_conv_app_nth)
  ultimately show ?thesis
    using i t ne assms(2) by (intro exI [of _ i]) (simp add: selectWeightedTarget_def pos_divide_less_eq pos_le_divide_eq)
qed

end
