(* ===== verification/Think_Tags.thy ===== *)
theory Think_Tags
  imports Prelude "HOL-Library.Sublist"
begin

text \<open>
  The parser of textual reasoning, \<open>open-sse/utils/thinkTagParser.ts\<close>: what a model writes between
  \<open><think>\<close> and \<open></think>\<close> is split off the answer, in one piece or while the answer streams in
  chunks of any size. Whether a stream is parsed at all (a table of providers) is the argument
  \<open>enabled\<close>. A delta that is null or empty is the empty string, as every reader treats it; the
  synthetic chunk of the last flush is left out.
\<close>


section \<open>Tags\<close>

definition THINK_OPEN :: string where
  "THINK_OPEN = ''<think>''"

definition THINK_CLOSE :: string where
  "THINK_CLOSE = ''</think>''"

text \<open>\<open>indexOf\<close> and \<open>includes\<close>.\<close>

fun index_of_text :: "string \<Rightarrow> string \<Rightarrow> nat option" where
  "index_of_text pat [] = (if pat = [] then Some 0 else None)"
| "index_of_text pat (c # s) =
     (if prefix pat (c # s) then Some 0 else map_option Suc (index_of_text pat s))"

definition has_text :: "string \<Rightarrow> string \<Rightarrow> bool" where
  "has_text s pat \<longleftrightarrow> index_of_text pat s \<noteq> None"

definition THINK_OPEN_PARTIALS :: "string list" where
  "THINK_OPEN_PARTIALS = map (\<lambda>i. take (i + 1) THINK_OPEN) [0..<length THINK_OPEN - 1]"

definition containsOrMayEndWithThinkOpenTag :: "string \<Rightarrow> bool" where
  "containsOrMayEndWithThinkOpenTag value \<longleftrightarrow>
     has_text value THINK_OPEN \<or> list_ex (\<lambda>p. suffix p value) THINK_OPEN_PARTIALS"

definition hasThinkTags :: "string \<Rightarrow> bool" where
  "hasThinkTags text \<longleftrightarrow> (if text = [] then False else has_text text THINK_OPEN)"


section \<open>One piece\<close>

definition MAX_THINK_BLOCKS :: nat where
  "MAX_THINK_BLOCKS = 10"

text \<open>The loop of \<open>extractThinkTags\<close> with the number of iterations that are left.\<close>

fun extract_loop :: "nat \<Rightarrow> string \<Rightarrow> string \<Rightarrow> string \<times> string" where
  "extract_loop 0 reasoning content = (reasoning, content)"
| "extract_loop (Suc n) reasoning content =
     (case index_of_text THINK_OPEN content of
        None \<Rightarrow> (reasoning, content)
      | Some openIdx \<Rightarrow>
          let rest = drop (openIdx + length THINK_OPEN) content in
          case index_of_text THINK_CLOSE (drop openIdx content) of
            None \<Rightarrow> (reasoning @ rest, take openIdx content)
          | Some closeOff \<Rightarrow>
              extract_loop n
                (reasoning @ (if reasoning = [] then [] else [CHR 0x0A]) @ take (closeOff - length THINK_OPEN) rest)
                (take openIdx content @ drop (openIdx + closeOff + length THINK_CLOSE) content))"

text \<open>The reasoning, \<open>null\<close> when it is empty, and the content.\<close>

definition extractThinkTags :: "string \<Rightarrow> string option \<times> string" where
  "extractThinkTags text =
     (if text = [] \<or> \<not> has_text text THINK_OPEN then (None, text)
      else
        let (reasoning, content) = extract_loop MAX_THINK_BLOCKS [] text;
            reasoning = js_trim reasoning
        in (if reasoning = [] then None else Some reasoning, js_trim content))"


section \<open>Streams\<close>

record think_ctx =
  tcEnabled :: bool
  tcInsideThink :: bool
  tcBuffer :: string
  tcActive :: bool

definition initThinkState :: "bool \<Rightarrow> bool \<Rightarrow> think_ctx" where
  "initThinkState isPassthroughMode shouldParse =
     \<lparr>tcEnabled = (isPassthroughMode \<and> shouldParse), tcInsideThink = False, tcBuffer = [], tcActive = False\<rparr>"

text \<open>The tag that is looked for.\<close>

definition next_tag :: "bool \<Rightarrow> string" where
  "next_tag inside = (if inside then THINK_CLOSE else THINK_OPEN)"

lemma next_tag_ne [simp]: "next_tag inside \<noteq> []"
  by (simp add: next_tag_def THINK_OPEN_def THINK_CLOSE_def)

text \<open>
  The loop of \<open>processStreamingThinkDelta\<close> over inside or outside, the buffer, and the deltas so far.
  Without a tag the last characters stay in the buffer: they may be the beginning of one.
\<close>

function think_loop :: "bool \<Rightarrow> string \<Rightarrow> string \<Rightarrow> string \<Rightarrow> (string \<times> string) \<times> bool \<times> string" where
  "think_loop inside buffer reasoning content =
     (if buffer = [] then ((reasoning, content), inside, buffer)
      else
        let tag = next_tag inside; keep = length tag - 1 in
        case index_of_text tag buffer of
          None \<Rightarrow>
            if length buffer > length tag then
              (let safe = take (length buffer - keep) buffer in
               (if inside then (reasoning @ safe, content) else (reasoning, content @ safe),
                inside, drop (length buffer - keep) buffer))
            else ((reasoning, content), inside, buffer)
        | Some i \<Rightarrow>
            if inside then think_loop False (drop (i + length tag) buffer) (reasoning @ take i buffer) content
            else think_loop True (drop (i + length tag) buffer) reasoning (content @ take i buffer))"
  by pat_completeness auto
termination
  by (relation "measure (\<lambda>(inside, buffer, reasoning, content). length buffer)")
     (auto simp: Let_def intro!: diff_less)

declare think_loop.simps [simp del]

definition processStreamingThinkDelta :: "string \<Rightarrow> think_ctx \<Rightarrow> (string \<times> string) \<times> think_ctx" where
  "processStreamingThinkDelta delta ctx =
     (let (deltas, inside, buffer) = think_loop (tcInsideThink ctx) (tcBuffer ctx @ delta) [] []
      in (deltas, ctx\<lparr>tcInsideThink := inside, tcBuffer := buffer\<rparr>))"

text \<open>A delta of the stream: its content, if that is a string, and its reasoning.\<close>

record stream_delta =
  sdContent :: "string option"
  sdReasoning :: string

definition applyThinkTag :: "think_ctx \<Rightarrow> stream_delta \<Rightarrow> bool \<times> stream_delta \<times> think_ctx" where
  "applyThinkTag ctx delta =
     (case sdContent delta of
        None \<Rightarrow> (False, delta, ctx)
      | Some content \<Rightarrow>
          if \<not> tcEnabled ctx then (False, delta, ctx)
          else if \<not> tcActive ctx \<and> \<not> containsOrMayEndWithThinkOpenTag content then (False, delta, ctx)
          else
            let ((reasoningDelta, contentDelta), ctx) = processStreamingThinkDelta content (ctx\<lparr>tcActive := True\<rparr>)
            in (True,
                \<lparr>sdContent = Some contentDelta,
                 sdReasoning = (if reasoningDelta \<noteq> [] then reasoningDelta else sdReasoning delta)\<rparr>,
                ctx))"

definition flushThinkBuffer :: "think_ctx \<Rightarrow> (string \<times> string) \<times> think_ctx" where
  "flushThinkBuffer ctx =
     (let remaining = tcBuffer ctx; ctx = ctx\<lparr>tcBuffer := []\<rparr> in
      (if tcInsideThink ctx then (remaining, []) else ([], remaining), ctx))"

definition STREAM_SUMMARY_TEXT_LIMIT :: nat where
  "STREAM_SUMMARY_TEXT_LIMIT = 65536"

text \<open>\<open>slice(-n)\<close> for a positive \<open>n\<close>.\<close>

definition last_chars :: "nat \<Rightarrow> string \<Rightarrow> string" where
  "last_chars n s = drop (length s - n) s"

definition appendBoundedText :: "string \<Rightarrow> string \<Rightarrow> string" where
  "appendBoundedText current add =
     (if add = [] then current
      else if length current \<ge> STREAM_SUMMARY_TEXT_LIMIT then
        (if length add \<ge> STREAM_SUMMARY_TEXT_LIMIT then last_chars STREAM_SUMMARY_TEXT_LIMIT add
         else last_chars (STREAM_SUMMARY_TEXT_LIMIT - length add) current @ add)
      else if length (current @ add) \<le> STREAM_SUMMARY_TEXT_LIMIT then current @ add
      else last_chars STREAM_SUMMARY_TEXT_LIMIT (current @ add))"

record think_flush =
  tfReasoning :: string
  tfContent :: string
  tfAddedLength :: nat

definition flushThink :: "think_ctx \<Rightarrow> string \<Rightarrow> string \<Rightarrow> ((string \<times> string) \<times> think_flush) option \<times> think_ctx" where
  "flushThink ctx accReasoning accContent =
     (if \<not> tcEnabled ctx \<or> \<not> tcActive ctx then (None, ctx)
      else
        let ((r, c), ctx) = flushThinkBuffer ctx in
        if r = [] \<and> c = [] then (None, ctx)
        else (Some ((r, c), \<lparr>tfReasoning = appendBoundedText accReasoning r, tfContent = appendBoundedText accContent c,
                             tfAddedLength = length r + length c\<rparr>), ctx))"

text \<open>A stream of text chunks to its end: the reasoning and the answer that the client receives.\<close>

fun stream_chunks :: "think_ctx \<Rightarrow> string list \<Rightarrow> (string \<times> string) \<times> think_ctx" where
  "stream_chunks ctx [] = (([], []), ctx)"
| "stream_chunks ctx (chunk # chunks) =
     (let (parsed, delta, ctx) = applyThinkTag ctx \<lparr>sdContent = Some chunk, sdReasoning = []\<rparr>;
          ((r, c), ctx) = stream_chunks ctx chunks
      in ((sdReasoning delta @ r, the (sdContent delta) @ c), ctx))"

definition stream_text :: "think_ctx \<Rightarrow> string list \<Rightarrow> string \<times> string" where
  "stream_text ctx chunks =
     (let ((r, c), ctx) = stream_chunks ctx chunks in
      case fst (flushThink ctx [] []) of
        None \<Rightarrow> (r, c)
      | Some ((fr, fc), _) \<Rightarrow> (r @ fr, c @ fc))"


section \<open>What the tags mean\<close>

text \<open>
  The text as characters that are inside or outside: from the left, at each position either the tag
  that is looked for stands there and is skipped, or one character passes.
\<close>

function tag_scan :: "bool \<Rightarrow> string \<Rightarrow> (bool \<times> char) list" where
  "tag_scan inside [] = []"
| "tag_scan inside (c # s) =
     (if prefix (next_tag inside) (c # s) then tag_scan (\<not> inside) (drop (length (next_tag inside)) (c # s))
      else (inside, c) # tag_scan inside s)"
  by pat_completeness auto
termination
  by (relation "measure (\<lambda>(inside, s). length s)") (auto simp: next_tag_def THINK_OPEN_def THINK_CLOSE_def)

text \<open>The characters of one side.\<close>

definition side :: "bool \<Rightarrow> (bool \<times> char) list \<Rightarrow> string" where
  "side b cs = map snd (filter (\<lambda>(inside, c). inside = b) cs)"

definition reasoning_part :: "string \<Rightarrow> string" where
  "reasoning_part text = side True (tag_scan False text)"

definition answer_part :: "string \<Rightarrow> string" where
  "answer_part text = side False (tag_scan False text)"


section \<open>Chunks do not matter\<close>

lemma prefix_cut: "prefix p (s @ u) \<Longrightarrow> length p \<le> length s \<Longrightarrow> prefix p s"
  by (erule prefix_length_prefix) simp_all

lemma index_of_text_length: "index_of_text p s = Some i \<Longrightarrow> i + length p \<le> length s"
  by (induction s arbitrary: i) (auto split: if_splits dest: prefix_length_le)

lemma tag_scan_hit:
  "index_of_text (next_tag inside) buf = Some i
     \<Longrightarrow> tag_scan inside (buf @ u) = map (Pair inside) (take i buf) @ tag_scan (\<not> inside) (drop (i + length (next_tag inside)) buf @ u)"
proof (induction buf arbitrary: i)
  case (Cons c s)
  show ?case
  proof (cases "prefix (next_tag inside) (c # s)")
    case True
    then have "prefix (next_tag inside) (c # s @ u)" using prefix_prefix [of _ "c # s" u] by simp
    moreover have "drop (length (next_tag inside)) (c # s @ u) = drop (length (next_tag inside)) (c # s) @ u"
      using True prefix_length_le [of "next_tag inside" "c # s"] by (cases "next_tag inside") auto
    ultimately show ?thesis using True Cons.prems by simp
  next
    case False
    with Cons.prems obtain j where j: "index_of_text (next_tag inside) s = Some j" "i = Suc j" by auto
    then have "length (next_tag inside) \<le> length s"
      by (auto dest: index_of_text_length)
    then have "\<not> prefix (next_tag inside) (c # s @ u)"
      using False prefix_cut [of "next_tag inside" "c # s" u] by auto
    with Cons.IH [OF j(1)] j(2) show ?thesis by simp
  qed
qed simp

lemma tag_scan_miss:
  "index_of_text (next_tag inside) buf = None \<Longrightarrow> n + length (next_tag inside) \<le> Suc (length buf)
     \<Longrightarrow> tag_scan inside (buf @ u) = map (Pair inside) (take n buf) @ tag_scan inside (drop n buf @ u)"
proof (induction buf arbitrary: n)
  case (Cons c s)
  show ?case
  proof (cases n)
    case (Suc m)
    have none: "\<not> prefix (next_tag inside) (c # s)" "index_of_text (next_tag inside) s = None"
      using Cons.prems(1) by (simp_all split: if_splits)
    have "\<not> prefix (next_tag inside) (c # s @ u)"
      using none(1) prefix_cut [of "next_tag inside" "c # s" u] Cons.prems(2) Suc by auto
    with Cons.IH [OF none(2), of m] Cons.prems(2) Suc show ?thesis by simp
  qed simp
qed simp

lemma tag_scan_none: "index_of_text (next_tag inside) s = None \<Longrightarrow> tag_scan inside s = map (Pair inside) s"
  by (induction s) (auto split: if_splits)

lemma side_append [simp]: "side b (xs @ ys) = side b xs @ side b ys"
  by (simp add: side_def)

lemma side_pair [simp]: "side b (map (Pair inside) s) = (if inside = b then s else [])"
  by (induction s) (auto simp: side_def)

lemma think_loop_none:
  "index_of_text (next_tag inside) buffer = None \<Longrightarrow> think_loop inside buffer r c =
     (let n = (if length buffer > length (next_tag inside) then length buffer - (length (next_tag inside) - 1) else 0) in
      (if inside then (r @ take n buffer, c) else (r, c @ take n buffer), inside, drop n buffer))"
  by (subst think_loop.simps) (auto simp: Let_def)

lemma think_loop_some:
  "index_of_text (next_tag inside) buffer = Some i \<Longrightarrow> think_loop inside buffer r c =
     (if inside then think_loop False (drop (i + length (next_tag inside)) buffer) (r @ take i buffer) c
      else think_loop True (drop (i + length (next_tag inside)) buffer) r (c @ take i buffer))"
  by (subst think_loop.simps) (auto simp: Let_def)

lemma think_loop_tag_scan:
  assumes "think_loop inside buffer r c = ((r', c'), inside', buffer')"
  shows "r' @ side True (tag_scan inside' (buffer' @ u)) = r @ side True (tag_scan inside (buffer @ u))
    \<and> c' @ side False (tag_scan inside' (buffer' @ u)) = c @ side False (tag_scan inside (buffer @ u))"
  using assms
proof (induction inside buffer r c rule: think_loop.induct)
  case (1 inside buffer r c)
  show ?case
  proof (cases "index_of_text (next_tag inside) buffer")
    case None
    define n where "n = (if length buffer > length (next_tag inside) then length buffer - (length (next_tag inside) - 1) else 0)"
    have "n + length (next_tag inside) \<le> Suc (length buffer) \<or> n = 0" by (auto simp: n_def)
    then have "tag_scan inside (buffer @ u) = map (Pair inside) (take n buffer) @ tag_scan inside (drop n buffer @ u)"
      using tag_scan_miss [OF None, of n] by auto
    with "1.prems" show ?thesis by (auto simp: think_loop_none [OF None, folded n_def] Let_def split: if_splits)
  next
    case (Some i)
    then have "buffer \<noteq> []" by auto
    with "1.IH"(1) [OF _ refl refl Some] "1.IH"(2) [OF _ refl refl Some] "1.prems" show ?thesis
      by (auto simp: think_loop_some [OF Some] tag_scan_hit [OF Some] split: if_splits)
  qed
qed

text \<open>What stays in the buffer holds no tag and is no longer than one.\<close>

lemma index_of_text_drop: "index_of_text p s = None \<Longrightarrow> p \<noteq> [] \<Longrightarrow> index_of_text p (drop n s) = None"
proof (induction s arbitrary: n)
  case (Cons c s)
  then show ?case by (cases n) (auto split: if_splits)
qed simp

lemma think_loop_buffer:
  assumes "think_loop inside buffer r c = (out, inside', buffer')"
  shows "index_of_text (next_tag inside') buffer' = None \<and> length buffer' \<le> length (next_tag inside')"
  using assms
proof (induction inside buffer r c rule: think_loop.induct)
  case (1 inside buffer r c)
  show ?case
  proof (cases "index_of_text (next_tag inside) buffer")
    case None
    with "1.prems" show ?thesis by (auto simp: think_loop_none Let_def index_of_text_drop split: if_splits)
  next
    case (Some i)
    then have "buffer \<noteq> []" by auto
    with "1.IH"(1) [OF _ refl refl Some] "1.IH"(2) [OF _ refl refl Some] "1.prems" show ?thesis
      by (auto simp: think_loop_some [OF Some] split: if_splits)
  qed
qed

text \<open>A chunk that cannot begin a tag passes as it is.\<close>

lemma proper_prefix_partial: "prefix s THINK_OPEN \<Longrightarrow> s \<noteq> [] \<Longrightarrow> s \<noteq> THINK_OPEN \<Longrightarrow> s \<in> set THINK_OPEN_PARTIALS"
  by (auto simp: prefix_Cons THINK_OPEN_def THINK_OPEN_PARTIALS_def upt_rec)

lemma tag_scan_plain:
  assumes "\<not> containsOrMayEndWithThinkOpenTag chunk"
  shows "tag_scan False (chunk @ u) = map (Pair False) chunk @ tag_scan False u"
proof -
  have "index_of_text THINK_OPEN chunk = None" "\<forall>p \<in> set THINK_OPEN_PARTIALS. \<not> suffix p chunk"
    using assms by (auto simp: containsOrMayEndWithThinkOpenTag_def has_text_def list_ex_iff)
  then show ?thesis
  proof (induction chunk)
    case (Cons c s)
    have none: "\<not> prefix THINK_OPEN (c # s)" "index_of_text THINK_OPEN s = None"
      using Cons.prems(1) by (simp_all split: if_splits)
    have "\<not> prefix THINK_OPEN (c # s @ u)"
    proof
      assume p: "prefix THINK_OPEN (c # s @ u)"
      then have "prefix THINK_OPEN ((c # s) @ u)" by simp
      then have len: "length (c # s) < length THINK_OPEN"
        using none(1) prefix_cut [of THINK_OPEN "c # s" u] not_less by blast
      have "prefix (c # s) THINK_OPEN"
        by (rule prefix_length_prefix [OF _ p]) (use len in \<open>simp_all add: prefix_def\<close>)
      moreover have "c # s \<noteq> THINK_OPEN" using none(1) by auto
      ultimately have "c # s \<in> set THINK_OPEN_PARTIALS" by (intro proper_prefix_partial) simp_all
      with Cons.prems(2) show False by auto
    qed
    moreover have "\<forall>p \<in> set THINK_OPEN_PARTIALS. \<not> suffix p s" using Cons.prems(2) suffix_ConsI by metis
    ultimately show ?case using Cons.IH [OF none(2)] by (simp add: next_tag_def)
  qed simp
qed

text \<open>The state of a stream that is parsed.\<close>

definition ctx_ok :: "think_ctx \<Rightarrow> bool" where
  "ctx_ok ctx \<longleftrightarrow> tcEnabled ctx \<and> (tcActive ctx \<or> \<not> tcInsideThink ctx \<and> tcBuffer ctx = [])
     \<and> index_of_text (next_tag (tcInsideThink ctx)) (tcBuffer ctx) = None
     \<and> length (tcBuffer ctx) \<le> length (next_tag (tcInsideThink ctx))"

definition still_due :: "bool \<Rightarrow> think_ctx \<Rightarrow> string \<Rightarrow> string" where
  "still_due b ctx u = side b (tag_scan (tcInsideThink ctx) (tcBuffer ctx @ u))"

lemma apply_still_due:
  assumes "ctx_ok ctx" "applyThinkTag ctx \<lparr>sdContent = Some chunk, sdReasoning = []\<rparr> = (parsed, delta, ctx')"
  shows "ctx_ok ctx'"
    and "sdReasoning delta @ still_due True ctx' u = still_due True ctx (chunk @ u)"
    and "the (sdContent delta) @ still_due False ctx' u = still_due False ctx (chunk @ u)"
proof -
  have "ctx_ok ctx' \<and> sdReasoning delta @ still_due True ctx' u = still_due True ctx (chunk @ u)
      \<and> the (sdContent delta) @ still_due False ctx' u = still_due False ctx (chunk @ u)"
  proof (cases "\<not> tcActive ctx \<and> \<not> containsOrMayEndWithThinkOpenTag chunk")
    case True
    with assms have "delta = \<lparr>sdContent = Some chunk, sdReasoning = []\<rparr>" "ctx' = ctx" "\<not> tcInsideThink ctx" "tcBuffer ctx = []"
      by (auto simp: applyThinkTag_def ctx_ok_def)
    then show ?thesis using assms(1) True by (simp add: still_due_def tag_scan_plain)
  next
    case False
    obtain r c inside buffer where l: "think_loop (tcInsideThink ctx) (tcBuffer ctx @ chunk) [] [] = ((r, c), inside, buffer)"
      by (metis surj_pair)
    with False assms have "delta = \<lparr>sdContent = Some c, sdReasoning = r\<rparr>"
        "ctx' = ctx\<lparr>tcActive := True, tcInsideThink := inside, tcBuffer := buffer\<rparr>"
      by (auto simp: applyThinkTag_def processStreamingThinkDelta_def ctx_ok_def)
    then show ?thesis
      using assms(1) think_loop_tag_scan [OF l, of u] think_loop_buffer [OF l] by (simp add: still_due_def ctx_ok_def)
  qed
  then show "ctx_ok ctx'"
    and "sdReasoning delta @ still_due True ctx' u = still_due True ctx (chunk @ u)"
    and "the (sdContent delta) @ still_due False ctx' u = still_due False ctx (chunk @ u)" by simp_all
qed

lemma stream_still_due:
  assumes "ctx_ok ctx" "stream_chunks ctx chunks = ((r, c), ctx')"
  shows "ctx_ok ctx' \<and> r @ still_due True ctx' u = still_due True ctx (concat chunks @ u)
    \<and> c @ still_due False ctx' u = still_due False ctx (concat chunks @ u)"
  using assms
proof (induction chunks arbitrary: ctx r c)
  case (Cons chunk chunks)
  obtain parsed delta ctx1 where a: "applyThinkTag ctx \<lparr>sdContent = Some chunk, sdReasoning = []\<rparr> = (parsed, delta, ctx1)"
    by (metis surj_pair)
  obtain r1 c1 where s: "stream_chunks ctx1 chunks = ((r1, c1), ctx')"
    and "r = sdReasoning delta @ r1" "c = the (sdContent delta) @ c1"
    using Cons.prems(2) a by (auto simp: case_prod_unfold Let_def prod_eq_iff)
  with Cons.IH [OF apply_still_due(1) [OF Cons.prems(1) a] s] apply_still_due(2,3) [OF Cons.prems(1) a, of "concat chunks @ u"]
  show ?case by simp
qed simp

text \<open>
  C40: streamed reasoning is split off correctly. However the upstream cuts its answer into chunks, even
  through the middle of a tag, the client receives as reasoning exactly the characters that stand
  between the tags of the whole text and as answer exactly the others, in order; nothing is lost or
  sent twice. A stream that is not to be parsed passes unchanged.
\<close>

theorem stream_splits_reasoning:
  "stream_text (initThinkState passthrough shouldParse) chunks =
     (if passthrough \<and> shouldParse then (reasoning_part (concat chunks), answer_part (concat chunks)) else ([], concat chunks))"
proof (cases "passthrough \<and> shouldParse")
  case True
  let ?ctx = "initThinkState passthrough shouldParse"
  have ok: "ctx_ok ?ctx" using True by (simp add: ctx_ok_def initThinkState_def)
  obtain r c ctx' where s: "stream_chunks ?ctx chunks = ((r, c), ctx')" by (metis surj_pair)
  note fin = stream_still_due [OF ok s, of "[]"]
  have rest: "tag_scan (tcInsideThink ctx') (tcBuffer ctx') = map (Pair (tcInsideThink ctx')) (tcBuffer ctx')"
    using fin by (simp add: ctx_ok_def tag_scan_none)
  have out: "r @ (if tcInsideThink ctx' then tcBuffer ctx' else []) = reasoning_part (concat chunks)"
      "c @ (if tcInsideThink ctx' then [] else tcBuffer ctx') = answer_part (concat chunks)"
    using fin rest by (auto simp: still_due_def initThinkState_def reasoning_part_def answer_part_def)
  show ?thesis
    using s fin out True
    by (cases "tcInsideThink ctx'")
      (auto simp: stream_text_def flushThink_def flushThinkBuffer_def ctx_ok_def Let_def)
next
  case False
  have "stream_chunks ctx chunks = (([], concat chunks), ctx)" if "\<not> tcEnabled ctx" for ctx
    using that by (induction chunks) (simp_all add: applyThinkTag_def)
  with False show ?thesis by (auto simp: stream_text_def initThinkState_def flushThink_def)
qed

text \<open>Between chunks no more than the length of a tag is held back.\<close>

lemma held_back:
  "stream_chunks (initThinkState True True) chunks = (out, ctx) \<Longrightarrow> length (tcBuffer ctx) \<le> length THINK_CLOSE"
  using stream_still_due [of "initThinkState True True" chunks "fst out" "snd out" ctx "[]"]
  by (auto simp: ctx_ok_def initThinkState_def next_tag_def THINK_OPEN_def THINK_CLOSE_def split: if_splits)

text \<open>The accumulators keep the end of what they are given.\<close>

lemma append_bounded:
  "length current \<le> STREAM_SUMMARY_TEXT_LIMIT
     \<Longrightarrow> appendBoundedText current add = last_chars STREAM_SUMMARY_TEXT_LIMIT (current @ add)"
  by (auto simp: appendBoundedText_def last_chars_def)

text \<open>
  The parser of whole texts goes its own way: it searches the text that is left after removing a block,
  so pieces that were apart become a tag, and it stops after ten blocks.
\<close>

lemma extract_joins_pieces:
  "extractThinkTags ''<th<think>x</think>ink>y'' = (Some ''xy'', [])"
  "reasoning_part ''<th<think>x</think>ink>y'' = ''x''"
  "answer_part ''<th<think>x</think>ink>y'' = ''<think>y''"
  by code_simp+

lemma eleventh_block_stays:
  "snd (extractThinkTags (concat (replicate 11 ''<think>a</think>''))) = ''<think>a</think>''"
  by code_simp

end
