(* ===== verification/Spec2Isabelle.thy ===== *)
theory Spec2Isabelle
  imports Admission_Properties Circuit_Breaker Sliding_Window Rolling_Gate Rate_Semaphore Account_Semaphore
    Lockout_Policy Fallback_Policy Fair_Share Account_Buckets Adaptive_Circuit
    Budget_Properties Policy_Engine Ip_Filter Shuffle_Deck Request_Dedup
    Quota_Share Workflow_Fsm Key_Rotator Resilience_Settings
    Combo_Cooldown Provider_Cooldown Combo_Rotation Think_Tags
begin

text \<open>
  A model of the traffic-control core of the gateway: the parts that decide whether a request
  runs now, waits, or is turned away. The gateway itself (TypeScript) translates between chat
  APIs of many providers; this development leaves that aside and models the components every
  request passes on its way to a provider.

  THE PARTS AND HOW THEY INTERACT

  A request's address is filtered (\<open>ipFilter.ts\<close>). It is costed and admitted by the adaptive admission controller
  (\<open>open-sse/services/admission/\<close>). The policies of \<open>src/domain/\<close> refuse locked-out clients and
  name fallback providers. Identical concurrent requests are
  merged, decks rotate the connections and, within a connection, the rotator its API keys. A combo of
  the quota-share strategy is routed by deficit round robin over the connections that are not
  saturated and have a free slot; other combos rotate over their targets or draw them by weight. What
  failed is remembered: a model that failed on an account is locked for a while, a provider that
  failed cools down, and a combo all of whose targets are locked may wait for the first of them.
  Quota sharing (\<open>src/lib/quota/\<close>) decides whether the key may use the
  pool, and the budget rules whether it may spend more; what calls cost comes back through the
  buffered cost writer. Before the upstream call the account semaphore, the per-model rate-limit semaphore, the
  sliding-window limiter and the rolling requests-per-minute gate bound concurrency and rate
  (all in \<open>open-sse/services/\<close>), and the circuit breaker
  (\<open>src/shared/utils/circuitBreaker.ts\<close>) guards the call and learns from its outcome. The thresholds,
  cooldowns and budgets of these parts are the resilience settings, which an operator patches. What an
  upstream streams back passes a parser that splits off textual reasoning. Agents that
  work in phases are driven by the workflow state machine. The components
  share no state: each module keeps its own maps, and each theory here keeps its own state record;
  only the quota-share strategy reads another one's, the saturated buckets, and the wait of a combo
  the model lockouts.

  THEORIES

  \<^item> \<open>Prelude\<close>: JavaScript numbers and untyped values, results, insertion-ordered maps, decimal
    strings, and the locale \<open>step_invariant\<close> (a step relation that keeps a property keeps it over
    every run), which the stateful components interpret.
  \<^item> \<open>Admission_Queue\<close> (\<open>queue.ts\<close>): the fair cost queue, its buckets, round-robin cursor and the
    reservation for a head that was passed over too often. Invariant \<open>fq_wf\<close>; refinement of one
    FIFO per tenant (locale \<open>tenant_queue\<close>, interpreted by the code's queue); aging.
  \<^item> \<open>Admission_Cost\<close> (\<open>cost.ts\<close>): validated cost quanta, and the estimator as a capped sum.
  \<^item> \<open>Admission_Adaptation\<close> (\<open>adaptation.ts\<close>): the feedback loop that moves the limit.
  \<^item> \<open>Admission_Config\<close> (\<open>config.ts\<close>): validation of every setting, with the error it raises.
  \<^item> \<open>Admission_Controller\<close> (\<open>controller.ts\<close>): acquire in the modes off, shadow and enforce, release,
    dispatch over the shared queue and the virtual lanes, deadline timers, abort listeners, window
    tick, lane eviction, reconfiguration and shutdown. \<open>Admission_Invariants\<close> and
    \<open>Admission_Correct\<close> prove the controller's invariant for every operation;
    \<open>Admission_Properties\<close> states its properties.
  \<^item> \<open>Circuit_Breaker\<close> (\<open>circuitBreaker.ts\<close>): states CLOSED, DEGRADED, OPEN, HALF_OPEN, thresholds by
    kind of failure, backoff, the saved row with loads and saves that fail, and the registry with
    eviction.
  \<^item> \<open>Sliding_Window\<close> (\<open>slidingWindowLimiter.ts\<close>): hits per key, several scopes at once.
  \<^item> \<open>Rolling_Gate\<close> (\<open>rollingRpmGate.ts\<close>): learned header windows and the waiting loop, one turn of
    which is a function of the clock.
  \<^item> \<open>Rate_Semaphore\<close> (\<open>rateLimitSemaphore.ts\<close>): gates in a store, addressed by the map, because
    timers capture a gate that may have left the map.
  \<^item> \<open>Account_Semaphore\<close> (\<open>accountSemaphore.ts\<close>): requests that need several gates at once. The
    invariant \<open>acct_ok\<close> says that a gate's queue is the pending requests that name it, in arrival
    order, and that its count is the number of release functions held for it.
  \<^item> \<open>Lockout_Policy\<close>, \<open>Fallback_Policy\<close> (\<open>src/domain/\<close>): cache and table rows
    (\<open>src/lib/db/domainState.ts\<close>).
  \<^item> \<open>Fair_Share\<close> (\<open>fairShare.ts\<close>, \<open>dimensions.ts\<close>, \<open>burnRate.ts\<close>): the quota decision and the
    smoothed burn rate. \<open>Account_Buckets\<close> (\<open>accountBuckets.ts\<close>): exhausted quota windows with lazy
    reset. \<open>Adaptive_Circuit\<close> (\<open>src/lib/resilience/adaptiveCircuit.ts\<close>).
  \<^item> \<open>Spend_Writer\<close> (\<open>src/lib/spend/batchWriter.ts\<close> and the cost table): buffered costs, the flush
    with its suspension, failure and requeueing. \<open>Utc_Calendar\<close> is the UTC part of the \<open>Date\<close>
    object. \<open>Budget_Rules\<close> (\<open>src/domain/costRules.ts\<close>): limits per reset window, the schedule and
    the check; \<open>Budget_Properties\<close> adds the summaries and what holds over whole runs, with the
    invariant \<open>budgets_ok\<close> that ties cached and stored budgets to the log of resets.
  \<^item> \<open>Policy_Engine\<close> (\<open>src/domain/policyEngine.ts\<close>): the verdict on a request composed of the lockout,
    budget and fallback policies, and the declarative policies with their glob patterns.
  \<^item> \<open>Ip_Filter\<close> (\<open>ipFilter.ts\<close>): lists with CIDR entries over 32-bit words, temporary bans, the
    persisted configuration. \<open>Shuffle_Deck\<close> (\<open>src/shared/utils/shuffleDeck.ts\<close>): the rotation of
    models and connections. \<open>Request_Dedup\<close> (\<open>requestDedup.ts\<close>): concurrent identical requests that
    share one upstream call.
  \<^item> \<open>Quota_Inflight\<close> (\<open>combo/quotaShareInflight.ts\<close>): requests in flight per connection as leases that
    age out. \<open>Quota_Share\<close> (\<open>combo/quotaShareStrategy.ts\<close>): the selection of a target, over the buckets
    of \<open>Account_Buckets\<close> and these leases, with the release callback it hands out.
  \<^item> \<open>Key_Rotator\<close> (\<open>apiKeyRotator.ts\<close>): the health of API keys, their rotation, and the key a running
    request keeps.
  \<^item> \<open>Resilience_Settings\<close> (\<open>src/lib/resilience/settings.ts\<close> with \<open>settings/\<close>): untyped stored values,
    legacy keys and patches as settings. \<open>settings_ok\<close> is the type of settings: a range per field;
    \<open>coherent\<close> relates fields to each other.
  \<^item> \<open>Model_Lockout\<close> (\<open>accountFallback.ts\<close> with \<open>accountFallback/\<close>): the lock of a model on an account
    under three kinds of key, failure counts with backoff, expiry and eviction. \<open>Combo_Cooldown\<close>
    (\<open>combo/comboCooldownRetry.ts\<close>, \<open>combo.ts\<close>): whether a combo waits for the lock that ends first, and
    what a request may wait in all. \<open>Provider_Cooldown\<close> (\<open>providerCooldownTracker.ts\<close>): failures per
    provider and connection. \<open>Combo_Rotation\<close> (\<open>combo/rrState.ts\<close>, \<open>combo.ts\<close>,
    \<open>combo/targetResolution.ts\<close>, \<open>combo/targetSorters.ts\<close>): round robin in sticky batches and
    weighted selection.
  \<^item> \<open>Think_Tags\<close> (\<open>open-sse/utils/thinkTagParser.ts\<close>): reasoning that a model writes between tags, split
    off a whole text and off a stream; the meaning of the tags is the function \<open>tag_scan\<close>.
  \<^item> \<open>Workflow_Fsm\<close> (\<open>workflowFSM.ts\<close>): the phases of a task by risk, with retries and reviews.

  WHAT THE LEMMAS SHOW

  For the controller: the invariant of all operations (charged cost equals the cost of the active
  leases, queues are well formed, every waiting promise has its timer, shadow accounting is exact),
  each promise settles once, the limit bounds the charged cost, dispatch leaves no request behind
  that would fit, release is idempotent, shutdown settles everything, reconfiguration is
  transactional. For the limiters and semaphores: counting invariants over every run, first-come
  first-served service, bounds, atomicity. For the breaker: how it opens, when it probes, what a
  restart restores, also after saves that failed. For the policies: a lock holds until it expires, attempts are counted as a
  sliding window over the whole history would count them, a fallback chain is walked completely
  and in order; allowed keys never oversubscribe a saturated pool; a bucket answers exactly what
  its last observation says; every recorded cost is in one place and counted once by the budget
  check, budget windows tile the time line, and each reset is logged once; a locked client
  stays turned away whatever the gateway does, and declarative policies decide as their reference says; bans hold,
  decks serve whole cycles, and every deduplicated caller is answered once, by a call of its own
  tenant. The deficit round robin gives each connection its weighted share up to one bounded
  remainder, reservations match the callbacks that are still open, and an orphaned reservation ages
  out. The health of a key is what the history of its failures and successes says, invalid keys are
  not served, the usable ones take turns. A model that failed stays locked until its cooldown ends, only for its account, and each
  failure of a streak doubles the cooldown; a provider is in cooldown exactly as long as its failures
  say. A combo waits no longer than its budget, and a wait it makes ends the lock it waits for. A
  rotation serves its targets in equal batches, and a conversation bound to a connection by that one. Streamed reasoning is split off the same however the
  stream is cut into chunks. Settings are well typed whatever is stored or patched, as far as the environment's own values are, and survive storage up to
  a repair of the relations between fields. A workflow
  ends, is done only through its reviews, and stands still exactly where it waits for a verdict. Some theorems record where the code falls short of what it means to
  do: a failed flush after which nothing is stored, cooldowns forgotten by a release, half-open probes that are never given back, openings that
  are not saved, stale releases after a reset, a failure under lock reported as not locked.

  CONVENTIONS

  Every synchronous operation takes the current time as the argument \<open>now\<close> and the state
  explicitly; callbacks (timers, abort listeners) are operations of their own, and any order of
  operations is a run. JavaScript maps are association lists with the insertion order of the
  code. Promise settlements go to a log. Thrown errors are the left side of a sum; messages are
  dropped, codes are kept. Integers are unbounded: the code keeps counters and times below
  \<open>Number.MAX_SAFE_INTEGER\<close>, and where it saturates the saturation is written out. Fractional
  doubles are rationals, without rounding. Database calls that the code wraps in a catch either
  succeed or do nothing. No definition uses fuel except \<open>walk\<close>, which stands for a caller: the
  loops of the code are recursive functions with a proof of termination, by the length of the
  queue they shorten.

  PARAMETERS

  \<open>Date.parse\<close> in \<open>Account_Buckets\<close>, \<open>Number(string)\<close> (\<open>num_of\<close>) in \<open>Budget_Rules\<close> and the local
  midnights in \<open>Budget_Properties\<close>, \<open>isIP\<close> in \<open>Ip_Filter\<close>, the random source in \<open>Shuffle_Deck\<close>
  (below its bound, as \<open>crypto.randomInt\<close> documents) and the digest in \<open>Request_Dedup\<close> (sixteen
  characters, as sliced) are arguments; so are the process environment and \<open>Number\<close> of a string, an
  array or an object in \<open>Resilience_Settings\<close>; the table of provider aliases (\<open>canon\<close>), the time to the
  next local midnight (\<open>midnight\<close>), the model in a model string (\<open>model_of\<close>) and the wait that a hint
  stands for (\<open>computeWaitMs\<close>) in the lockouts and cooldowns; the random numbers, the target a
  conversation is bound to and the order of prompt-cache affinity in \<open>Combo_Rotation\<close>. In \<open>Circuit_Breaker\<close> the way a guarded call
  ends carries the verdict of the caller's \<open>isFailure\<close> and \<open>classifyError\<close>.

  NOT MODELLED

  Request translation, executors and handlers (network input and output against third parties),
  the database driver, the dashboard, the command line and the plugins. Of the modelled files:
  logging, JSON encoding of stored rows, regular expressions over error texts
  (\<open>isLocalStreamLifecycleError\<close>), zod schemas, and \<open>runtime.ts\<close> of the admission controller, which
  wires settings and environment to it. Of \<open>accountFallback.ts\<close> and \<open>combo.ts\<close>, the classification of
  errors by the texts of providers, the dispatch of one target with its retries, and the plumbing of
  responses; of the combo strategies, wildcard expansion, the orders by cost and usage, and how
  session stickiness and prompt-cache affinity choose (what a rotation makes of their choice is
  modelled).
\<close>

end
